(* ===== verification/Prelude.thy ===== *)
theory Prelude
  imports Main "HOL-Library.Word"
begin

unbundle bit_operations_syntax

section \<open>Shared types, errors, byte order and streams\<close>

text \<open>
  What every component of the model shares: the machine types, the error values of
  \<^verbatim>\<open>errors.go\<close> and of the other files with Go's \<^verbatim>\<open>errors.Is\<close>, little- and
  big-endian reads (\<^verbatim>\<open>encoding/binary\<close>), bit lists, and the part of an
  \<^verbatim>\<open>io.Reader\<close> that \<^verbatim>\<open>io.ReadFull\<close> observes.
\<close>

type_synonym byte = "8 word"
type_synonym u16 = "16 word"
type_synonym u32 = "32 word"
type_synonym u64 = "64 word"

named_theorems bounds_simps \<open>numeric bounds of decoded values\<close>
named_theorems refine_simps \<open>facts that relate a concrete state to its abstraction\<close>

subsection \<open>Calls that return\<close>

text \<open>
  A call that may not return is an option, with \<open>None\<close> for not returning. \<open>returns m Q\<close>:
  the call returns, and what it returns satisfies \<open>Q\<close>.
\<close>

definition returns :: "'a option \<Rightarrow> ('a \<Rightarrow> bool) \<Rightarrow> bool" where
  "returns m Q \<longleftrightarrow> (\<exists>x. m = Some x \<and> Q x)"

lemma returns_Some [simp]: "returns (Some x) Q \<longleftrightarrow> Q x"
  by (simp add: returns_def)

lemma returns_None [simp]: "\<not> returns None Q"
  by (simp add: returns_def)

lemma returnsE: "returns m Q \<Longrightarrow> (\<And>x. m = Some x \<Longrightarrow> Q x \<Longrightarrow> P) \<Longrightarrow> P"
  by (auto simp: returns_def)

lemma returns_bind: "returns m (\<lambda>x. returns (g x) Q) \<Longrightarrow> returns (Option.bind m g) Q"
  by (auto simp: returns_def)

lemma returns_mono: "returns m Q \<Longrightarrow> (\<And>x. Q x \<Longrightarrow> R x) \<Longrightarrow> returns m R"
  by (auto simp: returns_def)

lemma returns_seq: "returns m Q \<Longrightarrow> (\<And>x. Q x \<Longrightarrow> returns (g x) R) \<Longrightarrow> returns (Option.bind m g) R"
  by (auto simp: returns_def)

subsection \<open>Errors\<close>

text \<open>
  The sentinels keep their Go names; \<open>EOF\<close> and \<open>ErrUnexpectedEOF\<close> are the two of
  package \<^verbatim>\<open>io\<close>. \<open>Wrap es\<close> is the value of \<^verbatim>\<open>fmt.Errorf\<close> with the operands
  \<open>es\<close> under \<^verbatim>\<open>%w\<close>, in order; message text (also what goes in under \<^verbatim>\<open>%v\<close>) is
  not modelled, as no code branches on it. \<open>Other s\<close> is an error with no sentinel:
  one made in place, or one of the caller's stream.
\<close>

datatype err =
    EOF
  | ErrUnexpectedEOF
  | ErrTruncatedVint
  | ErrDecoderOutOfData
  | ErrHuffDecodeFailed
  | ErrInvalidLengthTable
  | ErrWindowOffsetBounds
  | ErrUnknownFilter
  | ErrCorruptDecodeHeader
  | ErrTooManyFilters
  | ErrInvalidFilter
  | ErrBadBlockHeader
  | ErrBadHeaderCRC
  | ErrCorruptBlockHeader
  | ErrCorruptFileHeader
  | ErrUnknownEncryptMethod
  | ErrCorruptEncryptData
  | ErrUnpSizeUnknown
  | ErrNoNextVolume
  | ErrNoActiveFile
  | ErrRarBombDetected
  | ErrCRCMismatch
  | ErrWrongPassword
  | ErrPasswordRequired
  | ErrReaderClosed
  | ErrUnsupportedFormat
  | ErrTruncatedFile
  | ErrChecksumUnsupported
  | ErrCorruptArchiveHeader
  | ErrNotFirstVolume
  | ErrUnsupportedEncryptionVersion
  | ErrDictionaryTooLarge
  | ErrLinkEntry
  | ErrSolidFlagMismatch
  | ErrSolidStreamBroken
  | Other string
  | Wrap "err list"

text \<open>Go's \<^verbatim>\<open>errors.Is\<close>: the error itself, or any error it wraps.\<close>

fun err_is :: "err \<Rightarrow> err \<Rightarrow> bool" where
  "err_is (Wrap es) t = (Wrap es = t \<or> list_ex (\<lambda>e. err_is e t) es)"
| "err_is e t = (e = t)"

lemma err_is_refl [simp]: "err_is e e"
  by (cases e) simp_all

subsection \<open>Byte order\<close>

text \<open>Little-endian value of a byte list; \<open>le32 bs\<close> reads the first four bytes.\<close>

fun le_nat :: "byte list \<Rightarrow> nat" where
  "le_nat [] = 0"
| "le_nat (b # bs) = unat b + 256 * le_nat bs"

definition le16 :: "byte list \<Rightarrow> u16" where
  "le16 bs = word_of_nat (le_nat (take 2 bs))"

definition le32 :: "byte list \<Rightarrow> u32" where
  "le32 bs = word_of_nat (le_nat (take 4 bs))"

definition le64 :: "byte list \<Rightarrow> u64" where
  "le64 bs = word_of_nat (le_nat (take 8 bs))"

definition be64 :: "byte list \<Rightarrow> u64" where
  "be64 bs = foldl (\<lambda>a b. push_bit 8 a OR ucast b) 0 (take 8 bs)"

definition put_le32 :: "u32 \<Rightarrow> byte list" where
  "put_le32 w = [ucast w, ucast (drop_bit 8 w), ucast (drop_bit 16 w), ucast (drop_bit 24 w)]"

lemma byte_lt_256 [simp]: "unat (b :: byte) < 256"
  using unsigned_less [of b] by simp

lemma unat_drop_bit_div: "unat (drop_bit n (w :: 'a::len word)) = unat w div 2 ^ n"
  unfolding unsigned_drop_bit_eq
  by (metis drop_bit_eq_div take_bit_nat_eq_self unsigned_less)

lemma unat_ucast_small:
  "unat (w :: 'a::len word) < 2 ^ LENGTH('b::len) \<Longrightarrow> unat (ucast w :: 'b word) = unat w"
  by (simp add: unsigned_ucast_eq unsigned_take_bit_eq take_bit_nat_eq_self)

lemma unat_ucast_mod: "unat (ucast (w :: 'a::len word) :: 'b::len word) = unat w mod 2 ^ LENGTH('b)"
  by (simp add: unsigned_ucast_eq unsigned_take_bit_eq take_bit_eq_mod)

lemma word_of_nat_eqI: "unat (w :: 'a::len word) = n \<Longrightarrow> w = word_of_nat n"
  by (auto simp: word_unat_eq_iff unsigned_of_nat unsigned_take_bit_eq take_bit_nat_eq_self)

lemma ucast_word_of_nat: "unat (v :: 'b::len word) = n \<Longrightarrow> (ucast v :: 'a::len word) = word_of_nat n"
  by (auto simp: word_unat_eq_iff unsigned_of_nat unat_ucast_mod take_bit_eq_mod)

lemma unat_of_nat_small: "n < 2 ^ LENGTH('a) \<Longrightarrow> unat (word_of_nat n :: 'a::len word) = n"
  by (simp add: unsigned_of_nat unsigned_take_bit_eq take_bit_nat_eq_self)

lemma bit_iff_odd_unat: "bit (w :: 'a::len word) n \<longleftrightarrow> odd (unat w div 2 ^ n)"
proof -
  have "bit w n \<longleftrightarrow> bit (unat w) n" by (simp add: bit_unsigned_iff)
  then show ?thesis by (simp only: bit_iff_odd)
qed

lemma le_nat_less: "le_nat bs < 256 ^ length bs"
proof (induction bs)
  case Nil
  then show ?case by simp
next
  case (Cons b bs)
  have "unat b + 256 * le_nat bs < 256 * (1 + le_nat bs)"
    using byte_lt_256 [of b] by simp
  also have "\<dots> \<le> 256 * 256 ^ length bs"
    using Cons.IH by (intro mult_le_mono) simp_all
  finally show ?case by simp
qed

lemma length_put_le32 [simp]: "length (put_le32 w) = 4"
  by (simp add: put_le32_def)

lemma le32_put_le32 [simp]: "le32 (put_le32 w @ rest) = w"
proof -
  have e: "unat (ucast (x :: u32) :: byte) = unat x mod 256" for x
    by (simp add: unat_ucast_mod)
  note d = unat_drop_bit_div [of _ w]
  have w: "unat w < 4294967296" using unsigned_less [of w] by simp
  let ?u = "unat w"
  have q: "?u div 16777216 mod 256 = ?u div 16777216" using w by simp
  have m: "x mod 256 + 256 * (x div 256) = x" for x :: nat by simp
  have d2: "?u div 65536 = ?u div 256 div 256" "?u div 16777216 = ?u div 256 div 256 div 256"
    by (simp_all add: div_mult2_eq [symmetric])
  have "?u mod 256 + 256 * (?u div 256 mod 256 + 256 * (?u div 65536 mod 256 + 256 * (?u div 16777216))) = ?u"
    unfolding d2 m ..
  then show ?thesis
    using q by (simp add: le32_def put_le32_def e d)
qed

lemma put_le32_le32:
  assumes "4 \<le> length bs"
  shows "put_le32 (le32 bs) = take 4 bs"
proof -
  obtain a b c d rest where bs: "bs = a # b # c # d # rest"
    using assms by (auto simp: numeral_eq_Suc Suc_le_length_iff)
  let ?v = "unat a + 256 * (unat b + 256 * (unat c + 256 * unat d))"
  have lt: "unat a < 256" "unat b < 256" "unat c < 256" "unat d < 256" by simp_all
  have "?v < 4294967296" using le_nat_less [of "[a, b, c, d]"] by simp
  then have w: "unat (le32 bs) = ?v"
  proof -
    have n: "unat (word_of_nat n :: u32) = n" if "n < 4294967296" for n
      using that by (simp add: unsigned_of_nat unsigned_take_bit_eq take_bit_nat_eq_self)
    have "take 4 bs = [a, b, c, d]" by (simp add: bs)
    moreover have "le_nat [a, b, c, d] = ?v" by simp
    ultimately have "le32 bs = word_of_nat ?v" by (simp only: le32_def)
    with n [OF \<open>?v < 4294967296\<close>] show ?thesis by (simp only:)
  qed
  have b: "(ucast (drop_bit k (le32 bs)) :: byte) = x" if "?v div 2 ^ k mod 256 = unat x" for k and x :: byte
    using that by (simp add: word_unat_eq_iff unat_ucast_mod unat_drop_bit_div w)
  have div_shift: "(x + 256 * y) div 256 = y" if "x < 256" for x y :: nat using that by simp
  have q: "?v div 256 = unat b + 256 * (unat c + 256 * unat d)"
    "?v div 65536 = unat c + 256 * unat d" "?v div 16777216 = unat d"
  proof -
    show 1: "?v div 256 = unat b + 256 * (unat c + 256 * unat d)" by (rule div_shift [OF lt(1)])
    have "?v div 65536 = ?v div 256 div 256" by (simp add: div_mult2_eq [symmetric])
    then show 2: "?v div 65536 = unat c + 256 * unat d" unfolding 1 by (simp only: div_shift [OF lt(2)])
    have "?v div 16777216 = ?v div 65536 div 256" by (simp add: div_mult2_eq [symmetric])
    then show "?v div 16777216 = unat d" unfolding 2 by (simp only: div_shift [OF lt(3)])
  qed
  have mod_shift: "(x + 256 * y) mod 256 = x" if "x < 256" for x y :: nat using that by simp
  have p: "(2::nat) ^ 8 = 256" "(2::nat) ^ 16 = 65536" "(2::nat) ^ 24 = 16777216" by simp_all
  have "?v div 2 ^ 0 mod 256 = unat a" by (simp only: power_0 div_by_1 mod_shift [OF lt(1)])
  moreover have "?v div 2 ^ 8 mod 256 = unat b" unfolding p q by (rule mod_shift [OF lt(2)])
  moreover have "?v div 2 ^ 16 mod 256 = unat c" unfolding p q by (rule mod_shift [OF lt(3)])
  moreover have "?v div 2 ^ 24 mod 256 = unat d" unfolding p q using lt(4) by simp
  ultimately show ?thesis
    using b [of 0 a] b [of 8 b] b [of 16 c] b [of 24 d] by (simp only: put_le32_def bs) simp
qed

subsection \<open>Bit lists\<close>

text \<open>
  The bits of a byte, most significant first, the bits of a buffer, and the number a bit
  list spells.
\<close>

definition byte_bits :: "byte \<Rightarrow> bool list" where
  "byte_bits b = map (bit b) [7, 6, 5, 4, 3, 2, 1, 0]"

definition bits_of :: "byte list \<Rightarrow> bool list" where
  "bits_of bs = concat (map byte_bits bs)"

definition bits_nat :: "bool list \<Rightarrow> nat" where
  "bits_nat bs = foldl (\<lambda>a b. 2 * a + of_bool b) 0 bs"

lemma length_byte_bits [simp]: "length (byte_bits b) = 8"
  by (simp add: byte_bits_def)

lemma byte_bits_nth: "i < 8 \<Longrightarrow> byte_bits b ! i = bit b (7 - i)"
  by (simp add: byte_bits_def less_Suc_eq numeral_nat) (elim disjE; simp)

lemma bits_of_Nil [simp]: "bits_of [] = []"
  by (simp add: bits_of_def)

lemma bits_of_Cons [simp]: "bits_of (b # bs) = byte_bits b @ bits_of bs"
  by (simp add: bits_of_def)

lemma length_bits_of [simp]: "length (bits_of bs) = 8 * length bs"
  by (induction bs) simp_all

lemma bits_of_nth: "p < 8 * length bs \<Longrightarrow> bits_of bs ! p = bit (bs ! (p div 8)) (7 - p mod 8)"
proof (induction bs arbitrary: p)
  case Nil
  then show ?case by simp
next
  case (Cons b bs)
  show ?case
  proof (cases "p < 8")
    case True
    then show ?thesis by (simp add: nth_append byte_bits_nth)
  next
    case False
    then obtain q where p: "p = q + 8" by (metis le_add_diff_inverse2 not_le)
    with Cons.prems have "q < 8 * length bs" by simp
    moreover have "(q + 8) div 8 = Suc (q div 8)" by simp
    ultimately show ?thesis using Cons.IH [of q] p by (simp add: nth_append del: div_add_self2)
  qed
qed

lemma bits_of_nth_byte:
  assumes "k < length bs" and "i < 8"
  shows "bits_of bs ! (8 * k + 7 - i) = bit (bs ! k) i"
proof -
  have "8 * k + 7 - i = (7 - i) + k * 8" using assms by simp
  moreover have "((7 - i) + k * 8) div 8 = k" "((7 - i) + k * 8) mod 8 = 7 - i"
    using assms by (simp_all only: div_mult_self1 mod_mult_self1) simp_all
  ultimately show ?thesis using assms bits_of_nth [of "(7 - i) + k * 8" bs] by simp
qed

lemma bits_nat_Nil [simp]: "bits_nat [] = 0"
  by (simp add: bits_nat_def)

lemma bits_nat_snoc [simp]: "bits_nat (bs @ [b]) = 2 * bits_nat bs + of_bool b"
  by (simp add: bits_nat_def)

lemma bits_nat_append: "bits_nat (xs @ ys) = bits_nat xs * 2 ^ length ys + bits_nat ys"
  by (induction ys rule: rev_induct) (simp_all flip: append_assoc add: algebra_simps)

lemma bits_nat_less: "bits_nat bs < 2 ^ length bs"
  by (induction bs rule: rev_induct) (auto simp: of_bool_def)

lemma bits_nat_replicate_False [simp]: "bits_nat (replicate n False) = 0"
proof (induction n)
  case (Suc n)
  have "replicate (Suc n) False = replicate n False @ [False]"
    by (simp add: replicate_append_same)
  with Suc show ?case by (simp del: replicate.simps)
qed simp

lemma bit_bits_nat: "bit (bits_nat bs) i \<longleftrightarrow> i < length bs \<and> bs ! (length bs - Suc i)"
proof -
  have "bits_nat bs = horner_sum of_bool 2 (rev bs)"
    by (induction bs rule: rev_induct) simp_all
  then show ?thesis by (auto simp: bit_horner_sum_bit_iff rev_nth)
qed

lemma bits_nat_eqI:
  assumes "\<And>i. bit w i \<longleftrightarrow> i < length bs \<and> bs ! (length bs - Suc i)"
  shows "unat (w :: 'a::len word) = bits_nat bs"
  by (rule bit_eqI) (simp add: bit_unsigned_iff bit_bits_nat assms)

subsection \<open>Input streams\<close>

text \<open>
  What a chain of \<^verbatim>\<open>io.Reader\<close>s still delivers: its bytes, and the error that comes
  after the last one (\<open>EOF\<close> for a clean end). \<open>readFull s n\<close> is \<^verbatim>\<open>io.ReadFull\<close> with a
  slice of \<open>n\<close> bytes.
\<close>

record stream =
  st_data :: "byte list"
  st_end :: err

definition readFull :: "stream \<Rightarrow> nat \<Rightarrow> byte list \<times> err option \<times> stream" where
  "readFull s n =
     (let got = take n (st_data s); s' = s\<lparr>st_data := drop n (st_data s)\<rparr>
      in if n \<le> length (st_data s) then (got, None, s')
         else (got, Some (if st_end s = EOF \<and> got \<noteq> [] then ErrUnexpectedEOF else st_end s), s'))"

lemma readFull_ok [simp]:
  "n \<le> length (st_data s) \<Longrightarrow> readFull s n = (take n (st_data s), None, s\<lparr>st_data := drop n (st_data s)\<rparr>)"
  by (simp add: readFull_def)

lemma readFull_cases:
  assumes "readFull s n = (got, e, s')"
  shows "st_data s' = drop n (st_data s)" and "got = take n (st_data s)" and "st_end s' = st_end s"
    and "e = None \<longleftrightarrow> n \<le> length (st_data s)"
  using assms by (auto simp: readFull_def Let_def split: if_splits)

end
