(* ===== verification/Vint.thy ===== *)
theory Vint
  imports Prelude
begin

section \<open>Variable-length integers (vint.go)\<close>

text \<open>
  \<^verbatim>\<open>decodeVint\<close> and \<^verbatim>\<open>encodeVint\<close>. The decoder accepts at most ten bytes; the tenth
  carries bit 63, so its upper bits fall off the 64-bit value exactly as the Go shift
  drops them. The round trip, the exact failure condition, the consumed length and the
  independence of the bytes behind the integer are proved here; every header parser of
  the model rests on them.
\<close>

subsection \<open>The code\<close>

fun decodeVint_loop :: "byte list \<Rightarrow> nat \<Rightarrow> u64 \<Rightarrow> nat \<Rightarrow> err + (u64 \<times> nat)" where
  "decodeVint_loop [] i x s = Inl ErrTruncatedVint"
| "decodeVint_loop (n # b) i x s =
     (if 10 \<le> i then Inl ErrTruncatedVint
      else if n < 0x80 then Inr (x OR push_bit s (ucast n), i + 1)
      else decodeVint_loop b (i + 1) (x OR push_bit s (ucast (n AND 0x7f))) (s + 7))"

definition decodeVint :: "byte list \<Rightarrow> err + (u64 \<times> nat)" where
  "decodeVint b = decodeVint_loop b 0 0 0"

function encodeVint :: "u64 \<Rightarrow> byte list" where
  "encodeVint v =
     (if 0x80 \<le> v then ucast (v OR 0x80) # encodeVint (drop_bit 7 v) else [ucast v])"
  by pat_completeness auto
termination
proof (relation "measure unat", goal_cases)
  case 1
  then show ?case by simp
next
  case (2 v)
  then have "0 < unat v" by (simp add: word_le_nat_alt)
  then show ?case by (simp add: unat_drop_bit_div del: drop_bit_eq_div)
qed

declare encodeVint.simps [simp del]

subsection \<open>Decoding: consumption and failure\<close>

lemma and_7f_take_bit: "w AND 0x7f = take_bit 7 (w :: 'a::len word)"
  by (simp add: take_bit_eq_mask mask_eq_exp_minus_1)

lemma or_80_set_bit: "w OR 0x80 = set_bit 7 (w :: 'a::len word)"
  by (simp add: set_bit_eq_or push_bit_of_1)

lemma byte_less_80_iff: "n < 0x80 \<longleftrightarrow> \<not> bit (n :: byte) 7"
proof -
  have "odd (unat n div 128) \<longleftrightarrow> 128 \<le> unat n"
  proof (cases "unat n < 128")
    case False
    then have "unat n div 128 = 1" using byte_lt_256 [of n] by (intro div_nat_eqI) simp_all
    with False show ?thesis by simp
  qed simp
  moreover have "bit n 7 \<longleftrightarrow> odd (unat n div 128)" by (simp add: bit_iff_odd_unat)
  ultimately show ?thesis by (simp add: word_less_nat_alt not_le)
qed

lemma decodeVint_loop_consumed:
  "decodeVint_loop b i x s = Inr (v, n) \<Longrightarrow> i < n \<and> n \<le> 10 \<and> n \<le> i + length b"
  by (induction b i x s rule: decodeVint_loop.induct) (auto split: if_splits)

lemma decodeVint_loop_append:
  "decodeVint_loop b i x s = Inr r \<Longrightarrow> decodeVint_loop (b @ c) i x s = Inr r"
  by (induction b i x s rule: decodeVint_loop.induct) (auto split: if_splits)

lemma decodeVint_loop_fails_iff:
  "decodeVint_loop b i x s = Inl e \<longleftrightarrow>
     e = ErrTruncatedVint \<and> (\<forall>n \<in> set (take (10 - i) b). 0x80 \<le> n)"
  by (induction b i x s rule: decodeVint_loop.induct) (auto simp: take_Cons' not_le not_less)

lemma decodeVint_bounds [bounds_simps]:
  "decodeVint b = Inr (v, n) \<Longrightarrow> 0 < n \<and> n \<le> 10 \<and> n \<le> length b"
  using decodeVint_loop_consumed [of b 0 0 0] by (simp add: decodeVint_def)

lemma decodeVint_prefix: "decodeVint b = Inr r \<Longrightarrow> decodeVint (b @ c) = Inr r"
  by (simp add: decodeVint_def decodeVint_loop_append)

lemma decodeVint_error_only: "decodeVint b = Inl e \<Longrightarrow> e = ErrTruncatedVint"
  by (simp add: decodeVint_def decodeVint_loop_fails_iff)

subsection \<open>Round trip\<close>

lemma ucast_low7: "ucast (ucast (v OR 0x80 :: u64) AND 0x7f :: byte) = v AND 0x7f"
  unfolding and_7f_take_bit or_80_set_bit by (rule bit_word_eqI) (auto simp: bit_simps)

lemma vint_group_join:
  "(x OR push_bit s (v AND 0x7f)) OR push_bit (s + 7) (drop_bit 7 v) = x OR push_bit s (v :: u64)"
proof (rule bit_word_eqI)
  fix n assume "n < LENGTH(64)"
  then show "bit ((x OR push_bit s (v AND 0x7f)) OR push_bit (s + 7) (drop_bit 7 v)) n
      = bit (x OR push_bit s v) n"
    unfolding and_7f_take_bit by (cases "s + 7 \<le> n") (auto simp: bit_simps)
qed

lemma vint_last_byte:
  assumes "v < (0x80 :: u64)"
  shows "(ucast v :: byte) < 0x80" and "ucast (ucast v :: byte) = v"
proof -
  have v: "unat v < 128" using assms by (simp add: word_less_nat_alt)
  then have u: "unat (ucast v :: byte) = unat v"
    by (simp add: unat_ucast_small)
  then show "(ucast v :: byte) < 0x80" using v by (simp add: word_less_nat_alt)
  have "unat (ucast (ucast v :: byte) :: u64) = unat v"
    using u unat_ucast_small [of "ucast v :: byte", where 'b = 64] byte_lt_256 [of "ucast v"]
    by simp
  then show "ucast (ucast v :: byte) = v" by (simp only: word_unat_eq_iff)
qed

lemma encodeVint_nonempty: "encodeVint v \<noteq> []"
  by (subst encodeVint.simps) simp

lemma decode_encode_loop:
  assumes "s = 7 * i" and "i < 10" and "unat v * 2 ^ s < 2 ^ 64"
  shows "decodeVint_loop (encodeVint v @ rest) i x s
           = Inr (x OR push_bit s v, i + length (encodeVint v))"
  using assms
proof (induction v arbitrary: i s x rule: encodeVint.induct)
  case (1 v)
  show ?case
  proof (cases "0x80 \<le> v")
    case True
    then have v: "2 ^ 7 \<le> unat v" by (simp add: word_le_nat_alt)
    then have "2 ^ 7 * 2 ^ s \<le> unat v * 2 ^ s" by (rule mult_right_mono) simp
    then have "(2::nat) ^ (7 + s) < 2 ^ 64" using "1.prems"(3) by (simp only: power_add)
    then have s: "7 + s < 64" by (rule power_less_imp_less_exp [rotated]) simp
    have "unat (drop_bit 7 v) * 2 ^ (s + 7) = unat v div 2 ^ 7 * 2 ^ 7 * 2 ^ s"
      by (simp only: unat_drop_bit_div power_add ac_simps)
    also have "\<dots> \<le> unat v * 2 ^ s"
      by (intro mult_right_mono) (simp_all add: times_div_less_eq_dividend mult.commute)
    finally have small: "unat (drop_bit 7 v) * 2 ^ (s + 7) < 2 ^ 64"
      using "1.prems"(3) by simp
    have head: "\<not> (ucast (v OR 0x80) :: byte) < 0x80"
      by (simp add: byte_less_80_iff bit_simps)
    have IH: "decodeVint_loop (encodeVint (drop_bit 7 v) @ rest) (i + 1) y (s + 7)
        = Inr (y OR push_bit (s + 7) (drop_bit 7 v), i + 1 + length (encodeVint (drop_bit 7 v)))"
      for y
      by (rule "1.IH" [OF True]) (use "1.prems"(1) s small in simp_all)
    have "decodeVint_loop (encodeVint v @ rest) i x s
        = decodeVint_loop (encodeVint (drop_bit 7 v) @ rest) (i + 1)
            (x OR push_bit s (v AND 0x7f)) (s + 7)"
      using True head "1.prems"(2)
      by (subst encodeVint.simps) (simp only: append_Cons decodeVint_loop.simps if_True if_False
        not_le [symmetric] ucast_low7)
    also have "\<dots> = Inr (x OR push_bit s v, i + 1 + length (encodeVint (drop_bit 7 v)))"
      by (simp only: IH vint_group_join)
    finally show ?thesis
      using True by (simp add: encodeVint.simps [of v])
  next
    case False
    then have "v < 0x80" by (simp add: not_le)
    note last = vint_last_byte [OF this]
    then show ?thesis
      using False "1.prems"(2) by (subst (1 2) encodeVint.simps) simp
  qed
qed

lemma encodeVint_length: "0 < length (encodeVint v) \<and> length (encodeVint v) \<le> 10"
  using decode_encode_loop [of 0 0 v "[]" 0] decodeVint_loop_consumed [of "encodeVint v" 0 0 0]
    unsigned_less [of v]
  by auto

lemma decode_encode: "decodeVint (encodeVint v @ rest) = Inr (v, length (encodeVint v))"
  using decode_encode_loop [of 0 0 v rest 0] unsigned_less [of v] by (simp add: decodeVint_def)

subsection \<open>Properties\<close>

text \<open>C27. Every 64-bit value survives the encoder and the decoder, whatever bytes follow it, and
  the decoder reports exactly the encoded length, between one and ten bytes.\<close>

theorem vint_roundtrip:
  "decodeVint (encodeVint v @ rest) = Inr (v, length (encodeVint v))
   \<and> length (encodeVint v) \<in> {1..10}"
  using decode_encode [of v rest] encodeVint_length [of v] by (simp add: Suc_le_eq)

text \<open>The decoder is total: it fails, with \<^verbatim>\<open>ErrTruncatedVint\<close> only, exactly when none of
  the first ten bytes ends the integer; a success consumes between one and ten bytes that
  are there, and does not depend on what follows them.\<close>

theorem vint_decode_exact:
  "case decodeVint b of
     Inl e \<Rightarrow> e = ErrTruncatedVint \<and> (\<forall>n \<in> set (take 10 b). 0x80 \<le> n)
   | Inr (v, n) \<Rightarrow> 0 < n \<and> n \<le> 10 \<and> n \<le> length b \<and> (\<exists>x \<in> set (take 10 b). x < 0x80)
       \<and> (\<forall>c. decodeVint (take 10 b @ c) = Inr (v, n))"
proof (cases "decodeVint b")
  case (Inl e)
  then have "e = ErrTruncatedVint \<and> (\<forall>n \<in> set (take 10 b). 0x80 \<le> n)"
    using decodeVint_loop_fails_iff [of b 0 0 0 e] by (simp add: decodeVint_def)
  with Inl show ?thesis by simp
next
  case (Inr r)
  obtain v n where r: "r = (v, n)" by fastforce
  have "\<not> (\<forall>n \<in> set (take 10 b). 0x80 \<le> n)"
    using Inr decodeVint_loop_fails_iff [of b 0 0 0 ErrTruncatedVint] by (auto simp: decodeVint_def)
  then have some: "\<exists>x \<in> set (take 10 b). x < 0x80" by (auto simp: not_le)
  obtain r' where r': "decodeVint (take 10 b) = Inr r'"
    using some decodeVint_loop_fails_iff [of "take 10 b" 0 0 0]
    by (cases "decodeVint (take 10 b)") (auto simp: decodeVint_def not_le [symmetric])
  then have "decodeVint (take 10 b @ drop 10 b) = Inr r'" by (rule decodeVint_prefix)
  then have "decodeVint (take 10 b) = Inr (v, n)" using Inr r r' by simp
  then show ?thesis using Inr r some decodeVint_bounds [of b v n] decodeVint_prefix by auto
qed

theorem vint_decode_exact_witness:
  "\<not> (\<exists>x \<in> set (take 10 (replicate 11 (0x80 :: byte))). x < 0x80)
   \<and> decodeVint (replicate 11 0x80) = Inl ErrTruncatedVint"
proof -
  have none: "\<not> (\<exists>x \<in> set (take 10 (replicate 11 (0x80 :: byte))). x < 0x80)" by simp
  then show ?thesis
    using vint_decode_exact [of "replicate 11 0x80"] by (auto split: sum.splits)
qed

end
