(* ===== verification/Interfaces.thy ===== *)
theory Interfaces
  imports Prelude
begin

section \<open>The interfaces between the components\<close>

text \<open>
  What a client may rely on, stated once: a source of bits (the Huffman decoder and the
  symbol decoders read from it), a sliding window (the decoder writes to it), and a source that
  is read with \<^verbatim>\<open>io.ReadFull\<close> (the header parsers and the decoder read from it). Each locale is
  interpreted on the code's model in the theory of the component that provides it; sources
  that are read piecemeal are in theory Sources.
\<close>

subsection \<open>A source of bits\<close>

text \<open>
  \<open>rd r k\<close> reads \<open>k\<close> bits, \<open>bits r\<close> are the bits still readable, \<open>ok\<close> is the provider's
  invariant. A read either returns the next \<open>k\<close> bits as a number or fails without
  consuming any.
\<close>

locale bit_source =
  fixes rd :: "'r \<Rightarrow> nat \<Rightarrow> (err + nat) \<times> 'r"
    and bits :: "'r \<Rightarrow> bool list"
    and ok :: "'r \<Rightarrow> bool"
  assumes rd_ok: "ok r \<Longrightarrow> 0 < k \<Longrightarrow> k \<le> 57 \<Longrightarrow> k \<le> length (bits r)
      \<Longrightarrow> \<exists>r'. rd r k = (Inr (bits_nat (take k (bits r))), r') \<and> ok r' \<and> bits r' = drop k (bits r)"
    and rd_fail: "ok r \<Longrightarrow> k \<le> 57 \<Longrightarrow> length (bits r) < k
      \<Longrightarrow> \<exists>e r'. rd r k = (Inl e, r') \<and> (e = EOF \<or> e = ErrDecoderOutOfData) \<and> ok r' \<and> bits r' = bits r"
begin

lemma rd_Inr:
  assumes "rd r k = (Inr v, r')" and "ok r" and "0 < k" and "k \<le> 57"
  shows "ok r'" and "k \<le> length (bits r)" and "v = bits_nat (take k (bits r))"
    and "bits r' = drop k (bits r)" and "v < 2 ^ k"
proof -
  show k: "k \<le> length (bits r)"
    using assms rd_fail [of r k] by (cases "k \<le> length (bits r)") auto
  from rd_ok [OF assms(2-4) this] assms(1)
  show "ok r'" and "bits r' = drop k (bits r)" and v: "v = bits_nat (take k (bits r))" by auto
  show "v < 2 ^ k" using bits_nat_less [of "take k (bits r)"] k v by simp
qed

lemma rd_Inl:
  assumes "rd r k = (Inl e, r')" and "ok r" and "0 < k" and "k \<le> 57"
  shows "ok r'" and "length (bits r) < k" and "bits r' = bits r"
    and "e = EOF \<or> e = ErrDecoderOutOfData"
proof -
  show k: "length (bits r) < k"
    using assms rd_ok [of r k] by (cases "k \<le> length (bits r)") auto
  from rd_fail [OF assms(2,4) this] assms(1)
  show "ok r'" and "bits r' = bits r" and "e = EOF \<or> e = ErrDecoderOutOfData" by auto
qed

lemma rd_keeps_ok: "rd r k = (x, r') \<Longrightarrow> ok r \<Longrightarrow> 0 < k \<Longrightarrow> k \<le> 57 \<Longrightarrow> ok r'"
  using rd_Inr(1) rd_Inl(1) by (cases x) blast+

text \<open>Reading \<open>j\<close> and then \<open>k\<close> bits is reading \<open>j + k\<close>.\<close>

lemma rd_twice:
  assumes "rd r j = (Inr a, r1)" and "rd r1 k = (Inr b, r2)" and "ok r"
    and "0 < j" "j \<le> 57" "0 < k" "k \<le> 57"
  shows "a * 2 ^ k + b = bits_nat (take (j + k) (bits r))" and "bits r2 = drop (j + k) (bits r)"
proof -
  note 1 = rd_Inr [OF assms(1) assms(3-5)]
  note 2 = rd_Inr [OF assms(2) 1(1) assms(6,7)]
  have "length (take k (drop j (bits r))) = k" using 2(2) 1(4) by simp
  then show "a * 2 ^ k + b = bits_nat (take (j + k) (bits r))"
    using 1 2 by (simp add: take_add bits_nat_append)
  show "bits r2 = drop (j + k) (bits r)" using 1 2 by (simp add: add.commute)
qed

end

subsection \<open>A sliding window\<close>

text \<open>
  The LZ77 copy on an unbounded output: each byte is the one \<open>d\<close> back, the bytes just
  copied included.
\<close>

fun lz_copy :: "nat \<Rightarrow> nat \<Rightarrow> 'a list \<Rightarrow> 'a list" where
  "lz_copy d 0 out = out"
| "lz_copy d (Suc n) out = lz_copy d n (out @ [out ! (length out - d)])"

lemma lz_copy_add: "lz_copy d (m + n) out = lz_copy d n (lz_copy d m out)"
  by (induction m arbitrary: out) simp_all

lemma lz_copy_length [simp]: "length (lz_copy d n out) = length out + n"
  by (induction n arbitrary: out) simp_all

lemma lz_copy_prefix: "\<exists>xs. lz_copy d n out = out @ xs \<and> length xs = n"
proof (induction n arbitrary: out)
  case (Suc n)
  from Suc [of "out @ [out ! (length out - d)]"] show ?case by auto
qed simp

text \<open>A copy no longer than its distance is a block move.\<close>

lemma lz_copy_block:
  assumes "n \<le> d" and "d \<le> length out"
  shows "lz_copy d n out = out @ take n (drop (length out - d) out)"
  using assms(1)
proof (induction n)
  case (Suc n)
  have "lz_copy d (n + 1) out = lz_copy d 1 (lz_copy d n out)" by (rule lz_copy_add)
  also have "\<dots> = lz_copy d n out @ [lz_copy d n out ! (length out + n - d)]" by simp
  also have "lz_copy d n out ! (length out + n - d) = out ! (length out - d + n)"
    using Suc assms(2) by (simp add: nth_append)
  also have "lz_copy d n out @ [out ! (length out - d + n)]
      = out @ (take n (drop (length out - d) out) @ [drop (length out - d) out ! n])"
    using Suc assms(2) by simp
  also have "take n (drop (length out - d) out) @ [drop (length out - d) out ! n]
      = take (Suc n) (drop (length out - d) out)"
    using Suc.prems assms(2) by (intro take_Suc_conv_app_nth [symmetric]) simp
  finally show ?case by simp
qed simp

text \<open>
  \<open>rel w out p\<close>: everything written since the history was discarded is \<open>out\<close>, and the
  reader stands at \<open>p\<close>. \<open>cap w\<close> bytes can be held; what has not been read is never
  overwritten, and the last \<open>cap w\<close> bytes can be copied from.
\<close>

locale sliding_window =
  fixes put :: "'w \<Rightarrow> byte \<Rightarrow> 'w"
    and copy :: "'w \<Rightarrow> nat \<Rightarrow> int \<Rightarrow> (err option \<times> 'w) option"
    and drain :: "'w \<Rightarrow> nat \<Rightarrow> byte list \<times> 'w"
    and avail :: "'w \<Rightarrow> nat"
    and cap :: "'w \<Rightarrow> nat"
    and rel :: "'w \<Rightarrow> byte list \<Rightarrow> nat \<Rightarrow> bool"
  assumes put_rel: "rel w out p \<Longrightarrow> length out - p < cap w
      \<Longrightarrow> rel (put w c) (out @ [c]) p \<and> cap (put w c) = cap w"
    and copy_rel: "rel w out p \<Longrightarrow> length out - p + n \<le> cap w \<Longrightarrow> 0 < d \<Longrightarrow> d \<le> int (min (length out) (cap w))
      \<Longrightarrow> \<exists>w'. copy w n d = Some (None, w') \<and> rel w' (lz_copy (nat d) n out) p \<and> cap w' = cap w"
    and copy_bad: "rel w out p \<Longrightarrow> d \<le> 0 \<or> int (min (length out) (cap w)) < d
      \<Longrightarrow> copy w n d = Some (Some ErrWindowOffsetBounds, w)"
    and drain_rel: "rel w out p
      \<Longrightarrow> \<exists>w'. drain w n = (take n (drop p out), w') \<and> rel w' out (min (p + n) (length out)) \<and> cap w' = cap w"
    and avail_rel: "rel w out p \<Longrightarrow> avail w = length out - p"
    and rel_pos: "rel w out p \<Longrightarrow> p \<le> length out \<and> length out - p \<le> cap w"
begin

lemma copy_cases:
  assumes "rel w out p" and "length out - p + n \<le> cap w"
  obtains (ok) w' where "copy w n d = Some (None, w')" "rel w' (lz_copy (nat d) n out) p" "cap w' = cap w"
      "0 < d" "d \<le> int (min (length out) (cap w))"
  | (bad) "copy w n d = Some (Some ErrWindowOffsetBounds, w)" "d \<le> 0 \<or> int (min (length out) (cap w)) < d"
  using copy_rel [OF assms] copy_bad [OF assms(1)] by (meson linorder_not_less)

text \<open>What was written and not yet read is exactly what reading everything gives.\<close>

lemma drain_all:
  assumes "rel w out p" and "drain w (avail w) = (bs, w')"
  shows "bs = drop p out" and "avail w' = 0"
  using drain_rel [OF assms(1), of "avail w"] avail_rel [OF assms(1)] assms(2) avail_rel
  by fastforce+

lemma drain_twice:
  assumes "rel w out p" and "drain w m = (bs, w1)" and "drain w1 n = (cs, w2)"
  shows "bs @ cs = take (m + n) (drop p out)"
proof -
  have bs: "bs = take m (drop p out)" and w1: "rel w1 out (min (p + m) (length out))"
    using drain_rel [OF assms(1), of m] assms(2) by auto
  have "cs = take n (drop (min (p + m) (length out)) out)"
    using drain_rel [OF w1, of n] assms(3) by auto
  with bs show ?thesis by (simp add: take_add min_def add.commute)
qed

end

subsection \<open>A source read in full\<close>

text \<open>
  \<open>rf s n\<close> is \<^verbatim>\<open>io.ReadFull\<close> with a slice of \<open>n\<close> bytes: the bytes, the error when there
  were fewer, and the source behind them; \<open>None\<close> is a call that does not return. \<open>left s\<close>
  bounds what the source will still give.
\<close>

type_synonym 's full_reading = "'s \<Rightarrow> nat \<Rightarrow> (byte list \<times> err option \<times> 's) option"

locale full_source =
  fixes rf :: "'s full_reading"
    and left :: "'s \<Rightarrow> nat"
    and src_ok :: "'s \<Rightarrow> bool"
  assumes rf_returns: "src_ok s \<Longrightarrow> \<exists>bs e s'. rf s n = Some (bs, e, s') \<and> src_ok s'
      \<and> (e = None \<longrightarrow> length bs = n \<and> left s' + n \<le> left s)"
begin

lemma rf_cases:
  assumes "src_ok s"
  obtains (short) bs x s' where "rf s n = Some (bs, Some x, s')" "src_ok s'"
  | (got) bs s' where "rf s n = Some (bs, None, s')" "src_ok s'" "length bs = n" "left s' + n \<le> left s"
proof -
  obtain bs e s' where "rf s n = Some (bs, e, s')" "src_ok s'"
    "e = None \<longrightarrow> length bs = n \<and> left s' + n \<le> left s"
    using rf_returns [OF assms] by blast
  then show thesis using that by (cases e) auto
qed

end

text \<open>A stream is such a source.\<close>

definition stream_full :: "stream full_reading" where
  "stream_full s n = Some (readFull s n)"

interpretation stream_full: full_source stream_full "\<lambda>s. length (st_data s)" "\<lambda>_. True"
  by unfold_locales (auto simp: stream_full_def readFull_def Let_def)

end
