(* ===== verification/Bit_Reader.thy ===== *)
theory Bit_Reader
  imports Interfaces
begin

section \<open>The buffered bit reader (bit_reader.go)\<close>

text \<open>
  \<^verbatim>\<open>bitReader\<close> keeps a byte buffer, a 64-bit cache of which the low \<open>br_n\<close> bits are
  valid, and two counters. Its abstraction is the list of bits the block still allows:
  \<open>br_bits\<close>. The invariant \<open>br_inv\<close> says where the cached bits stand in the buffer;
  under it every operation is the obvious one on bit lists, whichever way the cache was
  filled (the eight-byte load or the byte-by-byte tail). The Go type's counters are
  naturals here; \<open>br_n\<close> is a \<^verbatim>\<open>uint8\<close>, so the one subtraction that is not guarded
  (\<open>br_Advance\<close>) is written with its wrap-around.
\<close>

subsection \<open>The code\<close>

record bitReader =
  br_buf :: "byte list"
  br_off :: nat
  br_v :: u64
  br_n :: nat
  br_limit :: int
  br_bitsRead :: nat

definition newBitReader :: "byte list \<Rightarrow> int \<Rightarrow> bitReader" where
  "newBitReader buf limitBits =
     \<lparr>br_buf = buf, br_off = 0, br_v = 0, br_n = 0, br_limit = limitBits, br_bitsRead = 0\<rparr>"

definition br_Reset :: "bitReader \<Rightarrow> byte list \<Rightarrow> int \<Rightarrow> bitReader" where
  "br_Reset r buf limitBits =
     r\<lparr>br_buf := buf, br_off := 0, br_v := 0, br_n := 0, br_limit := limitBits, br_bitsRead := 0\<rparr>"

function br_fillTail :: "bitReader \<Rightarrow> bitReader" where
  "br_fillTail r =
     (if br_n r \<le> 56 \<and> br_off r < length (br_buf r)
      then br_fillTail (r\<lparr>br_v := push_bit 8 (br_v r) OR ucast (br_buf r ! br_off r),
                          br_n := br_n r + 8, br_off := br_off r + 1\<rparr>)
      else r)"
  by pat_completeness auto
termination
  by (relation "measure (\<lambda>r. length (br_buf r) - br_off r)") auto

declare br_fillTail.simps [simp del]

definition br_fill :: "bitReader \<Rightarrow> bitReader" where
  "br_fill r =
     (if 56 < br_n r then r
      else if length (br_buf r) < br_off r + 8 then br_fillTail r
      else let bytesToAdd = (64 - br_n r) div 8;
               bitsToAdd = bytesToAdd * 8;
               u = be64 (drop (br_off r) (br_buf r))
           in r\<lparr>br_v := push_bit bitsToAdd (br_v r) OR drop_bit (64 - bitsToAdd) u,
                br_n := br_n r + bitsToAdd, br_off := br_off r + bytesToAdd\<rparr>)"

definition br_ReadBits :: "bitReader \<Rightarrow> nat \<Rightarrow> (err + nat) \<times> bitReader" where
  "br_ReadBits r k =
     (if br_limit r < int (br_bitsRead r) + int k then (Inl EOF, r)
      else let r1 = (if br_n r < k then br_fill r else r)
           in if br_n r1 < k then (Inl ErrDecoderOutOfData, r1)
              else let n = br_n r1 - k
                   in (Inr (unat (drop_bit n (br_v r1) AND (push_bit k 1 - 1))),
                       r1\<lparr>br_n := n, br_bitsRead := br_bitsRead r1 + k\<rparr>))"

definition br_PeekBits :: "bitReader \<Rightarrow> nat \<Rightarrow> u32 \<times> bitReader" where
  "br_PeekBits r k =
     (let r1 = (if br_n r < k then br_fill r else r)
      in if br_n r1 < k
         then (ucast (push_bit (k - br_n r1) (br_v r1 AND (push_bit (br_n r1) 1 - 1))), r1)
         else (ucast (drop_bit (br_n r1 - k) (br_v r1) AND (push_bit k 1 - 1)), r1))"

definition br_Advance :: "bitReader \<Rightarrow> nat \<Rightarrow> bitReader" where
  "br_Advance r k = r\<lparr>br_n := (br_n r + 256 - k) mod 256, br_bitsRead := br_bitsRead r + k\<rparr>"

definition br_ReadByte :: "bitReader \<Rightarrow> (err + byte) \<times> bitReader" where
  "br_ReadByte r =
     (case br_ReadBits r 8 of (Inl e, r') \<Rightarrow> (Inl e, r') | (Inr v, r') \<Rightarrow> (Inr (word_of_nat v), r'))"

subsection \<open>Abstraction and invariant\<close>

definition br_inv :: "bitReader \<Rightarrow> bool" where
  "br_inv r \<longleftrightarrow> br_n r \<le> 64 \<and> br_off r \<le> length (br_buf r) \<and> 8 * br_off r = br_bitsRead r + br_n r
     \<and> (\<forall>i < br_n r. bit (br_v r) i = bits_of (br_buf r) ! (br_bitsRead r + br_n r - Suc i))"

text \<open>The bits left in the buffer, and of these the ones inside the block's limit.\<close>

definition br_rest :: "bitReader \<Rightarrow> bool list" where
  "br_rest r = drop (br_bitsRead r) (bits_of (br_buf r))"

definition br_bits :: "bitReader \<Rightarrow> bool list" where
  "br_bits r = take (nat (br_limit r - int (br_bitsRead r))) (br_rest r)"

text \<open>Two readers that differ in how much they have cached only.\<close>

definition br_same :: "bitReader \<Rightarrow> bitReader \<Rightarrow> bool" where
  "br_same r r' \<longleftrightarrow> br_buf r' = br_buf r \<and> br_limit r' = br_limit r \<and> br_bitsRead r' = br_bitsRead r"

lemma br_same_refl [simp]: "br_same r r"
  by (simp add: br_same_def)

lemma br_same_rest: "br_same r r' \<Longrightarrow> br_rest r' = br_rest r"
  by (simp add: br_same_def br_rest_def)

lemma br_same_bits: "br_same r r' \<Longrightarrow> br_bits r' = br_bits r"
  by (simp add: br_same_def br_rest_def br_bits_def)

lemma br_inv_Reset [simp]: "br_inv (br_Reset r buf l)" and br_inv_new [simp]: "br_inv (newBitReader buf l)"
  by (simp_all add: br_inv_def br_Reset_def newBitReader_def)

lemma br_Reset_abs [refine_simps]:
  "br_rest (br_Reset r buf l) = bits_of buf" "br_bits (br_Reset r buf l) = take (nat l) (bits_of buf)"
  by (simp_all add: br_rest_def br_bits_def br_Reset_def)

subsection \<open>Filling\<close>

lemma bit_be_fold:
  "i < 64 \<Longrightarrow> bit (foldl (\<lambda>a b. push_bit 8 a OR ucast b) (a :: u64) (bs :: byte list)) i
     \<longleftrightarrow> (if i < 8 * length bs then bit (bs ! (length bs - Suc (i div 8))) (i mod 8)
          else bit a (i - 8 * length bs))"
proof (induction bs arbitrary: i rule: rev_induct)
  case Nil
  then show ?case by simp
next
  case (snoc b bs)
  show ?case
  proof (cases "i < 8")
    case True
    then show ?thesis by (simp add: bit_simps nth_append)
  next
    case False
    then obtain j where i: "i = j + 8" by (metis le_add_diff_inverse2 not_le)
    have "j < 64" using snoc.prems i by simp
    have "\<not> bit b (j + 8)" using bit_imp_le_length [of b "j + 8"] by auto
    moreover have "(j + 8) div 8 = Suc (j div 8)" by simp
    ultimately show ?thesis
      using snoc.IH [OF \<open>j < 64\<close>] snoc.prems i
      by (auto simp: bit_simps nth_append simp del: div_add_self2)
  qed
qed

lemma bit_be64:
  assumes "i < 64" and "8 \<le> length bs"
  shows "bit (be64 bs) i \<longleftrightarrow> bit (bs ! (7 - i div 8)) (i mod 8)"
  using assms bit_be_fold [of i 0 "take 8 bs"] by (simp add: be64_def)

lemma br_fillTail_correct:
  assumes "br_inv r"
  shows "br_inv (br_fillTail r) \<and> br_same r (br_fillTail r) \<and> br_n r \<le> br_n (br_fillTail r)
     \<and> (56 < br_n (br_fillTail r) \<or> br_off (br_fillTail r) = length (br_buf r))"
  using assms
proof (induction r rule: br_fillTail.induct)
  case (1 r)
  show ?case
  proof (cases "br_n r \<le> 56 \<and> br_off r < length (br_buf r)")
    case True
    let ?r = "r\<lparr>br_v := push_bit 8 (br_v r) OR ucast (br_buf r ! br_off r),
                br_n := br_n r + 8, br_off := br_off r + 1\<rparr>"
    have inv: "br_inv ?r"
      unfolding br_inv_def
    proof (intro conjI allI impI)
      fix i assume i: "i < br_n ?r"
      have p: "br_bitsRead r + br_n r = 8 * br_off r" using "1.prems" by (simp add: br_inv_def)
      show "bit (br_v ?r) i = bits_of (br_buf ?r) ! (br_bitsRead ?r + br_n ?r - Suc i)"
      proof (cases "i < 8")
        case True
        have "br_bitsRead ?r + br_n ?r - Suc i = 8 * br_off r + 7 - i" using p by simp
        with True \<open>br_n r \<le> 56 \<and> _\<close> show ?thesis
          using bits_of_nth_byte [of "br_off r" "br_buf r" i]
          by (simp only:) (simp add: bit_simps)
      next
        case False
        then obtain j where j: "i = j + 8" by (metis le_add_diff_inverse2 not_le)
        have "\<not> bit (br_buf r ! br_off r) (j + 8)"
          using bit_imp_le_length [of "br_buf r ! br_off r" "j + 8"] by auto
        with j i \<open>br_n r \<le> 56 \<and> _\<close> "1.prems" show ?thesis
          by (auto simp: bit_simps br_inv_def)
      qed
    qed (use "1.prems" True in \<open>auto simp: br_inv_def\<close>)
    have "br_same r ?r" by (simp add: br_same_def)
    with "1.IH" [OF True inv] True show ?thesis
      by (subst (1 2 3 4 5) br_fillTail.simps) (auto simp: br_same_def)
  next
    case False
    then show ?thesis
      using "1.prems" by (subst (1 2 3 4 5) br_fillTail.simps) (auto simp: br_inv_def)
  qed
qed

lemma br_bulk_inv:
  assumes inv: "br_inv r" and "br_n r \<le> 56" and "br_off r + 8 \<le> length (br_buf r)"
    and m: "m = (64 - br_n r) div 8"
  shows "br_inv (r\<lparr>br_v := push_bit (m * 8) (br_v r) OR drop_bit (64 - m * 8) (be64 (drop (br_off r) (br_buf r))),
                   br_n := br_n r + m * 8, br_off := br_off r + m\<rparr>)" (is "br_inv ?r")
  unfolding br_inv_def
proof (intro conjI allI impI)
  have m8: "m \<le> 8" "br_n r + m * 8 \<le> 64"
    using m assms(2) div_mod_decomp [of "64 - br_n r" 8] by (simp, linarith)
  show "br_n ?r \<le> 64" using m8 by simp
  show "br_off ?r \<le> length (br_buf ?r)" using m8 assms(3) by simp
  show "8 * br_off ?r = br_bitsRead ?r + br_n ?r" using inv by (simp add: br_inv_def)
  fix i assume i: "i < br_n ?r"
  have p: "br_bitsRead r + br_n r = 8 * br_off r" using inv by (simp add: br_inv_def)
  show "bit (br_v ?r) i = bits_of (br_buf ?r) ! (br_bitsRead ?r + br_n ?r - Suc i)"
  proof (cases "i < m * 8")
    case True
    define k where "k = br_off r + (m - Suc (i div 8))"
    have im: "i div 8 < m" using True by (simp add: less_mult_imp_div_less)
    have idx: "br_bitsRead ?r + br_n ?r - Suc i = 8 * k + 7 - i mod 8"
      using p im div_mult_mod_eq [of i 8] by (simp add: k_def algebra_simps diff_mult_distrib2)
    let ?j = "i + (64 - m * 8)"
    have "i + (64 - m * 8) = i + (8 - m) * 8" using m8 by (simp add: diff_mult_distrib)
    then have j: "?j div 8 = i div 8 + (8 - m)" "?j mod 8 = i mod 8" by simp_all
    have k: "br_off r + (7 - (i div 8 + (8 - m))) = k" using m8 im by (simp add: k_def)
    have "bit (be64 (drop (br_off r) (br_buf r))) ?j
        \<longleftrightarrow> bit (drop (br_off r) (br_buf r) ! (7 - ?j div 8)) (?j mod 8)"
      by (rule bit_be64) (use True m8 assms(3) in simp_all)
    also have "\<dots> \<longleftrightarrow> bit (br_buf r ! k) (i mod 8)"
      unfolding j using k assms(3) by (simp add: nth_drop)
    finally have "bit (be64 (drop (br_off r) (br_buf r))) ?j \<longleftrightarrow> bit (br_buf r ! k) (i mod 8)" .
    moreover have "bits_of (br_buf r) ! (8 * k + 7 - i mod 8) = bit (br_buf r ! k) (i mod 8)"
      using m8 assms(3) im by (intro bits_of_nth_byte) (simp_all add: k_def)
    ultimately show ?thesis
      using True i m8 unfolding idx by (simp add: bit_simps add.commute)
  next
    case False
    then obtain j where j: "i = j + m * 8" by (metis le_add_diff_inverse2 not_le)
    have "br_v ?r = push_bit (m * 8) (br_v r) OR drop_bit (64 - m * 8) (be64 (drop (br_off r) (br_buf r)))"
      by simp
    moreover have "\<not> bit (be64 (drop (br_off r) (br_buf r))) (64 - m * 8 + i)"
      using False m8 bit_imp_le_length [of "be64 (drop (br_off r) (br_buf r))" "64 - m * 8 + i"] by auto
    moreover have "j < br_n r" "i < 64" using i j m8 by simp_all
    ultimately show ?thesis
      using j inv by (auto simp: bit_simps br_inv_def)
  qed
qed

lemma br_fill_correct:
  assumes "br_inv r"
  shows "br_inv (br_fill r)" and "br_same r (br_fill r)" and "br_n r \<le> br_n (br_fill r)"
    and "56 < br_n (br_fill r) \<or> br_off (br_fill r) = length (br_buf r)"
proof -
  have "br_inv (br_fill r) \<and> br_same r (br_fill r) \<and> br_n r \<le> br_n (br_fill r)
     \<and> (56 < br_n (br_fill r) \<or> br_off (br_fill r) = length (br_buf r))"
  proof (cases "br_n r \<le> 56 \<and> br_off r + 8 \<le> length (br_buf r)")
    case True
    then have "56 < br_n r + (64 - br_n r) div 8 * 8" by presburger
    with True show ?thesis
      using br_bulk_inv [OF assms _ _ refl] by (simp add: br_fill_def Let_def br_same_def not_less)
  next
    case False
    then show ?thesis
      using assms br_fillTail_correct [OF assms] by (auto simp: br_fill_def)
  qed
  then show "br_inv (br_fill r)" and "br_same r (br_fill r)" and "br_n r \<le> br_n (br_fill r)"
    and "56 < br_n (br_fill r) \<or> br_off (br_fill r) = length (br_buf r)"
    by blast+
qed

lemma br_rest_length: "br_inv r \<Longrightarrow> length (br_rest r) = 8 * length (br_buf r) - br_bitsRead r"
  by (simp add: br_rest_def)

lemma br_cached_le: "br_inv r \<Longrightarrow> br_n r \<le> length (br_rest r)"
  by (auto simp: br_rest_def br_inv_def)

lemma br_inv_rest_nth:
  assumes "br_inv r" and "i < br_n r"
  shows "bit (br_v r) i = br_rest r ! (br_n r - Suc i)" and "br_n r \<le> length (br_rest r)"
proof -
  show "br_n r \<le> length (br_rest r)" by (rule br_cached_le [OF assms(1)])
  then have "br_rest r ! (br_n r - Suc i) = bits_of (br_buf r) ! (br_bitsRead r + (br_n r - Suc i))"
    using assms(1) by (auto simp: br_rest_def br_inv_def intro: nth_drop)
  moreover have "br_bitsRead r + (br_n r - Suc i) = br_bitsRead r + br_n r - Suc i"
    using assms(2) by simp
  ultimately show "bit (br_v r) i = br_rest r ! (br_n r - Suc i)"
    using assms by (simp add: br_inv_def)
qed

text \<open>The cache after \<open>if r.n < k { r.fill() }\<close>: it holds \<open>k\<close> bits, or all that are left.\<close>

lemma br_cached:
  assumes "br_inv r" and "k \<le> 57" and "r1 = (if br_n r < k then br_fill r else r)"
  shows "br_inv r1" and "br_same r r1" and "br_n r1 < k \<Longrightarrow> br_n r1 = length (br_rest r)"
    and "k \<le> length (br_rest r) \<Longrightarrow> k \<le> br_n r1"
proof -
  note fill = br_fill_correct [OF assms(1)]
  show inv1: "br_inv r1" and same: "br_same r r1" using fill assms(1,3) by simp_all
  show all: "br_n r1 = length (br_rest r)" if "br_n r1 < k"
  proof -
    have "br_off r1 = length (br_buf r)" using that fill(4) assms(2,3) by (auto split: if_splits)
    with inv1 same show ?thesis by (simp add: br_inv_def br_same_def br_rest_def)
  qed
  show "k \<le> br_n r1" if "k \<le> length (br_rest r)"
    using all that by (cases "br_n r1 < k") simp_all
qed

subsection \<open>The operations on bit lists\<close>

lemma unat_cached_bits:
  assumes "br_inv r" and "k \<le> br_n r" and "k \<le> 64"
  shows "unat (drop_bit (br_n r - k) (br_v r) AND (push_bit k 1 - 1)) = bits_nat (take k (br_rest r))"
proof (rule bits_nat_eqI)
  fix i
  have mask: "push_bit k 1 - 1 = (mask k :: u64)" by (simp add: mask_eq_exp_minus_1 push_bit_of_1)
  have k: "k \<le> length (br_rest r)" using br_cached_le [OF assms(1)] assms(2) by simp
  have "bit (drop_bit (br_n r - k) (br_v r) AND (push_bit k 1 - 1)) i \<longleftrightarrow> i < k \<and> bit (br_v r) (br_n r - k + i)"
    unfolding mask using assms(3) by (auto simp: bit_simps)
  also have "\<dots> \<longleftrightarrow> i < k \<and> br_rest r ! (k - Suc i)"
    using br_inv_rest_nth(1) [OF assms(1), of "br_n r - k + i"] assms(2)
    by (auto simp: diff_diff_left [symmetric])
  also have "\<dots> \<longleftrightarrow> i < length (take k (br_rest r)) \<and> take k (br_rest r) ! (length (take k (br_rest r)) - Suc i)"
    using k by auto
  finally show "bit (drop_bit (br_n r - k) (br_v r) AND (push_bit k 1 - 1)) i
     \<longleftrightarrow> i < length (take k (br_rest r)) \<and> take k (br_rest r) ! (length (take k (br_rest r)) - Suc i)" .
qed

lemma br_drop_inv:
  "br_inv r \<Longrightarrow> k \<le> br_n r \<Longrightarrow> br_inv (r\<lparr>br_n := br_n r - k, br_bitsRead := br_bitsRead r + k\<rparr>)"
  by (auto simp: br_inv_def)

lemma br_drop_abs:
  "br_rest (r\<lparr>br_n := n, br_bitsRead := br_bitsRead r + k\<rparr>) = drop k (br_rest r)"
  "br_bits (r\<lparr>br_n := n, br_bitsRead := br_bitsRead r + k\<rparr>) = drop k (br_bits r)"
proof -
  show "br_rest (r\<lparr>br_n := n, br_bitsRead := br_bitsRead r + k\<rparr>) = drop k (br_rest r)"
    by (simp add: br_rest_def add.commute)
  moreover have "nat (br_limit r - int (br_bitsRead r + k)) = nat (br_limit r - int (br_bitsRead r)) - k"
    by simp
  ultimately show "br_bits (r\<lparr>br_n := n, br_bitsRead := br_bitsRead r + k\<rparr>) = drop k (br_bits r)"
    by (simp add: br_bits_def drop_take)
qed

text \<open>What a reader reached by consuming \<open>k\<close> bits looks like.\<close>

definition br_after :: "bitReader \<Rightarrow> nat \<Rightarrow> bitReader \<Rightarrow> bool" where
  "br_after r k r' \<longleftrightarrow> br_inv r' \<and> br_buf r' = br_buf r \<and> br_limit r' = br_limit r
     \<and> br_bitsRead r' = br_bitsRead r + k"

lemma br_after_abs:
  assumes "br_after r k r'"
  shows "br_inv r'" and "br_rest r' = drop k (br_rest r)" and "br_bits r' = drop k (br_bits r)"
proof -
  have r: "br_rest r' = drop k (br_rest r)"
    using assms by (simp add: br_after_def br_rest_def add.commute)
  moreover have "nat (br_limit r - int (br_bitsRead r + k)) = nat (br_limit r - int (br_bitsRead r)) - k"
    by simp
  ultimately show "br_rest r' = drop k (br_rest r)" and "br_bits r' = drop k (br_bits r)"
    using assms by (simp_all add: br_after_def br_bits_def drop_take)
  show "br_inv r'" using assms by (simp add: br_after_def)
qed

lemma br_after_trans: "br_after r j r' \<Longrightarrow> br_after r' k r'' \<Longrightarrow> br_after r (j + k) r''"
  by (simp add: br_after_def)

lemma br_bits_length:
  "length (br_bits r) = min (8 * length (br_buf r) - br_bitsRead r) (nat (br_limit r - int (br_bitsRead r)))"
  by (simp add: br_bits_def br_rest_def)

lemma br_bits_avail:
  assumes "0 < k" and "k \<le> length (br_bits r)"
  shows "\<not> br_limit r < int (br_bitsRead r) + int k" and "k \<le> length (br_rest r)"
    and "take k (br_bits r) = take k (br_rest r)"
  using assms by (auto simp: br_bits_def min_def split: if_splits)

text \<open>Reading \<open>k\<close> bits that are there returns them and consumes them.\<close>

lemma br_ReadBits_ok:
  assumes inv: "br_inv r" and k: "k \<le> 57" "0 < k" and avail: "k \<le> length (br_bits r)"
  shows "\<exists>r'. br_ReadBits r k = (Inr (bits_nat (take k (br_bits r))), r') \<and> br_after r k r'"
proof -
  define r1 where "r1 = (if br_n r < k then br_fill r else r)"
  note c = br_cached [OF inv k(1) r1_def]
  note av = br_bits_avail [OF k(2) avail]
  have n: "k \<le> br_n r1" using c(4) av(2) by simp
  have "br_ReadBits r k = (Inr (unat (drop_bit (br_n r1 - k) (br_v r1) AND (push_bit k 1 - 1))),
      r1\<lparr>br_n := br_n r1 - k, br_bitsRead := br_bitsRead r1 + k\<rparr>)"
    using av(1) n unfolding br_ReadBits_def r1_def [symmetric] Let_def by simp
  moreover have "br_after r k (r1\<lparr>br_n := br_n r1 - k, br_bitsRead := br_bitsRead r1 + k\<rparr>)"
    using br_drop_inv [OF c(1) n] c(2) by (simp add: br_after_def br_same_def)
  moreover have "unat (drop_bit (br_n r1 - k) (br_v r1) AND (push_bit k 1 - 1)) = bits_nat (take k (br_bits r))"
    using unat_cached_bits [OF c(1) n] k(1) av(3) br_same_rest [OF c(2)] by simp
  ultimately show ?thesis by simp
qed

text \<open>
  Asking for more than the block allows fails and consumes nothing: \<open>EOF\<close> past the
  block's limit, \<open>ErrDecoderOutOfData\<close> when the buffer is shorter than the limit says.
\<close>

lemma br_ReadBits_fail:
  assumes inv: "br_inv r" and k: "k \<le> 57" and avail: "length (br_bits r) < k"
  shows "\<exists>r'. br_ReadBits r k
      = (Inl (if br_limit r < int (br_bitsRead r) + int k then EOF else ErrDecoderOutOfData), r')
      \<and> br_after r 0 r'"
proof (cases "br_limit r < int (br_bitsRead r) + int k")
  case True
  then show ?thesis using inv by (simp add: br_ReadBits_def br_after_def)
next
  case False
  define r1 where "r1 = (if br_n r < k then br_fill r else r)"
  note c = br_cached [OF inv k r1_def]
  have "length (br_rest r) < k" using False avail by (auto simp: br_bits_def min_def split: if_splits)
  then have "br_n r1 < k" using br_cached_le [OF c(1)] br_same_rest [OF c(2)] by simp
  then have "br_ReadBits r k = (Inl ErrDecoderOutOfData, r1)"
    using False unfolding br_ReadBits_def r1_def [symmetric] Let_def by simp
  then show ?thesis using False c(1,2) by (simp add: br_after_def br_same_def)
qed

text \<open>Peeking pads with zero bits behind the end of the buffer and consumes nothing.\<close>

lemma unat_peek_short:
  assumes "br_inv r" and n: "br_n r < k" and "k \<le> 32" and all: "br_n r = length (br_rest r)"
  shows "unat (ucast (push_bit (k - br_n r) (br_v r AND (push_bit (br_n r) 1 - 1))) :: u32)
    = bits_nat (take k (br_rest r @ replicate k False))"
proof (rule bits_nat_eqI)
  fix i
  let ?n = "br_n r" and ?bs = "take k (br_rest r @ replicate k False)"
  have mask: "push_bit ?n 1 - 1 = (mask ?n :: u64)" by (simp add: mask_eq_exp_minus_1 push_bit_of_1)
  have len: "length ?bs = k" using n all by simp
  have "bit (ucast (push_bit (k - ?n) (br_v r AND (push_bit ?n 1 - 1))) :: u32) i
      \<longleftrightarrow> i < k \<and> k - ?n \<le> i \<and> bit (br_v r) (i - (k - ?n))"
    unfolding mask using n \<open>k \<le> 32\<close> by (auto simp: bit_simps)
  also have "\<dots> \<longleftrightarrow> i < length ?bs \<and> ?bs ! (length ?bs - Suc i)"
  proof (cases "i < k \<and> k - ?n \<le> i")
    case True
    then have lt: "i - (k - ?n) < ?n" using n by arith
    have idx: "?n - Suc (i - (k - ?n)) = k - Suc i" using True n by arith
    have "k - Suc i < ?n" using True n by arith
    then have "?bs ! (k - Suc i) = br_rest r ! (k - Suc i)" using True all by (simp add: nth_append)
    with True len show ?thesis using br_inv_rest_nth(1) [OF assms(1) lt] idx by simp
  next
    case False
    then have "i < k \<Longrightarrow> \<not> ?bs ! (k - Suc i)" using all n by (auto simp: nth_append)
    with False len show ?thesis by auto
  qed
  finally show "bit (ucast (push_bit (k - ?n) (br_v r AND (push_bit ?n 1 - 1))) :: u32) i
      \<longleftrightarrow> i < length ?bs \<and> ?bs ! (length ?bs - Suc i)" .
qed

lemma br_PeekBits_correct:
  assumes inv: "br_inv r" and k: "k \<le> 32"
  shows "\<exists>r1. br_PeekBits r k = (word_of_nat (bits_nat (take k (br_rest r @ replicate k False))), r1)
      \<and> br_after r 0 r1 \<and> min k (length (br_rest r)) \<le> br_n r1"
proof -
  define r1 where "r1 = (if br_n r < k then br_fill r else r)"
  have k57: "k \<le> 57" using k by simp
  note c = br_cached [OF inv k57 r1_def]
  have after: "br_after r 0 r1" using c(1,2) by (simp add: br_after_def br_same_def)
  let ?bs = "take k (br_rest r @ replicate k False)"
  show ?thesis
  proof (cases "br_n r1 < k")
    case True
    then have all: "br_n r1 = length (br_rest r1)" using c(3) br_same_rest [OF c(2)] by simp
    have "br_PeekBits r k = (ucast (push_bit (k - br_n r1) (br_v r1 AND (push_bit (br_n r1) 1 - 1))), r1)"
      using True unfolding br_PeekBits_def r1_def [symmetric] Let_def by simp
    moreover have "ucast (push_bit (k - br_n r1) (br_v r1 AND (push_bit (br_n r1) 1 - 1)))
        = (word_of_nat (bits_nat ?bs) :: u32)"
      using unat_peek_short [OF c(1) True k all] br_same_rest [OF c(2)]
      by (intro word_of_nat_eqI) simp
    ultimately show ?thesis using after True c(3) by simp
  next
    case False
    then have n: "k \<le> br_n r1" by simp
    then have kr: "k \<le> length (br_rest r)" using br_cached_le [OF c(1)] br_same_rest [OF c(2)] by simp
    have "br_PeekBits r k = (ucast (drop_bit (br_n r1 - k) (br_v r1) AND (push_bit k 1 - 1)), r1)"
      using False unfolding br_PeekBits_def r1_def [symmetric] Let_def by simp
    moreover have "unat (drop_bit (br_n r1 - k) (br_v r1) AND (push_bit k 1 - 1)) = bits_nat ?bs"
      using unat_cached_bits [OF c(1) n] k br_same_rest [OF c(2)] kr by simp
    then have "ucast (drop_bit (br_n r1 - k) (br_v r1) AND (push_bit k 1 - 1)) = (word_of_nat (bits_nat ?bs) :: u32)"
      by (rule ucast_word_of_nat)
    ultimately show ?thesis using after n by simp
  qed
qed

lemma br_Advance_correct:
  assumes "br_inv r" and "k \<le> br_n r"
  shows "br_after r k (br_Advance r k)"
proof -
  have "(br_n r + 256 - k) mod 256 = br_n r - k"
    using assms by (cases "br_n r = k") (auto simp: br_inv_def mod_if)
  then show ?thesis
    using br_drop_inv [OF assms] by (simp add: br_Advance_def br_after_def)
qed

text \<open>A reader some of whose block's bits have been consumed.\<close>

definition br_reach :: "bitReader \<Rightarrow> bitReader \<Rightarrow> bool" where
  "br_reach r r' \<longleftrightarrow> (\<exists>k \<le> length (br_bits r). br_after r k r')"

lemma br_reach_refl: "br_inv r \<Longrightarrow> br_reach r r"
  by (auto simp: br_reach_def br_after_def)

lemma br_reach_inv: "br_reach r r' \<Longrightarrow> br_inv r'"
  by (auto simp: br_reach_def br_after_def)

lemma br_reach_trans:
  assumes "br_reach r r1" and "br_reach r1 r2"
  shows "br_reach r r2"
proof -
  obtain j k where j: "br_after r j r1" "j \<le> length (br_bits r)"
    and k: "br_after r1 k r2" "k \<le> length (br_bits r1)"
    using assms by (auto simp: br_reach_def)
  have "j + k \<le> length (br_bits r)" using br_after_abs(3) [OF j(1)] j(2) k(2) by simp
  then show ?thesis using br_after_trans [OF j(1) k(1)] unfolding br_reach_def by blast
qed

lemma br_reach_bits:
  "br_reach r r' \<Longrightarrow> \<exists>k \<le> length (br_bits r). br_bits r' = drop k (br_bits r)"
  unfolding br_reach_def using br_after_abs(3) by blast

lemma br_ReadBits_reach:
  assumes "br_ReadBits r k = (x, r')" and "br_inv r" and "0 < k" and "k \<le> 57"
  shows "br_reach r r'" and "x = Inl e \<Longrightarrow> e = EOF \<or> e = ErrDecoderOutOfData"
    and "x = Inr v \<Longrightarrow> v < 2 ^ k \<and> length (br_bits r') < length (br_bits r)"
proof -
  have "br_reach r r' \<and> (\<forall>e. x = Inl e \<longrightarrow> e = EOF \<or> e = ErrDecoderOutOfData)
    \<and> (\<forall>v. x = Inr v \<longrightarrow> v < 2 ^ k \<and> length (br_bits r') < length (br_bits r))"
  proof (cases "k \<le> length (br_bits r)")
    case True
    obtain r1 where r1: "br_ReadBits r k = (Inr (bits_nat (take k (br_bits r))), r1)" "br_after r k r1"
      using br_ReadBits_ok [OF assms(2,4,3) True] by blast
    have "br_bits r1 = drop k (br_bits r)" by (rule br_after_abs(3) [OF r1(2)])
    moreover have "bits_nat (take k (br_bits r)) < 2 ^ k"
      using bits_nat_less [of "take k (br_bits r)"] True by simp
    ultimately show ?thesis
      using assms r1 True unfolding br_reach_def by (intro conjI exI [of _ k]) auto
  next
    case False
    then obtain r1 where "br_ReadBits r k
        = (Inl (if br_limit r < int (br_bitsRead r) + int k then EOF else ErrDecoderOutOfData), r1)"
      "br_after r 0 r1" using br_ReadBits_fail [OF assms(2,4)] by (auto simp: not_le)
    then show ?thesis using assms(1) unfolding br_reach_def by (auto split: if_splits)
  qed
  then show "br_reach r r'" and "x = Inl e \<Longrightarrow> e = EOF \<or> e = ErrDecoderOutOfData"
    and "x = Inr v \<Longrightarrow> v < 2 ^ k \<and> length (br_bits r') < length (br_bits r)"
    by blast+
qed

subsection \<open>The bit reader is a bit source\<close>

interpretation bits: bit_source br_ReadBits br_bits br_inv
proof unfold_locales
  fix r k assume "br_inv r" "0 < k" "k \<le> 57" "k \<le> length (br_bits r)"
  then obtain r' where "br_ReadBits r k = (Inr (bits_nat (take k (br_bits r))), r')" "br_after r k r'"
    using br_ReadBits_ok [of r k] by blast
  then show "\<exists>r'. br_ReadBits r k = (Inr (bits_nat (take k (br_bits r))), r') \<and> br_inv r'
      \<and> br_bits r' = drop k (br_bits r)"
    using br_after_abs(1,3) [of r k r'] by blast
next
  fix r k assume "br_inv r" "k \<le> 57" "length (br_bits r) < k"
  then obtain r' where "br_ReadBits r k
      = (Inl (if br_limit r < int (br_bitsRead r) + int k then EOF else ErrDecoderOutOfData), r')"
      "br_after r 0 r'"
    using br_ReadBits_fail [of r k] by blast
  then show "\<exists>e r'. br_ReadBits r k = (Inl e, r') \<and> (e = EOF \<or> e = ErrDecoderOutOfData) \<and> br_inv r'
      \<and> br_bits r' = br_bits r"
    using br_after_abs(1,3) [of r 0 r'] by auto
qed

subsection \<open>Properties\<close>

text \<open>C26. A read of \<open>k\<close> bits (1 to 57) is exact, whatever the cache holds and however it is
  refilled: when the block still has \<open>k\<close> bits it returns their value, most significant bit
  first, and leaves exactly the others; when it does not, it fails with \<open>EOF\<close> past the block's
  limit or \<^verbatim>\<open>ErrDecoderOutOfData\<close> short of it and leaves the block's bits untouched.\<close>

theorem bitReader_read_exact:
  assumes "br_inv r" and "0 < k" and "k \<le> 57"
  shows "case br_ReadBits r k of
      (Inr v, r') \<Rightarrow> k \<le> length (br_bits r) \<and> v = bits_nat (take k (br_bits r))
         \<and> br_bits r' = drop k (br_bits r) \<and> br_inv r'
    | (Inl e, r') \<Rightarrow> length (br_bits r) < k \<and> br_bits r' = br_bits r \<and> br_inv r'
         \<and> e = (if br_limit r < int (br_bitsRead r) + int k then EOF else ErrDecoderOutOfData)"
proof (cases "k \<le> length (br_bits r)")
  case True
  then show ?thesis using br_ReadBits_ok [OF assms(1,3,2) True] br_after_abs by force
next
  case False
  then obtain r' where r': "br_ReadBits r k
      = (Inl (if br_limit r < int (br_bitsRead r) + int k then EOF else ErrDecoderOutOfData), r')"
    and "br_after r 0 r'"
    using br_ReadBits_fail [OF assms(1,3)] by auto
  then show ?thesis using False br_after_abs(1,3) [of r 0 r'] by simp
qed

theorem bitReader_read_exact_witness:
  "case br_ReadBits (newBitReader [0xA5, 0x3C] 12) 5 of
     (Inr v, r') \<Rightarrow> v = 20 \<and> br_bits r' = [True, False, True, False, False, True, True]
   | (Inl e, r') \<Rightarrow> False"
proof -
  have "br_bits (newBitReader [0xA5, 0x3C] 12)
      = [True, False, True, False, False, True, False, True, False, False, True, True]"
    by (simp add: br_bits_def br_rest_def newBitReader_def byte_bits_def)
  then show ?thesis
    using bitReader_read_exact [OF br_inv_new, of 5 "[0xA5, 0x3C]" 12]
    by (auto split: prod.splits sum.splits simp: bits_nat_def)
qed

text \<open>Two reads are one: reading \<open>j\<close> bits and then \<open>k\<close> gives the two parts of the
  \<open>j + k\<close>-bit number and the same remaining bits.\<close>

theorem bitReader_split_read:
  assumes "br_inv r" and "0 < j" and "0 < k" and "j + k \<le> 57"
    and "br_ReadBits r (j + k) = (Inr v, r3)"
  shows "\<exists>a b r1 r2. br_ReadBits r j = (Inr a, r1) \<and> br_ReadBits r1 k = (Inr b, r2)
     \<and> v = a * 2 ^ k + b \<and> br_bits r2 = br_bits r3"
proof -
  note R = bits.rd_Inr [OF assms(5,1)]
  have jk: "j + k \<le> length (br_bits r)" using R(2) assms by simp
  then obtain a r1 where 1: "br_ReadBits r j = (Inr a, r1)" "br_inv r1" "br_bits r1 = drop j (br_bits r)"
    using bits.rd_ok [OF assms(1,2)] assms(4) by force
  then obtain b r2 where 2: "br_ReadBits r1 k = (Inr b, r2)"
    using bits.rd_ok [OF 1(2) assms(3)] assms(4) jk by force
  show ?thesis
    using bits.rd_twice [OF 1(1) 2 assms(1,2) _ assms(3)] R(3,4) 1(1) 2 assms(2,4) by force
qed

theorem bitReader_split_read_witness:
  "\<exists>v r3 a b r1 r2. br_ReadBits (newBitReader [0xA5, 0x3C] 12) (3 + 4) = (Inr v, r3)
     \<and> br_ReadBits (newBitReader [0xA5, 0x3C] 12) 3 = (Inr a, r1) \<and> br_ReadBits r1 4 = (Inr b, r2)
     \<and> v = a * 2 ^ 4 + b"
proof -
  have "3 + 4 \<le> length (br_bits (newBitReader [0xA5, 0x3C] 12))"
    by (simp add: br_bits_def br_rest_def newBitReader_def)
  then obtain v r3 where "br_ReadBits (newBitReader [0xA5, 0x3C] 12) (3 + 4) = (Inr v, r3)"
    using bits.rd_ok [OF br_inv_new, of "3 + 4"] by force
  with bitReader_split_read [OF br_inv_new _ _ _ this] show ?thesis by simp blast
qed

end
