(* ===== verification/Huffman.thy ===== *)
theory Huffman
  imports Bit_Reader
begin

section \<open>Canonical Huffman tables (huffman.go)\<close>

text \<open>
  \<^verbatim>\<open>huffmanDecoder\<close>: \<open>hf_Init\<close> builds the tables from a list of code lengths (one byte
  each, kept as a natural), \<open>hf_ReadSym\<close> decodes one symbol through the quick table or the
  bit-by-bit search, \<open>readCodeLengthTable\<close> reads a run-length coded list of lengths.
  The 16-bit fields are naturals with the wrap-around of their arithmetic written out
  (\<open>wrap16\<close>). The specification is the canonical code: \<open>codeword cl s\<close>.
\<close>

subsection \<open>The code\<close>

definition wrap16 :: "nat \<Rightarrow> nat" where
  "wrap16 n = n mod 65536"

record huffmanDecoder =
  hf_limit :: "nat list"
  hf_pos :: "nat list"
  hf_symbol :: "nat list"
  hf_min :: nat
  hf_quickbits :: nat
  hf_quicklen :: "nat list"
  hf_quicksym :: "nat list"

definition hf_empty :: huffmanDecoder where
  "hf_empty = \<lparr>hf_limit = replicate 16 0, hf_pos = replicate 16 0, hf_symbol = [], hf_min = 0,
     hf_quickbits = 0, hf_quicklen = replicate 1024 0, hf_quicksym = replicate 1024 0\<rparr>"

text \<open>The first loop of \<^verbatim>\<open>Init\<close>: how many codes have each length.\<close>

fun hf_count :: "nat list \<Rightarrow> nat list \<Rightarrow> err + nat list" where
  "hf_count [] count = Inr count"
| "hf_count (n # ns) count =
     (if n = 0 then hf_count ns count
      else if 15 < n then Inl ErrInvalidLengthTable
      else hf_count ns (count[n := wrap16 (count ! n + 1)]))"

definition hf_sum :: "nat list \<Rightarrow> nat" where
  "hf_sum count = foldl (\<lambda>s i. (s + count ! i * 2 ^ (15 - i)) mod 4294967296) 0 [1..<16]"

text \<open>The values the second loop leaves in \<^verbatim>\<open>h.limit[i]\<close> and \<^verbatim>\<open>h.pos[i]\<close>.\<close>

fun hf_limit_at :: "nat list \<Rightarrow> nat \<Rightarrow> nat" where
  "hf_limit_at count 0 = 0"
| "hf_limit_at count (Suc i) =
     wrap16 (hf_limit_at count i + wrap16 (count ! Suc i * 2 ^ (15 - Suc i)))"

fun hf_pos_at :: "nat list \<Rightarrow> nat \<Rightarrow> nat" where
  "hf_pos_at count 0 = 0"
| "hf_pos_at count (Suc i) = wrap16 (hf_pos_at count i + count ! i)"

text \<open>The symbol loop: \<open>i\<close> is the symbol, \<open>count\<close> the next free place of each length.\<close>

fun hf_symbols :: "nat list \<Rightarrow> nat \<Rightarrow> nat list \<Rightarrow> nat list \<Rightarrow> nat list" where
  "hf_symbols [] i count syms = syms"
| "hf_symbols (n # ns) i count syms =
     (if n \<noteq> 0
      then hf_symbols ns (i + 1) (count[n := wrap16 (count ! n + 1)]) (syms[count ! n := wrap16 i])
      else hf_symbols ns (i + 1) count syms)"

text \<open>The search both the quick table and the slow path make: \<^verbatim>\<open>for v >= limit[bits] && bits < 15\<close>.\<close>

function hf_search :: "nat list \<Rightarrow> nat \<Rightarrow> nat \<Rightarrow> nat" where
  "hf_search limit v bits =
     (if limit ! bits \<le> v \<and> bits < 15 then hf_search limit v (bits + 1) else bits)"
  by pat_completeness auto
termination by (relation "measure (\<lambda>(limit, v, bits). 15 - bits)") auto

declare hf_search.simps [simp del]

definition hf_index :: "nat list \<Rightarrow> nat list \<Rightarrow> nat \<Rightarrow> nat \<Rightarrow> nat" where
  "hf_index limit pos v bits =
     pos ! bits + (v + 65536 - limit ! (bits - 1)) mod 65536 div 2 ^ (15 - bits)"

text \<open>The quick table: entry \<open>i\<close> is the length and the symbol of the codes that start with \<open>i\<close>.\<close>

fun hf_quick :: "nat list \<Rightarrow> nat list \<Rightarrow> nat list \<Rightarrow> nat \<Rightarrow> nat list \<Rightarrow> nat \<Rightarrow> (nat \<times> nat) list" where
  "hf_quick limit pos syms quickbits [] bits = []"
| "hf_quick limit pos syms quickbits (i # is) bits =
     (let v = wrap16 (i * 2 ^ (15 - quickbits));
          bits' = hf_search limit v bits;
          p = hf_index limit pos v bits'
      in (bits', if p < length syms then syms ! p else 0)
           # hf_quick limit pos syms quickbits is bits')"

definition hf_Init :: "huffmanDecoder \<Rightarrow> nat list \<Rightarrow> err + huffmanDecoder" where
  "hf_Init h codeLengths =
     (case hf_count codeLengths (replicate 16 0) of
        Inl e \<Rightarrow> Inl e
      | Inr count \<Rightarrow>
          if 32768 < hf_sum count then Inl ErrInvalidLengthTable
          else let limit = map (hf_limit_at count) [0..<16];
                   pos = map (hf_pos_at count) [0..<16];
                   mn = (case find (\<lambda>i. 0 < limit ! i) [1..<16] of None \<Rightarrow> 0 | Some i \<Rightarrow> i);
                   syms = hf_symbols codeLengths 0 pos (replicate (length codeLengths) 0);
                   quickbits = (if 298 \<le> length codeLengths then 10 else 7);
                   q = hf_quick limit pos syms quickbits [0..<2 ^ quickbits] 1
               in Inr (h\<lparr>hf_limit := limit, hf_pos := pos, hf_min := mn, hf_symbol := syms,
                         hf_quickbits := quickbits,
                         hf_quicklen := map fst q @ drop (length q) (hf_quicklen h),
                         hf_quicksym := map snd q @ drop (length q) (hf_quicksym h)\<rparr>))"

definition hf_ReadSym :: "huffmanDecoder \<Rightarrow> bitReader \<Rightarrow> (err + nat) \<times> bitReader" where
  "hf_ReadSym h r =
     (if hf_min h = 0 then (Inl ErrHuffDecodeFailed, r)
      else if br_limit r \<le> int (br_bitsRead r) then (Inl EOF, r)
      else case br_PeekBits r 15 of (w, r1) \<Rightarrow>
        let v = unat (ucast w :: u16)
        in if v < hf_limit h ! hf_quickbits h
           then let i = v div 2 ^ (15 - hf_quickbits h);
                    bits = hf_quicklen h ! i
                in if br_limit r1 < int (br_bitsRead r1) + int bits then (Inl EOF, r1)
                   else (Inr (hf_quicksym h ! i), br_Advance r1 bits)
           else let bits = hf_search (hf_limit h) v (hf_min h)
                in if br_limit r1 < int (br_bitsRead r1) + int bits then (Inl EOF, r1)
                   else let r2 = br_Advance r1 bits;
                            p = hf_index (hf_limit h) (hf_pos h) v bits
                        in if length (hf_symbol h) \<le> p then (Inl ErrHuffDecodeFailed, r2)
                           else (Inr (hf_symbol h ! p), r2))"

text \<open>
  \<^verbatim>\<open>readCodeLengthTable\<close>. Both loops run over an array by index; the first reads the 20
  lengths of the code that the second reads the table with. The caller's array is changed
  in place, so what has been written when an error stops the loop is part of the result.
\<close>

function rclt_bitlength :: "bitReader \<Rightarrow> nat \<Rightarrow> nat list \<Rightarrow> (err + nat list) \<times> bitReader" where
  "rclt_bitlength br i bl =
     (if 20 \<le> i then (Inr bl, br)
      else case br_ReadBits br 4 of
        (Inl e, br1) \<Rightarrow> (Inl e, br1)
      | (Inr n, br1) \<Rightarrow>
          if n = 15
          then (case br_ReadBits br1 4 of
                  (Inl e, br2) \<Rightarrow> (Inl e, br2)
                | (Inr cnt, br2) \<Rightarrow>
                    if 0 < cnt then rclt_bitlength br2 (i + cnt + 2) bl
                    else rclt_bitlength br2 (i + 1) (bl[i := n]))
          else rclt_bitlength br1 (i + 1) (bl[i := n]))"
  by pat_completeness auto
termination by (relation "measure (\<lambda>(br, i, bl). 20 - i)") auto

fun rclt_fill :: "nat \<Rightarrow> nat \<Rightarrow> nat \<Rightarrow> nat list \<Rightarrow> nat list" where
  "rclt_fill 0 i value cl = cl"
| "rclt_fill (Suc count) i value cl =
     (if i < length cl then rclt_fill count (i + 1) value (cl[i := value]) else cl)"

function rclt_lengths ::
  "huffmanDecoder \<Rightarrow> bitReader \<Rightarrow> nat \<Rightarrow> nat list \<Rightarrow> err option \<times> nat list \<times> bitReader" where
  "rclt_lengths scratch br i cl =
     (if length cl \<le> i then (None, cl, br)
      else case hf_ReadSym scratch br of
        (Inl e, br1) \<Rightarrow> (Some e, cl, br1)
      | (Inr l, br1) \<Rightarrow>
          if l < 16 then rclt_lengths scratch br1 (i + 1) (cl[i := l])
          else case br_ReadBits br1 (if l = 16 \<or> l = 18 then 3 else 7) of
              (Inl e, br2) \<Rightarrow> (Some e, cl, br2)
            | (Inr c, br2) \<Rightarrow>
                let count = c + (if l = 16 \<or> l = 18 then 3 else 11)
                in if l < 18 \<and> i = 0 then (Some ErrInvalidLengthTable, cl, br2)
                   else let value = (if l < 18 then cl ! (i - 1) else 0)
                        in rclt_lengths scratch br2 (i + min count (length cl - i))
                             (rclt_fill count i value cl))"
  by pat_completeness auto
termination
proof (relation "measure (\<lambda>(scratch, br, i, cl). length cl - i)", goal_cases)
  case 1
  then show ?case by simp
next
  case 2
  then show ?case by simp
next
  case (3 scratch br i cl)
  have "length (rclt_fill c j v xs) = length xs" for c j v xs
    by (induction c j v xs rule: rclt_fill.induct) simp_all
  with 3 show ?case by (auto split: if_splits)
qed

definition readCodeLengthTable ::
  "bitReader \<Rightarrow> nat list \<Rightarrow> huffmanDecoder \<Rightarrow> err option \<times> nat list \<times> huffmanDecoder \<times> bitReader" where
  "readCodeLengthTable br codeLength scratch =
     (case rclt_bitlength br 0 (replicate 20 0) of
        (Inl e, br1) \<Rightarrow> (Some e, codeLength, scratch, br1)
      | (Inr bl, br1) \<Rightarrow>
          (case hf_Init scratch bl of
             Inl e \<Rightarrow> (Some e, codeLength, scratch, br1)
           | Inr h \<Rightarrow>
               (case rclt_lengths h br1 0 codeLength of (e, cl, br2) \<Rightarrow> (e, cl, h, br2))))"

declare rclt_bitlength.simps [simp del] rclt_lengths.simps [simp del]

subsection \<open>The canonical code\<close>

definition code_count :: "nat list \<Rightarrow> nat \<Rightarrow> nat" where
  "code_count cl l = (if l = 0 then 0 else length (filter (\<lambda>x. x = l) cl))"

text \<open>The first code of length \<open>l + 1\<close>, in units of a fifteen-bit code, and Kraft's sum.\<close>

definition code_base :: "nat list \<Rightarrow> nat \<Rightarrow> nat" where
  "code_base cl l = (\<Sum>i = 1..l. code_count cl i * 2 ^ (15 - i))"

definition code_first :: "nat list \<Rightarrow> nat \<Rightarrow> nat" where
  "code_first cl l = (\<Sum>i < l. code_count cl i)"

abbreviation code_rank :: "nat list \<Rightarrow> nat \<Rightarrow> nat" where
  "code_rank cl s \<equiv> code_count (take s cl) (cl ! s)"

definition code_value :: "nat list \<Rightarrow> nat \<Rightarrow> nat" where
  "code_value cl s = code_base cl (cl ! s - 1) + code_rank cl s * 2 ^ (15 - cl ! s)"

definition nat_bits :: "nat \<Rightarrow> nat \<Rightarrow> bool list" where
  "nat_bits l n = map (\<lambda>i. bit n (l - Suc i)) [0..<l]"

definition codeword :: "nat list \<Rightarrow> nat \<Rightarrow> bool list" where
  "codeword cl s = nat_bits (cl ! s) (code_value cl s div 2 ^ (15 - cl ! s))"

text \<open>Code lengths a table may be built from: at most fifteen bits, Kraft's inequality.\<close>

definition lengths_ok :: "nat list \<Rightarrow> bool" where
  "lengths_ok cl \<longleftrightarrow> (\<forall>l \<in> set cl. l \<le> 15) \<and> code_base cl 15 \<le> 32768"

subsection \<open>Counting\<close>

lemma code_count_simps [simp]:
  "code_count [] l = 0" "code_count cl 0 = 0"
  "code_count (x # cl) l = code_count cl l + (if x = l \<and> l \<noteq> 0 then 1 else 0)"
  "code_count (cl @ cl') l = code_count cl l + code_count cl' l"
  by (simp_all add: code_count_def)

lemma code_count_le: "code_count cl l \<le> length cl"
  by (induction cl) auto

lemma code_first_Suc: "code_first cl (Suc l) = code_first cl l + code_count cl l"
  by (simp add: code_first_def)

lemma code_first_0 [simp]: "code_first cl 0 = 0"
  by (simp add: code_first_def)

lemma code_first_Cons: "code_first (x # cl) l = code_first cl l + (if 0 < x \<and> x < l then 1 else 0)"
  by (induction l) (auto simp: code_first_Suc less_Suc_eq)

lemma code_first_le: "code_first cl l \<le> length cl"
proof (induction cl)
  case Nil
  show ?case by (simp add: code_first_def)
qed (simp add: code_first_Cons)

lemma code_first_mono: "l \<le> m \<Longrightarrow> code_first cl l \<le> code_first cl m"
  by (auto simp: code_first_def intro: sum_mono2)

lemma code_base_Suc: "code_base cl (Suc l) = code_base cl l + code_count cl (Suc l) * 2 ^ (15 - Suc l)"
  by (simp add: code_base_def)

lemma code_base_0 [simp]: "code_base cl 0 = 0"
  by (simp add: code_base_def)

lemma code_base_mono: "l \<le> m \<Longrightarrow> code_base cl l \<le> code_base cl m"
  by (auto simp: code_base_def intro: sum_mono2)

lemma code_base_le: "code_base cl l \<le> 16384 * length cl"
proof -
  have "code_base cl l \<le> 16384 * (code_first cl (Suc l))"
  proof (induction l)
    case (Suc l)
    have "(2::nat) ^ (15 - Suc l) \<le> 2 ^ 14" by (rule power_increasing) simp_all
    then have "code_count cl (Suc l) * 2 ^ (15 - Suc l) \<le> code_count cl (Suc l) * 16384"
      by (intro mult_le_mono2) simp
    with Suc show ?case unfolding code_base_Suc code_first_Suc [of cl "Suc l"] add_mult_distrib2 by linarith
  qed simp
  also have "\<dots> \<le> 16384 * length cl" using code_first_le [of cl "Suc l"] by simp
  finally show ?thesis .
qed

lemma code_base_dvd: "l \<le> m \<Longrightarrow> m \<le> 15 \<Longrightarrow> 2 ^ (15 - m) dvd code_base cl l"
proof (induction l)
  case (Suc l)
  then have "(2::nat) ^ (15 - m) dvd 2 ^ (15 - Suc l)" by (intro le_imp_power_dvd) simp
  with Suc show ?case by (simp add: code_base_Suc)
qed simp

lemma hf_count_fails: "\<exists>l \<in> set cl. 15 < l \<Longrightarrow> hf_count cl c = Inl ErrInvalidLengthTable"
  by (induction cl c rule: hf_count.induct) auto

lemma hf_count_ok:
  assumes "\<forall>l \<in> set cl. l \<le> 15" and "length c = 16" and "\<forall>l < 16. c ! l + length cl < 65536"
  shows "\<exists>c'. hf_count cl c = Inr c' \<and> length c' = 16 \<and> (\<forall>l < 16. c' ! l = c ! l + code_count cl l)"
  using assms
proof (induction cl c rule: hf_count.induct)
  case (2 n ns c)
  show ?case
  proof (cases "n = 0")
    case True
    have "\<forall>l < 16. c ! l + length ns < 65536" using "2.prems"(3) by fastforce
    with 2 True show ?thesis by auto
  next
    case False
    have n: "n < 16" using "2.prems"(1) by simp
    then have "c ! n + 1 < 65536" using "2.prems"(3) by auto
    then have w: "wrap16 (c ! n + 1) = c ! n + 1" by (simp add: wrap16_def)
    have "\<exists>c'. hf_count ns (c[n := wrap16 (c ! n + 1)]) = Inr c' \<and> length c' = 16
        \<and> (\<forall>l < 16. c' ! l = c[n := wrap16 (c ! n + 1)] ! l + code_count ns l)"
      by (rule "2.IH"(2)) (use False n "2.prems" w in \<open>auto simp: nth_list_update\<close>)
    with False n w "2.prems"(2) show ?thesis by (auto simp: nth_list_update)
  qed
qed simp

lemma hf_sum_eq:
  assumes "length cl < 65536" and "\<forall>l < 16. c ! l = code_count cl l"
  shows "hf_sum c = code_base cl 15"
proof -
  have "foldl (\<lambda>s i. (s + c ! i * 2 ^ (15 - i)) mod 4294967296) 0 [1..<Suc n] = code_base cl n"
    if "n \<le> 15" for n
    using that
  proof (induction n)
    case (Suc n)
    have "code_base cl (Suc n) < 4294967296"
      using code_base_le [of cl "Suc n"] assms(1) by simp
    with Suc assms(2) show ?case by (simp add: code_base_Suc)
  qed simp
  from this [OF order_refl] have "foldl (\<lambda>s i. (s + c ! i * 2 ^ (15 - i)) mod 4294967296) 0 [1..<Suc 15]
      = code_base cl 15" .
  moreover have "Suc 15 = 16" by simp
  ultimately show ?thesis by (simp only: hf_sum_def)
qed

lemma hf_limit_at_eq:
  assumes "code_base cl 15 \<le> 32768" and "\<forall>l < 16. c ! l = code_count cl l"
  shows "l \<le> 15 \<Longrightarrow> hf_limit_at c l = code_base cl l"
proof (induction l)
  case (Suc l)
  have "code_base cl (Suc l) \<le> 32768"
    using assms(1) code_base_mono [OF Suc.prems, of cl] by simp
  with Suc assms(2) show ?case by (simp add: wrap16_def code_base_Suc)
qed simp

lemma hf_pos_at_eq:
  assumes "length cl < 65536" and "\<forall>l < 16. c ! l = code_count cl l"
  shows "l \<le> 16 \<Longrightarrow> hf_pos_at c l = code_first cl l"
proof (induction l)
  case (Suc l)
  then show ?case
    using assms code_first_le [of cl "Suc l"] by (simp add: wrap16_def code_first_Suc)
qed simp

subsection \<open>The symbol table\<close>

definition code_place :: "nat list \<Rightarrow> nat \<Rightarrow> nat" where
  "code_place cl s = code_first cl (cl ! s) + code_rank cl s"

lemma code_rank_less:
  assumes "s < length cl" and "cl ! s \<noteq> 0"
  shows "code_rank cl s < code_count cl (cl ! s)"
proof -
  have "cl = take s cl @ cl ! s # drop (Suc s) cl" using assms(1) by (rule id_take_nth_drop)
  then have "code_count cl (cl ! s) = code_count (take s cl @ cl ! s # drop (Suc s) cl) (cl ! s)"
    by simp
  with assms(2) show ?thesis by (simp del: append_take_drop_id)
qed

lemma code_rank_mono:
  assumes "j < k" and "k \<le> length cl" and "cl ! j \<noteq> 0"
  shows "code_rank cl j < code_count (take k cl) (cl ! j)"
  using code_rank_less [of j "take k cl"] assms by (simp add: min_def)

lemma code_place_less:
  assumes "s < length cl" and "cl ! s \<noteq> 0"
  shows "code_place cl s < code_first cl (Suc (cl ! s))"
  using code_rank_less [OF assms] by (simp add: code_place_def code_first_Suc)

lemma code_place_neq:
  assumes "j < k" and "k < length cl" and "cl ! j \<noteq> 0" and "cl ! k \<noteq> 0"
  shows "code_place cl j \<noteq> code_place cl k"
proof -
  consider "cl ! j = cl ! k" | "cl ! j < cl ! k" | "cl ! k < cl ! j" by linarith
  then show ?thesis
  proof cases
    case 1
    then show ?thesis using code_rank_mono [of j k cl] assms by (simp add: code_place_def)
  next
    case 2
    then have "code_first cl (Suc (cl ! j)) \<le> code_first cl (cl ! k)" by (intro code_first_mono) simp
    then show ?thesis using code_place_less [of j cl] assms by (simp add: code_place_def)
  next
    case 3
    then have "code_first cl (Suc (cl ! k)) \<le> code_first cl (cl ! j)" by (intro code_first_mono) simp
    then show ?thesis using code_place_less [of k cl] assms by (simp add: code_place_def)
  qed
qed

text \<open>Every place of a length is taken by a symbol.\<close>

lemma code_rank_onto:
  "k < code_count cl l \<Longrightarrow> \<exists>s < length cl. cl ! s = l \<and> code_count (take s cl) l = k"
proof (induction cl rule: rev_induct)
  case (snoc x cl)
  show ?case
  proof (cases "k < code_count cl l")
    case True
    then obtain s where "s < length cl" "cl ! s = l" "code_count (take s cl) l = k"
      using snoc.IH by blast
    then show ?thesis by (intro exI [of _ s]) (simp add: nth_append)
  next
    case False
    with snoc.prems have "x = l" "k = code_count cl l" by (auto split: if_splits)
    then show ?thesis by (intro exI [of _ "length cl"]) simp
  qed
qed simp

lemma hf_symbols_length [simp]: "length (hf_symbols ns i count syms) = length syms"
  by (induction ns i count syms rule: hf_symbols.induct) simp_all

lemma hf_symbols_correct:
  assumes "cl = pre @ ns" and "length cl < 65536" and "\<forall>l \<in> set cl. l \<le> 15"
    and "length count = 16" and "length syms = length cl"
    and "\<forall>l. 0 < l \<and> l < 16 \<longrightarrow> count ! l = code_first cl l + code_count pre l"
    and "\<forall>j < length pre. cl ! j \<noteq> 0 \<longrightarrow> syms ! code_place cl j = j"
  shows "\<forall>j < length cl. cl ! j \<noteq> 0 \<longrightarrow> hf_symbols ns (length pre) count syms ! code_place cl j = j"
  using assms
proof (induction ns arbitrary: pre count syms)
  case (Cons n ns)
  have cl: "cl = (pre @ [n]) @ ns" using Cons.prems(1) by simp
  have n: "n \<le> 15" and nth: "cl ! length pre = n" and pre: "take (length pre) cl = pre"
    and lt: "length pre < length cl"
    using Cons.prems(1,3) by simp_all
  show ?case
  proof (cases "n = 0")
    case True
    have "\<forall>j < length (pre @ [n]). cl ! j \<noteq> 0 \<longrightarrow> syms ! code_place cl j = j"
      using Cons.prems(7) True nth by (auto simp: less_Suc_eq)
    with Cons.IH [OF cl Cons.prems(2-5)] Cons.prems(6) True show ?thesis by simp
  next
    case False
    have place: "count ! n = code_place cl (length pre)"
      using Cons.prems(6) False n nth pre by (simp add: code_place_def)
    have placelt: "code_place cl (length pre) < length cl"
      using code_place_less [OF lt] code_first_le [of cl "Suc n"] False nth by simp
    let ?count = "count[n := wrap16 (count ! n + 1)]" and ?syms = "syms[count ! n := wrap16 (length pre)]"
    have w: "wrap16 (count ! n + 1) = count ! n + 1" "wrap16 (length pre) = length pre"
      using place placelt Cons.prems(2) lt by (simp_all add: wrap16_def)
    have "\<forall>j < length cl. cl ! j \<noteq> 0 \<longrightarrow> hf_symbols ns (length (pre @ [n])) ?count ?syms ! code_place cl j = j"
    proof (rule Cons.IH [OF cl Cons.prems(2,3)])
      show "\<forall>l. 0 < l \<and> l < 16 \<longrightarrow> ?count ! l = code_first cl l + code_count (pre @ [n]) l"
        using Cons.prems(4,6) n w False by (auto simp: nth_list_update)
      show "\<forall>j < length (pre @ [n]). cl ! j \<noteq> 0 \<longrightarrow> ?syms ! code_place cl j = j"
      proof (intro allI impI)
        fix j assume j: "j < length (pre @ [n])" "cl ! j \<noteq> 0"
        show "?syms ! code_place cl j = j"
        proof (cases "j = length pre")
          case True
          then show ?thesis using place placelt Cons.prems(5) w by simp
        next
          case neq: False
          then have "j < length pre" using j by simp
          with code_place_neq [of j "length pre" cl] j False nth lt place Cons.prems(7)
          show ?thesis by simp
        qed
      qed
    qed (use Cons.prems(4,5) in simp_all)
    with False show ?thesis by simp
  qed
qed simp

lemma hf_symbols_unassigned:
  assumes "cl = pre @ ns" and "length cl < 65536" and "\<forall>l \<in> set cl. l \<le> 15" and "length count = 16"
    and "\<forall>l. 0 < l \<and> l < 16 \<longrightarrow> count ! l = code_first cl l + code_count pre l"
    and "code_first cl 16 \<le> p"
  shows "hf_symbols ns (length pre) count syms ! p = syms ! p"
  using assms
proof (induction ns arbitrary: pre count syms)
  case (Cons n ns)
  have cl: "cl = (pre @ [n]) @ ns" using Cons.prems(1) by simp
  have n: "n \<le> 15" and nth: "cl ! length pre = n" and pre: "take (length pre) cl = pre"
    and lt: "length pre < length cl"
    using Cons.prems(1,3) by simp_all
  show ?case
  proof (cases "n = 0")
    case True
    with Cons.IH [OF cl Cons.prems(2-4)] Cons.prems(5,6) show ?thesis by simp
  next
    case False
    have place: "count ! n = code_place cl (length pre)"
      using Cons.prems(5) False n nth pre by (simp add: code_place_def)
    have "code_place cl (length pre) < code_first cl (Suc n)"
      using code_place_less [OF lt] False nth by simp
    moreover have "code_first cl (Suc n) \<le> code_first cl 16" using n by (intro code_first_mono) simp
    moreover have "code_first cl 16 \<le> length cl" by (rule code_first_le)
    ultimately have "count ! n < p" "count ! n + 1 < 65536" using place Cons.prems(2,6) by simp_all
    then show ?thesis
      using False n Cons.prems(4-6)
        Cons.IH [OF cl Cons.prems(2,3), of "count[n := wrap16 (count ! n + 1)]" "syms[count ! n := wrap16 (length pre)]"]
      by (auto simp: nth_list_update wrap16_def)
  qed
qed simp

subsection \<open>The search and the quick table\<close>

lemma hf_search_eq:
  assumes "b \<le> l" and "l \<le> 15" and "\<forall>j. b \<le> j \<and> j < l \<longrightarrow> limit ! j \<le> v"
    and "l < 15 \<Longrightarrow> v < limit ! l"
  shows "hf_search limit v b = l"
  using assms
proof (induction limit v b rule: hf_search.induct)
  case (1 limit v b)
  show ?case
  proof (cases "b = l")
    case True
    with "1.prems" show ?thesis by (subst hf_search.simps) auto
  next
    case False
    with "1.prems" have "limit ! b \<le> v \<and> b < 15" by simp
    with "1.IH" [OF this] "1.prems" False show ?thesis by (subst hf_search.simps) simp
  qed
qed

lemma hf_search_spec:
  assumes "b \<le> 15"
  shows "b \<le> hf_search limit v b" and "hf_search limit v b \<le> 15"
    and "\<forall>j. b \<le> j \<and> j < hf_search limit v b \<longrightarrow> limit ! j \<le> v"
    and "hf_search limit v b < 15 \<Longrightarrow> v < limit ! hf_search limit v b"
proof -
  have "b \<le> hf_search limit v b \<and> hf_search limit v b \<le> 15
      \<and> (\<forall>j. b \<le> j \<and> j < hf_search limit v b \<longrightarrow> limit ! j \<le> v)
      \<and> (hf_search limit v b < 15 \<longrightarrow> v < limit ! hf_search limit v b)"
    using assms
  proof (induction limit v b rule: hf_search.induct)
    case (1 limit v b)
    show ?case
    proof (cases "limit ! b \<le> v \<and> b < 15")
      case True
      with "1.IH" [OF this] show ?thesis
        by (subst (1 2 3 4 5) hf_search.simps) (auto simp: Suc_le_eq dest: le_neq_implies_less)
    next
      case False
      then show ?thesis using "1.prems" by (subst (1 2 3 4 5) hf_search.simps) auto
    qed
  qed
  then show "b \<le> hf_search limit v b" and "hf_search limit v b \<le> 15"
    and "\<forall>j. b \<le> j \<and> j < hf_search limit v b \<longrightarrow> limit ! j \<le> v"
    and "hf_search limit v b < 15 \<Longrightarrow> v < limit ! hf_search limit v b"
    by blast+
qed

text \<open>A search may start at any length below which no code lies.\<close>

lemma hf_search_start:
  assumes "1 \<le> b" and "b \<le> 15" and "\<forall>j. 1 \<le> j \<and> j < b \<longrightarrow> limit ! j \<le> v"
  shows "hf_search limit v b = hf_search limit v 1"
proof -
  have "hf_search limit v 1 = hf_search limit v b"
  proof (rule hf_search_eq)
    show "\<forall>j. 1 \<le> j \<and> j < hf_search limit v b \<longrightarrow> limit ! j \<le> v"
      using assms(3) hf_search_spec(3) [OF assms(2), of limit v] not_le by blast
  qed (use assms hf_search_spec [OF assms(2), of limit v] in auto)
  then show ?thesis by simp
qed

definition hf_quick_entry :: "nat list \<Rightarrow> nat list \<Rightarrow> nat list \<Rightarrow> nat \<Rightarrow> nat \<times> nat" where
  "hf_quick_entry limit pos syms v =
     (let bits = hf_search limit v 1; p = hf_index limit pos v bits
      in (bits, if p < length syms then syms ! p else 0))"

lemma hf_quick_eq:
  assumes "sorted is" and "\<forall>i \<in> set is. i < 2 ^ qb" and "qb \<le> 15" and "1 \<le> b" and "b \<le> 15"
    and "\<forall>i \<in> set is. \<forall>j. 1 \<le> j \<and> j < b \<longrightarrow> limit ! j \<le> i * 2 ^ (15 - qb)"
  shows "hf_quick limit pos syms qb is b
       = map (\<lambda>i. hf_quick_entry limit pos syms (i * 2 ^ (15 - qb))) is"
  using assms
proof (induction limit pos syms qb "is" b rule: hf_quick.induct)
  case (2 limit pos syms qb i "is" b)
  let ?v = "i * 2 ^ (15 - qb)"
  have "i * 2 ^ (15 - qb) < 2 ^ qb * 2 ^ (15 - qb)" using "2.prems"(2) by (intro mult_strict_right_mono) auto
  also have "\<dots> = 2 ^ 15" using "2.prems"(3) by (simp flip: power_add)
  finally have v: "wrap16 ?v = ?v" by (simp add: wrap16_def)
  have search: "hf_search limit ?v b = hf_search limit ?v 1"
    by (rule hf_search_start) (use "2.prems" in auto)
  let ?b = "hf_search limit ?v 1"
  have "1 \<le> ?b" "?b \<le> 15" and below: "\<forall>j. 1 \<le> j \<and> j < ?b \<longrightarrow> limit ! j \<le> ?v"
    using hf_search_spec(1-3) [of 1 limit ?v] by simp_all
  have mono: "?v \<le> k * 2 ^ (15 - qb)" if "k \<in> set is" for k
    using "2.prems"(1) that by simp
  have "hf_quick limit pos syms qb is (hf_search limit (wrap16 ?v) b)
      = map (\<lambda>i. hf_quick_entry limit pos syms (i * 2 ^ (15 - qb))) is"
    by (rule "2.IH" [OF refl refl refl])
      (use "2.prems" v search below mono \<open>1 \<le> ?b\<close> \<open>?b \<le> 15\<close> in \<open>auto intro: order_trans\<close>)
  then show ?case by (simp add: Let_def v search hf_quick_entry_def)
qed simp

subsection \<open>Tables built from a list of lengths\<close>

definition hf_table :: "huffmanDecoder \<Rightarrow> nat list \<Rightarrow> bool" where
  "hf_table h cl \<longleftrightarrow> lengths_ok cl \<and> length cl < 65536
     \<and> hf_limit h = map (code_base cl) [0..<16] \<and> hf_pos h = map (code_first cl) [0..<16]
     \<and> length (hf_symbol h) = length cl
     \<and> (\<forall>s < length cl. cl ! s \<noteq> 0 \<longrightarrow> hf_symbol h ! code_place cl s = s)
     \<and> (\<forall>p. code_first cl 16 \<le> p \<and> p < length cl \<longrightarrow> hf_symbol h ! p = 0)
     \<and> (hf_quickbits h = 7 \<or> hf_quickbits h = 10)
     \<and> (\<forall>i < 2 ^ hf_quickbits h. (hf_quicklen h ! i, hf_quicksym h ! i)
           = hf_quick_entry (hf_limit h) (hf_pos h) (hf_symbol h) (i * 2 ^ (15 - hf_quickbits h)))
     \<and> hf_min h = (case find (\<lambda>i. 0 < hf_limit h ! i) [1..<16] of None \<Rightarrow> 0 | Some i \<Rightarrow> i)"

lemma hf_Init_rejects:
  assumes "length cl < 65536" and "\<not> lengths_ok cl"
  shows "hf_Init h cl = Inl ErrInvalidLengthTable"
proof (cases "\<exists>l \<in> set cl. 15 < l")
  case True
  then show ?thesis by (simp add: hf_Init_def hf_count_fails)
next
  case False
  then have "\<forall>l \<in> set cl. l \<le> 15" by (simp add: not_less)
  with hf_count_ok [of cl "replicate 16 0"] assms obtain c
    where c: "hf_count cl (replicate 16 0) = Inr c" "\<forall>l < 16. c ! l = code_count cl l" by auto
  from c(2) have "hf_sum c = code_base cl 15" by (rule hf_sum_eq [OF assms(1)])
  with c(1) assms(2) \<open>\<forall>l \<in> set cl. l \<le> 15\<close> show ?thesis by (simp add: hf_Init_def lengths_ok_def)
qed

lemma hf_Init_table:
  assumes "length cl < 65536" and "lengths_ok cl"
  shows "\<exists>h'. hf_Init h cl = Inr h' \<and> hf_table h' cl"
proof -
  have l15: "\<forall>l \<in> set cl. l \<le> 15" and kraft: "code_base cl 15 \<le> 32768"
    using assms(2) by (simp_all add: lengths_ok_def)
  with hf_count_ok [of cl "replicate 16 0"] assms(1) obtain c
    where c: "hf_count cl (replicate 16 0) = Inr c" "\<forall>l < 16. c ! l = code_count cl l" by auto
  have kraft': "(32768 < hf_sum c) = False" using hf_sum_eq [OF assms(1) c(2)] kraft by simp
  have limit: "map (hf_limit_at c) [0..<16] = map (code_base cl) [0..<16]"
    using hf_limit_at_eq [OF kraft c(2)] by simp
  have pos: "map (hf_pos_at c) [0..<16] = map (code_first cl) [0..<16]"
    using hf_pos_at_eq [OF assms(1) c(2)] by simp
  let ?limit = "map (code_base cl) [0..<16]" and ?pos = "map (code_first cl) [0..<16]"
  let ?syms = "hf_symbols cl 0 ?pos (replicate (length cl) 0)"
  let ?qb = "if 298 \<le> length cl then 10 else 7 :: nat"
  let ?q = "hf_quick ?limit ?pos ?syms ?qb [0..<2 ^ ?qb] 1"
  let ?mn = "case find (\<lambda>i. 0 < ?limit ! i) [1..<16] of None \<Rightarrow> 0 | Some i \<Rightarrow> i"
  have q: "?q = map (\<lambda>i. hf_quick_entry ?limit ?pos ?syms (i * 2 ^ (15 - ?qb))) [0..<2 ^ ?qb]"
    by (rule hf_quick_eq) simp_all
  have ppos: "length ?pos = 16" "\<forall>l. 0 < l \<and> l < 16 \<longrightarrow> ?pos ! l = code_first cl l + code_count [] l"
    by simp_all
  have syms: "\<forall>s < length cl. cl ! s \<noteq> 0 \<longrightarrow> ?syms ! code_place cl s = s"
    using hf_symbols_correct [of cl "[]" cl ?pos "replicate (length cl) 0"] assms(1) l15 ppos by simp
  have zero: "\<forall>p. code_first cl 16 \<le> p \<and> p < length cl \<longrightarrow> ?syms ! p = 0"
    using hf_symbols_unassigned [of cl "[]" cl ?pos _ "replicate (length cl) 0"] assms(1) l15 ppos by simp
  let ?h = "h\<lparr>hf_limit := ?limit, hf_pos := ?pos, hf_min := ?mn, hf_symbol := ?syms, hf_quickbits := ?qb,
      hf_quicklen := map fst ?q @ drop (length ?q) (hf_quicklen h),
      hf_quicksym := map snd ?q @ drop (length ?q) (hf_quicksym h)\<rparr>"
  have "hf_Init h cl = Inr ?h"
    by (simp only: hf_Init_def c(1) sum.case kraft' if_False Let_def limit pos)
  moreover have "hf_table ?h cl"
    unfolding hf_table_def using assms syms zero q by (auto simp: nth_append)
  ultimately show ?thesis by blast
qed

subsection \<open>Decoding one symbol\<close>

lemma code_value_dvd: "cl ! s \<le> 15 \<Longrightarrow> 2 ^ (15 - cl ! s) dvd code_value cl s"
  using code_base_dvd [of "cl ! s - 1" "cl ! s" cl] by (simp add: code_value_def)

definition code_covers :: "nat list \<Rightarrow> nat \<Rightarrow> nat \<Rightarrow> bool" where
  "code_covers cl s v \<longleftrightarrow> s < length cl \<and> cl ! s \<noteq> 0
     \<and> code_value cl s \<le> v \<and> v < code_value cl s + 2 ^ (15 - cl ! s)"

lemma code_covers_level:
  assumes "code_covers cl s v"
  shows "code_base cl (cl ! s - 1) \<le> v" and "v < code_base cl (cl ! s)"
    and "(v - code_base cl (cl ! s - 1)) div 2 ^ (15 - cl ! s) = code_rank cl s"
proof -
  let ?l = "cl ! s" and ?d = "(2::nat) ^ (15 - cl ! s)"
  have s: "s < length cl" "?l \<noteq> 0" using assms by (simp_all add: code_covers_def)
  have v: "code_base cl (?l - 1) + code_rank cl s * ?d \<le> v"
    "v < code_base cl (?l - 1) + code_rank cl s * ?d + ?d"
    using assms by (simp_all add: code_covers_def code_value_def)
  have "code_rank cl s * ?d + ?d \<le> code_count cl ?l * ?d"
    using code_rank_less [OF s] by (metis Suc_leI add.commute mult_Suc mult_le_mono1)
  moreover have "code_base cl ?l = code_base cl (?l - 1) + code_count cl ?l * ?d"
    using code_base_Suc [of cl "?l - 1"] s(2) by simp
  ultimately show "code_base cl (?l - 1) \<le> v" and "v < code_base cl ?l" using v by simp_all
  show "(v - code_base cl (?l - 1)) div ?d = code_rank cl s"
    using v by (intro div_nat_eqI) (simp_all add: mult.commute)
qed

lemma hf_limit_nth: "hf_table h cl \<Longrightarrow> j \<le> 15 \<Longrightarrow> hf_limit h ! j = code_base cl j"
  by (simp add: hf_table_def)

lemma hf_table_level:
  assumes "hf_table h cl" and "cl ! s < 16" and "s < length cl"
  shows "hf_pos h ! (cl ! s) = code_first cl (cl ! s)"
  using assms by (simp add: hf_table_def)

lemma hf_table_length_le: "hf_table h cl \<Longrightarrow> s < length cl \<Longrightarrow> cl ! s \<le> 15"
  by (auto simp: hf_table_def lengths_ok_def dest: nth_mem)

lemma hf_search_covers:
  assumes "hf_table h cl" and "code_covers cl s v"
  shows "hf_search (hf_limit h) v 1 = cl ! s"
proof (rule hf_search_eq)
  have s: "s < length cl" "cl ! s \<noteq> 0" using assms(2) by (simp_all add: code_covers_def)
  show l: "cl ! s \<le> 15" by (rule hf_table_length_le [OF assms(1) s(1)])
  show "1 \<le> cl ! s" using s by simp
  show "\<forall>j. 1 \<le> j \<and> j < cl ! s \<longrightarrow> hf_limit h ! j \<le> v"
  proof (intro allI impI)
    fix j assume "1 \<le> j \<and> j < cl ! s"
    then have "code_base cl j \<le> code_base cl (cl ! s - 1)" by (intro code_base_mono) linarith
    then show "hf_limit h ! j \<le> v"
      using code_covers_level(1) [OF assms(2)] hf_limit_nth [OF assms(1), of j] l
        \<open>1 \<le> j \<and> j < cl ! s\<close> by simp
  qed
  show "v < hf_limit h ! (cl ! s)"
    using code_covers_level(2) [OF assms(2)] hf_limit_nth [OF assms(1) l] by simp
qed

lemma hf_index_covers:
  assumes "hf_table h cl" and "code_covers cl s v"
  shows "hf_index (hf_limit h) (hf_pos h) v (cl ! s) = code_place cl s"
    and "code_place cl s < length cl" and "hf_symbol h ! code_place cl s = s"
proof -
  have s: "s < length cl" "cl ! s \<noteq> 0" using assms(2) by (simp_all add: code_covers_def)
  have l: "cl ! s \<le> 15" by (rule hf_table_length_le [OF assms(1) s(1)])
  note level = code_covers_level [OF assms(2)]
  have "code_base cl (cl ! s) \<le> 32768"
    using assms(1) code_base_mono [OF l, of cl] by (simp add: hf_table_def lengths_ok_def)
  then have "(v + 65536 - code_base cl (cl ! s - 1)) mod 65536 = v - code_base cl (cl ! s - 1)"
    using level(1,2) by (simp add: le_add_diff_inverse2 flip: add_diff_assoc2)
  then show "hf_index (hf_limit h) (hf_pos h) v (cl ! s) = code_place cl s"
    using hf_limit_nth [OF assms(1), of "cl ! s - 1"] hf_table_level [OF assms(1) _ s(1)] l level(3)
    by (simp add: hf_index_def code_place_def)
  show "code_place cl s < length cl"
    using code_place_less [OF s] code_first_le [of cl "Suc (cl ! s)"] by simp
  show "hf_symbol h ! code_place cl s = s" using assms(1) s by (simp add: hf_table_def)
qed

text \<open>Below the last limit every value is covered by exactly the code the tables find.\<close>

lemma code_covers_ex:
  assumes "lengths_ok cl" and "v < code_base cl 15"
  shows "\<exists>s. code_covers cl s v"
proof -
  define l where "l = (LEAST l. v < code_base cl l)"
  have vl: "v < code_base cl l" unfolding l_def using assms(2) by (rule LeastI)
  then have l0: "l \<noteq> 0" by (intro notI) simp
  have l15: "l \<le> 15" unfolding l_def using assms(2) by (rule Least_le)
  have lo: "code_base cl (l - 1) \<le> v"
    using not_less_Least [of "l - 1" "\<lambda>l. v < code_base cl l"] l0 by (simp add: l_def [symmetric] not_less)
  let ?d = "(2::nat) ^ (15 - l)"
  let ?k = "(v - code_base cl (l - 1)) div ?d"
  have "code_base cl l = code_base cl (l - 1) + code_count cl l * ?d"
    using code_base_Suc [of cl "l - 1"] l0 by simp
  then have "v - code_base cl (l - 1) < code_count cl l * ?d" using vl lo by linarith
  then have "?k < code_count cl l" by (simp add: less_mult_imp_div_less)
  then obtain s where s: "s < length cl" "cl ! s = l" "code_count (take s cl) l = ?k"
    using code_rank_onto by blast
  have val: "code_value cl s = code_base cl (l - 1) + ?k * ?d" using s by (simp add: code_value_def)
  have "?k * ?d \<le> v - code_base cl (l - 1)" by simp
  moreover have "v - code_base cl (l - 1) < ?k * ?d + ?d"
    using dividend_less_div_times [of ?d "v - code_base cl (l - 1)"] by (simp add: add.commute)
  ultimately have "code_value cl s \<le> v" "v < code_value cl s + ?d"
    unfolding val using lo by linarith+
  with s l0 have "code_covers cl s v" by (simp add: code_covers_def)
  then show ?thesis ..
qed

lemma hf_min_spec:
  assumes "hf_table h cl" and "code_covers cl s v"
  shows "hf_min h \<noteq> 0" and "hf_search (hf_limit h) v (hf_min h) = cl ! s"
proof -
  have s: "s < length cl" "cl ! s \<noteq> 0" using assms(2) by (simp_all add: code_covers_def)
  have l: "cl ! s \<le> 15" by (rule hf_table_length_le [OF assms(1) s(1)])
  have pos: "0 < hf_limit h ! (cl ! s)"
    using code_covers_level(2) [OF assms(2)] hf_limit_nth [OF assms(1) l] by simp
  have mn: "hf_min h = (case find (\<lambda>i. 0 < hf_limit h ! i) [1..<16] of None \<Rightarrow> 0 | Some i \<Rightarrow> i)"
    using assms(1) by (simp add: hf_table_def)
  obtain m where m: "find (\<lambda>i. 0 < hf_limit h ! i) [1..<16] = Some m"
    using pos s(2) l by (cases "find (\<lambda>i. 0 < hf_limit h ! i) [1..<16]") (auto simp: find_None_iff)
  then have m1: "1 \<le> m" "m \<le> 15" and below: "\<forall>j. 1 \<le> j \<and> j < m \<longrightarrow> hf_limit h ! j = 0"
    by (auto simp: find_Some_iff) (metis One_nat_def Suc_le_D diff_Suc_1 less_Suc_eq plus_1_eq_Suc less_antisym not_less_eq)
  show "hf_min h \<noteq> 0" using mn m m1 by simp
  have "hf_search (hf_limit h) v m = hf_search (hf_limit h) v 1"
    by (rule hf_search_start) (use m1 below in auto)
  then show "hf_search (hf_limit h) v (hf_min h) = cl ! s"
    using mn m hf_search_covers [OF assms] by simp
qed

text \<open>A quick-table entry below the quick limit is the code that covers every value with its prefix.\<close>

lemma hf_quick_covers:
  assumes "hf_table h cl" and "code_covers cl s v" and "v < hf_limit h ! hf_quickbits h"
  shows "hf_quicklen h ! (v div 2 ^ (15 - hf_quickbits h)) = cl ! s"
    and "hf_quicksym h ! (v div 2 ^ (15 - hf_quickbits h)) = s"
proof -
  let ?qb = "hf_quickbits h" and ?d = "(2::nat) ^ (15 - hf_quickbits h)"
  let ?i = "v div ?d"
  have s: "s < length cl" "cl ! s \<noteq> 0" using assms(2) by (simp_all add: code_covers_def)
  have l: "cl ! s \<le> 15" by (rule hf_table_length_le [OF assms(1) s(1)])
  have qb: "?qb = 7 \<or> ?qb = 10" using assms(1) by (simp add: hf_table_def)
  then have qb15: "?qb \<le> 15" by auto
  have vq: "v < code_base cl ?qb" using assms(3) hf_limit_nth [OF assms(1) qb15] by simp
  have lq: "cl ! s \<le> ?qb"
  proof (rule ccontr)
    assume "\<not> cl ! s \<le> ?qb"
    then have "code_base cl ?qb \<le> code_base cl (cl ! s - 1)" by (intro code_base_mono) simp
    with code_covers_level(1) [OF assms(2)] vq show False by simp
  qed
  have "v < 2 ^ 15"
    using vq assms(1) code_base_mono [OF qb15, of cl] by (simp add: hf_table_def lengths_ok_def)
  also have "(2::nat) ^ 15 = 2 ^ ?qb * ?d" using qb15 by (simp flip: power_add)
  finally have i: "?i < 2 ^ ?qb" by (simp add: less_mult_imp_div_less)
  have "?d dvd 2 ^ (15 - cl ! s)" using lq by (intro le_imp_power_dvd) simp
  then have dvd: "?d dvd code_value cl s" using code_value_dvd [of cl s] l dvd_trans by blast
  have "code_value cl s \<le> ?i * ?d"
  proof -
    from dvd obtain k where k: "code_value cl s = k * ?d" by (metis dvd_div_mult_self)
    then have "k * ?d \<le> v" using assms(2) by (simp add: code_covers_def)
    then have "k \<le> ?i" by (simp add: less_eq_div_iff_mult_less_eq)
    with k show ?thesis by simp
  qed
  moreover have "?i * ?d \<le> v" by simp
  ultimately have cov: "code_covers cl s (?i * ?d)"
    using assms(2) unfolding code_covers_def by (meson le_less_trans)
  have "(hf_quicklen h ! ?i, hf_quicksym h ! ?i)
      = hf_quick_entry (hf_limit h) (hf_pos h) (hf_symbol h) (?i * ?d)"
    using assms(1) i by (simp add: hf_table_def)
  also have "\<dots> = (cl ! s, s)"
    using hf_search_covers [OF assms(1) cov] hf_index_covers [OF assms(1) cov] assms(1)
    by (simp add: hf_quick_entry_def hf_table_def)
  finally show "hf_quicklen h ! ?i = cl ! s" and "hf_quicksym h ! ?i = s" by simp_all
qed

text \<open>The fifteen bits a symbol is looked up with.\<close>

definition peek15 :: "bitReader \<Rightarrow> nat" where
  "peek15 r = bits_nat (take 15 (br_rest r @ replicate 15 False))"

lemma peek15_less: "peek15 r < 2 ^ 15"
proof -
  have len: "length (take 15 (br_rest r @ replicate 15 False)) = 15" by simp
  show ?thesis
    using bits_nat_less [of "take 15 (br_rest r @ replicate 15 False)"] by (simp only: peek15_def len)
qed

lemma br_peek15:
  assumes "br_inv r"
  obtains r1 where "br_PeekBits r 15 = (word_of_nat (peek15 r), r1)" and "br_after r 0 r1"
    and "min 15 (length (br_rest r)) \<le> br_n r1" and "unat (ucast (word_of_nat (peek15 r) :: u32) :: u16) = peek15 r"
proof -
  have u: "unat (word_of_nat (peek15 r) :: u32) = peek15 r"
    using peek15_less [of r] by (simp add: unsigned_of_nat take_bit_nat_eq_self)
  have "unat (ucast (word_of_nat (peek15 r) :: u32) :: u16) = peek15 r"
    using peek15_less [of r] by (simp add: unat_ucast_mod u)
  then show ?thesis using br_PeekBits_correct [OF assms, of 15] that by (auto simp: peek15_def)
qed

definition block_fits :: "bitReader \<Rightarrow> bool" where
  "block_fits r \<longleftrightarrow> br_inv r \<and> br_limit r \<le> 8 * int (length (br_buf r))"

lemma block_fits_after: "block_fits r \<Longrightarrow> br_after r k r' \<Longrightarrow> block_fits r'"
  by (simp add: block_fits_def br_after_def)

lemma block_fits_bits:
  assumes "block_fits r"
  shows "length (br_bits r) = nat (br_limit r - int (br_bitsRead r))"
    and "br_limit r < int (br_bitsRead r) + int k \<Longrightarrow> 0 < k \<Longrightarrow> length (br_bits r) < k"
    and "\<not> br_limit r < int (br_bitsRead r) + int k \<Longrightarrow> k \<le> length (br_bits r) \<and> k \<le> length (br_rest r)"
proof -
  show len: "length (br_bits r) = nat (br_limit r - int (br_bitsRead r))"
    using assms by (auto simp: block_fits_def br_bits_length)
  show "length (br_bits r) < k" if "br_limit r < int (br_bitsRead r) + int k" "0 < k"
    using len that by simp
  show "k \<le> length (br_bits r) \<and> k \<le> length (br_rest r)" if "\<not> br_limit r < int (br_bitsRead r) + int k"
    using assms len that by (auto simp: block_fits_def br_rest_def)
qed

lemma hf_ReadSym_covers:
  assumes "hf_table h cl" and fits: "block_fits r" and cov: "code_covers cl s (peek15 r)"
    and avail: "br_bits r \<noteq> []"
  shows "cl ! s \<le> length (br_bits r) \<Longrightarrow> \<exists>r'. hf_ReadSym h r = (Inr s, r') \<and> br_after r (cl ! s) r'"
    and "length (br_bits r) < cl ! s \<Longrightarrow> \<exists>r'. hf_ReadSym h r = (Inl EOF, r') \<and> br_after r 0 r'"
proof -
  let ?v = "peek15 r" and ?l = "cl ! s"
  have inv: "br_inv r" using fits by (simp add: block_fits_def)
  obtain r1 where peek: "br_PeekBits r 15 = (word_of_nat ?v, r1)" and after: "br_after r 0 r1"
    and cached: "min 15 (length (br_rest r)) \<le> br_n r1"
    and v: "unat (ucast (word_of_nat ?v :: u32) :: u16) = ?v"
    using br_peek15 [OF inv] .
  have s: "s < length cl" "?l \<noteq> 0" using cov by (simp_all add: code_covers_def)
  have l: "?l \<le> 15" by (rule hf_table_length_le [OF assms(1) s(1)])
  note mn = hf_min_spec [OF assms(1) cov]
  note idx = hf_index_covers [OF assms(1) cov]
  note q = hf_quick_covers [OF assms(1) cov]
  have same: "br_limit r1 = br_limit r" "br_bitsRead r1 = br_bitsRead r"
    using after by (simp_all add: br_after_def)
  have lim: "\<not> br_limit r \<le> int (br_bitsRead r)"
    using block_fits_bits(1) [OF fits] avail by auto
  have len: "length (hf_symbol h) = length cl" using assms(1) by (simp add: hf_table_def)
  have read: "hf_ReadSym h r = (if br_limit r < int (br_bitsRead r) + int ?l then (Inl EOF, r1)
      else (Inr s, br_Advance r1 ?l))"
    using mn idx q lim len by (auto simp: hf_ReadSym_def peek Let_def v same)
  show "\<exists>r'. hf_ReadSym h r = (Inl EOF, r') \<and> br_after r 0 r'" if "length (br_bits r) < ?l"
    using read after that block_fits_bits(3) [OF fits, of ?l] by auto
  show "\<exists>r'. hf_ReadSym h r = (Inr s, r') \<and> br_after r ?l r'" if "?l \<le> length (br_bits r)"
  proof -
    have no: "\<not> br_limit r < int (br_bitsRead r) + int ?l"
      using block_fits_bits(2) [OF fits, of ?l] that s(2) by auto
    with block_fits_bits(3) [OF fits no] cached l have "?l \<le> br_n r1" by linarith
    then have "br_after r1 ?l (br_Advance r1 ?l)"
      using after by (intro br_Advance_correct) (simp_all add: br_after_def)
    then show ?thesis using read no br_after_trans [OF after] by simp
  qed
qed

text \<open>A value no code covers: an incomplete table meets a bit pattern it does not assign.\<close>

lemma hf_ReadSym_uncovered:
  assumes "hf_table h cl" and fits: "block_fits r" and unc: "code_base cl 15 \<le> peek15 r"
    and avail: "br_bits r \<noteq> []"
  shows "\<exists>k r'. br_after r k r' \<and> k \<le> 15 \<and> k \<le> length (br_bits r)
     \<and> (hf_ReadSym h r = (Inl EOF, r') \<and> k = 0
        \<or> hf_ReadSym h r = (Inl ErrHuffDecodeFailed, r')
        \<or> hf_ReadSym h r = (Inr 0, r') \<and> k = 15)"
proof (cases "hf_min h = 0")
  case True
  then show ?thesis using fits by (intro exI [of _ 0] exI [of _ r])
    (simp add: hf_ReadSym_def br_after_def block_fits_def)
next
  case False
  let ?v = "peek15 r"
  have inv: "br_inv r" using fits by (simp add: block_fits_def)
  obtain r1 where peek: "br_PeekBits r 15 = (word_of_nat ?v, r1)" and after: "br_after r 0 r1"
    and cached: "min 15 (length (br_rest r)) \<le> br_n r1"
    and v: "unat (ucast (word_of_nat ?v :: u32) :: u16) = ?v"
    using br_peek15 [OF inv] .
  have same: "br_limit r1 = br_limit r" "br_bitsRead r1 = br_bitsRead r"
    using after by (simp_all add: br_after_def)
  have lim: "\<not> br_limit r \<le> int (br_bitsRead r)" using block_fits_bits(1) [OF fits] avail by auto
  have le: "hf_limit h ! j \<le> ?v" if "j \<le> 15" for j
    using hf_limit_nth [OF assms(1) that] code_base_mono [OF that, of cl] unc by simp
  have "hf_quickbits h \<le> 15" using assms(1) by (auto simp: hf_table_def)
  then have slow: "\<not> ?v < hf_limit h ! hf_quickbits h" using le [of "hf_quickbits h"] by simp
  have "hf_min h \<le> 15"
    using False assms(1) by (auto simp: hf_table_def find_Some_iff split: option.splits)
  then have search: "hf_search (hf_limit h) ?v (hf_min h) = 15"
    using le by (intro hf_search_eq) auto
  let ?p = "hf_index (hf_limit h) (hf_pos h) ?v 15"
  have "code_base cl 14 \<le> ?v" "?v < 65536"
    using le [of 14] hf_limit_nth [OF assms(1), of 14] peek15_less [of r] by simp_all
  then have "(?v + 65536 - code_base cl 14) mod 65536 = ?v - code_base cl 14"
    by (simp add: le_add_diff_inverse2 flip: add_diff_assoc2)
  then have p: "?p = code_first cl 15 + (?v - code_base cl 14)"
    using assms(1) by (simp add: hf_index_def hf_table_def)
  have "code_base cl 15 = code_base cl 14 + code_count cl 15"
    "code_first cl 16 = code_first cl 15 + code_count cl 15"
    using code_base_Suc [of cl 14] code_first_Suc [of cl 15] by simp_all
  then have "code_first cl 16 \<le> ?p" using p unc by simp
  then have zero: "?p < length (hf_symbol h) \<Longrightarrow> hf_symbol h ! ?p = 0"
    using assms(1) by (simp add: hf_table_def)
  have read: "hf_ReadSym h r = (if br_limit r < int (br_bitsRead r) + 15 then (Inl EOF, r1)
      else (if length (hf_symbol h) \<le> ?p then Inl ErrHuffDecodeFailed else Inr 0, br_Advance r1 15))"
    using False slow search lim zero by (auto simp: hf_ReadSym_def peek Let_def v same)
  show ?thesis
  proof (cases "br_limit r < int (br_bitsRead r) + 15")
    case True
    then show ?thesis using read after by (intro exI [of _ 0] exI [of _ r1]) simp
  next
    case no: False
    then have "15 \<le> length (br_bits r)" "15 \<le> length (br_rest r)"
      using block_fits_bits(3) [OF fits, of 15] by simp_all
    then have "br_after r1 15 (br_Advance r1 15)"
      using after cached by (intro br_Advance_correct) (simp_all add: br_after_def)
    then have "br_after r 15 (br_Advance r1 15)" using br_after_trans [OF after] by simp
    with read no \<open>15 \<le> length (br_bits r)\<close> show ?thesis
      by (intro exI [of _ 15] exI [of _ "br_Advance r1 15"]) auto
  qed
qed

text \<open>What every call keeps, whatever the table and the bits.\<close>

lemma hf_ReadSym_safe:
  assumes "hf_table h cl" and fits: "block_fits r"
  obtains k res r' where "hf_ReadSym h r = (res, r')" and "br_after r k r'" and "k \<le> length (br_bits r)"
    and "k \<le> 15" and "\<And>v. res = Inr v \<Longrightarrow> 0 < k \<and> (v < length cl \<or> v = 0)"
    and "\<And>e. res = Inl e \<Longrightarrow> e = EOF \<or> e = ErrHuffDecodeFailed" and "res = Inl EOF \<Longrightarrow> k = 0"
proof (cases "br_bits r = []")
  case True
  have "br_after r 0 r" using fits by (simp add: br_after_def block_fits_def)
  moreover have "br_limit r \<le> int (br_bitsRead r)" using True block_fits_bits(1) [OF fits] by simp
  then have "hf_ReadSym h r = (Inl (if hf_min h = 0 then ErrHuffDecodeFailed else EOF), r)"
    by (simp add: hf_ReadSym_def)
  ultimately show ?thesis
    using that [of "Inl (if hf_min h = 0 then ErrHuffDecodeFailed else EOF)" r 0] by simp
next
  case False
  show ?thesis
  proof (cases "peek15 r < code_base cl 15")
    case True
    moreover have "lengths_ok cl" using assms(1) by (simp add: hf_table_def)
    ultimately obtain s where cov: "code_covers cl s (peek15 r)"
      using code_covers_ex by blast
    then have "s < length cl" "cl ! s \<noteq> 0" by (simp_all add: code_covers_def)
    moreover have "cl ! s \<le> 15" using hf_table_length_le [OF assms(1)] calculation by simp
    ultimately show ?thesis
      using hf_ReadSym_covers [OF assms cov False] that
      by (cases "cl ! s \<le> length (br_bits r)") (fastforce simp: not_le)+
  next
    case unc: False
    then show ?thesis
      using hf_ReadSym_uncovered [OF assms _ False] that by (fastforce simp: not_less)
  qed
qed

subsection \<open>Codewords and bits\<close>

lemma length_nat_bits [simp]: "length (nat_bits l n) = l"
  by (simp add: nat_bits_def)

lemma bits_nat_nat_bits: "n < 2 ^ l \<Longrightarrow> bits_nat (nat_bits l n) = n"
proof (rule bit_eqI)
  fix i assume "n < 2 ^ l"
  then have "n = take_bit l n" by (simp add: take_bit_nat_eq_self)
  then have "bit n i \<longleftrightarrow> i < l \<and> bit n i" by (metis bit_take_bit_iff)
  then show "bit (bits_nat (nat_bits l n)) i \<longleftrightarrow> bit n i"
    by (auto simp: bit_bits_nat nat_bits_def)
qed

lemma length_codeword [simp]: "length (codeword cl s) = cl ! s"
  by (simp add: codeword_def)

lemma code_value_bound:
  assumes "lengths_ok cl" and "s < length cl" and "cl ! s \<noteq> 0"
  shows "code_value cl s + 2 ^ (15 - cl ! s) \<le> code_base cl (cl ! s)" and "code_value cl s < 2 ^ 15"
proof -
  let ?l = "cl ! s"
  have l: "?l \<le> 15" using assms by (simp add: lengths_ok_def)
  have "code_base cl ?l = code_base cl (?l - 1) + code_count cl ?l * 2 ^ (15 - ?l)"
    using code_base_Suc [of cl "?l - 1"] assms(3) by simp
  moreover have "Suc (code_rank cl s) * 2 ^ (15 - ?l) \<le> code_count cl ?l * 2 ^ (15 - ?l)"
    using code_rank_less [OF assms(2,3)] by (intro mult_le_mono1) simp
  ultimately show le: "code_value cl s + 2 ^ (15 - ?l) \<le> code_base cl ?l"
    by (simp add: code_value_def)
  have "0 < (2::nat) ^ (15 - ?l)" by simp
  moreover have "code_base cl 15 \<le> 2 ^ 15" using assms(1) by (simp add: lengths_ok_def)
  ultimately show "code_value cl s < 2 ^ 15"
    using le code_base_mono [OF l, of cl] by linarith
qed

lemma bits_nat_codeword:
  assumes "lengths_ok cl" and "s < length cl" and "cl ! s \<noteq> 0"
  shows "bits_nat (codeword cl s) * 2 ^ (15 - cl ! s) = code_value cl s"
proof -
  let ?l = "cl ! s" and ?d = "(2::nat) ^ (15 - cl ! s)"
  have l: "?l \<le> 15" using assms by (simp add: lengths_ok_def)
  have "(2::nat) ^ 15 = 2 ^ ?l * ?d" using l by (simp flip: power_add)
  with code_value_bound(2) [OF assms] have "code_value cl s div ?d < 2 ^ ?l"
    by (simp add: less_mult_imp_div_less)
  then show ?thesis
    using code_value_dvd [OF l] by (simp add: codeword_def bits_nat_nat_bits)
qed

lemma peek15_codeword:
  assumes ok: "lengths_ok cl" and s: "s < length cl" "cl ! s \<noteq> 0"
    and bits: "br_bits r = codeword cl s @ rest"
  shows "code_covers cl s (peek15 r)"
proof -
  let ?l = "cl ! s"
  have l: "?l \<le> 15" using ok s by (simp add: lengths_ok_def)
  have "take ?l (br_rest r) = codeword cl s"
  proof -
    have "take ?l (br_bits r) = codeword cl s" using bits by simp
    moreover have "0 < ?l" "?l \<le> length (br_bits r)" using bits s by simp_all
    then have "take ?l (br_bits r) = take ?l (br_rest r)" by (rule br_bits_avail(3))
    ultimately show ?thesis by simp
  qed
  then obtain tl where tl: "br_rest r = codeword cl s @ tl" by (metis append_take_drop_id)
  define zs where "zs = take (15 - ?l) (tl @ replicate 15 False)"
  have "length zs = 15 - ?l" by (simp add: zs_def)
  moreover have "take 15 (br_rest r @ replicate 15 False) = codeword cl s @ zs"
    using l by (simp add: tl zs_def)
  ultimately have "peek15 r = code_value cl s + bits_nat zs" "bits_nat zs < 2 ^ (15 - ?l)"
    using bits_nat_codeword [OF ok s] bits_nat_less [of zs] by (simp_all add: peek15_def bits_nat_append)
  then show ?thesis using s by (simp add: code_covers_def)
qed

text \<open>Evaluating the code on a concrete list of lengths.\<close>

lemma code_base_numeral:
  "code_base cl (numeral k) = code_base cl (pred_numeral k) + code_count cl (numeral k) * 2 ^ (15 - numeral k)"
  by (simp add: numeral_eq_Suc code_base_Suc)

lemma code_base_one: "code_base cl (Suc 0) = code_count cl 1 * 16384"
  by (simp add: code_base_Suc)

lemmas code_evals = lengths_ok_def code_base_numeral code_base_one codeword_def code_value_def
  nat_bits_def upt_rec bit_0

text \<open>Reading the bits a symbol's codeword spells gives the symbol back.\<close>

lemma hf_ReadSym_codeword:
  assumes tab: "hf_table h cl" and fits: "block_fits r" and s: "s < length cl" "cl ! s \<noteq> 0"
    and bits: "br_bits r = codeword cl s @ rest"
  shows "\<exists>r'. hf_ReadSym h r = (Inr s, r') \<and> br_after r (cl ! s) r' \<and> br_bits r' = rest"
proof -
  have ok: "lengths_ok cl" using tab by (simp add: hf_table_def)
  have "br_bits r \<noteq> []" using bits s length_codeword [of cl s] by (metis append_is_Nil_conv list.size(3))
  then obtain r' where "hf_ReadSym h r = (Inr s, r')" and after: "br_after r (cl ! s) r'"
    using hf_ReadSym_covers(1) [OF tab fits peek15_codeword [OF ok s bits]] bits by auto
  moreover have "br_bits r' = rest" using br_after_abs(3) [OF after] bits by simp
  ultimately show ?thesis by blast
qed

text \<open>Two symbols' codewords never share a prefix, and the values they cover are disjoint.\<close>

lemma code_covers_unique:
  assumes "hf_table h cl" and "code_covers cl s v" and "code_covers cl t v"
  shows "s = t"
proof -
  note s = hf_search_covers [OF assms(1,2)] hf_index_covers [OF assms(1,2)]
  note t = hf_search_covers [OF assms(1,3)] hf_index_covers [OF assms(1,3)]
  have "cl ! s = cl ! t" by (rule trans [OF s(1) [symmetric] t(1)])
  then have "code_place cl s = code_place cl t" using s(2) t(2) by (simp only:)
  then have "hf_symbol h ! code_place cl s = hf_symbol h ! code_place cl t" by (rule arg_cong)
  then show ?thesis by (simp only: s(4) t(4))
qed

subsection \<open>Reading a list of code lengths\<close>

lemma rclt_fill_length [simp]: "length (rclt_fill c i v cl) = length cl"
  by (induction c i v cl rule: rclt_fill.induct) simp_all

lemma rclt_fill_nth:
  "j < length cl \<Longrightarrow> rclt_fill c i v cl ! j = (if i \<le> j \<and> j < i + c then v else cl ! j)"
  by (induction c i v cl rule: rclt_fill.induct) (auto simp: nth_list_update)

text \<open>Both loops consume block bits only, and the lengths they leave are at most fifteen.\<close>

lemma block_fits_reach: "block_fits r \<Longrightarrow> br_reach r r' \<Longrightarrow> block_fits r'"
  by (auto simp: br_reach_def intro: block_fits_after)

lemma block_fits_inv: "block_fits r \<Longrightarrow> br_inv r"
  by (simp add: block_fits_def)

lemma hf_ReadSym_reach:
  assumes "hf_ReadSym h r = (res, r')" and "hf_table h cl" and "block_fits r"
  shows "br_reach r r'" and "res = Inr v \<Longrightarrow> length (br_bits r') < length (br_bits r) \<and> (v < length cl \<or> v = 0)"
    and "res = Inl e \<Longrightarrow> e = EOF \<or> e = ErrHuffDecodeFailed"
proof -
  have "\<exists>k. br_after r k r' \<and> k \<le> length (br_bits r) \<and> (\<forall>v. res = Inr v \<longrightarrow> 0 < k \<and> (v < length cl \<or> v = 0))
      \<and> (\<forall>e. res = Inl e \<longrightarrow> e = EOF \<or> e = ErrHuffDecodeFailed)"
  proof (rule hf_ReadSym_safe [OF assms(2,3)])
    fix k res1 r1
    assume a: "hf_ReadSym h r = (res1, r1)" "br_after r k r1" "k \<le> length (br_bits r)"
      "\<And>v. res1 = Inr v \<Longrightarrow> 0 < k \<and> (v < length cl \<or> v = 0)"
      "\<And>e. res1 = Inl e \<Longrightarrow> e = EOF \<or> e = ErrHuffDecodeFailed"
    show ?thesis using a assms(1) by (intro exI [of _ k]) auto
  qed
  then obtain k where k: "br_after r k r'" "k \<le> length (br_bits r)"
    "\<forall>v. res = Inr v \<longrightarrow> 0 < k \<and> (v < length cl \<or> v = 0)"
    "\<forall>e. res = Inl e \<longrightarrow> e = EOF \<or> e = ErrHuffDecodeFailed" by blast
  show "br_reach r r'" using k unfolding br_reach_def by blast
  show "length (br_bits r') < length (br_bits r) \<and> (v < length cl \<or> v = 0)" if "res = Inr v"
    using k(2) k(3) that br_after_abs(3) [OF k(1)] by auto
  show "e = EOF \<or> e = ErrHuffDecodeFailed" if "res = Inl e" using k(4) that by blast
qed

lemma set_update_small: "set bl \<subseteq> {..15::nat} \<Longrightarrow> n \<le> 15 \<Longrightarrow> set (bl[i := n]) \<subseteq> {..15}"
  using set_update_subset_insert [of bl i n] by auto

lemma rclt_bitlength_reach:
  assumes "rclt_bitlength br i bl = (res, br')" and "br_inv br"
  shows "br_reach br br' \<and> (\<forall>e. res = Inl e \<longrightarrow> e = EOF \<or> e = ErrDecoderOutOfData)
    \<and> (\<forall>bl'. res = Inr bl' \<longrightarrow> length bl' = length bl \<and> (set bl \<subseteq> {..15} \<longrightarrow> set bl' \<subseteq> {..15}))"
  using assms
proof (induction br i bl rule: rclt_bitlength.induct)
  case (1 br i bl)
  show ?case
  proof (cases "20 \<le> i")
    case True
    then show ?thesis using "1.prems" by (auto simp: rclt_bitlength.simps br_reach_refl)
  next
    case i: False
    obtain x br1 where r1: "br_ReadBits br 4 = (x, br1)" by fastforce
    note R1 = br_ReadBits_reach [OF r1 "1.prems"(2), simplified]
    show ?thesis
    proof (cases x)
      case (Inl e)
      then show ?thesis
        using "1.prems" i r1 R1 by (subst (asm) rclt_bitlength.simps) auto
    next
      case x: (Inr n)
      have n: "n \<le> 15" using R1(3) [OF x] by simp
      show ?thesis
      proof (cases "n = 15")
        case False
        have "rclt_bitlength br1 (i + 1) (bl[i := n]) = (res, br')"
          using "1.prems"(1) i r1 x False by (subst (asm) rclt_bitlength.simps) simp
        note IH = "1.IH"(3) [OF i r1 [symmetric] x False this br_reach_inv [OF R1(1)]]
        show ?thesis using IH br_reach_trans [OF R1(1)] set_update_small [OF _ n, of bl i] by simp
      next
        case n15: True
        obtain y br2 where r2: "br_ReadBits br1 4 = (y, br2)" by fastforce
        note R2 = br_ReadBits_reach [OF r2 br_reach_inv [OF R1(1)], simplified]
        note R12 = br_reach_trans [OF R1(1) R2(1)]
        show ?thesis
        proof (cases y)
          case (Inl e)
          then show ?thesis
            using "1.prems" i r1 x n15 r2 R2 R12 by (subst (asm) rclt_bitlength.simps) auto
        next
          case y: (Inr c)
          show ?thesis
          proof (cases "0 < c")
            case True
            have "rclt_bitlength br2 (i + c + 2) bl = (res, br')"
              using "1.prems"(1) i r1 x n15 r2 y True by (subst (asm) rclt_bitlength.simps) simp
            note IH = "1.IH"(1) [OF i r1 [symmetric] x n15 r2 [symmetric] y True this br_reach_inv [OF R12]]
            show ?thesis using IH br_reach_trans [OF R12] by auto
          next
            case False
            have "rclt_bitlength br2 (i + 1) (bl[i := n]) = (res, br')"
              using "1.prems"(1) i r1 x n15 r2 y False by (subst (asm) rclt_bitlength.simps) simp
            note IH = "1.IH"(2) [OF i r1 [symmetric] x n15 r2 [symmetric] y False this br_reach_inv [OF R12]]
            show ?thesis using IH br_reach_trans [OF R12] set_update_small [OF _ n, of bl i] by simp
          qed
        qed
      qed
    qed
  qed
qed

lemma rclt_fill_small:
  assumes "set (take i cl) \<subseteq> {..15::nat}" and "v \<le> 15" and "i \<le> length cl"
  shows "set (take (i + min c (length cl - i)) (rclt_fill c i v cl)) \<subseteq> {..15}"
proof
  fix x assume "x \<in> set (take (i + min c (length cl - i)) (rclt_fill c i v cl))"
  then obtain j where j: "j < i + min c (length cl - i)" "j < length cl" "x = rclt_fill c i v cl ! j"
    by (auto simp: in_set_conv_nth)
  show "x \<in> {..15}"
  proof (cases "i \<le> j")
    case True
    then show ?thesis using j assms(2) by (auto simp: rclt_fill_nth min_def split: if_splits)
  next
    case False
    then have "cl ! j \<in> set (take i cl)" using assms(3) nth_mem [of j "take i cl"] by simp
    then show ?thesis using j False assms(1) by (auto simp: rclt_fill_nth)
  qed
qed

lemma take_Suc_update_small:
  "set (take i cl) \<subseteq> {..15::nat} \<Longrightarrow> i < length cl \<Longrightarrow> l \<le> 15 \<Longrightarrow> set (take (i + 1) (cl[i := l])) \<subseteq> {..15}"
  by (simp add: take_Suc_conv_app_nth)

lemma rclt_lengths_reach:
  assumes "rclt_lengths sc br i cl = (e, cl', br')" and "hf_table sc bl" and "block_fits br"
    and "set (take i cl) \<subseteq> {..15}" and "i \<le> length cl"
  shows "br_reach br br' \<and> length cl' = length cl \<and> (e = None \<longrightarrow> set cl' \<subseteq> {..15})
     \<and> (\<forall>x. e = Some x \<longrightarrow> x \<in> {EOF, ErrHuffDecodeFailed, ErrDecoderOutOfData, ErrInvalidLengthTable})"
  using assms
proof (induction sc br i cl rule: rclt_lengths.induct)
  case (1 sc br i cl)
  show ?case
  proof (cases "length cl \<le> i")
    case True
    then show ?thesis
      using "1.prems" by (auto simp: rclt_lengths.simps br_reach_refl block_fits_inv)
  next
    case i: False
    obtain x br1 where r1: "hf_ReadSym sc br = (x, br1)" by fastforce
    note R1 = hf_ReadSym_reach [OF r1 "1.prems"(2,3)]
    note fits1 = block_fits_reach [OF "1.prems"(3) R1(1)]
    show ?thesis
    proof (cases x)
      case (Inl err)
      then show ?thesis using "1.prems"(1) i r1 R1 by (subst (asm) rclt_lengths.simps) auto
    next
      case x: (Inr l)
      show ?thesis
      proof (cases "l < 16")
        case True
        have "rclt_lengths sc br1 (i + 1) (cl[i := l]) = (e, cl', br')"
          using "1.prems"(1) i r1 x True by (subst (asm) rclt_lengths.simps) simp
        note IH = "1.IH"(1) [OF i r1 [symmetric] x True this "1.prems"(2) fits1]
        show ?thesis
          using IH take_Suc_update_small [of i cl l] "1.prems"(4) i True br_reach_trans [OF R1(1)] by auto
      next
        case l: False
        let ?k = "if l = 16 \<or> l = 18 then 3 else 7"
        obtain y br2 where r2: "br_ReadBits br1 ?k = (y, br2)" by fastforce
        note R2 = br_ReadBits_reach [OF r2 block_fits_inv [OF fits1]]
        have R12: "br_reach br br2" using br_reach_trans [OF R1(1) R2(1)] by simp
        show ?thesis
        proof (cases y)
          case (Inl err)
          then show ?thesis
            using "1.prems"(1) i r1 x l r2 R2 R12 by (subst (asm) rclt_lengths.simps) (auto split: if_splits)
        next
          case y: (Inr c)
          let ?n = "c + (if l = 16 \<or> l = 18 then 3 else 11)" and ?v = "if l < 18 then cl ! (i - 1) else 0"
          show ?thesis
          proof (cases "l < 18 \<and> i = 0")
            case True
            then show ?thesis
              using "1.prems"(1) i r1 x l r2 y R12 by (subst (asm) rclt_lengths.simps) auto
          next
            case False
            have step: "rclt_lengths sc br2 (i + min ?n (length cl - i)) (rclt_fill ?n i ?v cl) = (e, cl', br')"
              using "1.prems"(1) i r1 x l r2 y False by (subst (asm) rclt_lengths.simps) (simp add: Let_def)
            have "?v \<le> 15"
            proof (cases "l < 18")
              case True
              then have "cl ! (i - 1) \<in> set (take i cl)"
                using False i nth_mem [of "i - 1" "take i cl"] by simp
              then show ?thesis using "1.prems"(4) True by auto
            qed simp
            note small = rclt_fill_small [OF "1.prems"(4) this "1.prems"(5), of ?n]
            show ?thesis
              using "1.IH"(2) [OF i r1 [symmetric] x l r2 [symmetric] y refl False refl step
                  "1.prems"(2) block_fits_reach [OF "1.prems"(3) R12] small]
                br_reach_trans [OF R12] i by auto
          qed
        qed
      qed
    qed
  qed
qed

lemma readCodeLengthTable_reach:
  assumes "readCodeLengthTable br cl sc = (e, cl', sc', br')" and "block_fits br"
  shows "br_reach br br'" and "length cl' = length cl" and "e = None \<Longrightarrow> set cl' \<subseteq> {..15}"
    and "e = Some x \<Longrightarrow> x \<in> {EOF, ErrHuffDecodeFailed, ErrDecoderOutOfData, ErrInvalidLengthTable}"
proof -
  obtain y br1 where b: "rclt_bitlength br 0 (replicate 20 0) = (y, br1)" by fastforce
  note B = rclt_bitlength_reach [OF b block_fits_inv [OF assms(2)]]
  note fits1 = block_fits_reach [OF assms(2)]
  have "br_reach br br' \<and> length cl' = length cl \<and> (e = None \<longrightarrow> set cl' \<subseteq> {..15})
     \<and> (\<forall>x. e = Some x \<longrightarrow> x \<in> {EOF, ErrHuffDecodeFailed, ErrDecoderOutOfData, ErrInvalidLengthTable})"
  proof (cases y)
    case (Inl err)
    then show ?thesis using assms(1) b B by (auto simp: readCodeLengthTable_def)
  next
    case y: (Inr bl)
    then have len: "length bl < 65536" using B by simp
    show ?thesis
    proof (cases "lengths_ok bl")
      case False
      then show ?thesis
        using assms(1) b B y hf_Init_rejects [OF len] by (auto simp: readCodeLengthTable_def)
    next
      case True
      then obtain h where h: "hf_Init sc bl = Inr h" "hf_table h bl" using hf_Init_table [OF len] by blast
      then have r: "rclt_lengths h br1 0 cl = (e, cl', br')"
        using assms(1) b y by (auto simp: readCodeLengthTable_def split: prod.splits)
      have "br_reach br br1" using B by simp
      with rclt_lengths_reach [OF r h(2) fits1] br_reach_trans show ?thesis by auto
    qed
  qed
  then show "br_reach br br'" and "length cl' = length cl" and "e = None \<Longrightarrow> set cl' \<subseteq> {..15}"
    and "e = Some x \<Longrightarrow> x \<in> {EOF, ErrHuffDecodeFailed, ErrDecoderOutOfData, ErrInvalidLengthTable}"
    by auto
qed

subsection \<open>Properties\<close>

definition demo_lengths :: "nat list" where
  "demo_lengths = [2, 0, 3, 1, 3]"

lemma demo_lengths_ok: "lengths_ok demo_lengths" "length demo_lengths < 65536"
  by (simp_all add: code_evals demo_lengths_def)

lemma demo_codeword: "codeword demo_lengths 4 = [True, True, True]"
  by (simp add: code_evals demo_lengths_def)

lemma block_fits_new: "l \<le> 8 * int (length buf) \<Longrightarrow> block_fits (newBitReader buf l)"
  by (simp add: block_fits_def) (simp add: newBitReader_def)

lemma br_bits_new: "br_bits (newBitReader buf l) = take (nat l) (bits_of buf)"
  by (simp add: br_bits_def br_rest_def newBitReader_def)

text \<open>C25. Round trip of the Huffman decoder: a table built from any admissible list of code
  lengths decodes the codeword of every symbol the list assigns, whatever follows it in the
  block, to that symbol, and consumes exactly the codeword.\<close>

theorem huffman_roundtrip:
  assumes "hf_Init h0 cl = Inr h" and "length cl < 65536" and "block_fits r"
    and "s < length cl" and "cl ! s \<noteq> 0" and "br_bits r = codeword cl s @ rest"
  shows "\<exists>r'. hf_ReadSym h r = (Inr s, r') \<and> br_bits r' = rest \<and> block_fits r'"
proof -
  have "lengths_ok cl" using assms(1) hf_Init_rejects [OF assms(2)] by fastforce
  then have "hf_table h cl" using hf_Init_table [OF assms(2), of h0] assms(1) by auto
  from hf_ReadSym_codeword [OF this assms(3-6)] show ?thesis
    using block_fits_after [OF assms(3)] by blast
qed

theorem huffman_roundtrip_witness:
  "\<exists>h r'. hf_Init hf_empty demo_lengths = Inr h
     \<and> hf_ReadSym h (newBitReader [0xF4] 8) = (Inr 4, r') \<and> br_bits r' = [True, False, True, False, False]"
proof -
  obtain h where h: "hf_Init hf_empty demo_lengths = Inr h"
    using hf_Init_table [OF demo_lengths_ok(2,1)] by blast
  have bits: "br_bits (newBitReader [0xF4] 8) = codeword demo_lengths 4 @ [True, False, True, False, False]"
    unfolding demo_codeword br_bits_new by (simp add: byte_bits_def)
  have "\<exists>r'. hf_ReadSym h (newBitReader [0xF4] 8) = (Inr 4, r')
      \<and> br_bits r' = [True, False, True, False, False] \<and> block_fits r'"
    by (rule huffman_roundtrip [OF h demo_lengths_ok(2) block_fits_new _ _ bits])
      (simp_all add: demo_lengths_def)
  with h show ?thesis by blast
qed

text \<open>C12. The table builder accepts exactly the length lists that describe a prefix code: every
  length at most fifteen and Kraft's inequality; it rejects all others with
  \<^verbatim>\<open>ErrInvalidLengthTable\<close>.\<close>

theorem huffman_init_exact:
  assumes "length cl < 65536"
  shows "if lengths_ok cl then \<exists>h'. hf_Init h cl = Inr h' else hf_Init h cl = Inl ErrInvalidLengthTable"
  using hf_Init_table [OF assms, of h] hf_Init_rejects [OF assms, of h] by auto

theorem huffman_init_exact_witness:
  "\<not> lengths_ok [1, 1, 1] \<and> hf_Init hf_empty [1, 1, 1] = Inl ErrInvalidLengthTable"
proof -
  have "\<not> lengths_ok [1, 1, 1]" by (simp add: code_evals)
  then show ?thesis using huffman_init_exact [of "[1, 1, 1]" hf_empty] by simp
qed

text \<open>The optimised lookup is the plain one: for every fifteen-bit value below the quick
  limit, the quick table's entry for its prefix is the length the bit-by-bit search ends
  with and the symbol it finds.\<close>

theorem huffman_quick_is_slow:
  assumes "hf_Init h0 cl = Inr h" and "length cl < 65536" and "v < hf_limit h ! hf_quickbits h"
  shows "hf_quicklen h ! (v div 2 ^ (15 - hf_quickbits h)) = hf_search (hf_limit h) v (hf_min h)
    \<and> hf_quicksym h ! (v div 2 ^ (15 - hf_quickbits h))
        = hf_symbol h ! hf_index (hf_limit h) (hf_pos h) v (hf_search (hf_limit h) v (hf_min h))"
proof -
  have ok: "lengths_ok cl" using assms(1) hf_Init_rejects [OF assms(2)] by fastforce
  then have tab: "hf_table h cl" using hf_Init_table [OF assms(2), of h0] assms(1) by auto
  have q15: "hf_quickbits h \<le> 15" using tab by (auto simp: hf_table_def)
  then have "v < code_base cl 15"
    using assms(3) hf_limit_nth [OF tab q15] code_base_mono [OF q15, of cl] by simp
  with ok obtain s where cov: "code_covers cl s v" using code_covers_ex by blast
  show ?thesis
    using hf_quick_covers [OF tab cov assms(3)] hf_min_spec(2) [OF tab cov]
      hf_index_covers [OF tab cov] by simp
qed

theorem huffman_quick_is_slow_witness:
  "\<exists>h. hf_Init hf_empty demo_lengths = Inr h \<and> hf_quicklen h ! 64 = hf_search (hf_limit h) 16384 (hf_min h)"
proof -
  obtain h where h: "hf_Init hf_empty demo_lengths = Inr h" and tab: "hf_table h demo_lengths"
    using hf_Init_table [OF demo_lengths_ok(2,1)] by blast
  have q: "hf_quickbits h = 7" using h by (auto simp: hf_Init_def Let_def demo_lengths_def split: sum.splits if_splits)
  have "16384 < hf_limit h ! hf_quickbits h"
    unfolding q using hf_limit_nth [OF tab, of 7] by (simp add: code_evals demo_lengths_def)
  then show ?thesis
    using huffman_quick_is_slow [OF h demo_lengths_ok(2), of 16384] h by (simp add: q)
qed

text \<open>What reading a table of code lengths keeps, on every path: it consumes bits of the
  block only, keeps the table's size, leaves lengths of at most fifteen bits when it
  succeeds, and fails with one of four errors.\<close>

theorem readCodeLengthTable_safe:
  assumes "block_fits br"
  shows "case readCodeLengthTable br cl sc of (e, cl', sc', br') \<Rightarrow>
      (\<exists>k \<le> length (br_bits br). br_bits br' = drop k (br_bits br)) \<and> block_fits br'
      \<and> length cl' = length cl
      \<and> (case e of None \<Rightarrow> set cl' \<subseteq> {..15}
         | Some x \<Rightarrow> x \<in> {EOF, ErrHuffDecodeFailed, ErrDecoderOutOfData, ErrInvalidLengthTable})"
proof (cases "readCodeLengthTable br cl sc" rule: prod_cases4)
  case (fields e cl' sc' br')
  note R = readCodeLengthTable_reach [OF fields assms]
  show ?thesis
    using fields R br_reach_bits [OF R(1)] block_fits_reach [OF assms R(1)] by (auto split: option.split)
qed

theorem readCodeLengthTable_safe_witness:
  "case readCodeLengthTable (newBitReader [0x12, 0x34] 16) [0, 0] hf_empty of (e, cl', sc', br') \<Rightarrow> length cl' = 2"
  using readCodeLengthTable_safe [OF block_fits_new [of 16 "[0x12, 0x34]"], of "[0, 0]" hf_empty]
  by (auto split: prod.splits)

end
