(* ===== verification/Items.thy ===== *)
theory Items
  imports Huffman
begin

section \<open>From block bits to decoded items (decoder50\_items.go, decoder50.go)\<close>

text \<open>
  The half of the RAR5 decoder that needs a block's bits and tables only: the four tables,
  the fields of a match, of a repeated distance and of a filter record, and the loop with
  which a worker turns a whole block into an array of items. The other half, which applies
  what was decoded to the window, is in theory Decoder.

  A step is a function of the bit reader; \<open>rd_bind\<close> is the early return of the Go code
  on an error. \<open>rd_post\<close> collects what every step keeps: the bits it consumes are bits of
  the block, and its error is one of three.
\<close>

subsection \<open>Steps\<close>

type_synonym 'a rd = "bitReader \<Rightarrow> (err + 'a) \<times> bitReader"

definition rd_return :: "'a \<Rightarrow> 'a rd" where
  "rd_return v = (\<lambda>r. (Inr v, r))"

definition rd_bind :: "'a rd \<Rightarrow> ('a \<Rightarrow> 'b rd) \<Rightarrow> 'b rd" where
  "rd_bind m f = (\<lambda>r. case m r of (Inl e, r') \<Rightarrow> (Inl e, r') | (Inr v, r') \<Rightarrow> f v r')"

definition rd_bits :: "nat \<Rightarrow> nat rd" where
  "rd_bits k = (\<lambda>r. br_ReadBits r k)"

definition rd_sym :: "huffmanDecoder \<Rightarrow> nat rd" where
  "rd_sym h = (\<lambda>r. hf_ReadSym h r)"

definition rd_byte :: "byte rd" where
  "rd_byte = (\<lambda>r. br_ReadByte r)"

definition inner_errs :: "err set" where
  "inner_errs = {EOF, ErrDecoderOutOfData, ErrHuffDecodeFailed}"

definition rd_post :: "('a \<Rightarrow> bool) \<Rightarrow> 'a rd \<Rightarrow> bool" where
  "rd_post P m \<longleftrightarrow> (\<forall>r. block_fits r \<longrightarrow>
     (case m r of (res, r') \<Rightarrow> br_reach r r' \<and> (case res of Inl e \<Rightarrow> e \<in> inner_errs | Inr v \<Rightarrow> P v)))"

lemma rd_post_return: "P v \<Longrightarrow> rd_post P (rd_return v)"
  by (simp add: rd_post_def rd_return_def br_reach_refl block_fits_inv)

lemma rd_post_bind:
  assumes "rd_post P m" and "\<And>v. P v \<Longrightarrow> rd_post Q (f v)"
  shows "rd_post Q (rd_bind m f)"
  unfolding rd_post_def
proof (intro allI impI)
  fix r assume r: "block_fits r"
  obtain res r1 where m: "m r = (res, r1)" by fastforce
  have R: "br_reach r r1" "case res of Inl e \<Rightarrow> e \<in> inner_errs | Inr v \<Rightarrow> P v"
    using assms(1) r m by (auto simp: rd_post_def)
  show "case rd_bind m f r of (res, r') \<Rightarrow> br_reach r r'
      \<and> (case res of Inl e \<Rightarrow> e \<in> inner_errs | Inr v \<Rightarrow> Q v)"
  proof (cases res)
    case (Inl e)
    then show ?thesis using m R by (simp add: rd_bind_def)
  next
    case (Inr v)
    obtain res2 r2 where f: "f v r1 = (res2, r2)" by fastforce
    have "br_reach r1 r2 \<and> (case res2 of Inl e \<Rightarrow> e \<in> inner_errs | Inr v \<Rightarrow> Q v)"
      using assms(2) [of v] Inr R block_fits_reach [OF r R(1)] f by (auto simp: rd_post_def)
    then show ?thesis using m f Inr br_reach_trans [OF R(1)] by (auto simp: rd_bind_def)
  qed
qed

lemma rd_post_mono: "rd_post P m \<Longrightarrow> (\<And>v. P v \<Longrightarrow> Q v) \<Longrightarrow> rd_post Q m"
  unfolding rd_post_def by (fastforce split: sum.splits)

lemma rd_post_bits: "0 < k \<Longrightarrow> k \<le> 57 \<Longrightarrow> rd_post (\<lambda>v. v < 2 ^ k) (rd_bits k)"
  unfolding rd_post_def rd_bits_def
proof (intro allI impI)
  fix r assume "0 < k" "k \<le> 57" and r: "block_fits r"
  obtain res r' where rd: "br_ReadBits r k = (res, r')" by fastforce
  note R = br_ReadBits_reach [OF rd block_fits_inv [OF r] \<open>0 < k\<close> \<open>k \<le> 57\<close>]
  show "case br_ReadBits r k of (res, r') \<Rightarrow> br_reach r r'
      \<and> (case res of Inl e \<Rightarrow> e \<in> inner_errs | Inr v \<Rightarrow> v < 2 ^ k)"
    using rd R by (auto simp: inner_errs_def split: sum.split)
qed

lemma rd_post_sym: "hf_table h cl \<Longrightarrow> 0 < length cl \<Longrightarrow> rd_post (\<lambda>v. v < length cl) (rd_sym h)"
  unfolding rd_post_def rd_sym_def
proof (intro allI impI)
  fix r assume "hf_table h cl" "0 < length cl" and r: "block_fits r"
  obtain res r' where rd: "hf_ReadSym h r = (res, r')" by fastforce
  note R = hf_ReadSym_reach [OF rd \<open>hf_table h cl\<close> r]
  show "case hf_ReadSym h r of (res, r') \<Rightarrow> br_reach r r'
      \<and> (case res of Inl e \<Rightarrow> e \<in> inner_errs | Inr v \<Rightarrow> v < length cl)"
    using rd R \<open>0 < length cl\<close> by (auto simp: inner_errs_def split: sum.split)
qed

lemma rd_post_byte: "rd_post (\<lambda>_. True) rd_byte"
  unfolding rd_post_def rd_byte_def
proof (intro allI impI)
  fix r assume r: "block_fits r"
  obtain res r' where rd: "br_ReadBits r 8 = (res, r')" by fastforce
  note R = br_ReadBits_reach [OF rd block_fits_inv [OF r]]
  show "case br_ReadByte r of (res, r') \<Rightarrow> br_reach r r' \<and> (case res of Inl e \<Rightarrow> e \<in> inner_errs | Inr v \<Rightarrow> True)"
    using rd R by (auto simp: br_ReadByte_def inner_errs_def split: sum.split)
qed

subsection \<open>The four tables\<close>

definition mainSize5 :: nat where "mainSize5 = 306"
definition offsetSize5 :: nat where "offsetSize5 = 64"
definition lowoffsetSize5 :: nat where "lowoffsetSize5 = 16"
definition lengthSize5 :: nat where "lengthSize5 = 44"
definition tableSize5 :: nat where "tableSize5 = mainSize5 + offsetSize5 + lowoffsetSize5 + lengthSize5"

lemmas table_sizes = mainSize5_def offsetSize5_def lowoffsetSize5_def lengthSize5_def tableSize5_def

record tableSet =
  ts_main :: huffmanDecoder
  ts_offset :: huffmanDecoder
  ts_lowoffset :: huffmanDecoder
  ts_length :: huffmanDecoder

text \<open>The tables before the one that fails are the new ones; the rest stays.\<close>

definition ts_load :: "tableSet \<Rightarrow> nat list \<Rightarrow> err option \<times> tableSet" where
  "ts_load ts cl =
     (case hf_Init (ts_main ts) (take mainSize5 cl) of
        Inl e \<Rightarrow> (Some e, ts)
      | Inr h \<Rightarrow>
          let ts = ts\<lparr>ts_main := h\<rparr>; cl = drop mainSize5 cl
          in case hf_Init (ts_offset ts) (take offsetSize5 cl) of
               Inl e \<Rightarrow> (Some e, ts)
             | Inr h \<Rightarrow>
                 let ts = ts\<lparr>ts_offset := h\<rparr>; cl = drop offsetSize5 cl
                 in case hf_Init (ts_lowoffset ts) (take lowoffsetSize5 cl) of
                      Inl e \<Rightarrow> (Some e, ts)
                    | Inr h \<Rightarrow>
                        let ts = ts\<lparr>ts_lowoffset := h\<rparr>; cl = drop lowoffsetSize5 cl
                        in case hf_Init (ts_length ts) cl of
                             Inl e \<Rightarrow> (Some e, ts)
                           | Inr h \<Rightarrow> (None, ts\<lparr>ts_length := h\<rparr>))"

definition ts_prewarm :: "tableSet \<Rightarrow> tableSet" where
  "ts_prewarm ts = snd (ts_load ts (replicate tableSize5 0))"

definition ts_empty :: tableSet where
  "ts_empty = \<lparr>ts_main = hf_empty, ts_offset = hf_empty, ts_lowoffset = hf_empty, ts_length = hf_empty\<rparr>"

text \<open>A copy with its own symbol storage is, for values, the source's tables.\<close>

definition ts_copyFrom :: "tableSet \<Rightarrow> tableSet \<Rightarrow> tableSet" where
  "ts_copyFrom ts src =
     ts\<lparr>ts_main := ts_main src, ts_offset := ts_offset src, ts_lowoffset := ts_lowoffset src,
        ts_length := ts_length src\<rparr>"

subsection \<open>The fields of a symbol\<close>

definition slotToLength :: "nat \<Rightarrow> nat rd" where
  "slotToLength n =
     (if 8 \<le> n
      then let bits = (n div 4 - 1) mod 256; m = push_bit bits (4 OR (n AND 3))
           in if 0 < bits then rd_bind (rd_bits bits) (\<lambda>b. rd_return ((m OR b) + 2))
              else rd_return (m + 2)
      else rd_return (n + 2))"

text \<open>The last lines of \<^verbatim>\<open>decodeOffsetBits\<close>.\<close>

definition adjust_length :: "nat \<Rightarrow> nat \<Rightarrow> nat" where
  "adjust_length len distance =
     (if 0x100 < distance
      then if 0x2000 < distance then if 0x40000 < distance then len + 3 else len + 2 else len + 1
      else len)"

text \<open>The two branches behind \<^verbatim>\<open>bitCount >= 4\<close>: the low four bits are a symbol of their own.\<close>

definition far_distance :: "tableSet \<Rightarrow> nat \<Rightarrow> nat \<Rightarrow> nat rd" where
  "far_distance ts bitCount distance =
     (if 4 \<le> bitCount
      then rd_bind (if 0 < bitCount - 4
                    then rd_bind (rd_bits (bitCount - 4)) (\<lambda>n. rd_return (distance + push_bit 4 n))
                    else rd_return distance) (\<lambda>distance.
           rd_bind (rd_sym (ts_lowoffset ts)) (\<lambda>n. rd_return (distance + n)))
      else rd_bind (rd_bits bitCount) (\<lambda>n. rd_return (distance + n)))"

definition decodeOffsetBits :: "tableSet \<Rightarrow> nat \<Rightarrow> (nat \<times> nat) rd" where
  "decodeOffsetBits ts slot =
     rd_bind (slotToLength slot) (\<lambda>len.
     rd_bind (rd_sym (ts_offset ts)) (\<lambda>oslot.
     rd_bind
       (if oslot < 4 then rd_return (1 + oslot)
        else let bitCount = (oslot div 2 - 1) mod 256
             in far_distance ts bitCount (1 + push_bit bitCount (2 OR (oslot AND 1))))
       (\<lambda>distance. rd_return (adjust_length len distance, distance))))"

definition decodeLengthBits :: "tableSet \<Rightarrow> nat rd" where
  "decodeLengthBits ts = rd_bind (rd_sym (ts_length ts)) slotToLength"

text \<open>The loop of \<^verbatim>\<open>readFilter5Data\<close>: \<open>k\<close> bytes to go, the next one is byte \<open>i\<close>.\<close>

fun rf5_loop :: "nat \<Rightarrow> nat \<Rightarrow> nat \<Rightarrow> nat rd" where
  "rf5_loop 0 i dat = rd_return dat"
| "rf5_loop (Suc k) i dat = rd_bind rd_byte (\<lambda>b. rf5_loop k (i + 1) (dat OR push_bit (i * 8) (unat b)))"

definition readFilter5Data :: "nat rd" where
  "readFilter5Data = rd_bind (rd_bits 2) (\<lambda>bytesVal. rf5_loop (bytesVal + 1) 0 0)"

definition readFilterBits :: "(nat \<times> nat \<times> nat \<times> nat) rd" where
  "readFilterBits =
     rd_bind readFilter5Data (\<lambda>offset.
     rd_bind readFilter5Data (\<lambda>len.
     rd_bind (rd_bits 3) (\<lambda>ftype.
     if ftype = 0 then rd_bind (rd_bits 5) (\<lambda>n. rd_return (offset, len, ftype, n + 1))
     else rd_return (offset, len, ftype, 0))))"

subsection \<open>Bounds of the fields\<close>

definition table_for :: "huffmanDecoder \<Rightarrow> nat \<Rightarrow> bool" where
  "table_for h n \<longleftrightarrow> (\<exists>cl. hf_table h cl \<and> length cl = n)"

definition ts_ok :: "tableSet \<Rightarrow> bool" where
  "ts_ok ts \<longleftrightarrow> table_for (ts_main ts) mainSize5 \<and> table_for (ts_offset ts) offsetSize5
     \<and> table_for (ts_lowoffset ts) lowoffsetSize5 \<and> table_for (ts_length ts) lengthSize5"

lemma rd_post_table: "table_for h n \<Longrightarrow> 0 < n \<Longrightarrow> rd_post (\<lambda>v. v < n) (rd_sym h)"
  using rd_post_sym by (auto simp: table_for_def)

lemma table_for_Init: "hf_Init h0 cl = Inr h \<Longrightarrow> length cl < 65536 \<Longrightarrow> table_for h (length cl)"
  using hf_Init_rejects [of cl h0] hf_Init_table [of cl h0] by (fastforce simp: table_for_def)

lemma ts_load_ok:
  assumes "length cl = tableSize5" and "ts_load ts cl = (e, ts')"
  shows "e = None \<Longrightarrow> ts_ok ts'" and "ts_ok ts \<Longrightarrow> ts_ok ts'"
    and "e = Some x \<Longrightarrow> x = ErrInvalidLengthTable"
proof -
  note T = table_for_Init [of "ts_main ts" "take mainSize5 cl"]
    table_for_Init [of "ts_offset ts" "take offsetSize5 (drop mainSize5 cl)"]
    table_for_Init [of "ts_lowoffset ts" "take lowoffsetSize5 (drop offsetSize5 (drop mainSize5 cl))"]
    table_for_Init [of "ts_length ts" "drop lowoffsetSize5 (drop offsetSize5 (drop mainSize5 cl))"]
  show "ts_ok ts'" if "e = None"
    using assms that T by (auto simp: ts_load_def ts_ok_def Let_def table_sizes split: sum.splits)
  show "ts_ok ts'" if "ts_ok ts"
    using assms that T by (auto simp: ts_load_def ts_ok_def Let_def table_sizes split: sum.splits)
  have R: "hf_Init h l = Inl y \<Longrightarrow> length l < 65536 \<Longrightarrow> y = ErrInvalidLengthTable" for h l y
    using hf_Init_rejects [of l h] hf_Init_table [of l h] by (cases "lengths_ok l") auto
  show "x = ErrInvalidLengthTable" if "e = Some x"
    using assms that by (auto simp: ts_load_def Let_def table_sizes split: sum.splits dest: R)
qed

lemma lengths_ok_zero: "lengths_ok (replicate n 0)"
proof -
  have "code_count (replicate n 0) l = 0" for l by (simp add: code_count_def)
  then show ?thesis by (simp add: lengths_ok_def code_base_def)
qed

lemma ts_prewarm_ok: "ts_ok (ts_prewarm ts)"
proof -
  have I: "\<exists>h'. hf_Init h (replicate n 0) = Inr h'" if "n < 65536" for h n
    using hf_Init_table [of "replicate n 0" h] lengths_ok_zero that by auto
  have "fst (ts_load ts (replicate tableSize5 0)) = None"
    using I [of mainSize5 "ts_main ts"] I [of offsetSize5 "ts_offset ts"]
      I [of lowoffsetSize5 "ts_lowoffset ts"] I [of lengthSize5 "ts_length ts"]
    by (auto simp: ts_load_def Let_def table_sizes)
  then show ?thesis
    unfolding ts_prewarm_def using ts_load_ok(1) [of "replicate tableSize5 0" ts]
    by (metis length_replicate prod.collapse)
qed

lemma ts_copyFrom_eq: "ts_ok src \<Longrightarrow> ts_ok (ts_copyFrom ts src)"
  by (simp add: ts_ok_def ts_copyFrom_def)

lemma nat_or_add: "b < 2 ^ k \<Longrightarrow> push_bit k m OR b = push_bit k m + (b :: nat)"
proof -
  assume "b < 2 ^ k"
  then have "b = take_bit k b" by (simp add: take_bit_nat_eq_self)
  then have "\<not> (bit (push_bit k m) i \<and> bit b i)" for i
    by (metis bit_push_bit_iff_nat bit_take_bit_iff not_le)
  then show ?thesis by (intro disjunctive_add [symmetric]) blast
qed

lemma nat_and_3: "n AND 3 = n mod (4 :: nat)"
proof -
  have "n AND 3 = take_bit 2 n" by (simp add: take_bit_eq_mask mask_eq_exp_minus_1)
  then show ?thesis by (simp add: take_bit_eq_mod)
qed

lemma nat_4_or: "x < 4 \<Longrightarrow> (4 :: nat) OR x = 4 + x"
  using nat_or_add [of x 2 1] by (simp add: push_bit_eq_mult)

lemma slotToLength_post:
  assumes "n < 44"
  shows "rd_post (\<lambda>v. 2 \<le> v \<and> v \<le> 4097) (slotToLength n)"
proof (cases "8 \<le> n")
  case False
  then show ?thesis by (simp add: slotToLength_def rd_post_return)
next
  case True
  define k where "k = n div 4 - 1"
  have k: "0 < k" "k \<le> 9" using True assms by (auto simp: k_def)
  then have mk: "(n div 4 - 1) mod 256 = k" by (simp add: k_def)
  define m where "m = push_bit k (4 OR (n AND 3))"
  have "4 OR (n AND 3) \<le> 7" using nat_4_or [of "n mod 4"] by (simp add: nat_and_3)
  then have m: "m \<le> 7 * 2 ^ k" by (simp add: m_def push_bit_eq_mult)
  have p: "(2::nat) ^ k \<le> 2 ^ 9" using k by (intro power_increasing) simp_all
  have "rd_post (\<lambda>v. 2 \<le> v \<and> v \<le> 4097) (rd_bind (rd_bits k) (\<lambda>b. rd_return ((m OR b) + 2)))"
  proof (rule rd_post_bind [OF rd_post_bits])
    fix b :: nat assume "b < 2 ^ k"
    then have "m OR b = m + b" unfolding m_def by (rule nat_or_add)
    then show "rd_post (\<lambda>v. 2 \<le> v \<and> v \<le> 4097) (rd_return ((m OR b) + 2))"
      using \<open>b < 2 ^ k\<close> m p by (intro rd_post_return) simp
  qed (use k in simp_all)
  with True k(1) show ?thesis
    unfolding slotToLength_def mk Let_def m_def [symmetric] by (simp only: if_True)
qed

lemma adjust_length_le: "adjust_length l d \<le> l + 3" "l \<le> adjust_length l d"
  by (simp_all add: adjust_length_def)

text \<open>The distance of a match fits 32 bits after one is taken off; its length fits 16.\<close>

lemma far_distance_post:
  assumes "ts_ok ts" and k: "0 < k" "k \<le> 30" and d: "1 \<le> d" "d \<le> 1 + 3 * 2 ^ k"
  shows "rd_post (\<lambda>d. 1 \<le> d \<and> d \<le> 4294967296) (far_distance ts k d)"
proof -
  have p: "(2::nat) ^ k \<le> 2 ^ 30" using k by (intro power_increasing) simp_all
  show ?thesis
  proof (cases "4 \<le> k")
    case True
    have low: "rd_post (\<lambda>v. v < 16) (rd_sym (ts_lowoffset ts))"
      using rd_post_table [of "ts_lowoffset ts" 16] assms(1) by (simp add: ts_ok_def lowoffsetSize5_def)
    have e: "(2::nat) ^ k = 16 * 2 ^ (k - 4)"
      using power_add [of "2::nat" 4 "k - 4"] True by simp
    have first: "rd_post (\<lambda>v. 1 \<le> v \<and> v + 16 \<le> 1 + 3 * 2 ^ k + 2 ^ k)
        (if 0 < k - 4 then rd_bind (rd_bits (k - 4)) (\<lambda>n. rd_return (d + push_bit 4 n)) else rd_return d)"
    proof (cases "0 < k - 4")
      case True
      have "rd_post (\<lambda>v. 1 \<le> v \<and> v + 16 \<le> 1 + 3 * 2 ^ k + 2 ^ k)
          (rd_bind (rd_bits (k - 4)) (\<lambda>n. rd_return (d + push_bit 4 n)))"
      proof (rule rd_post_bind [OF rd_post_bits])
        fix n :: nat assume "n < 2 ^ (k - 4)"
        then have "16 * n + 16 \<le> 2 ^ k" unfolding e by simp
        then show "rd_post (\<lambda>v. 1 \<le> v \<and> v + 16 \<le> 1 + 3 * 2 ^ k + 2 ^ k) (rd_return (d + push_bit 4 n))"
          using d by (intro rd_post_return) (simp add: push_bit_eq_mult)
      qed (use True k in simp_all)
      with True show ?thesis by simp
    next
      case False
      have "16 \<le> (2::nat) ^ k" unfolding e by simp
      then show ?thesis using False d by (simp add: rd_post_return)
    qed
    have "rd_post (\<lambda>d. 1 \<le> d \<and> d \<le> 4294967296)
        (rd_bind (if 0 < k - 4 then rd_bind (rd_bits (k - 4)) (\<lambda>n. rd_return (d + push_bit 4 n))
        else rd_return d) (\<lambda>d. rd_bind (rd_sym (ts_lowoffset ts)) (\<lambda>n. rd_return (d + n))))"
    proof (rule rd_post_bind [OF first], rule rd_post_bind [OF low], rule rd_post_return)
      fix v n :: nat assume "1 \<le> v \<and> v + 16 \<le> 1 + 3 * 2 ^ k + 2 ^ k" "n < 16"
      then show "1 \<le> v + n \<and> v + n \<le> 4294967296" using p by simp
    qed
    with True show ?thesis unfolding far_distance_def by (simp only: if_True)
  next
    case small: False
    have "rd_post (\<lambda>d. 1 \<le> d \<and> d \<le> 4294967296) (rd_bind (rd_bits k) (\<lambda>n. rd_return (d + n)))"
    proof (rule rd_post_bind [OF rd_post_bits], goal_cases)
      case (3 n)
      then show ?case using d p by (intro rd_post_return) simp
    qed (use k in simp_all)
    with small show ?thesis unfolding far_distance_def by (simp only: if_False)
  qed
qed

lemma distance_post:
  assumes "ts_ok ts" and "oslot < 64"
  shows "rd_post (\<lambda>d. 1 \<le> d \<and> d \<le> 4294967296)
       (if oslot < 4 then rd_return (1 + oslot)
        else let bitCount = (oslot div 2 - 1) mod 256
             in far_distance ts bitCount (1 + push_bit bitCount (2 OR (oslot AND 1))))"
proof (cases "oslot < 4")
  case True
  then show ?thesis by (simp add: rd_post_return)
next
  case False
  define k where "k = oslot div 2 - 1"
  have k: "0 < k" "k \<le> 30" using False assms(2) by (auto simp: k_def)
  then have mk: "(oslot div 2 - 1) mod 256 = k" by (simp add: k_def)
  have "2 OR (oslot AND 1) = 2 + oslot mod 2"
    using nat_or_add [of "oslot mod 2" 1 1] by (simp add: push_bit_eq_mult and_one_eq)
  then have d: "1 + push_bit k (2 OR (oslot AND 1)) \<le> 1 + 3 * 2 ^ k" by (simp add: push_bit_eq_mult)
  show ?thesis
    unfolding mk Let_def using False far_distance_post [OF assms(1) k _ d] by simp
qed

lemma decodeOffsetBits_post:
  assumes "ts_ok ts" and "slot < 44"
  shows "rd_post (\<lambda>(len, d). 2 \<le> len \<and> len \<le> 4100 \<and> 1 \<le> d \<and> d \<le> 4294967296) (decodeOffsetBits ts slot)"
  unfolding decodeOffsetBits_def
proof (rule rd_post_bind [OF slotToLength_post [OF assms(2)]])
  fix len :: nat assume len: "2 \<le> len \<and> len \<le> 4097"
  have "rd_post (\<lambda>v. v < 64) (rd_sym (ts_offset ts))"
    using rd_post_table [of "ts_offset ts" 64] assms(1) by (simp add: ts_ok_def offsetSize5_def)
  then show "rd_post (\<lambda>(len, d). 2 \<le> len \<and> len \<le> 4100 \<and> 1 \<le> d \<and> d \<le> 4294967296)
    (rd_bind (rd_sym (ts_offset ts)) (\<lambda>oslot.
     rd_bind
       (if oslot < 4 then rd_return (1 + oslot)
        else let bitCount = (oslot div 2 - 1) mod 256
             in far_distance ts bitCount (1 + push_bit bitCount (2 OR (oslot AND 1))))
       (\<lambda>distance. rd_return (adjust_length len distance, distance))))"
  proof (rule rd_post_bind, goal_cases)
    case (1 oslot)
    show ?case
    proof (rule rd_post_bind [OF distance_post [OF assms(1) 1]], rule rd_post_return)
      fix d :: nat assume "1 \<le> d \<and> d \<le> 4294967296"
      then show "case (adjust_length len d, d) of (len, d) \<Rightarrow>
          2 \<le> len \<and> len \<le> 4100 \<and> 1 \<le> d \<and> d \<le> 4294967296"
        using len adjust_length_le [of len d] by simp
    qed
  qed
qed

lemma decodeLengthBits_post: "ts_ok ts \<Longrightarrow> rd_post (\<lambda>v. 2 \<le> v \<and> v \<le> 4097) (decodeLengthBits ts)"
  unfolding decodeLengthBits_def
proof (rule rd_post_bind)
  assume "ts_ok ts"
  then show "rd_post (\<lambda>v. v < 44) (rd_sym (ts_length ts))"
    using rd_post_table [of "ts_length ts" 44] by (simp add: ts_ok_def lengthSize5_def)
qed (rule slotToLength_post)

lemma nat_or_less: "a < 2 ^ n \<Longrightarrow> b < 2 ^ n \<Longrightarrow> a OR b < (2 :: nat) ^ n"
  by (metis take_bit_nat_eq_self_iff take_bit_or)

lemma rf5_loop_post: "dat < 2 ^ (8 * i) \<Longrightarrow> rd_post (\<lambda>v. v < 2 ^ (8 * (i + k))) (rf5_loop k i dat)"
proof (induction k arbitrary: i dat)
  case (Suc k)
  show ?case unfolding rf5_loop.simps
  proof (rule rd_post_bind [OF rd_post_byte])
    fix b :: byte
    have "push_bit (i * 8) (unat b) < 2 ^ (8 * (i + 1))"
      using byte_lt_256 [of b] by (simp add: push_bit_eq_mult power_add mult.commute)
    moreover have "dat < 2 ^ (8 * (i + 1))"
      using Suc.prems by (rule less_le_trans) (simp add: power_increasing)
    ultimately have "dat OR push_bit (i * 8) (unat b) < 2 ^ (8 * (i + 1))" by (intro nat_or_less)
    from Suc.IH [OF this]
    show "rd_post (\<lambda>v. v < 2 ^ (8 * (i + Suc k))) (rf5_loop k (i + 1) (dat OR push_bit (i * 8) (unat b)))"
      by simp
  qed
qed (simp add: rd_post_return)

lemma readFilter5Data_post: "rd_post (\<lambda>v. v < 4294967296) readFilter5Data"
  unfolding readFilter5Data_def
proof (rule rd_post_bind [OF rd_post_bits], goal_cases)
  case (3 n)
  have "rd_post (\<lambda>v. v < 2 ^ (8 * (0 + (n + 1)))) (rf5_loop (n + 1) 0 0)" by (rule rf5_loop_post) simp
  then show ?case
  proof (rule rd_post_mono)
    fix v :: nat assume v: "v < 2 ^ (8 * (0 + (n + 1)))"
    have "(2::nat) ^ (8 * (0 + (n + 1))) \<le> 2 ^ 32" using 3 by (intro power_increasing) simp_all
    with v show "v < 4294967296" by simp
  qed
qed simp_all

lemma readFilterBits_post:
  "rd_post (\<lambda>(off, len, ft, param). off < 4294967296 \<and> len < 4294967296 \<and> ft < 8 \<and> param \<le> 32) readFilterBits"
  unfolding readFilterBits_def
proof (rule rd_post_bind [OF readFilter5Data_post], rule rd_post_bind [OF readFilter5Data_post],
    rule rd_post_bind [OF rd_post_bits], goal_cases)
  case (3 off len ft)
  show ?case
  proof (cases "ft = 0")
    case True
    have "rd_post (\<lambda>(off, len, ft, param). off < 4294967296 \<and> len < 4294967296 \<and> ft < 8 \<and> param \<le> 32)
        (rd_bind (rd_bits 5) (\<lambda>n. rd_return (off, len, ft, n + 1)))"
      by (rule rd_post_bind [OF rd_post_bits]) (use 3 in \<open>auto intro!: rd_post_return\<close>)
    with True show ?thesis by simp
  next
    case False
    then show ?thesis using 3 by (auto intro!: rd_post_return)
  qed
qed simp_all

subsection \<open>Items\<close>

datatype itemKind = itemLiteral | itemMatch | itemRepDist | itemRepLast | itemFilter | itemFilterLen

record item =
  it_kind :: itemKind
  it_aux :: byte
  it_length :: u16
  it_value :: u32

definition mk_item :: "itemKind \<Rightarrow> nat \<Rightarrow> nat \<Rightarrow> nat \<Rightarrow> item" where
  "mk_item k aux len val = \<lparr>it_kind = k, it_aux = word_of_nat aux, it_length = word_of_nat len, it_value = word_of_nat val\<rparr>"

definition itemCap :: nat where "itemCap = 32768"

text \<open>
  A job; \<open>bj_items\<close> are the \<^verbatim>\<open>n\<close> items that are filled in, \<open>bj_cap\<close> the length of the
  array. The scheduling fields (\<^verbatim>\<open>done\<close>, \<^verbatim>\<open>waited\<close>) are not part of what the
  worker computes.
\<close>

record blockJob =
  bj_payload :: "byte list"
  bj_bits :: int
  bj_lastBlock :: bool
  bj_tables :: tableSet
  bj_cap :: nat
  bj_items :: "item list"
  bj_partial :: bool
  bj_resume :: "bitReader option"
  bj_err :: "err option"

definition mapInnerErr :: "err \<Rightarrow> err" where
  "mapInnerErr e = (if e = EOF then ErrDecoderOutOfData else e)"

text \<open>The loop of \<^verbatim>\<open>decodeBlockItems\<close>: the items so far; the result adds whether the
  array filled up first, the error, and where the reader stands.\<close>

function dbi_loop :: "tableSet \<Rightarrow> nat \<Rightarrow> bitReader \<Rightarrow> item list
    \<Rightarrow> item list \<times> bool \<times> err option \<times> bitReader" where
  "dbi_loop ts cap br items =
     (if cap \<le> length items + 1 then (items, True, None, br)
      else case hf_ReadSym (ts_main ts) br of
        (Inl e, br1) \<Rightarrow> (items, False, if e = EOF then None else Some e, br1)
      | (Inr sm, br1) \<Rightarrow>
          if sm < 256 then dbi_loop ts cap br1 (items @ [mk_item itemLiteral 0 0 sm])
          else if 262 \<le> sm
          then (case decodeOffsetBits ts (sm - 262) br1 of
                  (Inl e, br2) \<Rightarrow> (items, False, Some (mapInnerErr e), br2)
                | (Inr (len, distance), br2) \<Rightarrow>
                    dbi_loop ts cap br2 (items @ [mk_item itemMatch 0 len (distance - 1)]))
          else if 258 \<le> sm
          then (case decodeLengthBits ts br1 of
                  (Inl e, br2) \<Rightarrow> (items, False, Some (mapInnerErr e), br2)
                | (Inr len, br2) \<Rightarrow> dbi_loop ts cap br2 (items @ [mk_item itemRepDist (sm - 258) len 0]))
          else if sm = 257 then dbi_loop ts cap br1 (items @ [mk_item itemRepLast 0 0 0])
          else (case readFilterBits br1 of
                  (Inl e, br2) \<Rightarrow> (items, False, Some (mapInnerErr e), br2)
                | (Inr (offset, len, ftype, param), br2) \<Rightarrow>
                    dbi_loop ts cap br2
                      (items @ [mk_item itemFilter ftype param offset, mk_item itemFilterLen 0 0 len])))"
  by pat_completeness auto
termination by (relation "measure (\<lambda>(ts, cap, br, items). cap - length items)") auto

declare dbi_loop.simps [simp del]

definition decodeBlockItems :: "blockJob \<Rightarrow> blockJob" where
  "decodeBlockItems j =
     (let br = (case bj_resume j of None \<Rightarrow> newBitReader (bj_payload j) (bj_bits j) | Some r \<Rightarrow> r)
      in case dbi_loop (bj_tables j) (bj_cap j) br [] of
           (items, part, e, br') \<Rightarrow>
             j\<lparr>bj_items := items, bj_partial := part, bj_err := e, bj_resume := Some br'\<rparr>)"

subsection \<open>Block headers\<close>

record blockHead =
  bh_blockBytes :: nat
  bh_blockBits :: int
  bh_newTables :: bool
  bh_lastBlock :: bool

text \<open>The checksum is over the flags and the byte count's bytes.\<close>

definition readBlockHead :: "'s full_reading \<Rightarrow> 's \<Rightarrow> ((err + blockHead) \<times> 's) option" where
  "readBlockHead rf s =
     Option.bind (rf s 2) (\<lambda>(b, e, s1). case e of
        Some x \<Rightarrow> Some (Inl x, s1)
      | None \<Rightarrow>
          let flags = b ! 0; hsum = b ! 1;
              bytecount = unat ((drop_bit 3 flags AND 3) + 1)
          in if bytecount = 4 then Some (Inl ErrCorruptDecodeHeader, s1)
             else Option.bind (rf s1 bytecount) (\<lambda>(bs, e, s2). case e of
               Some x \<Rightarrow> Some (Inl x, s2)
             | None \<Rightarrow>
                 if foldl (XOR) (0x5a XOR flags) bs \<noteq> hsum then Some (Inl ErrCorruptDecodeHeader, s2)
                 else Some (Inr \<lparr>bh_blockBytes = le_nat bs,
                            bh_blockBits = int (unat (flags AND 7)) + 1 + (int (le_nat bs) - 1) * 8,
                            bh_newTables = (0 < flags AND 0x80), bh_lastBlock = (0 < flags AND 0x40)\<rparr>, s2)))"

lemma unat_and_7: "unat (w AND 7 :: byte) < 8"
proof -
  have "w AND 7 = take_bit 3 w" by (simp add: take_bit_eq_mask mask_eq_exp_minus_1)
  then have "unat (w AND 7) = take_bit 3 (unat w)" by (simp only: unsigned_take_bit_eq)
  then show ?thesis by (simp add: take_bit_eq_mod)
qed

lemma block_bits_fit: "int (unat (w AND 7 :: byte)) + 1 + (int n - 1) * 8 \<le> 8 * int n"
proof -
  define m where "m = unat (w AND 7)"
  have "m < 8" using unat_and_7 [of w] by (simp only: m_def)
  then show ?thesis unfolding m_def [symmetric] by simp
qed

context full_source
begin

lemma readBlockHead_returns:
  assumes "src_ok s"
  obtains (refused) x s' where "readBlockHead rf s = Some (Inl x, s')" "src_ok s'"
  | (head) h s' where "readBlockHead rf s = Some (Inr h, s')" "src_ok s'"
      "bh_blockBits h \<le> 8 * int (bh_blockBytes h)" "left s' < left s"
proof (cases rule: rf_cases [OF assms, of 2, case_names short got])
  case (short b x s1)
  then show ?thesis using refused by (simp add: readBlockHead_def)
next
  case (got b s1)
  define bc where "bc = unat ((drop_bit 3 (b ! 0) AND 3) + 1)"
  show ?thesis
  proof (cases "bc = 4")
    case True
    then show ?thesis using refused got by (simp add: readBlockHead_def bc_def [symmetric] Let_def)
  next
    case False
    show ?thesis
    proof (cases rule: rf_cases [OF got(2), of bc, case_names short got'])
      case (short bs x s2)
      then show ?thesis using refused got False by (simp add: readBlockHead_def bc_def [symmetric] Let_def)
    next
      case (got' bs s2)
      show ?thesis
      proof (cases "foldl (XOR) (0x5a XOR b ! 0) bs = b ! 1")
        case True
        define h where "h = \<lparr>bh_blockBytes = le_nat bs,
          bh_blockBits = int (unat (b ! 0 AND 7)) + 1 + (int (le_nat bs) - 1) * 8,
          bh_newTables = (0 < b ! 0 AND 0x80), bh_lastBlock = (0 < b ! 0 AND 0x40)\<rparr>"
        have "readBlockHead rf s = Some (Inr h, s2)"
          using got got' False True by (simp add: readBlockHead_def bc_def [symmetric] Let_def h_def)
        moreover have "bh_blockBits h \<le> 8 * int (bh_blockBytes h)"
          unfolding h_def blockHead.simps by (rule block_bits_fit)
        ultimately show ?thesis using head [OF _ got'(2)] got got' by simp
      next
        case no: False
        then show ?thesis using refused got got' False by (simp add: readBlockHead_def bc_def [symmetric] Let_def)
      qed
    qed
  qed
qed

end

subsection \<open>Properties\<close>

text \<open>A decoded match fits the eight-byte item a worker stores it in: with tables built for the
  four alphabets and a slot of the main alphabet, the length is between 2 and 4100 and
  survives 16 bits, the distance is between 1 and \<open>2 ^ 32\<close> and one less survives 32 bits; a
  failure is one of the reader's three errors; in both cases only bits of the block are
  consumed.\<close>

theorem match_fields_fit:
  assumes "ts_ok ts" and "slot < 44" and "block_fits r"
  shows "case decodeOffsetBits ts slot r of (res, r') \<Rightarrow>
     (\<exists>k \<le> length (br_bits r). br_bits r' = drop k (br_bits r))
     \<and> (case res of
          Inl e \<Rightarrow> e \<in> {EOF, ErrDecoderOutOfData, ErrHuffDecodeFailed}
        | Inr (len, distance) \<Rightarrow> 2 \<le> len \<and> len \<le> 4100 \<and> 1 \<le> distance \<and> distance \<le> 2 ^ 32
            \<and> unat (it_length (mk_item itemMatch 0 len (distance - 1))) = len
            \<and> unat (it_value (mk_item itemMatch 0 len (distance - 1))) + 1 = distance)"
proof -
  obtain res r' where m: "decodeOffsetBits ts slot r = (res, r')" by fastforce
  have reach: "br_reach r r'" and P: "case res of Inl e \<Rightarrow> e \<in> inner_errs
      | Inr (len, d) \<Rightarrow> 2 \<le> len \<and> len \<le> 4100 \<and> 1 \<le> d \<and> d \<le> 4294967296"
    using decodeOffsetBits_post [OF assms(1,2), unfolded rd_post_def, rule_format, OF assms(3)]
    unfolding m by simp_all
  have w: "unat (it_length (mk_item itemMatch 0 len (d - 1))) = len"
    "unat (it_value (mk_item itemMatch 0 len (d - 1))) + 1 = d"
    if "len \<le> 4100" "1 \<le> d" "d \<le> 4294967296" for len d :: nat
  proof -
    show "unat (it_length (mk_item itemMatch 0 len (d - 1))) = len"
      using that by (simp add: mk_item_def unat_of_nat_small)
    have "unat (word_of_nat (d - 1) :: u32) = d - 1"
      by (rule unat_of_nat_small) (use that in simp)
    then have "unat (it_value (mk_item itemMatch 0 len (d - 1))) = d - 1" by (simp only: mk_item_def item.simps)
    then show "unat (it_value (mk_item itemMatch 0 len (d - 1))) + 1 = d" using that(2) by linarith
  qed
  show ?thesis
  proof (cases res)
    case (Inl e)
    then show ?thesis using m P br_reach_bits [OF reach] by (auto simp: inner_errs_def)
  next
    case (Inr v)
    obtain len d where v: "v = (len, d)" by fastforce
    with Inr P have b: "2 \<le> len" "len \<le> 4100" "1 \<le> d" "d \<le> 4294967296" by simp_all
    show ?thesis unfolding m Inr v using b w [OF b(2-4)] br_reach_bits [OF reach] by simp
  qed
qed

theorem match_fields_fit_witness:
  "case decodeOffsetBits (ts_prewarm ts_empty) 3 (newBitReader [0xFF] 8) of (res, r') \<Rightarrow>
     (case res of Inl e \<Rightarrow> e \<in> {EOF, ErrDecoderOutOfData, ErrHuffDecodeFailed} | Inr (len, d) \<Rightarrow> len \<le> 4100)"
  using match_fields_fit [OF ts_prewarm_ok [of ts_empty], of 3 "newBitReader [0xFF] 8"] block_fits_new [of 8 "[0xFF]"]
  by (auto split: sum.splits prod.splits)

text \<open>A block header that is accepted has the checksum its bytes spell, and describes a block
  whose bits lie inside its payload; reading it consumed at least one byte of the stream.\<close>

theorem block_header_sound:
  assumes "readBlockHead stream_full s = Some (Inr h, s')"
  shows "bh_blockBits h \<le> 8 * int (bh_blockBytes h)
     \<and> length (st_data s') < length (st_data s)
     \<and> (\<exists>flags hsum bs. st_data s = flags # hsum # bs @ st_data s' \<and> length bs \<in> {1, 2, 3}
          \<and> foldl (XOR) (0x5a XOR flags) bs = hsum \<and> bh_blockBytes h = le_nat bs)"
proof -
  obtain b s1 where 1: "readFull s 2 = (b, None, s1)"
    using assms by (auto simp: readBlockHead_def stream_full_def split: prod.splits option.splits)
  define bc where "bc = unat ((drop_bit 3 (b ! 0) AND 3) + 1)"
  obtain bs where 2: "readFull s1 bc = (bs, None, s')" and bc: "bc \<noteq> 4"
    and sum: "foldl (XOR) (0x5a XOR b ! 0) bs = b ! 1" and h: "bh_blockBytes h = le_nat bs"
    using assms 1 by (auto simp: readBlockHead_def stream_full_def Let_def bc_def split: prod.splits option.splits if_splits)
  note R1 = readFull_cases [OF 1] and R2 = readFull_cases [OF 2]
  obtain f k rest where data: "st_data s = f # k # rest"
    using R1(4) by (cases "st_data s"; cases "tl (st_data s)") auto
  have b: "b = [f, k]" "st_data s1 = rest" using R1 data by simp_all
  have "st_data s = f # k # bs @ st_data s'" using data b(2) R2(1,2) by simp
  moreover have "drop_bit 3 (b ! 0) AND 3 = take_bit 2 (drop_bit 3 (b ! 0))"
    by (simp add: take_bit_eq_mask mask_eq_exp_minus_1)
  then have "unat (drop_bit 3 (b ! 0) AND 3) < 4"
    by (simp add: unsigned_take_bit_eq take_bit_eq_mod unat_mod)
  then have "bc \<in> {1, 2, 3}" using bc by (auto simp: bc_def unat_word_ariths)
  then have "length bs \<in> {1, 2, 3}" using R2(2,4) by auto
  moreover have "bh_blockBits h \<le> 8 * int (bh_blockBytes h) \<and> length (st_data s') < length (st_data s)"
    by (rule stream_full.readBlockHead_returns [of s]) (use assms in auto)
  ultimately show ?thesis using sum h b(1) by auto
qed

theorem block_header_sound_witness:
  "\<exists>h s'. readBlockHead stream_full \<lparr>st_data = [0x47, 0x18, 5, 9, 9], st_end = EOF\<rparr> = Some (Inr h, s') \<and> bh_blockBits h \<le> 40"
proof -
  have "\<exists>h s'. readBlockHead stream_full \<lparr>st_data = [0x47, 0x18, 5, 9, 9], st_end = EOF\<rparr> = Some (Inr h, s') \<and> bh_blockBytes h = 5"
    by (simp add: readBlockHead_def stream_full_def Let_def)
  then obtain h s' where h: "readBlockHead stream_full \<lparr>st_data = [0x47, 0x18, 5, 9, 9], st_end = EOF\<rparr> = Some (Inr h, s')"
    "bh_blockBytes h = 5" by blast
  show ?thesis using block_header_sound [OF h(1)] h by auto
qed

end
