(* ===== verification/Window.thy ===== *)
theory Window
  imports Interfaces
begin

section \<open>The sliding window (window.go)\<close>

text \<open>
  The ring buffer every member is decoded into: the reader's index \<open>win_r\<close>, the writer's
  \<open>win_w\<close>, the two flags that tell an empty ring from a full one and a first lap from later
  ones, and the flag that says a solid successor may no longer build on the history.
  The copies are the \<^verbatim>\<open>copy\<close> (memmove) of Go on the same buffer. The two write
  loops would not end in a state that is not a ring (an index at the size): they are
  partial functions into \<open>option\<close>, and return under the invariant. A reservation of the
  operating system is the parameter \<open>reserve\<close>.

  \<open>win_rel w out p\<close> relates a window to the bytes written since the history was discarded
  and to the reader's position in them; every operation is proved against it, and the
  interface \<open>sliding_window\<close> is interpreted with it.
\<close>

subsection \<open>The code\<close>

definition minWindowSize :: nat where "minWindowSize = 0x40000"
definition maxFillTarget :: nat where "maxFillTarget = 16 * 2 ^ 20"
definition maxDictSize :: nat where "maxDictSize = 4 * 2 ^ 30"
definition decommitThreshold :: nat where "decommitThreshold = 32 * 2 ^ 20"

record window =
  win_buf :: "byte list"
  win_size :: nat
  win_r :: nat
  win_w :: nat
  win_full :: bool
  win_backing :: bool
  win_wrapped :: bool
  win_incomplete :: bool

definition win_historyLen :: "window \<Rightarrow> nat" where
  "win_historyLen w = (if win_wrapped w then win_size w else win_w w)"

definition newWindow :: "nat \<Rightarrow> window" where
  "newWindow want =
     (let sz = (if want < minWindowSize then minWindowSize else want)
      in \<lparr>win_buf = replicate sz 0, win_size = sz, win_r = 0, win_w = 0, win_full = False,
          win_backing = False, win_wrapped = False, win_incomplete = False\<rparr>)"

definition win_fillTarget :: "window \<Rightarrow> nat" where
  "win_fillTarget w = min (win_size w div 2) maxFillTarget"

definition win_Reset :: "window \<Rightarrow> bool \<Rightarrow> window" where
  "win_Reset w keepHistory =
     (let w' = (if \<not> keepHistory then w\<lparr>win_w := 0, win_r := 0, win_wrapped := False\<rparr>
                else w\<lparr>win_r := win_w w\<rparr>)
      in w'\<lparr>win_full := False\<rparr>)"

text \<open>\<open>reserve want\<close> is \<^verbatim>\<open>reserveWindow\<close>: a buffer, or the operating system's error.\<close>

definition win_grow :: "(nat \<Rightarrow> err + byte list) \<Rightarrow> window \<Rightarrow> nat \<Rightarrow> err option \<times> window" where
  "win_grow reserve w want =
     (if want \<le> win_size w then (None, w)
      else case reserve want of
        Inl e \<Rightarrow> (Some e, w)
      | Inr buf \<Rightarrow>
          (None, win_Reset (w\<lparr>win_buf := buf, win_size := want, win_backing := True\<rparr>) False))"

text \<open>\<open>decommit buf\<close> is what the kernel leaves in a buffer whose pages were handed back.\<close>

definition win_decommit :: "(byte list \<Rightarrow> byte list) \<Rightarrow> window \<Rightarrow> window" where
  "win_decommit decommit w =
     (if win_backing w \<and> decommitThreshold < win_size w then w\<lparr>win_buf := decommit (win_buf w)\<rparr> else w)"

text \<open>Go's \<^verbatim>\<open>copy(buf[at:], xs)\<close> with room for all of \<open>xs\<close>.\<close>

definition blit :: "'a list \<Rightarrow> nat \<Rightarrow> 'a list \<Rightarrow> 'a list" where
  "blit buf at xs = take at buf @ xs @ drop (at + length xs) buf"

text \<open>The five statements every writer ends with.\<close>

definition win_advance :: "window \<Rightarrow> nat \<Rightarrow> window" where
  "win_advance w n =
     (let w1 = w\<lparr>win_w := win_w w + n\<rparr>;
          w2 = (if win_size w1 \<le> win_w w1 then w1\<lparr>win_w := 0, win_wrapped := True\<rparr> else w1)
      in if win_w w2 = win_r w2 then w2\<lparr>win_full := True\<rparr> else w2)"

definition win_writeByte :: "window \<Rightarrow> byte \<Rightarrow> window" where
  "win_writeByte w c = win_advance (w\<lparr>win_buf := (win_buf w)[win_w w := c]\<rparr>) 1"

partial_function (option) win_writeBytes :: "window \<Rightarrow> byte list \<Rightarrow> window option" where
  [code]: "win_writeBytes w p =
     (if 0 < length p
      then let n = min (win_size w - win_w w) (length p)
           in win_writeBytes (win_advance (w\<lparr>win_buf := blit (win_buf w) (win_w w) (take n p)\<rparr>) n) (drop n p)
      else Some w)"

partial_function (option) win_copy_loop :: "window \<Rightarrow> nat \<Rightarrow> nat \<Rightarrow> nat \<Rightarrow> window option" where
  [code]: "win_copy_loop w srcIdx distance remaining =
     (if 0 < remaining
      then let n = min remaining (min distance (min (win_size w - srcIdx) (win_size w - win_w w)));
               w1 = w\<lparr>win_buf := blit (win_buf w) (win_w w) (take n (drop srcIdx (win_buf w)))\<rparr>;
               src1 = (if win_size w \<le> srcIdx + n then 0 else srcIdx + n)
           in win_copy_loop (win_advance w1 n) src1 distance (remaining - n)
      else Some w)"

definition win_CopyBytes :: "window \<Rightarrow> nat \<Rightarrow> int \<Rightarrow> (err option \<times> window) option" where
  "win_CopyBytes w len distance =
     (if distance \<le> 0 \<or> int (win_historyLen w) < distance then Some (Some ErrWindowOffsetBounds, w)
      else let src = int (win_w w) - distance;
               src1 = (if src < 0 then src + int (win_size w) else src)
           in map_option (Pair None) (win_copy_loop w (nat src1) (nat distance) len))"

definition win_Available :: "window \<Rightarrow> nat" where
  "win_Available w =
     (if win_full w then win_size w
      else if win_r w \<le> win_w w then win_w w - win_r w
      else win_size w - win_r w + win_w w)"

text \<open>\<open>n\<close> is the room in the caller's slice; the bytes read are returned.\<close>

function win_read_loop :: "window \<Rightarrow> bool \<Rightarrow> nat \<Rightarrow> byte list \<Rightarrow> byte list \<times> window" where
  "win_read_loop w wasFull n copied =
     (if length copied < n
      then let stop = (if win_w w < win_r w \<or> wasFull \<and> copied = [] then win_size w else win_w w);
               chunk = take (n - length copied) (take (stop - win_r w) (drop (win_r w) (win_buf w)))
           in if chunk = [] then (copied, w)
              else let r1 = win_r w + length chunk
                   in win_read_loop (w\<lparr>win_r := if win_size w \<le> r1 then 0 else r1\<rparr>) wasFull n (copied @ chunk)
      else (copied, w))"
  by pat_completeness auto
termination
  by (relation "measure (\<lambda>(w, wasFull, n, copied). n - length copied)") auto

declare win_read_loop.simps [simp del]

definition win_Read :: "window \<Rightarrow> nat \<Rightarrow> byte list \<times> window" where
  "win_Read w plen =
     (let avail = win_Available w
      in if avail = 0 then ([], w)
         else let n = min plen avail
              in win_read_loop (if 0 < n then w\<lparr>win_full := False\<rparr> else w) (win_full w) n [])"

definition win_BeginFile :: "window \<Rightarrow> bool \<Rightarrow> err option \<times> window" where
  "win_BeginFile w solid =
     (if solid
      then if win_incomplete w then (Some ErrSolidStreamBroken, w) else (None, win_Reset w True)
      else (None, win_Reset (w\<lparr>win_incomplete := False\<rparr>) False))"

definition win_MarkIncomplete :: "window \<Rightarrow> window" where
  "win_MarkIncomplete w = w\<lparr>win_incomplete := True\<rparr>"

subsection \<open>The relation to the bytes written\<close>

definition win_rel :: "window \<Rightarrow> byte list \<Rightarrow> nat \<Rightarrow> bool" where
  "win_rel w out p \<longleftrightarrow>
     length (win_buf w) = win_size w \<and> 0 < win_size w
     \<and> win_w w = length out mod win_size w \<and> win_r w = p mod win_size w
     \<and> win_wrapped w = (win_size w \<le> length out)
     \<and> p \<le> length out \<and> length out - p \<le> win_size w
     \<and> win_full w = (length out - p = win_size w)
     \<and> (\<forall>i < length out. length out \<le> i + win_size w \<longrightarrow> win_buf w ! (i mod win_size w) = out ! i)"

lemma blit_length [simp]: "at + length xs \<le> length buf \<Longrightarrow> length (blit buf at xs) = length buf"
  by (simp add: blit_def)

lemma blit_nth:
  assumes "at + length xs \<le> length buf" and "i < length buf"
  shows "blit buf at xs ! i = (if at \<le> i \<and> i < at + length xs then xs ! (i - at) else buf ! i)"
  using assms by (auto simp: blit_def nth_append min_def)

lemma blit_one: "at < length buf \<Longrightarrow> blit buf at [c] = buf[at := c]"
  by (simp add: blit_def upd_conv_take_nth_drop)

lemma mod_add_room:
  assumes "0 < (s :: nat)" and "k \<le> s - m mod s"
  shows "(m + k) mod s = (if s \<le> m mod s + k then 0 else m mod s + k)"
proof -
  have "(m + k) mod s = (m mod s + k) mod s" by presburger
  moreover have "m mod s < s" using assms(1) by simp
  then have "m mod s + k \<le> s" using assms(2) by linarith
  ultimately show ?thesis by (cases "m mod s + k = s") auto
qed

lemma mod_eq_close:
  assumes "(a::nat) mod s = b mod s" and "a \<le> b" and "b < a + s"
  shows "a = b"
proof -
  have "s dvd b - a" using assms(1,2) by (metis mod_eq_dvd_iff_nat)
  then show ?thesis using assms(2,3) by (metis add.commute dvd_imp_le le_add_diff_inverse less_diff_conv2 nat_less_le not_le zero_less_diff)
qed

text \<open>Every writer is this step: a chunk that ends before the buffer does.\<close>

lemma win_advance_rel:
  assumes rel: "win_rel w out p" and n: "0 < length xs" "length xs \<le> win_size w - win_w w"
    and room: "length out - p + length xs \<le> win_size w"
  shows "win_rel (win_advance (w\<lparr>win_buf := blit (win_buf w) (win_w w) xs\<rparr>) (length xs)) (out @ xs) p"
proof -
  let ?s = "win_size w" and ?k = "length xs" and ?m = "length out"
  let ?w' = "win_advance (w\<lparr>win_buf := blit (win_buf w) (win_w w) xs\<rparr>) (length xs)"
  have s: "0 < ?s" "length (win_buf w) = ?s" "win_w w = ?m mod ?s" "win_r w = p mod ?s" "p \<le> ?m"
    "win_wrapped w = (?s \<le> ?m)" "win_full w = (?m - p = ?s)"
    using rel by (simp_all add: win_rel_def)
  have fit: "win_w w + ?k \<le> length (win_buf w)" using n(2) s by (simp add: s(2)) (metis add.commute le_diff_conv2 less_imp_le mod_less_divisor s(1))
  have w': "(?m + ?k) mod ?s = (if ?s \<le> win_w w + ?k then 0 else win_w w + ?k)"
    using mod_add_room [OF s(1), of ?k ?m] n(2) s(3) by simp
  have "win_r w = (?m + ?k) mod ?s \<longleftrightarrow> ?m + ?k - p = ?s"
  proof
    assume "win_r w = (?m + ?k) mod ?s"
    then have "p mod ?s = (?m + ?k) mod ?s" using s(4) by simp
    then have "\<not> ?m + ?k < p + ?s" using mod_eq_close [of p ?s "?m + ?k"] s(5) n(1) by auto
    then show "?m + ?k - p = ?s" using room s(5) by linarith
  next
    assume "?m + ?k - p = ?s"
    then have "?m + ?k = p + ?s" using s(1) by linarith
    then show "win_r w = (?m + ?k) mod ?s" using s(4) by simp
  qed
  moreover have "\<not> win_full w" using s(7) room n(1) by linarith
  moreover have "?s \<le> ?m + ?k \<longleftrightarrow> ?s \<le> ?m \<or> ?s \<le> win_w w + ?k"
    using s(3) by (cases "?s \<le> ?m") auto
  moreover have "blit (win_buf w) (win_w w) xs ! (i mod ?s) = (out @ xs) ! i"
    if i: "i < ?m + ?k" "?m + ?k \<le> i + ?s" for i
  proof (cases "i < ?m")
    case True
    have "\<not> (win_w w \<le> i mod ?s \<and> i mod ?s < win_w w + ?k)"
    proof
      assume b: "win_w w \<le> i mod ?s \<and> i mod ?s < win_w w + ?k"
      define j where "j = i mod ?s - win_w w"
      have "j < ?k" "i mod ?s = ?m mod ?s + j" using b by (auto simp: j_def s(3))
      moreover have "i mod ?s < ?s" using s(1) by simp
      ultimately have "i mod ?s = (?m + j) mod ?s" using mod_add_room [OF s(1), of j ?m] by simp
      then have "i = ?m + j" using mod_eq_close [of i ?s "?m + j"] i True \<open>j < ?k\<close> by simp
      with True show False by simp
    qed
    then show ?thesis
      using True i rel fit s(1,2) by (auto simp: blit_nth nth_append win_rel_def)
  next
    case False
    have "i - ?m \<le> ?s - ?m mod ?s" using i n(2) s(3) by linarith
    moreover have "\<not> ?s \<le> ?m mod ?s + (i - ?m)"
      using i False n fit s by linarith
    ultimately have "i mod ?s = win_w w + (i - ?m)"
      using mod_add_room [OF s(1), of "i - ?m" ?m] False s(3) by simp
    moreover have "i mod ?s < length (win_buf w)" using s(1,2) by simp
    moreover obtain j where "i = ?m + j" using False by (metis le_add_diff_inverse not_less)
    ultimately show ?thesis using i fit by (simp add: blit_nth nth_append)
  qed
  ultimately show ?thesis
    using s w' fit room by (auto simp: win_rel_def win_advance_def Let_def)
qed

lemma win_advance_size [simp]: "win_size (win_advance w n) = win_size w"
  by (simp add: win_advance_def Let_def)

lemma win_advance_incomplete [simp]: "win_incomplete (win_advance w n) = win_incomplete w"
  by (simp add: win_advance_def Let_def)

lemma win_rel_w_less: "win_rel w out p \<Longrightarrow> win_w w < win_size w"
  by (simp add: win_rel_def)

subsection \<open>The operations on the bytes written\<close>

lemma win_writeByte_rel:
  assumes "win_rel w out p" and "length out - p < win_size w"
  shows "win_rel (win_writeByte w c) (out @ [c]) p"
proof -
  have "win_w w < length (win_buf w)" using assms(1) by (simp add: win_rel_def)
  then show ?thesis
    using win_advance_rel [OF assms(1), of "[c]"] assms(2) win_rel_w_less [OF assms(1)]
    by (simp add: win_writeByte_def blit_one)
qed

lemma win_writeBytes_rel:
  assumes "win_rel w out p" and "length out - p + length xs \<le> win_size w"
  shows "\<exists>w'. win_writeBytes w xs = Some w' \<and> win_rel w' (out @ xs) p \<and> win_size w' = win_size w"
  using assms
proof (induction xs arbitrary: w out rule: length_induct)
  case (1 xs)
  show ?case
  proof (cases "xs = []")
    case True
    then show ?thesis using "1.prems" by (simp add: win_writeBytes.simps)
  next
    case False
    define n where "n = min (win_size w - win_w w) (length xs)"
    have n: "0 < n" "n \<le> length xs" "length (take n xs) = n"
      using False win_rel_w_less [OF "1.prems"(1)] by (simp_all add: n_def)
    let ?w1 = "win_advance (w\<lparr>win_buf := blit (win_buf w) (win_w w) (take n xs)\<rparr>) n"
    have rel: "win_rel ?w1 (out @ take n xs) p"
      using win_advance_rel [OF "1.prems"(1), of "take n xs"] n "1.prems"(2) by (simp add: n_def)
    have lt: "length (drop n xs) < length xs" using n by simp
    have "p \<le> length out" using "1.prems"(1) by (simp add: win_rel_def)
    then have room: "length (out @ take n xs) - p + length (drop n xs) \<le> win_size ?w1"
      using "1.prems"(2) n by simp
    from "1.IH" [rule_format, OF lt rel room]
    obtain w' where "win_writeBytes ?w1 (drop n xs) = Some w'"
      "win_rel w' ((out @ take n xs) @ drop n xs) p" "win_size w' = win_size w" by auto
    then show ?thesis using False by (subst win_writeBytes.simps) (simp add: n_def [symmetric])
  qed
qed

lemma win_rel_src:
  assumes rel: "win_rel w out p" and d: "0 < d" "d \<le> length out" "d \<le> win_size w"
    and n: "n \<le> d" "n \<le> win_size w - (length out - d) mod win_size w"
  shows "take n (drop ((length out - d) mod win_size w) (win_buf w)) = take n (drop (length out - d) out)"
proof (rule nth_equalityI)
  let ?s = "win_size w" and ?m = "length out"
  have s: "0 < ?s" "length (win_buf w) = ?s" using rel by (simp_all add: win_rel_def)
  then have src: "(?m - d) mod ?s < ?s" by simp
  have len: "length (take n (drop (?m - d) out)) = n" using d n by simp
  show "length (take n (drop ((?m - d) mod ?s) (win_buf w))) = length (take n (drop (?m - d) out))"
    using s n len by simp
  fix j assume "j < length (take n (drop ((?m - d) mod ?s) (win_buf w)))"
  then have j: "j < n" by simp
  have "\<not> ?s \<le> (?m - d) mod ?s + j" "j \<le> ?s - (?m - d) mod ?s" using j n(2) by linarith+
  then have "(?m - d + j) mod ?s = (?m - d) mod ?s + j"
    using mod_add_room [OF s(1), of j "?m - d"] by simp
  moreover have "win_buf w ! ((?m - d + j) mod ?s) = out ! (?m - d + j)"
    using rel j n d by (simp add: win_rel_def)
  ultimately show "take n (drop ((?m - d) mod ?s) (win_buf w)) ! j = take n (drop (?m - d) out) ! j"
    using j n d s src by simp
qed

lemma win_copy_loop_rel:
  assumes "win_rel w out p" and "0 < d" "d \<le> length out" "d \<le> win_size w"
    and "length out - p + n \<le> win_size w" and "src = (length out - d) mod win_size w"
  shows "\<exists>w'. win_copy_loop w src d n = Some w' \<and> win_rel w' (lz_copy d n out) p \<and> win_size w' = win_size w"
  using assms
proof (induction n arbitrary: w out src rule: less_induct)
  case (less n)
  note rel = less.prems(1) and d = less.prems(2-4)
  show ?case
  proof (cases "n = 0")
    case True
    then show ?thesis using rel by (simp add: win_copy_loop.simps)
  next
    case False
    let ?s = "win_size w" and ?m = "length out"
    define k where "k = min n (min d (min (?s - src) (?s - win_w w)))"
    have s: "0 < ?s" "length (win_buf w) = ?s" "src < ?s" using rel less.prems(6) by (simp_all add: win_rel_def)
    have k: "0 < k" "k \<le> n" "k \<le> d" "k \<le> ?s - src" "k \<le> ?s - win_w w"
      using False d s win_rel_w_less [OF rel] by (auto simp: k_def)
    let ?xs = "take k (drop (?m - d) out)"
    have xs: "take k (drop src (win_buf w)) = ?xs" "length ?xs = k"
      using win_rel_src [OF rel d k(3)] k(4) less.prems(6) d k(3) by simp_all
    let ?w1 = "win_advance (w\<lparr>win_buf := blit (win_buf w) (win_w w) ?xs\<rparr>) k"
    have rel1: "win_rel ?w1 (lz_copy d k out) p"
      using win_advance_rel [OF rel, of ?xs] xs k less.prems(5) lz_copy_block [OF k(3) d(2)] by simp
    have src1: "(if ?s \<le> src + k then 0 else src + k) = (length (lz_copy d k out) - d) mod win_size ?w1"
      using mod_add_room [OF s(1), of k "?m - d"] k(4) less.prems(6) d by simp
    have lt: "n - k < n" using k False by simp
    have d1: "d \<le> length (lz_copy d k out)" "d \<le> win_size ?w1" using d by simp_all
    have room: "length (lz_copy d k out) - p + (n - k) \<le> win_size ?w1"
    proof -
      have "p \<le> ?m" using rel by (simp add: win_rel_def)
      then show ?thesis using less.prems(5) k by simp
    qed
    obtain w' where w': "win_copy_loop ?w1 (if ?s \<le> src + k then 0 else src + k) d (n - k) = Some w'"
      "win_rel w' (lz_copy d (n - k) (lz_copy d k out)) p" "win_size w' = win_size ?w1"
      using less.IH [OF lt rel1 d(1) d1 room src1] by blast
    have "lz_copy d (n - k) (lz_copy d k out) = lz_copy d n out"
      using lz_copy_add [of d k "n - k" out] k by simp
    moreover have "win_copy_loop w src d n = win_copy_loop ?w1 (if ?s \<le> src + k then 0 else src + k) d (n - k)"
      using False by (subst win_copy_loop.simps) (simp add: k_def [symmetric] xs(1) Let_def)
    ultimately show ?thesis using w' by simp
  qed
qed

lemma win_copy_loop_incomplete:
  assumes "win_copy_loop w src d n = Some w'"
  shows "win_incomplete w' = win_incomplete w"
proof (rule win_copy_loop.raw_induct [where P = "\<lambda>w src d n w'. win_incomplete w' = win_incomplete w", OF _ assms])
  fix f :: "window \<Rightarrow> nat \<Rightarrow> nat \<Rightarrow> nat \<Rightarrow> window option" and w w' :: window and src d n
  let ?k = "min n (min d (min (win_size w - src) (win_size w - win_w w)))"
  assume IH: "\<And>w src d n w'. f w src d n = Some w' \<Longrightarrow> win_incomplete w' = win_incomplete w"
    and step: "(if 0 < n then
      let n' = ?k; w1 = w\<lparr>win_buf := blit (win_buf w) (win_w w) (take n' (drop src (win_buf w)))\<rparr>;
          src1 = if win_size w \<le> src + n' then 0 else src + n'
      in f (win_advance w1 n') src1 d (n - n')
      else Some w) = Some w'"
  show "win_incomplete w' = win_incomplete w"
  proof (cases "0 < n")
    case True
    then show ?thesis using step IH by (fastforce simp: Let_def)
  qed (use step in simp)
qed

lemma win_CopyBytes_incomplete:
  "win_CopyBytes w n d = Some (e, w') \<Longrightarrow> win_incomplete w' = win_incomplete w"
  using win_copy_loop_incomplete by (auto simp: win_CopyBytes_def Let_def split: if_splits)

lemma win_historyLen_rel: "win_rel w out p \<Longrightarrow> win_historyLen w = min (length out) (win_size w)"
  by (auto simp: win_rel_def win_historyLen_def min_def)

lemma win_CopyBytes_rel:
  assumes rel: "win_rel w out p" and "length out - p + n \<le> win_size w"
    and d: "0 < d" "d \<le> int (min (length out) (win_size w))"
  shows "\<exists>w'. win_CopyBytes w n d = Some (None, w') \<and> win_rel w' (lz_copy (nat d) n out) p \<and> win_size w' = win_size w"
proof -
  let ?s = "win_size w" and ?m = "length out"
  have s: "0 < ?s" "win_w w = ?m mod ?s" using rel by (simp_all add: win_rel_def)
  have nd: "0 < nat d" "nat d \<le> ?m" "nat d \<le> ?s" using d by simp_all
  have src: "nat (if int (win_w w) - d < 0 then int (win_w w) - d + int ?s else int (win_w w) - d)
      = (?m - nat d) mod ?s"
  proof -
    have "(int ?m - d) mod int ?s = (int (win_w w) - d) mod int ?s" by (simp add: s(2) zmod_int mod_diff_left_eq)
    also have "\<dots> = (if int (win_w w) - d < 0 then int (win_w w) - d + int ?s else int (win_w w) - d)"
    proof (cases "int (win_w w) - d < 0")
      case True
      have "(int (win_w w) - d) mod int ?s = (int (win_w w) - d + int ?s) mod int ?s" by simp
      also have "\<dots> = int (win_w w) - d + int ?s" using True nd d by (intro mod_pos_pos_trivial) auto
      finally show ?thesis using True by simp
    next
      case False
      then show ?thesis using win_rel_w_less [OF rel] d(1) by simp
    qed
    finally have "nat ((int ?m - d) mod int ?s)
      = nat (if int (win_w w) - d < 0 then int (win_w w) - d + int ?s else int (win_w w) - d)" by simp
    moreover have "(int ?m - d) mod int ?s = int ((?m - nat d) mod ?s)" using d by (simp add: zmod_int of_nat_diff)
    ultimately show ?thesis by simp
  qed
  obtain w' where "win_copy_loop w ((?m - nat d) mod ?s) (nat d) n = Some w'"
    "win_rel w' (lz_copy (nat d) n out) p" "win_size w' = ?s"
    using win_copy_loop_rel [OF rel nd assms(2) refl] by blast
  moreover have "\<not> (d \<le> 0 \<or> int (win_historyLen w) < d)" using d win_historyLen_rel [OF rel] by simp
  ultimately show ?thesis using src by (simp add: win_CopyBytes_def Let_def)
qed

lemma win_CopyBytes_bad:
  "win_rel w out p \<Longrightarrow> d \<le> 0 \<or> int (min (length out) (win_size w)) < d
    \<Longrightarrow> win_CopyBytes w n d = Some (Some ErrWindowOffsetBounds, w)"
  by (simp add: win_CopyBytes_def win_historyLen_rel)

lemma win_Available_rel:
  assumes "win_rel w out p"
  shows "win_Available w = length out - p"
proof -
  let ?s = "win_size w" and ?u = "length out - p"
  have s: "0 < ?s" "win_w w = (p + ?u) mod ?s" "win_r w = p mod ?s" "?u \<le> ?s" "win_full w = (?u = ?s)"
    using assms by (simp_all add: win_rel_def)
  show ?thesis
  proof (cases "?u = ?s")
    case True
    then show ?thesis using s(5) by (simp add: win_Available_def)
  next
    case False
    have r: "win_r w < ?s" using s by simp
    show ?thesis
    proof (cases "win_r w + ?u < ?s")
      case True
      then have "win_w w = win_r w + ?u" using mod_add_room [OF s(1), of ?u p] s by simp
      then show ?thesis using s(5) False by (simp add: win_Available_def)
    next
      case wrap: False
      have "win_w w = (win_r w + ?u) mod ?s" using s by (simp add: mod_add_left_eq)
      also have "\<dots> = win_r w + ?u - ?s" using wrap r s(4) by (simp add: mod_if)
      finally have "win_w w = win_r w + ?u - ?s" .
      then show ?thesis using s(4,5) False wrap r by (simp add: win_Available_def)
    qed
  qed
qed

text \<open>Reading moves the reader only; the flag is cleared before the first byte moves.\<close>

definition win_ring :: "window \<Rightarrow> byte list \<Rightarrow> nat \<Rightarrow> bool" where
  "win_ring w out p \<longleftrightarrow> win_rel (w\<lparr>win_full := (length out - p = win_size w)\<rparr>) out p"

lemma win_ring_end:
  assumes ring: "win_ring w out p" and u: "p < length out"
    and full: "full \<longleftrightarrow> length out - p = win_size w"
  shows "(if win_w w < win_r w \<or> full then win_size w else win_w w) - win_r w
     = min (length out - p) (win_size w - win_r w)"
proof -
  let ?s = "win_size w" and ?u = "length out - p"
  have s: "0 < ?s" "win_w w = (p + ?u) mod ?s" "win_r w = p mod ?s" "?u \<le> ?s" "0 < ?u"
    using ring u by (simp_all add: win_ring_def win_rel_def)
  have r: "win_r w < ?s" using s by simp
  show ?thesis
  proof (cases "win_r w + ?u < ?s")
    case True
    then have "win_w w = win_r w + ?u" using mod_add_room [OF s(1), of ?u p] s by simp
    then show ?thesis using True full s by auto
  next
    case wrap: False
    have "win_w w = (win_r w + ?u) mod ?s" unfolding s(2,3) by (simp only: mod_add_left_eq)
    also have "\<dots> = win_r w + ?u - ?s" using wrap r s(4) by (simp add: mod_if)
    finally have "win_w w = win_r w + ?u - ?s" .
    then have "win_w w < win_r w \<or> full" using full s(4) wrap r by linarith
    then show ?thesis using wrap by simp
  qed
qed

lemma win_ring_chunk:
  assumes ring: "win_ring w out p" and k: "k \<le> length out - p" "k \<le> win_size w - win_r w"
  shows "take k (drop (win_r w) (win_buf w)) = take k (drop p out)"
    and "win_ring (w\<lparr>win_r := if win_size w \<le> win_r w + k then 0 else win_r w + k\<rparr>) out (p + k)"
proof -
  let ?s = "win_size w"
  have s: "0 < ?s" "win_r w = p mod ?s" "length (win_buf w) = ?s" "p \<le> length out" "length out - p \<le> ?s"
    and val: "\<And>i. i < length out \<Longrightarrow> length out \<le> i + ?s \<Longrightarrow> win_buf w ! (i mod ?s) = out ! i"
    using ring by (auto simp: win_ring_def win_rel_def)
  have r: "win_r w < ?s" using s by simp
  show "take k (drop (win_r w) (win_buf w)) = take k (drop p out)"
  proof (rule nth_equalityI)
    show "length (take k (drop (win_r w) (win_buf w))) = length (take k (drop p out))"
      using k s by simp
    fix j assume "j < length (take k (drop (win_r w) (win_buf w)))"
    then have j: "j < k" by simp
    have "\<not> ?s \<le> p mod ?s + j" "j \<le> ?s - p mod ?s" using j k(2) s(2) by linarith+
    then have "(p + j) mod ?s = win_r w + j" using mod_add_room [OF s(1), of j p] s(2) by simp
    moreover have "win_buf w ! ((p + j) mod ?s) = out ! (p + j)" by (rule val) (use j k s in linarith)+
    ultimately show "take k (drop (win_r w) (win_buf w)) ! j = take k (drop p out) ! j"
      using j k s r by simp
  qed
  have "(p + k) mod ?s = (if ?s \<le> win_r w + k then 0 else win_r w + k)"
    using mod_add_room [OF s(1), of k p] k s(2) by simp
  then show "win_ring (w\<lparr>win_r := if ?s \<le> win_r w + k then 0 else win_r w + k\<rparr>) out (p + k)"
    using ring k by (auto simp: win_ring_def win_rel_def)
qed

lemma win_read_loop_step:
  assumes "length copied < n" and "xs = take (n - length copied)
      (take ((if win_w w < win_r w \<or> full \<and> copied = [] then win_size w else win_w w) - win_r w)
        (drop (win_r w) (win_buf w)))" and "xs \<noteq> []"
  shows "win_read_loop w full n copied
    = win_read_loop (w\<lparr>win_r := if win_size w \<le> win_r w + length xs then 0 else win_r w + length xs\<rparr>)
        full n (copied @ xs)"
  by (subst win_read_loop.simps) (simp only: Let_def assms(1) assms(2) [symmetric] assms(3) if_True if_False)

lemma win_read_loop_rel:
  assumes "win_ring w out p" and "n - length copied \<le> length out - p"
    and "(wasFull \<and> copied = []) \<longleftrightarrow> length out - p = win_size w" and "length copied \<le> n"
  shows "\<exists>w'. win_read_loop w wasFull n copied = (copied @ take (n - length copied) (drop p out), w')
     \<and> win_ring w' out (p + (n - length copied)) \<and> win_size w' = win_size w \<and> win_full w' = win_full w"
  using assms
proof (induction w wasFull n copied arbitrary: p rule: win_read_loop.induct)
  case (1 w wasFull n copied)
  show ?case
  proof (cases "length copied < n")
    case False
    then show ?thesis using "1.prems" by (simp add: win_read_loop.simps)
  next
    case True
    let ?s = "win_size w" and ?left = "n - length copied"
    let ?stop = "if win_w w < win_r w \<or> wasFull \<and> copied = [] then ?s else win_w w"
    define k where "k = min ?left (min (length out - p) (?s - win_r w))"
    have u: "p < length out" using True "1.prems"(2) by simp
    have s: "win_r w < ?s" using "1.prems"(1) by (simp add: win_ring_def win_rel_def)
    have k: "k \<le> length out - p" "k \<le> ?s - win_r w" "0 < k" "k \<le> ?left"
      using True u s by (auto simp: k_def)
    note chunk = win_ring_chunk [OF "1.prems"(1) k(1,2)]
    have c: "take ?left (take (?stop - win_r w) (drop (win_r w) (win_buf w))) = take k (drop p out)"
      unfolding win_ring_end [OF "1.prems"(1) u "1.prems"(3)] using chunk(1) by (simp add: k_def)
    have len: "length (take k (drop p out)) = k" using k(1) by simp
    have ne: "take k (drop p out) \<noteq> []" using len k(3) by fastforce
    let ?w1 = "w\<lparr>win_r := if ?s \<le> win_r w + k then 0 else win_r w + k\<rparr>"
    note IH = "1.IH" [OF True refl refl, unfolded c, OF ne refl, unfolded len]
    have "\<exists>w'. win_read_loop ?w1 wasFull n (copied @ take k (drop p out))
        = ((copied @ take k (drop p out)) @ take (n - length (copied @ take k (drop p out))) (drop (p + k) out), w')
      \<and> win_ring w' out (p + k + (n - length (copied @ take k (drop p out)))) \<and> win_size w' = win_size ?w1
      \<and> win_full w' = win_full ?w1"
    proof (rule IH)
      show "win_ring ?w1 out (p + k)" by (rule chunk(2))
      have "length out - p \<le> ?s" using "1.prems"(1) by (simp add: win_ring_def win_rel_def)
      then show "(wasFull \<and> copied @ take k (drop p out) = []) \<longleftrightarrow> length out - (p + k) = win_size ?w1"
        using ne k u by simp
    qed (use "1.prems"(2) k len in auto)
    then obtain w' where w': "win_read_loop ?w1 wasFull n (copied @ take k (drop p out))
        = ((copied @ take k (drop p out)) @ take (n - length (copied @ take k (drop p out))) (drop (p + k) out), w')"
      "win_ring w' out (p + k + (n - length (copied @ take k (drop p out))))"
      "win_size w' = ?s" "win_full w' = win_full w" by auto
    have step: "win_read_loop w wasFull n copied = win_read_loop ?w1 wasFull n (copied @ take k (drop p out))"
      using win_read_loop_step [OF True c [symmetric] ne] by (simp only: len)
    have rest: "n - length (copied @ take k (drop p out)) = ?left - k" using len by simp
    have "take k (drop p out) @ take (?left - k) (drop (p + k) out) = take (k + (?left - k)) (drop p out)"
      by (simp only: take_add drop_drop add.commute [of p k])
    also have "k + (?left - k) = ?left" using k(4) by simp
    finally have "take k (drop p out) @ take (?left - k) (drop (p + k) out) = take ?left (drop p out)" .
    with w'(1) have "win_read_loop w wasFull n copied = (copied @ take ?left (drop p out), w')"
      unfolding step rest by (simp only: append_assoc)
    moreover have "p + k + (?left - k) = p + ?left" using k(4) by simp
    with w'(2) have "win_ring w' out (p + ?left)" by (simp only: rest)
    ultimately show ?thesis using w'(3,4) by blast
  qed
qed

lemma win_Read_rel:
  assumes rel: "win_rel w out p"
  shows "\<exists>w'. win_Read w n = (take n (drop p out), w') \<and> win_rel w' out (min (p + n) (length out))
     \<and> win_size w' = win_size w"
proof -
  let ?s = "win_size w" and ?u = "length out - p"
  have av: "win_Available w = ?u" and p: "p \<le> length out" and s: "0 < ?s" and us: "?u \<le> ?s"
    and full: "win_full w \<longleftrightarrow> ?u = ?s"
    using rel win_Available_rel [OF rel] by (auto simp: win_rel_def)
  show ?thesis
  proof (cases "?u = 0 \<or> n = 0")
    case True
    have "win_Read w n = ([], w)"
    proof (cases "?u = 0")
      case False
      then have "n = 0" using True by simp
      then show ?thesis using False av by (simp add: win_Read_def Let_def win_read_loop.simps)
    qed (simp add: win_Read_def av)
    moreover have "take n (drop p out) = []" "min (p + n) (length out) = p" using True p by auto
    ultimately show ?thesis using rel by simp
  next
    case False
    let ?w0 = "w\<lparr>win_full := False\<rparr>" and ?n = "min n ?u"
    have ring: "win_ring ?w0 out p" using rel by (simp add: win_ring_def win_rel_def)
    have h: "(win_full w \<and> [] = []) \<longleftrightarrow> length out - p = win_size ?w0" using full by simp
    obtain w' where w': "win_read_loop ?w0 (win_full w) ?n [] = ([] @ take (?n - length []) (drop p out), w')"
      "win_ring w' out (p + (?n - length []))" "win_size w' = ?s" "\<not> win_full w'"
      using win_read_loop_rel [OF ring _ h, of ?n] by auto
    have eq: "min (p + n) (length out) = p + ?n" using p by simp
    have "length out - (p + ?n) \<noteq> ?s" using False us s by auto
    then have "win_rel w' out (p + ?n)" using w'(2-4) by (auto simp: win_ring_def win_rel_def)
    moreover have "take ?n (drop p out) = take n (drop p out)" by (simp add: min_def)
    moreover have "win_Read w n = win_read_loop ?w0 (win_full w) ?n []"
      using False av by (simp add: win_Read_def Let_def)
    ultimately show ?thesis using w' eq by simp
  qed
qed

subsection \<open>The window is a sliding window\<close>

interpretation win: sliding_window win_writeByte win_CopyBytes win_Read win_Available win_size win_rel
proof (unfold_locales, goal_cases)
  case (1 w out p c)
  then show ?case using win_writeByte_rel by (simp add: win_writeByte_def)
next
  case 2
  then show ?case by (rule win_CopyBytes_rel)
next
  case 3
  then show ?case by (rule win_CopyBytes_bad)
next
  case 4
  then show ?case by (rule win_Read_rel)
next
  case 5
  then show ?case by (rule win_Available_rel)
qed (simp add: win_rel_def)

subsection \<open>Members\<close>

lemma win_rel_new: "win_rel (newWindow n) [] 0"
  by (simp add: win_rel_def newWindow_def Let_def minWindowSize_def)

lemma win_Reset_rel:
  "win_rel w out p \<Longrightarrow> win_rel (win_Reset w True) out (length out)"
  "length (win_buf w) = win_size w \<Longrightarrow> 0 < win_size w \<Longrightarrow> win_rel (win_Reset w False) [] 0"
  by (auto simp: win_rel_def win_Reset_def)

lemma win_Reset_size [simp]: "win_size (win_Reset w b) = win_size w"
  by (simp add: win_Reset_def Let_def)

lemma win_BeginFile_rel:
  assumes "win_rel w out p" and "win_BeginFile w solid = (None, w')"
  shows "win_rel w' (if solid then out else []) (if solid then length out else 0)" and "win_size w' = win_size w"
proof -
  have len: "length (win_buf w) = win_size w" "0 < win_size w" using assms(1) by (simp_all add: win_rel_def)
  have "win_rel (win_Reset (w\<lparr>win_incomplete := False\<rparr>) False) [] 0"
    by (rule win_Reset_rel(2)) (simp_all add: len)
  then show "win_rel w' (if solid then out else []) (if solid then length out else 0)"
    using assms(2) win_Reset_rel(1) [OF assms(1)] by (auto simp: win_BeginFile_def split: if_splits)
  show "win_size w' = win_size w"
    using assms(2) by (auto simp: win_BeginFile_def split: if_splits)
qed

lemma win_grow_rel:
  assumes "win_rel w out p" and "\<And>buf. reserve want = Inr buf \<Longrightarrow> length buf = want"
    and "win_grow reserve w want = (e, w')"
  shows "case e of
      None \<Rightarrow> want \<le> win_size w' \<and> win_size w \<le> win_size w'
        \<and> (if want \<le> win_size w then w' = w else win_rel w' [] 0)
    | Some x \<Rightarrow> w' = w \<and> reserve want = Inl x"
proof (cases "want \<le> win_size w")
  case False
  show ?thesis
  proof (cases "reserve want")
    case (Inr buf)
    have "win_rel (win_Reset (w\<lparr>win_buf := buf, win_size := want, win_backing := True\<rparr>) False) [] 0"
      using assms(1,2) False Inr by (intro win_Reset_rel(2)) (auto simp: win_rel_def)
    then show ?thesis using assms(3) False Inr by (auto simp: win_grow_def)
  qed (use assms(3) False in \<open>auto simp: win_grow_def\<close>)
qed (use assms(3) in \<open>auto simp: win_grow_def\<close>)

subsection \<open>Properties\<close>

text \<open>C13. A back-reference is the LZ77 copy or is refused: when the distance lies in the history
  written since it was last discarded and the unread bytes leave room, the copy returns and
  the window holds the history extended byte by byte from \<open>d\<close> back (overlaps included),
  however the ring wraps; for any other distance it fails with
  \<^verbatim>\<open>ErrWindowOffsetBounds\<close> and the window is unchanged.\<close>

theorem window_copy_exact:
  assumes "win_rel w out p" and "length out - p + n \<le> win_size w"
  shows "if 0 < d \<and> d \<le> int (min (length out) (win_size w))
     then \<exists>w'. win_CopyBytes w n d = Some (None, w') \<and> win_rel w' (lz_copy (nat d) n out) p
     else win_CopyBytes w n d = Some (Some ErrWindowOffsetBounds, w)"
proof (cases "0 < d \<and> d \<le> int (min (length out) (win_size w))")
  case True
  then show ?thesis using win.copy_rel [OF assms, of d] by auto
next
  case False
  then have "d \<le> 0 \<or> int (min (length out) (win_size w)) < d" by linarith
  then have "win_CopyBytes w n d = Some (Some ErrWindowOffsetBounds, w)" by (rule win.copy_bad [OF assms(1)])
  with False show ?thesis by (simp only: if_False)
qed

definition demo_window :: window where
  "demo_window = \<lparr>win_buf = [0, 0, 0, 0], win_size = 4, win_r = 0, win_w = 0, win_full = False,
     win_backing = False, win_wrapped = False, win_incomplete = False\<rparr>"

lemma demo_window_rel: "win_rel demo_window [] 0"
  by (simp add: win_rel_def demo_window_def)

theorem window_copy_exact_witness:
  "\<exists>w'. win_CopyBytes (win_writeByte (win_writeByte demo_window 7) 8) 2 1 = Some (None, w')
     \<and> win_rel w' [7, 8, 8, 8] 0"
proof -
  have "win_rel (win_writeByte (win_writeByte demo_window 7) 8) [7, 8] 0"
    using win.put_rel [OF demo_window_rel, of 7] win.put_rel [of "win_writeByte demo_window 7" "[7]" 0 8]
    by (simp add: demo_window_def)
  moreover have "win_size (win_writeByte (win_writeByte demo_window 7) 8) = 4"
    by (simp add: win_writeByte_def demo_window_def)
  ultimately show ?thesis
    using window_copy_exact [of "win_writeByte (win_writeByte demo_window 7) 8" "[7, 8]" 0 2 1]
    by (simp add: numeral_2_eq_2)
qed

text \<open>Reading is a queue: it returns the next unread bytes in the order they were written,
  as many as asked for or as there are, across the end of the ring, and removes exactly
  these; the bytes available are exactly those written and not yet read.\<close>

theorem window_read_exact:
  assumes "win_rel w out p"
  shows "win_Available w = length out - p
     \<and> (\<exists>w'. win_Read w n = (take n (drop p out), w') \<and> win_rel w' out (min (p + n) (length out)))"
  using win.avail_rel [OF assms] win.drain_rel [OF assms] by blast

theorem window_read_exact_witness:
  "\<exists>w'. win_Read (win_writeByte (win_writeByte demo_window 7) 8) 5 = ([7, 8], w') \<and> win_Available w' = 0"
proof -
  have rel: "win_rel (win_writeByte (win_writeByte demo_window 7) 8) [7, 8] 0"
    using win.put_rel [OF demo_window_rel, of 7] win.put_rel [of "win_writeByte demo_window 7" "[7]" 0 8]
    by (simp add: demo_window_def)
  obtain w' where w': "win_Read (win_writeByte (win_writeByte demo_window 7) 8) 5 = ([7, 8], w')"
    "win_rel w' [7, 8] (Suc (Suc 0))"
    using window_read_exact [OF rel, of 5] by auto
  then show ?thesis using win.avail_rel [OF w'(2)] by simp
qed

text \<open>A bulk write appends all of its bytes and returns, when the unread bytes leave room.\<close>

theorem window_write_exact:
  assumes "win_rel w out p" and "length out - p + length xs \<le> win_size w"
  shows "\<exists>w'. win_writeBytes w xs = Some w' \<and> win_rel w' (out @ xs) p \<and> win_size w' = win_size w"
  using assms by (rule win_writeBytes_rel)

theorem window_write_exact_witness:
  "\<exists>w'. win_writeBytes demo_window [1, 2, 3] = Some w' \<and> win_rel w' [1, 2, 3] 0"
  using window_write_exact [OF demo_window_rel, of "[1, 2, 3]"] by (auto simp: demo_window_def)

text \<open>C22. A member never sees an unrelated member's bytes: a non-solid member starts on an empty
  history, so that every distance is refused until it has written that many bytes itself, and
  a member that continues a stream damaged earlier is refused without touching the window.\<close>

theorem window_member_isolation:
  assumes "win_rel w out p"
  shows "win_BeginFile w False = (None, win_Reset (w\<lparr>win_incomplete := False\<rparr>) False)
     \<and> win_rel (snd (win_BeginFile w False)) [] 0
     \<and> win_CopyBytes (snd (win_BeginFile w False)) n d = Some (Some ErrWindowOffsetBounds, snd (win_BeginFile w False))
     \<and> win_BeginFile (win_MarkIncomplete w) True = (Some ErrSolidStreamBroken, win_MarkIncomplete w)"
proof -
  obtain w' where w': "win_BeginFile w False = (None, w')" by (simp add: win_BeginFile_def)
  have "win_rel w' [] 0" using win_BeginFile_rel(1) [OF assms w'] by simp
  moreover have "win_CopyBytes w' n d = Some (Some ErrWindowOffsetBounds, w')"
    by (rule win.copy_bad [OF \<open>win_rel w' [] 0\<close>]) (cases "d \<le> 0", simp_all)
  ultimately show ?thesis using w' by (simp add: win_BeginFile_def win_MarkIncomplete_def)
qed

theorem window_member_isolation_witness:
  "win_CopyBytes (snd (win_BeginFile (win_writeByte demo_window 7) False)) 1 1
     = Some (Some ErrWindowOffsetBounds, snd (win_BeginFile (win_writeByte demo_window 7) False))"
proof -
  have "win_rel (win_writeByte demo_window 7) [7] 0"
    using win.put_rel [OF demo_window_rel, of 7] by (simp add: demo_window_def)
  from window_member_isolation [OF this, of 1 1] show ?thesis by blast
qed

end
