(* ===== verification/Filters.thy ===== *)
theory Filters
  imports Interfaces
begin

section \<open>The post-processing filters (filters.go)\<close>

text \<open>
  \<^verbatim>\<open>filterDelta\<close>, \<^verbatim>\<open>filterArm\<close> and \<^verbatim>\<open>filterE8\<close> undo what an encoder did to
  make a block more compressible. The two vector scanners are optional hooks in the code
  (assembly on one platform, absent on the others) and are parameters here. For each filter
  the matching encoder is defined and the round trip is proved; for the two hooks it is
  proved that a hook which keeps its contract changes nothing.
\<close>

subsection \<open>The code\<close>

text \<open>The inner loop of \<^verbatim>\<open>filterDelta\<close>; the caller has checked \<open>0 < n\<close>.\<close>

function delta_inner :: "nat \<Rightarrow> byte list \<Rightarrow> nat \<Rightarrow> byte \<Rightarrow> nat \<Rightarrow> byte list \<Rightarrow> nat \<times> byte list" where
  "delta_inner n buf k c i out =
     (if k < length out \<and> 0 < n
      then let c = c - buf ! i in delta_inner n buf (k + n) c (i + 1) (out[k := c])
      else (i, out))"
  by pat_completeness auto
termination by (relation "measure (\<lambda>(n, buf, k, c, i, out). length out - k)") auto

declare delta_inner.simps [simp del]

fun delta_outer :: "nat \<Rightarrow> byte list \<Rightarrow> nat list \<Rightarrow> nat \<Rightarrow> byte list \<Rightarrow> byte list" where
  "delta_outer n buf [] i out = out"
| "delta_outer n buf (j # js) i out =
     (case delta_inner n buf j 0 i out of (i', out') \<Rightarrow> delta_outer n buf js i' out')"

definition filterDelta :: "int \<Rightarrow> byte list \<Rightarrow> byte list \<Rightarrow> byte list" where
  "filterDelta n buf out =
     (if n \<le> 0 \<or> int (length buf) < n then buf
      else let out = (if length out < length buf then replicate (length buf) 0 else take (length buf) out)
           in delta_outer (nat n) buf [0..<nat n] 0 out)"

text \<open>
  \<^verbatim>\<open>filterArm\<close>: the branch offsets of the four-byte instructions from \<open>i\<close> on. The
  suffix still to do is the argument; what is before it is not touched again.
\<close>

definition arm_word :: "byte \<Rightarrow> byte \<Rightarrow> byte \<Rightarrow> u64" where
  "arm_word a b c = ucast a + ucast b * 0x100 + ucast c * 0x10000"

fun arm_loop :: "u64 \<Rightarrow> byte list \<Rightarrow> u64 \<Rightarrow> byte list" where
  "arm_loop offset (a # b # c # d # rest) i =
     (if d = 0xeb
      then let n = arm_word a b c - (offset + i) div 4
           in ucast n # ucast (drop_bit 8 n) # ucast (drop_bit 16 n) # d # arm_loop offset rest (i + 4)
      else a # b # c # d # arm_loop offset rest (i + 4))"
| "arm_loop offset buf i = buf"

text \<open>The hook takes the buffer and returns it with the bytes before \<open>start\<close> done.\<close>

definition filterArm :: "(byte list \<Rightarrow> int \<Rightarrow> byte list \<times> nat) option \<Rightarrow> byte list \<Rightarrow> int \<Rightarrow> byte list" where
  "filterArm simd buf offset =
     (case (case simd of Some f \<Rightarrow> if 32 \<le> length buf then f buf offset else (buf, 0) | None \<Rightarrow> (buf, 0)) of
        (buf', start) \<Rightarrow>
          take start buf' @ arm_loop (word_of_int offset) (drop start buf') (word_of_nat start))"

definition fileSize :: u32 where "fileSize = 0x1000000"

text \<open>The rewritten operand of a call at position \<open>cur\<close>.\<close>

definition e8_addr :: "u32 \<Rightarrow> u32 \<Rightarrow> u32" where
  "e8_addr cur addr =
     (if addr AND 0x80000000 \<noteq> 0
      then if (addr + cur) AND 0x80000000 = 0 then addr + fileSize else addr
      else if addr < fileSize then addr - cur else addr)"

text \<open>
  \<^verbatim>\<open>filterE8\<close>: \<open>b\<close> is the code's slice; the bytes it has moved past are the front of the
  result. \<open>e8_skip\<close> is what the scanner lets the loop step over.
\<close>

definition e8_skip :: "(byte list \<Rightarrow> byte \<Rightarrow> int) option \<Rightarrow> byte \<Rightarrow> byte list \<Rightarrow> nat" where
  "e8_skip scan c b =
     (case scan of
        None \<Rightarrow> 0
      | Some f \<Rightarrow>
          if 32 \<le> length b
          then let idx = f b c
               in if 0 < idx then (if int (length b) - 5 < idx then length b else nat idx) else 0
          else 0)"

function e8_loop :: "(byte list \<Rightarrow> byte \<Rightarrow> int) option \<Rightarrow> byte \<Rightarrow> byte list \<Rightarrow> u32 \<Rightarrow> byte list" where
  "e8_loop scan c b off =
     (if length b < 5 then b
      else let k = e8_skip scan c b;
               off1 = off + word_of_nat k;
               b1 = drop k b
           in if length b1 < 5 then b
              else let ch = hd b1; b2 = tl b1; off2 = off1 + 1
                   in if ch \<noteq> 0xe8 \<and> ch \<noteq> c
                      then take k b @ ch # e8_loop scan c b2 off2
                      else take k b @ ch # put_le32 (e8_addr (off2 mod fileSize) (le32 b2))
                             @ e8_loop scan c (drop 4 b2) (off2 + 4))"
  by pat_completeness auto
termination by (relation "measure (\<lambda>(scan, c, b, off). length b)") auto

declare e8_loop.simps [simp del]

definition filterE8 :: "(byte list \<Rightarrow> byte \<Rightarrow> int) option \<Rightarrow> byte \<Rightarrow> byte list \<Rightarrow> int \<Rightarrow> byte list" where
  "filterE8 scan c buf offset = e8_loop scan c buf (word_of_int offset)"

subsection \<open>The delta filter\<close>

text \<open>The encoder: channel after channel, each byte as the difference from the one before.\<close>

function delta_chan :: "nat \<Rightarrow> nat \<Rightarrow> byte \<Rightarrow> byte list \<Rightarrow> byte list" where
  "delta_chan n k prev data =
     (if k < length data \<and> 0 < n then (prev - data ! k) # delta_chan n (k + n) (data ! k) data else [])"
  by pat_completeness auto
termination by (relation "measure (\<lambda>(n, k, prev, data). length data - k)") auto

declare delta_chan.simps [simp del]

definition delta_encode :: "nat \<Rightarrow> byte list \<Rightarrow> byte list" where
  "delta_encode n data = concat (map (\<lambda>j. delta_chan n j 0 data) [0..<n])"

lemma delta_inner_length: "delta_inner n buf k c i out = (i', out') \<Longrightarrow> length out' = length out"
proof (induction n buf k c i out arbitrary: i' out' rule: delta_inner.induct)
  case (1 n buf k c i out)
  show ?case using "1.prems" "1.IH" [OF _ refl]
    by (subst (asm) delta_inner.simps) (auto simp: Let_def split: if_splits)
qed

lemma delta_outer_length: "length (delta_outer n buf js i out) = length out"
  by (induction n buf js i out rule: delta_outer.induct) (auto split: prod.splits dest: delta_inner_length)

lemma mod_step: "x mod n = k mod n \<Longrightarrow> 0 < n \<Longrightarrow> k + n \<le> x \<longleftrightarrow> k \<le> x \<and> x \<noteq> (k :: nat)"
proof
  assume a: "x mod n = k mod n" "0 < n" "k \<le> x \<and> x \<noteq> k"
  then have "n dvd x - k" by (metis mod_eq_dvd_iff_nat)
  with a(3) have "n \<le> x - k" by (intro dvd_imp_le) auto
  with a(3) show "k + n \<le> x" by linarith
qed auto

lemma delta_inner_chan:
  assumes "drop i buf = delta_chan n k c data @ rest" and "length out = length data" and "0 < n"
  shows "\<exists>i' out'. delta_inner n buf k c i out = (i', out') \<and> drop i' buf = rest \<and> length out' = length data
     \<and> (\<forall>x < length data. out' ! x = (if k \<le> x \<and> x mod n = k mod n then data ! x else out ! x))"
  using assms
proof (induction n k c data arbitrary: i out rule: delta_chan.induct)
  case (1 n k c data)
  show ?case
  proof (cases "k < length data")
    case False
    then show ?thesis
      using "1.prems" by (subst delta_inner.simps) (auto simp: delta_chan.simps)
  next
    case True
    have chan: "drop i buf = (c - data ! k) # (delta_chan n (k + n) (data ! k) data @ rest)"
      using "1.prems"(1,3) True by (subst (asm) delta_chan.simps) simp
    have "i < length buf" using chan by (metis drop_eq_Nil linorder_not_le list.distinct(1))
    then have b: "buf ! i = c - data ! k" and d: "drop (i + 1) buf = delta_chan n (k + n) (data ! k) data @ rest"
      using chan by (simp_all add: Cons_nth_drop_Suc [symmetric])
    have new: "c - buf ! i = data ! k" by (simp add: b)
    obtain i' out' where IH: "delta_inner n buf (k + n) (data ! k) (i + 1) (out[k := data ! k]) = (i', out')"
      "drop i' buf = rest" "length out' = length data"
      "\<forall>x < length data. out' ! x = (if k + n \<le> x \<and> x mod n = (k + n) mod n then data ! x
         else out[k := data ! k] ! x)"
      using "1.IH" [OF _ d] True "1.prems"(2,3) by (metis length_list_update)
    have "out' ! x = (if k \<le> x \<and> x mod n = k mod n then data ! x else out ! x)" if x: "x < length data" for x
    proof (cases "x = k")
      case True
      then show ?thesis using IH(4) x "1.prems"(2,3) by simp
    next
      case False
      have "k + n \<le> x \<longleftrightarrow> k \<le> x" if "x mod n = k mod n"
        using mod_step [OF that "1.prems"(3)] False by simp
      then show ?thesis using IH(4) x False by auto
    qed
    moreover have "delta_inner n buf k c i out = (i', out')"
      using True "1.prems"(2,3) IH(1) by (subst delta_inner.simps) (simp add: Let_def new)
    ultimately show ?thesis using IH(2,3) by blast
  qed
qed

lemma delta_outer_chans:
  assumes "drop i buf = concat (map (\<lambda>j. delta_chan n j 0 data) js)" and "length out = length data"
    and "\<forall>j \<in> set js. j < n" and "x < length data"
  shows "delta_outer n buf js i out ! x = (if x mod n \<in> set js then data ! x else out ! x)"
  using assms
proof (induction js arbitrary: i out)
  case (Cons j js)
  have n: "0 < n" "j < n" using Cons.prems(3) by auto
  have "drop i buf = delta_chan n j 0 data @ concat (map (\<lambda>j. delta_chan n j 0 data) js)"
    using Cons.prems(1) by simp
  then obtain i' out' where step: "delta_inner n buf j 0 i out = (i', out')"
    "drop i' buf = concat (map (\<lambda>j. delta_chan n j 0 data) js)" "length out' = length data"
    "\<forall>x < length data. out' ! x = (if j \<le> x \<and> x mod n = j mod n then data ! x else out ! x)"
    using delta_inner_chan [OF _ Cons.prems(2) n(1)] by metis
  have "j \<le> x \<and> x mod n = j mod n \<longleftrightarrow> x mod n = j" using n by auto
  then show ?case using Cons.IH [OF step(2,3)] Cons.prems(3,4) step(1,4) by simp
qed simp

lemma filterDelta_encode:
  assumes "0 < n" and "n \<le> length data" and "length (delta_encode n data) = length data"
  shows "filterDelta (int n) (delta_encode n data) out = data"
proof -
  define o0 where "o0 = (if length out < length data then replicate (length data) 0 else take (length data) out)"
  have len: "length o0 = length data" by (simp add: o0_def)
  have "delta_outer n (delta_encode n data) [0..<n] 0 o0 ! x = data ! x" if "x < length data" for x
    using delta_outer_chans [of 0 "delta_encode n data" n data "[0..<n]" o0 x] that assms(1) len
    by (simp add: delta_encode_def)
  then have "delta_outer n (delta_encode n data) [0..<n] 0 o0 = data"
    by (intro nth_equalityI) (simp_all add: delta_outer_length len)
  moreover have "filterDelta (int n) (delta_encode n data) out = delta_outer n (delta_encode n data) [0..<n] 0 o0"
    using assms(1-3) by (simp add: filterDelta_def o0_def Let_def)
  ultimately show ?thesis by simp
qed

lemma delta_chan_length:
  "j < n \<Longrightarrow> k mod n = j \<Longrightarrow> length (delta_chan n k prev data) = card {x. k \<le> x \<and> x < length data \<and> x mod n = j}"
proof (induction n k prev data rule: delta_chan.induct)
  case (1 n k prev data)
  show ?case
  proof (cases "k < length data \<and> 0 < n")
    case True
    have "k + n \<le> x \<longleftrightarrow> k \<le> x \<and> x \<noteq> k" if "x mod n = k mod n" for x
      using mod_step [OF that] True by simp
    then have "{x. k \<le> x \<and> x < length data \<and> x mod n = j}
        = insert k {x. k + n \<le> x \<and> x < length data \<and> x mod n = j}"
      using True "1.prems" by auto
    moreover have "k \<notin> {x. k + n \<le> x \<and> x < length data \<and> x mod n = j}" using True by simp
    moreover have "finite {x. k + n \<le> x \<and> x < length data \<and> x mod n = j}" by simp
    ultimately show ?thesis using "1.IH" [OF True] "1.prems" True by (subst delta_chan.simps) simp
  qed (use "1.prems" in \<open>auto simp: delta_chan.simps\<close>)
qed

lemma delta_encode_length: "0 < n \<Longrightarrow> length (delta_encode n data) = length data"
proof -
  assume n: "0 < n"
  have "length (delta_encode n data) = (\<Sum>j \<leftarrow> [0..<n]. card {x. x < length data \<and> x mod n = j})"
    unfolding delta_encode_def length_concat map_map comp_def
  proof (intro arg_cong [of _ _ sum_list] map_cong refl)
    fix j assume j: "j \<in> set [0..<n]"
    have "j \<le> x" if "x mod n = j" for x using that mod_less_eq_dividend [of x n] by simp
    then have "{x. j \<le> x \<and> x < length data \<and> x mod n = j} = {x. x < length data \<and> x mod n = j}" by auto
    then show "length (delta_chan n j 0 data) = card {x. x < length data \<and> x mod n = j}"
      using delta_chan_length [of j n j 0 data] j by simp
  qed
  also have "\<dots> = (\<Sum>j < n. card {x. x < length data \<and> x mod n = j})"
    by (simp add: interv_sum_list_conv_sum_set_nat atLeast0LessThan)
  also have "\<dots> = card (\<Union>j < n. {x. x < length data \<and> x mod n = j})"
    by (rule card_UN_disjoint [symmetric]) auto
  also have "(\<Union>j < n. {x. x < length data \<and> x mod n = j}) = {..<length data}" using n by auto
  finally show ?thesis by simp
qed

subsection \<open>The ARM filter\<close>

fun arm_encode :: "u64 \<Rightarrow> byte list \<Rightarrow> u64 \<Rightarrow> byte list" where
  "arm_encode offset (a # b # c # d # rest) i =
     (if d = 0xeb
      then let n = arm_word a b c + (offset + i) div 4
           in ucast n # ucast (drop_bit 8 n) # ucast (drop_bit 16 n) # d # arm_encode offset rest (i + 4)
      else a # b # c # d # arm_encode offset rest (i + 4))"
| "arm_encode offset buf i = buf"

lemma arm_word_bits: "arm_word a b c = ucast a OR (push_bit 8 (ucast b) OR push_bit 16 (ucast c))"
proof -
  have s: "x * 0x100 = push_bit 8 x" "x * 0x10000 = push_bit 16 x" for x :: u64
    by (simp_all add: push_bit_eq_mult)
  have d1: "(ucast a :: u64) + push_bit 8 (ucast b) = ucast a OR push_bit 8 (ucast b)"
    by (rule disjunctive_add) (auto simp: bit_simps dest: bit_imp_le_length)
  have d2: "(ucast a OR push_bit 8 (ucast b) :: u64) + push_bit 16 (ucast c)
      = (ucast a OR push_bit 8 (ucast b)) OR push_bit 16 (ucast c)"
    by (rule disjunctive_add) (auto simp: bit_simps dest: bit_imp_le_length)
  show ?thesis unfolding arm_word_def s d1 d2 by (simp only: or.assoc)
qed

lemma arm_word_bytes: "arm_word (ucast n) (ucast (drop_bit 8 n)) (ucast (drop_bit 16 n)) = take_bit 24 n"
  unfolding arm_word_bits
proof (rule bit_word_eqI)
  fix k assume "k < LENGTH(64)"
  then show "bit (ucast (ucast n :: byte) OR (push_bit 8 (ucast (ucast (drop_bit 8 n) :: byte))
      OR push_bit 16 (ucast (ucast (drop_bit 16 n) :: byte))) :: u64) k = bit (take_bit 24 n) k"
    by (cases "k < 8"; cases "k < 16"; cases "k < 24") (auto simp: bit_simps)
qed

lemma byte_no_high_bit [simp]: "\<not> bit (b :: byte) (8 + n)" "\<not> bit (b :: byte) (16 + n)"
  by (auto dest: bit_imp_le_length)

lemma arm_word_split:
  "(ucast (arm_word a b c) :: byte) = a" "(ucast (drop_bit 8 (arm_word a b c)) :: byte) = b"
  "(ucast (drop_bit 16 (arm_word a b c)) :: byte) = c"
  unfolding arm_word_bits
  by (rule bit_word_eqI; auto simp: bit_simps)
    (rule bit_word_eqI; auto simp: bit_simps)+

lemma arm_bytes_take_bit:
  "(ucast (take_bit 24 m) :: byte) = ucast (m :: u64)"
  "(ucast (drop_bit 8 (take_bit 24 m)) :: byte) = ucast (drop_bit 8 m)"
  "(ucast (drop_bit 16 (take_bit 24 m)) :: byte) = ucast (drop_bit 16 m)"
  by (rule bit_word_eqI, auto simp: bit_simps)+

lemma arm_word_sub:
  "(ucast (take_bit 24 (w + p) - p) :: byte) = ucast (w :: u64)"
  "(ucast (drop_bit 8 (take_bit 24 (w + p) - p)) :: byte) = ucast (drop_bit 8 w)"
  "(ucast (drop_bit 16 (take_bit 24 (w + p) - p)) :: byte) = ucast (drop_bit 16 w)"
proof -
  have d: "(x mod 18446744073709551616) mod 16777216 = x mod 16777216" for x :: int
    by (rule mod_mod_cancel) simp
  have "take_bit 24 (take_bit 24 (w + p) - p) = take_bit 24 ((w + p) - p)"
    unfolding word_uint_eq_iff unsigned_take_bit_eq uint_word_arith_bintrs
    by (simp add: take_bit_eq_mod d mod_diff_left_eq del: take_bit_diff)
  then have e: "take_bit 24 (take_bit 24 (w + p) - p) = take_bit 24 w" by simp
  show "(ucast (take_bit 24 (w + p) - p) :: byte) = ucast w"
    using arm_bytes_take_bit(1) [of "take_bit 24 (w + p) - p"] arm_bytes_take_bit(1) [of w] e by simp
  show "(ucast (drop_bit 8 (take_bit 24 (w + p) - p)) :: byte) = ucast (drop_bit 8 w)"
    using arm_bytes_take_bit(2) [of "take_bit 24 (w + p) - p"] arm_bytes_take_bit(2) [of w] e by simp
  show "(ucast (drop_bit 16 (take_bit 24 (w + p) - p)) :: byte) = ucast (drop_bit 16 w)"
    using arm_bytes_take_bit(3) [of "take_bit 24 (w + p) - p"] arm_bytes_take_bit(3) [of w] e by simp
qed

lemma arm_loop_encode: "arm_loop offset (arm_encode offset buf i) i = buf"
  by (induction offset buf i rule: arm_encode.induct)
    (simp_all add: Let_def arm_word_bytes arm_word_sub arm_word_split)

lemma arm_loop_length [simp]: "length (arm_loop offset buf i) = length buf"
  by (induction offset buf i rule: arm_loop.induct) (simp_all add: Let_def)

lemma arm_encode_length [simp]: "length (arm_encode offset buf i) = length buf"
  by (induction offset buf i rule: arm_encode.induct) (simp_all add: Let_def)

lemma arm_loop_append:
  "length xs mod 4 = 0 \<Longrightarrow> arm_loop offset (xs @ ys) i = arm_loop offset xs i @ arm_loop offset ys (i + of_nat (length xs))"
proof (induction offset xs i rule: arm_loop.induct)
  case (1 offset a b c d rest i)
  then have "length rest mod 4 = 0" by simp
  moreover have "i + 4 + of_nat (length rest) = i + of_nat (length (a # b # c # d # rest))" by simp
  ultimately show ?case using 1 by (simp add: Let_def add.assoc)
qed (simp_all add: mod_eq_0_iff_dvd)

subsection \<open>The E8 filter\<close>

text \<open>The encoder's operand: the relative target made absolute, when the result tells the two apart.\<close>

definition e8_enc_addr :: "u32 \<Rightarrow> u32 \<Rightarrow> u32" where
  "e8_enc_addr cur v =
     (if v + cur < fileSize then v + cur
      else if v < fileSize then v - fileSize else v)"

lemma sign_bit_u32: "(w :: u32) AND 0x80000000 = 0 \<longleftrightarrow> unat w < 0x80000000"
proof -
  have "(0x80000000 :: u32) = push_bit 31 1" by (simp add: push_bit_of_1)
  then have "w AND 0x80000000 = 0 \<longleftrightarrow> \<not> bit w 31"
    using and_exp_eq_0_iff_not_bit [of w 31] by (simp add: push_bit_of_1)
  also have "\<dots> \<longleftrightarrow> unat w div 2 ^ 31 = 0"
  proof -
    have "unat w < 2 * 2 ^ 31" using unsigned_less [of w] by simp
    then have "unat w div 2 ^ 31 < 2" by (rule less_mult_imp_div_less)
    then show ?thesis unfolding bit_iff_odd_unat by (auto simp: less_2_cases_iff)
  qed
  also have "\<dots> \<longleftrightarrow> unat w < 0x80000000" by (simp add: div_eq_0_iff)
  finally show ?thesis .
qed

lemma e8_addr_enc:
  assumes "cur < fileSize"
  shows "e8_addr cur (e8_enc_addr cur v) = v"
proof -
  define a where "a = e8_enc_addr cur v"
  have c: "unat cur < 16777216" using assms by (simp add: fileSize_def word_less_nat_alt)
  have v: "unat v < 4294967296" using unsigned_less [of v] by simp
  have add: "unat (x + y) = (unat x + unat y) mod 4294967296" for x y :: u32 by (simp add: unat_word_ariths)
  have sub: "unat (x - fileSize) = (if unat x < 16777216 then unat x + 4278190080 else unat x - 16777216)" for x
    by (simp add: fileSize_def unat_sub_if')
  consider (abs) "unat v + unat cur < 16777216 \<or> 4294967296 \<le> unat v + unat cur"
    | (far) "16777216 \<le> unat v + unat cur" "unat v < 16777216"
    | (other) "16777216 \<le> unat v + unat cur" "unat v + unat cur < 4294967296" "16777216 \<le> unat v"
    by linarith
  then show ?thesis
  proof cases
    case abs
    then have s: "unat (v + cur) < 16777216" using c v by (auto simp: add mod_if)
    then have "a = v + cur" by (simp add: a_def e8_enc_addr_def fileSize_def word_less_nat_alt)
    moreover have "(v + cur) AND 0x80000000 = 0" using s by (simp add: sign_bit_u32)
    ultimately show ?thesis
      using s by (simp add: e8_addr_def a_def [symmetric] fileSize_def word_less_nat_alt)
  next
    case far
    then have "\<not> unat (v + cur) < 16777216" using c by (simp add: add)
    then have a: "a = v - fileSize" using far by (simp add: a_def e8_enc_addr_def fileSize_def word_less_nat_alt)
    then have ua: "unat a = unat v + 4278190080" using sub [of v] far by simp
    then have "a AND 0x80000000 \<noteq> 0" by (simp add: sign_bit_u32)
    moreover have "unat v + 4278190080 + unat cur = (unat v + unat cur - 16777216) + 4294967296"
      using far by linarith
    then have "unat (a + cur) = (unat v + unat cur - 16777216) mod 4294967296"
      unfolding add ua by (simp only: mod_add_self2)
    then have "unat (a + cur) < 2147483648" using far c by simp
    then have "(a + cur) AND 0x80000000 = 0" by (simp add: sign_bit_u32)
    ultimately show ?thesis using a by (simp add: e8_addr_def a_def [symmetric])
  next
    case other
    then have "\<not> unat (v + cur) < 16777216" by (simp add: add)
    then have a: "a = v" using other by (simp add: a_def e8_enc_addr_def fileSize_def word_less_nat_alt)
    show ?thesis
    proof (cases "unat v < 2147483648")
      case True
      then show ?thesis using a other
        by (simp add: e8_addr_def a_def [symmetric] sign_bit_u32 fileSize_def word_less_nat_alt)
    next
      case False
      then have "(v + cur) AND 0x80000000 \<noteq> 0" using other by (simp add: sign_bit_u32 add)
      then show ?thesis using a False by (simp add: e8_addr_def a_def [symmetric] sign_bit_u32)
    qed
  qed
qed

function e8_encode :: "byte \<Rightarrow> byte list \<Rightarrow> u32 \<Rightarrow> byte list" where
  "e8_encode c b off =
     (if length b < 5 then b
      else let ch = hd b; b2 = tl b; off2 = off + 1
           in if ch \<noteq> 0xe8 \<and> ch \<noteq> c then ch # e8_encode c b2 off2
              else ch # put_le32 (e8_enc_addr (off2 mod fileSize) (le32 b2)) @ e8_encode c (drop 4 b2) (off2 + 4))"
  by pat_completeness auto
termination by (relation "measure (\<lambda>(c, b, off). length b)") auto

declare e8_encode.simps [simp del]

lemma e8_encode_length [simp]: "length (e8_encode c b off) = length b"
proof (induction c b off rule: e8_encode.induct)
  case (1 c b off)
  then show ?case by (subst e8_encode.simps) (auto simp: Let_def)
qed

lemma e8_loop_None:
  "e8_loop None c b off =
     (if length b < 5 then b
      else if hd b \<noteq> 0xe8 \<and> hd b \<noteq> c then hd b # e8_loop None c (tl b) (off + 1)
      else hd b # put_le32 (e8_addr ((off + 1) mod fileSize) (le32 (tl b)))
             @ e8_loop None c (drop 4 (tl b)) (off + 1 + 4))"
  by (subst e8_loop.simps) (simp add: e8_skip_def Let_def)

lemma e8_loop_short [simp]: "length b < 5 \<Longrightarrow> e8_loop scan c b off = b"
  by (simp add: e8_loop.simps)

lemma mod_fileSize_less: "x mod fileSize < fileSize"
  by (rule word_mod_less_divisor) (simp add: fileSize_def word_less_nat_alt)

lemma e8_loop_encode: "e8_loop None c (e8_encode c b off) off = b"
proof (induction c b off rule: e8_encode.induct)
  case (1 c b off)
  show ?case
  proof (cases "length b < 5")
    case True
    then show ?thesis by (simp add: e8_encode.simps e8_loop_None)
  next
    case False
    then have b: "b = hd b # tl b" "4 \<le> length (tl b)" by (cases b; simp)+
    show ?thesis
    proof (cases "hd b \<noteq> 0xe8 \<and> hd b \<noteq> c")
      case True
      then show ?thesis
        using False b "1.IH"(1) [OF False refl refl refl True]
        by (subst e8_encode.simps) (simp add: Let_def e8_loop_None [of c "hd b # _"])
    next
      case op: False
      let ?cur = "(off + 1) mod fileSize"
      have "e8_encode c b off
          = hd b # put_le32 (e8_enc_addr ?cur (le32 (tl b))) @ e8_encode c (drop 4 (tl b)) (off + 1 + 4)"
        using False op by (subst e8_encode.simps) (auto simp: Let_def)
      moreover have "e8_loop None c (hd b # put_le32 (e8_enc_addr ?cur (le32 (tl b))) @ e8_encode c (drop 4 (tl b)) (off + 1 + 4)) off
          = hd b # put_le32 (le32 (tl b)) @ drop 4 (tl b)"
        using op "1.IH"(2) [OF False refl refl refl op]
        by (subst e8_loop_None) (auto simp: e8_addr_enc [OF mod_fileSize_less])
      ultimately show ?thesis using b by (simp add: put_le32_le32)
    qed
  qed
qed

lemma e8_loop_length [simp]: "length (e8_loop None c b off) = length b"
proof (induction c b off rule: e8_encode.induct)
  case (1 c b off)
  then show ?case by (subst e8_loop_None) (auto simp: Let_def)
qed

text \<open>Bytes that are no opcode are stepped over one by one, or all at once.\<close>

lemma e8_loop_step_over:
  assumes "\<forall>j < k. b ! j \<noteq> 0xe8 \<and> b ! j \<noteq> c" and "k \<le> length b"
  shows "e8_loop None c b off = take k b @ e8_loop None c (drop k b) (off + word_of_nat k)"
  using assms
proof (induction k arbitrary: b off)
  case (Suc k)
  then obtain x b' where b: "b = x # b'" by (cases b) auto
  show ?case
  proof (cases "length b < 5")
    case True
    then show ?thesis by simp
  next
    case False
    have x: "x \<noteq> 0xe8 \<and> x \<noteq> c" using Suc.prems(1) b by force
    have "\<forall>j < k. b' ! j \<noteq> 0xe8 \<and> b' ! j \<noteq> c" using Suc.prems(1) b by (metis Suc_less_eq nth_Cons_Suc)
    moreover have "k \<le> length b'" using Suc.prems(2) b by simp
    ultimately have "e8_loop None c b' (off + 1) = take k b' @ e8_loop None c (drop k b') (off + 1 + word_of_nat k)"
      by (rule Suc.IH)
    then show ?thesis using False x b by (subst e8_loop_None) (simp add: add.assoc)
  qed
qed simp

text \<open>
  A scanner keeps its contract when a positive answer is a position of the buffer with no
  opcode before it.
\<close>

definition scan_ok :: "(byte list \<Rightarrow> byte \<Rightarrow> int) \<Rightarrow> byte \<Rightarrow> bool" where
  "scan_ok f c \<longleftrightarrow> (\<forall>b. 32 \<le> length b \<longrightarrow> 0 < f b c \<longrightarrow>
     f b c \<le> int (length b) \<and> (\<forall>j < nat (f b c). b ! j \<noteq> 0xe8 \<and> b ! j \<noteq> c))"

lemma e8_skip_step:
  assumes "scan_ok f c" and "5 \<le> length b"
  shows "e8_loop None c b off = (let k = e8_skip (Some f) c b in take k b
     @ e8_loop None c (drop k b) (off + word_of_nat k))"
proof (cases "32 \<le> length b \<and> 0 < f b c")
  case False
  then show ?thesis by (auto simp: e8_skip_def Let_def)
next
  case True
  then have f: "f b c \<le> int (length b)" "\<forall>j < nat (f b c). b ! j \<noteq> 0xe8 \<and> b ! j \<noteq> c"
    using assms(1) by (simp_all add: scan_ok_def)
  then have over: "e8_loop None c b off
      = take (nat (f b c)) b @ e8_loop None c (drop (nat (f b c)) b) (off + word_of_nat (nat (f b c)))"
    by (intro e8_loop_step_over) auto
  show ?thesis
  proof (cases "int (length b) - 5 < f b c")
    case False
    then show ?thesis using True over by (simp add: e8_skip_def Let_def)
  next
    case short: True
    then have "length (drop (nat (f b c)) b) < 5" using True by simp
    then have "e8_loop None c b off = b" using over by simp
    then show ?thesis using True short by (simp add: e8_skip_def Let_def)
  qed
qed

lemma e8_loop_scan: "scan_ok f c \<Longrightarrow> e8_loop (Some f) c b off = e8_loop None c b off"
proof (induction "Some f" c b off rule: e8_loop.induct)
  case (1 c b off)
  show ?case
  proof (cases "length b < 5")
    case True
    then show ?thesis by (simp add: e8_loop.simps)
  next
    case False
    define k where "k = e8_skip (Some f) c b"
    have step: "e8_loop None c b off = take k b @ e8_loop None c (drop k b) (off + word_of_nat k)"
      using e8_skip_step [OF "1.prems"] False by (simp add: k_def Let_def)
    show ?thesis
    proof (cases "length (drop k b) < 5")
      case True
      then show ?thesis
        using False step by (subst e8_loop.simps) (simp add: k_def [symmetric] Let_def e8_loop_None)
    next
      case long: False
      note IH = "1.hyps" [OF False k_def refl refl long refl refl refl]
      let ?b = "drop k b" and ?off = "off + word_of_nat k"
      show ?thesis
      proof (cases "hd ?b \<noteq> 0xe8 \<and> hd ?b \<noteq> c")
        case True
        then have "e8_loop (Some f) c b off = take k b @ hd ?b # e8_loop (Some f) c (tl ?b) (?off + 1)"
          using False long by (subst e8_loop.simps) (simp add: k_def [symmetric] Let_def)
        moreover have "e8_loop None c ?b ?off = hd ?b # e8_loop None c (tl ?b) (?off + 1)"
          using True long by (subst e8_loop_None) simp
        ultimately show ?thesis using IH(1) [OF True "1.prems"] step by simp
      next
        case op: False
        let ?new = "put_le32 (e8_addr ((?off + 1) mod fileSize) (le32 (tl ?b)))"
        have "e8_loop (Some f) c b off
            = take k b @ hd ?b # ?new @ e8_loop (Some f) c (drop 4 (tl ?b)) (?off + 1 + 4)"
          using False long op by (subst e8_loop.simps) (simp only: k_def [symmetric] Let_def if_False)
        moreover have "e8_loop None c ?b ?off = hd ?b # ?new @ e8_loop None c (drop 4 (tl ?b)) (?off + 1 + 4)"
          using op long by (subst e8_loop_None) (simp only: if_False)
        ultimately show ?thesis using IH(2) [OF op "1.prems"] step by simp
      qed
    qed
  qed
qed

text \<open>The position counts modulo \<open>2 ^ 24\<close> only, so narrowing it to 32 bits loses nothing.\<close>

lemma mod_fileSize_cong:
  "unat x mod 16777216 = unat y mod 16777216 \<Longrightarrow> (x :: u32) mod fileSize = y mod fileSize"
  by (simp add: word_unat_eq_iff unat_mod fileSize_def)

lemma unat_add_mod24:
  "unat (x :: u32) mod 16777216 = unat y mod 16777216 \<Longrightarrow> unat (x + k) mod 16777216 = unat (y + k) mod 16777216"
proof -
  assume a: "unat x mod 16777216 = unat y mod 16777216"
  have m: "n mod 4294967296 mod 16777216 = n mod (16777216 :: nat)" for n by (rule mod_mod_cancel) simp
  have "(unat x + unat k) mod 16777216 = (unat y + unat k) mod 16777216"
    using a by (metis mod_add_left_eq)
  then show ?thesis by (simp add: unat_word_ariths m)
qed

lemma e8_loop_position:
  "unat off mod 16777216 = unat off' mod 16777216 \<Longrightarrow> e8_loop None c b off = e8_loop None c b off'"
proof (induction c b off arbitrary: off' rule: e8_encode.induct)
  case (1 c b off)
  show ?case
  proof (cases "length b < 5")
    case False
    have p1: "unat (off + 1) mod 16777216 = unat (off' + 1) mod 16777216"
      by (rule unat_add_mod24 [OF "1.prems"])
    note p5 = unat_add_mod24 [OF p1, of 4]
    show ?thesis
    proof (cases "hd b \<noteq> 0xe8 \<and> hd b \<noteq> c")
      case True
      show ?thesis
        using False True "1.IH"(1) [OF False refl refl refl True p1]
        by (simp add: e8_loop_None [of c b])
    next
      case op: False
      have "e8_loop None c (drop 4 (tl b)) (off + 1 + 4) = e8_loop None c (drop 4 (tl b)) (off' + 1 + 4)"
        by (rule "1.IH"(2) [OF False refl refl refl op p5])
      with False op mod_fileSize_cong [OF p1] show ?thesis
        unfolding e8_loop_None [of c b off] e8_loop_None [of c b off'] by (simp only: if_False)
    qed
  qed simp
qed

subsection \<open>Properties\<close>

text \<open>C29. The delta filter inverts the delta encoder: for every number of channels a filter record
  can hold that does not exceed the block, decoding the channel-by-channel differences gives
  the block back, whatever the output buffer held before.\<close>

theorem filterDelta_inverts:
  assumes "0 < n" and "n \<le> length data"
  shows "filterDelta (int n) (delta_encode n data) out = data"
  by (rule filterDelta_encode [OF assms delta_encode_length [OF assms(1)]])

theorem filterDelta_inverts_witness:
  "filterDelta (int 2) (delta_encode 2 [10, 20, 13, 25, 9]) [] = [10, 20, 13, 25, 9]"
  by (rule filterDelta_inverts) simp_all

text \<open>C28. The E8 filter inverts the E8 encoder for every opcode byte, block and position, the
  wrap-around of the 32-bit position and the two kinds of operand included.\<close>

theorem filterE8_inverts:
  "filterE8 None c (e8_encode c data (word_of_int offset)) offset = data"
  by (simp add: filterE8_def e8_loop_encode)

text \<open>The 64-bit output position matters only modulo \<open>2 ^ 24\<close>: narrowing it to an unsigned 32-bit
  counter, which wraps after 4 GiB, never changes what the E8 filter produces.\<close>

theorem filterE8_position:
  "filterE8 None c buf offset = filterE8 None c buf (offset mod 2 ^ 24)"
proof -
  have u: "unat (word_of_int z :: u32) mod 16777216 = nat (z mod 16777216)" for z :: int
  proof -
    have "z mod 4294967296 mod 16777216 = z mod 16777216" by (rule mod_mod_cancel) simp
    moreover have "unat (word_of_int z :: u32) = nat (z mod 4294967296)"
      by (simp add: unat_eq_nat_uint uint_word_of_int)
    moreover have "nat (z mod 4294967296) mod 16777216 = nat (z mod 4294967296 mod 16777216)"
      by (subst nat_mod_distrib) simp_all
    ultimately show ?thesis by simp
  qed
  show ?thesis unfolding filterE8_def by (rule e8_loop_position) (simp add: u)
qed

text \<open>The vector scanner is an optimisation only: any scanner whose positive answers are
  positions with no opcode byte before them leaves the filter's output unchanged, on every
  buffer, also where the scan ends inside the last five bytes.\<close>

theorem filterE8_scanner:
  assumes "scan_ok f c"
  shows "filterE8 (Some f) c buf offset = filterE8 None c buf offset"
  by (simp add: filterE8_def e8_loop_scan [OF assms])

definition demo_scan :: "byte list \<Rightarrow> byte \<Rightarrow> int" where
  "demo_scan b c = int (length (takeWhile (\<lambda>x. x \<noteq> 0xe8 \<and> x \<noteq> c) b))"

theorem filterE8_scanner_witness:
  "filterE8 (Some demo_scan) 0xe9 (replicate 40 0 @ [0xe8, 1, 0, 0, 0]) 7
     = filterE8 None 0xe9 (replicate 40 0 @ [0xe8, 1, 0, 0, 0]) 7"
proof (rule filterE8_scanner)
  show "scan_ok demo_scan 0xe9"
    unfolding scan_ok_def demo_scan_def
    by (auto simp: length_takeWhile_le) (metis (mono_tags, lifting) nth_mem set_takeWhileD takeWhile_nth)+
qed

text \<open>C30. The ARM filter inverts the ARM encoder, with or without a vector hook, whenever the hook
  has done a whole number of instructions the way the plain loop does them.\<close>

theorem filterArm_inverts:
  assumes "\<And>f buf. simd = Some f \<Longrightarrow> 32 \<le> length buf \<Longrightarrow>
      case f buf offset of (buf', start) \<Rightarrow> start mod 4 = 0 \<and> start \<le> length buf
        \<and> take start buf' = arm_loop (word_of_int offset) (take start buf) 0
        \<and> drop start buf' = drop start buf"
  shows "filterArm simd (arm_encode (word_of_int offset) data 0) offset = data"
proof -
  let ?buf = "arm_encode (word_of_int offset) data 0"
  have plain: "arm_loop (word_of_int offset) ?buf 0 = data" by (rule arm_loop_encode)
  show ?thesis
  proof (cases "\<exists>f. simd = Some f \<and> 32 \<le> length ?buf")
    case False
    then show ?thesis using plain by (auto simp: filterArm_def split: option.splits)
  next
    case True
    then obtain f where f: "simd = Some f" "32 \<le> length ?buf" by blast
    obtain buf' start where r: "f ?buf offset = (buf', start)" by fastforce
    have h: "start mod 4 = 0" "start \<le> length ?buf"
      "take start buf' = arm_loop (word_of_int offset) (take start ?buf) 0" "drop start buf' = drop start ?buf"
      using assms [OF f] r by auto
    have "arm_loop (word_of_int offset) ?buf 0
        = arm_loop (word_of_int offset) (take start ?buf) 0 @ arm_loop (word_of_int offset) (drop start ?buf) (word_of_nat start)"
      using arm_loop_append [of "take start ?buf" "word_of_int offset" "drop start ?buf" 0] h(1,2) by (simp add: min_def)
    then show ?thesis using plain f r h by (simp add: filterArm_def)
  qed
qed

theorem filterArm_inverts_witness:
  "filterArm None (arm_encode (word_of_int 400) [1, 2, 3, 0xeb, 5, 6] 0) 400 = [1, 2, 3, 0xeb, 5, 6]"
  by (rule filterArm_inverts) simp

end
