(* ===== verification/Decoder.thy ===== *)
theory Decoder
  imports Items Window Filters
begin

section \<open>The RAR5 decoder (decoder50.go, decoder50\_items.go)\<close>

text \<open>
  \<^verbatim>\<open>decoder50\<close>: the distance history, the filter queue, and the loops that turn block
  bits into window contents. \<open>dec_fill\<close> is the serial path; \<open>dec_replayItems\<close> and
  \<open>dec_finishBlockInline\<close> are what the parallel path runs on a block a worker decoded with
  \<open>decodeBlockItems\<close>. The payload source \<^verbatim>\<open>d.r\<close> is
  polymorphic: \<open>rf\<close> is \<^verbatim>\<open>io.ReadFull\<close> on it, the only way the decoder reads. The two vector
  hooks of the filters are parameters (\<open>simd\<close>, \<open>scan\<close>). A loop that need not end is
  a partial function into \<open>option\<close>; \<open>None\<close> is a loop that does not return. The scratch
  buffers (\<^verbatim>\<open>payloadBuf\<close>, \<^verbatim>\<open>filterBuf\<close>, \<^verbatim>\<open>filterOutBuf\<close>) hold
  nothing between calls and are not fields here.
\<close>

subsection \<open>State\<close>

record filterBlock =
  fb_start :: int
  fb_length :: nat
  fb_ftype :: nat
  fb_param :: nat

record 's decoder50 =
  d_r :: 's
  d_br :: "bitReader option"
  d_codeLength :: "nat list"
  d_lastBlock :: bool
  d_dictSize :: int
  d_tables :: tableSet
  d_bitlen :: huffmanDecoder
  d_offset :: "int list"
  d_length :: nat
  d_fl :: "filterBlock list"
  d_outbuf :: "byte list"
  d_tot :: int
  d_decoded :: int

definition maxQueuedFilters :: nat where "maxQueuedFilters = 1024"
definition maxFilterBlockSize :: nat where "maxFilterBlockSize = 0x400000"

text \<open>The source of a new decoder is Go's \<^verbatim>\<open>nil\<close>; \<open>s\<close> stands in for it until \<open>dec_init\<close>.\<close>

definition newDecoder50 :: "'s \<Rightarrow> 's decoder50" where
  "newDecoder50 s =
     \<lparr>d_r = s, d_br = None, d_codeLength = replicate tableSize5 0,
      d_lastBlock = False, d_dictSize = 0, d_tables = ts_prewarm ts_empty, d_bitlen = hf_empty,
      d_offset = [0, 0, 0, 0], d_length = 0, d_fl = [], d_outbuf = [], d_tot = 0, d_decoded = 0\<rparr>"

definition dec_init :: "'s decoder50 \<Rightarrow> 's \<Rightarrow> bool \<Rightarrow> 's decoder50" where
  "dec_init d r reset =
     (let d = d\<lparr>d_r := r, d_lastBlock := False, d_br := None\<rparr>
      in if reset
         then d\<lparr>d_offset := [0, 0, 0, 0], d_length := 0, d_codeLength := replicate tableSize5 0,
                d_fl := [], d_outbuf := [], d_tot := 0, d_decoded := 0\<rparr>
         else d)"

subsection \<open>Blocks\<close>

definition dec_readBlockHeader :: "'s full_reading \<Rightarrow> 's decoder50 \<Rightarrow> (err option \<times> 's decoder50) option" where
  "dec_readBlockHeader rf d =
     Option.bind (readBlockHead rf (d_r d)) (\<lambda>(h, s). case h of
        Inl e \<Rightarrow> Some (Some e, d\<lparr>d_r := s\<rparr>)
      | Inr h \<Rightarrow>
          Option.bind (rf s (bh_blockBytes h)) (\<lambda>(payload, e, s'). case e of
             Some e \<Rightarrow> Some (Some e, d\<lparr>d_r := s'\<rparr>)
           | None \<Rightarrow>
               let br = newBitReader payload (bh_blockBits h);
                   d = d\<lparr>d_r := s', d_br := Some br, d_lastBlock := bh_lastBlock h\<rparr>
               in Some (if bh_newTables h
                  then (case readCodeLengthTable br (d_codeLength d) (d_bitlen d) of
                          (e, cl, sc, br') \<Rightarrow>
                            let d = d\<lparr>d_br := Some br', d_codeLength := cl, d_bitlen := sc\<rparr>
                            in case e of
                                 Some x \<Rightarrow> (Some x, d)
                               | None \<Rightarrow>
                                   (case ts_load (d_tables d) cl of (e', ts) \<Rightarrow> (e', d\<lparr>d_tables := ts\<rparr>)))
                  else (None, d))))"

subsection \<open>Applying what was decoded\<close>

type_synonym 's dec_result = "(err option \<times> 's decoder50 \<times> window) option"

definition dec_copyMatch :: "'s decoder50 \<Rightarrow> window \<Rightarrow> (err option \<times> window) option" where
  "dec_copyMatch d win =
     map_option (\<lambda>(e, win').
       (case e of
          None \<Rightarrow> None
        | Some x \<Rightarrow>
            Some (if win_historyLen win' = win_size win' \<and> int (win_size win') < d_offset d ! 0
                     \<and> int (win_size win') < d_dictSize d \<and> d_offset d ! 0 \<le> d_dictSize d
                  then Wrap [ErrDictionaryTooLarge, x] else x),
        win'))
     (win_CopyBytes win (d_length d) (d_offset d ! 0))"

definition dec_replayMatch :: "'s decoder50 \<Rightarrow> window \<Rightarrow> 's dec_result" where
  "dec_replayMatch d win =
     map_option (\<lambda>(e, win'). case e of
         Some x \<Rightarrow> (Some x, d, win')
       | None \<Rightarrow> (None, d\<lparr>d_decoded := d_decoded d + int (d_length d)\<rparr>, win'))
     (dec_copyMatch d win)"

definition dec_applyMatch :: "'s decoder50 \<Rightarrow> window \<Rightarrow> nat \<Rightarrow> int \<Rightarrow> 's dec_result" where
  "dec_applyMatch d win len distance =
     dec_replayMatch
       (d\<lparr>d_offset := [distance, d_offset d ! 0, d_offset d ! 1, d_offset d ! 2], d_length := len\<rparr>) win"

text \<open>\<^verbatim>\<open>copy(d.offset[1:slot+1], d.offset[:slot])\<close>: the front moves up over the slot.\<close>

definition dec_applyRepDist :: "'s decoder50 \<Rightarrow> window \<Rightarrow> nat \<Rightarrow> nat \<Rightarrow> 's dec_result" where
  "dec_applyRepDist d win slot len =
     dec_replayMatch
       (d\<lparr>d_offset := (d_offset d ! slot) # take slot (d_offset d) @ drop (slot + 1) (d_offset d),
          d_length := len\<rparr>) win"

definition dec_applyRepLast :: "'s decoder50 \<Rightarrow> window \<Rightarrow> 's dec_result" where
  "dec_applyRepLast d win = dec_replayMatch d win"

definition dec_queueFilter :: "'s decoder50 \<Rightarrow> window \<Rightarrow> nat \<Rightarrow> nat \<Rightarrow> nat \<Rightarrow> nat \<Rightarrow> err option \<times> 's decoder50" where
  "dec_queueFilter d win offset len ftype param =
     (if maxQueuedFilters \<le> length (d_fl d) then (Some ErrTooManyFilters, d)
      else if maxFilterBlockSize < len \<or> win_size win < offset then (Some ErrInvalidFilter, d)
      else let start = d_decoded d + int offset
           in if d_fl d \<noteq> [] \<and> start < fb_start (last (d_fl d)) then (Some ErrInvalidFilter, d)
              else if 3 < ftype then (Some ErrUnknownFilter, d)
              else if len = 0 then (None, d)
              else (None, d\<lparr>d_fl := d_fl d @ [\<lparr>fb_start = start, fb_length = len, fb_ftype = ftype, fb_param = param\<rparr>]\<rparr>))"

definition dec_literal :: "'s decoder50 \<Rightarrow> window \<Rightarrow> byte \<Rightarrow> 's dec_result" where
  "dec_literal d win c = Some (None, d\<lparr>d_decoded := d_decoded d + 1\<rparr>, win_writeByte win c)"

text \<open>
  \<^verbatim>\<open>decodeSymbol\<close> with \<^verbatim>\<open>decodeOffset\<close>, \<^verbatim>\<open>decodeLength\<close> and
  \<^verbatim>\<open>readFilter\<close>; \<open>with_bits\<close> runs a step on the decoder's bit reader.
\<close>

definition with_bits :: "'a rd \<Rightarrow> 's decoder50 \<Rightarrow> window \<Rightarrow> ('a \<Rightarrow> 's decoder50 \<Rightarrow> 's dec_result) \<Rightarrow> 's dec_result" where
  "with_bits m d win f =
     (case m (the (d_br d)) of
        (Inl e, r) \<Rightarrow> Some (Some e, d\<lparr>d_br := Some r\<rparr>, win)
      | (Inr v, r) \<Rightarrow> f v (d\<lparr>d_br := Some r\<rparr>))"

definition dec_decodeOffset :: "'s decoder50 \<Rightarrow> window \<Rightarrow> nat \<Rightarrow> 's dec_result" where
  "dec_decodeOffset d win slot =
     with_bits (decodeOffsetBits (d_tables d) slot) d win
       (\<lambda>(len, distance) d. dec_applyMatch d win len (int distance))"

definition dec_decodeLength :: "'s decoder50 \<Rightarrow> window \<Rightarrow> nat \<Rightarrow> 's dec_result" where
  "dec_decodeLength d win slot =
     with_bits (decodeLengthBits (d_tables d)) d win (\<lambda>len d. dec_applyRepDist d win slot len)"

definition dec_readFilter :: "'s decoder50 \<Rightarrow> window \<Rightarrow> 's dec_result" where
  "dec_readFilter d win =
     with_bits readFilterBits d win (\<lambda>(offset, len, ftype, param) d.
       case dec_queueFilter d win offset len ftype param of (e, d') \<Rightarrow> Some (e, d', win))"

definition dec_decodeSymbol :: "'s decoder50 \<Rightarrow> window \<Rightarrow> nat \<Rightarrow> 's dec_result" where
  "dec_decodeSymbol d win sm =
     (if sm < 256 then dec_literal d win (word_of_nat sm)
      else if 262 \<le> sm then dec_decodeOffset d win (sm - 262)
      else if 258 \<le> sm then dec_decodeLength d win (sm - 258)
      else if sm = 257 then dec_applyRepLast d win
      else dec_readFilter d win)"

subsection \<open>Filling the window\<close>

partial_function (option) dec_fill_loop :: "'s full_reading \<Rightarrow> nat \<Rightarrow> 's decoder50 \<Rightarrow> window \<Rightarrow> 's dec_result" where
  "dec_fill_loop rf target d win =
     (if win_Available win < target
      then Option.bind (case d_br d of None \<Rightarrow> dec_readBlockHeader rf d | Some r \<Rightarrow> Some (None, d)) (\<lambda>(e, d1). case e of
              Some e \<Rightarrow> Some (Some e, d1, win)
            | None \<Rightarrow>
                (case hf_ReadSym (ts_main (d_tables d1)) (the (d_br d1)) of
                   (Inl e, r1) \<Rightarrow>
                     if e = EOF
                     then if d_lastBlock d1 then Some (Some EOF, d1\<lparr>d_br := Some r1\<rparr>, win)
                          else dec_fill_loop rf target (d1\<lparr>d_br := None\<rparr>) win
                     else Some (Some e, d1\<lparr>d_br := Some r1\<rparr>, win)
                 | (Inr sm, r1) \<Rightarrow>
                     Option.bind (dec_decodeSymbol (d1\<lparr>d_br := Some r1\<rparr>) win sm) (\<lambda>(e, d2, win2).
                       case e of
                         Some x \<Rightarrow> Some (Some (mapInnerErr x), d2, win2)
                       | None \<Rightarrow> dec_fill_loop rf target d2 win2)))
      else Some (None, d, win))"

definition dec_fill :: "'s full_reading \<Rightarrow> 's decoder50 \<Rightarrow> window \<Rightarrow> 's dec_result" where
  "dec_fill rf d win = dec_fill_loop rf (win_fillTarget win) d win"

subsection \<open>The parallel path on one block\<close>

text \<open>One turn of the loop of \<^verbatim>\<open>replayItems\<close>: the new index and the item's effect.\<close>

definition dec_replayItem :: "item list \<Rightarrow> nat \<Rightarrow> 's decoder50 \<Rightarrow> window \<Rightarrow> nat \<times> 's dec_result" where
  "dec_replayItem items idx d win =
     (let it = items ! idx
      in case it_kind it of
           itemLiteral \<Rightarrow> (idx + 1, dec_literal d win (ucast (it_value it)))
         | itemMatch \<Rightarrow>
             (idx + 1, dec_applyMatch d win (unat (it_length it)) (int (unat (it_value it)) + 1))
         | itemRepDist \<Rightarrow>
             (idx + 1, dec_applyRepDist d win (unat (it_aux it)) (unat (it_length it)))
         | itemRepLast \<Rightarrow> (idx + 1, dec_applyRepLast d win)
         | itemFilter \<Rightarrow>
             if maxQueuedFilters \<le> length (d_fl d) then (idx + 1, Some (Some ErrTooManyFilters, d, win))
             else if length items \<le> idx + 1 \<or> it_kind (items ! (idx + 1)) \<noteq> itemFilterLen
             then (idx + 1, Some (Some ErrCorruptDecodeHeader, d, win))
             else (idx + 2,
               case dec_queueFilter d win (unat (it_value it)) (unat (it_value (items ! (idx + 1))))
                      (unat (it_aux it)) (unat (ucast (it_length it) :: byte)) of
                 (e, d') \<Rightarrow> Some (e, d', win))
         | itemFilterLen \<Rightarrow> (idx + 1, Some (Some ErrCorruptDecodeHeader, d, win)))"

text \<open>The result: whether the items are exhausted, the error, the new index.\<close>

partial_function (option) dec_replayItems ::
  "item list \<Rightarrow> nat \<Rightarrow> nat \<Rightarrow> 's decoder50 \<Rightarrow> window \<Rightarrow> (bool \<times> err option \<times> nat \<times> 's decoder50 \<times> window) option" where
  "dec_replayItems items target idx d win =
     (if idx < length items
      then if target \<le> win_Available win then Some (False, None, idx, d, win)
           else case dec_replayItem items idx d win of (idx', res) \<Rightarrow>
             Option.bind res (\<lambda>(e, d2, win2).
               case e of
                 Some x \<Rightarrow> Some (False, Some x, idx', d2, win2)
               | None \<Rightarrow> dec_replayItems items target idx' d2 win2)
      else Some (True, None, idx, d, win))"

partial_function (option) dec_inline_loop ::
  "nat \<Rightarrow> 's decoder50 \<Rightarrow> window \<Rightarrow> (bool \<times> err option \<times> 's decoder50 \<times> window) option" where
  "dec_inline_loop target d win =
     (if win_Available win < target
      then (case hf_ReadSym (ts_main (d_tables d)) (the (d_br d)) of
              (Inl e, r1) \<Rightarrow> Some (True, if e = EOF then None else Some e, d\<lparr>d_br := None\<rparr>, win)
            | (Inr sm, r1) \<Rightarrow>
                Option.bind (dec_decodeSymbol (d\<lparr>d_br := Some r1\<rparr>) win sm) (\<lambda>(e, d2, win2).
                  case e of
                    Some x \<Rightarrow>
                      let x = mapInnerErr x
                      in if x = ErrDecoderOutOfData then Some (False, Some x, d2, win2)
                         else Some (True, Some x, d2\<lparr>d_br := None\<rparr>, win2)
                  | None \<Rightarrow> dec_inline_loop target d2 win2))
      else Some (False, None, d, win))"

definition dec_finishBlockInline ::
  "'s decoder50 \<Rightarrow> window \<Rightarrow> blockJob \<Rightarrow> nat \<Rightarrow> (bool \<times> err option \<times> 's decoder50 \<times> window) option" where
  "dec_finishBlockInline d win j target =
     dec_inline_loop target
       (if d_br d = None
        then d\<lparr>d_tables := ts_copyFrom (d_tables d) (bj_tables j),
               d_br := Some (case bj_resume j of Some r \<Rightarrow> r | None \<Rightarrow> newBitReader [] 0),
               d_lastBlock := bj_lastBlock j\<rparr>
        else d) win"

subsection \<open>Emitting\<close>

text \<open>\<open>got\<close> are the bytes staged so far of the \<open>len\<close> the filter needs.\<close>

partial_function (option) dec_stageFilterInput ::
  "'s full_reading \<Rightarrow> nat \<Rightarrow> byte list \<Rightarrow> 's decoder50 \<Rightarrow> window \<Rightarrow> (err option \<times> byte list \<times> 's decoder50 \<times> window) option" where
  "dec_stageFilterInput rf len got d win =
     (if length got < len
      then case win_Read win (len - length got) of (bs, win1) \<Rightarrow>
        let got1 = got @ bs
        in if length got1 = len then Some (None, got1, d, win1)
           else Option.bind (dec_fill rf d win1) (\<lambda>(e, d2, win2).
             if (case e of None \<Rightarrow> False | Some x \<Rightarrow> \<not> err_is x EOF \<and> \<not> err_is x ErrDecoderOutOfData)
             then Some (e, got1, d2, win2)
             else if bs = [] \<and> win_Available win2 = 0 then Some (Some ErrUnexpectedEOF, got1, d2, win2)
             else dec_stageFilterInput rf len got1 d2 win2)
      else Some (None, got, d, win))"

text \<open>The output buffer of the delta filter is overwritten in full, so it starts as zeros here.\<close>

definition dec_applyFilter ::
  "(byte list \<Rightarrow> int \<Rightarrow> byte list \<times> nat) option \<Rightarrow> (byte list \<Rightarrow> byte \<Rightarrow> int) option
     \<Rightarrow> filterBlock \<Rightarrow> byte list \<Rightarrow> int \<Rightarrow> err + byte list" where
  "dec_applyFilter simd scan f buf tot =
     (if fb_ftype f = 0 then Inr (filterDelta (int (fb_param f)) buf (replicate (fb_length f) 0))
      else if fb_ftype f = 1 then Inr (filterE8 scan 0xe8 buf tot)
      else if fb_ftype f = 2 then Inr (filterE8 scan 0xe9 buf tot)
      else if fb_ftype f = 3 then Inr (filterArm simd buf tot)
      else Inl ErrUnknownFilter)"

definition dec_Read ::
  "'s full_reading \<Rightarrow> (byte list \<Rightarrow> int \<Rightarrow> byte list \<times> nat) option \<Rightarrow> (byte list \<Rightarrow> byte \<Rightarrow> int) option
     \<Rightarrow> 's decoder50 \<Rightarrow> window \<Rightarrow> nat \<Rightarrow> (byte list \<times> err option \<times> 's decoder50 \<times> window) option" where
  "dec_Read rf simd scan d win plen =
     (if d_outbuf d \<noteq> []
      then Some (take plen (d_outbuf d), None, d\<lparr>d_outbuf := drop plen (d_outbuf d)\<rparr>, win)
      else if plen = 0 then Some ([], None, d, win)
      else Option.bind (if win_Available win = 0 then dec_fill rf d win else Some (None, d, win)) (\<lambda>(e, d, win).
        if (case e of None \<Rightarrow> False | Some x \<Rightarrow> \<not> err_is x ErrDecoderOutOfData \<and> \<not> err_is x EOF)
        then Some ([], e, d, win)
        else if win_Available win = 0 then Some ([], Some EOF, d, win)
        else case d_fl d of
          [] \<Rightarrow> (case win_Read win plen of (bs, win') \<Rightarrow>
                   Some (bs, None, d\<lparr>d_tot := d_tot d + int (length bs)\<rparr>, win'))
        | f # rest \<Rightarrow>
            let gap = fb_start f - d_tot d
            in if 0 < gap
               then (case win_Read win (min (nat gap) (min (win_Available win) plen)) of (bs, win') \<Rightarrow>
                       Some (bs, None, d\<lparr>d_tot := d_tot d + int (length bs)\<rparr>, win'))
               else Option.bind (dec_stageFilterInput rf (fb_length f) [] (d\<lparr>d_fl := rest\<rparr>) win)
                 (\<lambda>(e, buf, d, win).
                   case e of
                     Some x \<Rightarrow> Some ([], Some x, d, win)
                   | None \<Rightarrow>
                       if d_fl d \<noteq> [] \<and> fb_start (hd (d_fl d)) < fb_start f + int (fb_length f)
                       then Some ([], Some ErrInvalidFilter, d, win)
                       else (case dec_applyFilter simd scan f buf (d_tot d) of
                               Inl x \<Rightarrow> Some ([], Some x, d, win)
                             | Inr out \<Rightarrow>
                                 Some (take plen out, None,
                                   d\<lparr>d_tot := d_tot d + int (length out),
                                     d_outbuf := (if plen < length out then drop plen out else d_outbuf d)\<rparr>,
                                   win)))))"

subsection \<open>Invariant\<close>

text \<open>The queue of filters: bounded, in order of their start, every entry a filter the code has.\<close>

definition fl_ok :: "filterBlock list \<Rightarrow> bool" where
  "fl_ok fl \<longleftrightarrow> length fl \<le> maxQueuedFilters \<and> sorted (map fb_start fl)
     \<and> (\<forall>f \<in> set fl. 0 < fb_length f \<and> fb_length f \<le> maxFilterBlockSize \<and> fb_ftype f \<le> 3)"

definition maxMatch :: nat where "maxMatch = 4100"

definition dec_ok :: "'s decoder50 \<Rightarrow> bool" where
  "dec_ok d \<longleftrightarrow> length (d_offset d) = 4 \<and> d_length d \<le> maxMatch \<and> ts_ok (d_tables d)
     \<and> length (d_codeLength d) = tableSize5 \<and> fl_ok (d_fl d)
     \<and> (\<forall>r. d_br d = Some r \<longrightarrow> block_fits r)"

lemma fl_ok_append:
  assumes "fl_ok fl" and "length fl < maxQueuedFilters" and "fl \<noteq> [] \<longrightarrow> fb_start (last fl) \<le> fb_start f"
    and "0 < fb_length f" "fb_length f \<le> maxFilterBlockSize" "fb_ftype f \<le> 3"
  shows "fl_ok (fl @ [f])"
proof -
  have "fb_start x \<le> fb_start f" if "x \<in> set fl" for x
  proof -
    obtain ys y where fl: "fl = ys @ [y]" using \<open>x \<in> set fl\<close> by (cases fl rule: rev_cases) auto
    then have "fb_start x \<le> fb_start y" using that assms(1) by (auto simp: fl_ok_def sorted_append)
    then show ?thesis using assms(3) fl by simp
  qed
  then show ?thesis using assms by (auto simp: fl_ok_def sorted_append)
qed

lemma newDecoder50_ok: "dec_ok (newDecoder50 s)"
  by (simp add: dec_ok_def newDecoder50_def ts_prewarm_ok fl_ok_def)

lemma dec_init_ok: "dec_ok d \<Longrightarrow> dec_ok (dec_init d s reset)"
  by (simp add: dec_ok_def dec_init_def Let_def fl_ok_def)

subsection \<open>One symbol\<close>

text \<open>
  What applying a symbol does: it extends the output by \<open>new\<close>, counts it, and changes the
  distance history, the length and the filter queue only.
\<close>

definition apply_ok :: "'s decoder50 \<Rightarrow> window \<Rightarrow> byte list \<Rightarrow> nat \<Rightarrow> err option \<Rightarrow> 's decoder50 \<Rightarrow> window \<Rightarrow> bool" where
  "apply_ok d win out p e d' win' \<longleftrightarrow>
     (\<exists>new. win_rel win' (out @ new) p \<and> d_decoded d' = d_decoded d + int (length new)
        \<and> length new \<le> maxMatch)
     \<and> win_size win' = win_size win \<and> win_incomplete win' = win_incomplete win
     \<and> length (d_offset d') = 4 \<and> d_length d' \<le> maxMatch
     \<and> fl_ok (d_fl d') \<and> (\<exists>fs. d_fl d' = d_fl d @ fs) \<and> (e \<noteq> Some EOF \<and> e \<noteq> Some ErrDecoderOutOfData)
     \<and> d' = d\<lparr>d_offset := d_offset d', d_length := d_length d', d_fl := d_fl d', d_decoded := d_decoded d'\<rparr>"

text \<open>A match: the LZ77 copy when the distance is in the history, a refusal otherwise.\<close>

lemma dec_replayMatch_cases:
  assumes "win_rel win out p" and "length out - p + d_length d \<le> win_size win"
  obtains (copied) win' where "dec_replayMatch d win = Some (None, d\<lparr>d_decoded := d_decoded d + int (d_length d)\<rparr>, win')"
      "win_rel win' (lz_copy (nat (d_offset d ! 0)) (d_length d) out) p" "win_size win' = win_size win"
      "0 < d_offset d ! 0" "d_offset d ! 0 \<le> int (min (length out) (win_size win))"
  | (refused) x where "dec_replayMatch d win = Some (Some x, d, win)"
      "x = ErrWindowOffsetBounds \<or> x = Wrap [ErrDictionaryTooLarge, ErrWindowOffsetBounds]"
      "d_offset d ! 0 \<le> 0 \<or> int (min (length out) (win_size win)) < d_offset d ! 0"
      "(x \<noteq> ErrWindowOffsetBounds) = (win_size win \<le> length out \<and> int (win_size win) < d_offset d ! 0
         \<and> int (win_size win) < d_dictSize d \<and> d_offset d ! 0 \<le> d_dictSize d)"
proof (cases "0 < d_offset d ! 0 \<and> d_offset d ! 0 \<le> int (min (length out) (win_size win))")
  case True
  then obtain win' where "win_CopyBytes win (d_length d) (d_offset d ! 0) = Some (None, win')"
    "win_rel win' (lz_copy (nat (d_offset d ! 0)) (d_length d) out) p" "win_size win' = win_size win"
    using win.copy_rel [OF assms] by blast
  then show ?thesis using copied True by (simp add: dec_replayMatch_def dec_copyMatch_def)
next
  case False
  then have bad: "d_offset d ! 0 \<le> 0 \<or> int (min (length out) (win_size win)) < d_offset d ! 0" by linarith
  have "win_historyLen win = win_size win \<longleftrightarrow> win_size win \<le> length out"
    using win_historyLen_rel [OF assms(1)] by (auto simp: min_def)
  with win.copy_bad [OF assms(1) bad, of "d_length d"] bad show ?thesis
    using refused by (simp add: dec_replayMatch_def dec_copyMatch_def)
qed

lemma dec_replayMatch_ok:
  assumes "win_rel win out p" and "length out - p + d_length d \<le> win_size win"
    and "length (d_offset d) = 4" "d_length d \<le> maxMatch" "fl_ok (d_fl d)"
  shows "\<exists>e d' win'. dec_replayMatch d win = Some (e, d', win') \<and> apply_ok d win out p e d' win'"
proof (cases rule: dec_replayMatch_cases [OF assms(1,2), case_names copied refused])
  case (copied win')
  obtain new where "lz_copy (nat (d_offset d ! 0)) (d_length d) out = out @ new" "length new = d_length d"
    using lz_copy_prefix by blast
  moreover have "win_incomplete win' = win_incomplete win"
    using copied(1) win_CopyBytes_incomplete
    by (auto simp: dec_replayMatch_def dec_copyMatch_def split: option.splits)
  ultimately show ?thesis using copied assms(3-5) by (auto simp: apply_ok_def)
next
  case (refused x)
  then show ?thesis using assms by (auto simp: apply_ok_def intro: exI [of _ "[]"])
qed

lemma apply_ok_set:
  assumes "apply_ok (d\<lparr>d_offset := os, d_length := l\<rparr>) win out p e d' win'"
  shows "apply_ok d win out p e d' win'"
  using assms by (simp add: apply_ok_def)

lemma dec_applyMatch_ok:
  assumes "win_rel win out p" and "length out - p + len \<le> win_size win" and "len \<le> maxMatch" and "fl_ok (d_fl d)"
  shows "\<exists>e d' win'. dec_applyMatch d win len distance = Some (e, d', win') \<and> apply_ok d win out p e d' win'"
proof -
  let ?d = "d\<lparr>d_offset := [distance, d_offset d ! 0, d_offset d ! 1, d_offset d ! 2], d_length := len\<rparr>"
  have "\<exists>e d' win'. dec_replayMatch ?d win = Some (e, d', win') \<and> apply_ok ?d win out p e d' win'"
    using assms by (intro dec_replayMatch_ok) simp_all
  then show ?thesis unfolding dec_applyMatch_def using apply_ok_set by blast
qed

lemma dec_applyRepDist_ok:
  assumes "win_rel win out p" and "length out - p + len \<le> win_size win" and "len \<le> maxMatch" and "fl_ok (d_fl d)"
    and "length (d_offset d) = 4" and "slot < 4"
  shows "\<exists>e d' win'. dec_applyRepDist d win slot len = Some (e, d', win') \<and> apply_ok d win out p e d' win'"
proof -
  let ?d = "d\<lparr>d_offset := (d_offset d ! slot) # take slot (d_offset d) @ drop (slot + 1) (d_offset d), d_length := len\<rparr>"
  have "\<exists>e d' win'. dec_replayMatch ?d win = Some (e, d', win') \<and> apply_ok ?d win out p e d' win'"
    using assms by (intro dec_replayMatch_ok) simp_all
  then show ?thesis unfolding dec_applyRepDist_def using apply_ok_set by blast
qed

lemma dec_literal_ok:
  assumes "win_rel win out p" and "length out - p < win_size win" and "length (d_offset d) = 4"
    "d_length d \<le> maxMatch" "fl_ok (d_fl d)"
  shows "\<exists>e d' win'. dec_literal d win c = Some (e, d', win') \<and> apply_ok d win out p e d' win'"
proof -
  have "win_incomplete (win_writeByte win c) = win_incomplete win" by (simp add: win_writeByte_def)
  then show ?thesis
    using win.put_rel [OF assms(1,2), of c] assms(3-5)
    by (auto simp: dec_literal_def apply_ok_def maxMatch_def intro!: exI [of _ "[c]"])
qed

lemma dec_queueFilter_ok:
  assumes "dec_queueFilter d win off len ft param = (e, d')" and "win_rel win out p"
    and "length (d_offset d) = 4" "d_length d \<le> maxMatch" "fl_ok (d_fl d)"
  shows "apply_ok d win out p e d' win"
proof -
  have rel: "\<exists>new. win_rel win (out @ new) p \<and> d_decoded d = d_decoded d + int (length new) \<and> length new \<le> maxMatch"
    using assms(2) by (intro exI [of _ "[]"]) simp
  let ?f = "\<lparr>fb_start = d_decoded d + int off, fb_length = len, fb_ftype = ft, fb_param = param\<rparr>"
  have "(d' = d \<and> e \<noteq> None \<or> d' = d \<and> e = None \<or> d' = d\<lparr>d_fl := d_fl d @ [?f]\<rparr> \<and> e = None
      \<and> length (d_fl d) < maxQueuedFilters \<and> (d_fl d \<noteq> [] \<longrightarrow> fb_start (last (d_fl d)) \<le> fb_start ?f)
      \<and> 0 < len \<and> len \<le> maxFilterBlockSize \<and> ft \<le> 3) \<and> e \<noteq> Some EOF \<and> e \<noteq> Some ErrDecoderOutOfData"
    using assms(1) by (auto simp: dec_queueFilter_def Let_def split: if_splits)
  then show ?thesis
    using rel assms(3-5) fl_ok_append [OF assms(5), of ?f] by (auto simp: apply_ok_def)
qed

text \<open>A symbol: some bits of the block, then the effect, unless the bits ended first.\<close>

definition sym_ok :: "'s decoder50 \<Rightarrow> window \<Rightarrow> byte list \<Rightarrow> nat \<Rightarrow> err option \<Rightarrow> 's decoder50 \<Rightarrow> window \<Rightarrow> bool" where
  "sym_ok d win out p e d' win' \<longleftrightarrow>
     (\<exists>r'. br_reach (the (d_br d)) r'
        \<and> (apply_ok (d\<lparr>d_br := Some r'\<rparr>) win out p e d' win'
           \<or> d' = d\<lparr>d_br := Some r'\<rparr> \<and> win' = win \<and> (\<exists>x \<in> inner_errs. e = Some x)))"

lemma with_bits_ok:
  assumes "rd_post P m" and "d_br d = Some r" and "block_fits r"
    and "\<And>v r'. P v \<Longrightarrow> br_reach r r' \<Longrightarrow> \<exists>e d' win'. f v (d\<lparr>d_br := Some r'\<rparr>) = Some (e, d', win')
       \<and> apply_ok (d\<lparr>d_br := Some r'\<rparr>) win out p e d' win'"
  shows "\<exists>e d' win'. with_bits m d win f = Some (e, d', win') \<and> sym_ok d win out p e d' win'"
proof -
  obtain res r' where m: "m r = (res, r')" by fastforce
  have reach: "br_reach r r'" and res: "case res of Inl e \<Rightarrow> e \<in> inner_errs | Inr v \<Rightarrow> P v"
    using assms(1,3) m by (auto simp: rd_post_def)
  show ?thesis
  proof (cases res)
    case (Inl x)
    then show ?thesis using m assms(2) reach res by (auto simp: with_bits_def sym_ok_def)
  next
    case (Inr v)
    then show ?thesis using m assms(2) reach res assms(4) [of v r'] by (auto simp: with_bits_def sym_ok_def)
  qed
qed

lemma dec_ok_parts:
  assumes "dec_ok d"
  shows "length (d_offset d) = 4" "d_length d \<le> maxMatch" "ts_ok (d_tables d)"
    "length (d_codeLength d) = tableSize5" "fl_ok (d_fl d)" "d_br d = Some r \<Longrightarrow> block_fits r"
  using assms by (simp_all add: dec_ok_def)

lemma apply_ok_sym:
  assumes "apply_ok d win out p e d' win'" and "dec_ok d" and "d_br d = Some r"
  shows "sym_ok d win out p e d' win'"
proof -
  have "br_reach r r" using assms(2,3) by (simp add: dec_ok_def br_reach_refl block_fits_inv)
  moreover have "d\<lparr>d_br := Some r\<rparr> = d" using assms(3) by simp
  with assms(1) have "apply_ok (d\<lparr>d_br := Some r\<rparr>) win out p e d' win'" by (simp only:)
  ultimately show ?thesis unfolding sym_ok_def assms(3) option.sel by blast
qed

lemma dec_decodeSymbol_ok:
  assumes ok: "dec_ok d" and br: "d_br d = Some r" and rel: "win_rel win out p"
    and room: "length out - p + maxMatch \<le> win_size win" and sm: "sm < mainSize5"
  shows "\<exists>e d' win'. dec_decodeSymbol d win sm = Some (e, d', win') \<and> sym_ok d win out p e d' win'"
proof -
  note D = dec_ok_parts [OF ok]
  have room1: "length out - p + len \<le> win_size win" if "len \<le> maxMatch" for len using room that by simp
  consider (lit) "sm < 256" | (off) "262 \<le> sm" | (rep) "258 \<le> sm" "sm < 262" | (last) "sm = 257" | (filt) "sm = 256"
    by linarith
  then show ?thesis
  proof cases
    case lit
    have "length out - p < win_size win" using room by (simp add: maxMatch_def)
    then have "\<exists>e d' win'. dec_literal d win (word_of_nat sm) = Some (e, d', win') \<and> apply_ok d win out p e d' win'"
      using rel D by (intro dec_literal_ok) simp_all
    then show ?thesis using lit apply_ok_sym [OF _ ok br] by (auto simp: dec_decodeSymbol_def)
  next
    case off
    have "rd_post (\<lambda>(len, d). 2 \<le> len \<and> len \<le> 4100 \<and> 1 \<le> d \<and> d \<le> 4294967296)
        (decodeOffsetBits (d_tables d) (sm - 262))"
      using sm by (intro decodeOffsetBits_post D(3)) (simp add: mainSize5_def)
    then have "\<exists>e d' win'. dec_decodeOffset d win (sm - 262) = Some (e, d', win') \<and> sym_ok d win out p e d' win'"
      unfolding dec_decodeOffset_def
      by (rule with_bits_ok [OF _ br D(6) [OF br]])
        (auto intro!: dec_applyMatch_ok rel room1 D simp: maxMatch_def)
    then show ?thesis using off by (simp add: dec_decodeSymbol_def)
  next
    case rep
    have "\<exists>e d' win'. dec_decodeLength d win (sm - 258) = Some (e, d', win') \<and> sym_ok d win out p e d' win'"
      unfolding dec_decodeLength_def
      by (rule with_bits_ok [OF decodeLengthBits_post [OF D(3)] br D(6) [OF br]])
        (use rep in \<open>auto intro!: dec_applyRepDist_ok rel room1 D simp: maxMatch_def\<close>)
    then show ?thesis using rep by (simp add: dec_decodeSymbol_def)
  next
    case last
    have "\<exists>e d' win'. dec_replayMatch d win = Some (e, d', win') \<and> apply_ok d win out p e d' win'"
      by (intro dec_replayMatch_ok rel room1 D)
    then show ?thesis
      using last apply_ok_sym [OF _ ok br] by (auto simp: dec_decodeSymbol_def dec_applyRepLast_def)
  next
    case filt
    have "\<exists>e d' win'. dec_readFilter d win = Some (e, d', win') \<and> sym_ok d win out p e d' win'"
      unfolding dec_readFilter_def
    proof (rule with_bits_ok [OF readFilterBits_post br D(6) [OF br]], goal_cases)
      case (1 v r')
      obtain off len ft param where v: "v = (off, len, ft, param)" by (cases v rule: prod_cases4)
      obtain e d' where q: "dec_queueFilter (d\<lparr>d_br := Some r'\<rparr>) win off len ft param = (e, d')" by fastforce
      have "apply_ok (d\<lparr>d_br := Some r'\<rparr>) win out p e d' win"
        by (rule dec_queueFilter_ok [OF q rel]) (use D in simp_all)
      then show ?case using v q by auto
    qed
    then show ?thesis using filt by (simp add: dec_decodeSymbol_def)
  qed
qed

text \<open>Reading a block header leaves a reader that fits its block, or an error.\<close>

lemma block_fits_payload: "bits \<le> 8 * int (length payload) \<Longrightarrow> block_fits (newBitReader payload bits)"
  by (rule block_fits_new)

context full_source
begin

lemma dec_readBlockHeader_ok:
  assumes "dec_ok d" and "src_ok (d_r d)"
  obtains e d' where "dec_readBlockHeader rf d = Some (e, d')" "dec_ok d'" "src_ok (d_r d')"
    "e = None \<Longrightarrow> d_br d' \<noteq> None \<and> left (d_r d') < left (d_r d)"
    "d' = d\<lparr>d_r := d_r d', d_br := d_br d', d_lastBlock := d_lastBlock d', d_codeLength := d_codeLength d',
                d_bitlen := d_bitlen d', d_tables := d_tables d'\<rparr>"
proof (cases rule: readBlockHead_returns [OF assms(2), case_names refused head])
  note D = dec_ok_parts [OF assms(1)]
  case (refused x s)
  show ?thesis
    by (rule that [of "Some x" "d\<lparr>d_r := s\<rparr>"]) (use refused assms in \<open>auto simp: dec_readBlockHeader_def dec_ok_def\<close>)
next
  case (head h s)
  note D = dec_ok_parts [OF assms(1)]
  show ?thesis
  proof (cases rule: rf_cases [OF head(2), of "bh_blockBytes h", case_names short got])
    case (short payload x s')
    show ?thesis
      by (rule that [of "Some x" "d\<lparr>d_r := s'\<rparr>"])
        (use head short assms in \<open>auto simp: dec_readBlockHeader_def dec_ok_def\<close>)
  next
    case (got payload s')
    define br where "br = newBitReader payload (bh_blockBits h)"
    have fits: "block_fits br" unfolding br_def by (rule block_fits_new) (use head(3) got(3) in simp)
    have less: "left s' < left (d_r d)" using head(4) got(4) by simp
    obtain e2 cl sc br' where rc: "readCodeLengthTable br (d_codeLength d) (d_bitlen d) = (e2, cl, sc, br')"
      by (cases "readCodeLengthTable br (d_codeLength d) (d_bitlen d)" rule: prod_cases4) auto
    note RC = readCodeLengthTable_reach [OF rc fits]
    have fits': "block_fits br'" by (rule block_fits_reach [OF fits RC(1)])
    obtain e3 ts where tl: "ts_load (d_tables d) cl = (e3, ts)" by fastforce
    have ts: "ts_ok ts" using ts_load_ok(2) [OF _ tl D(3)] RC(2) D(4) by simp
    obtain e d' where r: "dec_readBlockHeader rf d = Some (e, d')"
      using head(1) got(1) by (fastforce simp: dec_readBlockHeader_def Let_def)
    have "dec_ok d' \<and> src_ok (d_r d') \<and> (e = None \<longrightarrow> d_br d' \<noteq> None \<and> left (d_r d') < left (d_r d))
      \<and> d' = d\<lparr>d_r := d_r d', d_br := d_br d', d_lastBlock := d_lastBlock d', d_codeLength := d_codeLength d',
                  d_bitlen := d_bitlen d', d_tables := d_tables d'\<rparr>"
      using r head(1) got(1,2) rc tl D ts fits fits' less RC(2) assms(1)
      by (auto simp: dec_readBlockHeader_def Let_def br_def [symmetric] dec_ok_def split: if_splits option.splits)
    then show ?thesis using that r by blast
  qed
qed

end

subsection \<open>Filling returns and keeps the invariant\<close>

text \<open>What any run of the decoder does to its state and the window: it appends \<open>new\<close>.\<close>

definition dec_after :: "'s decoder50 \<Rightarrow> window \<Rightarrow> byte list \<Rightarrow> nat \<Rightarrow> 's decoder50 \<Rightarrow> window \<Rightarrow> byte list \<Rightarrow> bool" where
  "dec_after d win out p d' win' new \<longleftrightarrow>
     win_rel win' (out @ new) p \<and> win_size win' = win_size win \<and> win_incomplete win' = win_incomplete win
     \<and> dec_ok d' \<and> d_decoded d' = d_decoded d + int (length new) \<and> d_tot d' = d_tot d
     \<and> d_outbuf d' = d_outbuf d \<and> d_dictSize d' = d_dictSize d \<and> (\<exists>fs. d_fl d' = d_fl d @ fs)"

lemma dec_after_refl: "dec_ok d \<Longrightarrow> win_rel win out p \<Longrightarrow> dec_after d win out p d win []"
  by (simp add: dec_after_def)

lemma dec_after_trans:
  "dec_after d win out p d1 win1 xs \<Longrightarrow> dec_after d1 win1 (out @ xs) q d2 win2 ys
    \<Longrightarrow> dec_after d win out q d2 win2 (xs @ ys)"
  by (auto simp: dec_after_def)

lemma dec_after_sym:
  assumes "sym_ok d win out p e d' win'" and "dec_ok d" and "d_br d = Some r" and "win_rel win out p"
  shows "\<exists>new r'. dec_after d win out p d' win' new \<and> length new \<le> maxMatch \<and> d_br d' = Some r' \<and> br_reach r r'
     \<and> d_r d' = d_r d \<and> d_lastBlock d' = d_lastBlock d \<and> d_tables d' = d_tables d"
proof -
  note D = dec_ok_parts [OF assms(2)]
  obtain r' where r': "br_reach r r'" and c: "apply_ok (d\<lparr>d_br := Some r'\<rparr>) win out p e d' win'
           \<or> d' = d\<lparr>d_br := Some r'\<rparr> \<and> win' = win \<and> (\<exists>x \<in> inner_errs. e = Some x)"
    using assms(1,3) by (auto simp: sym_ok_def)
  have fits: "block_fits r'" by (rule block_fits_reach [OF D(6) [OF assms(3)] r'])
  from c show ?thesis
  proof
    assume a: "apply_ok (d\<lparr>d_br := Some r'\<rparr>) win out p e d' win'"
    obtain os l fl dc where d': "d' = d\<lparr>d_br := Some r', d_offset := os, d_length := l, d_fl := fl, d_decoded := dc\<rparr>"
      using a by (auto simp: apply_ok_def)
    show ?thesis
      using a d' D fits r' by (auto simp: apply_ok_def dec_after_def dec_ok_def)
  next
    assume a: "d' = d\<lparr>d_br := Some r'\<rparr> \<and> win' = win \<and> (\<exists>x \<in> inner_errs. e = Some x)"
    then show ?thesis
      using D fits r' assms(4) by (intro exI [of _ "[]"] exI [of _ r']) (auto simp: dec_after_def dec_ok_def)
  qed
qed

definition dec_bits_left :: "'s decoder50 \<Rightarrow> nat" where
  "dec_bits_left d = (case d_br d of None \<Rightarrow> 0 | Some r \<Rightarrow> Suc (length (br_bits r)))"

context full_source
begin

lemma dec_fill_loop_ok:
  assumes "dec_ok d" and "win_rel win out p" and "target + maxMatch \<le> win_size win" and "src_ok (d_r d)"
  shows "\<exists>e d' win' new. dec_fill_loop rf target d win = Some (e, d', win') \<and> dec_after d win out p d' win' new
     \<and> (e = None \<longrightarrow> target \<le> win_Available win') \<and> src_ok (d_r d')"
  using assms
proof (induction "(left (d_r d), dec_bits_left d)" arbitrary: d win out
    rule: wf_induct_rule [OF wf_lex_prod [OF wf_less_than wf_less_than]])
  case (1 d win out)
  note ok = "1.prems"(1) and rel = "1.prems"(2) and room = "1.prems"(3) and src = "1.prems"(4)
  show ?case
  proof (cases "win_Available win < target")
    case False
    then show ?thesis using dec_after_refl [OF ok rel] src by (subst dec_fill_loop.simps) auto
  next
    case av: True
    then have room1: "length out - p + maxMatch \<le> win_size win"
      using win.avail_rel [OF rel] room by simp
    obtain e1 d1 where hd: "(case d_br d of None \<Rightarrow> dec_readBlockHeader rf d | Some r \<Rightarrow> Some (None, d)) = Some (e1, d1)"
      and H: "dec_ok d1 \<and> (e1 = None \<longrightarrow> d_br d1 \<noteq> None) \<and> dec_after d win out p d1 win [] \<and> src_ok (d_r d1)
        \<and> (e1 = None \<longrightarrow> ((left (d_r d1), dec_bits_left d1), (left (d_r d), dec_bits_left d)) \<in> less_than <*lex*> less_than
           \<or> d1 = d)"
    proof (cases "d_br d")
      case None
      show ?thesis
      proof (rule dec_readBlockHeader_ok [OF ok src])
        fix e d' assume R: "dec_readBlockHeader rf d = Some (e, d')" "dec_ok d'" "src_ok (d_r d')"
          "e = None \<Longrightarrow> d_br d' \<noteq> None \<and> left (d_r d') < left (d_r d)"
          "d' = d\<lparr>d_r := d_r d', d_br := d_br d', d_lastBlock := d_lastBlock d', d_codeLength := d_codeLength d',
                d_bitlen := d_bitlen d', d_tables := d_tables d'\<rparr>"
        have fr: "d_decoded d' = d_decoded d" "d_tot d' = d_tot d" "d_outbuf d' = d_outbuf d"
          "d_dictSize d' = d_dictSize d" "d_fl d' = d_fl d"
          by (subst R(5), simp)+
        show ?thesis by (rule that [of e d']) (use None R(1-4) fr rel in \<open>auto simp: dec_after_def\<close>)
      qed
    next
      case (Some r)
      show ?thesis by (rule that [of None d]) (use Some ok rel src in \<open>auto simp: dec_after_refl\<close>)
    qed
    show ?thesis
    proof (cases e1)
      case (Some x)
      then show ?thesis using av hd H by (subst dec_fill_loop.simps) auto
    next
      case None
      then obtain r where r: "d_br d1 = Some r" using H by auto
      note ok1 = H [THEN conjunct1]
      have src1: "src_ok (d_r d1)" using H by blast
      have after1: "dec_after d win out p d1 win []" using H by blast
      obtain cl where tab: "hf_table (ts_main (d_tables d1)) cl" and cl: "length cl = mainSize5"
        using dec_ok_parts(3) [OF ok1] by (auto simp: ts_ok_def table_for_def)
      note fits = dec_ok_parts(6) [OF ok1 r]
      obtain res r1 where sm: "hf_ReadSym (ts_main (d_tables d1)) r = (res, r1)" by fastforce
      note S = hf_ReadSym_reach [OF sm tab fits]
      have fits1: "block_fits r1" by (rule block_fits_reach [OF fits S(1)])
      have ok2: "dec_ok (d1\<lparr>d_br := Some r1\<rparr>)" "dec_ok (d1\<lparr>d_br := None\<rparr>)"
        using ok1 fits1 by (simp_all add: dec_ok_def)
      have after2: "dec_after d win out p (d1\<lparr>d_br := b\<rparr>) win []" if "dec_ok (d1\<lparr>d_br := b\<rparr>)" for b
        using after1 that by (simp add: dec_after_def)
      show ?thesis
      proof (cases res)
        case (Inl x)
        show ?thesis
        proof (cases "x = EOF \<and> \<not> d_lastBlock d1")
          case False
          then show ?thesis
            using av hd None r sm Inl src1 after2 [OF ok2(1)] by (subst dec_fill_loop.simps) auto
        next
          case True
          let ?d2 = "d1\<lparr>d_br := None\<rparr>"
          have "((left (d_r ?d2), dec_bits_left ?d2), (left (d_r d), dec_bits_left d))
              \<in> less_than <*lex*> less_than"
            using H None r by (auto simp: dec_bits_left_def)
          moreover have "src_ok (d_r ?d2)" using src1 by simp
          ultimately obtain e d' win' new where IH: "dec_fill_loop rf target ?d2 win = Some (e, d', win')"
            "dec_after ?d2 win out p d' win' new" "e = None \<longrightarrow> target \<le> win_Available win'" "src_ok (d_r d')"
            using "1.hyps" [OF _ ok2(2) rel room] by blast
          have "dec_fill_loop rf target d win = dec_fill_loop rf target ?d2 win"
            using av hd None r sm Inl True by (subst dec_fill_loop.simps) simp
          moreover have "dec_after d win out p d' win' ([] @ new)"
            by (rule dec_after_trans [OF after2 [OF ok2(2)]]) (use IH(2) in simp)
          ultimately show ?thesis using IH by auto
        qed
      next
        case (Inr s)
        have s: "s < mainSize5" "length (br_bits r1) < length (br_bits r)"
          using S(2) [OF Inr] cl by (auto simp: mainSize5_def)
        let ?d2 = "d1\<lparr>d_br := Some r1\<rparr>"
        obtain e3 d3 win3 where step: "dec_decodeSymbol ?d2 win s = Some (e3, d3, win3)" "sym_ok ?d2 win out p e3 d3 win3"
          using dec_decodeSymbol_ok [OF ok2(1) _ rel room1 s(1)] by auto
        obtain new3 r3 where a3: "dec_after ?d2 win out p d3 win3 new3" "d_br d3 = Some r3" "br_reach r1 r3"
          "d_r d3 = d_r ?d2"
          using dec_after_sym [OF step(2) ok2(1) _ rel, of r1] by auto
        have a3': "dec_after d win out p d3 win3 new3"
          using dec_after_trans [OF after2 [OF ok2(1)], of p d3 win3 new3] a3(1) by simp
        show ?thesis
        proof (cases e3)
          case (Some x)
          then show ?thesis using av hd None r sm Inr step(1) a3' a3(4) src1 by (subst dec_fill_loop.simps) auto
        next
          case none3: None
          obtain k where "br_bits r3 = drop k (br_bits r1)" using br_reach_bits [OF a3(3)] by blast
          then have bl: "dec_bits_left d3 < Suc (length (br_bits r))" using s(2) a3(2) by (simp add: dec_bits_left_def)
          have "((left (d_r d3), dec_bits_left d3), (left (d_r d), dec_bits_left d))
              \<in> less_than <*lex*> less_than"
            using H None r bl a3(4) by (auto simp: dec_bits_left_def)
          moreover have "dec_ok d3" "win_rel win3 (out @ new3) p" "target + maxMatch \<le> win_size win3" "src_ok (d_r d3)"
            using a3(1,4) room src1 by (simp_all add: dec_after_def)
          ultimately obtain e d' win' new where IH: "dec_fill_loop rf target d3 win3 = Some (e, d', win')"
            "dec_after d3 win3 (out @ new3) p d' win' new" "e = None \<longrightarrow> target \<le> win_Available win'" "src_ok (d_r d')"
            using "1.hyps" by blast
          have "dec_fill_loop rf target d win = dec_fill_loop rf target d3 win3"
            using av hd None r sm Inr step(1) none3 by (subst dec_fill_loop.simps) simp
          then show ?thesis using IH dec_after_trans [OF a3' IH(2)] by auto
        qed
      qed
    qed
  qed
qed

end

subsection \<open>Staging a filter's input\<close>

definition win_big :: "window \<Rightarrow> bool" where
  "win_big w \<longleftrightarrow> 2 * maxMatch \<le> win_size w"

lemma win_big_new: "win_big (newWindow n)"
  by (simp add: win_big_def maxMatch_def newWindow_def Let_def minWindowSize_def)

lemma win_big_target: "win_big w \<Longrightarrow> win_fillTarget w + maxMatch \<le> win_size w"
  by (simp add: win_big_def win_fillTarget_def)

lemma win_fillTarget_pos: "win_big w \<Longrightarrow> 0 < win_fillTarget w"
  by (simp add: win_big_def win_fillTarget_def maxMatch_def maxFillTarget_def)

lemma win_read_loop_incomplete:
  "win_read_loop w full n xs = (ys, w') \<Longrightarrow> win_incomplete w' = win_incomplete w"
proof (induction w full n xs rule: win_read_loop.induct)
  case (1 w full n xs)
  define chunk where "chunk = take (n - length xs)
    (take ((if win_w w < win_r w \<or> full \<and> xs = [] then win_size w else win_w w) - win_r w) (drop (win_r w) (win_buf w)))"
  show ?case
  proof (cases "length xs < n \<and> chunk \<noteq> []")
    case True
    have "win_read_loop (w\<lparr>win_r := if win_size w \<le> win_r w + length chunk then 0 else win_r w + length chunk\<rparr>)
        full n (xs @ chunk) = (ys, w')"
      by (rule trans [OF win_read_loop_step [OF True [THEN conjunct1] chunk_def True [THEN conjunct2], symmetric]
            "1.prems"])
    then show ?thesis
      using "1.IH" [OF _ refl chunk_def _ refl] True by simp
  next
    case False
    then have "w' = w"
      using "1.prems" by (subst (asm) win_read_loop.simps) (simp add: Let_def chunk_def split: if_splits)
    then show ?thesis by simp
  qed
qed

lemma win_Read_incomplete: "win_Read w n = (bs, w') \<Longrightarrow> win_incomplete w' = win_incomplete w"
  using win_read_loop_incomplete by (fastforce simp: win_Read_def Let_def split: if_splits)

lemma dec_after_Read:
  assumes "dec_ok d" and "win_rel win out p" and "win_Read win n = (bs, win')"
  shows "dec_after d win out (min (p + n) (length out)) d win' []" and "bs = take n (drop p out)"
  using win.drain_rel [OF assms(2), of n] assms win_Read_incomplete [OF assms(3)]
  by (auto simp: dec_after_def)

lemma dec_after_big: "dec_after d win out p d' win' new \<Longrightarrow> win_big win \<Longrightarrow> win_big win'"
  by (simp add: dec_after_def win_big_def)

context full_source
begin

lemma dec_fill_ok:
  assumes "dec_ok d" and "win_rel win out p" and "win_big win" and "src_ok (d_r d)"
  obtains e d' win' new where "dec_fill rf d win = Some (e, d', win')" "dec_after d win out p d' win' new"
    "e = None \<longrightarrow> 0 < win_Available win'" "src_ok (d_r d')"
  using dec_fill_loop_ok [OF assms(1,2) win_big_target [OF assms(3)] assms(4)] win_fillTarget_pos [OF assms(3)]
  unfolding dec_fill_def by (metis gr0I le_zero_eq)

lemma dec_stage_ok:
  assumes "dec_ok d" and "win_rel win out p" and "win_big win" and "length got \<le> len" and "src_ok (d_r d)"
  shows "\<exists>e got' d' win' new q. dec_stageFilterInput rf len got d win = Some (e, got', d', win')
     \<and> dec_after d win out q d' win' new \<and> p \<le> q \<and> got' = got @ take (q - p) (drop p (out @ new))
     \<and> length got' = length got + (q - p) \<and> (e = None \<longrightarrow> length got' = len)
     \<and> (e \<noteq> None \<longrightarrow> length got' < len) \<and> src_ok (d_r d')"
  using assms
proof (induction "2 * (len - length got) + of_bool (win_Available win = 0)" arbitrary: got d win out p rule: less_induct)
  case (less got win d out p)
  note ok = less.prems(1) and rel = less.prems(2) and big = less.prems(3)
  show ?case
  proof (cases "length got < len")
    case False
    then show ?thesis
      using less.prems dec_after_refl [OF ok rel]
      by (subst dec_stageFilterInput.simps) (intro exI conjI, auto)
  next
    case lt: True
    obtain bs win1 where rd: "win_Read win (len - length got) = (bs, win1)" by fastforce
    let ?q = "min (p + (len - length got)) (length out)"
    note R = dec_after_Read [OF ok rel rd]
    have p: "p \<le> length out" using win.rel_pos [OF rel] by simp
    have bs: "length bs = ?q - p" "bs = take (?q - p) (drop p out)" using R(2) p by (auto simp: min_def)
    let ?got = "got @ bs"
    show ?thesis
    proof (cases "length ?got = len")
      case True
      then show ?thesis
        using lt rd R(1) bs p less.prems(5)
        by (subst dec_stageFilterInput.simps) (auto intro!: exI [of _ "[]"] exI [of _ ?q])
    next
      case more: False
      have rel1: "win_rel win1 out ?q" and big1: "win_big win1" using R(1) big by (auto simp: dec_after_def win_big_def)
      have q: "?q = length out" using more bs(1) p lt by (auto simp: min_def split: if_splits)
      obtain e2 d2 win2 new where fill: "dec_fill rf d win1 = Some (e2, d2, win2)" and
        after: "dec_after d win1 out ?q d2 win2 new" and pos: "e2 = None \<longrightarrow> 0 < win_Available win2"
        and src2: "src_ok (d_r d2)"
        by (rule dec_fill_ok [OF ok rel1 big1 less.prems(5)])
      have after2: "dec_after d win out ?q d2 win2 new"
        using dec_after_trans [OF R(1), of ?q d2 win2 new] after by simp
      have rel2: "win_rel win2 (out @ new) ?q" and ok2: "dec_ok d2" and big2: "win_big win2"
        using after dec_after_big [OF after big1] by (auto simp: dec_after_def)
      have got: "?got = got @ take (?q - p) (drop p (out @ new))" using bs p by simp
      let ?stop = "case e2 of None \<Rightarrow> False | Some x \<Rightarrow> \<not> err_is x EOF \<and> \<not> err_is x ErrDecoderOutOfData"
      have len: "length ?got < len" using more bs(1) lt by auto
      show ?thesis
      proof (cases "?stop \<or> bs = [] \<and> win_Available win2 = 0")
        case True
        define x where "x = (if ?stop then the e2 else ErrUnexpectedEOF)"
        have x: "dec_stageFilterInput rf len got d win = Some (Some x, ?got, d2, win2)"
        proof (cases ?stop)
          case True
          then obtain y where "e2 = Some y" by (cases e2) auto
          then show ?thesis using lt rd more fill True by (subst dec_stageFilterInput.simps) (simp add: x_def)
        next
          case False
          then show ?thesis
            using lt rd more fill \<open>?stop \<or> _\<close> by (subst dec_stageFilterInput.simps) (simp add: x_def)
        qed
        show ?thesis
          by (rule exI [of _ "Some x"], rule exI [of _ ?got], rule exI [of _ d2], rule exI [of _ win2],
              rule exI [of _ new], rule exI [of _ ?q]) (use x after2 got bs(1) len p src2 in auto)
      next
        case go: False
        have step: "dec_stageFilterInput rf len got d win = dec_stageFilterInput rf len ?got d2 win2"
          using lt rd more fill go by (subst dec_stageFilterInput.simps) (auto simp: Let_def)
        have "2 * (len - length ?got) + of_bool (win_Available win2 = 0)
            < 2 * (len - length got) + of_bool (win_Available win = 0)"
        proof (cases "bs = []")
          case True
          then have "p = length out" using bs(1) q p by simp
          then have "win_Available win = 0" using win.avail_rel [OF rel] by simp
          then show ?thesis using True go by simp
        next
          case False
          then show ?thesis using lt len by (cases bs) auto
        qed
        from less.hyps [OF this ok2 rel2 big2 _ src2] len
        obtain e got' d' win' new' q' where IH: "dec_stageFilterInput rf len ?got d2 win2 = Some (e, got', d', win')"
          "dec_after d2 win2 (out @ new) q' d' win' new'" "?q \<le> q'"
          "got' = ?got @ take (q' - ?q) (drop ?q ((out @ new) @ new'))"
          "length got' = length ?got + (q' - ?q)" "e = None \<longrightarrow> length got' = len"
          "e \<noteq> None \<longrightarrow> length got' < len" "src_ok (d_r d')" by (metis less_imp_le)
        have f1: "got' = got @ take (q' - p) (drop p (out @ (new @ new')))"
        proof -
          have "take (q' - p) (drop p (out @ (new @ new')))
              = take (?q - p) (drop p (out @ (new @ new'))) @ take (q' - ?q) (drop ?q (out @ (new @ new')))"
            using IH(3) p take_add [of "?q - p" "q' - ?q" "drop p (out @ (new @ new'))"] by simp
          then show ?thesis using IH(4) bs(2) p by simp
        qed
        have f2: "length got' = length got + (q' - p)" using IH(5,3) bs(1) p by simp
        have f3: "dec_after d win out q' d' win' (new @ new')" by (rule dec_after_trans [OF after2 IH(2)])
        have f4: "p \<le> q'" using IH(3) p by simp
        show ?thesis
          by (rule exI [of _ e], rule exI [of _ got'], rule exI [of _ d'], rule exI [of _ win'],
              rule exI [of _ "new @ new'"], rule exI [of _ q'])
            (intro conjI trans [OF step IH(1)] f1 f2 f3 f4 IH(6-8))
      qed
    qed
  qed
qed

end

subsection \<open>Reading\<close>

text \<open>What the decoder needs of the vector hooks to keep count: they change no length.\<close>

definition hooks_ok :: "(byte list \<Rightarrow> int \<Rightarrow> byte list \<times> nat) option \<Rightarrow> (byte list \<Rightarrow> byte \<Rightarrow> int) option \<Rightarrow> bool" where
  "hooks_ok simd scan \<longleftrightarrow>
     (\<forall>f buf off. simd = Some f \<longrightarrow> length (fst (f buf off)) = length buf \<and> snd (f buf off) \<le> length buf)
     \<and> (\<forall>f. scan = Some f \<longrightarrow> scan_ok f 0xe8 \<and> scan_ok f 0xe9)"

lemma filterE8_length: "(\<forall>f. scan = Some f \<longrightarrow> scan_ok f c) \<Longrightarrow> length (filterE8 scan c buf off) = length buf"
  by (cases scan) (simp_all add: filterE8_def e8_loop_scan)

lemma filterArm_length: "hooks_ok simd scan \<Longrightarrow> length (filterArm simd buf off) = length buf"
proof -
  assume h: "hooks_ok simd scan"
  obtain buf' start where r: "(case simd of Some f \<Rightarrow> if 32 \<le> length buf then f buf off else (buf, 0)
      | None \<Rightarrow> (buf, 0)) = (buf', start)" by fastforce
  have len: "length buf' = length buf \<and> start \<le> length buf"
  proof (cases simd)
    case (Some f)
    then have "length (fst (f buf off)) = length buf \<and> snd (f buf off) \<le> length buf"
      using h by (simp add: hooks_ok_def)
    then show ?thesis using r Some by (cases "32 \<le> length buf") auto
  qed (use r in auto)
  show ?thesis using len by (simp add: filterArm_def r)
qed

lemma filterDelta_length: "length (filterDelta n buf (replicate (length buf) 0)) = length buf"
  by (simp add: filterDelta_def delta_outer_length)

lemma dec_applyFilter_length:
  assumes "hooks_ok simd scan" and "dec_applyFilter simd scan f buf tot = Inr out" and "length buf = fb_length f"
  shows "length out = fb_length f"
proof -
  have E: "\<forall>g. scan = Some g \<longrightarrow> scan_ok g 0xe8" "\<forall>g. scan = Some g \<longrightarrow> scan_ok g 0xe9"
    using assms(1) by (simp_all add: hooks_ok_def)
  show ?thesis
    using assms(2,3) filterArm_length [OF assms(1)] filterE8_length [OF E(1)] filterE8_length [OF E(2)]
      filterDelta_length [of _ buf]
    by (auto simp: dec_applyFilter_def split: if_splits)
qed

text \<open>The two counters share an epoch: what is decoded and not emitted is what the window holds.\<close>

definition dec_epoch :: "'s decoder50 \<Rightarrow> window \<Rightarrow> bool" where
  "dec_epoch d win \<longleftrightarrow> d_decoded d = d_tot d + int (win_Available win)"

definition read_post ::
  "'s decoder50 \<Rightarrow> window \<Rightarrow> byte list \<Rightarrow> nat \<Rightarrow> nat \<Rightarrow> byte list \<Rightarrow> err option \<Rightarrow> 's decoder50 \<Rightarrow> window \<Rightarrow> bool" where
  "read_post d win out p plen bs e d' win' \<longleftrightarrow>
     (\<exists>new q. dec_ok d' \<and> win_rel win' (out @ new) q \<and> p \<le> q) \<and> win_size win' = win_size win
     \<and> win_incomplete win' = win_incomplete win \<and> d_dictSize d' = d_dictSize d
     \<and> length bs \<le> plen \<and> (0 < plen \<longrightarrow> bs \<noteq> [] \<or> e \<noteq> None)
     \<and> (e = None \<longrightarrow> dec_epoch d win \<longrightarrow> dec_epoch d' win')"

lemma dec_after_epoch:
  assumes "dec_after d win out q d' win' new" and "win_rel win out p"
  shows "d_decoded d' - d_tot d' - int (win_Available win')
    = d_decoded d - d_tot d - int (win_Available win) + (int q - int p)"
proof -
  have "win_rel win' (out @ new) q" using assms(1) by (simp add: dec_after_def)
  from win.avail_rel [OF this] win.rel_pos [OF this] win.avail_rel [OF assms(2)] win.rel_pos [OF assms(2)]
  show ?thesis using assms(1) by (simp add: dec_after_def)
qed

lemma dec_emit_ok:
  assumes "dec_ok d" and "win_rel win out p" and "win_Read win n = (bs, win')" and "0 < n" "n \<le> plen"
    and "win_Available win \<noteq> 0"
  shows "read_post d win out p plen bs None (d\<lparr>d_tot := d_tot d + int (length bs)\<rparr>) win'"
proof -
  note R = dec_after_Read [OF assms(1-3)]
  have rel': "win_rel win' out (min (p + n) (length out))" using R(1) by (simp add: dec_after_def)
  have p: "p < length out" using win.avail_rel [OF assms(2)] assms(6) by simp
  have len: "length bs = min n (length out - p)" using R(2) by simp
  have "d_decoded d - d_tot d - int (win_Available win')
    = d_decoded d - d_tot d - int (win_Available win) + (int (min (p + n) (length out)) - int p)"
    by (rule dec_after_epoch [OF R(1) assms(2)])
  moreover have "int (min (p + n) (length out)) - int p = int (length bs)" using len p by (auto simp: min_def)
  moreover have "dec_ok (d\<lparr>d_tot := t\<rparr>)" for t using assms(1) by (simp add: dec_ok_def)
  moreover have "\<exists>new q. win_rel win' (out @ new) q \<and> p \<le> q"
    using rel' p by (intro exI [of _ "[]"] exI [of _ "min (p + n) (length out)"]) simp
  moreover have "bs \<noteq> []" "length bs \<le> plen" using len p assms(4,5) by auto
  moreover have "win_size win' = win_size win" "win_incomplete win' = win_incomplete win"
    using R(1) by (simp_all add: dec_after_def)
  ultimately show ?thesis by (auto simp: read_post_def dec_epoch_def)
qed

lemma read_post_after:
  assumes "dec_after d win out p d1 win1 new1" and "win_rel win out p"
    and "read_post d1 win1 (out @ new1) p plen bs e d' win'"
  shows "read_post d win out p plen bs e d' win'"
proof -
  have "dec_epoch d win \<Longrightarrow> dec_epoch d1 win1"
    using dec_after_epoch [OF assms(1,2)] by (simp add: dec_epoch_def)
  then show ?thesis using assms by (fastforce simp: read_post_def dec_after_def)
qed

lemma read_post_error:
  assumes "dec_after d win out q d1 win1 new1" and "p \<le> q"
  shows "read_post d win out p plen [] (Some x) d1 win1"
  using assms by (auto simp: read_post_def dec_after_def)

context full_source
begin

text \<open>The branch that stages a block, checks the queue and applies the filter.\<close>

lemma dec_filter_branch_ok:
  assumes ok: "dec_ok d" and rel: "win_rel win out p" and big: "win_big win" and "hooks_ok simd scan"
    and fl: "d_fl d = f # rest" and outbuf: "d_outbuf d = []" and "0 < plen" and src: "src_ok (d_r d)"
  shows "\<exists>bs e d' win'. Option.bind (dec_stageFilterInput rf (fb_length f) [] (d\<lparr>d_fl := rest\<rparr>) win)
      (\<lambda>(e, buf, d, win).
         case e of
           Some x \<Rightarrow> Some ([], Some x, d, win)
         | None \<Rightarrow>
             if d_fl d \<noteq> [] \<and> fb_start (hd (d_fl d)) < fb_start f + int (fb_length f)
             then Some ([], Some ErrInvalidFilter, d, win)
             else (case dec_applyFilter simd scan f buf (d_tot d) of
                     Inl x \<Rightarrow> Some ([], Some x, d, win)
                   | Inr out \<Rightarrow>
                       Some (take plen out, None,
                         d\<lparr>d_tot := d_tot d + int (length out),
                           d_outbuf := (if plen < length out then drop plen out else d_outbuf d)\<rparr>, win)))
      = Some (bs, e, d', win') \<and> read_post d win out p plen bs e d' win' \<and> src_ok (d_r d')"
proof -
  let ?d = "d\<lparr>d_fl := rest\<rparr>"
  have f: "0 < fb_length f" and "fl_ok rest"
    using dec_ok_parts(5) [OF ok] fl by (auto simp: fl_ok_def)
  then have ok': "dec_ok ?d" using ok by (simp add: dec_ok_def)
  have post: "read_post ?d win out p plen bs e d' win' \<Longrightarrow> read_post d win out p plen bs e d' win'" for bs e d' win'
    by (simp add: read_post_def dec_epoch_def)
  obtain e buf d1 win1 new q where st: "dec_stageFilterInput rf (fb_length f) [] ?d win = Some (e, buf, d1, win1)"
    and after: "dec_after ?d win out q d1 win1 new" and q: "p \<le> q" "length buf = q - p"
    and len: "e = None \<longrightarrow> length buf = fb_length f" and src1: "src_ok (d_r d1)"
  proof -
    have "src_ok (d_r ?d)" using src by simp
    note dec_stage_ok [OF ok' rel big _ this, of "[]" "fb_length f", simplified]
    then show thesis using that by blast
  qed
  show ?thesis
  proof (cases e)
    case (Some x)
    then show ?thesis using st read_post_error [OF after q(1)] post src1 by simp
  next
    case None
    then have lb: "length buf = fb_length f" using len by simp
    show ?thesis
    proof (cases "d_fl d1 \<noteq> [] \<and> fb_start (hd (d_fl d1)) < fb_start f + int (fb_length f)")
      case True
      then show ?thesis using st None read_post_error [OF after q(1)] post src1 by simp
    next
      case go: False
      show ?thesis
      proof (cases "dec_applyFilter simd scan f buf (d_tot d1)")
        case (Inl x)
        then show ?thesis using st None go read_post_error [OF after q(1)] post src1 by auto
      next
        case (Inr res)
        have lr: "length res = fb_length f" by (rule dec_applyFilter_length [OF assms(4) Inr lb])
        let ?d2 = "d1\<lparr>d_tot := d_tot d1 + int (length res),
                      d_outbuf := (if plen < length res then drop plen res else d_outbuf d1)\<rparr>"
        have "dec_ok ?d2" using after by (simp add: dec_after_def dec_ok_def)
        moreover have "\<exists>new q. win_rel win1 (out @ new) q \<and> p \<le> q" using after q by (auto simp: dec_after_def)
        moreover have "take plen res \<noteq> []" using lr f assms(7) by auto
        moreover have "dec_epoch ?d win \<Longrightarrow> dec_epoch ?d2 win1"
          using dec_after_epoch [OF after rel] q lb lr by (simp add: dec_epoch_def)
        ultimately have "read_post ?d win out p plen (take plen res) None ?d2 win1"
          using after by (simp add: read_post_def dec_after_def)
        from post [OF this] show ?thesis using st None go Inr src1 by auto
      qed
    qed
  qed
qed

lemma dec_Read_ok:
  assumes ok: "dec_ok d" and rel: "win_rel win out p" and big: "win_big win" and hooks: "hooks_ok simd scan"
    and src: "src_ok (d_r d)"
  shows "\<exists>bs e d' win'. dec_Read rf simd scan d win plen = Some (bs, e, d', win')
     \<and> read_post d win out p plen bs e d' win' \<and> src_ok (d_r d')"
proof -
  have ex: "\<exists>new q. win_rel win (out @ new) q \<and> p \<le> q"
    using rel by (intro exI [of _ "[]"] exI [of _ p]) simp
  consider (buf) "d_outbuf d \<noteq> []" | (zero) "d_outbuf d = []" "plen = 0" | (go) "d_outbuf d = []" "0 < plen" by blast
  then show ?thesis
  proof cases
    case buf
    have "read_post d win out p plen (take plen (d_outbuf d)) None (d\<lparr>d_outbuf := drop plen (d_outbuf d)\<rparr>) win"
      using ok ex buf by (auto simp: read_post_def dec_ok_def dec_epoch_def)
    then show ?thesis using buf src by (simp add: dec_Read_def)
  next
    case zero
    have "read_post d win out p 0 [] None d win"
      using ok ex by (auto simp: read_post_def)
    then show ?thesis using zero src by (simp add: dec_Read_def)
  next
    case go
    obtain e1 d1 win1 new1 where fill: "(if win_Available win = 0 then dec_fill rf d win else Some (None, d, win)) = Some (e1, d1, win1)"
      and after: "dec_after d win out p d1 win1 new1" and src1: "src_ok (d_r d1)"
    proof (cases "win_Available win = 0")
      case True
      then show ?thesis using that dec_fill_ok [OF ok rel big src] by metis
    qed (use that dec_after_refl [OF ok rel] src in auto)
    have ok1: "dec_ok d1" and rel1: "win_rel win1 (out @ new1) p" and big1: "win_big win1"
      and outbuf1: "d_outbuf d1 = []"
      using after go(1) dec_after_big [OF after big] by (auto simp: dec_after_def)
    let ?stop = "case e1 of None \<Rightarrow> False | Some x \<Rightarrow> \<not> err_is x ErrDecoderOutOfData \<and> \<not> err_is x EOF"
    show ?thesis
    proof (cases "?stop \<or> win_Available win1 = 0")
      case True
      then obtain x where "dec_Read rf simd scan d win plen = Some ([], Some x, d1, win1)"
        using go fill by (fastforce simp: dec_Read_def split: option.splits if_splits)
      then show ?thesis using read_post_error [OF after order_refl] src1 by blast
    next
      case cont: False
      show ?thesis
      proof (cases "d_fl d1")
        case Nil
        obtain bs win2 where rd: "win_Read win1 plen = (bs, win2)" by fastforce
        have "dec_Read rf simd scan d win plen = Some (bs, None, d1\<lparr>d_tot := d_tot d1 + int (length bs)\<rparr>, win2)"
          using go fill cont Nil rd by (simp add: dec_Read_def)
        then show ?thesis
          using read_post_after [OF after rel dec_emit_ok [OF ok1 rel1 rd go(2) order_refl]] cont src1 by auto
      next
        case (Cons f rest)
        show ?thesis
        proof (cases "0 < fb_start f - d_tot d1")
          case True
          let ?n = "min (nat (fb_start f - d_tot d1)) (min (win_Available win1) plen)"
          obtain bs win2 where rd: "win_Read win1 ?n = (bs, win2)" by fastforce
          have "dec_Read rf simd scan d win plen = Some (bs, None, d1\<lparr>d_tot := d_tot d1 + int (length bs)\<rparr>, win2)"
            using go fill cont Cons True rd by (simp add: dec_Read_def Let_def)
          moreover have "0 < ?n" "?n \<le> plen" using True cont go(2) by auto
          ultimately show ?thesis
            using read_post_after [OF after rel dec_emit_ok [OF ok1 rel1 rd]] cont src1 by auto
        next
          case False
          show ?thesis
            using dec_filter_branch_ok [OF ok1 rel1 big1 hooks Cons outbuf1 go(2) src1]
              read_post_after [OF after rel] go fill cont Cons False
            by (fastforce simp: dec_Read_def Let_def)
        qed
      qed
    qed
  qed
qed

end

subsection \<open>Any sequence of calls\<close>

text \<open>
  The states a decoder and its window go through: a member starts (the window is told, then
  the decoder is pointed at the member's payload), and the caller reads. \<open>hk\<close> are the two
  vector hooks.
\<close>

definition dec_begin :: "'s decoder50 \<Rightarrow> 's \<Rightarrow> bool \<Rightarrow> int \<Rightarrow> 's decoder50" where
  "dec_begin d s solid sz = (dec_init d s (\<not> solid))\<lparr>d_dictSize := sz\<rparr>"

lemma dec_begin_ok [intro]: "dec_ok d \<Longrightarrow> dec_ok (dec_begin d s solid sz)"
  using dec_init_ok [of d s "\<not> solid"] by (simp add: dec_ok_def dec_begin_def)

inductive dec_reachable ::
  "'s full_reading \<Rightarrow> ('s \<Rightarrow> bool)
     \<Rightarrow> (byte list \<Rightarrow> int \<Rightarrow> byte list \<times> nat) option \<times> (byte list \<Rightarrow> byte \<Rightarrow> int) option
     \<Rightarrow> 's decoder50 \<Rightarrow> window \<Rightarrow> bool" for rf src_ok hk where
  start: "src_ok s \<Longrightarrow> dec_reachable rf src_ok hk (newDecoder50 s) (newWindow n)"
| member: "dec_reachable rf src_ok hk d win \<Longrightarrow> win_BeginFile win solid = (None, win') \<Longrightarrow> src_ok s
    \<Longrightarrow> dec_reachable rf src_ok hk (dec_begin d s solid sz) win'"
| read: "dec_reachable rf src_ok hk d win \<Longrightarrow> dec_Read rf (fst hk) (snd hk) d win n = Some (bs, e, d', win')
    \<Longrightarrow> dec_reachable rf src_ok hk d' win'"

inductive_cases dec_reachable_cases: "dec_reachable rf src_ok hk d win"

context full_source
begin

lemma dec_reachable_inv:
  assumes "dec_reachable rf src_ok hk d win" and "hooks_ok (fst hk) (snd hk)"
  shows "dec_ok d \<and> win_big win \<and> src_ok (d_r d) \<and> (\<exists>out p. win_rel win out p)"
  using assms(1)
proof (induction rule: dec_reachable.induct)
  case (start s n)
  then show ?case using newDecoder50_ok win_big_new win_rel_new by (fastforce simp: newDecoder50_def)
next
  case (member d win solid win' s sz)
  then obtain out p where rel: "win_rel win out p" by blast
  note B = win_BeginFile_rel [OF rel member.hyps(2)]
  have "d_r (dec_begin d s solid sz) = s" by (simp add: dec_begin_def dec_init_def Let_def)
  then show ?case using B member by (auto simp: win_big_def)
next
  case (read d win n bs e d' win')
  then obtain out p where rel: "win_rel win out p" by blast
  have post: "read_post d win out p n bs e d' win' \<and> src_ok (d_r d')"
    using dec_Read_ok [OF _ rel _ assms(2), of d n] read by fastforce
  then show ?case using read.IH by (auto simp: read_post_def win_big_def)
qed

end

definition demo_source :: stream where
  "demo_source = \<lparr>st_data = [1, 2], st_end = EOF\<rparr>"

subsection \<open>Properties\<close>

text \<open>C23. A match is the LZ77 copy or a classified refusal: a distance inside the history appends
  the copied bytes, counts them and moves the distance to the front of the history of four; any
  other distance leaves the window as it was and fails with
  \<^verbatim>\<open>ErrWindowOffsetBounds\<close>, reported as \<^verbatim>\<open>ErrDictionaryTooLarge\<close> (which still
  matches the former) exactly when the history fills the window and the distance exceeds it
  but fits the dictionary the header declared.\<close>

theorem decoder_match_exact:
  assumes "win_rel win out p" and "length out - p + len \<le> win_size win"
  shows "if 0 < dist \<and> dist \<le> int (min (length out) (win_size win))
     then \<exists>d' win'. dec_applyMatch d win len dist = Some (None, d', win')
        \<and> win_rel win' (lz_copy (nat dist) len out) p \<and> d_decoded d' = d_decoded d + int len
        \<and> d_offset d' = [dist, d_offset d ! 0, d_offset d ! 1, d_offset d ! 2]
     else \<exists>d' x. dec_applyMatch d win len dist = Some (Some x, d', win) \<and> d_decoded d' = d_decoded d
        \<and> err_is x ErrWindowOffsetBounds
        \<and> (err_is x ErrDictionaryTooLarge \<longleftrightarrow> win_size win \<le> length out \<and> int (win_size win) < dist
             \<and> dist \<le> d_dictSize d)"
proof -
  let ?d = "d\<lparr>d_offset := [dist, d_offset d ! 0, d_offset d ! 1, d_offset d ! 2], d_length := len\<rparr>"
  have room: "length out - p + d_length ?d \<le> win_size win" using assms(2) by simp
  show ?thesis
  proof (cases rule: dec_replayMatch_cases [OF assms(1) room, case_names copied refused])
    case (copied win')
    then show ?thesis by (simp add: dec_applyMatch_def)
  next
    case (refused x)
    then have "\<not> (0 < dist \<and> dist \<le> int (min (length out) (win_size win)))" by auto
    with refused show ?thesis by (auto simp: dec_applyMatch_def)
  qed
qed

theorem decoder_match_exact_witness:
  "\<exists>d' x. dec_applyMatch (newDecoder50 demo_source) demo_window 2 3 = Some (Some x, d', demo_window) \<and> err_is x ErrWindowOffsetBounds"
proof -
  have "length ([] :: byte list) - 0 + 2 \<le> win_size demo_window" by (simp add: demo_window_def)
  from decoder_match_exact [OF demo_window_rel this, of 3 "newDecoder50 demo_source"] show ?thesis by auto
qed

text \<open>C7. Filling always returns, from every state of the decoder that can arise, over every source that
  keeps the contract of \<^verbatim>\<open>io.ReadFull\<close> and whatever bytes it gives, hostile ones included: it only appends to what the window holds, never overwrites
  bytes not yet read, keeps the decoder's invariant (tables that fit their alphabets, a
  bounded and ordered filter queue, a reader inside its block), counts what it appended, and
  when it reports no error there is something to read.\<close>

theorem decoder_fill_returns:
  assumes "full_source rf left src_ok" and "src_ok (d_r d)"
    and "dec_ok d" and "win_rel win out p" and "win_big win"
  shows "\<exists>e d' win' new. dec_fill rf d win = Some (e, d', win') \<and> win_rel win' (out @ new) p \<and> dec_ok d'
     \<and> d_decoded d' = d_decoded d + int (length new) \<and> d_tot d' = d_tot d
     \<and> (e = None \<longrightarrow> 0 < win_Available win')"
proof -
  obtain e d' win' new where "dec_fill rf d win = Some (e, d', win')" "dec_after d win out p d' win' new"
    "e = None \<longrightarrow> 0 < win_Available win'"
    by (rule full_source.dec_fill_ok [OF assms(1,3-5,2)])
  then show ?thesis by (auto simp: dec_after_def)
qed

theorem decoder_fill_returns_witness:
  "\<exists>e d' win'. dec_fill stream_full (newDecoder50 demo_source) (newWindow 0) = Some (e, d', win') \<and> dec_ok d'"
  using decoder_fill_returns [OF stream_full.full_source_axioms TrueI newDecoder50_ok win_rel_new win_big_new,
      of demo_source 0] by blast

text \<open>C24. The decoder honours the contract of \<^verbatim>\<open>io.Reader\<close>: a read returns, gives at most
  the bytes asked for, and never nothing without an error when some were asked for; and the
  two counters a filter's position is compared against stay in one epoch: what is decoded is
  what was emitted plus what the window still holds.\<close>

theorem decoder_read_contract:
  assumes "full_source rf left src_ok" and "src_ok (d_r d)"
    and "dec_ok d" and "win_rel win out p" and "win_big win" and "hooks_ok simd scan"
  shows "\<exists>bs e d' win'. dec_Read rf simd scan d win n = Some (bs, e, d', win') \<and> length bs \<le> n
     \<and> (0 < n \<longrightarrow> bs \<noteq> [] \<or> e \<noteq> None) \<and> dec_ok d' \<and> win_size win' = win_size win
     \<and> (e = None \<longrightarrow> d_decoded d = d_tot d + int (win_Available win)
          \<longrightarrow> d_decoded d' = d_tot d' + int (win_Available win'))"
  using full_source.dec_Read_ok [OF assms(1,3-6,2), of n] by (auto simp: read_post_def dec_epoch_def)

theorem decoder_read_contract_witness:
  "\<exists>bs e d' win'. dec_Read stream_full None None (newDecoder50 demo_source) (newWindow 0) 16 = Some (bs, e, d', win') \<and> length bs \<le> 16
     \<and> (bs \<noteq> [] \<or> e \<noteq> None)"
proof -
  have "hooks_ok None None" by (simp add: hooks_ok_def)
  from decoder_read_contract [OF stream_full.full_source_axioms TrueI newDecoder50_ok win_rel_new win_big_new this,
      of demo_source 0 16] show ?thesis by auto
qed

text \<open>C6. Whatever members are started and whatever is read, in any order, the decoder's invariant
  holds and its window still is a window onto the bytes it was given; in particular the
  queue of filters is bounded and in order of the filters' starts.\<close>

theorem decoder_reachable_safe:
  assumes "full_source rf left src_ok" and "dec_reachable rf src_ok hk d win" and "hooks_ok (fst hk) (snd hk)"
  shows "dec_ok d \<and> length (d_fl d) \<le> maxQueuedFilters \<and> sorted (map fb_start (d_fl d))
     \<and> (\<exists>out p. win_rel win out p)"
  using full_source.dec_reachable_inv [OF assms] by (auto simp: dec_ok_def fl_ok_def)

theorem decoder_reachable_safe_witness:
  "dec_ok (dec_begin (newDecoder50 demo_source) demo_source False 7)"
proof -
  obtain win' where B: "win_BeginFile (newWindow 0) False = (None, win')" by (simp add: win_BeginFile_def)
  have "dec_reachable stream_full (\<lambda>_. True) (None, None) (dec_begin (newDecoder50 demo_source) demo_source False 7) win'"
    by (rule dec_reachable.member [OF dec_reachable.start B]) simp_all
  from decoder_reachable_safe [OF stream_full.full_source_axioms this] show ?thesis by (simp add: hooks_ok_def)
qed

text \<open>A record of a filter is queued only when it is admissible: otherwise it is refused with an
  error that says why and the queue is unchanged; an accepted one starts where the stream is
  plus its offset, behind every filter queued before it.\<close>

theorem filter_queue_exact:
  shows "dec_queueFilter d win off len ft param =
    (if maxQueuedFilters \<le> length (d_fl d) then (Some ErrTooManyFilters, d)
     else if maxFilterBlockSize < len \<or> win_size win < off
        \<or> (d_fl d \<noteq> [] \<and> d_decoded d + int off < fb_start (last (d_fl d))) then (Some ErrInvalidFilter, d)
     else if 3 < ft then (Some ErrUnknownFilter, d)
     else (None, d\<lparr>d_fl := d_fl d @ (if len = 0 then [] else
            [\<lparr>fb_start = d_decoded d + int off, fb_length = len, fb_ftype = ft, fb_param = param\<rparr>])\<rparr>))
    \<and> (fl_ok (d_fl d) \<longrightarrow> fl_ok (d_fl (snd (dec_queueFilter d win off len ft param))))"
proof -
  let ?f = "\<lparr>fb_start = d_decoded d + int off, fb_length = len, fb_ftype = ft, fb_param = param\<rparr>"
  have "fl_ok (d_fl d @ [?f])" if "fl_ok (d_fl d)" "length (d_fl d) < maxQueuedFilters"
    "d_fl d \<noteq> [] \<longrightarrow> fb_start (last (d_fl d)) \<le> fb_start ?f" "0 < len" "len \<le> maxFilterBlockSize" "ft \<le> 3"
    using fl_ok_append [of "d_fl d" ?f] that by simp
  then show ?thesis by (auto simp: dec_queueFilter_def Let_def)
qed

theorem filter_queue_exact_witness:
  "fl_ok (d_fl (snd (dec_queueFilter (newDecoder50 demo_source) demo_window 2 5 1 0)))"
proof -
  have "fl_ok (d_fl (newDecoder50 demo_source))" using newDecoder50_ok [of demo_source] by (simp add: dec_ok_def)
  then show ?thesis using filter_queue_exact [of "newDecoder50 demo_source" demo_window 2 5 1 0] by blast
qed

end
