(* ===== verification/Worker.thy ===== *)
theory Worker
  imports Decoder
begin

section \<open>A worker's items replay as the serial decoder would run\<close>

text \<open>
  The parallel path decodes a block's bits in a worker (\<open>decodeBlockItems\<close>) and applies the
  items later (\<open>dec_replayItems\<close>); the serial path decodes and applies symbol by symbol
  (\<open>dec_inline_loop\<close>, which is also the body of \<open>dec_fill\<close> on one block). This theory proves
  that the two agree: same window, same decoder state, same error, at every fill target.
\<close>

subsection \<open>Applying does not look at the bit reader\<close>

definition set_br :: "bitReader option \<Rightarrow> 's dec_result \<Rightarrow> 's dec_result" where
  "set_br b res = map_option (\<lambda>(e, d, w). (e, d\<lparr>d_br := b\<rparr>, w)) res"

lemma set_br_simps [simp]:
  "set_br b None = None" "set_br b (Some (e, d, w)) = Some (e, d\<lparr>d_br := b\<rparr>, w)"
  by (simp_all add: set_br_def)

lemma dec_copyMatch_br [simp]: "dec_copyMatch (d\<lparr>d_br := b\<rparr>) win = dec_copyMatch d win"
  by (cases "win_CopyBytes win (d_length d) (d_offset d ! 0)")
    (auto simp: dec_copyMatch_def split: option.splits)

lemma dec_replayMatch_br: "dec_replayMatch (d\<lparr>d_br := b\<rparr>) win = set_br b (dec_replayMatch d win)"
  by (cases "dec_copyMatch d win") (auto simp: dec_replayMatch_def split: option.splits)

lemma dec_literal_br: "dec_literal (d\<lparr>d_br := b\<rparr>) win c = set_br b (dec_literal d win c)"
  by (simp add: dec_literal_def)

lemma dec_applyMatch_br:
  "dec_applyMatch (d\<lparr>d_br := b\<rparr>) win len dist = set_br b (dec_applyMatch d win len dist)"
  by (cases d) (simp add: dec_applyMatch_def flip: dec_replayMatch_br)

lemma dec_applyRepDist_br:
  "dec_applyRepDist (d\<lparr>d_br := b\<rparr>) win slot len = set_br b (dec_applyRepDist d win slot len)"
  by (cases d) (simp add: dec_applyRepDist_def flip: dec_replayMatch_br)

lemma dec_applyRepLast_br: "dec_applyRepLast (d\<lparr>d_br := b\<rparr>) win = set_br b (dec_applyRepLast d win)"
  by (simp add: dec_applyRepLast_def dec_replayMatch_br)

lemmas apply_br = dec_literal_br dec_applyMatch_br dec_applyRepDist_br dec_applyRepLast_br

lemma dec_queueFilter_br:
  "dec_queueFilter (d\<lparr>d_br := b\<rparr>) win off len ft param
    = (case dec_queueFilter d win off len ft param of (e, d') \<Rightarrow> (e, d'\<lparr>d_br := b\<rparr>))"
  by (simp add: dec_queueFilter_def Let_def)

text \<open>What applying keeps: the reader and the tables; and its errors are not the reader's.\<close>

definition keeps_bits :: "'s decoder50 \<Rightarrow> 's dec_result \<Rightarrow> bool" where
  "keeps_bits d res \<longleftrightarrow> (\<forall>e d' w. res = Some (e, d', w) \<longrightarrow>
     d_br d' = d_br d \<and> d_tables d' = d_tables d \<and> e \<noteq> Some EOF \<and> e \<noteq> Some ErrDecoderOutOfData)"

lemma win_CopyBytes_err: "win_CopyBytes w n k = Some (Some x, w') \<Longrightarrow> x = ErrWindowOffsetBounds"
  by (auto simp: win_CopyBytes_def Let_def split: if_splits)

lemma dec_replayMatch_keeps: "keeps_bits d (dec_replayMatch d win)"
  unfolding keeps_bits_def dec_replayMatch_def dec_copyMatch_def
  by (auto split: option.splits if_splits dest: win_CopyBytes_err)

lemma apply_keeps:
  "keeps_bits d (dec_literal d win c)" "keeps_bits d (dec_applyMatch d win len dist)"
  "keeps_bits d (dec_applyRepDist d win slot len)" "keeps_bits d (dec_applyRepLast d win)"
proof -
  show "keeps_bits d (dec_literal d win c)" by (simp add: keeps_bits_def dec_literal_def)
  show "keeps_bits d (dec_applyMatch d win len dist)"
    using dec_replayMatch_keeps [of "d\<lparr>d_offset := [dist, d_offset d ! 0, d_offset d ! 1, d_offset d ! 2], d_length := len\<rparr>" win]
    by (simp add: keeps_bits_def dec_applyMatch_def)
  show "keeps_bits d (dec_applyRepDist d win slot len)"
    using dec_replayMatch_keeps [of "d\<lparr>d_offset := (d_offset d ! slot) # take slot (d_offset d) @ drop (slot + 1) (d_offset d), d_length := len\<rparr>" win]
    by (simp add: keeps_bits_def dec_applyRepDist_def)
  show "keeps_bits d (dec_applyRepLast d win)"
    by (simp add: dec_applyRepLast_def dec_replayMatch_keeps)
qed

lemma dec_queueFilter_keeps:
  "dec_queueFilter d win off len ft param = (e, d') \<Longrightarrow>
     d_br d' = d_br d \<and> d_tables d' = d_tables d \<and> e \<noteq> Some EOF \<and> e \<noteq> Some ErrDecoderOutOfData"
  by (auto simp: dec_queueFilter_def Let_def split: if_splits)

subsection \<open>One turn\<close>

lemma dbi_loop_extends: "dbi_loop ts cap br its0 = (its, part, e, br') \<Longrightarrow> \<exists>rest. its = its0 @ rest"
proof (induction ts cap br its0 rule: dbi_loop.induct)
  case (1 ts cap br its0)
  show ?case
    using "1.prems" "1.IH"
    by (subst (asm) dbi_loop.simps) (fastforce split: if_splits prod.splits sum.splits)
qed

text \<open>
  The symbol just read: either its bits fail, the same way on both sides, or the worker
  appends the items whose replay is the serial step.
\<close>

definition turn_ok :: "'s decoder50 \<Rightarrow> window \<Rightarrow> nat \<Rightarrow> bitReader \<Rightarrow> item list \<Rightarrow> nat
    \<Rightarrow> (item list \<times> bool \<times> err option \<times> bitReader) \<Rightarrow> bool" where
  "turn_ok d win sm br1 its0 cap R \<longleftrightarrow>
     (\<exists>x br2. br_reach br1 br2 \<and> x \<in> inner_errs
        \<and> dec_decodeSymbol (d\<lparr>d_br := Some br1\<rparr>) win sm = Some (Some x, d\<lparr>d_br := Some br2\<rparr>, win)
        \<and> R = (its0, False, Some (mapInnerErr x), br2))
     \<or> (\<exists>br2 new res. br_reach br1 br2 \<and> new \<noteq> [] \<and> R = dbi_loop (d_tables d) cap br2 (its0 @ new)
        \<and> keeps_bits (d\<lparr>d_br := None\<rparr>) res
        \<and> dec_decodeSymbol (d\<lparr>d_br := Some br1\<rparr>) win sm = set_br (Some br2) res
        \<and> (\<forall>rest. \<exists>idx. dec_replayItem (its0 @ new @ rest) (length its0) (d\<lparr>d_br := None\<rparr>) win = (idx, res)
             \<and> ((\<exists>y d' w. res = Some (Some y, d', w)) \<or> idx = length (its0 @ new))))"

lemma nth_middle: "(xs @ y # zs) ! length xs = y" "(xs @ y # z # zs) ! Suc (length xs) = z"
  by (simp_all add: nth_append)

lemma turn_bits:
  assumes "rd_post P m" and "block_fits br1"
    and sym: "dec_decodeSymbol (d\<lparr>d_br := Some br1\<rparr>) win sm = with_bits m (d\<lparr>d_br := Some br1\<rparr>) win f"
    and R: "R = (case m br1 of (Inl e, br2) \<Rightarrow> (its0, False, Some (mapInnerErr e), br2)
              | (Inr v, br2) \<Rightarrow> dbi_loop (d_tables d) cap br2 (its0 @ g v))"
    and step: "\<And>v br2. P v \<Longrightarrow> g v \<noteq> [] \<and> (\<exists>res. keeps_bits (d\<lparr>d_br := None\<rparr>) res
       \<and> f v (d\<lparr>d_br := Some br2\<rparr>) = set_br (Some br2) res
       \<and> (\<forall>rest. \<exists>idx. dec_replayItem (its0 @ g v @ rest) (length its0) (d\<lparr>d_br := None\<rparr>) win = (idx, res)
             \<and> ((\<exists>y d' w. res = Some (Some y, d', w)) \<or> idx = length (its0 @ g v))))"
  shows "turn_ok d win sm br1 its0 cap R"
proof -
  obtain res br2 where m: "m br1 = (res, br2)" by fastforce
  have reach: "br_reach br1 br2" and c: "case res of Inl e \<Rightarrow> e \<in> inner_errs | Inr v \<Rightarrow> P v"
    using assms(1,2) m by (auto simp: rd_post_def)
  show ?thesis
  proof (cases res)
    case (Inl x)
    then show ?thesis
      using m reach c sym R unfolding turn_ok_def with_bits_def by (intro disjI1 exI [of _ x] exI [of _ br2]) simp
  next
    case (Inr v)
    then have P: "P v" using c by simp
    obtain res where res: "keeps_bits (d\<lparr>d_br := None\<rparr>) res" "f v (d\<lparr>d_br := Some br2\<rparr>) = set_br (Some br2) res"
      "\<forall>rest. \<exists>idx. dec_replayItem (its0 @ g v @ rest) (length its0) (d\<lparr>d_br := None\<rparr>) win = (idx, res)
             \<and> ((\<exists>y d' w. res = Some (Some y, d', w)) \<or> idx = length (its0 @ g v))"
      using step [OF P, of br2] by (elim conjE exE) (rule that)
    have "dec_decodeSymbol (d\<lparr>d_br := Some br1\<rparr>) win sm = set_br (Some br2) res"
      using sym m Inr res(2) by (simp add: with_bits_def)
    moreover have "R = dbi_loop (d_tables d) cap br2 (its0 @ g v)" using R m Inr by simp
    ultimately show ?thesis
      using reach step [OF P, of br2] res(1,3) unfolding turn_ok_def
      by (intro disjI2 exI [of _ br2] exI [of _ "g v"] exI [of _ res]) blast
  qed
qed

lemma turn_filter:
  fixes its0 :: "item list"
  defines "its v \<equiv> (case v of (off, len, ft, param) \<Rightarrow>
    [mk_item itemFilter ft param off, mk_item itemFilterLen 0 0 len])"
  assumes "(\<lambda>(off, len, ft, param). off < 4294967296 \<and> len < 4294967296 \<and> ft < 8 \<and> param \<le> 32) v"
  shows "\<exists>res. keeps_bits (d\<lparr>d_br := None\<rparr>) res
     \<and> (\<lambda>(offset, len, ftype, param) d. case dec_queueFilter d win offset len ftype param of (e, d') \<Rightarrow> Some (e, d', win))
         v (d\<lparr>d_br := Some br2\<rparr>) = set_br (Some br2) res
     \<and> (\<forall>rest. \<exists>idx. dec_replayItem (its0 @ its v @ rest) (length its0) (d\<lparr>d_br := None\<rparr>) win = (idx, res)
           \<and> ((\<exists>y d' w. res = Some (Some y, d', w)) \<or> idx = length (its0 @ its v)))"
proof -
  obtain off len ft param where v: "v = (off, len, ft, param)" by (cases v rule: prod_cases4)
  have b: "off < 4294967296" "len < 4294967296" "ft < 8" "param \<le> 32" using assms(2) v by simp_all
  obtain e d' where q: "dec_queueFilter (d\<lparr>d_br := None\<rparr>) win off len ft param = (e, d')" by fastforce
  have words: "unat (word_of_nat off :: u32) = off" "unat (word_of_nat len :: u32) = len"
    "unat (word_of_nat ft :: byte) = ft" "unat (ucast (word_of_nat param :: u16) :: byte) = param"
    using b by (simp_all add: unat_of_nat_small unat_ucast_mod)
  have serial: "dec_queueFilter (d\<lparr>d_br := Some br2\<rparr>) win off len ft param = (e, d'\<lparr>d_br := Some br2\<rparr>)"
    using dec_queueFilter_br [where d = "d\<lparr>d_br := None\<rparr>" and b = "Some br2" and win = win and off = off
        and len = len and ft = ft and param = param] q by simp
  have full: "(e, d') = (Some ErrTooManyFilters, d\<lparr>d_br := None\<rparr>)" if "maxQueuedFilters \<le> length (d_fl d)"
    using q that by (simp add: dec_queueFilter_def)
  have "\<exists>idx. dec_replayItem (its0 @ its v @ rest) (length its0) (d\<lparr>d_br := None\<rparr>) win = (idx, Some (e, d', win))
      \<and> ((\<exists>y d'' w. Some (e, d', win) = Some (Some y, d'', w)) \<or> idx = length (its0 @ its v))" for rest
    using q full
    by (auto simp: dec_replayItem_def its_def v nth_append mk_item_def words Let_def)
  moreover have "keeps_bits (d\<lparr>d_br := None\<rparr>) (Some (e, d', win))"
    using dec_queueFilter_keeps [OF q] by (simp add: keeps_bits_def)
  ultimately show ?thesis using serial by (intro exI [of _ "Some (e, d', win)"]) (simp add: v)
qed

lemma turn:
  assumes ts: "ts_ok (d_tables d)" and fits: "block_fits br1" and sm: "sm < mainSize5"
    and full: "\<not> cap \<le> length its0 + 1" and rs: "hf_ReadSym (ts_main (d_tables d)) br = (Inr sm, br1)"
  shows "turn_ok d win sm br1 its0 cap (dbi_loop (d_tables d) cap br its0)"
proof -
  let ?d = "d\<lparr>d_br := None\<rparr>"
  have refl: "br_reach br1 br1" by (rule br_reach_refl [OF block_fits_inv [OF fits]])
  have one: "turn_ok d win sm br1 its0 cap (dbi_loop (d_tables d) cap br its0)"
    if "dbi_loop (d_tables d) cap br its0 = dbi_loop (d_tables d) cap br1 (its0 @ [it])"
      and "dec_decodeSymbol (d\<lparr>d_br := Some br1\<rparr>) win sm = set_br (Some br1) res" and "keeps_bits ?d res"
      and "\<And>rest. dec_replayItem (its0 @ it # rest) (length its0) ?d win = (length its0 + 1, res)" for it res
    unfolding turn_ok_def using that refl
    by (intro disjI2 exI [of _ br1] exI [of _ "[it]"] exI [of _ res]) auto
  consider (lit) "sm < 256" | (off) "262 \<le> sm" | (rep) "258 \<le> sm" "sm < 262" | (last) "sm = 257" | (filt) "sm = 256"
    by linarith
  then show ?thesis
  proof cases
    case lit
    have w: "ucast (word_of_nat sm :: u32) = (word_of_nat sm :: byte)"
      using lit by (intro ucast_word_of_nat unat_of_nat_small) simp
    show ?thesis
    proof (rule one)
      show "dbi_loop (d_tables d) cap br its0 = dbi_loop (d_tables d) cap br1 (its0 @ [mk_item itemLiteral 0 0 sm])"
        using lit full rs by (subst dbi_loop.simps) simp
      show "dec_decodeSymbol (d\<lparr>d_br := Some br1\<rparr>) win sm = set_br (Some br1) (dec_literal ?d win (word_of_nat sm))"
        using lit dec_literal_br [where d = "?d" and b = "Some br1"] by (simp add: dec_decodeSymbol_def)
      show "keeps_bits ?d (dec_literal ?d win (word_of_nat sm))" by (rule apply_keeps)
    qed (simp add: dec_replayItem_def mk_item_def w)
  next
    case last
    show ?thesis
    proof (rule one)
      show "dbi_loop (d_tables d) cap br its0 = dbi_loop (d_tables d) cap br1 (its0 @ [mk_item itemRepLast 0 0 0])"
        using last full rs by (subst dbi_loop.simps) simp
      show "dec_decodeSymbol (d\<lparr>d_br := Some br1\<rparr>) win sm = set_br (Some br1) (dec_applyRepLast ?d win)"
        using last dec_applyRepLast_br [where d = "?d" and b = "Some br1"] by (simp add: dec_decodeSymbol_def)
      show "keeps_bits ?d (dec_applyRepLast ?d win)" by (rule apply_keeps)
    qed (simp add: dec_replayItem_def mk_item_def)
  next
    case off
    have slot: "sm - 262 < 44" using sm by (simp add: mainSize5_def)
    show ?thesis
    proof (rule turn_bits [OF decodeOffsetBits_post [OF ts slot] fits])
      show "dec_decodeSymbol (d\<lparr>d_br := Some br1\<rparr>) win sm
          = with_bits (decodeOffsetBits (d_tables d) (sm - 262)) (d\<lparr>d_br := Some br1\<rparr>) win
              (\<lambda>(len, distance) d. dec_applyMatch d win len (int distance))"
        using off by (simp add: dec_decodeSymbol_def dec_decodeOffset_def)
      show "dbi_loop (d_tables d) cap br its0 = (case decodeOffsetBits (d_tables d) (sm - 262) br1 of
          (Inl e, br2) \<Rightarrow> (its0, False, Some (mapInnerErr e), br2)
        | (Inr v, br2) \<Rightarrow> dbi_loop (d_tables d) cap br2
            (its0 @ (case v of (len, distance) \<Rightarrow> [mk_item itemMatch 0 len (distance - 1)])))"
        using off full rs by (subst dbi_loop.simps) (simp split: prod.splits sum.splits)
    next
      fix v br2
      assume "(\<lambda>(len, d). 2 \<le> len \<and> len \<le> (4100 :: nat) \<and> 1 \<le> d \<and> d \<le> (4294967296 :: nat)) v"
      then obtain len distance where v: "v = (len, distance)" and b: "len \<le> 4100" "1 \<le> distance" "distance \<le> 4294967296"
        by (cases v) auto
      have w: "unat (word_of_nat len :: u16) = len" "unat (word_of_nat (distance - 1) :: u32) = distance - 1"
        by (rule unat_of_nat_small, use b in simp)+
      have "int (distance - 1) + 1 = int distance" using b(2) by simp
      then have "uint (word_of_nat (distance - 1) :: u32) + 1 = int distance"
        by (simp only: uint_nat w(2))
      then have i: "uint (word_of_nat (distance - Suc 0) :: u32) + 1 = int distance" by (simp only: One_nat_def)
      show "(case v of (len, distance) \<Rightarrow> [mk_item itemMatch 0 len (distance - 1)]) \<noteq> []
        \<and> (\<exists>res. keeps_bits ?d res
            \<and> (\<lambda>(len, distance) d. dec_applyMatch d win len (int distance)) v (d\<lparr>d_br := Some br2\<rparr>) = set_br (Some br2) res
            \<and> (\<forall>rest. \<exists>idx. dec_replayItem (its0 @ (case v of (len, distance) \<Rightarrow> [mk_item itemMatch 0 len (distance - 1)]) @ rest)
                  (length its0) ?d win = (idx, res)
                \<and> ((\<exists>y d' w. res = Some (Some y, d', w)) \<or> idx = length (its0 @ (case v of (len, distance) \<Rightarrow>
                      [mk_item itemMatch 0 len (distance - 1)])))))"
        using apply_keeps(2) [of ?d win len "int distance"] dec_applyMatch_br [where d = "?d" and b = "Some br2" and win = win and len = len and dist = "int distance"]
        by (auto simp: v dec_replayItem_def mk_item_def w i simp del: of_nat_diff
            intro!: exI [of _ "dec_applyMatch ?d win len (int distance)"])
    qed
  next
    case rep
    show ?thesis
    proof (rule turn_bits [OF decodeLengthBits_post [OF ts] fits])
      show "dec_decodeSymbol (d\<lparr>d_br := Some br1\<rparr>) win sm
          = with_bits (decodeLengthBits (d_tables d)) (d\<lparr>d_br := Some br1\<rparr>) win
              (\<lambda>len d. dec_applyRepDist d win (sm - 258) len)"
        using rep by (simp add: dec_decodeSymbol_def dec_decodeLength_def)
      show "dbi_loop (d_tables d) cap br its0 = (case decodeLengthBits (d_tables d) br1 of
          (Inl e, br2) \<Rightarrow> (its0, False, Some (mapInnerErr e), br2)
        | (Inr v, br2) \<Rightarrow> dbi_loop (d_tables d) cap br2 (its0 @ [mk_item itemRepDist (sm - 258) v 0]))"
        using rep full rs by (subst dbi_loop.simps) (simp split: prod.splits sum.splits)
    next
      fix len br2 assume len: "2 \<le> len \<and> len \<le> (4097 :: nat)"
      have w: "unat (word_of_nat len :: u16) = len" "unat (word_of_nat (sm - 258) :: byte) = sm - 258"
        by (rule unat_of_nat_small, use rep len in simp)+
      show "[mk_item itemRepDist (sm - 258) len 0] \<noteq> []
        \<and> (\<exists>res. keeps_bits ?d res
            \<and> dec_applyRepDist (d\<lparr>d_br := Some br2\<rparr>) win (sm - 258) len = set_br (Some br2) res
            \<and> (\<forall>rest. \<exists>idx. dec_replayItem (its0 @ [mk_item itemRepDist (sm - 258) len 0] @ rest)
                  (length its0) ?d win = (idx, res)
                \<and> ((\<exists>y d' w. res = Some (Some y, d', w)) \<or> idx = length (its0 @ [mk_item itemRepDist (sm - 258) len 0]))))"
        using apply_keeps(3) [of ?d win "sm - 258" len] dec_applyRepDist_br [where d = "?d" and b = "Some br2" and win = win and slot = "sm - 258" and len = len]
        by (auto simp: dec_replayItem_def mk_item_def w simp del: of_nat_diff
            intro!: exI [of _ "dec_applyRepDist ?d win (sm - 258) len"])
    qed
  next
    case filt
    show ?thesis
    proof (rule turn_bits [OF readFilterBits_post fits])
      show "dec_decodeSymbol (d\<lparr>d_br := Some br1\<rparr>) win sm
          = with_bits readFilterBits (d\<lparr>d_br := Some br1\<rparr>) win
              (\<lambda>(offset, len, ftype, param) d. case dec_queueFilter d win offset len ftype param of (e, d') \<Rightarrow> Some (e, d', win))"
        using filt by (simp add: dec_decodeSymbol_def dec_readFilter_def)
      show "dbi_loop (d_tables d) cap br its0 = (case readFilterBits br1 of
          (Inl e, br2) \<Rightarrow> (its0, False, Some (mapInnerErr e), br2)
        | (Inr v, br2) \<Rightarrow> dbi_loop (d_tables d) cap br2
            (its0 @ (case v of (off, len, ft, param) \<Rightarrow> [mk_item itemFilter ft param off, mk_item itemFilterLen 0 0 len])))"
        using filt full rs by (subst dbi_loop.simps) (simp split: prod.splits sum.splits)
    next
      fix v br2
      assume "(\<lambda>(off, len, ft, param). off < (4294967296 :: nat) \<and> len < (4294967296 :: nat) \<and> ft < (8 :: nat) \<and> param \<le> (32 :: nat)) v"
      from turn_filter [OF this, of d win br2 its0]
      show "(case v of (off, len, ft, param) \<Rightarrow> [mk_item itemFilter ft param off, mk_item itemFilterLen 0 0 len]) \<noteq> []
        \<and> (\<exists>res. keeps_bits ?d res
            \<and> (\<lambda>(offset, len, ftype, param) d. case dec_queueFilter d win offset len ftype param of (e, d') \<Rightarrow> Some (e, d', win))
                v (d\<lparr>d_br := Some br2\<rparr>) = set_br (Some br2) res
            \<and> (\<forall>rest. \<exists>idx. dec_replayItem (its0 @ (case v of (off, len, ft, param) \<Rightarrow>
                  [mk_item itemFilter ft param off, mk_item itemFilterLen 0 0 len]) @ rest) (length its0) ?d win = (idx, res)
                \<and> ((\<exists>y d' w. res = Some (Some y, d', w)) \<or> idx = length (its0 @ (case v of (off, len, ft, param) \<Rightarrow>
                  [mk_item itemFilter ft param off, mk_item itemFilterLen 0 0 len])))))"
        by (cases v) simp
    qed
  qed
qed

subsection \<open>One block\<close>

text \<open>
  Where the serial run is when the replay has stopped: at the reader \<open>r\<close> from which a
  worker would decode the items not replayed yet.
\<close>

definition replay_agrees ::
  "nat \<Rightarrow> tableSet \<Rightarrow> nat \<Rightarrow> item list \<times> bool \<times> err option \<times> bitReader
     \<Rightarrow> (bool \<times> err option \<times> nat \<times> 's decoder50 \<times> window) option
     \<Rightarrow> (bool \<times> err option \<times> 's decoder50 \<times> window) option \<Rightarrow> bool" where
  "replay_agrees target ts cap R rep inl =
     (case rep of
        None \<Rightarrow> inl = None
      | Some (done, Some x, idx, d', win') \<Rightarrow> inl = Some (True, Some x, d'\<lparr>d_br := None\<rparr>, win')
      | Some (done, None, idx, d', win') \<Rightarrow>
          (\<exists>r. block_fits r \<and> d_tables d' = ts \<and> idx \<le> length (fst R) \<and> R = dbi_loop ts cap r (take idx (fst R))
             \<and> inl = dec_inline_loop target (d'\<lparr>d_br := Some r\<rparr>) win'
             \<and> (if done then idx = length (fst R) else target \<le> win_Available win')))"

lemma dec_inline_loop_stop:
  "target \<le> win_Available win \<Longrightarrow> dec_inline_loop target d win = Some (False, None, d, win)"
  by (subst dec_inline_loop.simps) simp

lemma dec_replayItems_stop:
  "length its \<le> idx \<Longrightarrow> dec_replayItems its target idx d win = Some (True, None, idx, d, win)"
  "idx < length its \<Longrightarrow> target \<le> win_Available win
    \<Longrightarrow> dec_replayItems its target idx d win = Some (False, None, idx, d, win)"
  by (subst dec_replayItems.simps, simp)+

lemma dec_replayItems_step:
  assumes "idx < length its" and "win_Available win < target" and "dec_replayItem its idx d win = (idx', res)"
  shows "dec_replayItems its target idx d win
    = Option.bind res (\<lambda>(e, d2, win2). case e of
        Some x \<Rightarrow> Some (False, Some x, idx', d2, win2)
      | None \<Rightarrow> dec_replayItems its target idx' d2 win2)"
  using assms by (subst dec_replayItems.simps) simp

lemma dec_inline_loop_step:
  assumes "win_Available win < target" and "hf_ReadSym (ts_main (d_tables d)) r = (Inr sm, r1)"
  shows "dec_inline_loop target (d\<lparr>d_br := Some r\<rparr>) win
    = Option.bind (dec_decodeSymbol (d\<lparr>d_br := Some r1\<rparr>) win sm) (\<lambda>(e, d2, win2). case e of
        Some x \<Rightarrow> (let x = mapInnerErr x in
          if x = ErrDecoderOutOfData then Some (False, Some x, d2, win2)
          else Some (True, Some x, d2\<lparr>d_br := None\<rparr>, win2))
      | None \<Rightarrow> dec_inline_loop target d2 win2)"
  using assms by (subst dec_inline_loop.simps) (simp cong: option.case_cong)

lemma replay_agrees_loop:
  assumes "ts_ok ts" and "d_tables d = ts" and "block_fits br"
    and "dbi_loop ts cap br its0 = (its, part, e, br')"
  shows "replay_agrees target ts cap (its, part, e, br')
     (dec_replayItems its target (length its0) (d\<lparr>d_br := None\<rparr>) win)
     (dec_inline_loop target (d\<lparr>d_br := Some br\<rparr>) win)"
  using assms
proof (induction "cap - length its0" arbitrary: its0 br d win rule: less_induct)
  case less
  note ts = less.prems(1) and tabs = less.prems(2) and fits = less.prems(3) and R = less.prems(4)
  obtain rest where ext: "its = its0 @ rest" using dbi_loop_extends [OF R] by blast
  have here: "replay_agrees target ts cap (its, part, e, br') (Some (b, None, length its0, d\<lparr>d_br := None\<rparr>, win))
      (dec_inline_loop target (d\<lparr>d_br := Some br\<rparr>) win)"
    if "if b then rest = [] else target \<le> win_Available win" for b
    unfolding replay_agrees_def using R ext fits tabs that
    by (auto intro!: exI [of _ br])
  show ?case
  proof (cases "rest = [] \<or> target \<le> win_Available win")
    case True
    show ?thesis
    proof (cases "rest = []")
      case True
      with here [of True] show ?thesis by (simp add: ext dec_replayItems_stop(1))
    next
      case False
      with True here [of False] show ?thesis by (simp add: ext dec_replayItems_stop(2))
    qed
  next
    case False
    then have ne: "rest \<noteq> []" and av: "win_Available win < target" by auto
    have full: "\<not> cap \<le> length its0 + 1"
      using R ne ext by (subst (asm) dbi_loop.simps) (auto split: if_splits)
    obtain sm br1 where rs: "hf_ReadSym (ts_main ts) br = (Inr sm, br1)"
      using R ne ext full
      by (subst (asm) dbi_loop.simps) (cases "hf_ReadSym (ts_main ts) br"; cases "fst (hf_ReadSym (ts_main ts) br)"; auto)
    obtain cl where tab: "hf_table (ts_main ts) cl" and cl: "length cl = mainSize5"
      using ts by (auto simp: ts_ok_def table_for_def)
    note S = hf_ReadSym_reach [OF rs tab fits]
    have fits1: "block_fits br1" and sm: "sm < mainSize5"
      using block_fits_reach [OF fits S(1)] S(2) [OF refl] cl by (auto simp: mainSize5_def)
    have T: "turn_ok d win sm br1 its0 cap (its, part, e, br')"
      using turn [of d br1 sm cap its0 br win] ts fits1 sm full rs tabs R by simp
    from T show ?thesis unfolding turn_ok_def
    proof (elim disjE exE conjE)
      fix x br2
      assume "(its, part, e, br') = (its0, False, Some (mapInnerErr x), br2)"
      then show ?thesis using ne ext by simp
    next
      fix br2 new res
      assume reach: "br_reach br1 br2" and new: "new \<noteq> []"
        and R2: "(its, part, e, br') = dbi_loop (d_tables d) cap br2 (its0 @ new)"
        and keep: "keeps_bits (d\<lparr>d_br := None\<rparr>) res"
        and ser: "dec_decodeSymbol (d\<lparr>d_br := Some br1\<rparr>) win sm = set_br (Some br2) res"
        and rep: "\<forall>rest. \<exists>idx. dec_replayItem (its0 @ new @ rest) (length its0) (d\<lparr>d_br := None\<rparr>) win = (idx, res)
             \<and> ((\<exists>y d' w. res = Some (Some y, d', w)) \<or> idx = length (its0 @ new))"
      have R2': "dbi_loop ts cap br2 (its0 @ new) = (its, part, e, br')" using R2 tabs by simp
      obtain rest2 where its: "its = its0 @ new @ rest2" using dbi_loop_extends [OF R2'] by auto
      obtain idx where it: "dec_replayItem its (length its0) (d\<lparr>d_br := None\<rparr>) win = (idx, res)"
        and idx: "(\<exists>y d' w. res = Some (Some y, d', w)) \<or> idx = length (its0 @ new)"
        using rep its by blast
      have lt: "length its0 < length its" using its new by simp
      note rstep = dec_replayItems_step [OF lt av it]
      have rs': "hf_ReadSym (ts_main (d_tables d)) br = (Inr sm, br1)" using rs tabs by simp
      note istep = dec_inline_loop_step [OF av rs', unfolded ser]
      show ?thesis
      proof (cases res)
        case None
        then show ?thesis using rstep istep by (simp add: replay_agrees_def)
      next
        case (Some r)
        obtain e2 d2 win2 where r: "res = Some (e2, d2, win2)" using Some by (cases r) auto
        have d2: "d_br d2 = None" "d_tables d2 = ts" "e2 \<noteq> Some EOF" "e2 \<noteq> Some ErrDecoderOutOfData"
          using keep r tabs by (simp_all add: keeps_bits_def)
        show ?thesis
        proof (cases e2)
          case (Some x)
          then show ?thesis
            using rstep istep r d2 by (simp add: replay_agrees_def mapInnerErr_def Let_def)
        next
          case None
          then have idx': "idx = length (its0 @ new)" using idx r by simp
          have upd: "d2\<lparr>d_br := None\<rparr> = d2" using d2(1) by simp
          have "cap - length (its0 @ new) < cap - length its0" using full new by (cases new) auto
          from less.hyps [OF this ts d2(2) block_fits_reach [OF fits1 reach] R2', of win2]
          show ?thesis using rstep istep r None idx' upd by simp
        qed
      qed
    qed
  qed
qed

text \<open>How the block ends once every item has been replayed and the window wants more.\<close>

definition block_end ::
  "nat \<Rightarrow> 's decoder50 \<Rightarrow> window \<Rightarrow> bool \<Rightarrow> err option \<Rightarrow> bitReader
     \<Rightarrow> (bool \<times> err option \<times> 's decoder50 \<times> window) option" where
  "block_end target d win part e br' =
     (if part then dec_inline_loop target (d\<lparr>d_br := Some br'\<rparr>) win
      else case e of
        None \<Rightarrow> Some (True, None, d\<lparr>d_br := None\<rparr>, win)
      | Some x \<Rightarrow>
          if x = ErrDecoderOutOfData then Some (False, Some x, d\<lparr>d_br := Some br'\<rparr>, win)
          else Some (True, Some x, d\<lparr>d_br := None\<rparr>, win))"

lemma replay_end:
  assumes "ts_ok (d_tables d)" and "block_fits r" and "win_Available win < target"
    and R: "(its, part, e, br') = dbi_loop (d_tables d) cap r its"
  shows "dec_inline_loop target (d\<lparr>d_br := Some r\<rparr>) win = block_end target d win part e br'"
proof (cases "cap \<le> length its + 1")
  case True
  then show ?thesis using R by (subst (asm) dbi_loop.simps) (simp add: block_end_def)
next
  case full: False
  obtain cl where tab: "hf_table (ts_main (d_tables d)) cl" and cl: "length cl = mainSize5"
    using assms(1) by (auto simp: ts_ok_def table_for_def)
  obtain res r1 where rs: "hf_ReadSym (ts_main (d_tables d)) r = (res, r1)" by fastforce
  note S = hf_ReadSym_reach [OF rs tab assms(2)]
  show ?thesis
  proof (cases res)
    case (Inl x)
    then have "part = False" "e = (if x = EOF then None else Some x)"
      using R full rs by (simp_all add: dbi_loop.simps [of _ _ r its])
    moreover have "dec_inline_loop target (d\<lparr>d_br := Some r\<rparr>) win
        = Some (True, if x = EOF then None else Some x, d\<lparr>d_br := None\<rparr>, win)"
      using Inl rs assms(3) by (subst dec_inline_loop.simps) simp
    ultimately show ?thesis using S(3) [OF Inl] by (auto simp: block_end_def)
  next
    case (Inr sm)
    have fits1: "block_fits r1" and sm: "sm < mainSize5"
      using block_fits_reach [OF assms(2) S(1)] S(2) [OF Inr] cl by (auto simp: mainSize5_def)
    have T: "turn_ok d win sm r1 its cap (its, part, e, br')"
      using turn [of d r1 sm cap its r win] assms(1) fits1 sm full rs Inr R by simp
    note istep = dec_inline_loop_step [OF assms(3) rs [unfolded Inr]]
    from T show ?thesis unfolding turn_ok_def
    proof (elim disjE exE conjE)
      fix x br2
      assume "dec_decodeSymbol (d\<lparr>d_br := Some r1\<rparr>) win sm = Some (Some x, d\<lparr>d_br := Some br2\<rparr>, win)"
        "(its, part, e, br') = (its, False, Some (mapInnerErr x), br2)"
      then show ?thesis using istep by (simp add: block_end_def Let_def)
    next
      fix br2 new and res :: "'s dec_result"
      assume "new \<noteq> []" and "(its, part, e, br') = dbi_loop (d_tables d) cap br2 (its @ new)"
      then show ?thesis using dbi_loop_extends [of "d_tables d" cap br2 "its @ new" its part e br'] by simp
    qed
  qed
qed

subsection \<open>Properties\<close>

text \<open>C8. The parallel path is the serial path: for every block, tables, window and fill target,
  replaying the items a worker decoded from the block's bits leaves the same window and the
  same decoder state as decoding and applying symbol by symbol, stops at the same symbol when
  the window has enough, meets the same error at the same place, and, when the block ran out
  inside a symbol or the item array filled up, hands the serial code exactly the bit position
  it would have reached.\<close>

theorem worker_replay_is_serial:
  assumes "dec_ok d" and "d_br d = Some br" and "bj_tables j = d_tables d" and "bj_resume j = Some br"
    and "j' = decodeBlockItems j"
  shows "case dec_replayItems (bj_items j') target 0 (d\<lparr>d_br := None\<rparr>) win of
      None \<Rightarrow> dec_inline_loop target d win = None
    | Some (done, Some x, idx, d1, win1) \<Rightarrow>
        dec_inline_loop target d win = Some (True, Some x, d1\<lparr>d_br := None\<rparr>, win1)
    | Some (done, None, idx, d1, win1) \<Rightarrow>
        if target \<le> win_Available win1
        then \<exists>r. dec_inline_loop target d win = Some (False, None, d1\<lparr>d_br := Some r\<rparr>, win1)
        else done \<and> dec_inline_loop target d win
          = block_end target d1 win1 (bj_partial j') (bj_err j') (the (bj_resume j'))"
proof -
  note D = dec_ok_parts [OF assms(1)]
  obtain its part e br' where R: "dbi_loop (d_tables d) (bj_cap j) br [] = (its, part, e, br')"
    by (cases "dbi_loop (d_tables d) (bj_cap j) br []" rule: prod_cases4)
  have j': "bj_items j' = its" "bj_partial j' = part" "bj_err j' = e" "bj_resume j' = Some br'"
    using R assms(3-5) by (simp_all add: decodeBlockItems_def)
  have d: "d\<lparr>d_br := Some br\<rparr> = d" using assms(2) by simp
  have A: "replay_agrees target (d_tables d) (bj_cap j) (its, part, e, br')
     (dec_replayItems its target 0 (d\<lparr>d_br := None\<rparr>) win) (dec_inline_loop target d win)"
    using replay_agrees_loop [OF D(3) refl D(6) [OF assms(2)] R, of target win] by (simp only: d list.size)
  show ?thesis
  proof (cases "dec_replayItems its target 0 (d\<lparr>d_br := None\<rparr>) win")
    case None
    then show ?thesis using A j' by (simp add: replay_agrees_def)
  next
    case (Some y)
    obtain dn x idx d1 win1 where y: "y = (dn, x, idx, d1, win1)" by (cases y rule: prod_cases5)
    show ?thesis
    proof (cases x)
      case (Some z)
      then show ?thesis using A j' y \<open>_ = Some y\<close> by (simp add: replay_agrees_def)
    next
      case None
      then obtain r where r: "block_fits r" "d_tables d1 = d_tables d" "idx \<le> length its"
        "(its, part, e, br') = dbi_loop (d_tables d) (bj_cap j) r (take idx its)"
        "dec_inline_loop target d win = dec_inline_loop target (d1\<lparr>d_br := Some r\<rparr>) win1"
        "if dn then idx = length its else target \<le> win_Available win1"
        using A [unfolded replay_agrees_def Some y None] by (simp only: option.case prod.case fst_conv) blast
      show ?thesis
      proof (cases "target \<le> win_Available win1")
        case True
        have "dec_inline_loop target d win = Some (False, None, d1\<lparr>d_br := Some r\<rparr>, win1)"
          unfolding r(5) by (rule dec_inline_loop_stop [OF True])
        then show ?thesis using y Some None True j' by auto
      next
        case False
        then have "dn" "idx = length its" using r(6) by (auto split: if_splits)
        then have "dec_inline_loop target (d1\<lparr>d_br := Some r\<rparr>) win1 = block_end target d1 win1 part e br'"
          using replay_end [of d1 r win1 target its part e br' "bj_cap j"] D(3) r False by simp
        then show ?thesis using r(5) y Some None j' False \<open>dn\<close> by simp
      qed
    qed
  qed
qed

definition demo_job :: blockJob where
  "demo_job = \<lparr>bj_payload = [0xFF], bj_bits = 8, bj_lastBlock = True, bj_tables = ts_prewarm ts_empty,
     bj_cap = itemCap, bj_items = [], bj_partial = False, bj_resume = Some (newBitReader [0xFF] 8), bj_err = None\<rparr>"

definition demo_decoder :: "stream decoder50" where
  "demo_decoder = (newDecoder50 demo_source)\<lparr>d_br := Some (newBitReader [0xFF] 8)\<rparr>"

theorem worker_replay_is_serial_witness:
  "case dec_replayItems (bj_items (decodeBlockItems demo_job)) 1 0 (demo_decoder\<lparr>d_br := None\<rparr>) (newWindow 0) of
      None \<Rightarrow> dec_inline_loop 1 demo_decoder (newWindow 0) = None
    | Some (done, Some x, idx, d1, win1) \<Rightarrow>
        dec_inline_loop 1 demo_decoder (newWindow 0) = Some (True, Some x, d1\<lparr>d_br := None\<rparr>, win1)
    | Some (done, None, idx, d1, win1) \<Rightarrow>
        if 1 \<le> win_Available win1
        then \<exists>r. dec_inline_loop 1 demo_decoder (newWindow 0) = Some (False, None, d1\<lparr>d_br := Some r\<rparr>, win1)
        else done \<and> dec_inline_loop 1 demo_decoder (newWindow 0)
          = block_end 1 d1 win1 (bj_partial (decodeBlockItems demo_job)) (bj_err (decodeBlockItems demo_job))
              (the (bj_resume (decodeBlockItems demo_job)))"
proof -
  have fits: "block_fits (newBitReader [0xFF] 8)" by (rule block_fits_new) simp
  have ok: "dec_ok demo_decoder"
    using newDecoder50_ok [of demo_source] fits unfolding demo_decoder_def dec_ok_def by simp
  have br: "d_br demo_decoder = Some (newBitReader [0xFF] 8)" by (simp add: demo_decoder_def)
  have tabs: "bj_tables demo_job = d_tables demo_decoder"
    by (simp add: demo_decoder_def demo_job_def newDecoder50_def)
  have resume: "bj_resume demo_job = Some (newBitReader [0xFF] 8)" by (simp add: demo_job_def)
  show ?thesis
    using worker_replay_is_serial [where target = 1 and win = "newWindow 0", OF ok br tabs resume refl] .
qed

end
