(* ===== verification/Pipeline.thy ===== *)
theory Pipeline
  imports Worker
begin

section \<open>Decoding ahead with workers (decoder50_parallel.go)\<close>

text \<open>
  \<^verbatim>\<open>blockPipeline\<close>: blocks are read ahead of the window into a ring of jobs, workers decode
  their bits into items, and the traversal replays the items oldest first. \<open>bp_ring\<close> is the
  part of the ring in flight, oldest first (\<^verbatim>\<open>slots[head]\<close> and the \<^verbatim>\<open>count - 1\<close> behind
  it). Tables are shared: a job names its set by \<open>pj_tablesIdx\<close>, and a worker reads the set
  when it decodes, whenever that is; so a set that is loaded again too early would show.

  What other goroutines do is \<open>bp_events\<close>: each time the traversal submits a job or waits for
  one, the head of the list says what has happened since: workers completing jobs (by place
  in the ring) and \<^verbatim>\<open>stop\<close> closing the quit channel. \<open>bp_picks\<close> decides a \<^verbatim>\<open>select\<close> with
  both cases ready.
\<close>

subsection \<open>State\<close>

datatype happening = Work nat | Stop

text \<open>The scheduling half of \<^verbatim>\<open>blockJob\<close>; \<open>pj_done\<close>: the token is in the channel.\<close>

record pipeJob =
  pj_job :: blockJob
  pj_tablesIdx :: nat
  pj_oversize :: bool
  pj_waited :: bool
  pj_done :: bool

record pipeline =
  bp_workers :: nat
  bp_payloadLimit :: nat
  bp_ring :: "pipeJob list"
  bp_idx :: nat
  bp_inline :: bool
  bp_tables :: "tableSet list"
  bp_inUse :: "nat list"
  bp_cur :: nat
  bp_pendingErr :: "err option"
  bp_sawLast :: bool
  bp_engaged :: bool
  bp_oversizePending :: bool
  bp_codeLength :: "nat list"
  bp_bitlen :: huffmanDecoder
  bp_quit :: bool
  bp_events :: "happening list list"
  bp_picks :: "bool list"

definition maxWorkers :: nat where "maxWorkers = 8"
definition maxParallelPayload :: nat where "maxParallelPayload = 4194304"

text \<open>\<^verbatim>\<open>len(p.slots)\<close>.\<close>

definition bp_slots :: "pipeline \<Rightarrow> nat" where
  "bp_slots p = 2 * bp_workers p"

definition newBlockPipeline :: "nat \<Rightarrow> happening list list \<Rightarrow> bool list \<Rightarrow> pipeline" where
  "newBlockPipeline workers events picks =
     \<lparr>bp_workers = workers, bp_payloadLimit = maxParallelPayload, bp_ring = [], bp_idx = 0, bp_inline = False,
      bp_tables = replicate (2 * workers + 1) (ts_prewarm ts_empty), bp_inUse = replicate (2 * workers + 1) 0,
      bp_cur = 0, bp_pendingErr = None, bp_sawLast = False, bp_engaged = False, bp_oversizePending = False,
      bp_codeLength = replicate tableSize5 0, bp_bitlen = hf_empty, bp_quit = False,
      bp_events = events, bp_picks = picks\<rparr>"

subsection \<open>The ring\<close>

text \<open>The first set no job in flight uses; \<open>None\<close> is the code's panic.\<close>

definition freeTableSet :: "pipeline \<Rightarrow> nat option" where
  "freeTableSet p = find (\<lambda>i. bp_inUse p ! i = 0) [0..<length (bp_inUse p)]"

definition bp_pop :: "pipeline \<Rightarrow> pipeline" where
  "bp_pop p =
     (let j = hd (bp_ring p); i = pj_tablesIdx j
      in p\<lparr>bp_inUse := (bp_inUse p)[i := bp_inUse p ! i - 1],
           bp_oversizePending := (if pj_oversize j then False else bp_oversizePending p),
           bp_ring := tl (bp_ring p), bp_idx := 0, bp_inline := False\<rparr>)"

text \<open>\<^verbatim>\<open>drain\<close> waits for each job in flight, or for the quit channel, and pops it.\<close>

definition bp_drain :: "pipeline \<Rightarrow> pipeline" where
  "bp_drain p = (bp_pop ^^ length (bp_ring p)) p"

subsection \<open>The workers\<close>

text \<open>A worker that holds job \<open>j\<close> decodes it with the tables as they are now.\<close>

definition bp_decode :: "pipeline \<Rightarrow> pipeJob \<Rightarrow> pipeJob" where
  "bp_decode p j =
     j\<lparr>pj_job := decodeBlockItems ((pj_job j)\<lparr>bj_tables := bp_tables p ! pj_tablesIdx j\<rparr>), pj_done := True\<rparr>"

definition bp_work :: "nat \<Rightarrow> pipeline \<Rightarrow> pipeline" where
  "bp_work k p =
     (if k < length (bp_ring p)
      then let j = bp_ring p ! k
           in if pj_done j \<or> pj_waited j then p else p\<lparr>bp_ring := (bp_ring p)[k := bp_decode p j]\<rparr>
      else p)"

fun bp_happen :: "happening \<Rightarrow> pipeline \<Rightarrow> pipeline" where
  "bp_happen (Work k) p = bp_work k p"
| "bp_happen Stop p = p\<lparr>bp_quit := True\<rparr>"

definition bp_point :: "pipeline \<Rightarrow> pipeline" where
  "bp_point p =
     (case bp_events p of
        [] \<Rightarrow> p
      | hs # es \<Rightarrow> fold bp_happen hs (p\<lparr>bp_events := es\<rparr>))"

text \<open>A \<^verbatim>\<open>select\<close> between a case that is ready and the quit channel: whether it takes the latter.\<close>

definition bp_takes_quit :: "pipeline \<Rightarrow> bool \<times> pipeline" where
  "bp_takes_quit p =
     (if bp_quit p then (bp_picks p \<noteq> [] \<and> hd (bp_picks p), p\<lparr>bp_picks := tl (bp_picks p)\<rparr>) else (False, p))"

text \<open>\<^verbatim>\<open>submit\<close>, which puts the job behind the others.\<close>

definition bp_submit :: "pipeJob \<Rightarrow> pipeline \<Rightarrow> pipeline" where
  "bp_submit j p =
     (if pj_oversize j
      then p\<lparr>bp_ring := bp_ring p
               @ [j\<lparr>pj_job := (pj_job j)\<lparr>bj_partial := True, bj_items := [], bj_err := None\<rparr>, pj_done := True\<rparr>]\<rparr>
      else case bp_takes_quit (bp_point p) of (quits, p) \<Rightarrow>
             p\<lparr>bp_ring := bp_ring p
                 @ [if quits
                    then j\<lparr>pj_job := (pj_job j)\<lparr>bj_items := [], bj_partial := False, bj_err := Some ErrReaderClosed\<rparr>,
                           pj_done := True\<rparr>
                    else j]\<rparr>)"

text \<open>
  \<^verbatim>\<open>wait\<close> for the oldest job. When nothing has stopped the pipeline a worker completes the job
  in the end.
\<close>

definition bp_wait :: "pipeline \<Rightarrow> err option \<times> pipeline" where
  "bp_wait p =
     (if pj_waited (hd (bp_ring p)) then (None, p)
      else let p = bp_point p;
               p = (if bp_quit p then p else bp_work 0 p)
           in if pj_done (hd (bp_ring p))
              then (case bp_takes_quit p of (quits, p) \<Rightarrow>
                      if quits then (Some ErrReaderClosed, p)
                      else (None, p\<lparr>bp_ring := (hd (bp_ring p))\<lparr>pj_waited := True, pj_done := False\<rparr> # tl (bp_ring p)\<rparr>))
              else (Some ErrReaderClosed, p))"

subsection \<open>Reading ahead\<close>

text \<open>
  The tables a block brings: read into the pipeline's code lengths and loaded into the
  current set, or into a free one when a job in flight uses the current one.
\<close>

definition bp_load :: "bitReader \<Rightarrow> pipeline \<Rightarrow> (err option \<times> bitReader \<times> pipeline) option" where
  "bp_load br p =
     (case readCodeLengthTable br (bp_codeLength p) (bp_bitlen p) of
        (e, cl, sc, br) \<Rightarrow>
          let p = p\<lparr>bp_codeLength := cl, bp_bitlen := sc\<rparr>
          in case e of
               Some x \<Rightarrow> Some (Some x, br, p)
             | None \<Rightarrow>
                 Option.bind (if 0 < bp_inUse p ! bp_cur p then freeTableSet p else Some (bp_cur p)) (\<lambda>k.
                   case ts_load (bp_tables p ! k) cl of (e, ts) \<Rightarrow>
                     let p = p\<lparr>bp_tables := (bp_tables p)[k := ts]\<rparr>
                     in Some (e, br, if e = None then p\<lparr>bp_cur := k\<rparr> else p)))"

text \<open>One turn of \<^verbatim>\<open>readAhead\<close>, which reads from the decoder's source.\<close>

definition bp_readBlock ::
  "'s full_reading \<Rightarrow> 's decoder50 \<Rightarrow> pipeline \<Rightarrow> ('s decoder50 \<times> pipeline) option" where
  "bp_readBlock rf d p =
     Option.bind (readBlockHead rf (d_r d)) (\<lambda>(h, s). case h of
        Inl e \<Rightarrow> Some (d\<lparr>d_r := s\<rparr>, p\<lparr>bp_pendingErr := Some e\<rparr>)
      | Inr h \<Rightarrow>
          Option.bind (rf s (bh_blockBytes h)) (\<lambda>(payload, e, s). let d = d\<lparr>d_r := s\<rparr> in case e of
             Some e \<Rightarrow> Some (d, p\<lparr>bp_pendingErr := Some e\<rparr>)
           | None \<Rightarrow>
               let br = newBitReader payload (bh_blockBits h); oversize = bp_payloadLimit p < bh_blockBytes h
               in Option.bind (if bh_newTables h then bp_load br p else Some (None, br, p)) (\<lambda>(e, br, p). case e of
                    Some e \<Rightarrow> Some (d, p\<lparr>bp_pendingErr := Some e\<rparr>)
                  | None \<Rightarrow>
                      let i = bp_cur p;
                          j = \<lparr>pj_job = \<lparr>bj_payload = payload, bj_bits = bh_blockBits h, bj_lastBlock = bh_lastBlock h,
                                          bj_tables = bp_tables p ! i, bj_cap = itemCap, bj_items = [],
                                          bj_partial = False, bj_resume = Some br, bj_err = None\<rparr>,
                               pj_tablesIdx = i, pj_oversize = oversize, pj_waited = False, pj_done = False\<rparr>;
                          p = p\<lparr>bp_oversizePending := (oversize \<or> bp_oversizePending p),
                                bp_inUse := (bp_inUse p)[i := bp_inUse p ! i + 1], bp_sawLast := bh_lastBlock h\<rparr>
                      in Some (d, bp_submit j p))))"

fun bp_readAhead_loop ::
  "nat \<Rightarrow> 's full_reading \<Rightarrow> 's decoder50 \<Rightarrow> pipeline \<Rightarrow> ('s decoder50 \<times> pipeline) option" where
  "bp_readAhead_loop 0 rf d p = Some (d, p)"
| "bp_readAhead_loop (Suc free) rf d p =
     (if bp_sawLast p \<or> bp_pendingErr p \<noteq> None \<or> bp_oversizePending p then Some (d, p)
      else Option.bind (bp_readBlock rf d p) (\<lambda>(d, p). bp_readAhead_loop free rf d p))"

text \<open>A turn either adds a job to the ring or records an error, so the loop is over when the free slots are.\<close>

definition bp_readAhead :: "'s full_reading \<Rightarrow> 's decoder50 \<Rightarrow> pipeline \<Rightarrow> ('s decoder50 \<times> pipeline) option" where
  "bp_readAhead rf d p = bp_readAhead_loop (bp_slots p - length (bp_ring p)) rf d p"

subsection \<open>Filling the window\<close>

text \<open>
  One turn of the loop of \<^verbatim>\<open>fillParallel\<close>: \<open>Some e\<close> is a \<^verbatim>\<open>return\<close> of \<open>e\<close>, \<open>None\<close> goes on.
  \<open>par_inline\<close> is the part that finishes a block in the traversal, \<open>par_next\<close> what follows a
  block that is over.
\<close>

type_synonym 's par_result = "(err option option \<times> 's decoder50 \<times> pipeline \<times> window) option"

definition par_next :: "'s full_reading \<Rightarrow> 's decoder50 \<Rightarrow> pipeline \<Rightarrow> window \<Rightarrow> 's par_result" where
  "par_next rf d p win =
     (let p' = bp_pop p
      in if bj_lastBlock (pj_job (hd (bp_ring p))) then Some (Some (Some EOF), d, p', win)
         else map_option (\<lambda>(d, p). (None, d, p, win)) (bp_readAhead rf d p'))"

definition par_inline :: "'s full_reading \<Rightarrow> nat \<Rightarrow> 's decoder50 \<Rightarrow> pipeline \<Rightarrow> window \<Rightarrow> 's par_result" where
  "par_inline rf target d p win =
     (let j = hd (bp_ring p)
      in Option.bind (dec_finishBlockInline d win ((pj_job j)\<lparr>bj_tables := bp_tables p ! pj_tablesIdx j\<rparr>) target)
        (\<lambda>(over, e, d, win). case e of
            Some x \<Rightarrow> Some (Some (Some x), d, if over then bp_pop p else p, win)
          | None \<Rightarrow> if over then par_next rf d p win else Some (None, d, p, win)))"

definition par_replay :: "'s full_reading \<Rightarrow> nat \<Rightarrow> 's decoder50 \<Rightarrow> pipeline \<Rightarrow> window \<Rightarrow> 's par_result" where
  "par_replay rf target d p win =
     (let j = pj_job (hd (bp_ring p))
      in Option.bind (dec_replayItems (bj_items j) target (bp_idx p) d win) (\<lambda>(exhausted, e, idx, d, win).
           let p = p\<lparr>bp_idx := idx\<rparr>
           in case e of
                Some x \<Rightarrow> Some (Some (Some x), d, p, win)
              | None \<Rightarrow>
                  if \<not> exhausted then Some (Some None, d, p, win)
                  else case bj_err j of
                         Some x \<Rightarrow>
                           if target \<le> win_Available win then Some (Some None, d, p, win)
                           else if x = ErrDecoderOutOfData then Some (Some (Some x), d, p\<lparr>bp_inline := True\<rparr>, win)
                           else Some (Some (Some x), d, bp_pop p, win)
                       | None \<Rightarrow>
                           if \<not> bj_partial j then par_next rf d p win
                           else par_inline rf target d (p\<lparr>bp_inline := True\<rparr>) win))"

definition par_turn :: "'s full_reading \<Rightarrow> nat \<Rightarrow> 's decoder50 \<Rightarrow> pipeline \<Rightarrow> window \<Rightarrow> 's par_result" where
  "par_turn rf target d p win =
     Option.bind (if bp_ring p = [] then bp_readAhead rf d p else Some (d, p)) (\<lambda>(d, p).
       if bp_ring p = []
       then Some (Some (Some (case bp_pendingErr p of Some e \<Rightarrow> e | None \<Rightarrow> EOF)), d, p, win)
       else case bp_wait p of
              (Some e, p) \<Rightarrow> Some (Some (Some e), d, p, win)
            | (None, p) \<Rightarrow> if bp_inline p then par_inline rf target d p win else par_replay rf target d p win)"

partial_function (option) par_fill_loop ::
  "'s full_reading \<Rightarrow> nat \<Rightarrow> 's decoder50 \<Rightarrow> pipeline \<Rightarrow> window \<Rightarrow> (err option \<times> 's decoder50 \<times> pipeline \<times> window) option" where
  "par_fill_loop rf target d p win =
     (if win_Available win < target
      then Option.bind (par_turn rf target d p win) (\<lambda>(x, d, p, win). case x of
             Some e \<Rightarrow> Some (e, d, p, win)
           | None \<Rightarrow> par_fill_loop rf target d p win)
      else Some (None, d, p, win))"

definition fillParallel :: "'s full_reading \<Rightarrow> 's decoder50 \<Rightarrow> pipeline \<Rightarrow> window
    \<Rightarrow> (err option \<times> 's decoder50 \<times> pipeline \<times> window) option" where
  "fillParallel rf d p win = par_fill_loop rf (win_fillTarget win) d p win"

subsection \<open>Engaging, and stopping\<close>

definition bp_disengage :: "'s decoder50 \<Rightarrow> pipeline \<Rightarrow> 's decoder50 \<times> pipeline" where
  "bp_disengage d p =
     (let p = bp_drain p
      in (d\<lparr>d_tables := ts_copyFrom (d_tables d) (bp_tables p ! bp_cur p)\<rparr>, p\<lparr>bp_engaged := False\<rparr>))"

definition bp_engage :: "'s decoder50 \<Rightarrow> pipeline \<Rightarrow> pipeline option" where
  "bp_engage d p =
     (let p = (bp_drain p)\<lparr>bp_idx := 0, bp_inline := False, bp_pendingErr := None, bp_sawLast := False\<rparr>
      in map_option (\<lambda>p. p\<lparr>bp_engaged := True\<rparr>)
           (if bp_engaged p then Some p
            else map_option (\<lambda>k. p\<lparr>bp_cur := k, bp_tables := (bp_tables p)[k := ts_copyFrom (bp_tables p ! k) (d_tables d)]\<rparr>)
                   (freeTableSet p)))"

text \<open>
  \<^verbatim>\<open>setPipeline\<close>; \<open>stopped\<close> is the latch a \<^verbatim>\<open>Close\<close> before the first pipeline leaves,
  \<open>events\<close> and \<open>picks\<close> are what a new pipeline will meet.
\<close>

definition setPipeline ::
  "nat \<Rightarrow> bool \<Rightarrow> happening list list \<Rightarrow> bool list \<Rightarrow> 's decoder50 \<Rightarrow> pipeline option
     \<Rightarrow> ('s decoder50 \<times> pipeline option) option" where
  "setPipeline workers stopped events picks d pipe =
     (if workers \<le> 1
      then Some (case pipe of
             Some p \<Rightarrow> if bp_engaged p then map_prod id Some (bp_disengage d p) else (d, pipe)
           | None \<Rightarrow> (d, pipe))
      else let workers = min workers maxWorkers
           in case (case pipe of
                      Some p \<Rightarrow>
                        if bp_workers p = workers then (d, p)
                        else ((if bp_engaged p then fst (bp_disengage d p) else d),
                              (newBlockPipeline workers events picks)\<lparr>bp_quit := stopped\<rparr>)
                    | None \<Rightarrow> (d, (newBlockPipeline workers events picks)\<lparr>bp_quit := stopped\<rparr>)) of
                (d, p) \<Rightarrow> map_option (\<lambda>p. (d, Some p)) (bp_engage d p))"

text \<open>\<^verbatim>\<open>stopWorkers\<close> and \<^verbatim>\<open>restartWorkers\<close> of a pipeline that exists.\<close>

definition bp_stop :: "pipeline \<Rightarrow> pipeline" where
  "bp_stop p = p\<lparr>bp_quit := True\<rparr>"

definition bp_restart :: "pipeline \<Rightarrow> pipeline" where
  "bp_restart p = (if bp_quit p then (bp_drain p)\<lparr>bp_quit := False\<rparr> else p)"

end
