(* ===== verification/Lockstep.thy ===== *)
theory Lockstep
  imports Pipeline
begin

section \<open>The parallel path is the serial path\<close>

text \<open>
  Filling through the pipeline leaves the same window and meets the same errors at the same
  places as the serial decoder, call by call, however the workers are scheduled: a simulation
  between the two, in which the serial decoder is behind by the blocks in the ring.
\<close>

subsection \<open>Fields that a step does not look at\<close>

text \<open>
  \<open>into x d\<close> is \<open>d\<close> with the fields about blocks of \<open>x\<close>: applying items works on the others.
  \<open>onto x d\<close> leaves the block in hand alone: decoding symbols does not look at the source.
\<close>

definition into :: "'s decoder50 \<Rightarrow> 's decoder50 \<Rightarrow> 's decoder50" where
  "into x d = d\<lparr>d_r := d_r x, d_br := d_br x, d_codeLength := d_codeLength x, d_lastBlock := d_lastBlock x,
                d_tables := d_tables x, d_bitlen := d_bitlen x\<rparr>"

definition onto :: "'s decoder50 \<Rightarrow> 's decoder50 \<Rightarrow> 's decoder50" where
  "onto x d = d\<lparr>d_r := d_r x, d_codeLength := d_codeLength x, d_bitlen := d_bitlen x\<rparr>"

lemma into_fields [simp]:
  "d_r (into x d) = d_r x" "d_br (into x d) = d_br x" "d_codeLength (into x d) = d_codeLength x"
  "d_lastBlock (into x d) = d_lastBlock x" "d_tables (into x d) = d_tables x" "d_bitlen (into x d) = d_bitlen x"
  "d_offset (into x d) = d_offset d" "d_length (into x d) = d_length d" "d_fl (into x d) = d_fl d"
  "d_outbuf (into x d) = d_outbuf d" "d_tot (into x d) = d_tot d" "d_decoded (into x d) = d_decoded d"
  "d_dictSize (into x d) = d_dictSize d"
  by (simp_all add: into_def)

lemma onto_fields [simp]:
  "d_r (onto x d) = d_r x" "d_br (onto x d) = d_br d" "d_codeLength (onto x d) = d_codeLength x"
  "d_lastBlock (onto x d) = d_lastBlock d" "d_tables (onto x d) = d_tables d" "d_bitlen (onto x d) = d_bitlen x"
  "d_offset (onto x d) = d_offset d" "d_length (onto x d) = d_length d" "d_fl (onto x d) = d_fl d"
  "d_outbuf (onto x d) = d_outbuf d" "d_tot (onto x d) = d_tot d" "d_decoded (onto x d) = d_decoded d"
  "d_dictSize (onto x d) = d_dictSize d"
  by (simp_all add: onto_def)

lemma into_into [simp]: "into x (into y d) = into x d"
  by (simp add: into_def)

lemma onto_update [simp]: "onto x (d\<lparr>d_br := b\<rparr>) = (onto x d)\<lparr>d_br := b\<rparr>"
  by (simp add: onto_def)

text \<open>A step on the decoder and the window that leaves what \<open>g\<close> sets alone.\<close>

definition through :: "('s decoder50 \<Rightarrow> 's decoder50) \<Rightarrow> 's dec_result \<Rightarrow> 's dec_result" where
  "through g res = map_option (\<lambda>(e, d, w). (e, g d, w)) res"

lemma through_simps [simp]: "through g None = None" "through g (Some (e, d, w)) = Some (e, g d, w)"
  by (simp_all add: through_def)

lemma dec_replayMatch_into: "dec_replayMatch (into x d) win = through (into x) (dec_replayMatch d win)"
  by (cases "win_CopyBytes win (d_length d) (d_offset d ! 0)")
    (auto simp: dec_replayMatch_def dec_copyMatch_def into_def split: option.splits)

lemma apply_into:
  "dec_literal (into x d) win c = through (into x) (dec_literal d win c)"
  "dec_applyMatch (into x d) win len dist = through (into x) (dec_applyMatch d win len dist)"
  "dec_applyRepDist (into x d) win slot len = through (into x) (dec_applyRepDist d win slot len)"
  "dec_applyRepLast (into x d) win = through (into x) (dec_applyRepLast d win)"
  "dec_queueFilter (into x d) win off len ft param = (case dec_queueFilter d win off len ft param of (e, d') \<Rightarrow> (e, into x d'))"
proof -
  show "dec_literal (into x d) win c = through (into x) (dec_literal d win c)"
    by (simp add: dec_literal_def into_def)
  have u: "(into x d)\<lparr>d_offset := os, d_length := l\<rparr> = into x (d\<lparr>d_offset := os, d_length := l\<rparr>)" for os l
    by (simp add: into_def)
  show "dec_applyMatch (into x d) win len dist = through (into x) (dec_applyMatch d win len dist)"
    "dec_applyRepDist (into x d) win slot len = through (into x) (dec_applyRepDist d win slot len)"
    "dec_applyRepLast (into x d) win = through (into x) (dec_applyRepLast d win)"
    by (simp_all add: dec_applyMatch_def dec_applyRepDist_def dec_applyRepLast_def u dec_replayMatch_into)
  show "dec_queueFilter (into x d) win off len ft param = (case dec_queueFilter d win off len ft param of (e, d') \<Rightarrow> (e, into x d'))"
    by (simp add: dec_queueFilter_def Let_def into_def)
qed

lemma dec_replayItem_into:
  "dec_replayItem its idx (into x d) win = (case dec_replayItem its idx d win of (i, res) \<Rightarrow> (i, through (into x) res))"
  by (simp add: dec_replayItem_def Let_def apply_into split: itemKind.split prod.split)

text \<open>The loops, as far as they return; that is all that is needed of them.\<close>

lemma dec_replayItems_into:
  fixes x d :: "'s decoder50"
  assumes "dec_replayItems its target idx d win = Some y"
  shows "dec_replayItems its target idx (into x d) win = Some (case y of (ex, e, i, d, w) \<Rightarrow> (ex, e, i, into x d, w))"
proof (rule dec_replayItems.raw_induct [where P = "\<lambda>its target idx d win y.
      dec_replayItems its target idx (into x d) win = Some (case y of (ex, e, i, d, w) \<Rightarrow> (ex, e, i, into x d, w))", OF _ assms])
  fix f :: "item list \<Rightarrow> nat \<Rightarrow> nat \<Rightarrow> 's decoder50 \<Rightarrow> window \<Rightarrow> (bool \<times> err option \<times> nat \<times> 's decoder50 \<times> window) option"
    and its :: "item list" and target idx :: nat and d :: "'s decoder50" and win :: window
    and y :: "bool \<times> err option \<times> nat \<times> 's decoder50 \<times> window"
  assume IH: "\<And>its target idx d win y. f its target idx d win = Some y \<Longrightarrow>
        dec_replayItems its target idx (into x d) win = Some (case y of (ex, e, i, d, w) \<Rightarrow> (ex, e, i, into x d, w))"
    and body: "(if idx < length its
      then if target \<le> win_Available win then Some (False, None, idx, d, win)
           else case dec_replayItem its idx d win of (idx', res) \<Rightarrow>
             Option.bind res (\<lambda>(e, d2, win2). case e of
                 None \<Rightarrow> f its target idx' d2 win2
               | Some x \<Rightarrow> Some (False, Some x, idx', d2, win2))
      else Some (True, None, idx, d, win)) = Some y"
  obtain idx' res where it: "dec_replayItem its idx d win = (idx', res)" by fastforce
  then have it': "dec_replayItem its idx (into x d) win = (idx', through (into x) res)" by (simp add: dec_replayItem_into)
  show "dec_replayItems its target idx (into x d) win = Some (case y of (ex, e, i, d, w) \<Rightarrow> (ex, e, i, into x d, w))"
    using body it by (subst dec_replayItems.simps) (cases res; auto simp: it' dest: IH split: if_splits option.splits)
qed

lemma with_bits_onto:
  assumes "\<And>v d. f v (onto x d) = through (onto x) (f v d)"
  shows "with_bits m (onto x d) win f = through (onto x) (with_bits m d win f)"
  by (cases "m (the (d_br d))"; cases "fst (m (the (d_br d)))")
    (auto simp: with_bits_def assms simp flip: onto_update split: sum.split)

lemma apply_onto:
  "dec_literal (onto x d) win c = through (onto x) (dec_literal d win c)"
  "dec_applyMatch (onto x d) win len dist = through (onto x) (dec_applyMatch d win len dist)"
  "dec_applyRepDist (onto x d) win slot len = through (onto x) (dec_applyRepDist d win slot len)"
  "dec_applyRepLast (onto x d) win = through (onto x) (dec_applyRepLast d win)"
  "dec_queueFilter (onto x d) win off len ft param = (case dec_queueFilter d win off len ft param of (e, d') \<Rightarrow> (e, onto x d'))"
proof -
  have m: "dec_replayMatch (onto x d) win = through (onto x) (dec_replayMatch d win)" for d
    by (cases "win_CopyBytes win (d_length d) (d_offset d ! 0)")
      (auto simp: dec_replayMatch_def dec_copyMatch_def onto_def split: option.splits)
  show "dec_literal (onto x d) win c = through (onto x) (dec_literal d win c)"
    by (simp add: dec_literal_def onto_def)
  have u: "(onto x d)\<lparr>d_offset := os, d_length := l\<rparr> = onto x (d\<lparr>d_offset := os, d_length := l\<rparr>)" for os l
    by (simp add: onto_def)
  show "dec_applyMatch (onto x d) win len dist = through (onto x) (dec_applyMatch d win len dist)"
    "dec_applyRepDist (onto x d) win slot len = through (onto x) (dec_applyRepDist d win slot len)"
    "dec_applyRepLast (onto x d) win = through (onto x) (dec_applyRepLast d win)"
    by (simp_all add: dec_applyMatch_def dec_applyRepDist_def dec_applyRepLast_def u m)
  show "dec_queueFilter (onto x d) win off len ft param = (case dec_queueFilter d win off len ft param of (e, d') \<Rightarrow> (e, onto x d'))"
    by (simp add: dec_queueFilter_def Let_def onto_def)
qed

lemma dec_decodeSymbol_onto: "dec_decodeSymbol (onto x d) win sm = through (onto x) (dec_decodeSymbol d win sm)"
  by (simp add: dec_decodeSymbol_def apply_onto dec_decodeOffset_def dec_decodeLength_def dec_readFilter_def,
      intro conjI impI with_bits_onto)
    (auto simp: apply_onto split: prod.split)

lemma dec_inline_loop_onto:
  fixes x d :: "'s decoder50"
  assumes "dec_inline_loop target d win = Some y"
  shows "dec_inline_loop target (onto x d) win = Some (case y of (ov, e, d, w) \<Rightarrow> (ov, e, onto x d, w))"
proof (rule dec_inline_loop.raw_induct [where P = "\<lambda>target d win y.
      dec_inline_loop target (onto x d) win = Some (case y of (ov, e, d, w) \<Rightarrow> (ov, e, onto x d, w))", OF _ assms])
  fix f :: "nat \<Rightarrow> 's decoder50 \<Rightarrow> window \<Rightarrow> (bool \<times> err option \<times> 's decoder50 \<times> window) option"
    and target :: nat and d :: "'s decoder50" and win :: window and y :: "bool \<times> err option \<times> 's decoder50 \<times> window"
  assume IH: "\<And>target d win y. f target d win = Some y \<Longrightarrow>
        dec_inline_loop target (onto x d) win = Some (case y of (ov, e, d, w) \<Rightarrow> (ov, e, onto x d, w))"
    and body: "(if win_Available win < target
      then (case hf_ReadSym (ts_main (d_tables d)) (the (d_br d)) of
              (Inl e, r1) \<Rightarrow> Some (True, if e = EOF then None else Some e, d\<lparr>d_br := None\<rparr>, win)
            | (Inr sm, r1) \<Rightarrow>
                Option.bind (dec_decodeSymbol (d\<lparr>d_br := Some r1\<rparr>) win sm) (\<lambda>(e, d2, win2).
                  case e of
                    None \<Rightarrow> f target d2 win2
                  | Some x \<Rightarrow>
                      let x = mapInnerErr x
                      in if x = ErrDecoderOutOfData then Some (False, Some x, d2, win2)
                         else Some (True, Some x, d2\<lparr>d_br := None\<rparr>, win2)))
      else Some (False, None, d, win)) = Some y"
  obtain res r1 where rs: "hf_ReadSym (ts_main (d_tables d)) (the (d_br d)) = (res, r1)" by fastforce
  show "dec_inline_loop target (onto x d) win = Some (case y of (ov, e, d, w) \<Rightarrow> (ov, e, onto x d, w))"
  proof (cases "dec_decodeSymbol (d\<lparr>d_br := Some r1\<rparr>) win (projr res)")
    case None
    then show ?thesis using body rs by (subst dec_inline_loop.simps) (auto split: sum.splits if_splits)
  next
    case (Some z)
    then obtain e d2 w2 where z: "dec_decodeSymbol (d\<lparr>d_br := Some r1\<rparr>) win (projr res) = Some (e, d2, w2)" by (cases z) auto
    have z': "dec_decodeSymbol ((onto x d)\<lparr>d_br := Some r1\<rparr>) win (projr res) = Some (e, onto x d2, w2)"
      using dec_decodeSymbol_onto [of x "d\<lparr>d_br := Some r1\<rparr>" win "projr res"] z by simp
    show ?thesis using body rs z z' IH
      by (subst dec_inline_loop.simps) (cases res; cases e; auto simp: Let_def split: if_splits)
  qed
qed

subsection \<open>Tables are loaded afresh\<close>

text \<open>
  Loading does not depend on what a table held, so it does not matter into which set: beyond
  the part of the quick arrays it fills, they are as they were made.
\<close>

definition hf_clean :: "nat \<Rightarrow> huffmanDecoder \<Rightarrow> bool" where
  "hf_clean k h \<longleftrightarrow> drop k (hf_quicklen h) = replicate (1024 - k) 0 \<and> drop k (hf_quicksym h) = replicate (1024 - k) 0"

definition ts_clean :: "tableSet \<Rightarrow> bool" where
  "ts_clean ts \<longleftrightarrow> hf_clean 1024 (ts_main ts) \<and> hf_clean 128 (ts_offset ts) \<and> hf_clean 128 (ts_lowoffset ts)
     \<and> hf_clean 128 (ts_length ts)"

lemma hf_quick_length: "length (hf_quick limit pos syms qb is b) = length is"
  by (induction limit pos syms qb "is" b rule: hf_quick.induct) (simp_all add: Let_def)

lemma hf_Init_clean:
  assumes "k = (if 298 \<le> length cl then 1024 else 128)" and "hf_clean k h"
  shows "hf_clean k h' \<Longrightarrow> hf_Init h cl = hf_Init h' cl" and "hf_Init h cl = Inr u \<Longrightarrow> hf_clean k u"
proof -
  show "hf_clean k h' \<Longrightarrow> hf_Init h cl = hf_Init h' cl"
    using assms by (cases h; cases h'; cases "298 \<le> length cl")
      (simp_all add: hf_Init_def Let_def hf_quick_length hf_clean_def split: sum.split)
  show "hf_Init h cl = Inr u \<Longrightarrow> hf_clean k u"
    using assms by (cases "298 \<le> length cl")
      (auto simp: hf_Init_def Let_def hf_quick_length hf_clean_def split: sum.splits if_splits)
qed

lemma ts_load_clean:
  assumes "length cl = tableSize5" and "ts_clean a" and "ts_clean b"
  shows "fst (ts_load a cl) = fst (ts_load b cl)" and "fst (ts_load a cl) = None \<Longrightarrow> snd (ts_load a cl) = snd (ts_load b cl)"
    and "ts_clean (snd (ts_load a cl))"
proof -
  define c1 c2 c3 c4 where c: "c1 = take mainSize5 cl" "c2 = take offsetSize5 (drop mainSize5 cl)"
    "c3 = take lowoffsetSize5 (drop offsetSize5 (drop mainSize5 cl))" "c4 = drop lowoffsetSize5 (drop offsetSize5 (drop mainSize5 cl))"
  have k: "(1024::nat) = (if 298 \<le> length c1 then 1024 else 128)" "(128::nat) = (if 298 \<le> length c2 then 1024 else 128)"
    "(128::nat) = (if 298 \<le> length c3 then 1024 else 128)" "(128::nat) = (if 298 \<le> length c4 then 1024 else 128)"
    using assms(1) by (simp_all add: c table_sizes)
  have same: "hf_Init (ts_main a) c1 = hf_Init (ts_main b) c1" "hf_Init (ts_offset a) c2 = hf_Init (ts_offset b) c2"
    "hf_Init (ts_lowoffset a) c3 = hf_Init (ts_lowoffset b) c3" "hf_Init (ts_length a) c4 = hf_Init (ts_length b) c4"
    by (rule hf_Init_clean(1) [OF k(1)] hf_Init_clean(1) [OF k(2)] hf_Init_clean(1) [OF k(3)] hf_Init_clean(1) [OF k(4)];
        use assms(2,3) in \<open>simp add: ts_clean_def\<close>)+
  note clean = hf_Init_clean(2) [OF k(1)] hf_Init_clean(2) [OF k(2)] hf_Init_clean(2) [OF k(3)] hf_Init_clean(2) [OF k(4)]
  have load: "ts_load x cl = (case hf_Init (ts_main x) c1 of Inl e \<Rightarrow> (Some e, x)
      | Inr h1 \<Rightarrow> (case hf_Init (ts_offset x) c2 of Inl e \<Rightarrow> (Some e, x\<lparr>ts_main := h1\<rparr>)
      | Inr h2 \<Rightarrow> (case hf_Init (ts_lowoffset x) c3 of Inl e \<Rightarrow> (Some e, x\<lparr>ts_main := h1, ts_offset := h2\<rparr>)
      | Inr h3 \<Rightarrow> (case hf_Init (ts_length x) c4 of Inl e \<Rightarrow> (Some e, x\<lparr>ts_main := h1, ts_offset := h2, ts_lowoffset := h3\<rparr>)
      | Inr h4 \<Rightarrow> (None, x\<lparr>ts_main := h1, ts_offset := h2, ts_lowoffset := h3, ts_length := h4\<rparr>)))))" for x
    by (simp add: ts_load_def c Let_def split: sum.split)
  define r1 r2 r3 r4 where r: "r1 = hf_Init (ts_main b) c1" "r2 = hf_Init (ts_offset b) c2"
    "r3 = hf_Init (ts_lowoffset b) c3" "r4 = hf_Init (ts_length b) c4"
  have rc: "r1 = Inr u \<Longrightarrow> hf_clean 1024 u" "r2 = Inr u \<Longrightarrow> hf_clean 128 u" "r3 = Inr u \<Longrightarrow> hf_clean 128 u"
    "r4 = Inr u \<Longrightarrow> hf_clean 128 u" for u
    using assms(3) clean(1) [of "ts_main b" u] clean(2) [of "ts_offset b" u] clean(3) [of "ts_lowoffset b" u] clean(4) [of "ts_length b" u]
    by (simp_all add: r ts_clean_def)
  note L = load [of a, unfolded same, folded r] load [of b, folded r]
  show "fst (ts_load a cl) = fst (ts_load b cl)" unfolding L by (simp split: sum.split)
  show "snd (ts_load a cl) = snd (ts_load b cl)" if "fst (ts_load a cl) = None"
    using that unfolding L by (cases a; cases b) (simp split: sum.splits)
  show "ts_clean (snd (ts_load a cl))"
    unfolding L using assms(2) rc by (simp add: ts_clean_def split: sum.split)
qed

text \<open>Nor does reading code lengths depend on the lengths and the code there were.\<close>

lemma rclt_lengths_fresh:
  assumes "length a = length b" and "take i a = take i b"
    and "rclt_lengths sc br i a = (e, a', ra)" and "rclt_lengths sc br i b = (e', b', rb)"
  shows "e = e' \<and> ra = rb \<and> (e = None \<longrightarrow> a' = b')"
  using assms
proof (induction sc br i a arbitrary: b rule: rclt_lengths.induct)
  case (1 sc br i a)
  note len = "1.prems"(1) and pre = "1.prems"(2) and ra = "1.prems"(3) and rb = "1.prems"(4)
  show ?case
  proof (cases "length a \<le> i")
    case True
    then have "a = b" using pre len by simp
    then show ?thesis using ra rb by simp
  next
    case False
    obtain res br1 where s: "hf_ReadSym sc br = (res, br1)" by fastforce
    show ?thesis
    proof (cases res)
      case (Inl x)
      then show ?thesis using False ra rb s len by (auto simp: rclt_lengths.simps [of sc br])
    next
      case (Inr l)
      show ?thesis
      proof (cases "l < 16")
        case True
        have "take (i + 1) (a[i := l]) = take (i + 1) (b[i := l])"
          using False len pre by (simp add: take_Suc_conv_app_nth)
        then show ?thesis
          using "1.IH"(1) [OF False s [symmetric] Inr True, of "b[i := l]"] False len ra rb s Inr True
          by (simp add: rclt_lengths.simps [of sc br])
      next
        case l16: False
        obtain y br2 where y: "br_ReadBits br1 (if l = 16 \<or> l = 18 then 3 else 7) = (y, br2)" by fastforce
        show ?thesis
        proof (cases y)
          case (Inl x)
          then show ?thesis using False ra rb s len Inr l16 y by (auto simp: rclt_lengths.simps [of sc br])
        next
          case (Inr c)
          define n where "n = c + (if l = 16 \<or> l = 18 then 3 else 11)"
          define m where "m = i + min n (length a - i)"
          have nth: "a ! j = b ! j" if "j < i" for j using pre that by (metis nth_take)
          have v: "(if l < 18 then a ! (i - 1) else 0) = (if l < 18 then b ! (i - 1) else 0)" if "\<not> (l < 18 \<and> i = 0)"
            using that nth [of "i - 1"] by auto
          have fill: "take m (rclt_fill n i v a) = take m (rclt_fill n i v b)" for v
            using len nth by (intro nth_equalityI) (auto simp: rclt_fill_nth m_def)
          have ra': "rclt_lengths sc br i a = (if l < 18 \<and> i = 0 then (Some ErrInvalidLengthTable, a, br2)
              else rclt_lengths sc br2 m (rclt_fill n i (if l < 18 then a ! (i - 1) else 0) a))"
            using False s \<open>res = Inr l\<close> l16 y Inr by (simp add: rclt_lengths.simps [of sc br] Let_def n_def m_def)
          have rb': "rclt_lengths sc br i b = (if l < 18 \<and> i = 0 then (Some ErrInvalidLengthTable, b, br2)
              else rclt_lengths sc br2 m (rclt_fill n i (if l < 18 then b ! (i - 1) else 0) b))"
            using False s \<open>res = Inr l\<close> l16 y Inr len by (simp add: rclt_lengths.simps [of sc br] Let_def n_def m_def)
          show ?thesis
          proof (cases "l < 18 \<and> i = 0")
            case True
            then show ?thesis using ra rb ra' rb' by auto
          next
            case ok: False
            show ?thesis
              using "1.IH"(2) [OF False s [symmetric] \<open>res = Inr l\<close> l16 y [symmetric] Inr n_def ok refl,
                  of "rclt_fill n i (if l < 18 then b ! (i - 1) else 0) b"]
                ra rb ra' rb' ok fill v len by (simp add: m_def)
          qed
        qed
      qed
    qed
  qed
qed

lemma readCodeLengthTable_fresh:
  assumes "length a = length b" and "hf_clean 128 s" and "hf_clean 128 t"
    and "readCodeLengthTable br a s = (e, a', s', ra)" and "readCodeLengthTable br b t = (e', b', t', rb)" and "br_inv br"
  shows "e = e'" and "ra = rb" and "e = None \<Longrightarrow> a' = b' \<and> s' = t'" and "hf_clean 128 s'"
proof -
  obtain x br1 where x: "rclt_bitlength br 0 (replicate 20 0) = (x, br1)" by fastforce
  have len: "length bl = 20" if "x = Inr bl" for bl
    using rclt_bitlength_reach [OF x assms(6)] that by simp
  have I: "hf_Init s bl = hf_Init t bl" "hf_Init s bl = Inr u \<Longrightarrow> hf_clean 128 u" if "x = Inr bl" for bl u
    using hf_Init_clean(1) [of 128 bl s t] hf_Init_clean(2) [of 128 bl s u] assms(2,3) len [OF that] by simp_all
  have "e = e' \<and> ra = rb \<and> (e = None \<longrightarrow> a' = b' \<and> s' = t') \<and> hf_clean 128 s'"
  proof (cases x)
    case (Inl y)
    then show ?thesis using assms x by (auto simp: readCodeLengthTable_def)
  next
    case (Inr bl)
    show ?thesis
    proof (cases "hf_Init t bl")
      case (Inl y)
      then show ?thesis using assms x Inr I(1) [OF Inr] by (auto simp: readCodeLengthTable_def)
    next
      case ok: (Inr h)
      obtain e1 c1 r1 where r1: "rclt_lengths h br1 0 a = (e1, c1, r1)" by (cases "rclt_lengths h br1 0 a") auto
      obtain e2 c2 r2 where r2: "rclt_lengths h br1 0 b = (e2, c2, r2)" by (cases "rclt_lengths h br1 0 b") auto
      show ?thesis
        using assms(4,5) x Inr ok I [OF Inr] r1 r2 rclt_lengths_fresh [OF assms(1) _ r1 r2] by (simp add: readCodeLengthTable_def)
    qed
  qed
  then show "e = e'" "ra = rb" "e = None \<Longrightarrow> a' = b' \<and> s' = t'" "hf_clean 128 s'" by simp_all
qed

subsection \<open>The serial decoder, block by block\<close>

text \<open>The fields about blocks, but for the reader.\<close>

definition block_same :: "'s decoder50 \<Rightarrow> 's decoder50 \<Rightarrow> bool" where
  "block_same d d' \<longleftrightarrow> d_r d' = d_r d \<and> d_codeLength d' = d_codeLength d \<and> d_lastBlock d' = d_lastBlock d
     \<and> d_tables d' = d_tables d \<and> d_bitlen d' = d_bitlen d"

lemma block_same_refl [simp]: "block_same d d" "block_same d (d\<lparr>d_br := b\<rparr>)" "block_same (d\<lparr>d_br := b\<rparr>) d' = block_same d d'"
  by (simp_all add: block_same_def)

lemma block_same_trans [trans]: "block_same a b \<Longrightarrow> block_same b c \<Longrightarrow> block_same a c"
  by (simp add: block_same_def)

lemma replayMatch_same: "dec_replayMatch d win = Some (e, d', w') \<Longrightarrow> block_same d d'"
  by (auto simp: dec_replayMatch_def block_same_def split: option.splits)

lemma with_bits_same:
  assumes "with_bits m d win f = Some (e, d', w')" and "\<And>v d e d' w'. f v d = Some (e, d', w') \<Longrightarrow> block_same d d'"
  shows "block_same d d'"
  using assms(1) assms(2) [of _ "d\<lparr>d_br := Some (snd (m (the (d_br d))))\<rparr>"]
  by (auto simp: with_bits_def split: prod.splits sum.splits)

lemma dec_decodeSymbol_same:
  assumes "dec_decodeSymbol d win sm = Some (e, d', w')"
  shows "block_same d d'"
proof -
  have m: "dec_applyMatch d win len dist = Some (e, d', w') \<Longrightarrow> block_same d d'"
    "dec_applyRepDist d win slot len = Some (e, d', w') \<Longrightarrow> block_same d d'" for d :: "'a decoder50" and len dist slot e d' w'
    by (auto simp: dec_applyMatch_def dec_applyRepDist_def block_same_def dest!: replayMatch_same)
  have q: "dec_queueFilter d win off len ft param = (e, d') \<Longrightarrow> block_same d d'" for d d' :: "'a decoder50" and off len ft param e
    by (auto simp: dec_queueFilter_def Let_def block_same_def split: if_splits)
  have lit: "dec_literal d win c = Some (e, d', w') \<Longrightarrow> block_same d d'" for c
    by (auto simp: dec_literal_def block_same_def)
  have bits: "dec_decodeOffset d win s = Some (e, d', w') \<Longrightarrow> block_same d d'"
    "dec_decodeLength d win s = Some (e, d', w') \<Longrightarrow> block_same d d'" "dec_readFilter d win = Some (e, d', w') \<Longrightarrow> block_same d d'" for s
    unfolding dec_decodeOffset_def dec_decodeLength_def dec_readFilter_def
    by (erule with_bits_same; auto dest: m q split: prod.splits)+
  show ?thesis
    using assms lit bits replayMatch_same by (auto simp: dec_decodeSymbol_def dec_applyRepLast_def split: if_splits)
qed

text \<open>The reader is at the end of its block; asked again, it still is.\<close>

definition at_end :: "tableSet \<Rightarrow> bitReader \<Rightarrow> bool" where
  "at_end ts r \<longleftrightarrow> block_fits r \<and> (\<exists>r1. hf_ReadSym (ts_main ts) r = (Inl EOF, r1))"

lemma ReadSym_end_again:
  assumes "hf_ReadSym h r = (Inl EOF, r1)" and "block_fits r"
  shows "block_fits r1 \<and> (\<exists>r2. hf_ReadSym h r1 = (Inl EOF, r2))"
proof -
  have inv: "br_inv r" by (rule block_fits_inv [OF assms(2)])
  obtain w r' where p: "br_PeekBits r 15 = (w, r')" by fastforce
  have a: "br_after r 0 r'" and w: "w = word_of_nat (bits_nat (take 15 (br_rest r @ replicate 15 False)))"
    using br_PeekBits_correct [OF inv, of 15] p by auto
  have same: "br_limit r' = br_limit r" "br_bitsRead r' = br_bitsRead r" using a by (simp_all add: br_after_def)
  obtain r'' where p': "br_PeekBits r' 15 = (w, r'')" and same': "br_limit r'' = br_limit r" "br_bitsRead r'' = br_bitsRead r"
    using br_PeekBits_correct [OF br_after_abs(1) [OF a], of 15] br_after_abs(2) [OF a] w same
    by (auto simp: br_after_def)
  show ?thesis
    using assms p p' same same' block_fits_after [OF assms(2) a]
    by (auto simp: hf_ReadSym_def Let_def split: if_splits)
qed

lemma fill_here: "target \<le> win_Available win \<Longrightarrow> dec_fill_loop rf target d win = Some (None, d, win)"
  by (subst dec_fill_loop.simps) simp

lemma fill_header:
  assumes "win_Available win < target" and "d_br d = None" and "dec_readBlockHeader rf d = Some (e, d1)"
  shows "e = Some x \<Longrightarrow> dec_fill_loop rf target d win = Some (Some x, d1, win)"
    and "e = None \<Longrightarrow> d_br d1 \<noteq> None \<Longrightarrow> dec_fill_loop rf target d win = dec_fill_loop rf target d1 win"
proof -
  show "e = Some x \<Longrightarrow> dec_fill_loop rf target d win = Some (Some x, d1, win)"
    using assms by (subst dec_fill_loop.simps) simp
  assume "e = None" "d_br d1 \<noteq> None"
  then show "dec_fill_loop rf target d win = dec_fill_loop rf target d1 win"
    using assms by (subst dec_fill_loop.simps, subst (2) dec_fill_loop.simps) auto
qed

lemma fill_end:
  assumes "win_Available win < target" and "d_br d = Some r" and "at_end (d_tables d) r"
  shows "\<not> d_lastBlock d \<Longrightarrow> dec_fill_loop rf target d win = dec_fill_loop rf target (d\<lparr>d_br := None\<rparr>) win"
    and "d_lastBlock d \<Longrightarrow> \<exists>r1. dec_fill_loop rf target d win = Some (Some EOF, d\<lparr>d_br := Some r1\<rparr>, win) \<and> at_end (d_tables d) r1"
proof -
  obtain r1 where r1: "hf_ReadSym (ts_main (d_tables d)) r = (Inl EOF, r1)" using assms(3) by (auto simp: at_end_def)
  show "\<not> d_lastBlock d \<Longrightarrow> dec_fill_loop rf target d win = dec_fill_loop rf target (d\<lparr>d_br := None\<rparr>) win"
    using assms r1 by (subst dec_fill_loop.simps) simp
  have "at_end (d_tables d) r1" using ReadSym_end_again [OF r1] assms(3) by (simp add: at_end_def)
  then show "d_lastBlock d \<Longrightarrow> \<exists>r1. dec_fill_loop rf target d win = Some (Some EOF, d\<lparr>d_br := Some r1\<rparr>, win) \<and> at_end (d_tables d) r1"
    using assms r1 by (subst dec_fill_loop.simps) auto
qed

text \<open>
  A block run to its end, or until the window has enough, is what filling does with it; and what
  filling does next.
\<close>

definition inline_fill ::
  "'s full_reading \<Rightarrow> nat \<Rightarrow> 's decoder50 \<Rightarrow> window \<Rightarrow> bool \<Rightarrow> err option \<Rightarrow> 's decoder50 \<Rightarrow> window \<Rightarrow> bool" where
  "inline_fill rf target d win ov e d' w' \<longleftrightarrow>
     (case e of
        Some x \<Rightarrow> x \<noteq> EOF \<and> (\<exists>d1. dec_fill_loop rf target d win = Some (Some x, d1, w')
          \<and> (if ov then x \<noteq> ErrDecoderOutOfData \<and> d' = d1\<lparr>d_br := None\<rparr>
              else x = ErrDecoderOutOfData \<and> d1 = d' \<and> d_br d' \<noteq> None))
      | None \<Rightarrow>
          if ov
          then d_br d' = None \<and> win_Available w' < target \<and> (\<exists>rz. at_end (d_tables d) rz
            \<and> dec_fill_loop rf target d win = dec_fill_loop rf target (d'\<lparr>d_br := Some rz\<rparr>) w')
          else d_br d' \<noteq> None \<and> target \<le> win_Available w' \<and> dec_fill_loop rf target d win = Some (None, d', w'))"

lemma inline_run:
  assumes "dec_ok d" and "d_br d = Some r" and "win_rel win out p" and "target + maxMatch \<le> win_size win"
  shows "\<exists>ov e d' w' new. dec_inline_loop target d win = Some (ov, e, d', w') \<and> dec_after d win out p d' w' new
     \<and> block_same d d' \<and> inline_fill rf target d win ov e d' w'"
  using assms
proof (induction "length (br_bits r)" arbitrary: r d win out rule: less_induct)
  case less
  note ok = less.prems(1) and br = less.prems(2) and rel = less.prems(3) and room = less.prems(4)
  show ?case
  proof (cases "win_Available win < target")
    case False
    then have "dec_inline_loop target d win = Some (False, None, d, win)" by (intro dec_inline_loop_stop) simp
    then show ?thesis
      using False fill_here [of target win rf d] dec_after_refl [OF ok rel] br by (auto simp: inline_fill_def)
  next
    case av: True
    then have room1: "length out - p + maxMatch \<le> win_size win" using win.avail_rel [OF rel] room by simp
    note fits = dec_ok_parts(6) [OF ok br]
    obtain cl where tab: "hf_table (ts_main (d_tables d)) cl" and cl: "length cl = mainSize5"
      using dec_ok_parts(3) [OF ok] by (auto simp: ts_ok_def table_for_def)
    obtain res r1 where rs: "hf_ReadSym (ts_main (d_tables d)) r = (res, r1)" by fastforce
    note S = hf_ReadSym_reach [OF rs tab fits]
    have fits1: "block_fits r1" by (rule block_fits_reach [OF fits S(1)])
    have ok1: "dec_ok (d\<lparr>d_br := Some r1\<rparr>)" "dec_ok (d\<lparr>d_br := None\<rparr>)" using ok fits1 by (simp_all add: dec_ok_def)
    have after: "dec_after d win out p (d\<lparr>d_br := b\<rparr>) win []" if "dec_ok (d\<lparr>d_br := b\<rparr>)" for b
      using that rel by (simp add: dec_after_def)
    show ?thesis
    proof (cases res)
      case (Inl x)
      have i: "dec_inline_loop target d win = Some (True, if x = EOF then None else Some x, d\<lparr>d_br := None\<rparr>, win)"
        using av br rs Inl by (subst dec_inline_loop.simps) simp
      show ?thesis
      proof (cases "x = EOF")
        case True
        have e: "at_end (d_tables d) r" using rs Inl True fits by (auto simp: at_end_def)
        have "(d\<lparr>d_br := None\<rparr>)\<lparr>d_br := Some r\<rparr> = d" using br by simp
        then have "inline_fill rf target d win True None (d\<lparr>d_br := None\<rparr>) win"
          unfolding inline_fill_def using av e by (auto intro!: exI [of _ r])
        then show ?thesis
          using i True after [OF ok1(2)]
          by (intro exI [of _ True] exI [of _ None] exI [of _ "d\<lparr>d_br := None\<rparr>"] exI [of _ win] exI [of _ "[]"]) auto
      next
        case False
        then have x: "x = ErrHuffDecodeFailed" using S(3) [OF Inl] by simp
        have "dec_fill_loop rf target d win = Some (Some x, d\<lparr>d_br := Some r1\<rparr>, win)"
          using av br rs Inl False by (subst dec_fill_loop.simps) simp
        then show ?thesis
          using i False x after [OF ok1(2)]
          by (intro exI [of _ True] exI [of _ "Some x"] exI [of _ "d\<lparr>d_br := None\<rparr>"] exI [of _ win] exI [of _ "[]"])
            (auto simp: inline_fill_def)
      qed
    next
      case (Inr sm)
      have sm: "sm < mainSize5" "length (br_bits r1) < length (br_bits r)" using S(2) [OF Inr] cl by (auto simp: mainSize5_def)
      obtain e d2 w2 where ds: "dec_decodeSymbol (d\<lparr>d_br := Some r1\<rparr>) win sm = Some (e, d2, w2)"
        and sok: "sym_ok (d\<lparr>d_br := Some r1\<rparr>) win out p e d2 w2"
        using dec_decodeSymbol_ok [OF ok1(1) _ rel room1 sm(1)] by auto
      obtain new r2 where A: "dec_after (d\<lparr>d_br := Some r1\<rparr>) win out p d2 w2 new" "d_br d2 = Some r2" "br_reach r1 r2"
        using dec_after_sym [OF sok ok1(1) _ rel] by auto
      have A': "dec_after d win out p d2 w2 new" using A(1) by (simp add: dec_after_def)
      have same: "block_same d d2" using dec_decodeSymbol_same [OF ds] by simp
      note istep = dec_inline_loop_step [OF av, of d r sm r1]
      have i: "dec_inline_loop target d win = Option.bind (dec_decodeSymbol (d\<lparr>d_br := Some r1\<rparr>) win sm) (\<lambda>(e, d2, win2). case e of
          Some x \<Rightarrow> (let x = mapInnerErr x in
            if x = ErrDecoderOutOfData then Some (False, Some x, d2, win2)
            else Some (True, Some x, d2\<lparr>d_br := None\<rparr>, win2))
        | None \<Rightarrow> dec_inline_loop target d2 win2)"
        using istep rs Inr br by (metis (no_types, lifting) decoder50.surjective decoder50.update_convs(2))
      have f: "dec_fill_loop rf target d win = (case e of Some x \<Rightarrow> Some (Some (mapInnerErr x), d2, w2) | None \<Rightarrow> dec_fill_loop rf target d2 w2)"
        using av br rs Inr ds by (subst dec_fill_loop.simps) (auto split: option.split)
      show ?thesis
      proof (cases e)
        case (Some x)
        have "dec_ok (d2\<lparr>d_br := None\<rparr>)" using A(1) by (simp add: dec_after_def dec_ok_def)
        then have A0: "dec_after d win out p (d2\<lparr>d_br := None\<rparr>) w2 new" using A' by (simp add: dec_after_def)
        have "mapInnerErr x \<noteq> EOF" by (simp add: mapInnerErr_def)
        then show ?thesis
          using i f ds Some A' A0 A(2) same block_same_trans [OF same, of "d2\<lparr>d_br := None\<rparr>"]
          by (cases "mapInnerErr x = ErrDecoderOutOfData") (auto simp: inline_fill_def Let_def)
      next
        case None
        have "length (br_bits r2) < length (br_bits r)"
          using sm(2) br_reach_bits [OF A(3)] by auto
        moreover have "dec_ok d2" "win_rel w2 (out @ new) p" "target + maxMatch \<le> win_size w2"
          using A' room by (simp_all add: dec_after_def)
        ultimately obtain ov e' d' w' new' where R: "dec_inline_loop target d2 w2 = Some (ov, e', d', w')"
            "dec_after d2 w2 (out @ new) p d' w' new'" "block_same d2 d'" "inline_fill rf target d2 w2 ov e' d' w'"
          using less.hyps [OF _ _ A(2)] by blast
        have "inline_fill rf target d win ov e' d' w'"
          using R(4) f None same unfolding inline_fill_def block_same_def
          by (cases e'; cases ov; cases "d_lastBlock d2") auto
        then show ?thesis
          using i ds None R dec_after_trans [OF A' R(2)] block_same_trans [OF same R(3)] by auto
      qed
    qed
  qed
qed

end
