(* ===== verification/Ahead.thy ===== *)
theory Ahead
  imports Lockstep
begin

section \<open>The ring is what the serial decoder has still to read\<close>

text \<open>
  The serial decoder reads a block's header when the one before is over; the pipeline has read
  some blocks more. \<open>queued\<close> says that the jobs of the ring are the blocks the serial decoder
  would read next, whatever the workers have done to them so far; \<open>link\<close> adds what the pipeline
  keeps and where its source stands, and holds through reading ahead and through everything
  other goroutines do.
\<close>

subsection \<open>The relation\<close>

text \<open>
  A job decoded: its items from \<open>idx\<close> on are those a worker decodes from the reader \<open>r\<close>, where
  the serial decoder is. For a block too big for a slot these are none, and for one submitted
  to a stopped pipeline there is only the error.
\<close>

definition pos_ok :: "bool \<Rightarrow> tableSet \<Rightarrow> bitReader \<Rightarrow> nat \<Rightarrow> blockJob \<Rightarrow> bool" where
  "pos_ok quit ts r idx j \<longleftrightarrow>
     (idx \<le> length (bj_items j) \<and> (\<exists>cap br. bj_resume j = Some br
        \<and> dbi_loop ts cap r (take idx (bj_items j)) = (bj_items j, bj_partial j, bj_err j, br)))
     \<or> (quit \<and> bj_items j = [] \<and> \<not> bj_partial j \<and> bj_err j = Some ErrReaderClosed)"

definition job_ok :: "bool \<Rightarrow> tableSet list \<Rightarrow> bitReader \<Rightarrow> pipeJob \<Rightarrow> bool" where
  "job_ok quit tabs r j \<longleftrightarrow>
     (if pj_done j \<or> pj_waited j then pos_ok quit (tabs ! pj_tablesIdx j) r 0 (pj_job j)
      else bj_resume (pj_job j) = Some r)"

fun queued :: "'s full_reading \<Rightarrow> bool \<Rightarrow> tableSet list \<Rightarrow> 's decoder50 \<Rightarrow> pipeJob list \<Rightarrow> 's decoder50 \<Rightarrow> bool" where
  "queued rf quit tabs d [] d0 \<longleftrightarrow> d0 = d"
| "queued rf quit tabs d (j # js) d0 \<longleftrightarrow>
     \<not> d_lastBlock d
     \<and> (\<exists>d1 r. dec_readBlockHeader rf d = Some (None, d1) \<and> d_br d1 = Some r
         \<and> d_tables d1 = tabs ! pj_tablesIdx j \<and> d_lastBlock d1 = bj_lastBlock (pj_job j) \<and> job_ok quit tabs r j
         \<and> queued rf quit tabs (d1\<lparr>d_br := None\<rparr>) js d0)"

text \<open>Behind the ring: the state \<open>d0\<close> the serial decoder will be in, and the pipeline's.\<close>

definition tail_ok :: "'s full_reading \<Rightarrow> 's decoder50 \<Rightarrow> 's decoder50 \<Rightarrow> pipeline \<Rightarrow> bool" where
  "tail_ok rf d0 d' p \<longleftrightarrow>
     bp_sawLast p = d_lastBlock d0 \<and> ts_clean (d_tables d0) \<and> hf_clean 128 (d_bitlen d0)
     \<and> (bp_pendingErr p = None \<longrightarrow> d_r d' = d_r d0 \<and> bp_tables p ! bp_cur p = d_tables d0)
     \<and> (\<forall>e. bp_pendingErr p = Some e \<longrightarrow> \<not> d_lastBlock d0 \<and> (\<exists>d1. dec_readBlockHeader rf d0 = Some (Some e, d1)))"

text \<open>What the pipeline keeps by itself.\<close>

definition pipe_ok :: "pipeline \<Rightarrow> bool" where
  "pipe_ok p \<longleftrightarrow>
     0 < bp_workers p \<and> length (bp_ring p) \<le> bp_slots p
     \<and> length (bp_tables p) = bp_slots p + 1 \<and> length (bp_inUse p) = bp_slots p + 1 \<and> bp_cur p \<le> bp_slots p
     \<and> (\<forall>j \<in> set (bp_ring p). pj_tablesIdx j \<le> bp_slots p)
     \<and> (\<forall>i \<le> bp_slots p. bp_inUse p ! i = length (filter (\<lambda>j. pj_tablesIdx j = i) (bp_ring p)))
     \<and> (\<forall>ts \<in> set (bp_tables p). ts_clean ts) \<and> hf_clean 128 (bp_bitlen p) \<and> length (bp_codeLength p) = tableSize5
     \<and> (bp_oversizePending p \<longrightarrow> (\<exists>j \<in> set (bp_ring p). pj_oversize j))"

lemma pipe_ok_parts:
  assumes "pipe_ok p"
  shows "0 < bp_workers p" "length (bp_ring p) \<le> bp_slots p" "length (bp_tables p) = bp_slots p + 1"
    "length (bp_inUse p) = bp_slots p + 1" "bp_cur p \<le> bp_slots p"
    "\<And>j. j \<in> set (bp_ring p) \<Longrightarrow> pj_tablesIdx j \<le> bp_slots p"
    "\<And>i. i \<le> bp_slots p \<Longrightarrow> bp_inUse p ! i = length (filter (\<lambda>j. pj_tablesIdx j = i) (bp_ring p))"
    "\<And>ts. ts \<in> set (bp_tables p) \<Longrightarrow> ts_clean ts" "hf_clean 128 (bp_bitlen p)" "length (bp_codeLength p) = tableSize5"
    "bp_oversizePending p \<Longrightarrow> \<exists>j \<in> set (bp_ring p). pj_oversize j"
  using assms by (simp_all add: pipe_ok_def)

text \<open>
  The serial decoder is at \<open>d\<close>, the end of a block or before the first; it will be at \<open>d0\<close> when
  the ring is used up.
\<close>

definition ring_link :: "'s full_reading \<Rightarrow> 's decoder50 \<Rightarrow> 's decoder50 \<Rightarrow> pipeline \<Rightarrow> bool" where
  "ring_link rf d d0 p \<longleftrightarrow>
     pipe_ok p \<and> d_br d = None \<and> bp_idx p = 0 \<and> \<not> bp_inline p
     \<and> queued rf (bp_quit p) (bp_tables p) d (bp_ring p) d0"

definition link :: "'s full_reading \<Rightarrow> 's decoder50 \<Rightarrow> 's decoder50 \<Rightarrow> 's decoder50 \<Rightarrow> pipeline \<Rightarrow> bool" where
  "link rf d d0 d' p \<longleftrightarrow> ring_link rf d d0 p \<and> tail_ok rf d0 d' p"

subsection \<open>What other goroutines do\<close>

lemma pos_ok_quit: "pos_ok q ts r idx j \<Longrightarrow> q \<longrightarrow> q' \<Longrightarrow> pos_ok q' ts r idx j"
  by (auto simp: pos_ok_def)

lemma job_ok_quit: "job_ok q tabs r j \<Longrightarrow> q \<longrightarrow> q' \<Longrightarrow> job_ok q' tabs r j"
  by (auto simp: job_ok_def intro: pos_ok_quit)

lemma queued_quit: "queued rf q tabs d js d0 \<Longrightarrow> q \<longrightarrow> q' \<Longrightarrow> queued rf q' tabs d js d0"
  by (induction js arbitrary: d) (auto intro: job_ok_quit)

lemma queued_append:
  "queued rf q tabs d (js @ ks) d0 \<longleftrightarrow> (\<exists>dm. queued rf q tabs d js dm \<and> queued rf q tabs dm ks d0)"
  by (induction js arbitrary: d) auto

lemma job_ok_decode:
  assumes "job_ok q (bp_tables p) r j" and "\<not> pj_done j" and "\<not> pj_waited j"
  shows "job_ok q (bp_tables p) r (bp_decode p j)"
  using assms by (auto simp: job_ok_def pos_ok_def bp_decode_def decodeBlockItems_def split: prod.split)

lemma bp_decode_fields [simp]:
  "pj_tablesIdx (bp_decode p j) = pj_tablesIdx j" "pj_oversize (bp_decode p j) = pj_oversize j"
  "pj_waited (bp_decode p j) = pj_waited j" "pj_done (bp_decode p j)"
  "bj_lastBlock (pj_job (bp_decode p j)) = bj_lastBlock (pj_job j)"
  by (simp_all add: bp_decode_def decodeBlockItems_def split: prod.split)

lemma queued_decode:
  "queued rf q (bp_tables p) d js d0 \<Longrightarrow> k < length js \<Longrightarrow> \<not> pj_done (js ! k) \<Longrightarrow> \<not> pj_waited (js ! k)
    \<Longrightarrow> queued rf q (bp_tables p) d (js[k := bp_decode p (js ! k)]) d0"
proof (induction js arbitrary: d k)
  case (Cons j js)
  then show ?case
    by (cases k) (auto intro: job_ok_decode)
qed simp

text \<open>A table set that no job uses can be loaded again.\<close>

lemma queued_reload:
  "queued rf q tabs d js d0 \<Longrightarrow> \<forall>j \<in> set js. pj_tablesIdx j \<noteq> k \<Longrightarrow> queued rf q (tabs[k := ts]) d js d0"
proof (induction js arbitrary: d)
  case (Cons j js)
  then have "job_ok q (tabs[k := ts]) r j = job_ok q tabs r j" for r by (simp add: job_ok_def)
  then show ?case using Cons by auto
qed simp

lemma filter_update_same:
  "\<forall>j. P (f j) = P j \<Longrightarrow> k < length xs \<Longrightarrow> length (filter P (xs[k := f (xs ! k)])) = length (filter P xs)"
  by (induction xs arbitrary: k) (auto split: nat.split)

lemma pipe_ok_work: "pipe_ok p \<Longrightarrow> pipe_ok (bp_work k p)"
proof (cases "k < length (bp_ring p) \<and> \<not> pj_done (bp_ring p ! k) \<and> \<not> pj_waited (bp_ring p ! k)")
  case True
  assume ok: "pipe_ok p"
  note P = pipe_ok_parts [OF ok]
  let ?ring = "(bp_ring p)[k := bp_decode p (bp_ring p ! k)]"
  have "\<forall>j \<in> set ?ring. pj_tablesIdx j \<le> bp_slots p"
    using P(6) True by (auto dest!: set_update_subset_insert [THEN subsetD])
  moreover have "length (filter (\<lambda>j. pj_tablesIdx j = i) ?ring) = length (filter (\<lambda>j. pj_tablesIdx j = i) (bp_ring p))" for i
    using True by (intro filter_update_same) simp_all
  moreover have "\<exists>j \<in> set ?ring. pj_oversize j" if big: "\<exists>j \<in> set (bp_ring p). pj_oversize j"
  proof -
    obtain j where "j \<in> set (bp_ring p)" "pj_oversize j" using big by blast
    then obtain i where "i < length (bp_ring p)" "pj_oversize (bp_ring p ! i)" by (metis in_set_conv_nth)
    then have "i < length ?ring" "pj_oversize (?ring ! i)" by (cases "i = k"; simp)+
    then show ?thesis by (metis nth_mem)
  qed
  ultimately show ?thesis using ok True by (simp add: pipe_ok_def bp_work_def bp_slots_def Let_def)
qed (auto simp: bp_work_def Let_def)

lemma bp_work_fields [simp]:
  "bp_workers (bp_work k p) = bp_workers p" "bp_idx (bp_work k p) = bp_idx p" "bp_inline (bp_work k p) = bp_inline p"
  "bp_tables (bp_work k p) = bp_tables p" "bp_cur (bp_work k p) = bp_cur p" "bp_pendingErr (bp_work k p) = bp_pendingErr p"
  "bp_sawLast (bp_work k p) = bp_sawLast p" "bp_quit (bp_work k p) = bp_quit p"
  "length (bp_ring (bp_work k p)) = length (bp_ring p)" "bp_oversizePending (bp_work k p) = bp_oversizePending p"
  by (simp_all add: bp_work_def Let_def)

lemma ring_link_work: "ring_link rf d d0 p \<Longrightarrow> ring_link rf d d0 (bp_work k p)"
  using pipe_ok_work [of p k] queued_decode [of rf "bp_quit p" p d "bp_ring p" d0 k]
  by (auto simp: ring_link_def) (auto simp: bp_work_def Let_def)

text \<open>Everything between two looks of the traversal at the pipeline.\<close>

definition later :: "pipeline \<Rightarrow> pipeline \<Rightarrow> bool" where
  "later p p' \<longleftrightarrow>
     map pj_waited (bp_ring p') = map pj_waited (bp_ring p) \<and> (bp_quit p \<longrightarrow> bp_quit p')
     \<and> p' = p\<lparr>bp_ring := bp_ring p', bp_quit := bp_quit p', bp_events := bp_events p', bp_picks := bp_picks p'\<rparr>"

lemma later_fields:
  assumes "later p p'"
  shows "bp_workers p' = bp_workers p" "bp_idx p' = bp_idx p" "bp_inline p' = bp_inline p"
    "bp_tables p' = bp_tables p" "bp_inUse p' = bp_inUse p" "bp_cur p' = bp_cur p" "bp_pendingErr p' = bp_pendingErr p"
    "bp_sawLast p' = bp_sawLast p" "bp_oversizePending p' = bp_oversizePending p" "bp_codeLength p' = bp_codeLength p"
    "bp_bitlen p' = bp_bitlen p" "length (bp_ring p') = length (bp_ring p)" "bp_quit p \<Longrightarrow> bp_quit p'"
    "bp_slots p' = bp_slots p"
proof -
  have p': "p' = p\<lparr>bp_ring := bp_ring p', bp_quit := bp_quit p', bp_events := bp_events p', bp_picks := bp_picks p'\<rparr>"
    using assms by (simp add: later_def)
  show "bp_workers p' = bp_workers p" "bp_idx p' = bp_idx p" "bp_inline p' = bp_inline p"
    "bp_tables p' = bp_tables p" "bp_inUse p' = bp_inUse p" "bp_cur p' = bp_cur p" "bp_pendingErr p' = bp_pendingErr p"
    "bp_sawLast p' = bp_sawLast p" "bp_oversizePending p' = bp_oversizePending p" "bp_codeLength p' = bp_codeLength p"
    "bp_bitlen p' = bp_bitlen p" "bp_slots p' = bp_slots p"
    by (subst p', simp add: bp_slots_def)+
  show "length (bp_ring p') = length (bp_ring p)" using assms map_eq_imp_length_eq by (auto simp: later_def)
  show "bp_quit p \<Longrightarrow> bp_quit p'" using assms by (simp add: later_def)
qed

lemma later_refl [simp]: "later p p"
  by (simp add: later_def)

lemma later_trans [trans]: "later p q \<Longrightarrow> later q r \<Longrightarrow> later p r"
  by (cases p; cases q; cases r) (simp add: later_def)

lemma tail_ok_later:
  assumes "later p p'" and "tail_ok rf d0 d' p"
  shows "tail_ok rf d0 d' p'"
  using assms(2) unfolding tail_ok_def later_fields [OF assms(1)] .

text \<open>Events, picks and the flag do not matter; nor that the pipeline has been stopped since.\<close>

lemma ring_link_same:
  assumes "ring_link rf d d0 p" and "later p p'" and "bp_ring p' = bp_ring p"
  shows "ring_link rf d d0 p'"
proof -
  note f = later_fields [OF assms(2)]
  have "queued rf (bp_quit p') (bp_tables p) d (bp_ring p) d0"
    using assms(1) f(13) by (auto simp: ring_link_def intro: queued_quit)
  moreover have "pipe_ok p'" using assms(1) unfolding ring_link_def pipe_ok_def f(1-11,14) assms(3) by simp
  ultimately show ?thesis using assms(1) unfolding ring_link_def f(1-11) assms(3) by simp
qed

lemma ring_link_happen: "ring_link rf d d0 p \<Longrightarrow> ring_link rf d d0 (bp_happen h p) \<and> later p (bp_happen h p)"
proof (cases h)
  case (Work k)
  assume "ring_link rf d d0 p"
  then have "ring_link rf d d0 (bp_work k p)" by (rule ring_link_work)
  moreover have "later p (bp_work k p)"
    by (auto simp: later_def bp_work_def Let_def map_update nth_list_update intro!: nth_equalityI split: if_splits)
  ultimately show ?thesis using Work by simp
next
  case Stop
  assume L: "ring_link rf d d0 p"
  have "later p (bp_happen h p)" "bp_ring (bp_happen h p) = bp_ring p" using Stop by (simp_all add: later_def)
  then show ?thesis using ring_link_same [OF L] by blast
qed

lemma ring_link_happens: "ring_link rf d d0 p \<Longrightarrow> ring_link rf d d0 (fold bp_happen hs p) \<and> later p (fold bp_happen hs p)"
proof (induction hs arbitrary: p)
  case (Cons h hs)
  note L = ring_link_happen [OF Cons.prems, of h]
  show ?case using Cons.IH [OF L [THEN conjunct1]] later_trans [OF L [THEN conjunct2]] by simp
qed simp

lemma ring_link_point:
  assumes "ring_link rf d d0 p"
  shows "ring_link rf d d0 (bp_point p)" and "later p (bp_point p)"
proof -
  have "ring_link rf d d0 (bp_point p) \<and> later p (bp_point p)"
  proof (cases "bp_events p")
    case (Cons hs es)
    have l: "later p (p\<lparr>bp_events := es\<rparr>)" by (simp add: later_def)
    have "ring_link rf d d0 (p\<lparr>bp_events := es\<rparr>)" by (rule ring_link_same [OF assms l]) simp
    then show ?thesis using ring_link_happens [of rf d d0 "p\<lparr>bp_events := es\<rparr>" hs] later_trans [OF l] Cons by (simp add: bp_point_def)
  qed (simp add: bp_point_def assms)
  then show "ring_link rf d d0 (bp_point p)" "later p (bp_point p)" by simp_all
qed

lemma takes_quit_later:
  assumes "bp_takes_quit p = (b, p')"
  shows "later p p'" and "bp_ring p' = bp_ring p" and "b \<longrightarrow> bp_quit p'"
  using assms by (auto simp: bp_takes_quit_def later_def split: if_splits)

subsection \<open>Submitting a job\<close>

text \<open>The job that the block header read at \<open>d\<close> makes goes behind the others.\<close>

lemma pipe_ok_append:
  assumes "pipe_ok p" and "length (bp_ring p) < bp_slots p" and "pj_tablesIdx j = i" and "i \<le> bp_slots p"
    and "bp_oversizePending p' \<longrightarrow> pj_oversize j \<or> bp_oversizePending p"
    and "bp_workers p' = bp_workers p" "bp_ring p' = bp_ring p @ [j]" "bp_tables p' = bp_tables p" "bp_cur p' = bp_cur p"
      "bp_inUse p' = (bp_inUse p)[i := bp_inUse p ! i + 1]" "bp_bitlen p' = bp_bitlen p" "bp_codeLength p' = bp_codeLength p"
  shows "pipe_ok p'"
proof -
  note P = pipe_ok_parts [OF assms(1)]
  have s: "bp_slots p' = bp_slots p" using assms(6) by (simp add: bp_slots_def)
  have "bp_inUse p' ! n = length (filter (\<lambda>j. pj_tablesIdx j = n) (bp_ring p'))" if "n \<le> bp_slots p" for n
    using P(4) P(7) [OF that] that assms(3,4) by (cases "n = i") (simp_all add: assms(7,10))
  then show ?thesis
    using P assms(2-4,5) unfolding pipe_ok_def s assms(6-12) by auto
qed

text \<open>What the traversal sets in the pipeline before it submits a job does not touch the workers.\<close>

definition noted :: "pipeline \<Rightarrow> bool \<Rightarrow> nat list \<Rightarrow> bool \<Rightarrow> pipeline" where
  "noted p a u l = p\<lparr>bp_oversizePending := a, bp_inUse := u, bp_sawLast := l\<rparr>"

lemma bp_point_noted: "bp_point (noted p a u l) = noted (bp_point p) a u l"
proof -
  have "bp_happen h (noted p a u l) = noted (bp_happen h p) a u l" for h p
    by (cases h) (simp_all add: noted_def bp_work_def bp_decode_def Let_def)
  then have "fold bp_happen hs (noted p a u l) = noted (fold bp_happen hs p) a u l" for hs p
    by (induction hs arbitrary: p) simp_all
  moreover have "(noted p a u l)\<lparr>bp_events := es\<rparr> = noted (p\<lparr>bp_events := es\<rparr>) a u l" for es by (simp add: noted_def)
  moreover have "bp_events (noted p a u l) = bp_events p" by (simp add: noted_def)
  ultimately show ?thesis by (cases "bp_events p") (simp_all add: bp_point_def)
qed

lemma link_submit:
  assumes L: "ring_link rf d d0 p" and room: "length (bp_ring p) < bp_slots p" and more: "\<not> d_lastBlock d0" "bp_pendingErr p = None"
    and hdr: "dec_readBlockHeader rf d0 = Some (None, d1)" "d_br d1 = Some r"
    and tabs: "bp_tables p ! bp_cur p = d_tables d1" "ts_clean (d_tables d1)" "hf_clean 128 (d_bitlen d1)" "d_r d' = d_r d1"
    and j: "pj_tablesIdx j = bp_cur p" "bj_lastBlock (pj_job j) = d_lastBlock d1" "bj_resume (pj_job j) = Some r"
      "\<not> pj_done j" "\<not> pj_waited j"
    and p2: "p2 = noted p (pj_oversize j \<or> bp_oversizePending p) ((bp_inUse p)[bp_cur p := bp_inUse p ! bp_cur p + 1]) (d_lastBlock d1)"
  shows "link rf d (d1\<lparr>d_br := None\<rparr>) d' (bp_submit j p2)"
    and "length (bp_ring (bp_submit j p2)) = length (bp_ring p) + 1"
    and "bp_quit p \<longrightarrow> bp_quit (bp_submit j p2)"
    and "bp_workers (bp_submit j p2) = bp_workers p" and "bp_pendingErr (bp_submit j p2) = None"
proof -
  obtain q j' where q: "ring_link rf d d0 q" "later p q" and j': "pj_tablesIdx j' = bp_cur p" "pj_oversize j' = pj_oversize j"
      "bj_lastBlock (pj_job j') = d_lastBlock d1" "job_ok (bp_quit q) (bp_tables q) r j'"
    and s: "bp_submit j p2 = (noted q (pj_oversize j \<or> bp_oversizePending p) ((bp_inUse p)[bp_cur p := bp_inUse p ! bp_cur p + 1])
        (d_lastBlock d1))\<lparr>bp_ring := bp_ring q @ [j']\<rparr>"
  proof (cases "pj_oversize j")
    case True
    show thesis
      by (rule that [of p "j\<lparr>pj_job := (pj_job j)\<lparr>bj_partial := True, bj_items := [], bj_err := None\<rparr>, pj_done := True\<rparr>"])
        (use L True j p2 in \<open>auto simp: bp_submit_def noted_def job_ok_def pos_ok_def dbi_loop.simps [of _ 0] intro!: exI [of _ 0]\<close>)
  next
    case False
    obtain b q where tq: "bp_takes_quit (bp_point p) = (b, q)" by fastforce
    note P = ring_link_point [OF L] and T = takes_quit_later [OF tq]
    have lq: "later p q" by (rule later_trans [OF P(2) T(1)])
    have rl: "ring_link rf d d0 q" by (rule ring_link_same [OF P(1) T(1,2)])
    have n: "bp_takes_quit (noted x a u l) = (fst (bp_takes_quit x), noted (snd (bp_takes_quit x)) a u l)" for x a u l
      by (simp add: bp_takes_quit_def noted_def)
    let ?j = "if b then j\<lparr>pj_job := (pj_job j)\<lparr>bj_items := [], bj_partial := False, bj_err := Some ErrReaderClosed\<rparr>,
                           pj_done := True\<rparr> else j"
    have s: "bp_submit j p2 = (noted q (pj_oversize j \<or> bp_oversizePending p) ((bp_inUse p)[bp_cur p := bp_inUse p ! bp_cur p + 1])
        (d_lastBlock d1))\<lparr>bp_ring := bp_ring q @ [?j]\<rparr>"
      using False tq by (simp add: bp_submit_def p2 bp_point_noted n) (simp add: noted_def)
    show thesis
      by (rule that [OF rl lq _ _ _ _ s]) (use j T(3) in \<open>auto simp: job_ok_def pos_ok_def\<close>)
  qed
  note F = later_fields [OF q(2)]
  have ok: "pipe_ok q" using q(1) by (simp add: ring_link_def)
  have cur: "bp_cur p \<le> bp_slots q" using pipe_ok_parts(5) [OF ok] F by simp
  have "pipe_ok (bp_submit j p2)"
    by (rule pipe_ok_append [OF ok _ j'(1) cur]) (use room F j' in \<open>auto simp: s noted_def\<close>)
  moreover have "queued rf (bp_quit q) (bp_tables q) d (bp_ring q @ [j']) (d1\<lparr>d_br := None\<rparr>)"
    unfolding queued_append using q(1) more(1) hdr tabs(1) j' F by (auto simp: ring_link_def)
  ultimately show "link rf d (d1\<lparr>d_br := None\<rparr>) d' (bp_submit j p2)"
    using q(1) F more(2) tabs by (simp add: link_def ring_link_def tail_ok_def s noted_def)
  show "length (bp_ring (bp_submit j p2)) = length (bp_ring p) + 1" "bp_quit p \<longrightarrow> bp_quit (bp_submit j p2)"
      "bp_workers (bp_submit j p2) = bp_workers p" "bp_pendingErr (bp_submit j p2) = None"
    using F more(2) by (simp_all add: s noted_def)
qed

subsection \<open>Reading ahead\<close>

text \<open>With one set more than slots there is always one that no job in flight uses.\<close>

lemma freeTableSet_finds:
  assumes "pipe_ok p"
  obtains k where "freeTableSet p = Some k" "k \<le> bp_slots p" "\<forall>j \<in> set (bp_ring p). pj_tablesIdx j \<noteq> k"
proof -
  note P = pipe_ok_parts [OF assms]
  have "\<exists>k \<le> bp_slots p. bp_inUse p ! k = 0"
  proof (rule ccontr)
    assume none: "\<not> ?thesis"
    have "k \<in> set (map pj_tablesIdx (bp_ring p))" if k: "k \<le> bp_slots p" for k
    proof -
      have "filter (\<lambda>j. pj_tablesIdx j = k) (bp_ring p) \<noteq> []" using none k P(7) [OF k] by auto
      then show ?thesis by (auto simp: filter_empty_conv)
    qed
    then have "{..bp_slots p} \<subseteq> set (map pj_tablesIdx (bp_ring p))" by auto
    from card_mono [OF _ this] have "bp_slots p + 1 \<le> length (bp_ring p)"
      using card_length [of "map pj_tablesIdx (bp_ring p)"] by simp
    then show False using P(2) by simp
  qed
  then obtain i where "i \<le> bp_slots p" "bp_inUse p ! i = 0" by blast
  then have "i < length (bp_inUse p)" "bp_inUse p ! i = 0" using P(4) by simp_all
  then have "\<exists>i. i \<in> set [0..<length (bp_inUse p)] \<and> bp_inUse p ! i = 0" by auto
  then have "freeTableSet p \<noteq> None" unfolding freeTableSet_def find_None_iff by simp
  then obtain k where k: "freeTableSet p = Some k" by blast
  then have z: "k \<le> bp_slots p" "bp_inUse p ! k = 0"
    using P(4) by (auto simp: freeTableSet_def find_Some_iff simp del: upt_Suc)
  moreover have "\<forall>j \<in> set (bp_ring p). pj_tablesIdx j \<noteq> k" using P(7) [OF z(1)] z(2) by (auto simp: filter_empty_conv)
  ultimately show thesis using that k by blast
qed

lemma bp_load_ok:
  assumes L: "ring_link rf d d0 p" and d0: "ts_clean (d_tables d0)" "hf_clean 128 (d_bitlen d0)" "length (d_codeLength d0) = tableSize5"
    and br: "block_fits br" and rc: "readCodeLengthTable br (d_codeLength d0) (d_bitlen d0) = (e, cl, sc, br')"
  obtains x br2 p2 where "bp_load br p = Some (x, br2, p2)" "ring_link rf d d0 p2"
    "p2 = p\<lparr>bp_codeLength := bp_codeLength p2, bp_bitlen := bp_bitlen p2, bp_tables := bp_tables p2, bp_cur := bp_cur p2\<rparr>"
    "\<And>y. e = Some y \<Longrightarrow> x = Some y"
    "e = None \<Longrightarrow> br2 = br' \<and> x = fst (ts_load (d_tables d0) cl) \<and> hf_clean 128 sc \<and> ts_clean (snd (ts_load (d_tables d0) cl))
       \<and> (x = None \<longrightarrow> bp_tables p2 ! bp_cur p2 = snd (ts_load (d_tables d0) cl))"
proof -
  have ok: "pipe_ok p" using L by (simp add: ring_link_def)
  note P = pipe_ok_parts [OF ok]
  have inv: "br_inv br" by (rule block_fits_inv [OF br])
  obtain e2 cl2 sc2 br2 where rc2: "readCodeLengthTable br (bp_codeLength p) (bp_bitlen p) = (e2, cl2, sc2, br2)"
    by (cases "readCodeLengthTable br (bp_codeLength p) (bp_bitlen p)" rule: prod_cases4) auto
  have len: "length (bp_codeLength p) = length (d_codeLength d0)" using P(10) d0(3) by simp
  note F = readCodeLengthTable_fresh [OF len P(9) d0(2) rc2 rc inv]
  note F' = readCodeLengthTable_fresh [OF len [symmetric] d0(2) P(9) rc rc2 inv]
  have len2: "length cl2 = tableSize5" "length cl = tableSize5"
    using readCodeLengthTable_reach [OF rc2 br] readCodeLengthTable_reach [OF rc br] P(10) d0(3) by simp_all
  let ?p = "p\<lparr>bp_codeLength := cl2, bp_bitlen := sc2\<rparr>"
  have ok1: "pipe_ok ?p" using ok F(4) len2 by (simp add: pipe_ok_def bp_slots_def)
  have L1: "ring_link rf d d0 ?p" using L ok1 by (simp add: ring_link_def)
  show thesis
  proof (cases e)
    case (Some x)
    show thesis by (rule that [of "Some x" br2 ?p]) (use Some rc2 F(1) L1 in \<open>auto simp: bp_load_def\<close>)
  next
    case None
    have same: "cl2 = cl" "sc2 = sc" "br2 = br'" using F None by simp_all
    obtain k where k: "(if 0 < bp_inUse ?p ! bp_cur ?p then freeTableSet ?p else Some (bp_cur ?p)) = Some k"
      "k \<le> bp_slots p" "\<forall>j \<in> set (bp_ring p). pj_tablesIdx j \<noteq> k"
    proof (cases "0 < bp_inUse ?p ! bp_cur ?p")
      case True
      then show thesis using freeTableSet_finds [OF ok1] that by (auto simp: bp_slots_def)
    next
      case False
      then show thesis using that [of "bp_cur p"] P(5) P(7) [OF P(5)] by (auto simp: filter_empty_conv)
    qed
    obtain x ts where tl: "ts_load (bp_tables p ! k) cl = (x, ts)" by fastforce
    have ck: "ts_clean (bp_tables p ! k)" using P(3,8) k(2) by simp
    note T = ts_load_clean [OF len2(2) ck d0(1)] ts_load_clean [OF len2(2) d0(1) ck]
    define q where "q = ?p\<lparr>bp_tables := (bp_tables p)[k := ts], bp_cur := (if x = None then k else bp_cur p)\<rparr>"
    have q: "bp_load br p = Some (x, br2, q)"
      using None rc2 F(1) k(1) tl same by (cases "0 < bp_inUse p ! bp_cur p") (auto simp: bp_load_def q_def Let_def)
    have "pipe_ok q"
      using ok1 k(2) T(3) tl P(8) unfolding pipe_ok_def q_def bp_slots_def
      by (auto dest!: set_update_subset_insert [THEN subsetD])
    moreover have "queued rf (bp_quit p) ((bp_tables p)[k := ts]) d (bp_ring p) d0"
      by (rule queued_reload [OF _ k(3)]) (use L in \<open>simp add: ring_link_def\<close>)
    ultimately have Lq: "ring_link rf d d0 q" using L by (simp add: ring_link_def q_def)
    show thesis
      by (rule that [OF q Lq]) (use None F'(4) same T tl P(3) k(2) in \<open>auto simp: q_def\<close>)
  qed
qed

text \<open>
  What bounds the work of filling: the jobs in flight and, until an error is noted, what the
  source still has.
\<close>

definition work_left :: "('s \<Rightarrow> nat) \<Rightarrow> 's decoder50 \<Rightarrow> pipeline \<Rightarrow> nat" where
  "work_left left d' p = length (bp_ring p) + (if bp_pendingErr p = None then left (d_r d') else 0)"

context full_source
begin

text \<open>
  One block: read as the serial decoder would read it at \<open>d0\<close>. Either it becomes the last job
  of the ring, or the error the serial decoder would meet there is noted.
\<close>

lemma bp_readBlock_ok:
  assumes L: "link rf d d0 d' p" and ok0: "dec_ok d0" and src: "src_ok (d_r d0)"
    and room: "length (bp_ring p) < bp_slots p" and more: "\<not> bp_sawLast p" "bp_pendingErr p = None"
  obtains d2' p2 d2 where "bp_readBlock rf d' p = Some (d2', p2)" "link rf d d2 d2' p2" "dec_ok d2" "src_ok (d_r d2)"
    "d2' = d'\<lparr>d_r := d_r d2'\<rparr>" "bp_quit p \<longrightarrow> bp_quit p2" "bp_workers p2 = bp_workers p"
    "if bp_pendingErr p2 = None then length (bp_ring p2) = length (bp_ring p) + 1 \<and> left (d_r d2') < left (d_r d')
     else bp_ring p2 = bp_ring p"
proof -
  note goal = that
  have R: "ring_link rf d d0 p" and T: "tail_ok rf d0 d' p" using L by (simp_all add: link_def)
  have at: "d_r d' = d_r d0" "bp_tables p ! bp_cur p = d_tables d0" "\<not> d_lastBlock d0" and clean: "ts_clean (d_tables d0)" "hf_clean 128 (d_bitlen d0)"
    using T more by (simp_all add: tail_ok_def)
  note D = dec_ok_parts [OF ok0]
  have failed: thesis
    if rb: "bp_readBlock rf d' p = Some (d'\<lparr>d_r := s\<rparr>, q\<lparr>bp_pendingErr := Some x\<rparr>)" and ser: "dec_readBlockHeader rf d0 = Some (Some x, d1)"
      and q: "ring_link rf d d0 q" "q = p\<lparr>bp_codeLength := bp_codeLength q, bp_bitlen := bp_bitlen q, bp_tables := bp_tables q, bp_cur := bp_cur q\<rparr>"
    for s q x d1
  proof (rule goal [OF rb _ ok0 src])
    have f: "bp_ring q = bp_ring p" "bp_quit q = bp_quit p" "bp_workers q = bp_workers p" "bp_sawLast q = bp_sawLast p"
      by (subst q(2), simp)+
    show "link rf d d0 (d'\<lparr>d_r := s\<rparr>) (q\<lparr>bp_pendingErr := Some x\<rparr>)"
      using q(1) T ser at(3) f by (simp add: link_def ring_link_def tail_ok_def pipe_ok_def bp_slots_def)
    show "bp_quit p \<longrightarrow> bp_quit (q\<lparr>bp_pendingErr := Some x\<rparr>)" "bp_workers (q\<lparr>bp_pendingErr := Some x\<rparr>) = bp_workers p"
      "if bp_pendingErr (q\<lparr>bp_pendingErr := Some x\<rparr>) = None
       then length (bp_ring (q\<lparr>bp_pendingErr := Some x\<rparr>)) = length (bp_ring p) + 1 \<and> left (d_r (d'\<lparr>d_r := s\<rparr>)) < left (d_r d')
       else bp_ring (q\<lparr>bp_pendingErr := Some x\<rparr>) = bp_ring p"
      using f by simp_all
  qed simp
  have keep: "p = p\<lparr>bp_codeLength := bp_codeLength p, bp_bitlen := bp_bitlen p, bp_tables := bp_tables p, bp_cur := bp_cur p\<rparr>" by simp
  show thesis
  proof (cases rule: readBlockHead_returns [OF src, case_names refused head])
    case (refused x s)
    show thesis by (rule failed [OF _ _ R keep]) (use refused at in \<open>auto simp: bp_readBlock_def dec_readBlockHeader_def\<close>)
  next
    case (head h s)
    show thesis
    proof (cases rule: rf_cases [OF head(2), of "bh_blockBytes h", case_names short got])
      case (short payload x s')
      show thesis
        by (rule failed [OF _ _ R keep]) (use head(1) short at in \<open>auto simp: bp_readBlock_def dec_readBlockHeader_def\<close>)
    next
      case (got payload s')
      define br where "br = newBitReader payload (bh_blockBits h)"
      have fits: "block_fits br" unfolding br_def by (rule block_fits_new) (use head(3) got(3) in simp)
      have less: "left s' < left (d_r d')" using head(4) got(4) at(1) by simp
      have job: thesis
        if rb: "bp_readBlock rf d' p = Some (d'\<lparr>d_r := s'\<rparr>, bp_submit j (noted q (pj_oversize j \<or> bp_oversizePending q)
              ((bp_inUse q)[bp_cur q := bp_inUse q ! bp_cur q + 1]) (d_lastBlock d1)))"
          and ser: "dec_readBlockHeader rf d0 = Some (None, d1)" "d_br d1 = Some r" "d_r d1 = s'" and q: "ring_link rf d d0 q"
            "q = p\<lparr>bp_codeLength := bp_codeLength q, bp_bitlen := bp_bitlen q, bp_tables := bp_tables q, bp_cur := bp_cur q\<rparr>"
          and tabs: "bp_tables q ! bp_cur q = d_tables d1" "ts_clean (d_tables d1)" "hf_clean 128 (d_bitlen d1)"
          and j: "pj_tablesIdx j = bp_cur q" "bj_lastBlock (pj_job j) = d_lastBlock d1" "bj_resume (pj_job j) = Some r"
            "\<not> pj_done j" "\<not> pj_waited j"
        for j q d1 r
      proof -
        have f: "bp_ring q = bp_ring p" "bp_quit q = bp_quit p" "bp_workers q = bp_workers p" "bp_slots q = bp_slots p"
          "bp_pendingErr q = None"
          by (subst q(2), simp add: bp_slots_def more)+
        obtain e d1' where H: "dec_readBlockHeader rf d0 = Some (e, d1')" "dec_ok d1'" "src_ok (d_r d1')"
          by (rule dec_readBlockHeader_ok [OF ok0 src]) blast
        have d1: "dec_ok (d1\<lparr>d_br := None\<rparr>)" "src_ok (d_r (d1\<lparr>d_br := None\<rparr>))"
          using H ser(1) by (simp_all add: dec_ok_def)
        have sd: "d_r (d'\<lparr>d_r := s'\<rparr>) = d_r d1" using ser(3) by simp
        note S = link_submit [OF q(1) room [folded f(1) f(4)] at(3) f(5) ser(1,2) tabs sd j refl]
        show thesis
          by (rule goal [OF rb S(1) d1])
            (use S f less in simp_all)
      qed
      define d1 where "d1 = d0\<lparr>d_r := s', d_br := Some br, d_lastBlock := bh_lastBlock h\<rparr>"
      show thesis
      proof (cases "bh_newTables h")
        case False
        show thesis
          by (rule job [OF _ _ _ _ R keep, of "\<lparr>pj_job = \<lparr>bj_payload = payload, bj_bits = bh_blockBits h,
                bj_lastBlock = bh_lastBlock h, bj_tables = bp_tables p ! bp_cur p, bj_cap = itemCap, bj_items = [],
                bj_partial = False, bj_resume = Some br, bj_err = None\<rparr>, pj_tablesIdx = bp_cur p,
                pj_oversize = bp_payloadLimit p < bh_blockBytes h, pj_waited = False, pj_done = False\<rparr>" d1 br])
            (use False head(1) got(1) at clean in \<open>simp_all add: bp_readBlock_def dec_readBlockHeader_def noted_def d1_def br_def Let_def\<close>)
      next
        case True
        obtain e cl sc br' where rc: "readCodeLengthTable br (d_codeLength d0) (d_bitlen d0) = (e, cl, sc, br')"
          by (cases "readCodeLengthTable br (d_codeLength d0) (d_bitlen d0)" rule: prod_cases4) auto
        obtain y ts where tl: "ts_load (d_tables d0) cl = (y, ts)" by fastforce
        show thesis
        proof (rule bp_load_ok [OF R clean D(4) fits rc])
          fix x br2 q
          assume q: "bp_load br p = Some (x, br2, q)" "ring_link rf d d0 q"
            "q = p\<lparr>bp_codeLength := bp_codeLength q, bp_bitlen := bp_bitlen q, bp_tables := bp_tables q, bp_cur := bp_cur q\<rparr>"
            and e1: "\<And>y. e = Some y \<Longrightarrow> x = Some y"
            and e0: "e = None \<Longrightarrow> br2 = br' \<and> x = fst (ts_load (d_tables d0) cl) \<and> hf_clean 128 sc \<and> ts_clean (snd (ts_load (d_tables d0) cl))
                \<and> (x = None \<longrightarrow> bp_tables q ! bp_cur q = snd (ts_load (d_tables d0) cl))"
          show thesis
          proof (cases x)
            case (Some z)
            have "\<exists>d2. dec_readBlockHeader rf d0 = Some (Some z, d2)"
              using True head(1) got(1) rc tl Some e0 e1
              by (cases e) (auto simp: dec_readBlockHeader_def br_def [symmetric])
            then obtain d2 where ser: "dec_readBlockHeader rf d0 = Some (Some z, d2)" by blast
            show thesis
              by (rule failed [OF _ ser q(2,3)]) (use True head(1) got(1) q(1) Some at in \<open>simp add: bp_readBlock_def br_def [symmetric]\<close>)
          next
            case None
            then have e: "e = None" using e1 by (cases e) auto
            note E = e0 [OF e]
            have f: "bp_payloadLimit q = bp_payloadLimit p" by (subst q(3)) simp
            show thesis
              by (rule job [OF _ _ _ _ q(2,3), of "\<lparr>pj_job = \<lparr>bj_payload = payload, bj_bits = bh_blockBits h,
                    bj_lastBlock = bh_lastBlock h, bj_tables = bp_tables q ! bp_cur q, bj_cap = itemCap, bj_items = [],
                    bj_partial = False, bj_resume = Some br2, bj_err = None\<rparr>, pj_tablesIdx = bp_cur q,
                    pj_oversize = bp_payloadLimit p < bh_blockBytes h, pj_waited = False, pj_done = False\<rparr>"
                    "d1\<lparr>d_br := Some br', d_codeLength := cl, d_bitlen := sc, d_tables := ts\<rparr>" br'])
                (use True head(1) got(1) at e E None q(1) rc tl in
                  \<open>simp_all add: bp_readBlock_def dec_readBlockHeader_def noted_def d1_def br_def [symmetric] Let_def\<close>)
          qed
        qed
      qed
    qed
  qed
qed

text \<open>Reading ahead leaves the serial decoder where it is.\<close>

lemma bp_readAhead_loop_ok:
  assumes "link rf d d0 d' p" and "dec_ok d0" and "src_ok (d_r d0)" and "length (bp_ring p) + free \<le> bp_slots p"
  shows "\<exists>d2' p2 d2. bp_readAhead_loop free rf d' p = Some (d2', p2) \<and> link rf d d2 d2' p2 \<and> dec_ok d2 \<and> src_ok (d_r d2)
     \<and> d2' = d'\<lparr>d_r := d_r d2'\<rparr> \<and> (bp_quit p \<longrightarrow> bp_quit p2) \<and> work_left left d2' p2 \<le> work_left left d' p
     \<and> length (bp_ring p) \<le> length (bp_ring p2)
     \<and> (length (bp_ring p2) = length (bp_ring p)
         \<longrightarrow> free = 0 \<or> bp_sawLast p2 \<or> bp_pendingErr p2 \<noteq> None \<or> bp_oversizePending p2)"
  using assms
proof (induction free arbitrary: d' p d0)
  case 0
  then show ?case by auto
next
  case (Suc free)
  show ?case
  proof (cases "bp_sawLast p \<or> bp_pendingErr p \<noteq> None \<or> bp_oversizePending p")
    case True
    then show ?thesis using Suc.prems by auto
  next
    case False
    have room: "length (bp_ring p) < bp_slots p" using Suc.prems(4) by simp
    have no: "\<not> bp_sawLast p" "bp_pendingErr p = None" using False by simp_all
    show ?thesis
    proof (rule bp_readBlock_ok [OF Suc.prems(1-3) room no])
      fix d2' p2 d2
      assume B: "bp_readBlock rf d' p = Some (d2', p2)" "link rf d d2 d2' p2" "dec_ok d2" "src_ok (d_r d2)"
        "d2' = d'\<lparr>d_r := d_r d2'\<rparr>" "bp_quit p \<longrightarrow> bp_quit p2" "bp_workers p2 = bp_workers p"
        "if bp_pendingErr p2 = None then length (bp_ring p2) = length (bp_ring p) + 1 \<and> left (d_r d2') < left (d_r d')
         else bp_ring p2 = bp_ring p"
      have "length (bp_ring p2) + free \<le> bp_slots p2" using B(7,8) Suc.prems(4) by (simp add: bp_slots_def split: if_splits)
      from Suc.IH [OF B(2-4) this]
      obtain d3' p3 d3 where I: "bp_readAhead_loop free rf d2' p2 = Some (d3', p3)" "link rf d d3 d3' p3" "dec_ok d3" "src_ok (d_r d3)"
        "d3' = d2'\<lparr>d_r := d_r d3'\<rparr>" "bp_quit p2 \<longrightarrow> bp_quit p3" "work_left left d3' p3 \<le> work_left left d2' p2"
        "length (bp_ring p2) \<le> length (bp_ring p3)"
        "length (bp_ring p3) = length (bp_ring p2)
         \<longrightarrow> free = 0 \<or> bp_sawLast p3 \<or> bp_pendingErr p3 \<noteq> None \<or> bp_oversizePending p3" by blast
      have w: "work_left left d2' p2 \<le> work_left left d' p" using B(8) no by (cases "bp_pendingErr p2") (simp_all add: work_left_def)
      have up: "d3' = d'\<lparr>d_r := d_r d3'\<rparr>" by (subst I(5), subst B(5)) simp
      show ?thesis
      proof (cases "bp_pendingErr p2")
        case None
        then show ?thesis
          using False B I w up by (intro exI [of _ d3'] exI [of _ p3] exI [of _ d3]) auto
      next
        case (Some x)
        then have "bp_readAhead_loop free rf d2' p2 = Some (d2', p2)" by (cases free) simp_all
        then show ?thesis
          using False B w Some by (intro exI [of _ d2'] exI [of _ p2] exI [of _ d2]) auto
      qed
    qed
  qed
qed

lemma queued_ok:
  "queued rf q tabs d js d0 \<Longrightarrow> dec_ok d \<Longrightarrow> src_ok (d_r d) \<Longrightarrow> dec_ok d0 \<and> src_ok (d_r d0)"
proof (induction js arbitrary: d)
  case (Cons j js)
  obtain d1 where h: "dec_readBlockHeader rf d = Some (None, d1)" "queued rf q tabs (d1\<lparr>d_br := None\<rparr>) js d0" using Cons.prems(1) by auto
  obtain e d1' where "dec_readBlockHeader rf d = Some (e, d1')" "dec_ok d1'" "src_ok (d_r d1')"
    by (rule dec_readBlockHeader_ok [OF Cons.prems(2,3)]) blast
  then have "dec_ok (d1\<lparr>d_br := None\<rparr>)" "src_ok (d_r (d1\<lparr>d_br := None\<rparr>))" using h(1) by (simp_all add: dec_ok_def)
  then show ?case by (rule Cons.IH [OF h(2)])
qed simp

lemma bp_readAhead_ok:
  assumes L: "link rf d d0 d' p" and "dec_ok d" and "src_ok (d_r d)"
  obtains d2' p2 d2 where "bp_readAhead rf d' p = Some (d2', p2)" "link rf d d2 d2' p2"
    "d2' = d'\<lparr>d_r := d_r d2'\<rparr>" "bp_quit p \<longrightarrow> bp_quit p2" "work_left left d2' p2 \<le> work_left left d' p"
    "bp_ring p2 = [] \<Longrightarrow> bp_sawLast p2 \<or> bp_pendingErr p2 \<noteq> None"
proof -
  have ok: "pipe_ok p" using L by (simp add: link_def ring_link_def)
  note P = pipe_ok_parts [OF ok]
  from P(2) have "length (bp_ring p) + (bp_slots p - length (bp_ring p)) \<le> bp_slots p" by simp
  moreover have "dec_ok d0" "src_ok (d_r d0)"
    using queued_ok [OF _ assms(2,3)] L by (auto simp: link_def ring_link_def)
  ultimately have "\<exists>d2' p2 d2. bp_readAhead rf d' p = Some (d2', p2) \<and> link rf d d2 d2' p2 \<and> d2' = d'\<lparr>d_r := d_r d2'\<rparr>
     \<and> (bp_quit p \<longrightarrow> bp_quit p2) \<and> work_left left d2' p2 \<le> work_left left d' p \<and> length (bp_ring p) \<le> length (bp_ring p2)
     \<and> (length (bp_ring p2) = length (bp_ring p)
         \<longrightarrow> bp_slots p - length (bp_ring p) = 0 \<or> bp_sawLast p2 \<or> bp_pendingErr p2 \<noteq> None \<or> bp_oversizePending p2)"
    using bp_readAhead_loop_ok [OF L] unfolding bp_readAhead_def by blast
  then
  obtain d2' p2 d2 where R: "bp_readAhead rf d' p = Some (d2', p2)" "link rf d d2 d2' p2"
    "d2' = d'\<lparr>d_r := d_r d2'\<rparr>" "bp_quit p \<longrightarrow> bp_quit p2" "work_left left d2' p2 \<le> work_left left d' p"
    "length (bp_ring p) \<le> length (bp_ring p2)"
    "length (bp_ring p2) = length (bp_ring p)
         \<longrightarrow> bp_slots p - length (bp_ring p) = 0 \<or> bp_sawLast p2 \<or> bp_pendingErr p2 \<noteq> None \<or> bp_oversizePending p2" by blast
  have "bp_sawLast p2 \<or> bp_pendingErr p2 \<noteq> None" if e: "bp_ring p2 = []"
  proof -
    have "pipe_ok p2" using R(2) by (simp add: link_def ring_link_def)
    then have "\<not> bp_oversizePending p2" using pipe_ok_parts(11) e by fastforce
    moreover have "bp_ring p = []" using R(6) e by simp
    moreover have "bp_slots p \<noteq> 0" using P(1) by (simp add: bp_slots_def)
    ultimately show ?thesis using R(7) e by simp
  qed
  then show thesis using that R(1-5) by blast
qed

end

subsection \<open>Waiting for the oldest job\<close>

lemma bp_wait_link:
  assumes L: "link rf d d0 d' p" and ne: "bp_ring p \<noteq> []"
  obtains (closed) p2 where "bp_wait p = (Some ErrReaderClosed, p2)" "bp_quit p2"
  | (ready) p2 j js where "bp_wait p = (None, p2)" "bp_ring p2 = j # js" "pj_waited j" "length (bp_ring p2) = length (bp_ring p)"
      "link rf d d0 d' p2" "bp_pendingErr p2 = bp_pendingErr p"
proof -
  note goal = that
  have R: "ring_link rf d d0 p" and T: "tail_ok rf d0 d' p" using L by (simp_all add: link_def)
  obtain j js where ring: "bp_ring p = j # js" using ne by (cases "bp_ring p") auto
  show thesis
  proof (cases "pj_waited j")
    case True
    show thesis by (rule goal(2) [of p j js]) (use True ring L in \<open>auto simp: bp_wait_def\<close>)
  next
    case False
    note P = ring_link_point [OF R]
    define p1 where "p1 = (if bp_quit (bp_point p) then bp_point p else bp_work 0 (bp_point p))"
    have l1: "ring_link rf d d0 p1" "later p p1"
      using P later_trans [OF P(2)] ring_link_happen [OF P(1), of "Work 0"] by (simp_all add: p1_def)
    have w: "map pj_waited (bp_ring p1) = False # map pj_waited js" using l1(2) ring False by (simp add: later_def)
    then obtain k ks where ring1: "bp_ring p1 = k # ks" "\<not> pj_waited k" by (cases "bp_ring p1") auto
    have wait: "bp_wait p = (if pj_done k
        then (case bp_takes_quit p1 of (quits, p) \<Rightarrow>
                if quits then (Some ErrReaderClosed, p)
                else (None, p\<lparr>bp_ring := (hd (bp_ring p))\<lparr>pj_waited := True, pj_done := False\<rparr> # tl (bp_ring p)\<rparr>))
        else (Some ErrReaderClosed, p1))"
      using False ring ring1 by (simp add: bp_wait_def Let_def p1_def [symmetric])
    show thesis
    proof (cases "pj_done k")
      case nd: False
      have "bp_quit p1"
      proof (rule ccontr)
        assume nq: "\<not> bp_quit p1"
        then have p1: "p1 = bp_work 0 (bp_point p)" by (auto simp: p1_def)
        have "bp_ring (bp_point p) \<noteq> []" using later_fields(12) [OF P(2)] ring by auto
        then show False using ring1 nd unfolding p1 by (cases "bp_ring (bp_point p)") (auto simp: bp_work_def Let_def split: if_splits)
      qed
      then show thesis using goal(1) wait nd by simp
    next
      case True
      obtain b p2 where tq: "bp_takes_quit p1 = (b, p2)" by fastforce
      note Q = takes_quit_later [OF tq]
      have l2: "ring_link rf d d0 p2" "later p p2" using ring_link_same [OF l1(1) Q(1,2)] later_trans [OF l1(2) Q(1)] by simp_all
      show thesis
      proof (cases b)
        case True
        then show thesis using goal(1) [of p2] wait \<open>pj_done k\<close> tq Q(3) by simp
      next
        case False
        let ?k = "k\<lparr>pj_waited := True, pj_done := False\<rparr>" and ?p = "p2\<lparr>bp_ring := k\<lparr>pj_waited := True, pj_done := False\<rparr> # ks\<rparr>"
        have ring2: "bp_ring p2 = k # ks" using Q(2) ring1 by simp
        have wt: "bp_wait p = (None, ?p)" using wait True tq False ring2 by simp
        have "job_ok q tabs r ?k = job_ok q tabs r k" for q tabs r using True by (simp add: job_ok_def)
        then have "queued rf (bp_quit p2) (bp_tables p2) d (?k # ks) d0" using l2(1) ring2 by (simp add: ring_link_def)
        moreover have "pipe_ok ?p"
          using l2(1) ring2 by (auto simp: ring_link_def pipe_ok_def bp_slots_def)
        ultimately have "ring_link rf d d0 ?p" using l2(1) by (simp add: ring_link_def)
        moreover have "tail_ok rf d0 d' ?p" using tail_ok_later [OF l2(2) T] by (simp add: tail_ok_def)
        ultimately have "link rf d d0 d' ?p" by (simp add: link_def)
        moreover have "length (k # ks) = length (bp_ring p)" using later_fields(12) [OF l2(2)] ring2 by simp
        moreover have "bp_pendingErr p2 = bp_pendingErr p" using later_fields(7) [OF l2(2)] .
        ultimately show thesis using goal(2) [OF wt] by simp
      qed
    qed
  qed
qed

end
