(* ===== verification/Parallel.thy ===== *)
theory Parallel
  imports Ahead
begin

section \<open>Filling through the pipeline is filling\<close>

text \<open>
  \<^verbatim>\<open>fillParallel\<close> against \<^verbatim>\<open>fill\<close>, call by call: the relation \<open>sim\<close> between the serial
  decoder and the parallel one with its pipeline, one turn of the loop, the loop, and what
  engaging the pipeline starts with. \<open>Members\<close> follows the relation from member to member.
\<close>

subsection \<open>The relation\<close>

text \<open>
  Inside the oldest job's block: the serial decoder's reader is at \<open>r\<close>. The job is being
  replayed, or finished inline with the same reader; after a symbol cut short the inline part
  is still to start from where the worker stopped.
\<close>

definition inside ::
  "'s full_reading \<Rightarrow> 's decoder50 \<Rightarrow> 's decoder50 \<Rightarrow> 's decoder50 \<Rightarrow> pipeline \<Rightarrow> pipeJob \<Rightarrow> pipeJob list \<Rightarrow> bitReader \<Rightarrow> bool" where
  "inside rf d d0 d' p j js r \<longleftrightarrow>
     pipe_ok p \<and> bp_ring p = j # js \<and> pj_waited j \<and> d_br d = Some r \<and> d_tables d = bp_tables p ! pj_tablesIdx j
     \<and> d_lastBlock d = bj_lastBlock (pj_job j)
     \<and> queued rf (bp_quit p) (bp_tables p) (d\<lparr>d_br := None\<rparr>) js d0 \<and> tail_ok rf d0 d' p
     \<and> (if \<not> bp_inline p then d_br d' = None \<and> pos_ok (bp_quit p) (d_tables d) r (bp_idx p) (pj_job j)
        else if d_br d' = None then bj_resume (pj_job j) = Some r
        else d_br d' = Some r \<and> d_tables d' = d_tables d \<and> d_lastBlock d' = d_lastBlock d)"

text \<open>
  Between blocks. The serial decoder may still have to meet the end of the block it has used
  up; when that was the last, it stays there.
\<close>

definition between :: "'s full_reading \<Rightarrow> 's decoder50 \<Rightarrow> 's decoder50 \<Rightarrow> pipeline \<Rightarrow> bool" where
  "between rf d d' p \<longleftrightarrow>
     d_br d' = None \<and> (case d_br d of None \<Rightarrow> \<not> d_lastBlock d | Some r \<Rightarrow> at_end (d_tables d) r)
     \<and> (\<exists>d0. link rf (d\<lparr>d_br := None\<rparr>) d0 d' p)"

text \<open>Outside what is about blocks the two decoders are the same.\<close>

definition sim :: "'s full_reading \<Rightarrow> 's decoder50 \<Rightarrow> 's decoder50 \<Rightarrow> pipeline \<Rightarrow> bool" where
  "sim rf d d' p \<longleftrightarrow>
     d = into d d' \<and> dec_ok d \<and> ((\<exists>d0 j js r. inside rf d d0 d' p j js r) \<or> between rf d d' p)"

subsection \<open>What is not about blocks does not matter\<close>

lemma into_same: "x = y\<lparr>d_br := b\<rparr> \<Longrightarrow> into x y = x"
  by (cases y) (simp add: into_def)

lemma into_self [simp]: "into d d = d"
  by (cases d) (simp add: into_def)

lemma into_br: "d = into d e \<Longrightarrow> d\<lparr>d_br := b\<rparr> = into (d\<lparr>d_br := b\<rparr>) e"
  by (cases d; cases e) (simp add: into_def)

lemma emit_into:
  "d = into d d' \<Longrightarrow> d\<lparr>d_fl := fl, d_outbuf := ob, d_tot := t\<rparr> = into (d\<lparr>d_fl := fl, d_outbuf := ob, d_tot := t\<rparr>)
     (d'\<lparr>d_fl := fl, d_outbuf := ob, d_tot := t\<rparr>)"
  by (cases d; cases d') (simp add: into_def)

lemma dec_readBlockHeader_into:
  "dec_readBlockHeader rf (into g x) = map_option (\<lambda>(e, g1). (e, into g1 x)) (dec_readBlockHeader rf g)"
proof (cases "readBlockHead rf (d_r g)")
  case None
  then show ?thesis by (simp add: dec_readBlockHeader_def)
next
  case (Some hs)
  obtain h s where h: "hs = (h, s)" by fastforce
  show ?thesis
  proof (cases h)
    case (Inl e)
    then show ?thesis using Some h by (simp add: dec_readBlockHeader_def into_def)
  next
    case (Inr b)
    show ?thesis
    proof (cases "rf s (bh_blockBytes b)")
      case None
      then show ?thesis using Some h Inr by (simp add: dec_readBlockHeader_def)
    next
      case (Some pes)
      obtain pl e s' where pes: "pes = (pl, e, s')" by (cases pes) auto
      show ?thesis
        using \<open>readBlockHead rf (d_r g) = Some hs\<close> h Inr Some pes
        by (cases e) (auto simp: dec_readBlockHeader_def into_def Let_def split: prod.splits option.splits)
    qed
  qed
qed

lemma queued_into: "queued rf q tabs d js d0 \<Longrightarrow> queued rf q tabs (into d x) js (into d0 x)"
proof (induction js arbitrary: d)
  case (Cons j js)
  obtain d1 r where h: "\<not> d_lastBlock d" "dec_readBlockHeader rf d = Some (None, d1)" "d_br d1 = Some r"
    "d_tables d1 = tabs ! pj_tablesIdx j" "d_lastBlock d1 = bj_lastBlock (pj_job j)" "job_ok q tabs r j"
    "queued rf q tabs (d1\<lparr>d_br := None\<rparr>) js d0" using Cons.prems by auto
  have u: "into (d1\<lparr>d_br := None\<rparr>) x = (into d1 x)\<lparr>d_br := None\<rparr>" by (simp add: into_def)
  show ?case using h Cons.IH [OF h(7)] by (simp add: dec_readBlockHeader_into u)
qed simp

lemma tail_ok_into: "tail_ok rf d0 d' p \<Longrightarrow> d_r e' = d_r d' \<Longrightarrow> tail_ok rf (into d0 x) e' p"
  by (auto simp: tail_ok_def dec_readBlockHeader_into)

text \<open>Replaying leaves what is about blocks alone.\<close>

lemma dec_replayItems_keeps:
  assumes "dec_replayItems its target idx d win = Some (ex, e, i, d1, w)"
  shows "into d d1 = d1"
  using dec_replayItems_into [OF assms, of d] assms by simp

lemma onto_block:
  assumes "d_br x = b" and "d_tables x = ts" and "d_lastBlock x = l" and "x = into x y"
  shows "y\<lparr>d_tables := ts, d_br := b, d_lastBlock := l\<rparr> = onto y x"
proof -
  have "x = y\<lparr>d_r := d_r x, d_br := b, d_codeLength := d_codeLength x, d_lastBlock := l, d_tables := ts, d_bitlen := d_bitlen x\<rparr>"
    using assms by (simp add: into_def)
  then show ?thesis using assms(1-3) by (cases x; cases y) (simp add: onto_def)
qed

lemma ts_copyFrom_same [simp]: "ts_copyFrom ts src = src"
  by (cases ts; cases src) (simp add: ts_copyFrom_def)

subsection \<open>Where a block stands\<close>

lemma dbi_loop_stopped:
  assumes "dbi_loop ts cap r its = (its, part, e, br')" and "block_fits r"
  shows "part \<Longrightarrow> e = None \<and> br' = r" and "\<not> part \<Longrightarrow> e = None \<Longrightarrow> at_end ts r"
proof -
  have grows: "dbi_loop ts cap b (its @ [x]) \<noteq> (its, part, e, br')" "dbi_loop ts cap b (its @ [x, y]) \<noteq> (its, part, e, br')" for b x y
    using dbi_loop_extends [of ts cap b "its @ [x]" its part e br'] dbi_loop_extends [of ts cap b "its @ [x, y]" its part e br'] by auto
  show "part \<Longrightarrow> e = None \<and> br' = r" "\<not> part \<Longrightarrow> e = None \<Longrightarrow> at_end ts r"
    using assms grows
    by (subst (asm) dbi_loop.simps; auto simp: at_end_def split: if_splits prod.splits sum.splits)+
qed

text \<open>The relation inside a block depends on the rest of the state only through what is said of the place.\<close>

lemma inside_keep:
  assumes I: "inside rf d d0 d' p j js r" and "block_same d ds" and "d_r e' = d_r d'" and "d_br ds = Some r2"
    and p2: "p2 = p\<lparr>bp_idx := i, bp_inline := b\<rparr>"
    and "if \<not> b then d_br e' = None \<and> pos_ok (bp_quit p) (d_tables d) r2 i (pj_job j)
        else if d_br e' = None then bj_resume (pj_job j) = Some r2
        else d_br e' = Some r2 \<and> d_tables e' = d_tables d \<and> d_lastBlock e' = d_lastBlock d"
  shows "inside rf ds (into d0 ds) e' p2 j js r2"
proof -
  have u: "into (d\<lparr>d_br := None\<rparr>) ds = ds\<lparr>d_br := None\<rparr>" using assms(2) by (cases ds) (simp add: into_def block_same_def)
  have "queued rf (bp_quit p) (bp_tables p) (ds\<lparr>d_br := None\<rparr>) js (into d0 ds)"
    using queued_into [of rf "bp_quit p" "bp_tables p" "d\<lparr>d_br := None\<rparr>" js d0 ds] I by (simp add: inside_def u)
  moreover have "tail_ok rf (into d0 ds) e' p2"
    using tail_ok_into [of rf d0 d' p e' ds] I assms(3) by (simp add: inside_def p2 tail_ok_def)
  moreover have "pipe_ok p" using I by (simp add: inside_def)
  then have "pipe_ok p2" by (simp add: pipe_ok_def bp_slots_def p2)
  ultimately show ?thesis
    using I assms(2,4,6) by (cases b; cases "d_br e'") (simp_all add: inside_def block_same_def p2)
qed

text \<open>What comes out of the part of a turn that works on the oldest block.\<close>

definition block_out ::
  "'s full_reading \<Rightarrow> nat \<Rightarrow> 's decoder50 \<Rightarrow> window \<Rightarrow> byte list \<Rightarrow> nat \<Rightarrow> 's decoder50 \<Rightarrow> pipeline \<Rightarrow> 's par_result \<Rightarrow> bool" where
  "block_out rf target d win out q d' p X \<longleftrightarrow>
     (\<exists>d2' p2 w2. X = Some (Some (Some ErrReaderClosed), d2', p2, w2) \<and> bp_quit p2)
     \<or> (\<exists>x d2' p2 w2 ds. X = Some (Some (Some x), d2', p2, w2) \<and> dec_fill_loop rf target d win = Some (Some x, ds, w2)
          \<and> ds = into ds d2' \<and> x \<noteq> EOF \<and> (x = ErrDecoderOutOfData \<longrightarrow> sim rf ds d2' p2))
     \<or> (\<exists>y d2' p2 w2 ds new. X = Some (y, d2', p2, w2) \<and> y \<in> {None, Some None} \<and> target \<le> win_Available w2
          \<and> dec_fill_loop rf target d win = Some (None, ds, w2) \<and> dec_after d win out q ds w2 new \<and> sim rf ds d2' p2)
     \<or> (\<exists>d2' i b w2 ds new rz. X = par_next rf d2' (p\<lparr>bp_idx := i, bp_inline := b\<rparr>) w2 \<and> d_br d2' = None \<and> d_r d2' = d_r d'
          \<and> ds = into ds d2' \<and> d_br ds = Some rz \<and> at_end (d_tables ds) rz \<and> block_same d ds
          \<and> dec_after d win out q ds w2 new \<and> dec_fill_loop rf target d win = dec_fill_loop rf target ds w2)"

lemma block_outI:
  "X = Some (Some (Some ErrReaderClosed), d2', p2, w2) \<Longrightarrow> bp_quit p2 \<Longrightarrow> block_out rf target d win out q d' p X"
  "X = Some (Some (Some x), d2', p2, w2) \<Longrightarrow> dec_fill_loop rf target d win = Some (Some x, ds, w2) \<Longrightarrow> ds = into ds d2' \<Longrightarrow> x \<noteq> EOF
    \<Longrightarrow> x = ErrDecoderOutOfData \<longrightarrow> sim rf ds d2' p2 \<Longrightarrow> block_out rf target d win out q d' p X"
  "X = Some (y, d2', p2, w2) \<Longrightarrow> y = None \<or> y = Some None \<Longrightarrow> target \<le> win_Available w2
    \<Longrightarrow> dec_fill_loop rf target d win = Some (None, ds, w2) \<Longrightarrow> dec_after d win out q ds w2 new \<Longrightarrow> sim rf ds d2' p2
    \<Longrightarrow> block_out rf target d win out q d' p X"
  "X = par_next rf d2' (p\<lparr>bp_idx := i, bp_inline := b\<rparr>) w2 \<Longrightarrow> d_br d2' = None \<Longrightarrow> d_r d2' = d_r d'
    \<Longrightarrow> ds = into ds d2' \<Longrightarrow> d_br ds = Some rz \<Longrightarrow> at_end (d_tables ds) rz \<Longrightarrow> block_same d ds
    \<Longrightarrow> dec_after d win out q ds w2 new \<Longrightarrow> dec_fill_loop rf target d win = dec_fill_loop rf target ds w2
    \<Longrightarrow> block_out rf target d win out q d' p X"
  subgoal unfolding block_out_def by (rule disjI1) blast
  subgoal unfolding block_out_def by (rule disjI2, rule disjI1) blast
  subgoal unfolding block_out_def by (rule disjI2, rule disjI2, rule disjI1) blast
  subgoal unfolding block_out_def by (rule disjI2, rule disjI2, rule disjI2) blast
  done

text \<open>Finishing a block inline: the serial decoder at \<open>e\<close> in the block, which it entered at \<open>d\<close>.\<close>

lemma par_inline_out:
  assumes I: "inside rf d d0 d' p j js r" and e': "d_r e' = d_r d'"
    and fin: "dec_finishBlockInline e' w1 ((pj_job j)\<lparr>bj_tables := bp_tables p ! pj_tablesIdx j\<rparr>) target = Some (ov, err, onto e' df, w3)"
    and fill: "inline_fill rf target d win ov err df w3" and after: "dec_after d win out q df w3 new" and same: "block_same d df"
    and p1: "p1 = p\<lparr>bp_idx := i, bp_inline := True\<rparr>"
  shows "block_out rf target d win out q d' p (par_inline rf target e' p1 w1)"
proof -
  have hd: "hd (bp_ring p1) = j" "bp_tables p1 = bp_tables p" using I by (simp_all add: inside_def p1)
  have into: "df\<lparr>d_br := b\<rparr> = into (df\<lparr>d_br := b\<rparr>) (onto e' df)" for b by (cases df) (simp add: into_def onto_def)
  have ok: "dec_ok df" using after by (simp add: dec_after_def)
  have goes_on: "sim rf df (onto e' df) p1" if br: "d_br df = Some r2" for r2
  proof -
    have "inside rf df (into d0 df) (onto e' df) p1 j js r2"
      by (rule inside_keep [OF I same _ br p1]) (use e' br same in \<open>auto simp: block_same_def\<close>)
    moreover have "df = into df (onto e' df)" using into [of "Some r2"] br by simp
    ultimately show ?thesis using ok by (auto simp: sim_def)
  qed
  show ?thesis
  proof (cases err)
    case (Some x)
    then obtain d1 where d1: "x \<noteq> EOF" "dec_fill_loop rf target d win = Some (Some x, d1, w3)"
        "if ov then x \<noteq> ErrDecoderOutOfData \<and> df = d1\<lparr>d_br := None\<rparr> else x = ErrDecoderOutOfData \<and> d1 = df \<and> d_br df \<noteq> None"
      using fill by (auto simp: inline_fill_def)
    have X: "par_inline rf target e' p1 w1 = Some (Some (Some x), onto e' df, if ov then bp_pop p1 else p1, w3)"
      using fin Some by (simp add: par_inline_def hd)
    have "d1 = into d1 (onto e' df)"
      using d1(3) into [of "d_br d1"] by (cases ov) auto
    moreover have "x = ErrDecoderOutOfData \<longrightarrow> sim rf d1 (onto e' df) (if ov then bp_pop p1 else p1)"
      using d1(3) goes_on by (cases ov) auto
    ultimately show ?thesis using block_outI(2) [OF X d1(2)] d1(1) by blast
  next
    case None
    show ?thesis
    proof (cases ov)
      case False
      then have f: "d_br df \<noteq> None" "target \<le> win_Available w3" "dec_fill_loop rf target d win = Some (None, df, w3)"
        using fill None by (simp_all add: inline_fill_def)
      have X: "par_inline rf target e' p1 w1 = Some (None, onto e' df, p1, w3)"
        using fin None False by (simp add: par_inline_def hd)
      obtain r2 where "d_br df = Some r2" using f(1) by blast
      from block_outI(3) [OF X _ f(2,3) after goes_on [OF this]] show ?thesis by simp
    next
      case True
      then obtain rz where f: "d_br df = None" "at_end (d_tables d) rz"
          "dec_fill_loop rf target d win = dec_fill_loop rf target (df\<lparr>d_br := Some rz\<rparr>) w3"
        using fill None by (auto simp: inline_fill_def)
      have "par_inline rf target e' p1 w1 = par_next rf (onto e' df) p1 w3"
        using fin None True by (simp add: par_inline_def hd)
      then have X: "par_inline rf target e' p1 w1 = par_next rf (onto e' df) (p\<lparr>bp_idx := i, bp_inline := True\<rparr>) w3"
        unfolding p1 .
      have fits: "block_fits rz" using f(2) by (simp add: at_end_def)
      have "dec_ok (df\<lparr>d_br := Some rz\<rparr>)" using ok fits by (simp add: dec_ok_def)
      then have after1: "dec_after d win out q (df\<lparr>d_br := Some rz\<rparr>) w3 new" using after by (simp add: dec_after_def)
      have same1: "block_same d (df\<lparr>d_br := Some rz\<rparr>)" using same by (simp add: block_same_def)
      have "at_end (d_tables (df\<lparr>d_br := Some rz\<rparr>)) rz" using f(2) same by (simp add: block_same_def)
      from block_outI(4) [OF X _ _ into _ this same1 after1 f(3)] show ?thesis using f(1) e' by simp
    qed
  qed
qed

lemma finish_inline:
  assumes run: "dec_inline_loop target x w1 = Some (ov, err, df, w3)" and x: "x = into x e'" "d_br x = Some r"
    and start: "d_br e' = None \<Longrightarrow> bj_resume j = Some r \<and> bj_tables j = d_tables x \<and> bj_lastBlock j = d_lastBlock x"
      "d_br e' \<noteq> None \<Longrightarrow> d_br e' = Some r \<and> d_tables e' = d_tables x \<and> d_lastBlock e' = d_lastBlock x"
  shows "dec_finishBlockInline e' w1 j target = Some (ov, err, onto e' df, w3)"
proof -
  have "e'\<lparr>d_tables := d_tables x, d_br := Some r, d_lastBlock := d_lastBlock x\<rparr> = onto e' x"
    by (rule onto_block [OF x(2) refl refl x(1)])
  moreover have "e'\<lparr>d_tables := d_tables x, d_br := Some r, d_lastBlock := d_lastBlock x\<rparr> = e'" if "d_br e' \<noteq> None"
    using start(2) [OF that] by (cases e') simp
  ultimately show ?thesis
    using dec_inline_loop_onto [OF run, of e'] start by (cases "d_br e'") (auto simp: dec_finishBlockInline_def)
qed

lemma inline_fill_failed:
  assumes "inline_fill rf target d win True (Some z) (d1\<lparr>d_br := None\<rparr>) w1"
  obtains dz where "z \<noteq> EOF" "z \<noteq> ErrDecoderOutOfData" "dec_fill_loop rf target d win = Some (Some z, dz, w1)"
    "dz = d1\<lparr>d_br := d_br dz\<rparr>"
proof -
  obtain dz where dz: "z \<noteq> EOF" "z \<noteq> ErrDecoderOutOfData" "dec_fill_loop rf target d win = Some (Some z, dz, w1)"
      "d1\<lparr>d_br := None\<rparr> = dz\<lparr>d_br := None\<rparr>"
    using assms unfolding inline_fill_def by (simp only: option.case if_True) blast
  have "dz = d1\<lparr>d_br := d_br dz\<rparr>" using dz(4) by (cases dz; cases d1) simp
  then show thesis using that dz by blast
qed

lemma par_replay_out:
  assumes I: "inside rf d d0 d' p j js r" "\<not> bp_inline p" and into: "d = into d d'" and ok: "dec_ok d"
    and rel: "win_rel win out q" and room: "target + maxMatch \<le> win_size win" and av: "win_Available win < target"
  shows "block_out rf target d win out q d' p (par_replay rf target d' p win)"
proof -
  let ?j = "pj_job j" and ?ts = "d_tables d"
  have br: "d_br d = Some r" "d_br d' = None" and pos: "pos_ok (bp_quit p) ?ts r (bp_idx p) ?j" and hd: "hd (bp_ring p) = j"
    and tabs: "?ts = bp_tables p ! pj_tablesIdx j" and last: "d_lastBlock d = bj_lastBlock ?j" and ok_p: "pipe_ok p"
    using I by (auto simp: inside_def)
  show ?thesis
  proof (cases "bp_quit p \<and> bj_items ?j = [] \<and> \<not> bj_partial ?j \<and> bj_err ?j = Some ErrReaderClosed")
    case True
    have "dec_replayItems [] target (bp_idx p) d' win = Some (True, None, bp_idx p, d', win)" by (rule dec_replayItems_stop(1)) simp
    then have "par_replay rf target d' p win = Some (Some (Some ErrReaderClosed), d', bp_pop (p\<lparr>bp_idx := bp_idx p\<rparr>), win)"
      using True av by (simp add: par_replay_def hd)
    then show ?thesis by (rule block_outI(1)) (use True in \<open>simp add: bp_pop_def Let_def\<close>)
  next
    case False
    define its part err where f: "its = bj_items ?j" "part = bj_partial ?j" "err = bj_err ?j"
    obtain cap br' where le: "bp_idx p \<le> length its" and resume: "bj_resume ?j = Some br'"
      and R: "dbi_loop ?ts cap r (take (bp_idx p) its) = (its, part, err, br')"
      using pos False by (auto simp: pos_ok_def f)
    obtain ov e df w3 new where run: "dec_inline_loop target d win = Some (ov, e, df, w3)" and after: "dec_after d win out q df w3 new"
      and same: "block_same d df" and fill: "inline_fill rf target d win ov e df w3"
      using inline_run [OF ok br(1) rel room, of rf] by blast
    have d: "d\<lparr>d_br := Some r\<rparr> = d" using br(1) by simp
    have len: "length (take (bp_idx p) its) = bp_idx p" using le by simp
    note A = replay_agrees_loop [OF dec_ok_parts(3) [OF ok] refl dec_ok_parts(6) [OF ok br(1)] R, of target win, unfolded d len run]
    obtain dn x i d1 w1 where rep: "dec_replayItems its target (bp_idx p) (d\<lparr>d_br := None\<rparr>) win = Some (dn, x, i, d1, w1)"
      using A by (cases "dec_replayItems its target (bp_idx p) (d\<lparr>d_br := None\<rparr>) win") (auto simp: replay_agrees_def)
    have d': "into d' (d\<lparr>d_br := None\<rparr>) = d'" using br(2) by (subst into) (cases d', simp add: into_def)
    have rep': "dec_replayItems its target (bp_idx p) d' win = Some (dn, x, i, into d' d1, w1)"
      using dec_replayItems_into [OF rep, of d'] by (simp add: d')
    have d1: "into (d\<lparr>d_br := None\<rparr>) d1 = d1" by (rule dec_replayItems_keeps [OF rep])
    have d1f: "d_r d1 = d_r d" "d_codeLength d1 = d_codeLength d" "d_lastBlock d1 = d_lastBlock d" "d_tables d1 = d_tables d"
      "d_bitlen d1 = d_bitlen d" "d_br d1 = None"
      by (subst d1 [symmetric], simp)+
    have d1_same: "block_same d (d1\<lparr>d_br := b\<rparr>)" for b using d1f by (simp add: block_same_def)
    have d1_into: "z = into z (into d' d1)" if "z = d1\<lparr>d_br := b\<rparr>" for z b using into_same [OF that] by simp
    have keep: "sim rf z (into d' d1) (p\<lparr>bp_idx := k, bp_inline := b\<rparr>)"
      if z: "z = d1\<lparr>d_br := Some r2\<rparr>" "dec_ok z" and "if b then bj_resume ?j = Some r2 else pos_ok (bp_quit p) ?ts r2 k ?j" for z r2 k b
    proof -
      have "inside rf z (into d0 z) (into d' d1) (p\<lparr>bp_idx := k, bp_inline := b\<rparr>) j js r2"
        by (rule inside_keep [OF I(1) _ _ _ refl]) (use z that(3) d1_same br in \<open>auto simp: block_same_def\<close>)
      then show ?thesis using d1_into [OF z(1)] z(2) by (auto simp: sim_def)
    qed
    show ?thesis
    proof (cases x)
      case (Some z)
      then have i: "ov" "e = Some z" "df = d1\<lparr>d_br := None\<rparr>" "w3 = w1" using A by (simp_all add: rep replay_agrees_def)
      have "inline_fill rf target d win True (Some z) (d1\<lparr>d_br := None\<rparr>) w1" using fill i by simp
      then obtain dz where dz: "z \<noteq> EOF" "z \<noteq> ErrDecoderOutOfData" "dec_fill_loop rf target d win = Some (Some z, dz, w1)"
          "dz = d1\<lparr>d_br := d_br dz\<rparr>" by (rule inline_fill_failed)
      have X: "par_replay rf target d' p win = Some (Some (Some z), into d' d1, p\<lparr>bp_idx := i\<rparr>, w1)"
        using rep' Some by (simp add: par_replay_def hd f)
      show ?thesis by (rule block_outI(2) [OF X dz(3) d1_into [OF dz(4)] dz(1)]) (simp add: dz(2))
    next
      case None
      then obtain rr where rr: "block_fits rr" "i \<le> length its" "(its, part, err, br') = dbi_loop ?ts cap rr (take i its)"
          "Some (ov, e, df, w3) = dec_inline_loop target (d1\<lparr>d_br := Some rr\<rparr>) w1"
          "if dn then i = length its else target \<le> win_Available w1"
        using A [unfolded rep None replay_agrees_def] by (simp only: option.case prod.case fst_conv) blast
      have enough: ?thesis
        if X: "par_replay rf target d' p win = Some (Some None, into d' d1, p\<lparr>bp_idx := i, bp_inline := False\<rparr>, w1)"
          and t: "target \<le> win_Available w1"
      proof -
        have i: "\<not> ov" "e = None" "df = d1\<lparr>d_br := Some rr\<rparr>" "w3 = w1"
          using rr(4) dec_inline_loop_stop [OF t, of "d1\<lparr>d_br := Some rr\<rparr>"] by simp_all
        have full: "dec_fill_loop rf target d win = Some (None, d1\<lparr>d_br := Some rr\<rparr>, w1)"
          using fill i by (simp add: inline_fill_def)
        have a: "dec_after d win out q (d1\<lparr>d_br := Some rr\<rparr>) w1 new" using after i by simp
        have "pos_ok (bp_quit p) ?ts rr i ?j"
          using rr(2,3) resume by (auto simp: pos_ok_def f)
        then have "sim rf (d1\<lparr>d_br := Some rr\<rparr>) (into d' d1) (p\<lparr>bp_idx := i, bp_inline := False\<rparr>)"
          using keep [OF refl] a by (simp add: dec_after_def)
        then show ?thesis using block_outI(3) [OF X _ t full a] by simp
      qed
      have inl: "p\<lparr>bp_idx := k\<rparr> = p\<lparr>bp_idx := k, bp_inline := False\<rparr>" for k using I(2) by (cases p) simp
      show ?thesis
      proof (cases dn)
        case False
        then have X: "par_replay rf target d' p win = Some (Some None, into d' d1, p\<lparr>bp_idx := i, bp_inline := False\<rparr>, w1)"
          using rep' None by (simp add: par_replay_def hd f flip: inl)
        show ?thesis by (rule enough [OF X]) (use rr(5) False in simp)
      next
        case True
        have il: "i = length its" and R2: "dbi_loop ?ts cap rr its = (its, part, err, br')" using rr(3,5) True by simp_all
        note S = dbi_loop_stopped [OF R2 rr(1)]
        have tsok: "ts_ok (d_tables d1)" using dec_ok_parts(3) [OF ok] d1f(4) by simp
        have stop: "Some (ov, e, df, w3) = block_end target d1 w1 part err br'" if "win_Available w1 < target"
          using replay_end [OF tsok rr(1) that R2 [symmetric, folded d1f(4)]] rr(4) by simp
        show ?thesis
        proof (cases err)
          case (Some y)
          then have np: "\<not> part" using S(1) by auto
          show ?thesis
          proof (cases "target \<le> win_Available w1")
            case True
            have X: "par_replay rf target d' p win = Some (Some None, into d' d1, p\<lparr>bp_idx := i, bp_inline := False\<rparr>, w1)"
              using rep' None Some \<open>dn\<close> True f by (simp add: par_replay_def hd flip: inl)
            show ?thesis by (rule enough [OF X True])
          next
            case False
            show ?thesis
            proof (cases "y = ErrDecoderOutOfData")
              case True
              then have e: "\<not> ov" "e = Some y" "df = d1\<lparr>d_br := Some br'\<rparr>" "w3 = w1"
                using stop False np Some by (simp_all add: block_end_def)
              have X: "par_replay rf target d' p win = Some (Some (Some y), into d' d1, p\<lparr>bp_idx := i, bp_inline := True\<rparr>, w1)"
                using rep' None Some \<open>dn\<close> False True f by (simp add: par_replay_def hd)
              have full: "dec_fill_loop rf target d win = Some (Some y, d1\<lparr>d_br := Some br'\<rparr>, w1)"
                using fill e by (auto simp: inline_fill_def)
              have "sim rf (d1\<lparr>d_br := Some br'\<rparr>) (into d' d1) (p\<lparr>bp_idx := i, bp_inline := True\<rparr>)"
                using keep [OF refl, of br' True i] after e resume by (simp add: dec_after_def)
              then show ?thesis using block_outI(2) [OF X full d1_into [OF refl]] True by simp
            next
              case other: False
              then have e: "ov" "e = Some y" "df = d1\<lparr>d_br := None\<rparr>" "w3 = w1"
                using stop False np Some by (simp_all add: block_end_def)
              have X: "par_replay rf target d' p win = Some (Some (Some y), into d' d1, bp_pop (p\<lparr>bp_idx := i\<rparr>), w1)"
                using rep' None Some \<open>dn\<close> False other f by (simp add: par_replay_def hd)
              have "inline_fill rf target d win True (Some y) (d1\<lparr>d_br := None\<rparr>) w1" using fill e by simp
              then show ?thesis
              proof (rule inline_fill_failed)
                fix dz assume dz: "y \<noteq> EOF" "y \<noteq> ErrDecoderOutOfData" "dec_fill_loop rf target d win = Some (Some y, dz, w1)"
                  "dz = d1\<lparr>d_br := d_br dz\<rparr>"
                show ?thesis by (rule block_outI(2) [OF X dz(3) d1_into [OF dz(4)] dz(1)]) (simp add: dz(2))
              qed
            qed
          qed
        next
          case none: None
          show ?thesis
          proof (cases part)
            case True
            have run2: "dec_inline_loop target (d1\<lparr>d_br := Some rr\<rparr>) w1 = Some (ov, e, df, w3)" using rr(4) by simp
            have br'': "br' = rr" using S(1) [OF True] by simp
            have X: "par_replay rf target d' p win = par_inline rf target (into d' d1) (p\<lparr>bp_idx := i, bp_inline := True\<rparr>) w1"
              using rep' None none \<open>dn\<close> True f by (simp add: par_replay_def hd)
            have fin: "dec_finishBlockInline (into d' d1) w1 (?j\<lparr>bj_tables := bp_tables p ! pj_tablesIdx j\<rparr>) target
                = Some (ov, e, onto (into d' d1) df, w3)"
              by (rule finish_inline [OF run2 d1_into [OF refl]]) (use br resume br'' d1f last tabs in auto)
            show ?thesis unfolding X by (rule par_inline_out [OF I(1) _ fin fill after same refl]) simp
          next
            case False
            have X: "par_replay rf target d' p win = par_next rf (into d' d1) (p\<lparr>bp_idx := i, bp_inline := False\<rparr>) w1"
              using rep' None none \<open>dn\<close> False f by (simp add: par_replay_def hd flip: inl)
            have "\<exists>rz. at_end ?ts rz \<and> dec_after d win out q (d1\<lparr>d_br := Some rz\<rparr>) w1 new
                \<and> dec_fill_loop rf target d win = dec_fill_loop rf target (d1\<lparr>d_br := Some rz\<rparr>) w1"
            proof (cases "win_Available w1 < target")
              case True
              then have e: "ov" "e = None" "df = d1\<lparr>d_br := None\<rparr>" "w3 = w1"
                using stop False none by (simp_all add: block_end_def)
              obtain rz where rz: "at_end ?ts rz" "dec_fill_loop rf target d win = dec_fill_loop rf target (d1\<lparr>d_br := Some rz\<rparr>) w1"
                using fill e by (auto simp: inline_fill_def)
              then have "dec_after d win out q (d1\<lparr>d_br := Some rz\<rparr>) w1 new"
                using after e by (auto simp: dec_after_def dec_ok_def at_end_def)
              then show ?thesis using rz by blast
            next
              case False
              then have t: "target \<le> win_Available w1" by simp
              have e: "\<not> ov" "e = None" "df = d1\<lparr>d_br := Some rr\<rparr>" "w3 = w1"
                using rr(4) dec_inline_loop_stop [OF t, of "d1\<lparr>d_br := Some rr\<rparr>"] by simp_all
              have "dec_fill_loop rf target d win = dec_fill_loop rf target (d1\<lparr>d_br := Some rr\<rparr>) w1"
                using fill e by (simp add: inline_fill_def fill_here [OF t])
              then show ?thesis using S(2) [OF \<open>\<not> part\<close> none] after e by auto
            qed
            then obtain rz where rz: "at_end ?ts rz" "dec_after d win out q (d1\<lparr>d_br := Some rz\<rparr>) w1 new"
                "dec_fill_loop rf target d win = dec_fill_loop rf target (d1\<lparr>d_br := Some rz\<rparr>) w1" by blast
            show ?thesis
              by (rule block_outI(4) [OF X _ _ d1_into [OF refl] _ _ d1_same rz(2,3)]) (use br rz(1) d1f in simp_all)
          qed
        qed
      qed
    qed
  qed
qed

lemma block_step:
  assumes I: "inside rf d d0 d' p j js r" and into: "d = into d d'" and ok: "dec_ok d"
    and rel: "win_rel win out q" and room: "target + maxMatch \<le> win_size win" and av: "win_Available win < target"
  shows "block_out rf target d win out q d' p (if bp_inline p then par_inline rf target d' p win else par_replay rf target d' p win)"
proof (cases "bp_inline p")
  case False
  then show ?thesis using par_replay_out [OF I False into ok rel room av] by simp
next
  case True
  have br: "d_br d = Some r" using I by (simp add: inside_def)
  obtain ov e df w3 new where run: "dec_inline_loop target d win = Some (ov, e, df, w3)" and after: "dec_after d win out q df w3 new"
    and same: "block_same d df" and fill: "inline_fill rf target d win ov e df w3"
    using inline_run [OF ok br rel room, of rf] by blast
  have fin: "dec_finishBlockInline d' win ((pj_job j)\<lparr>bj_tables := bp_tables p ! pj_tablesIdx j\<rparr>) target = Some (ov, e, onto d' df, w3)"
    by (rule finish_inline [OF run into br]) (use I True in \<open>auto simp: inside_def\<close>)
  have p: "p = p\<lparr>bp_idx := bp_idx p, bp_inline := True\<rparr>" using True by (cases p) simp
  show ?thesis using par_inline_out [OF I refl fin fill after same p] True by simp
qed

subsection \<open>One turn\<close>

text \<open>
  After which results the two decoders can go on side by side: success, the end of the last
  block, and a symbol cut short by the end of its block.
\<close>

definition can_go_on :: "err option \<Rightarrow> pipeline \<Rightarrow> bool" where
  "can_go_on e p \<longleftrightarrow>
     e = None \<or> (e = Some EOF \<and> bp_pendingErr p = None) \<or> (e = Some ErrDecoderOutOfData \<and> bp_ring p \<noteq> [])"

text \<open>
  A turn against what the serial decoder does from here (\<open>F\<close>): closed; the same result, but that
  the end of the last block may be reported with the bytes before it; or the loop goes on, in
  related states, with less left to do.
\<close>

definition returned :: "'s full_reading \<Rightarrow> nat \<Rightarrow> 's dec_result
    \<Rightarrow> (err option \<times> 's decoder50 \<times> pipeline \<times> window) \<Rightarrow> bool" where
  "returned rf target F y \<longleftrightarrow>
     (case y of (e, d2', p2, w2) \<Rightarrow>
        (e = Some ErrReaderClosed \<and> bp_quit p2)
        \<or> (\<exists>e' ds. F = Some (e', ds, w2) \<and> ds = into ds d2' \<and> (e = e' \<or> e = Some EOF \<and> e' = None \<and> target \<le> win_Available w2)
             \<and> (can_go_on e p2 \<longrightarrow> sim rf ds d2' p2)))"

definition turn_out :: "'s full_reading \<Rightarrow> ('s \<Rightarrow> bool) \<Rightarrow> ('s \<Rightarrow> nat) \<Rightarrow> nat \<Rightarrow> 's dec_result \<Rightarrow> nat \<Rightarrow> nat \<Rightarrow> byte list \<Rightarrow> nat
    \<Rightarrow> 's par_result \<Rightarrow> bool" where
  "turn_out rf good left target F work n out q X \<longleftrightarrow>
     (\<exists>e d2' p2 w2. X = Some (Some e, d2', p2, w2) \<and> returned rf target F (e, d2', p2, w2))
     \<or> (\<exists>d2' p2 w2 ds new. X = Some (None, d2', p2, w2) \<and> F = dec_fill_loop rf target ds w2 \<and> sim rf ds d2' p2 \<and> good (d_r ds)
          \<and> win_rel w2 (out @ new) q \<and> win_size w2 = n \<and> (target \<le> win_Available w2 \<or> work_left left d2' p2 < work))"

text \<open>The block in hand is over; the serial decoder is at its end.\<close>

lemma pipe_ok_pop:
  assumes ok: "pipe_ok p" and ne: "bp_ring p \<noteq> []"
  shows "pipe_ok (bp_pop p)"
proof -
  obtain j js where ring: "bp_ring p = j # js" using ne by (cases "bp_ring p") auto
  let ?k = "pj_tablesIdx j"
  note P = pipe_ok_parts [OF ok]
  have pop: "bp_pop p = p\<lparr>bp_inUse := (bp_inUse p)[?k := bp_inUse p ! ?k - 1],
      bp_oversizePending := (if pj_oversize j then False else bp_oversizePending p), bp_ring := js, bp_idx := 0, bp_inline := False\<rparr>"
    by (simp add: bp_pop_def Let_def ring)
  have "?k \<le> bp_slots p" using P(6) ring by simp
  then have "(bp_inUse p)[?k := bp_inUse p ! ?k - 1] ! n = length (filter (\<lambda>j. pj_tablesIdx j = n) js)" if "n \<le> bp_slots p" for n
    using P(7) [OF that] P(4) ring by (cases "n = ?k") simp_all
  moreover have "\<exists>j \<in> set js. pj_oversize j" if "\<not> pj_oversize j" "bp_oversizePending p"
    using P(11) that ring by auto
  ultimately show ?thesis using P(1-6,8-10) ring by (simp add: pipe_ok_def bp_slots_def pop)
qed

lemma link_pop:
  assumes I: "inside rf d d0 d' p j js r" and same: "block_same d ds" and r: "d_r e' = d_r d'"
  shows "link rf (ds\<lparr>d_br := None\<rparr>) (into d0 ds) e' (bp_pop (p\<lparr>bp_idx := i, bp_inline := b\<rparr>))"
    and "work_left left e' (bp_pop (p\<lparr>bp_idx := i, bp_inline := b\<rparr>)) < work_left left d' p"
    and "bp_ring (bp_pop (p\<lparr>bp_idx := i, bp_inline := b\<rparr>)) = js"
    and "bp_pendingErr (bp_pop (p\<lparr>bp_idx := i, bp_inline := b\<rparr>)) = bp_pendingErr p"
proof -
  let ?k = "pj_tablesIdx j"
  let ?p = "bp_pop (p\<lparr>bp_idx := i, bp_inline := b\<rparr>)"
  have ring: "bp_ring p = j # js" and ok: "pipe_ok p" using I by (simp_all add: inside_def)
  have pop: "?p = p\<lparr>bp_idx := 0, bp_inline := False, bp_inUse := (bp_inUse p)[?k := bp_inUse p ! ?k - 1],
      bp_oversizePending := (if pj_oversize j then False else bp_oversizePending p), bp_ring := js\<rparr>"
    by (simp add: bp_pop_def Let_def ring)
  have u: "into (d\<lparr>d_br := None\<rparr>) ds = ds\<lparr>d_br := None\<rparr>" using same by (cases ds) (simp add: into_def block_same_def)
  have "queued rf (bp_quit p) (bp_tables p) (ds\<lparr>d_br := None\<rparr>) js (into d0 ds)"
    using queued_into [of rf "bp_quit p" "bp_tables p" "d\<lparr>d_br := None\<rparr>" js d0 ds] I by (simp add: inside_def u)
  moreover have "tail_ok rf (into d0 ds) e' ?p"
    using tail_ok_into [of rf d0 d' p e' ds] I r by (simp add: inside_def pop tail_ok_def)
  moreover have "pipe_ok ?p"
    by (rule pipe_ok_pop) (use ok ring in \<open>simp_all add: pipe_ok_def bp_slots_def\<close>)
  ultimately show "link rf (ds\<lparr>d_br := None\<rparr>) (into d0 ds) e' ?p"
    by (simp add: link_def ring_link_def pop)
  show "work_left left e' ?p < work_left left d' p" using r by (simp add: work_left_def pop ring)
  show "bp_ring ?p = js" "bp_pendingErr ?p = bp_pendingErr p" by (simp_all add: pop)
qed

context full_source
begin

lemma par_next_out:
  assumes I: "inside rf d d0 d' p j js r" and same: "block_same d ds" and r: "d_r e' = d_r d'" "d_br e' = None"
    and ds: "ds = into ds e'" "d_br ds = Some rz" "at_end (d_tables ds) rz" and ok: "dec_ok ds" "src_ok (d_r ds)"
    and rel: "win_rel w2 (out @ new) q" and F: "F = dec_fill_loop rf target ds w2"
  shows "turn_out rf src_ok left target F (work_left left d' p) (win_size w2) out q
     (par_next rf e' (p\<lparr>bp_idx := i, bp_inline := b\<rparr>) w2)"
proof -
  let ?p = "bp_pop (p\<lparr>bp_idx := i, bp_inline := b\<rparr>)"
  note L = link_pop [OF I same r(1), where i = i and b = b]
  have hd: "hd (bp_ring p) = j" and last: "d_lastBlock ds = bj_lastBlock (pj_job j)"
    using I same by (simp_all add: inside_def block_same_def)
  have btw: "sim rf z x y"
    if "link rf (ds\<lparr>d_br := None\<rparr>) dz x y" "z = ds\<lparr>d_br := Some r1\<rparr>" "at_end (d_tables ds) r1" "d_br x = None" "z = into z x" for z dz x y r1
  proof -
    have "z\<lparr>d_br := None\<rparr> = ds\<lparr>d_br := None\<rparr>" using that(2) by simp
    then have "between rf z x y" using that unfolding between_def by auto
    moreover have "dec_ok z" using ok(1) that(2,3) by (simp add: dec_ok_def at_end_def)
    ultimately show ?thesis using that(5) by (simp add: sim_def)
  qed
  show ?thesis
  proof (cases "d_lastBlock ds")
    case True
    have X: "par_next rf e' (p\<lparr>bp_idx := i, bp_inline := b\<rparr>) w2 = Some (Some (Some EOF), e', ?p, w2)"
      using True last by (simp add: par_next_def Let_def hd)
    have "\<exists>e1 dz. F = Some (e1, dz, w2) \<and> dz = into dz e' \<and> (Some EOF = e1 \<or> e1 = None \<and> target \<le> win_Available w2) \<and> sim rf dz e' ?p"
    proof (cases "target \<le> win_Available w2")
      case True
      have "sim rf ds e' ?p" by (rule btw [OF L(1) _ ds(3) r(2) ds(1)]) (use ds(2) in simp)
      then show ?thesis using fill_here [OF True] ds(1) True by (auto simp: F)
    next
      case False
      then obtain r1 where r1: "dec_fill_loop rf target ds w2 = Some (Some EOF, ds\<lparr>d_br := Some r1\<rparr>, w2)" "at_end (d_tables ds) r1"
        using fill_end(2) [of w2 target ds rz rf] ds(2,3) True by auto
      have z: "ds\<lparr>d_br := Some r1\<rparr> = into (ds\<lparr>d_br := Some r1\<rparr>) e'" by (rule into_br [OF ds(1)])
      show ?thesis using btw [OF L(1) refl r1(2) r(2) z] r1(1) z by (auto simp: F)
    qed
    then show ?thesis unfolding turn_out_def returned_def using X by blast
  next
    case False
    have ok1: "dec_ok (ds\<lparr>d_br := None\<rparr>)" "src_ok (d_r (ds\<lparr>d_br := None\<rparr>))" using ok by (simp_all add: dec_ok_def)
    show ?thesis
    proof (rule bp_readAhead_ok [OF L(1) ok1])
      fix d3' p3 d3
      assume A: "bp_readAhead rf e' ?p = Some (d3', p3)" "link rf (ds\<lparr>d_br := None\<rparr>) d3 d3' p3" "d3' = e'\<lparr>d_r := d_r d3'\<rparr>"
        "work_left left d3' p3 \<le> work_left left e' ?p"
      have X: "par_next rf e' (p\<lparr>bp_idx := i, bp_inline := b\<rparr>) w2 = Some (None, d3', p3, w2)"
        using False last A(1) by (simp add: par_next_def Let_def hd)
      have into: "ds = into ds d3'" by (subst A(3), subst ds(1)) (simp add: into_def)
      have "d_br d3' = None" by (subst A(3)) (simp add: r(2))
      from btw [OF A(2) _ ds(3) this into] ds(2) have "sim rf ds d3' p3" by simp
      then show ?thesis unfolding turn_out_def using X F ok(2) rel A(4) L(2) [where left = left] by (intro disjI2) fastforce
    qed
  qed
qed

text \<open>A block's work, as a turn.\<close>

lemma block_turn:
  assumes I: "inside rf d d0 d' p j js r" and into: "d = into d d'" and ok: "dec_ok d" "src_ok (d_r d)"
    and rel: "win_rel win out q" and room: "target + maxMatch \<le> win_size win" and av: "win_Available win < target"
  shows "turn_out rf src_ok left target (dec_fill_loop rf target d win) (work_left left d' p) (win_size win) out q
     (if bp_inline p then par_inline rf target d' p win else par_replay rf target d' p win)"
proof -
  let ?X = "if bp_inline p then par_inline rf target d' p win else par_replay rf target d' p win"
  have returns: "turn_out rf src_ok left target (dec_fill_loop rf target d win) (work_left left d' p) (win_size win) out q ?X"
    if "?X = Some (Some e, d2', p2, w2)" "returned rf target (dec_fill_loop rf target d win) (e, d2', p2, w2)" for e d2' p2 w2
    unfolding turn_out_def using that by (intro disjI1) blast
  from block_step [OF I into ok(1) rel room av] show ?thesis unfolding block_out_def
  proof (elim disjE exE conjE)
    fix d2' p2 w2
    assume a: "?X = Some (Some (Some ErrReaderClosed), d2', p2, w2)" "bp_quit p2"
    show ?thesis by (rule returns [OF a(1)]) (simp add: returned_def a(2))
  next
    fix x d2' p2 w2 ds
    assume a: "?X = Some (Some (Some x), d2', p2, w2)" "dec_fill_loop rf target d win = Some (Some x, ds, w2)" "ds = into ds d2'"
      "x \<noteq> EOF" "x = ErrDecoderOutOfData \<longrightarrow> sim rf ds d2' p2"
    have "returned rf target (dec_fill_loop rf target d win) (Some x, d2', p2, w2)"
      using a(2-5) by (auto simp: returned_def can_go_on_def)
    then show ?thesis by (rule returns [OF a(1)])
  next
    fix y d2' p2 w2 ds new
    assume a: "?X = Some (y, d2', p2, w2)" "y \<in> {None, Some None}" "target \<le> win_Available w2"
      "dec_fill_loop rf target d win = Some (None, ds, w2)" "dec_after d win out q ds w2 new" "sim rf ds d2' p2"
    show ?thesis
    proof (cases y)
      case None
      obtain e z w new2 where "dec_fill_loop rf target d win = Some (e, z, w)" "src_ok (d_r z)"
        using dec_fill_loop_ok [OF ok(1) rel room ok(2)] by blast
      then have "src_ok (d_r ds)" using a(4) by simp
      moreover have "dec_fill_loop rf target d win = dec_fill_loop rf target ds w2" using a(4) fill_here [OF a(3), of rf ds] by simp
      ultimately show ?thesis unfolding turn_out_def using a None by (intro disjI2) (fastforce simp: dec_after_def)
    next
      case (Some e)
      then have "y = Some None" using a(2) by simp
      moreover have "returned rf target (dec_fill_loop rf target d win) (None, d2', p2, w2)"
        using a(4,6) by (auto simp: returned_def sim_def)
      ultimately show ?thesis using a(1) by (intro returns) simp_all
    qed
  next
    fix d2' i b w2 ds new rz
    assume a: "?X = par_next rf d2' (p\<lparr>bp_idx := i, bp_inline := b\<rparr>) w2" "d_br d2' = None" "d_r d2' = d_r d'"
      "ds = into ds d2'" "d_br ds = Some rz" "at_end (d_tables ds) rz" "block_same d ds" "dec_after d win out q ds w2 new"
      "dec_fill_loop rf target d win = dec_fill_loop rf target ds w2"
    have k: "dec_ok ds" "src_ok (d_r ds)" "win_rel w2 (out @ new) q" "win_size w2 = win_size win"
      using a(7,8) ok(2) by (simp_all add: dec_after_def block_same_def)
    from par_next_out [OF I a(7,3,2,4,5,6) k(1-3) a(9), where i = i and b = b] show ?thesis using a(1) k(4) by simp
  qed
qed

lemma par_turn_out:
  assumes S: "sim rf d d' p" and src: "src_ok (d_r d)"
    and rel: "win_rel win out q" and room: "target + maxMatch \<le> win_size win" and av: "win_Available win < target"
  shows "turn_out rf src_ok left target (dec_fill_loop rf target d win) (work_left left d' p) (win_size win) out q
     (par_turn rf target d' p win)"
proof -
  have into: "d = into d d'" and ok: "dec_ok d" using S by (simp_all add: sim_def)
  from S consider (inside) d0 j js r where "inside rf d d0 d' p j js r" | (between) "between rf d d' p"
    by (auto simp: sim_def)
  then show ?thesis
  proof cases
    case inside
    then have "bp_ring p \<noteq> []" "bp_wait p = (None, p)" by (auto simp: inside_def bp_wait_def)
    then have "par_turn rf target d' p win = (if bp_inline p then par_inline rf target d' p win else par_replay rf target d' p win)"
      by (simp add: par_turn_def)
    then show ?thesis using block_turn [OF inside into ok src rel room av] by simp
  next
    case between
    obtain d0 where L: "link rf (d\<lparr>d_br := None\<rparr>) d0 d' p" and br': "d_br d' = None"
      and at: "case d_br d of None \<Rightarrow> \<not> d_lastBlock d | Some r \<Rightarrow> at_end (d_tables d) r"
      using between by (auto simp: between_def)
    have ok1: "dec_ok (d\<lparr>d_br := None\<rparr>)" "src_ok (d_r (d\<lparr>d_br := None\<rparr>))" using ok src by (simp_all add: dec_ok_def)
    show ?thesis
    proof (cases "d_lastBlock d")
      case True
      then obtain r where r: "d_br d = Some r" "at_end (d_tables d) r" using at by (cases "d_br d") auto
      have q: "queued rf (bp_quit p) (bp_tables p) (d\<lparr>d_br := None\<rparr>) (bp_ring p) d0" and T: "tail_ok rf d0 d' p"
        using L by (simp_all add: link_def ring_link_def)
      have ring: "bp_ring p = []" and d0: "d0 = d\<lparr>d_br := None\<rparr>" using q True by (cases "bp_ring p"; simp)+
      have saw: "bp_sawLast p" and pend: "bp_pendingErr p = None"
        using T True by (cases "bp_pendingErr p"; simp add: tail_ok_def d0)+
      have "bp_readAhead_loop k rf d' p = Some (d', p)" for k using saw by (cases k) simp_all
      then have X: "par_turn rf target d' p win = Some (Some (Some EOF), d', p, win)"
        using ring pend by (simp add: par_turn_def bp_readAhead_def)
      obtain r1 where r1: "dec_fill_loop rf target d win = Some (Some EOF, d\<lparr>d_br := Some r1\<rparr>, win)" "at_end (d_tables d) r1"
        using fill_end(2) [OF av r True, of rf] by blast
      have "dec_ok (d\<lparr>d_br := Some r1\<rparr>)" using ok r1(2) by (simp add: dec_ok_def at_end_def)
      moreover have "between rf (d\<lparr>d_br := Some r1\<rparr>) d' p" using L br' r1(2) by (auto simp: between_def)
      ultimately have "sim rf (d\<lparr>d_br := Some r1\<rparr>) d' p" using into_br [OF into] by (simp add: sim_def)
      then have "returned rf target (dec_fill_loop rf target d win) (Some EOF, d', p, win)"
        using r1(1) into_br [OF into] by (auto simp: returned_def)
      then show ?thesis unfolding turn_out_def using X by blast
    next
      case False
      have F: "dec_fill_loop rf target d win = dec_fill_loop rf target (d\<lparr>d_br := None\<rparr>) win"
      proof (cases "d_br d")
        case None
        then have "d\<lparr>d_br := None\<rparr> = d" by simp
        then show ?thesis by (simp only:)
      next
        case (Some r)
        then show ?thesis using fill_end(1) [OF av Some _ False] at by simp
      qed
      define d1 where "d1 = d\<lparr>d_br := None\<rparr>"
      note L1 = L [folded d1_def] and ok1' = ok1 [folded d1_def]
      obtain d2' p2 d2 where R: "(if bp_ring p = [] then bp_readAhead rf d' p else Some (d', p)) = Some (d2', p2)"
          "link rf d1 d2 d2' p2" "d2' = d'\<lparr>d_r := d_r d2'\<rparr>" "work_left left d2' p2 \<le> work_left left d' p"
          "bp_ring p2 = [] \<Longrightarrow> bp_sawLast p2 \<or> bp_pendingErr p2 \<noteq> None"
      proof (cases "bp_ring p = []")
        case True
        show thesis by (rule bp_readAhead_ok [OF L1 ok1'], rule that) (use True in auto)
      next
        case False
        show thesis by (rule that [of d' p d0]) (use False L1 in auto)
      qed
      have into2: "x = into x d2'" if "into x d1 = x" for x
        using that by (subst R(3), subst (asm) d1_def, subst (asm) into) (simp add: into_def)
      have Q: "queued rf (bp_quit p2) (bp_tables p2) d1 (bp_ring p2) d2" and T: "tail_ok rf d2 d2' p2"
        using R(2) by (simp_all add: link_def ring_link_def)
      obtain e dh where H: "dec_readBlockHeader rf d1 = Some (e, dh)" "dec_ok dh" "src_ok (d_r dh)"
          "dh = d1\<lparr>d_r := d_r dh, d_br := d_br dh, d_lastBlock := d_lastBlock dh, d_codeLength := d_codeLength dh,
                d_bitlen := d_bitlen dh, d_tables := d_tables dh\<rparr>"
        by (rule dec_readBlockHeader_ok [OF ok1']) blast
      have dh: "dh = into dh d2'" by (rule into2) (subst (2) H(4), simp add: into_def)
      have d1_br: "d_br d1 = None" by (simp add: d1_def)
      show ?thesis
      proof (cases "bp_ring p2 = []")
        case True
        then have d2: "d2 = d1" using Q by simp
        have "\<not> bp_sawLast p2" using T False by (simp add: tail_ok_def d2 d1_def)
        then obtain x where x: "bp_pendingErr p2 = Some x" using R(5) True by auto
        then have e: "e = Some x" using T H(1) by (auto simp: tail_ok_def d2)
        have X: "par_turn rf target d' p win = Some (Some (Some x), d2', p2, win)"
          using R(1) True x by (simp add: par_turn_def)
        have "dec_fill_loop rf target d1 win = Some (Some x, dh, win)" by (rule fill_header(1) [OF av d1_br H(1) e])
        then have "returned rf target (dec_fill_loop rf target d win) (Some x, d2', p2, win)"
          using F dh True x by (auto simp: returned_def can_go_on_def d1_def)
        then show ?thesis unfolding turn_out_def using X by blast
      next
        case ne: False
        show ?thesis
        proof (cases rule: bp_wait_link [OF R(2) ne, case_names closed ready])
          case (closed p3)
          then have "par_turn rf target d' p win = Some (Some (Some ErrReaderClosed), d2', p3, win)"
            using R(1) ne by (simp add: par_turn_def)
          then show ?thesis unfolding turn_out_def returned_def using closed(2) by blast
        next
          case (ready p3 j js)
          have inl: "\<not> bp_inline p3" "bp_idx p3 = 0" "pipe_ok p3" using ready(5) by (simp_all add: link_def ring_link_def)
          have "queued rf (bp_quit p3) (bp_tables p3) d1 (j # js) d2" "tail_ok rf d2 d2' p3"
            using ready(2,5) by (simp_all add: link_def ring_link_def)
          then obtain r where r: "e = None" "d_br dh = Some r" "d_tables dh = bp_tables p3 ! pj_tablesIdx j"
              "d_lastBlock dh = bj_lastBlock (pj_job j)" "job_ok (bp_quit p3) (bp_tables p3) r j"
              "queued rf (bp_quit p3) (bp_tables p3) (dh\<lparr>d_br := None\<rparr>) js d2" "tail_ok rf d2 d2' p3"
            using H(1) by auto
          have "d_br d2' = None" by (subst R(3)) (simp add: br')
          then have I: "inside rf dh d2 d2' p3 j js r"
            using ready(2,3) inl r by (simp add: inside_def job_ok_def)
          have X: "par_turn rf target d' p win = par_replay rf target d2' p3 win"
            using R(1) ne ready(1) inl(1) by (simp add: par_turn_def)
          have "dec_fill_loop rf target d1 win = dec_fill_loop rf target dh win"
            by (rule fill_header(2) [OF av d1_br H(1) r(1)]) (simp add: r(2))
          then have F2: "dec_fill_loop rf target d win = dec_fill_loop rf target dh win" using F by (simp add: d1_def)
          have "work_left left d2' p3 = work_left left d2' p2" using ready(4,6) by (simp add: work_left_def)
          then have "work_left left d2' p3 \<le> work_left left d' p" using R(4) by simp
          then show ?thesis
            using block_turn [OF I dh H(2,3) rel room av] inl(1) unfolding X F2 turn_out_def by (auto dest: less_le_trans)
        qed
      qed
    qed
  qed
qed

lemma par_fill_loop_ok:
  assumes "sim rf d d' p" and "src_ok (d_r d)" and "win_rel win out q" and "target + maxMatch \<le> win_size win"
  shows "\<exists>y. par_fill_loop rf target d' p win = Some y \<and> returned rf target (dec_fill_loop rf target d win) y"
  using assms
proof (induction "work_left left d' p" arbitrary: d d' p win out rule: less_induct)
  case less
  show ?case
  proof (cases "win_Available win < target")
    case False
    then have t: "target \<le> win_Available win" by simp
    have "par_fill_loop rf target d' p win = Some (None, d', p, win)" using False by (subst par_fill_loop.simps) simp
    moreover have "returned rf target (dec_fill_loop rf target d win) (None, d', p, win)"
      using less.prems(1) fill_here [OF t, of rf d] by (auto simp: returned_def sim_def)
    ultimately show ?thesis by blast
  next
    case True
    from par_turn_out [OF less.prems True] consider
        (ret) y e d2' p2 w2 where "y = (e, d2', p2, w2)" "par_turn rf target d' p win = Some (Some e, d2', p2, w2)"
          "returned rf target (dec_fill_loop rf target d win) y"
      | (on) d2' p2 w2 ds new where "par_turn rf target d' p win = Some (None, d2', p2, w2)"
          "dec_fill_loop rf target d win = dec_fill_loop rf target ds w2" "sim rf ds d2' p2" "src_ok (d_r ds)"
          "win_rel w2 (out @ new) q" "win_size w2 = win_size win"
          "target \<le> win_Available w2 \<or> work_left left d2' p2 < work_left left d' p"
      unfolding turn_out_def by blast
    then show ?thesis
    proof cases
      case (ret y e d2' p2 w2)
      then have "par_fill_loop rf target d' p win = Some y" using True by (subst par_fill_loop.simps) simp
      then show ?thesis using ret(3) by blast
    next
      case a: (on d2' p2 w2 ds new)
      have step: "par_fill_loop rf target d' p win = par_fill_loop rf target d2' p2 w2"
        using True a(1) by (subst par_fill_loop.simps) simp
      show ?thesis
      proof (cases "target \<le> win_Available w2")
        case t: True
        have "par_fill_loop rf target d2' p2 w2 = Some (None, d2', p2, w2)" using t by (subst par_fill_loop.simps) simp
        moreover have "returned rf target (dec_fill_loop rf target d win) (None, d2', p2, w2)"
          using a(2,3) fill_here [OF t, of rf ds] by (auto simp: returned_def sim_def)
        ultimately show ?thesis using step by auto
      next
        case False
        have "target + maxMatch \<le> win_size w2" using less.prems(4) a(6) by simp
        then show ?thesis using less.hyps [OF _ a(3,4,5)] a(2,7) False step by auto
      qed
    qed
  qed
qed

end

subsection \<open>Starting a member\<close>

text \<open>A decoder at the start of a member, the way it is given to \<^verbatim>\<open>setPipeline\<close>.\<close>

definition started :: "'s decoder50 \<Rightarrow> bool" where
  "started d \<longleftrightarrow> dec_ok d \<and> d_br d = None \<and> \<not> d_lastBlock d \<and> ts_clean (d_tables d) \<and> hf_clean 128 (d_bitlen d)"

lemma ts_prewarm_clean: "ts_clean (ts_prewarm ts_empty)"
proof -
  have "hf_clean k hf_empty" for k by (simp add: hf_clean_def hf_empty_def)
  then have "ts_clean ts_empty" by (simp add: ts_clean_def ts_empty_def)
  then show ?thesis unfolding ts_prewarm_def by (intro ts_load_clean(3)) simp_all
qed

lemma started_new: "started (newDecoder50 s)"
  using newDecoder50_ok [of s] ts_prewarm_clean
  by (simp add: started_def newDecoder50_def hf_clean_def hf_empty_def)

lemma pipe_ok_new: "0 < workers \<Longrightarrow> pipe_ok ((newBlockPipeline workers events picks)\<lparr>bp_quit := b\<rparr>)"
  using ts_prewarm_clean
  by (auto simp: pipe_ok_def newBlockPipeline_def bp_slots_def hf_clean_def hf_empty_def simp del: replicate_Suc)

text \<open>Engaging an empty pipeline that has the tables, or gets them from the decoder.\<close>

lemma bp_engage_sim:
  assumes d: "started d" "d = into d d'" "d_br d' = None" "d_r d' = d_r d"
    and p: "pipe_ok p" "bp_ring p = []" and tabs: "if bp_engaged p then bp_tables p ! bp_cur p = d_tables d else d_tables d' = d_tables d"
  shows "\<exists>p2. bp_engage d' p = Some p2 \<and> sim rf d d' p2"
proof -
  let ?p = "p\<lparr>bp_idx := 0, bp_inline := False, bp_pendingErr := None, bp_sawLast := False\<rparr>"
  have drain: "bp_drain p = p" using p(2) by (simp add: bp_drain_def)
  note P = pipe_ok_parts [OF p(1)]
  have done_: "sim rf d d' p2" if "pipe_ok p2" "bp_ring p2 = []" "bp_idx p2 = 0" "\<not> bp_inline p2" "bp_pendingErr p2 = None"
      "\<not> bp_sawLast p2" "bp_tables p2 ! bp_cur p2 = d_tables d" for p2
  proof -
    have "d\<lparr>d_br := None\<rparr> = d" using d(1) by (simp add: started_def)
    then have "link rf (d\<lparr>d_br := None\<rparr>) d d' p2"
      using that d(1,4) by (simp add: link_def ring_link_def tail_ok_def started_def)
    then show ?thesis using d by (auto simp: sim_def between_def started_def)
  qed
  show ?thesis
  proof (cases "bp_engaged p")
    case True
    have "sim rf d d' (?p\<lparr>bp_engaged := True\<rparr>)"
      by (rule done_) (use p tabs True in \<open>simp_all add: pipe_ok_def bp_slots_def\<close>)
    then show ?thesis using True by (simp add: bp_engage_def drain Let_def)
  next
    case False
    have p': "pipe_ok ?p" using p(1) by (simp add: pipe_ok_def bp_slots_def)
    obtain k where k: "freeTableSet ?p = Some k" "k \<le> bp_slots p"
      using freeTableSet_finds [OF p'] by (auto simp: bp_slots_def)
    let ?q = "?p\<lparr>bp_cur := k, bp_tables := (bp_tables p)[k := d_tables d'], bp_engaged := True\<rparr>"
    have "sim rf d d' ?q"
    proof (rule done_)
      have "ts_clean (d_tables d')" using tabs False d(1) by (simp add: started_def)
      then show "pipe_ok ?q" using p k(2) by (auto simp: pipe_ok_def bp_slots_def dest!: set_update_subset_insert [THEN subsetD])
    qed (use p k P(3) tabs False in simp_all)
    then show ?thesis using False k(1) by (simp add: bp_engage_def drain Let_def)
  qed
qed

end
