(* ===== verification/Members.thy ===== *)
theory Members
  imports Parallel
begin

section \<open>From member to member (decoder50.go, decoder50_parallel.go)\<close>

text \<open>
  The life of a decoder and its pipeline: members begun with any number of workers and read to
  their end, abandoned in the middle or failed; the pipeline stopped by a \<^verbatim>\<open>Close\<close> and started
  again by a \<^verbatim>\<open>Reset\<close>. What both keep through it, and from which pairs of states on decoding a
  member with workers is decoding it without.
\<close>

subsection \<open>What a pipeline keeps, whatever happens to the member\<close>

text \<open>Of the decoder in front of it: all but the block in hand, which the next member forgets.\<close>

definition whole :: "('s \<Rightarrow> bool) \<Rightarrow> 's decoder50 \<Rightarrow> bool" where
  "whole good d \<longleftrightarrow> good (d_r d) \<and> hf_clean 128 (d_bitlen d) \<and> length (d_codeLength d) = tableSize5"

definition fine :: "bool \<Rightarrow> pipeline \<Rightarrow> bool" where
  "fine b p \<longleftrightarrow> pipe_ok p \<and> (\<forall>ts \<in> set (bp_tables p). ts_ok ts) \<and> bp_engaged p = b"

lemma fine_same:
  assumes "fine b p" and "bp_workers p' = bp_workers p" "bp_ring p' = bp_ring p" "bp_tables p' = bp_tables p" "bp_inUse p' = bp_inUse p"
    "bp_cur p' = bp_cur p" "bp_bitlen p' = bp_bitlen p" "bp_codeLength p' = bp_codeLength p" "bp_oversizePending p' = bp_oversizePending p"
  shows "fine (bp_engaged p') p'"
  using assms by (simp add: fine_def pipe_ok_def bp_slots_def)

lemma fine_pop: "fine b p \<Longrightarrow> bp_ring p \<noteq> [] \<Longrightarrow> fine b (bp_pop p)"
  using pipe_ok_pop [of p] by (simp add: fine_def) (simp add: bp_pop_def Let_def)

lemma fine_pops: "fine b p \<Longrightarrow> n \<le> length (bp_ring p) \<Longrightarrow> fine b ((bp_pop ^^ n) p) \<and> bp_ring ((bp_pop ^^ n) p) = drop n (bp_ring p)
    \<and> bp_cur ((bp_pop ^^ n) p) = bp_cur p \<and> bp_tables ((bp_pop ^^ n) p) = bp_tables p \<and> bp_workers ((bp_pop ^^ n) p) = bp_workers p"
proof (induction n)
  case (Suc n)
  let ?q = "(bp_pop ^^ n) p"
  have q: "fine b ?q" "bp_ring ?q = drop n (bp_ring p)" "bp_cur ?q = bp_cur p" "bp_tables ?q = bp_tables p" "bp_workers ?q = bp_workers p"
    using Suc by auto
  have "bp_ring ?q \<noteq> []" using q(2) Suc.prems(2) by simp
  moreover have "tl (drop n (bp_ring p)) = drop (Suc n) (bp_ring p)" by (simp add: drop_Suc tl_drop)
  moreover have "bp_ring (bp_pop ?q) = tl (bp_ring ?q)" "bp_cur (bp_pop ?q) = bp_cur ?q" "bp_tables (bp_pop ?q) = bp_tables ?q"
    "bp_workers (bp_pop ?q) = bp_workers ?q"
    by (simp_all add: bp_pop_def Let_def)
  ultimately show ?case using fine_pop [OF q(1)] q by simp
qed simp

lemma fine_drain:
  assumes "fine b p"
  shows "fine b (bp_drain p)" "bp_ring (bp_drain p) = []" "bp_cur (bp_drain p) = bp_cur p" "bp_tables (bp_drain p) = bp_tables p"
    "bp_workers (bp_drain p) = bp_workers p" "bp_drain (bp_drain p) = bp_drain p" "bp_engaged (bp_drain p) = bp_engaged p"
proof -
  note D = fine_pops [OF assms le_refl, folded bp_drain_def]
  show "fine b (bp_drain p)" "bp_ring (bp_drain p) = []" "bp_cur (bp_drain p) = bp_cur p" "bp_tables (bp_drain p) = bp_tables p"
    "bp_workers (bp_drain p) = bp_workers p"
    using D by simp_all
  then show "bp_drain (bp_drain p) = bp_drain p" "bp_engaged (bp_drain p) = bp_engaged p"
    using assms by (simp_all add: bp_drain_def fine_def)
qed

lemma fine_happen: "fine b p \<Longrightarrow> fine b (bp_happen h p)"
proof (cases h)
  case (Work k)
  assume F: "fine b p"
  have "bp_engaged (bp_work k p) = bp_engaged p" by (simp add: bp_work_def Let_def)
  then show ?thesis using F Work pipe_ok_work [of p k] by (simp add: fine_def)
qed (auto dest: fine_same simp: fine_def pipe_ok_def bp_slots_def)

lemma fine_point: "fine b p \<Longrightarrow> fine b (bp_point p)"
proof -
  assume F: "fine b p"
  have "fine b (fold bp_happen hs q)" if "fine b q" for hs q
    using that by (induction hs arbitrary: q) (simp_all add: fine_happen)
  moreover have "fine b (p\<lparr>bp_events := es\<rparr>)" for es
    using F by (simp add: fine_def pipe_ok_def bp_slots_def)
  ultimately show ?thesis using F by (simp add: bp_point_def split: list.split)
qed

lemma fine_picks: "fine b p \<Longrightarrow> fine b (p\<lparr>bp_picks := ps\<rparr>)"
  by (simp add: fine_def pipe_ok_def bp_slots_def)

lemma bp_point_fields: "length (bp_ring (bp_point p)) = length (bp_ring p)" "bp_workers (bp_point p) = bp_workers p" "bp_cur (bp_point p) = bp_cur p"
  "bp_inUse (bp_point p) = bp_inUse p" "bp_oversizePending (bp_point p) = bp_oversizePending p"
proof -
  define same where "same q q' \<longleftrightarrow> length (bp_ring q') = length (bp_ring q) \<and> bp_workers q' = bp_workers q \<and> bp_cur q' = bp_cur q
    \<and> bp_inUse q' = bp_inUse q \<and> bp_oversizePending q' = bp_oversizePending q" for q q' :: pipeline
  have "same q (bp_happen h q)" for h q by (cases h) (simp_all add: same_def, simp add: bp_work_def Let_def)
  then have "same q (fold bp_happen hs q)" for hs q by (induction hs arbitrary: q) (simp_all add: same_def)
  then have "same p (bp_point p)" by (simp add: bp_point_def same_def split: list.split)
  then show "length (bp_ring (bp_point p)) = length (bp_ring p)" "bp_workers (bp_point p) = bp_workers p" "bp_cur (bp_point p) = bp_cur p"
    "bp_inUse (bp_point p) = bp_inUse p" "bp_oversizePending (bp_point p) = bp_oversizePending p"
    by (simp_all add: same_def)
qed

text \<open>A job goes behind the others while there is room.\<close>

lemma bp_submit_noted:
  assumes "\<not> pj_oversize j" and "bp_takes_quit (bp_point p) = (c, q)"
  shows "bp_submit j (noted p a u l) = noted (q\<lparr>bp_ring := bp_ring q @ [if c
      then j\<lparr>pj_job := (pj_job j)\<lparr>bj_items := [], bj_partial := False, bj_err := Some ErrReaderClosed\<rparr>, pj_done := True\<rparr> else j]\<rparr>) a u l"
proof -
  have "bp_takes_quit (noted x a u l) = (fst (bp_takes_quit x), noted (snd (bp_takes_quit x)) a u l)" for x
    by (simp add: bp_takes_quit_def noted_def)
  then have "bp_takes_quit (bp_point (noted p a u l)) = (c, noted q a u l)" using assms(2) by (simp add: bp_point_noted)
  moreover have "bp_ring (noted q a u l) = bp_ring q" by (simp add: noted_def)
  ultimately show ?thesis using assms(1) unfolding bp_submit_def by (simp add: noted_def)
qed

lemma bp_submit_oversize:
  "pj_oversize j \<Longrightarrow> bp_submit j (noted p a u l)
     = noted (p\<lparr>bp_ring := bp_ring p @ [j\<lparr>pj_job := (pj_job j)\<lparr>bj_partial := True, bj_items := [], bj_err := None\<rparr>, pj_done := True\<rparr>]\<rparr>) a u l"
  by (simp add: bp_submit_def noted_def)

lemma fine_takes_quit:
  assumes "bp_takes_quit p = (c, q)" and "fine b p"
  shows "fine b q \<and> q = p\<lparr>bp_picks := bp_picks q\<rparr>"
proof -
  have q: "q = p\<lparr>bp_picks := bp_picks q\<rparr>" using assms(1) by (cases "bp_quit p") (auto simp: bp_takes_quit_def)
  show ?thesis using fine_picks [OF assms(2), of "bp_picks q"] q by simp
qed

lemma fine_append:
  assumes F: "fine b q" and room: "length (bp_ring q) < bp_slots q" and j: "pj_tablesIdx j = bp_cur q"
    and a: "a \<longrightarrow> pj_oversize j \<or> bp_oversizePending q"
  shows "fine b (noted (q\<lparr>bp_ring := bp_ring q @ [j]\<rparr>) a ((bp_inUse q)[bp_cur q := bp_inUse q ! bp_cur q + 1]) l)"
proof -
  have ok: "pipe_ok q" using F by (simp add: fine_def)
  have "pipe_ok (noted (q\<lparr>bp_ring := bp_ring q @ [j]\<rparr>) a ((bp_inUse q)[bp_cur q := bp_inUse q ! bp_cur q + 1]) l)"
    by (rule pipe_ok_append [OF ok room j pipe_ok_parts(5) [OF ok]]) (use a in \<open>simp_all add: noted_def\<close>)
  then show ?thesis using F by (simp add: fine_def noted_def)
qed

lemma fine_submit:
  assumes F: "fine b p" and room: "length (bp_ring p) < bp_slots p" and j: "pj_tablesIdx j = bp_cur p"
    and a: "a \<longrightarrow> pj_oversize j \<or> bp_oversizePending p" and u: "u = (bp_inUse p)[bp_cur p := bp_inUse p ! bp_cur p + 1]"
  shows "fine b (bp_submit j (noted p a u l)) \<and> length (bp_ring (bp_submit j (noted p a u l))) = length (bp_ring p) + 1
    \<and> bp_workers (bp_submit j (noted p a u l)) = bp_workers p"
proof (cases "pj_oversize j")
  case True
  have "fine b (bp_submit j (noted p a u l))"
    unfolding bp_submit_oversize [OF True] u by (rule fine_append [OF F room]) (use j a True in simp_all)
  then show ?thesis unfolding bp_submit_oversize [OF True] by (simp add: noted_def)
next
  case False
  obtain c q where tq: "bp_takes_quit (bp_point p) = (c, q)" by fastforce
  note Q = fine_takes_quit [OF tq fine_point [OF F]]
  have q: "length (bp_ring q) = length (bp_ring p)" "bp_workers q = bp_workers p" "bp_cur q = bp_cur p" "bp_inUse q = bp_inUse p"
      "bp_oversizePending q = bp_oversizePending p"
    by (subst Q [THEN conjunct2], simp add: bp_point_fields)+
  note s = bp_submit_noted [OF False tq, of a u l]
  have u': "u = (bp_inUse q)[bp_cur q := bp_inUse q ! bp_cur q + 1]" by (simp only: u q)
  have "fine b (bp_submit j (noted p a u l))"
    unfolding s unfolding u' by (rule fine_append [OF Q [THEN conjunct1]]) (use q j a room in \<open>simp_all add: bp_slots_def\<close>)
  then show ?thesis unfolding s by (simp add: noted_def q)
qed

text \<open>New tables go into a set that no job uses.\<close>

lemma fine_load:
  assumes F: "fine b p" and br: "block_fits br"
  shows "\<exists>e br2 p2. bp_load br p = Some (e, br2, p2) \<and> fine b p2 \<and> bp_ring p2 = bp_ring p \<and> bp_workers p2 = bp_workers p"
proof -
  have ok: "pipe_ok p" and good: "\<And>ts. ts \<in> set (bp_tables p) \<Longrightarrow> ts_ok ts" using F by (simp_all add: fine_def)
  note P = pipe_ok_parts [OF ok]
  obtain e cl sc br2 where rc: "readCodeLengthTable br (bp_codeLength p) (bp_bitlen p) = (e, cl, sc, br2)"
    by (cases "readCodeLengthTable br (bp_codeLength p) (bp_bitlen p)" rule: prod_cases4) auto
  have sc: "hf_clean 128 sc" using readCodeLengthTable_fresh(4) [OF refl P(9) P(9) rc rc block_fits_inv [OF br]] .
  have cl: "length cl = tableSize5" using readCodeLengthTable_reach(2) [OF rc br] P(10) by simp
  let ?p = "p\<lparr>bp_codeLength := cl, bp_bitlen := sc\<rparr>"
  have F1: "fine b ?p" using F sc cl by (simp add: fine_def pipe_ok_def bp_slots_def)
  then have ok1: "pipe_ok ?p" by (simp add: fine_def)
  show ?thesis
  proof (cases e)
    case (Some x)
    then show ?thesis using rc F1 by (simp add: bp_load_def)
  next
    case None
    obtain k where k: "(if 0 < bp_inUse ?p ! bp_cur ?p then freeTableSet ?p else Some (bp_cur ?p)) = Some k" "k \<le> bp_slots p"
    proof (cases "0 < bp_inUse ?p ! bp_cur ?p")
      case True
      then show thesis using freeTableSet_finds [OF ok1] that by (auto simp: bp_slots_def)
    qed (use that [of "bp_cur p"] P(5) in auto)
    obtain x ts where tl: "ts_load (bp_tables p ! k) cl = (x, ts)" by fastforce
    have at: "bp_tables p ! k \<in> set (bp_tables p)" using k(2) P(3) by simp
    have ts: "ts_clean ts" "ts_ok ts"
      using ts_load_clean(3) [OF cl P(8) [OF at] P(8) [OF at]] ts_load_ok(2) [OF cl tl good [OF at]] tl by simp_all
    let ?q = "?p\<lparr>bp_tables := (bp_tables p)[k := ts], bp_cur := (if x = None then k else bp_cur p)\<rparr>"
    have "pipe_ok ?q"
      using ok1 k(2) ts(1) P(8) unfolding pipe_ok_def bp_slots_def by (auto dest!: set_update_subset_insert [THEN subsetD])
    then have "fine b ?q" using F1 ts(2) good by (auto simp: fine_def dest!: set_update_subset_insert [THEN subsetD])
    moreover have "bp_load br p = Some (x, br2, ?q)"
      using None rc k(1) tl by (cases "0 < bp_inUse p ! bp_cur p") (auto simp: bp_load_def Let_def)
    ultimately show ?thesis by auto
  qed
qed

context full_source
begin

text \<open>What is read for a block, and that it is a block.\<close>

lemma block_read:
  assumes "src_ok s"
  obtains (refused) x s1 where "readBlockHead rf s = Some (Inl x, s1)" "src_ok s1"
  | (short) h s1 pl x s2 where "readBlockHead rf s = Some (Inr h, s1)" "rf s1 (bh_blockBytes h) = Some (pl, Some x, s2)" "src_ok s2"
  | (got) h s1 pl s2 where "readBlockHead rf s = Some (Inr h, s1)" "rf s1 (bh_blockBytes h) = Some (pl, None, s2)" "src_ok s2"
      "block_fits (newBitReader pl (bh_blockBits h))"
proof (cases rule: readBlockHead_returns [OF assms, case_names refused head])
  case (refused x s1)
  then show thesis using that(1) by blast
next
  case (head h s1)
  show thesis
  proof (cases rule: rf_cases [OF head(2), of "bh_blockBytes h", case_names short got])
    case (short pl x s2)
    then show thesis using that(2) head(1) by blast
  next
    case (got pl s2)
    have "block_fits (newBitReader pl (bh_blockBits h))" by (rule block_fits_new) (use head(3) got(3) in simp)
    then show thesis using that(3) head(1) got by blast
  qed
qed

lemma fine_readBlock:
  assumes F: "fine b p" and src: "src_ok (d_r d)" and room: "length (bp_ring p) < bp_slots p"
    and rb: "bp_readBlock rf d p = Some (d2, p2)"
  shows "fine b p2 \<and> src_ok (d_r d2) \<and> d2 = d\<lparr>d_r := d_r d2\<rparr> \<and> length (bp_ring p2) \<le> length (bp_ring p) + 1 \<and> bp_workers p2 = bp_workers p"
proof (cases rule: block_read [OF src, case_names refused short got])
  case (refused x s1)
  then show ?thesis using F rb by (auto simp: bp_readBlock_def fine_def pipe_ok_def bp_slots_def)
next
  case (short h s1 pl x s2)
  then show ?thesis using F rb by (auto simp: bp_readBlock_def fine_def pipe_ok_def bp_slots_def)
next
  case (got h s1 pl s2)
  define br where "br = newBitReader pl (bh_blockBits h)"
  obtain e br2 q where q: "(if bh_newTables h then bp_load br p else Some (None, br, p)) = Some (e, br2, q)"
      "fine b q" "bp_ring q = bp_ring p" "bp_workers q = bp_workers p"
    using fine_load [OF F got(4)] F by (cases "bh_newTables h") (auto simp: br_def)
  show ?thesis
  proof (cases e)
    case (Some x)
    have "p2 = q\<lparr>bp_pendingErr := Some x\<rparr>" "d2 = d\<lparr>d_r := s2\<rparr>"
      using rb got(1,2) q(1) Some by (auto simp: bp_readBlock_def br_def [symmetric])
    then show ?thesis using q got(3) by (simp add: fine_def pipe_ok_def bp_slots_def)
  next
    case None
    define j where "j = \<lparr>pj_job = \<lparr>bj_payload = pl, bj_bits = bh_blockBits h, bj_lastBlock = bh_lastBlock h,
        bj_tables = bp_tables q ! bp_cur q, bj_cap = itemCap, bj_items = [], bj_partial = False, bj_resume = Some br2, bj_err = None\<rparr>,
        pj_tablesIdx = bp_cur q, pj_oversize = bp_payloadLimit p < bh_blockBytes h, pj_waited = False, pj_done = False\<rparr>"
    have "p2 = bp_submit j (noted q (pj_oversize j \<or> bp_oversizePending q) ((bp_inUse q)[bp_cur q := bp_inUse q ! bp_cur q + 1]) (bh_lastBlock h))"
      "d2 = d\<lparr>d_r := s2\<rparr>"
      using rb got(1,2) q(1) None by (auto simp: bp_readBlock_def br_def [symmetric] noted_def j_def Let_def)
    moreover have "length (bp_ring q) < bp_slots q" "pj_tablesIdx j = bp_cur q" using room q(3,4) by (simp_all add: bp_slots_def j_def)
    note S = fine_submit [OF q(2) this, of "pj_oversize j \<or> bp_oversizePending q" _ "bh_lastBlock h", OF impI refl]
    ultimately show ?thesis using S q(3,4) got(3) by simp
  qed
qed

lemma fine_readAhead_loop:
  "fine b p \<Longrightarrow> src_ok (d_r d) \<Longrightarrow> length (bp_ring p) + k \<le> bp_slots p \<Longrightarrow> bp_readAhead_loop k rf d p = Some (d2, p2)
    \<Longrightarrow> fine b p2 \<and> src_ok (d_r d2) \<and> d2 = d\<lparr>d_r := d_r d2\<rparr>"
proof (induction k arbitrary: d p)
  case (Suc k)
  show ?case
  proof (cases "bp_sawLast p \<or> bp_pendingErr p \<noteq> None \<or> bp_oversizePending p")
    case True
    then show ?thesis using Suc.prems by auto
  next
    case False
    then obtain d1 p1 where 1: "bp_readBlock rf d p = Some (d1, p1)" "bp_readAhead_loop k rf d1 p1 = Some (d2, p2)"
      using Suc.prems(4) by (auto simp: bind_eq_Some_conv)
    have R: "fine b p1" "src_ok (d_r d1)" "d1 = d\<lparr>d_r := d_r d1\<rparr>" "length (bp_ring p1) \<le> length (bp_ring p) + 1" "bp_workers p1 = bp_workers p"
      using fine_readBlock [OF Suc.prems(1,2) _ 1(1)] Suc.prems(3) by simp_all
    have I: "fine b p2" "src_ok (d_r d2)" "d2 = d1\<lparr>d_r := d_r d2\<rparr>"
      using Suc.IH [OF R(1,2) _ 1(2)] R(4,5) Suc.prems(3) by (simp_all add: bp_slots_def)
    have "d2 = d\<lparr>d_r := d_r d2\<rparr>" by (subst I(3), subst R(3)) simp
    then show ?thesis using I by blast
  qed
qed auto

lemma fine_readAhead:
  assumes "fine b p" and "src_ok (d_r d)" and "bp_readAhead rf d p = Some (d2, p2)"
  shows "fine b p2 \<and> src_ok (d_r d2) \<and> d2 = d\<lparr>d_r := d_r d2\<rparr>"
proof -
  have "length (bp_ring p) \<le> bp_slots p" using assms(1) pipe_ok_parts(2) by (simp add: fine_def)
  then show ?thesis using fine_readAhead_loop [OF assms(1,2) _ assms(3) [unfolded bp_readAhead_def]] by simp
qed

lemma fine_wait:
  assumes F: "fine b p" and ne: "bp_ring p \<noteq> []" and w: "bp_wait p = (e, p2)"
  shows "fine b p2 \<and> bp_ring p2 \<noteq> []"
proof (cases "pj_waited (hd (bp_ring p))")
  case True
  then show ?thesis using assms by (simp add: bp_wait_def)
next
  case False
  define q where "q = (if bp_quit (bp_point p) then bp_point p else bp_work 0 (bp_point p))"
  have "fine b (bp_happen (Work 0) (bp_point p))" by (intro fine_happen fine_point F)
  then have q: "fine b q" using fine_point [OF F] by (simp add: q_def)
  have "length (bp_ring q) = length (bp_ring p)" by (simp add: q_def bp_point_fields)
  then have ne2: "bp_ring q \<noteq> []" using ne by (metis length_0_conv)
  obtain j js where ring: "bp_ring q = j # js" using ne2 by (cases "bp_ring q") auto
  show ?thesis
  proof (cases "pj_done j")
    case True
    obtain c r where r: "bp_takes_quit q = (c, r)" by fastforce
    note R = fine_takes_quit [OF r q]
    have rr: "bp_ring r = j # js" using ring by (subst R [THEN conjunct2]) simp
    have "fine b (r\<lparr>bp_ring := j\<lparr>pj_waited := True, pj_done := False\<rparr> # js\<rparr>)"
      using R rr by (auto simp: fine_def pipe_ok_def bp_slots_def)
    moreover have "p2 = r \<or> p2 = r\<lparr>bp_ring := j\<lparr>pj_waited := True, pj_done := False\<rparr> # js\<rparr>"
      using w False True ring r rr by (auto simp: bp_wait_def q_def [symmetric] Let_def split: if_splits)
    ultimately show ?thesis using R rr by auto
  next
    case no: False
    then have "p2 = q" using w False ring by (auto simp: bp_wait_def q_def [symmetric] Let_def)
    then show ?thesis using q ne2 by simp
  qed
qed

lemma dec_inline_keeps:
  "dec_inline_loop target d win = Some (ov, e, d1, w) \<Longrightarrow> d_r d1 = d_r d \<and> d_bitlen d1 = d_bitlen d \<and> d_codeLength d1 = d_codeLength d"
proof -
  assume r: "dec_inline_loop target d win = Some (ov, e, d1, w)"
  have "onto d d = d" by (simp add: onto_def)
  then have "Some (ov, e, d1, w) = Some (ov, e, onto d d1, w)" using dec_inline_loop_onto [OF r, of d] r by (simp only: prod.case)
  then have "d1 = onto d d1" by simp
  then show ?thesis by (metis onto_fields(1,3,6))
qed

text \<open>What a turn of the loop leaves of the pipeline and of the decoder in front of it.\<close>

definition turned :: "bool \<Rightarrow> ('s \<Rightarrow> bool) \<Rightarrow> 's par_result \<Rightarrow> bool" where
  "turned b good X \<longleftrightarrow> (\<forall>x d p w. X = Some (x, d, p, w) \<longrightarrow> fine b p \<and> whole good d)"

lemma fine_position: "fine b p \<Longrightarrow> fine b (p\<lparr>bp_idx := i\<rparr>)" "fine b p \<Longrightarrow> fine b (p\<lparr>bp_inline := c\<rparr>)"
  by (simp_all add: fine_def pipe_ok_def bp_slots_def)

lemma whole_readAhead:
  assumes "fine b p" and "whole src_ok d" and "bp_readAhead rf d p = Some (d2, p2)"
  shows "fine b p2 \<and> whole src_ok d2"
proof -
  have R: "fine b p2" "src_ok (d_r d2)" "d2 = d\<lparr>d_r := d_r d2\<rparr>" using fine_readAhead [OF assms(1) _ assms(3)] assms(2) by (simp_all add: whole_def)
  have "d_bitlen d2 = d_bitlen d" "d_codeLength d2 = d_codeLength d" by (subst R(3), simp)+
  then show ?thesis using R(1,2) assms(2) by (simp add: whole_def)
qed

lemma fine_next:
  assumes "fine b p" and "bp_ring p \<noteq> []" and "whole src_ok d"
  shows "turned b src_ok (par_next rf d p win)"
proof -
  note P = fine_pop [OF assms(1,2)]
  show ?thesis
  proof (cases "bj_lastBlock (pj_job (hd (bp_ring p)))")
    case True
    then show ?thesis using P assms(3) by (simp add: turned_def par_next_def Let_def)
  next
    case False
    then show ?thesis
      using whole_readAhead [OF P assms(3)]
      by (cases "bp_readAhead rf d (bp_pop p)") (auto simp: turned_def par_next_def Let_def)
  qed
qed

lemma fine_inline:
  assumes F: "fine b p" and ne: "bp_ring p \<noteq> []" and src: "whole src_ok d"
  shows "turned b src_ok (par_inline rf target d p win)"
proof -
  define j where "j = (pj_job (hd (bp_ring p)))\<lparr>bj_tables := bp_tables p ! pj_tablesIdx (hd (bp_ring p))\<rparr>"
  show ?thesis
  proof (cases "dec_finishBlockInline d win j target")
    case None
    then show ?thesis by (simp add: turned_def par_inline_def j_def Let_def)
  next
    case (Some y)
    obtain ov e d1 w where y: "y = (ov, e, d1, w)" by (cases y) auto
    have "d_r d1 = d_r d \<and> d_bitlen d1 = d_bitlen d \<and> d_codeLength d1 = d_codeLength d"
      using Some y by (auto simp: dec_finishBlockInline_def dest!: dec_inline_keeps split: if_splits)
    then have s1: "whole src_ok d1" using src by (simp add: whole_def)
    have "par_inline rf target d p win = (case e of Some x \<Rightarrow> Some (Some (Some x), d1, if ov then bp_pop p else p, w)
        | None \<Rightarrow> if ov then par_next rf d1 p w else Some (None, d1, p, w))"
      using Some y by (simp add: par_inline_def j_def Let_def)
    then show ?thesis using F fine_pop [OF F ne] fine_next [OF F ne s1, of w] s1
      by (cases e) (auto simp: turned_def)
  qed
qed

lemma fine_replay:
  assumes F: "fine b p" and ne: "bp_ring p \<noteq> []" and src: "whole src_ok d"
  shows "turned b src_ok (par_replay rf target d p win)"
proof -
  define j where "j = pj_job (hd (bp_ring p))"
  show ?thesis
  proof (cases "dec_replayItems (bj_items j) target (bp_idx p) d win")
    case None
    then show ?thesis by (simp add: turned_def par_replay_def j_def Let_def)
  next
    case (Some y)
    obtain ex e i d1 w where y: "y = (ex, e, i, d1, w)" by (cases y) auto
    have "into d d1 = d1" using dec_replayItems_keeps Some y by blast
    then have "d_r d1 = d_r d \<and> d_bitlen d1 = d_bitlen d \<and> d_codeLength d1 = d_codeLength d" by (metis into_fields(1,3,6))
    then have s1: "whole src_ok d1" using src by (simp add: whole_def)
    let ?p = "p\<lparr>bp_idx := i\<rparr>"
    have P: "fine b ?p" "fine b (?p\<lparr>bp_inline := True\<rparr>)" "bp_ring ?p \<noteq> []" "bp_ring (?p\<lparr>bp_inline := True\<rparr>) \<noteq> []"
      using F ne fine_position by simp_all
    have "fine b (bp_pop ?p)" by (rule fine_pop [OF P(1,3)])
    then show ?thesis
      using Some y P fine_next [OF P(1,3) s1, of w] fine_inline [OF P(2,4) s1, of target w] s1
      by (cases e; cases ex; cases "bj_err j"; cases "bj_partial j")
        (simp_all add: turned_def par_replay_def j_def [symmetric] Let_def)
  qed
qed

lemma fine_turn:
  assumes F: "fine b p" and src: "whole src_ok d"
  shows "turned b src_ok (par_turn rf target d p win)"
proof (cases "if bp_ring p = [] then bp_readAhead rf d p else Some (d, p)")
  case None
  then show ?thesis by (simp add: turned_def par_turn_def)
next
  case (Some y)
  obtain d1 p1 where y: "y = (d1, p1)" by fastforce
  have 1: "fine b p1" "whole src_ok d1" using Some y F src whole_readAhead [OF F src] by (auto split: if_splits)
  show ?thesis
  proof (cases "bp_ring p1 = []")
    case True
    then show ?thesis using Some y 1 by (simp add: turned_def par_turn_def)
  next
    case False
    obtain e p2 where w: "bp_wait p1 = (e, p2)" by fastforce
    have 2: "fine b p2" "bp_ring p2 \<noteq> []" using fine_wait [OF 1(1) False w] by simp_all
    show ?thesis
      using Some y False w 1(2) 2 fine_inline [OF 2 1(2), of target win] fine_replay [OF 2 1(2), of target win]
      by (cases e) (auto simp: par_turn_def turned_def)
  qed
qed

lemma fine_fill_loop:
  assumes "par_fill_loop rf target d p win = Some y"
  shows "fine b p \<longrightarrow> whole src_ok d \<longrightarrow> (case y of (e, d2, p2, w2) \<Rightarrow> fine b p2 \<and> whole src_ok d2)"
proof -
  define P where "P d p y \<longleftrightarrow> (fine b p \<longrightarrow> whole src_ok d \<longrightarrow> (case y of (e, d2, p2, w2) \<Rightarrow> fine b p2 \<and> whole src_ok d2))"
    for d :: "'s decoder50" and p and y :: "err option \<times> 's decoder50 \<times> pipeline \<times> window"
  have "rf = rf \<longrightarrow> P d p y"
  proof (rule par_fill_loop.raw_induct [where P = "\<lambda>rf0 target d p win y. rf0 = rf \<longrightarrow> P d p y", OF _ assms], rule impI)
    fix f rf0 target d p win y
    assume IH: "\<And>rf0 target d p win y. f rf0 target d p win = Some y \<Longrightarrow> rf0 = rf \<longrightarrow> P d p y"
      and body: "(if win_Available win < target
         then Option.bind (par_turn rf0 target d p win) (\<lambda>(x, d, p, win). case x of
                Some e \<Rightarrow> Some (e, d, p, win) | None \<Rightarrow> f rf0 target d p win)
         else Some (None, d, p, win)) = Some y" and rf0: "rf0 = rf"
    show "P d p y"
    proof (cases "win_Available win < target")
      case True
      then obtain x d1 p1 w1 where 1: "par_turn rf target d p win = Some (x, d1, p1, w1)"
          "(case x of Some e \<Rightarrow> Some (e, d1, p1, w1) | None \<Rightarrow> f rf target d1 p1 w1) = Some y"
        using body rf0 by (auto simp: bind_eq_Some_conv)
      have T: "fine b p \<longrightarrow> whole src_ok d \<longrightarrow> fine b p1 \<and> whole src_ok d1"
        using fine_turn [of b p d target win] 1(1) by (auto simp: turned_def)
      show ?thesis
      proof (cases x)
        case None
        then have "P d1 p1 y" using IH 1(2) by simp
        then show ?thesis using T by (auto simp: P_def)
      next
        case (Some e)
        then show ?thesis using T 1(2) by (auto simp: P_def)
      qed
    next
      case False
      then show ?thesis using body by (auto simp: P_def)
    qed
  qed
  then show ?thesis by (simp add: P_def)
qed

lemma fine_fill: "fillParallel rf d p win = Some (e, d2, p2, w2) \<Longrightarrow> fine b p \<Longrightarrow> whole src_ok d \<Longrightarrow> fine b p2 \<and> whole src_ok d2"
  using fine_fill_loop [of "win_fillTarget win" d p win "(e, d2, p2, w2)" b] by (simp add: fillParallel_def)

text \<open>The serial decoder keeps its tables in order too.\<close>

lemma fill_keeps_header:
  assumes W: "whole src_ok d" and T: "ts_clean (d_tables d)" "ts_ok (d_tables d)" and H: "dec_readBlockHeader rf d = Some (e, d1)"
  shows "whole src_ok d1 \<and> ts_clean (d_tables d1) \<and> ts_ok (d_tables d1)"
proof -
  have src: "src_ok (d_r d)" and bl: "hf_clean 128 (d_bitlen d)" and len: "length (d_codeLength d) = tableSize5"
    using W by (simp_all add: whole_def)
  show ?thesis
  proof (cases rule: block_read [OF src, case_names refused short got])
    case (got h s1 pl s2)
    define br where "br = newBitReader pl (bh_blockBits h)"
    obtain x cl sc br2 where rc: "readCodeLengthTable br (d_codeLength d) (d_bitlen d) = (x, cl, sc, br2)"
      by (cases "readCodeLengthTable br (d_codeLength d) (d_bitlen d)" rule: prod_cases4) auto
    have fits: "block_fits br" using got(4) by (simp add: br_def)
    have sc: "hf_clean 128 sc" using readCodeLengthTable_fresh(4) [OF refl bl bl rc rc block_fits_inv [OF fits]] .
    have cl: "length cl = tableSize5" using readCodeLengthTable_reach(2) [OF rc fits] len by simp
    obtain y ts where tl: "ts_load (d_tables d) cl = (y, ts)" by fastforce
    have ts: "ts_clean ts" "ts_ok ts"
      using ts_load_clean(3) [OF cl T(1) T(1)] ts_load_ok(2) [OF cl tl T(2)] tl by simp_all
    show ?thesis
      using H got(1-3) rc tl ts sc cl W T by (cases x) (auto simp: dec_readBlockHeader_def br_def [symmetric] whole_def Let_def split: if_splits)
  qed (use H W T in \<open>auto simp: dec_readBlockHeader_def whole_def\<close>)
qed

lemma fill_keeps_loop:
  assumes "dec_fill_loop rf target d win = Some y"
  shows "whole src_ok d \<and> ts_clean (d_tables d) \<and> ts_ok (d_tables d)
    \<longrightarrow> (case y of (e, d2, w2) \<Rightarrow> whole src_ok d2 \<and> ts_clean (d_tables d2) \<and> ts_ok (d_tables d2))"
proof -
  define Q where "Q d \<longleftrightarrow> whole src_ok d \<and> ts_clean (d_tables d) \<and> ts_ok (d_tables d)" for d :: "'s decoder50"
  have Q_br [simp]: "Q (d\<lparr>d_br := r\<rparr>) = Q d" for d r by (simp add: Q_def whole_def)
  have Q_sym: "Q d2" if "Q d" "dec_decodeSymbol d win sm = Some (e, d2, w2)" for d win sm e d2 w2
    using that dec_decodeSymbol_same [OF that(2)] by (simp add: Q_def whole_def block_same_def)
  have "rf = rf \<longrightarrow> Q d \<longrightarrow> (case y of (e, d2, w2) \<Rightarrow> Q d2)"
  proof (rule dec_fill_loop.raw_induct [where P = "\<lambda>rf0 target d win y. rf0 = rf \<longrightarrow> Q d \<longrightarrow> (case y of (e, d2, w2) \<Rightarrow> Q d2)", OF _ assms],
      intro impI)
    fix f rf0 target d win y
    assume IH: "\<And>rf0 target d win y. f rf0 target d win = Some y \<Longrightarrow> rf0 = rf \<longrightarrow> Q d \<longrightarrow> (case y of (e, d2, w2) \<Rightarrow> Q d2)"
      and body: "(if win_Available win < target
        then Option.bind (case d_br d of None \<Rightarrow> dec_readBlockHeader rf0 d | Some r \<Rightarrow> Some (None, d)) (\<lambda>(e, d1). case e of
              Some e \<Rightarrow> Some (Some e, d1, win)
            | None \<Rightarrow>
                (case hf_ReadSym (ts_main (d_tables d1)) (the (d_br d1)) of
                   (Inl e, r1) \<Rightarrow>
                     if e = EOF
                     then if d_lastBlock d1 then Some (Some EOF, d1\<lparr>d_br := Some r1\<rparr>, win)
                          else f rf0 target (d1\<lparr>d_br := None\<rparr>) win
                     else Some (Some e, d1\<lparr>d_br := Some r1\<rparr>, win)
                 | (Inr sm, r1) \<Rightarrow>
                     Option.bind (dec_decodeSymbol (d1\<lparr>d_br := Some r1\<rparr>) win sm) (\<lambda>(e, d2, win2).
                       case e of
                         Some x \<Rightarrow> Some (Some (mapInnerErr x), d2, win2)
                       | None \<Rightarrow> f rf0 target d2 win2)))
        else Some (None, d, win)) = Some y" and rf0: "rf0 = rf" and Q: "Q d"
    show "case y of (e, d2, w2) \<Rightarrow> Q d2"
    proof (cases "win_Available win < target")
      case True
      obtain e d1 where 1: "(case d_br d of None \<Rightarrow> dec_readBlockHeader rf d | Some r \<Rightarrow> Some (None, d)) = Some (e, d1)"
        using body unfolding if_P [OF True] rf0
        by (cases "case d_br d of None \<Rightarrow> dec_readBlockHeader rf d | Some r \<Rightarrow> Some (None, d)") auto
      note b1 = body [unfolded if_P [OF True] rf0 1 bind.simps prod.case]
      have Q1: "Q d1"
      proof (cases "d_br d")
        case None
        then show ?thesis using 1 Q fill_keeps_header [of d e d1] by (simp add: Q_def)
      qed (use 1 Q in simp)
      show ?thesis
      proof (cases e)
        case (Some x)
        then show ?thesis using b1 Q1 by auto
      next
        case None
        obtain sy r1 where sy: "hf_ReadSym (ts_main (d_tables d1)) (the (d_br d1)) = (sy, r1)" by fastforce
        note b2 = b1 [unfolded None option.case sy prod.case]
        show ?thesis
        proof (cases sy)
          case (Inl x)
          note b3 = b2 [unfolded Inl sum.case]
          consider "y = (Some EOF, d1\<lparr>d_br := Some r1\<rparr>, win)" | "f rf target (d1\<lparr>d_br := None\<rparr>) win = Some y" | "y = (Some x, d1\<lparr>d_br := Some r1\<rparr>, win)"
            using b3 by (cases "x = EOF"; cases "d_lastBlock d1") simp_all
          then show ?thesis using Q1 IH [of rf target "d1\<lparr>d_br := None\<rparr>" win y] by cases simp_all
        next
          case (Inr sm)
          note b3 = b2 [unfolded Inr sum.case]
          obtain e2 d2 w2 where 2: "dec_decodeSymbol (d1\<lparr>d_br := Some r1\<rparr>) win sm = Some (e2, d2, w2)"
              "(case e2 of Some x \<Rightarrow> Some (Some (mapInnerErr x), d2, w2) | None \<Rightarrow> f rf target d2 w2) = Some y"
            using b3 by (cases "dec_decodeSymbol (d1\<lparr>d_br := Some r1\<rparr>) win sm") auto
          have "Q d2" using Q_sym [OF _ 2(1)] Q1 by simp
          then show ?thesis using 2(2) IH [of rf target d2 w2 y] by (cases e2) auto
        qed
      qed
    next
      case False
      then show ?thesis using body Q by auto
    qed
  qed
  then show ?thesis by (simp add: Q_def)
qed

end

subsection \<open>The life of a decoder\<close>

text \<open>\<^verbatim>\<open>fill\<close> goes through the pipeline of the decoder when one is engaged.\<close>

definition dec_fillWith :: "'s full_reading \<Rightarrow> 's decoder50 \<Rightarrow> pipeline option \<Rightarrow> window
    \<Rightarrow> (err option \<times> 's decoder50 \<times> pipeline option \<times> window) option" where
  "dec_fillWith rf d pipe win =
     (case pipe of
        Some p \<Rightarrow>
          if bp_engaged p then map_option (\<lambda>(e, d, p, win). (e, d, Some p, win)) (fillParallel rf d p win)
          else map_option (\<lambda>(e, d, win). (e, d, pipe, win)) (dec_fill rf d win)
      | None \<Rightarrow> map_option (\<lambda>(e, d, win). (e, d, pipe, win)) (dec_fill rf d win))"

text \<open>
  Everything that can happen to a decoder: a member begun with any number of workers, at any
  moment, so that the one before may have been read to its end, left in the middle or failed;
  the window filled, whatever comes of it; output filtered and handed out; the workers stopped
  and started again. A member that is begun resets the decoder: \<^verbatim>\<open>buildChain\<close> is reached with
  the first block of a member only.
\<close>

inductive decodes :: "'s full_reading \<Rightarrow> ('s \<Rightarrow> bool) \<Rightarrow> 's decoder50 \<Rightarrow> pipeline option \<Rightarrow> bool" for rf good where
  new: "good s \<Longrightarrow> decodes rf good (newDecoder50 s) None"
| member: "decodes rf good d pipe \<Longrightarrow> good s
    \<Longrightarrow> setPipeline workers stopped events picks (dec_begin d s False sz) pipe = Some (d2, pipe2) \<Longrightarrow> decodes rf good d2 pipe2"
| fill: "decodes rf good d pipe \<Longrightarrow> dec_fillWith rf d pipe win = Some (e, d2, pipe2, win2) \<Longrightarrow> decodes rf good d2 pipe2"
| emit: "decodes rf good d pipe \<Longrightarrow> decodes rf good (d\<lparr>d_fl := fl, d_outbuf := ob, d_tot := t\<rparr>) pipe"
| stop: "decodes rf good d (Some p) \<Longrightarrow> decodes rf good d (Some (bp_stop p))"
| restart: "decodes rf good d (Some p) \<Longrightarrow> decodes rf good d (Some (bp_restart p))"

text \<open>The tables that a block without its own would be decoded with.\<close>

definition in_force :: "'s decoder50 \<Rightarrow> pipeline option \<Rightarrow> tableSet" where
  "in_force d pipe = (case pipe of None \<Rightarrow> d_tables d | Some p \<Rightarrow> if bp_engaged p then bp_tables p ! bp_cur p else d_tables d)"

definition settled :: "('s \<Rightarrow> bool) \<Rightarrow> 's decoder50 \<Rightarrow> pipeline option \<Rightarrow> bool" where
  "settled good d pipe \<longleftrightarrow> whole good d \<and> ts_clean (in_force d pipe) \<and> ts_ok (in_force d pipe)
     \<and> (\<forall>p. pipe = Some p \<longrightarrow> fine (bp_engaged p) p)"

lemma dec_begin_fields:
  "d_r (dec_begin d s False sz) = s" "d_br (dec_begin d s False sz) = None" "\<not> d_lastBlock (dec_begin d s False sz)"
  "d_tables (dec_begin d s False sz) = d_tables d" "d_bitlen (dec_begin d s False sz) = d_bitlen d"
  "d_codeLength (dec_begin d s False sz) = replicate tableSize5 0"
  by (simp_all add: dec_begin_def dec_init_def Let_def)

lemma in_force_begin: "in_force (dec_begin d s False sz) pipe = in_force d pipe"
  by (simp add: in_force_def dec_begin_fields split: option.split)

lemma in_force_emit: "in_force (d\<lparr>d_fl := fl, d_outbuf := ob, d_tot := t\<rparr>) pipe = in_force d pipe"
  by (simp add: in_force_def split: option.split)

lemma fine_cur: "fine b p \<Longrightarrow> ts_clean (bp_tables p ! bp_cur p) \<and> ts_ok (bp_tables p ! bp_cur p)"
  by (simp add: fine_def pipe_ok_def)

lemma fine_new: "0 < workers \<Longrightarrow> fine False ((newBlockPipeline workers events picks)\<lparr>bp_quit := b\<rparr>)"
  using pipe_ok_new [of workers] ts_prewarm_ok by (auto simp: fine_def newBlockPipeline_def simp del: replicate_Suc)

lemma engage_fine:
  assumes F: "fine b p" and T: "b \<or> ts_clean (d_tables d) \<and> ts_ok (d_tables d)" and g: "bp_engage d p = Some p2"
  shows "fine True p2"
proof -
  define q where "q = (bp_drain p)\<lparr>bp_idx := 0, bp_inline := False, bp_pendingErr := None, bp_sawLast := False\<rparr>"
  note D = fine_drain [OF F]
  have q: "fine b q" "bp_slots q = bp_slots p" using D(1,5) by (simp_all add: q_def fine_def pipe_ok_def bp_slots_def)
  have eng: "bp_engaged q = bp_engaged p" using D(7) by (simp add: q_def)
  show ?thesis
  proof (cases "bp_engaged p")
    case True
    then have "p2 = q\<lparr>bp_engaged := True\<rparr>" using g eng unfolding bp_engage_def Let_def q_def [symmetric] by simp
    then show ?thesis using q(1) by (simp add: fine_def pipe_ok_def bp_slots_def)
  next
    case False
    then have b: "\<not> b" using F by (simp add: fine_def)
    have "pipe_ok q" using q(1) by (simp add: fine_def)
    then obtain k where k: "freeTableSet q = Some k" "k \<le> bp_slots q" by (rule freeTableSet_finds) blast
    have "bp_engage d p = map_option (\<lambda>p. p\<lparr>bp_engaged := True\<rparr>) (map_option (\<lambda>k. q\<lparr>bp_cur := k,
        bp_tables := (bp_tables q)[k := ts_copyFrom (bp_tables q ! k) (d_tables d)]\<rparr>) (freeTableSet q))"
      unfolding bp_engage_def Let_def q_def [symmetric] using False eng by simp
    then have p2: "p2 = q\<lparr>bp_cur := k, bp_tables := (bp_tables q)[k := d_tables d], bp_engaged := True\<rparr>"
      using g k(1) by simp
    have "\<forall>ts \<in> set ((bp_tables q)[k := d_tables d]). ts_clean ts"
      using q(1) T b by (auto simp: fine_def pipe_ok_def dest!: set_update_subset_insert [THEN subsetD])
    then have "pipe_ok p2" using q(1) k(2) by (simp add: fine_def p2 pipe_ok_def bp_slots_def)
    moreover have "\<forall>ts \<in> set (bp_tables p2). ts_ok ts"
      using q(1) T b by (auto simp: fine_def p2 dest!: set_update_subset_insert [THEN subsetD])
    ultimately show ?thesis by (simp add: fine_def p2)
  qed
qed

lemma disengage_serial:
  assumes "fine b p"
  shows "bp_disengage d p = (d\<lparr>d_tables := bp_tables p ! bp_cur p\<rparr>, (bp_drain p)\<lparr>bp_engaged := False\<rparr>)"
  using fine_drain [OF assms] by (simp add: bp_disengage_def Let_def)

text \<open>Without workers, the decoder has the tables that were in force.\<close>

lemma setPipeline_serial:
  assumes "\<forall>p. pipe = Some p \<longrightarrow> fine (bp_engaged p) p" and "workers \<le> 1"
    and "setPipeline workers stopped events picks d pipe = Some (d2, pipe2)"
  shows "d2 = d\<lparr>d_tables := in_force d pipe\<rparr>" and "in_force d2 pipe2 = in_force d pipe" and "\<forall>p. pipe2 = Some p \<longrightarrow> fine False p"
proof -
  have "d2 = d\<lparr>d_tables := in_force d pipe\<rparr> \<and> in_force d2 pipe2 = in_force d pipe \<and> (\<forall>p. pipe2 = Some p \<longrightarrow> fine False p)"
  proof (cases pipe)
    case None
    then show ?thesis using assms(2,3) by (auto simp: setPipeline_def in_force_def)
  next
    case (Some p)
    then have F: "fine (bp_engaged p) p" using assms(1) by simp
    have "fine False ((bp_drain p)\<lparr>bp_engaged := False\<rparr>)"
      using fine_drain(1) [OF F] by (simp add: fine_def pipe_ok_def bp_slots_def)
    then show ?thesis
      using Some assms(2,3) F disengage_serial [OF F, of d] by (cases "bp_engaged p") (auto simp: setPipeline_def in_force_def)
  qed
  then show "d2 = d\<lparr>d_tables := in_force d pipe\<rparr>" "in_force d2 pipe2 = in_force d pipe" "\<forall>p. pipe2 = Some p \<longrightarrow> fine False p"
    by blast+
qed

lemma setPipeline_settled:
  assumes S: "settled good d pipe" and P: "setPipeline workers stopped events picks d pipe = Some (d2, pipe2)"
  shows "settled good d2 pipe2"
proof (cases "workers \<le> 1")
  case True
  have F: "\<forall>p. pipe = Some p \<longrightarrow> fine (bp_engaged p) p" using S by (simp add: settled_def)
  note R = setPipeline_serial [OF F True P]
  have "\<forall>p. pipe2 = Some p \<longrightarrow> fine (bp_engaged p) p" using R(3) by (auto simp: fine_def)
  then show ?thesis using S R(1,2) by (simp add: settled_def whole_def)
next
  case False
  let ?w = "min workers maxWorkers"
  define new where "new = (newBlockPipeline ?w events picks)\<lparr>bp_quit := stopped\<rparr>"
  have new: "fine False new" unfolding new_def by (rule fine_new) (use False in \<open>simp add: maxWorkers_def\<close>)
  obtain b q p2 where q: "fine b q" "b \<or> ts_clean (d_tables d2) \<and> ts_ok (d_tables d2)" "whole good d2" "bp_engage d2 q = Some p2"
    "pipe2 = Some p2"
  proof (cases pipe)
    case None
    then obtain p2 where p2: "bp_engage d new = Some p2" "d2 = d" "pipe2 = Some p2"
      using P False by (auto simp: setPipeline_def new_def Let_def)
    show thesis by (rule that [OF new _ _ p2(1) [folded p2(2)] p2(3)]) (use S None p2(2) in \<open>simp_all add: settled_def in_force_def\<close>)
  next
    case (Some p)
    then have F: "fine (bp_engaged p) p" using S by (simp add: settled_def)
    show thesis
    proof (cases "bp_workers p = ?w")
      case True
      then obtain p2 where p2: "bp_engage d p = Some p2" "d2 = d" "pipe2 = Some p2"
        using P False Some by (auto simp: setPipeline_def Let_def)
      show thesis by (rule that [OF F _ _ p2(1) [folded p2(2)] p2(3)]) (use S Some p2(2) in \<open>auto simp: settled_def in_force_def\<close>)
    next
      case other: False
      let ?e = "if bp_engaged p then d\<lparr>d_tables := bp_tables p ! bp_cur p\<rparr> else d"
      obtain p2 where p2: "bp_engage ?e new = Some p2" "d2 = ?e" "pipe2 = Some p2"
        using P False Some other disengage_serial [OF F, of d]
        by (cases "bp_engaged p") (auto simp: setPipeline_def new_def Let_def)
      show thesis
        by (rule that [OF new _ _ p2(1) [folded p2(2)] p2(3)])
          (use S Some in \<open>auto simp: p2(2) settled_def in_force_def whole_def split: if_splits\<close>)
    qed
  qed
  have "fine True p2" by (rule engage_fine [OF q(1,2,4)])
  then show ?thesis using q(3,5) fine_cur by (auto simp: settled_def in_force_def fine_def)
qed

context full_source
begin

lemma decodes_settled: "decodes rf src_ok d pipe \<Longrightarrow> settled src_ok d pipe"
proof (induction rule: decodes.induct)
  case (new s)
  then show ?case
    using started_new [of s] newDecoder50_ok [of s]
    by (simp add: settled_def whole_def in_force_def started_def dec_ok_def) (simp add: newDecoder50_def)
next
  case (member d pipe s workers stopped events picks sz d2 pipe2)
  have "settled src_ok (dec_begin d s False sz) pipe"
    using member.IH member.hyps(2) dec_begin_fields [of d s sz] by (simp add: settled_def whole_def in_force_begin)
  then show ?case using setPipeline_settled member.hyps(3) by blast
next
  case (fill d pipe win e d2 pipe2 win2)
  show ?case
  proof (cases "\<exists>p. pipe = Some p \<and> bp_engaged p")
    case True
    then obtain p p2 where p: "pipe = Some p" "bp_engaged p" "pipe2 = Some p2" "fillParallel rf d p win = Some (e, d2, p2, win2)"
      using fill.hyps(2) by (auto simp: dec_fillWith_def)
    have "fine True p" "whole src_ok d" using fill.IH p(1,2) by (simp_all add: settled_def)
    then have R: "fine True p2" "whole src_ok d2" using fine_fill [OF p(4)] by simp_all
    then have "fine (bp_engaged p2) p2" "bp_engaged p2" by (simp_all add: fine_def)
    then show ?thesis using p(3) R fine_cur [OF R(1)] by (simp add: settled_def in_force_def)
  next
    case False
    then have s: "dec_fill rf d win = Some (e, d2, win2)" "pipe2 = pipe" and f: "in_force x pipe = d_tables x" for x :: "'a decoder50"
      using fill.hyps(2) by (auto simp: dec_fillWith_def in_force_def split: option.splits if_splits)
    show ?thesis
      using fill_keeps_loop [OF s(1) [unfolded dec_fill_def]] fill.IH by (simp add: settled_def s(2) f)
  qed
next
  case emit
  then show ?case by (simp add: settled_def whole_def in_force_emit)
next
  case (stop d p)
  then have "fine (bp_engaged (bp_stop p)) (bp_stop p)" by (simp add: settled_def bp_stop_def fine_def pipe_ok_def bp_slots_def)
  moreover have "in_force d (Some (bp_stop p)) = in_force d (Some p)" by (simp add: in_force_def bp_stop_def)
  ultimately show ?case using stop by (simp add: settled_def)
next
  case (restart d p)
  then have F: "fine (bp_engaged p) p" by (simp add: settled_def)
  show ?case
  proof (cases "bp_quit p")
    case True
    have "fine (bp_engaged p) ((bp_drain p)\<lparr>bp_quit := False\<rparr>)"
      using fine_drain(1) [OF F] by (simp add: fine_def pipe_ok_def bp_slots_def)
    then have "fine (bp_engaged (bp_restart p)) (bp_restart p)" using True fine_drain(7) [OF F] by (simp add: bp_restart_def)
    moreover have "in_force d (Some (bp_restart p)) = in_force d (Some p)"
      using fine_drain [OF F] by (simp add: in_force_def bp_restart_def)
    ultimately show ?thesis using restart by (simp add: settled_def)
  qed (use restart in \<open>simp add: bp_restart_def\<close>)
qed

end

subsection \<open>The start of a member, with and without workers\<close>

text \<open>What \<^verbatim>\<open>setPipeline\<close> leaves is related to a serial decoder that has the tables in force.\<close>

lemma setPipeline_sim:
  assumes d: "started e" "e = into e d" "d_br d = None" "d_r d = d_r e"
    and P: "\<forall>p. pipe = Some p \<longrightarrow> fine (bp_engaged p) p" and tabs: "in_force d pipe = d_tables e" and w: "1 < workers"
  shows "\<exists>d2 p2. setPipeline workers stopped events picks d pipe = Some (d2, Some p2) \<and> sim rf e d2 p2"
proof -
  define new where "new = (newBlockPipeline (min workers maxWorkers) events picks)\<lparr>bp_quit := stopped\<rparr>"
  have new: "pipe_ok new" "bp_ring new = []" "\<not> bp_engaged new"
    unfolding new_def by (rule pipe_ok_new) (use w in \<open>simp_all add: newBlockPipeline_def maxWorkers_def\<close>)
  have fresh: "\<exists>p2. bp_engage x new = Some p2 \<and> sim rf e x p2" if "x = d\<lparr>d_tables := d_tables e\<rparr>" for x
  proof -
    have "e = into e x" by (subst d(2)) (simp add: that into_def)
    from bp_engage_sim [OF d(1) this _ _ new(1,2), of rf] show ?thesis using d(3,4) new(3) that by simp
  qed
  show ?thesis
  proof (cases pipe)
    case None
    then have "d = d\<lparr>d_tables := d_tables e\<rparr>" using tabs by (simp add: in_force_def)
    then show ?thesis using fresh [of d] None w by (auto simp: setPipeline_def new_def Let_def)
  next
    case (Some p)
    define q where "q = bp_drain p"
    have D: "pipe_ok q" "bp_ring q = []" "bp_tables q = bp_tables p" "bp_cur q = bp_cur p" "bp_drain q = q" "bp_engaged q = bp_engaged p"
      using fine_drain [of "bp_engaged p" p] P Some by (simp_all add: q_def fine_def)
    show ?thesis
    proof (cases "bp_workers p = min workers maxWorkers")
      case True
      have "bp_engage d p = bp_engage d q" using D(5) by (simp add: bp_engage_def q_def)
      moreover obtain p2 where "bp_engage d q = Some p2" "sim rf e d p2"
        using bp_engage_sim [OF d D(1,2), of rf] tabs D Some by (auto simp: in_force_def split: if_splits)
      ultimately show ?thesis using Some True w by (simp add: setPipeline_def Let_def)
    next
      case False
      let ?x = "if bp_engaged p then fst (bp_disengage d p) else d"
      have "?x = d\<lparr>d_tables := d_tables e\<rparr>" using tabs Some D by (auto simp: bp_disengage_def q_def in_force_def Let_def)
      then show ?thesis using fresh [of ?x] Some False w by (auto simp: setPipeline_def new_def Let_def)
    qed
  qed
qed

lemma begin_into: "x = into x (dec_begin d' s False sz)" if "x = (dec_begin d s False sz)\<lparr>d_tables := ts\<rparr>"
  unfolding that by (cases d; cases d') (simp add: into_def dec_begin_def dec_init_def Let_def)

lemma begin_started:
  assumes "ts_ok ts" and "ts_clean ts" and "hf_clean 128 (d_bitlen d)"
  shows "started ((dec_begin d s False sz)\<lparr>d_tables := ts\<rparr>)"
  using assms by (simp add: started_def dec_ok_def dec_begin_def dec_init_def Let_def fl_ok_def)

text \<open>The first block of what \<open>s\<close> gives brings its tables, if there is one.\<close>

definition brings_tables :: "'s full_reading \<Rightarrow> 's \<Rightarrow> bool" where
  "brings_tables rf s = (case readBlockHead rf s of Some (Inr h, s1) \<Rightarrow> bh_newTables h | _ \<Rightarrow> True)"

text \<open>Before such a block the tables do not matter.\<close>

definition alike :: "'s full_reading \<Rightarrow> 's decoder50 \<Rightarrow> 's decoder50 \<Rightarrow> bool" where
  "alike rf d e \<longleftrightarrow> d = e \<or>
     (e = d\<lparr>d_tables := d_tables e\<rparr> \<and> ts_clean (d_tables d) \<and> ts_clean (d_tables e) \<and> length (d_codeLength d) = tableSize5
      \<and> d_br d = None \<and> \<not> d_lastBlock d \<and> brings_tables rf (d_r d))"

lemma alike_tables: "alike rf d e \<Longrightarrow> d_r e = d_r d"
  unfolding alike_def by (metis decoder50.select_convs(1) decoder50.surjective decoder50.update_convs(6))

lemma alike_emit:
  "alike rf d e \<Longrightarrow> alike rf (d\<lparr>d_fl := fl, d_outbuf := ob, d_tot := t\<rparr>) (e\<lparr>d_fl := fl, d_outbuf := ob, d_tot := t\<rparr>)"
  unfolding alike_def by (cases d; cases e) auto

context full_source
begin

lemma alike_header:
  assumes e: "e = d\<lparr>d_tables := d_tables e\<rparr>" and T: "ts_clean (d_tables d)" "ts_clean (d_tables e)" and len: "length (d_codeLength d) = tableSize5"
    and b: "brings_tables rf (d_r d)" and src: "src_ok (d_r d)" and H: "dec_readBlockHeader rf e = Some (x, e1)"
  shows "\<exists>d1. dec_readBlockHeader rf d = Some (x, d1) \<and> into d1 e1 = d1 \<and> d_r d1 = d_r e1 \<and> (x = None \<longrightarrow> d1 = e1)"
proof -
  define E where "E = d_tables e"
  have e: "e = d\<lparr>d_tables := E\<rparr>" "ts_clean E" using e T by (simp_all add: E_def)
  have e_r: "d_r e = d_r d" "d_codeLength e = d_codeLength d" "d_bitlen e = d_bitlen d" "d_tables e = E" by (simp_all add: e)
  show ?thesis
  proof (cases rule: block_read [OF src, case_names refused short got])
    case (got h s1 pl s2)
    have new: "bh_newTables h" using b got(1) by (simp add: brings_tables_def)
    define br where "br = newBitReader pl (bh_blockBits h)"
    obtain y cl sc br2 where rc: "readCodeLengthTable br (d_codeLength d) (d_bitlen d) = (y, cl, sc, br2)"
      by (cases "readCodeLengthTable br (d_codeLength d) (d_bitlen d)" rule: prod_cases4) auto
    have cl: "length cl = tableSize5" using readCodeLengthTable_reach(2) [OF rc] got(4) len by (simp add: br_def)
    note L = ts_load_clean(1,2) [OF cl T(1) e(2)]
    obtain z ts where tl: "ts_load (d_tables d) cl = (z, ts)" by fastforce
    obtain us where ul: "ts_load E cl = (z, us)" using L(1) tl by (cases "ts_load E cl") simp
    have same: "z = None \<Longrightarrow> us = ts" using L(2) tl ul by simp
    define D1 where "D1 = d\<lparr>d_r := s2, d_br := Some br2, d_lastBlock := bh_lastBlock h, d_codeLength := cl, d_bitlen := sc\<rparr>"
    have "dec_readBlockHeader rf d = Some (case y of Some v \<Rightarrow> (Some v, D1) | None \<Rightarrow> (z, D1\<lparr>d_tables := ts\<rparr>))"
      using got(1,2) new rc tl by (cases y) (simp_all add: dec_readBlockHeader_def br_def [symmetric] Let_def D1_def)
    moreover have "dec_readBlockHeader rf e = Some (case y of Some v \<Rightarrow> (Some v, D1\<lparr>d_tables := E\<rparr>) | None \<Rightarrow> (z, D1\<lparr>d_tables := us\<rparr>))"
      using got(1,2) new rc ul unfolding e(1)
      by (cases y) (simp_all add: dec_readBlockHeader_def br_def [symmetric] Let_def D1_def)
    moreover have "into (D1\<lparr>d_tables := t\<rparr>) (D1\<lparr>d_tables := t'\<rparr>) = D1\<lparr>d_tables := t\<rparr>" "into D1 (D1\<lparr>d_tables := t'\<rparr>) = D1" for t t'
      by (cases D1, simp add: into_def)+
    ultimately show ?thesis using H same by (cases y; cases z) auto
  next
    case (refused v s1)
    then have "dec_readBlockHeader rf d = Some (Some v, d\<lparr>d_r := s1\<rparr>)" "x = Some v" "e1 = d\<lparr>d_r := s1, d_tables := E\<rparr>"
      using H unfolding e(1) by (auto simp: dec_readBlockHeader_def)
    then show ?thesis by (simp add: into_def)
  next
    case (short h s1 pl v s2)
    then have "dec_readBlockHeader rf d = Some (Some v, d\<lparr>d_r := s2\<rparr>)" "x = Some v" "e1 = d\<lparr>d_r := s2, d_tables := E\<rparr>"
      using H unfolding e(1) by (auto simp: dec_readBlockHeader_def)
    then show ?thesis by (simp add: into_def)
  qed
qed

lemma alike_fill:
  assumes A: "alike rf d e" and src: "src_ok (d_r d)" and F: "dec_fill_loop rf target e win = Some (x, e2, w2)"
  shows "\<exists>d2. dec_fill_loop rf target d win = Some (x, d2, w2) \<and> into d2 e2 = d2 \<and> d_r d2 = d_r e2
    \<and> (alike rf d2 e2 \<or> (win_Available win < target \<and> d_br e = None \<and> \<not> d_lastBlock e \<and> (\<exists>y e1. dec_readBlockHeader rf e = Some (Some y, e1))))"
proof (cases "d = e")
  case True
  then show ?thesis using F by (auto simp: alike_def)
next
  case False
  then have a: "e = d\<lparr>d_tables := d_tables e\<rparr>" "ts_clean (d_tables d)" "ts_clean (d_tables e)" "length (d_codeLength d) = tableSize5"
      "d_br d = None" "\<not> d_lastBlock d" "brings_tables rf (d_r d)"
    using A False unfolding alike_def by blast+
  have br: "d_br e = None" "\<not> d_lastBlock e" by (subst a(1), simp add: a(5,6))+
  show ?thesis
  proof (cases "win_Available win < target")
    case no: False
    then have t: "target \<le> win_Available win" by simp
    have "into d e = d" by (subst a(1)) (simp add: into_def)
    moreover have "d_r d = d_r e" by (subst a(1)) simp
    moreover have "x = None" "e2 = e" "w2 = win" using F fill_here [OF t, of rf e] by simp_all
    ultimately show ?thesis using fill_here [OF t, of rf d] A by blast
  next
    case av: True
    obtain y e1 where H: "dec_readBlockHeader rf e = Some (y, e1)"
    proof (cases "dec_readBlockHeader rf e")
      case None
      then have "dec_fill_loop rf target e win = None" using av br(1) by (subst dec_fill_loop.simps) simp
      then show thesis using F by simp
    qed (use that in auto)
    obtain d1 where D: "dec_readBlockHeader rf d = Some (y, d1)" "into d1 e1 = d1" "d_r d1 = d_r e1" "y = None \<longrightarrow> d1 = e1"
      using alike_header [OF a(1-4,7) src H] by blast
    show ?thesis
    proof (cases y)
      case None
      have "dec_fill_loop rf target d win = dec_fill_loop rf target e win"
        by (subst (1 2) dec_fill_loop.simps) (simp add: av a(5) br(1) H D(1) None D(4) [rule_format, OF None])
      then have "dec_fill_loop rf target d win = Some (x, e2, w2)" using F by simp
      moreover have "into e2 e2 = e2" "alike rf e2 e2" by (simp_all add: alike_def)
      ultimately show ?thesis by blast
    next
      case (Some z)
      have "dec_fill_loop rf target d win = Some (Some z, d1, win)" by (rule fill_header(1) [OF av a(5) D(1) Some])
      moreover have "dec_fill_loop rf target e win = Some (Some z, e1, win)" by (rule fill_header(1) [OF av br(1) H Some])
      then have "x = Some z" "e2 = e1" "w2 = win" using F by simp_all
      ultimately show ?thesis using D(2,3) av br H Some by blast
    qed
  qed
qed

text \<open>A block that cannot be read ends the member on the parallel side too.\<close>

lemma failed_header_over:
  assumes S: "sim rf e d' p" and src: "src_ok (d_r e)" and e: "d_br e = None" "\<not> d_lastBlock e" and av: "win_Available win < target"
    and H: "dec_readBlockHeader rf e = Some (Some y, e1)" and F: "par_fill_loop rf target d' p win = Some (x, d2', p2, w2)"
  shows "\<not> can_go_on x p2"
proof -
  have "between rf e d' p" using S e(1) by (auto simp: sim_def inside_def)
  then obtain d0 where "link rf (e\<lparr>d_br := None\<rparr>) d0 d' p" by (auto simp: between_def)
  moreover have "e\<lparr>d_br := None\<rparr> = e" using e(1) by simp
  ultimately have L: "link rf e d0 d' p" by simp
  have no_job: "bp_ring q = []" if "link rf e d2 x q" for d2 x q
    using that H by (cases "bp_ring q") (auto simp: link_def ring_link_def)
  have ok: "dec_ok e" using S by (simp add: sim_def)
  show ?thesis
  proof (rule bp_readAhead_ok [OF L ok src])
    fix d1 q d2
    assume R: "bp_readAhead rf d' p = Some (d1, q)" "link rf e d2 d1 q"
      and stuck: "bp_ring q = [] \<Longrightarrow> bp_sawLast q \<or> bp_pendingErr q \<noteq> None"
    have ring: "bp_ring q = []" "d2 = e" using no_job [OF R(2)] R(2) by (simp_all add: link_def ring_link_def)
    have "tail_ok rf e d1 q" using R(2) ring(2) by (simp add: link_def)
    then have "\<not> bp_sawLast q" using e(2) by (simp add: tail_ok_def)
    then obtain z where z: "bp_pendingErr q = Some z" using stuck ring(1) by auto
    have "par_turn rf target d' p win = Some (Some (Some z), d1, q, win)"
      using no_job [OF L] R(1) ring(1) z by (simp add: par_turn_def)
    then have "par_fill_loop rf target d' p win = Some (Some z, d1, q, win)" using av by (subst par_fill_loop.simps) simp
    then show ?thesis using F ring(1) z by (simp add: can_go_on_def)
  qed
qed

end

subsection \<open>The two decoders side by side\<close>

text \<open>
  The pairs of a serial decoder and a parallel one with its pipeline whose fills are compared:
  the same member is begun on two decoders with any two histories, one without workers and one
  with, where the tables in force agree or do not matter; both are filled, as long as the member
  goes on; what was filled is handed out; the workers are stopped; and when the member has been
  decoded to its end the next one is begun.
\<close>

inductive together :: "'s full_reading \<Rightarrow> ('s \<Rightarrow> bool) \<Rightarrow> 's decoder50 \<Rightarrow> 's decoder50 \<Rightarrow> pipeline \<Rightarrow> bool"
  for rf good where
  start: "decodes rf good d pipe \<Longrightarrow> decodes rf good d' pipe' \<Longrightarrow> good s
    \<Longrightarrow> in_force d pipe = in_force d' pipe' \<or> brings_tables rf s
    \<Longrightarrow> k \<le> 1 \<Longrightarrow> setPipeline k stopped0 events0 picks0 (dec_begin d s False sz) pipe = Some (d1, pipe1)
    \<Longrightarrow> 1 < workers \<Longrightarrow> setPipeline workers stopped events picks (dec_begin d' s False sz) pipe' = Some (d1', Some p)
    \<Longrightarrow> together rf good d1 d1' p"
| fill: "together rf good d d' p \<Longrightarrow> win_rel win out q \<Longrightarrow> win_big win \<Longrightarrow> fillParallel rf d' p win = Some (e', d2', p2, w2')
    \<Longrightarrow> can_go_on e' p2 \<Longrightarrow> dec_fill rf d win = Some (e, d2, w2) \<Longrightarrow> together rf good d2 d2' p2"
| emit: "together rf good d d' p \<Longrightarrow> fl_ok fl
    \<Longrightarrow> together rf good (d\<lparr>d_fl := fl, d_outbuf := ob, d_tot := t\<rparr>) (d'\<lparr>d_fl := fl, d_outbuf := ob, d_tot := t\<rparr>) p"
| stop: "together rf good d d' p \<Longrightarrow> together rf good d d' (bp_stop p)"
| next_member: "together rf good d d' p \<Longrightarrow> bp_sawLast p \<Longrightarrow> bp_ring p = [] \<Longrightarrow> good s \<Longrightarrow> 1 < workers
    \<Longrightarrow> setPipeline workers stopped events picks (dec_begin d' s False sz) (Some p) = Some (d2', Some p2)
    \<Longrightarrow> together rf good (dec_begin d s False sz) d2' p2"

lemma sim_emit:
  assumes "sim rf d d' p" and "fl_ok fl"
  shows "sim rf (d\<lparr>d_fl := fl, d_outbuf := ob, d_tot := t\<rparr>) (d'\<lparr>d_fl := fl, d_outbuf := ob, d_tot := t\<rparr>) p" (is "sim rf ?d ?d' p")
proof -
  have same: "block_same d ?d" by (simp add: block_same_def)
  have "?d = into ?d ?d'" using assms(1) unfolding sim_def by (metis (no_types, lifting) emit_into)
  moreover have "dec_ok ?d" using assms by (simp add: sim_def dec_ok_def)
  moreover from assms(1) have "(\<exists>d0 j js r. inside rf ?d d0 ?d' p j js r) \<or> between rf ?d ?d' p"
  proof (unfold sim_def, elim conjE disjE exE)
    fix d0 j js r
    assume I: "inside rf d d0 d' p j js r"
    have br: "d_br ?d = Some r" using I by (simp add: inside_def)
    have p: "p = p\<lparr>bp_idx := bp_idx p, bp_inline := bp_inline p\<rparr>" by simp
    have "inside rf ?d (into d0 ?d) ?d' p j js r"
      by (rule inside_keep [OF I same _ br p]) (use I in \<open>auto simp: inside_def\<close>)
    then show ?thesis by blast
  next
    assume b: "between rf d d' p"
    then obtain d0 where L: "link rf (d\<lparr>d_br := None\<rparr>) d0 d' p" by (auto simp: between_def)
    have u: "into (d\<lparr>d_br := None\<rparr>) ?d = ?d\<lparr>d_br := None\<rparr>" by (cases d) (simp add: into_def)
    have "link rf (?d\<lparr>d_br := None\<rparr>) (into d0 ?d) ?d' p"
      using L queued_into [of rf "bp_quit p" "bp_tables p" "d\<lparr>d_br := None\<rparr>" "bp_ring p" d0 ?d] tail_ok_into [of rf d0 d' p ?d' ?d]
      by (simp add: link_def ring_link_def u)
    then show ?thesis using b by (cases "d_br d") (auto simp: between_def)
  qed
  ultimately show ?thesis by (simp add: sim_def)
qed

lemma sim_stop:
  assumes S: "sim rf d d' p"
  shows "sim rf d d' (bp_stop p)"
proof -
  have ok: "pipe_ok (bp_stop p) = pipe_ok p" by (simp add: bp_stop_def pipe_ok_def bp_slots_def)
  have quit: "queued rf (bp_quit p) tabs x js y \<Longrightarrow> queued rf True tabs x js y" for tabs x js y
    by (rule queued_quit) simp_all
  have tail: "tail_ok rf d0 d' (bp_stop p) = tail_ok rf d0 d' p" for d0 by (simp add: tail_ok_def bp_stop_def)
  have "inside rf d d0 d' (bp_stop p) j js r" if I: "inside rf d d0 d' p j js r" for d0 j js r
  proof -
    have "pos_ok (bp_quit p) (d_tables d) r (bp_idx p) (pj_job j) \<Longrightarrow> pos_ok True (d_tables d) r (bp_idx p) (pj_job j)"
      by (rule pos_ok_quit) simp_all
    then show ?thesis using I quit ok tail by (auto simp: inside_def bp_stop_def split: if_splits)
  qed
  moreover have "between rf d d' (bp_stop p)" if b: "between rf d d' p"
    using b quit ok tail unfolding between_def link_def ring_link_def by (fastforce simp: bp_stop_def)
  ultimately show ?thesis using S unfolding sim_def by blast
qed

context full_source
begin

lemma fillParallel_ok:
  assumes "sim rf d d' p" and "src_ok (d_r d)" and "win_rel win out q" and "win_big win"
  shows "\<exists>y. fillParallel rf d' p win = Some y \<and> returned rf (win_fillTarget win) (dec_fill rf d win) y"
  unfolding fillParallel_def dec_fill_def by (rule par_fill_loop_ok [OF assms(1-3) win_big_target [OF assms(4)]])

lemma together_lives: "together rf src_ok d d' p \<Longrightarrow> decodes rf src_ok d' (Some p) \<and> fine True p"
proof (induction rule: together.induct)
  case (start d pipe d' pipe' s k stopped0 events0 picks0 sz d1 pipe1 workers stopped events picks d1' p)
  have D: "decodes rf src_ok d1' (Some p)" by (rule decodes.member [OF start(2,3,8)])
  have "bp_engaged p" using start(7,8) by (auto simp: setPipeline_def bp_engage_def Let_def split: option.splits if_splits)
  then show ?case using D decodes_settled [OF D] by (simp add: settled_def)
next
  case (fill d d' p win out q e' d2' p2 w2' e d2 w2)
  have "bp_engaged p" using fill.IH by (simp add: fine_def)
  then have "dec_fillWith rf d' (Some p) win = Some (e', d2', Some p2, w2')" using fill.hyps(4) by (simp add: dec_fillWith_def)
  moreover have "whole src_ok d'" using decodes_settled [of d' "Some p"] fill.IH by (simp add: settled_def)
  ultimately show ?case using decodes.fill fine_fill [OF fill.hyps(4)] fill.IH by blast
next
  case emit
  then show ?case using decodes.emit by blast
next
  case (stop d d' p)
  then show ?case using decodes.stop [of rf src_ok d' p] by (simp add: bp_stop_def fine_def pipe_ok_def bp_slots_def)
next
  case (next_member d d' p s workers stopped events picks sz d2' p2)
  have D: "decodes rf src_ok d2' (Some p2)" using decodes.member [of rf src_ok d' "Some p" s] next_member.IH next_member.hyps(4,6) by simp
  have "bp_engaged p2" using next_member.hyps(5,6) by (auto simp: setPipeline_def bp_engage_def Let_def split: if_splits)
  then show ?case using D decodes_settled [OF D] by (simp add: settled_def)
qed

text \<open>Decoded to its end, a member leaves the two with the same tables.\<close>

lemma ended_same:
  assumes S: "sim rf e d' p" and A: "alike rf d e" and end_: "bp_sawLast p" "bp_ring p = []"
  shows "d = e" and "bp_tables p ! bp_cur p = d_tables e" and "started ((dec_begin e s False sz)\<lparr>d_tables := d_tables e\<rparr>)"
proof -
  have "between rf e d' p" using S end_(2) by (auto simp: sim_def inside_def)
  then obtain d0 where L: "link rf (e\<lparr>d_br := None\<rparr>) d0 d' p" by (auto simp: between_def)
  then have T: "tail_ok rf (e\<lparr>d_br := None\<rparr>) d' p" using end_(2) by (auto simp: link_def ring_link_def)
  then have last: "d_lastBlock e" and pend: "bp_pendingErr p = None"
    using end_(1) by (simp add: tail_ok_def, cases "bp_pendingErr p", auto simp: tail_ok_def)
  have "d_lastBlock e = d_lastBlock d" if "e = d\<lparr>d_tables := d_tables e\<rparr>" by (subst that) simp
  then show "d = e" using A last unfolding alike_def by blast
  show "bp_tables p ! bp_cur p = d_tables e" using T pend by (simp add: tail_ok_def)
  have "ts_ok (d_tables e)" using S by (simp add: sim_def dec_ok_def)
  then show "started ((dec_begin e s False sz)\<lparr>d_tables := d_tables e\<rparr>)"
    by (rule begin_started) (use T in \<open>simp_all add: tail_ok_def\<close>)
qed

lemma together_alike: "together rf src_ok d d' p \<Longrightarrow> src_ok (d_r d) \<and> (\<exists>e. alike rf d e \<and> sim rf e d' p)"
proof (induction rule: together.induct)
  case (start d pipe d' pipe' s k stopped0 events0 picks0 sz d1 pipe1 workers stopped events picks d1' p)
  have S: "settled src_ok d pipe" "settled src_ok d' pipe'" using start(1,2) decodes_settled by simp_all
  have F: "\<forall>p. pipe = Some p \<longrightarrow> fine (bp_engaged p) p" "\<forall>p. pipe' = Some p \<longrightarrow> fine (bp_engaged p) p" using S by (simp_all add: settled_def)
  have d1: "d1 = (dec_begin d s False sz)\<lparr>d_tables := in_force d pipe\<rparr>"
    using setPipeline_serial(1) [OF F(1) start(5,6)] by (simp add: in_force_begin)
  define e where "e = (dec_begin d s False sz)\<lparr>d_tables := in_force d' pipe'\<rparr>"
  have e: "started e" unfolding e_def by (rule begin_started) (use S in \<open>simp_all add: settled_def whole_def\<close>)
  have "in_force (dec_begin d' s False sz) pipe' = d_tables e" by (simp add: e_def in_force_begin)
  from setPipeline_sim [OF e begin_into [OF e_def] _ _ F(2) this start(7), of stopped events picks rf]
  have sim: "sim rf e d1' p" using start(8) by (simp add: dec_begin_fields e_def)
  have "alike rf d1 e"
  proof (cases "in_force d pipe = in_force d' pipe'")
    case True
    then show ?thesis by (simp add: alike_def d1 e_def)
  next
    case False
    then have "brings_tables rf s" using start(4) by simp
    then show ?thesis using S by (simp add: alike_def d1 e_def dec_begin_fields settled_def)
  qed
  then show ?case using sim start(3) by (auto simp: d1 dec_begin_fields)
next
  case (fill d d' p win out q e' d2' p2 w2' ex d2 w2)
  obtain e where src: "src_ok (d_r d)" and A: "alike rf d e" and S: "sim rf e d' p" using fill.IH by blast
  have "d_r e = d_r d" using A by (metis alike_tables)
  then have src_e: "src_ok (d_r e)" using src by simp
  have target: "win_fillTarget win + maxMatch \<le> win_size win" by (rule win_big_target [OF fill.hyps(3)])
  obtain y where "fillParallel rf d' p win = Some y" "returned rf (win_fillTarget win) (dec_fill rf e win) y"
    using fillParallel_ok [OF S src_e fill.hyps(2,3)] by blast
  then have R: "returned rf (win_fillTarget win) (dec_fill rf e win) (e', d2', p2, w2')" using fill.hyps(4) by simp
  obtain z ds wz where G: "dec_fill_loop rf (win_fillTarget win) e win = Some (z, ds, wz)" "src_ok (d_r ds)"
    using dec_fill_loop_ok [OF _ fill.hyps(2) target src_e] S unfolding sim_def by blast
  have "e' \<noteq> Some ErrReaderClosed" using fill.hyps(5) by (auto simp: can_go_on_def)
  then have sim: "sim rf ds d2' p2" using R G(1) fill.hyps(5) by (auto simp: returned_def dec_fill_def)
  obtain dx where D: "dec_fill_loop rf (win_fillTarget win) d win = Some (z, dx, wz)" "d_r dx = d_r ds"
    and over: "alike rf dx ds \<or> (win_Available win < win_fillTarget win \<and> d_br e = None \<and> \<not> d_lastBlock e
        \<and> (\<exists>y e1. dec_readBlockHeader rf e = Some (Some y, e1)))"
    using alike_fill [OF A src G(1)] by blast
  have "alike rf dx ds"
    using over failed_header_over [OF S src_e] fill.hyps(4,5) unfolding fillParallel_def by blast
  moreover have "dx = d2" using D(1) fill.hyps(6) by (simp add: dec_fill_def)
  ultimately show ?case using sim D(2) G(2) by auto
next
  case (emit d d' p fl t ob)
  then obtain e where "src_ok (d_r d)" "alike rf d e" "sim rf e d' p" by blast
  then show ?case using sim_emit [of rf e d' p fl t ob] alike_emit [of rf d e t ob fl] emit.hyps(2) by auto
next
  case (stop d d' p)
  then show ?case using sim_stop by blast
next
  case (next_member d d' p s workers stopped events picks sz d2' p2)
  obtain e where A: "alike rf d e" and S: "sim rf e d' p" using next_member.IH by blast
  have d: "d = e" "bp_tables p ! bp_cur p = d_tables e" and e: "started ((dec_begin e s False sz)\<lparr>d_tables := d_tables e\<rparr>)"
    using ended_same [OF S A next_member.hyps(2,3)] by blast+
  have F: "fine True p" using together_lives [OF next_member.hyps(1)] by simp
  have fin: "\<forall>q. Some p = Some q \<longrightarrow> fine (bp_engaged q) q" "in_force (dec_begin d' s False sz) (Some p) = d_tables ((dec_begin e s False sz)\<lparr>d_tables := d_tables e\<rparr>)"
    using F d(2) by (simp_all add: fine_def in_force_begin) (simp add: in_force_def)
  from setPipeline_sim [OF e begin_into [OF refl] _ _ fin next_member.hyps(5), of stopped events picks rf]
  have "sim rf ((dec_begin e s False sz)\<lparr>d_tables := d_tables e\<rparr>) d2' p2" using next_member.hyps(6) by (simp add: dec_begin_fields)
  moreover have "(dec_begin e s False sz)\<lparr>d_tables := d_tables e\<rparr> = dec_begin e s False sz"
    using dec_begin_fields(4) [of e s sz] by (metis decoder50.surjective decoder50.update_convs(6))
  ultimately show ?case using d(1) next_member.hyps(4) by (auto simp: dec_begin_fields alike_def)
qed

text \<open>There is always a free table set: a member can be begun with workers at any moment.\<close>

lemma begin_member:
  assumes "decodes rf src_ok d pipe" and "1 < workers"
  shows "\<exists>d2 p2. setPipeline workers stopped events picks (dec_begin d s False sz) pipe = Some (d2, Some p2)"
proof -
  have S: "settled src_ok d pipe" by (rule decodes_settled [OF assms(1)])
  define e where "e = (dec_begin d s False sz)\<lparr>d_tables := in_force d pipe\<rparr>"
  have e: "started e" unfolding e_def by (rule begin_started) (use S in \<open>simp_all add: settled_def whole_def\<close>)
  have "\<forall>p. pipe = Some p \<longrightarrow> fine (bp_engaged p) p" "in_force (dec_begin d s False sz) pipe = d_tables e"
    using S by (simp_all add: settled_def e_def in_force_begin)
  from setPipeline_sim [OF e begin_into [OF e_def] _ _ this assms(2), of stopped events picks rf]
  show ?thesis by (auto simp: dec_begin_fields e_def)
qed

end

subsection \<open>Properties\<close>

text \<open>C5. Decoding with workers is decoding without. The same member is begun on two decoders, one
  without workers and one with, whatever happened to each before: members read to their end, left in
  the middle or failed, with any number of workers, the workers stopped and started again. Provided
  the two have the same tables in force, or the member's first block brings its own, filling the window
  in parallel returns, however the workers are scheduled and whenever the Reader is closed, and it
  leaves the window the serial decoder leaves, byte for byte, with the same distances, filters and
  counts and the same error; and so for every further fill of the member while it goes on. There are two
  differences: a fill that finds the pipeline stopped reports \<open>ErrReaderClosed\<close>; and the end of the
  last block may be reported one call earlier, when the window has what was asked for. Once the
  member has been decoded to its end the two have the same tables in force again, and the next one may
  be begun on them. (Left in the middle, they may not: the pipeline keeps the tables it has read
  ahead, the serial decoder those of the block it is in. Then the next member is the same only if it
  brings its own.)\<close>

theorem parallel_fill_is_serial:
  assumes "full_source rf left src_ok" and "together rf src_ok d d' p" and "win_rel win out q" and "win_big win"
  shows "(\<exists>e d2' p2 win2. fillParallel rf d' p win = Some (e, d2', p2, win2)
     \<and> (e = Some ErrReaderClosed \<and> bp_quit p2
        \<or> (\<exists>e' d2. dec_fill rf d win = Some (e', d2, win2)
             \<and> (e = e' \<or> e = Some EOF \<and> e' = None \<and> win_fillTarget win \<le> win_Available win2)
             \<and> d_offset d2' = d_offset d2 \<and> d_length d2' = d_length d2 \<and> d_fl d2' = d_fl d2
             \<and> d_decoded d2' = d_decoded d2 \<and> d_tot d2' = d_tot d2 \<and> d_outbuf d2' = d_outbuf d2)))
     \<and> (bp_sawLast p \<and> bp_ring p = [] \<longrightarrow> in_force d' (Some p) = d_tables d)"
proof (intro conjI impI)
  obtain e where S: "alike rf d e" "sim rf e d' p" "src_ok (d_r d)" using full_source.together_alike [OF assms(1,2)] by blast
  show "in_force d' (Some p) = d_tables d" if "bp_sawLast p \<and> bp_ring p = []"
    using full_source.ended_same(1,2) [OF assms(1) S(2,1)] full_source.together_lives [OF assms(1,2)] that by (simp add: in_force_def fine_def)
  have src: "src_ok (d_r e)" using S(3) alike_tables [OF S(1)] by simp
  obtain x d2' p2 win2 where F: "fillParallel rf d' p win = Some (x, d2', p2, win2)"
      "returned rf (win_fillTarget win) (dec_fill rf e win) (x, d2', p2, win2)"
    using full_source.fillParallel_ok [OF assms(1) S(2) src assms(3,4)] by auto
  have same: "a = into a c \<Longrightarrow> into b a = b \<Longrightarrow> d_offset c = d_offset b \<and> d_length c = d_length b \<and> d_fl c = d_fl b
      \<and> d_decoded c = d_decoded b \<and> d_tot c = d_tot b \<and> d_outbuf c = d_outbuf b" for a b c :: "'a decoder50"
    by (metis into_fields)
  from F(2) consider (closed) "x = Some ErrReaderClosed" "bp_quit p2"
    | (serial) e' ds where "dec_fill rf e win = Some (e', ds, win2)" "ds = into ds d2'"
        "x = e' \<or> x = Some EOF \<and> e' = None \<and> win_fillTarget win \<le> win_Available win2"
    unfolding returned_def by blast
  then show "\<exists>e d2' p2 win2. fillParallel rf d' p win = Some (e, d2', p2, win2)
     \<and> (e = Some ErrReaderClosed \<and> bp_quit p2
        \<or> (\<exists>e' d2. dec_fill rf d win = Some (e', d2, win2)
             \<and> (e = e' \<or> e = Some EOF \<and> e' = None \<and> win_fillTarget win \<le> win_Available win2)
             \<and> d_offset d2' = d_offset d2 \<and> d_length d2' = d_length d2 \<and> d_fl d2' = d_fl d2
             \<and> d_decoded d2' = d_decoded d2 \<and> d_tot d2' = d_tot d2 \<and> d_outbuf d2' = d_outbuf d2))"
  proof cases
    case closed
    then show ?thesis using F(1) by blast
  next
    case (serial e' ds)
    obtain d2 where "dec_fill rf d win = Some (e', d2, win2)" "into d2 ds = d2"
      using full_source.alike_fill [OF assms(1) S(1,3) serial(1) [unfolded dec_fill_def]] by (auto simp: dec_fill_def)
    then show ?thesis using F(1) serial(3) same [OF serial(2)] by blast
  qed
qed

text \<open>A member is begun with two workers and left at once; then another one is begun.\<close>

definition demo_left :: "stream decoder50 \<times> pipeline option" where
  "demo_left = the (setPipeline 2 False [[Work 0]] [] (dec_begin (newDecoder50 demo_source) demo_source False 0) None)"

definition demo_engaged :: "stream decoder50 \<times> pipeline" where
  "demo_engaged = map_prod id the (the (setPipeline 2 False [[Work 0], [Stop]] [True]
     (dec_begin (fst demo_left) demo_source False 0) (snd demo_left)))"

theorem parallel_fill_is_serial_witness:
  "\<exists>e d2' p2 win2. fillParallel stream_full (fst demo_engaged) (snd demo_engaged) (newWindow 0) = Some (e, d2', p2, win2)
     \<and> (e = Some ErrReaderClosed \<and> bp_quit p2
        \<or> (\<exists>e' d2. dec_fill stream_full (dec_begin (newDecoder50 demo_source) demo_source False 0) (newWindow 0) = Some (e', d2, win2)
             \<and> (e = e' \<or> e = Some EOF \<and> e' = None \<and> win_fillTarget (newWindow 0) \<le> win_Available win2)
             \<and> d_offset d2' = d_offset d2 \<and> d_length d2' = d_length d2 \<and> d_fl d2' = d_fl d2
             \<and> d_decoded d2' = d_decoded d2 \<and> d_tot d2' = d_tot d2 \<and> d_outbuf d2' = d_outbuf d2))"
proof -
  let ?new = "newDecoder50 demo_source" and ?g = "\<lambda>_. True :: bool"
  note full = stream_full.full_source_axioms
  have n: "decodes stream_full ?g ?new None" by (rule decodes.new) simp
  obtain d1 p1 where 1: "setPipeline 2 False [[Work 0]] [] (dec_begin ?new demo_source False 0) None = Some (d1, Some p1)"
    using full_source.begin_member [OF full n, of 2 False "[[Work 0]]" "[]" demo_source 0] by auto
  have left: "demo_left = (d1, Some p1)" by (simp add: demo_left_def 1)
  have l: "decodes stream_full ?g d1 (Some p1)" by (rule decodes.member [OF n _ 1]) simp
  obtain d2 p2 where 2: "setPipeline 2 False [[Work 0], [Stop]] [True] (dec_begin d1 demo_source False 0) (Some p1) = Some (d2, Some p2)"
    using full_source.begin_member [OF full l, of 2 False "[[Work 0], [Stop]]" "[True]" demo_source 0] by auto
  have serial: "setPipeline 1 False [] [] (dec_begin ?new demo_source False 0) None = Some (dec_begin ?new demo_source False 0, None)"
    by (simp add: setPipeline_def)
  have "brings_tables stream_full demo_source"
    by (simp add: brings_tables_def readBlockHead_def stream_full_def readFull_def demo_source_def Let_def)
  then have T: "together stream_full ?g (dec_begin ?new demo_source False 0) d2 p2"
    by (intro together.start [OF n l _ _ _ serial _ 2]) simp_all
  have E: "d2 = fst demo_engaged" "p2 = snd demo_engaged" by (simp_all add: demo_engaged_def left 2)
  from parallel_fill_is_serial [OF full T [unfolded E] win_rel_new win_big_new] show ?thesis by blast
qed

end
