(* ===== verification/Go_Std.thy ===== *)
theory Go_Std
  imports Prelude "HOL-Library.Signed_Division"
begin

section \<open>The parts of Go's standard library the headers use\<close>

text \<open>
  \<^verbatim>\<open>hash/crc32\<close> (the IEEE polynomial, reflected), \<^verbatim>\<open>strings.Split\<close>,
  \<^verbatim>\<open>path.Clean\<close> and \<^verbatim>\<open>path.Join\<close> on strings as byte lists, the parts of
  \<^verbatim>\<open>unicode/utf8\<close> and \<^verbatim>\<open>unicode/utf16\<close> that decode names, and
  \<^verbatim>\<open>time.Unix\<close>. A time is its seconds since 1970 and its nanoseconds; the zero
  \<^verbatim>\<open>time.Time\<close> is \<open>None\<close>. Also a bind for computations that may fail.
\<close>

subsection \<open>Failure\<close>

definition err_bind :: "'e + 'a \<Rightarrow> ('a \<Rightarrow> 'e + 'b) \<Rightarrow> 'e + 'b" where
  "err_bind m f = (case m of Inl e \<Rightarrow> Inl e | Inr x \<Rightarrow> f x)"

lemma err_bind_simps [simp]: "err_bind (Inl e) f = Inl e" "err_bind (Inr x) f = f x"
  by (simp_all add: err_bind_def)

lemma err_bind_Inr_iff: "err_bind m f = Inr y \<longleftrightarrow> (\<exists>x. m = Inr x \<and> f x = Inr y)"
  by (cases m) auto

lemma err_bind_split: "P (err_bind m f) \<longleftrightarrow> (\<forall>e. m = Inl e \<longrightarrow> P (Inl e)) \<and> (\<forall>x. m = Inr x \<longrightarrow> P (f x))"
  by (cases m) auto

subsection \<open>CRC-32\<close>

definition crc32_shift :: "u32 \<Rightarrow> u32" where
  "crc32_shift c = (if bit c 0 then drop_bit 1 c XOR 0xedb88320 else drop_bit 1 c)"

definition crc32_byte :: "u32 \<Rightarrow> byte \<Rightarrow> u32" where
  "crc32_byte c b = (crc32_shift ^^ 8) (c XOR ucast b)"

definition crc32_update :: "u32 \<Rightarrow> byte list \<Rightarrow> u32" where
  "crc32_update c bs = NOT (foldl crc32_byte (NOT c) bs)"

definition crc32_ieee :: "byte list \<Rightarrow> u32" where
  "crc32_ieee bs = crc32_update 0 bs"

lemma crc32_update_Nil [simp]: "crc32_update c [] = c"
  by (simp add: crc32_update_def)

lemma crc32_update_append: "crc32_update c (as @ bs) = crc32_update (crc32_update c as) bs"
  by (simp add: crc32_update_def)

subsection \<open>Splitting and joining\<close>

fun splitBy :: "'a \<Rightarrow> 'a list \<Rightarrow> 'a list list" where
  "splitBy c [] = [[]]"
| "splitBy c (x # xs) =
     (if x = c then [] # splitBy c xs
      else case splitBy c xs of [] \<Rightarrow> [[x]] | p # ps \<Rightarrow> (x # p) # ps)"

fun joinBy :: "'a \<Rightarrow> 'a list list \<Rightarrow> 'a list" where
  "joinBy c [] = []"
| "joinBy c [p] = p"
| "joinBy c (p # q # ps) = p @ c # joinBy c (q # ps)"

lemma splitBy_nonempty [simp]: "splitBy c xs \<noteq> []"
  by (induction c xs rule: splitBy.induct) (auto split: list.splits)

lemma splitBy_parts: "\<forall>p \<in> set (splitBy c xs). c \<notin> set p \<and> set p \<subseteq> set xs"
proof (induction xs)
  case (Cons x xs)
  then show ?case by (cases "splitBy c xs") auto
qed simp

lemma splitBy_append: "c \<notin> set p \<Longrightarrow> splitBy c (p @ c # xs) = p # splitBy c xs"
  by (induction p) auto

lemma splitBy_one: "c \<notin> set p \<Longrightarrow> splitBy c p = [p]"
  by (induction p) auto

lemma splitBy_joinBy:
  "\<forall>p \<in> set ps. c \<notin> set p \<Longrightarrow> ps \<noteq> [] \<Longrightarrow> splitBy c (joinBy c ps) = ps"
  by (induction c ps rule: joinBy.induct) (simp_all add: splitBy_one splitBy_append)

lemma joinBy_splitBy: "joinBy c (splitBy c xs) = xs"
proof (induction xs)
  case IH: (Cons x xs)
  show ?case
  proof (cases "splitBy c xs")
    case Nil
    then show ?thesis by simp
  next
    case (Cons p ps)
    then show ?thesis using IH.IH by (cases ps) auto
  qed
qed simp

lemma joinBy_hd: "p \<noteq> [] \<Longrightarrow> joinBy c (p # ps) \<noteq> [] \<and> hd (joinBy c (p # ps)) = hd p"
  by (cases ps) auto

lemma set_joinBy: "set (joinBy c ps) \<subseteq> insert c (\<Union> (set ` set ps))"
  by (induction c ps rule: joinBy.induct) auto

subsection \<open>Paths\<close>

abbreviation slash :: byte where "slash \<equiv> 0x2f"
abbreviation dot :: byte where "dot \<equiv> 0x2e"

text \<open>One element of the path, on the stack of the elements kept so far.\<close>

definition clean_step :: "bool \<Rightarrow> byte list list \<Rightarrow> byte list \<Rightarrow> byte list list" where
  "clean_step rooted st p =
     (if p = [] \<or> p = [dot] then st
      else if p = [dot, dot]
      then if st \<noteq> [] \<and> hd st \<noteq> [dot, dot] then tl st else if rooted then st else [dot, dot] # st
      else p # st)"

definition clean_parts :: "bool \<Rightarrow> byte list \<Rightarrow> byte list list" where
  "clean_parts rooted p = rev (foldl (clean_step rooted) [] (splitBy slash p))"

definition path_Clean :: "byte list \<Rightarrow> byte list" where
  "path_Clean p =
     (if p \<noteq> [] \<and> hd p = slash then slash # joinBy slash (clean_parts True p)
      else if clean_parts False p = [] then [dot] else joinBy slash (clean_parts False p))"

definition path_IsAbs :: "byte list \<Rightarrow> bool" where
  "path_IsAbs p \<longleftrightarrow> p \<noteq> [] \<and> hd p = slash"

definition path_Join :: "byte list list \<Rightarrow> byte list" where
  "path_Join ps =
     (if concat ps = [] then [] else path_Clean (joinBy slash (dropWhile (\<lambda>p. p = []) ps)))"

text \<open>An element that names something: not empty, not this directory, not its parent.\<close>

definition real_part :: "byte list \<Rightarrow> bool" where
  "real_part p \<longleftrightarrow> p \<noteq> [] \<and> p \<noteq> [dot] \<and> p \<noteq> [dot, dot] \<and> slash \<notin> set p"

lemma clean_step_real: "real_part p \<Longrightarrow> clean_step rooted st p = p # st"
  by (simp add: clean_step_def real_part_def)

lemma foldl_clean_real: "\<forall>p \<in> set ps. real_part p \<Longrightarrow> foldl (clean_step rooted) st ps = rev ps @ st"
  by (induction ps arbitrary: st) (simp_all add: clean_step_real)

lemma clean_parts_join: "\<forall>p \<in> set ps. real_part p \<Longrightarrow> ps \<noteq> [] \<Longrightarrow> clean_parts rooted (joinBy slash ps) = ps"
  by (simp add: clean_parts_def splitBy_joinBy real_part_def foldl_clean_real)

lemma path_Join_real:
  assumes "\<forall>p \<in> set ps. real_part p"
  shows "path_Join ps = joinBy slash ps"
proof (cases ps)
  case Nil
  then show ?thesis by (simp add: path_Join_def)
next
  case (Cons q qs)
  then have "real_part q" using assms by simp
  then have q: "q \<noteq> []" "slash \<notin> set q" by (simp_all add: real_part_def)
  then have "hd q \<noteq> slash" using hd_in_set [OF q(1)] by metis
  then have "hd (joinBy slash ps) \<noteq> slash" using joinBy_hd [OF q(1), of slash qs] Cons by simp
  then show ?thesis
    using assms Cons q clean_parts_join [OF assms, of False] by (simp add: path_Join_def path_Clean_def)
qed

text \<open>
  The elements left without a root are those of the rooted walk on top of a run of parent
  references; the rooted walk itself keeps only real elements.
\<close>

lemma clean_step_skip: "p = [] \<or> p = [dot] \<Longrightarrow> clean_step rooted st p = st"
  by (simp add: clean_step_def)

lemma clean_step_up:
  "clean_step True st [dot, dot] = (if st \<noteq> [] \<and> hd st \<noteq> [dot, dot] then tl st else st)"
  "clean_step False st [dot, dot] = (if st \<noteq> [] \<and> hd st \<noteq> [dot, dot] then tl st else [dot, dot] # st)"
  by (simp_all add: clean_step_def)

lemma clean_step_rooted:
  assumes "\<forall>q \<in> set st. real_part q" and "slash \<notin> set p"
  shows "\<forall>q \<in> set (clean_step True st p). real_part q"
    and "\<exists>j. clean_step False (st @ replicate k [dot, dot]) p = clean_step True st p @ replicate j [dot, dot]"
proof -
  have nd: "\<not> real_part [dot, dot]" by (simp add: real_part_def)
  consider "p = [] \<or> p = [dot]" | "p = [dot, dot]" | "real_part p"
    using assms(2) unfolding real_part_def by blast
  then have "(\<forall>q \<in> set (clean_step True st p). real_part q)
    \<and> (\<exists>j. clean_step False (st @ replicate k [dot, dot]) p = clean_step True st p @ replicate j [dot, dot])"
  proof cases
    case 1
    with assms(1) show ?thesis by (simp only: clean_step_skip) blast
  next
    case 2
    show ?thesis
    proof (cases st)
      case Nil
      have "clean_step False (replicate k [dot, dot]) p = replicate (Suc k) [dot, dot]"
        unfolding 2 clean_step_up by (cases k) (simp_all only: replicate.simps list.sel list.simps simp_thms if_False)
      moreover have "clean_step True [] p = []" unfolding 2 clean_step_up by simp
      ultimately show ?thesis unfolding Nil by (metis append_Nil empty_iff list.set(1))
    next
      case (Cons q qs)
      then have q: "q \<noteq> [dot, dot]" using assms(1) nd by auto
      have "clean_step b (q # r) p = r" for b r
        unfolding 2 using q by (cases b) (simp_all only: clean_step_up list.sel list.simps simp_thms if_True)
      then show ?thesis unfolding Cons using assms(1) Cons by (metis append_Cons list.set_intros(2))
    qed
  next
    case 3
    then show ?thesis using assms(1) by (simp only: clean_step_real) auto
  qed
  then show "\<forall>q \<in> set (clean_step True st p). real_part q"
    and "\<exists>j. clean_step False (st @ replicate k [dot, dot]) p = clean_step True st p @ replicate j [dot, dot]"
    by blast+
qed

lemma foldl_clean_rooted:
  assumes "\<forall>q \<in> set st. real_part q" and "\<forall>p \<in> set ps. slash \<notin> set p"
  shows "(\<forall>q \<in> set (foldl (clean_step True) st ps). real_part q)
    \<and> (\<exists>j. foldl (clean_step False) (st @ replicate k [dot, dot]) ps
          = foldl (clean_step True) st ps @ replicate j [dot, dot])"
  using assms
proof (induction ps arbitrary: st k)
  case (Cons p ps)
  then have p: "slash \<notin> set p" by simp
  obtain j where "clean_step False (st @ replicate k [dot, dot]) p = clean_step True st p @ replicate j [dot, dot]"
    using clean_step_rooted(2) [OF Cons.prems(1) p] by blast
  then show ?case using Cons.IH [OF clean_step_rooted(1) [OF Cons.prems(1) p], of j] Cons.prems(2) by simp
qed auto

lemma clean_parts_rooted:
  "(\<forall>q \<in> set (clean_parts True p). real_part q)
   \<and> (\<exists>j. clean_parts False p = replicate j [dot, dot] @ clean_parts True p)"
proof -
  have "\<forall>q \<in> set (splitBy slash p). slash \<notin> set q" using splitBy_parts [of slash p] by simp
  then obtain j where "\<forall>q \<in> set (foldl (clean_step True) [] (splitBy slash p)). real_part q"
    and "foldl (clean_step False) [] (splitBy slash p)
         = foldl (clean_step True) [] (splitBy slash p) @ replicate j [dot, dot]"
    using foldl_clean_rooted [of "[]" "splitBy slash p" 0] by auto
  then show ?thesis by (auto simp: clean_parts_def rev_replicate)
qed

subsection \<open>UTF-8 and UTF-16\<close>

text \<open>
  The width of the well-formed sequence at the front of a string, 0 when there is none, with
  the accept ranges of \<^verbatim>\<open>unicode/utf8\<close>.
\<close>

definition cont :: "byte \<Rightarrow> bool" where
  "cont b \<longleftrightarrow> 0x80 \<le> b \<and> b \<le> 0xbf"

definition utf8_first :: "byte \<Rightarrow> nat" where
  "utf8_first a =
     (if a < 0x80 then 1
      else if 0xc2 \<le> a \<and> a \<le> 0xdf then 2
      else if 0xe0 \<le> a \<and> a \<le> 0xef then 3
      else if 0xf0 \<le> a \<and> a \<le> 0xf4 then 4
      else 0)"

definition utf8_second :: "byte \<Rightarrow> byte \<Rightarrow> bool" where
  "utf8_second a b \<longleftrightarrow> cont b \<and> (a = 0xe0 \<longrightarrow> 0xa0 \<le> b) \<and> (a = 0xed \<longrightarrow> b \<le> 0x9f)
     \<and> (a = 0xf0 \<longrightarrow> 0x90 \<le> b) \<and> (a = 0xf4 \<longrightarrow> b \<le> 0x8f)"

definition utf8_width :: "byte list \<Rightarrow> nat" where
  "utf8_width s =
     (if s = [] then 0
      else let n = utf8_first (hd s)
           in if length s < n \<or> (1 < n \<and> \<not> utf8_second (hd s) (s ! 1)) \<or> (2 < n \<and> \<not> cont (s ! 2))
                \<or> (3 < n \<and> \<not> cont (s ! 3)) then 0 else n)"

text \<open>\<^verbatim>\<open>strings.ToValidUTF8\<close> with U+FFFD: \<open>invalid\<close> says the byte before was replaced.\<close>

definition replacement :: "byte list" where
  "replacement = [0xef, 0xbf, 0xbd]"

function toValidUTF8 :: "bool \<Rightarrow> byte list \<Rightarrow> byte list" where
  "toValidUTF8 invalid s =
     (if s = [] then []
      else let n = utf8_width s
           in if n = 0 then (if invalid then [] else replacement) @ toValidUTF8 True (tl s)
              else take n s @ toValidUTF8 False (drop n s))"
  by pat_completeness auto
termination by (relation "measure (\<lambda>(invalid, s). length s)") auto

declare toValidUTF8.simps [simp del]

text \<open>Runes of 16-bit units (\<^verbatim>\<open>utf16.Decode\<close>) and the UTF-8 of a rune.\<close>

fun utf16_Decode :: "u16 list \<Rightarrow> nat list" where
  "utf16_Decode [] = []"
| "utf16_Decode [r] = [if r < 0xd800 \<or> 0xe000 \<le> r then unat r else 0xfffd]"
| "utf16_Decode (r # t # rs) =
     (if r < 0xd800 \<or> 0xe000 \<le> r then unat r # utf16_Decode (t # rs)
      else if r < 0xdc00 \<and> 0xdc00 \<le> t \<and> t < 0xe000
      then ((unat r - 0xd800) * 0x400 + (unat t - 0xdc00) + 0x10000) # utf16_Decode rs
      else 0xfffd # utf16_Decode (t # rs))"

definition utf8_encode :: "nat \<Rightarrow> byte list" where
  "utf8_encode n =
     (if n < 0x80 then [word_of_nat n]
      else if n < 0x800 then [word_of_nat (0xc0 + n div 0x40), word_of_nat (0x80 + n mod 0x40)]
      else if n < 0x10000
      then [word_of_nat (0xe0 + n div 0x1000), word_of_nat (0x80 + n div 0x40 mod 0x40),
            word_of_nat (0x80 + n mod 0x40)]
      else [word_of_nat (0xf0 + n div 0x40000), word_of_nat (0x80 + n div 0x1000 mod 0x40),
            word_of_nat (0x80 + n div 0x40 mod 0x40), word_of_nat (0x80 + n mod 0x40)])"

text \<open>Well-formed UTF-8, as a sequence of well-formed sequences.\<close>

function utf8_valid :: "byte list \<Rightarrow> bool" where
  "utf8_valid s =
     (if s = [] then True else if utf8_width s = 0 then False else utf8_valid (drop (utf8_width s) s))"
  by pat_completeness auto
termination by (relation "measure length") auto

declare utf8_valid.simps [simp del]

lemma utf8_valid_Nil [simp]: "utf8_valid []"
  by (simp add: utf8_valid.simps)

lemma utf8_width_le: "utf8_width s \<le> length s"
  by (simp add: utf8_width_def Let_def)

lemma utf8_width_eqI:
  assumes "0 < utf8_width s" and "take (utf8_width s) t = take (utf8_width s) s"
  shows "utf8_width t = utf8_width s"
proof -
  let ?n = "utf8_width s"
  have n: "?n = utf8_first (hd s)" "s \<noteq> []" "?n \<le> length s"
    using assms(1) by (auto simp: utf8_width_def Let_def split: if_splits)
  have nth: "t ! i = s ! i" if "i < ?n" for i
    using assms(2) that by (metis nth_take)
  have len: "?n \<le> length t" using assms(2) n(3) by (metis length_take min.absorb2 min.cobounded1)
  with assms(1) have t: "t \<noteq> []" by auto
  have "hd t = hd s" using nth [of 0] assms(1) n(2) t by (simp add: hd_conv_nth)
  then show ?thesis
    using assms(1) n nth [of 1] nth [of 2] nth [of 3] len t
    by (auto simp: utf8_width_def Let_def split: if_splits)
qed

lemma utf8_valid_append: "utf8_valid s \<Longrightarrow> utf8_valid t \<Longrightarrow> utf8_valid (s @ t)"
proof (induction s rule: utf8_valid.induct)
  case (1 s)
  show ?case
  proof (cases "s = []")
    case False
    with "1.prems"(1) have w: "utf8_width s \<noteq> 0" "utf8_valid (drop (utf8_width s) s)"
      by (simp_all add: utf8_valid.simps [of s] split: if_splits)
    have "utf8_valid (drop (utf8_width s) s @ t)" by (rule "1.IH" [OF False w "1.prems"(2)])
    moreover have "utf8_width (s @ t) = utf8_width s"
      using w(1) utf8_width_le [of s] by (intro utf8_width_eqI) simp_all
    ultimately show ?thesis using w False utf8_width_le [of s] by (simp add: utf8_valid.simps [of "s @ t"])
  qed (use "1.prems" in simp)
qed

lemma utf8_valid_take: "utf8_width s \<noteq> 0 \<Longrightarrow> utf8_valid (take (utf8_width s) s)"
proof -
  assume w: "utf8_width s \<noteq> 0"
  have "utf8_width (take (utf8_width s) s) = utf8_width s"
    using w by (intro utf8_width_eqI) simp_all
  with w show ?thesis by (simp add: utf8_valid.simps [of "take (utf8_width s) s"])
qed

lemma utf8_valid_replacement: "utf8_valid replacement"
  by (simp add: replacement_def utf8_valid.simps utf8_width_def utf8_first_def utf8_second_def cont_def)

lemma toValidUTF8_valid: "utf8_valid (toValidUTF8 invalid s)"
proof (induction invalid s rule: toValidUTF8.induct)
  case (1 invalid s)
  show ?case
  proof (cases "s = []")
    case False
    show ?thesis
    proof (cases "utf8_width s = 0")
      case True
      then show ?thesis
        using "1.IH"(1) [OF False refl] False utf8_valid_replacement
        by (simp add: toValidUTF8.simps [of invalid s] Let_def utf8_valid_append)
    next
      case w: False
      then show ?thesis
        using "1.IH"(2) [OF False refl] False utf8_valid_take [OF w]
        by (simp add: toValidUTF8.simps [of invalid s] Let_def utf8_valid_append)
    qed
  qed (simp add: toValidUTF8.simps)
qed

subsection \<open>Time\<close>

type_synonym gotime = "int \<times> int"

definition time_Unix :: "int \<Rightarrow> int \<Rightarrow> gotime" where
  "time_Unix sec nsec = (sec + nsec div 10 ^ 9, nsec mod 10 ^ 9)"

definition time_Add :: "gotime \<Rightarrow> int \<Rightarrow> gotime" where
  "time_Add t d = time_Unix (fst t) (snd t + d)"

text \<open>The nanoseconds a time is after 1970, and what \<^verbatim>\<open>time.Time\<close> keeps of it.\<close>

definition time_ns :: "gotime \<Rightarrow> int" where
  "time_ns t = fst t * 10 ^ 9 + snd t"

definition time_ok :: "gotime \<Rightarrow> bool" where
  "time_ok t \<longleftrightarrow> 0 \<le> snd t \<and> snd t < 10 ^ 9"

lemma time_Unix_ns [simp]: "time_ns (time_Unix sec nsec) = sec * 10 ^ 9 + nsec"
  by (simp add: time_ns_def time_Unix_def algebra_simps)

lemma time_Unix_ok [simp]: "time_ok (time_Unix sec nsec)"
  by (simp add: time_ok_def time_Unix_def)

lemma time_Add_ns [simp]: "time_ns (time_Add t d) = time_ns t + d"
  by (simp add: time_Add_def) (simp add: time_ns_def)

lemma time_Add_ok [simp]: "time_ok (time_Add t d)"
  by (simp add: time_Add_def)

end
