(* ===== verification/Header_Types.thy ===== *)
theory Header_Types
  imports Vint Go_Std
begin

section \<open>Headers: the data both formats share (header.go)\<close>

text \<open>
  The generic block header, the archive header and the file header, \<^verbatim>\<open>Mode\<close>, the errors a
  short read is reported as, and the sanitizing of names. A Go string is its bytes. An
  \<^verbatim>\<open>int64\<close> field is an \<open>int\<close>, converted from a word with \<open>sint\<close> where the code casts.
  What a name becomes is proved exactly: the walk of its elements from a root that cannot be
  left.
\<close>

subsection \<open>Constants\<close>

definition maxHeaderSize :: nat where "maxHeaderSize = 2097151"

definition headerTypeArchive :: u64 where "headerTypeArchive = 1"
definition headerTypeFile :: u64 where "headerTypeFile = 2"
definition headerTypeService :: u64 where "headerTypeService = 3"
definition headerTypeEncryption :: u64 where "headerTypeEncryption = 4"
definition headerTypeEnd :: u64 where "headerTypeEnd = 5"

lemmas headerTypes = headerTypeArchive_def headerTypeFile_def headerTypeService_def
  headerTypeEncryption_def headerTypeEnd_def

definition headerFlagHasExtra :: u64 where "headerFlagHasExtra = 0x0001"
definition headerFlagHasData :: u64 where "headerFlagHasData = 0x0002"
definition headerFlagDataNotFirst :: u64 where "headerFlagDataNotFirst = 0x0008"
definition headerFlagDataNotLast :: u64 where "headerFlagDataNotLast = 0x0010"

lemmas headerFlags = headerFlagHasExtra_def headerFlagHasData_def headerFlagDataNotFirst_def
  headerFlagDataNotLast_def

definition dictBaseSize :: int where "dictBaseSize = 128 * 2 ^ 10"

datatype LinkType = LinkNone | LinkUnixSymlink | LinkWindowsSymlink | LinkWindowsJunction | LinkHardLink | LinkFileCopy

subsection \<open>Headers\<close>

text \<open>An extra record is its type and its data.\<close>

type_synonym extraRecord = "u64 \<times> byte list"

record blockHeader =
  bl_Type :: u64
  bl_Flags :: u64
  bl_DataSize :: int
  bl_Payload :: "byte list"
  bl_Extra :: "extraRecord list"
  bl_rar4 :: bool

record archiveHeader =
  ah_MultiVolume :: bool
  ah_Solid :: bool
  ah_VolumeNumber :: int

record FileHeader =
  fh_Name :: "byte list"
  fh_PackedSize :: int
  fh_UnpackedSize :: int
  fh_IsDir :: bool
  fh_Solid :: bool
  fh_FirstBlock :: bool
  fh_LastBlock :: bool
  fh_LinkType :: LinkType
  fh_Encrypted :: bool
  fh_UseMac :: bool
  fh_Method :: nat
  fh_UnpackVersion :: nat
  fh_DictSize :: int
  fh_CRC32 :: u32
  fh_HasCRC32 :: bool
  fh_HasBlake2sp :: bool
  fh_Blake2sp :: "byte list"
  fh_KdfCount :: nat
  fh_Salt :: "byte list"
  fh_IV :: "byte list"
  fh_EncCheck :: "byte list"
  fh_ModificationTime :: "gotime option"
  fh_HostOS :: u64
  fh_Attributes :: u64
  fh_LinkTarget :: "byte list"

text \<open>The zero value.\<close>

definition FileHeader_zero :: FileHeader where
  "FileHeader_zero =
     \<lparr>fh_Name = [], fh_PackedSize = 0, fh_UnpackedSize = 0, fh_IsDir = False, fh_Solid = False,
      fh_FirstBlock = False, fh_LastBlock = False, fh_LinkType = LinkNone, fh_Encrypted = False,
      fh_UseMac = False, fh_Method = 0, fh_UnpackVersion = 0, fh_DictSize = 0, fh_CRC32 = 0,
      fh_HasCRC32 = False, fh_HasBlake2sp = False, fh_Blake2sp = [], fh_KdfCount = 0, fh_Salt = [],
      fh_IV = [], fh_EncCheck = [], fh_ModificationTime = None, fh_HostOS = 0, fh_Attributes = 0,
      fh_LinkTarget = []\<rparr>"

text \<open>The bits of \<^verbatim>\<open>fs.FileMode\<close>; \<^verbatim>\<open>fs.ModeDir\<close> is bit 31.\<close>

definition ModeDir :: u32 where "ModeDir = 0x80000000"

definition fh_Mode :: "FileHeader \<Rightarrow> u32" where
  "fh_Mode fh =
     (let m = (if fh_IsDir fh then ModeDir else 0)
      in if fh_HostOS fh = 1 then m OR ucast (fh_Attributes fh AND 0xfff)
         else if fh_IsDir fh then m OR 0x1ed
         else if 0 < fh_Attributes fh AND 0x01 then m OR 0x124 else m OR 0x1a4)"

definition rar4FileSplitBefore :: u16 where "rar4FileSplitBefore = 0x0001"

definition continuesPrevious :: "blockHeader \<Rightarrow> bool" where
  "continuesPrevious h =
     (if bl_rar4 h then (ucast (bl_Flags h) :: u16) AND rar4FileSplitBefore \<noteq> 0
      else bl_Flags h AND headerFlagDataNotFirst \<noteq> 0)"

subsection \<open>Short reads\<close>

definition unexpectedEOF :: "err \<Rightarrow> err" where
  "unexpectedEOF e = (if err_is e EOF then ErrUnexpectedEOF else e)"

definition readHeaderStart :: "stream \<Rightarrow> nat \<Rightarrow> (err + byte list) \<times> stream" where
  "readHeaderStart s n =
     (case readFull s n of
        (got, None, s') \<Rightarrow> (Inr got, s')
      | (got, Some e, s') \<Rightarrow> (Inl (if got = [] then e else unexpectedEOF e), s'))"

lemma unexpectedEOF_not_EOF [simp]: "\<not> err_is (unexpectedEOF e) EOF"
  by (simp add: unexpectedEOF_def)

lemma unexpectedEOF_neq [simp]: "unexpectedEOF e \<noteq> EOF"
  using unexpectedEOF_not_EOF [of e] by (metis err_is_refl)

lemma readHeaderStart_ok [simp]:
  "n \<le> length (st_data s) \<Longrightarrow> readHeaderStart s n = (Inr (take n (st_data s)), s\<lparr>st_data := drop n (st_data s)\<rparr>)"
  by (simp add: readHeaderStart_def)

lemma readHeaderStart_cases:
  assumes "readHeaderStart s n = (r, s')"
  shows "st_data s' = drop n (st_data s)" and "st_end s' = st_end s"
    and "\<And>got. r = Inr got \<Longrightarrow> got = take n (st_data s) \<and> n \<le> length (st_data s)"
    and "\<And>e. r = Inl e \<Longrightarrow> length (st_data s) < n \<and> (err_is e EOF \<longrightarrow> st_data s = [] \<and> e = st_end s)"
proof -
  obtain got e s1 where rf: "readFull s n = (got, e, s1)" by (cases "readFull s n")
  note c = readFull_cases [OF rf]
  have r: "s' = s1" "r = (case e of None \<Rightarrow> Inr got | Some x \<Rightarrow> Inl (if got = [] then x else unexpectedEOF x))"
    using assms rf by (auto simp: readHeaderStart_def split: option.splits)
  show "st_data s' = drop n (st_data s)" "st_end s' = st_end s" using c r by simp_all
  show "\<And>got. r = Inr got \<Longrightarrow> got = take n (st_data s) \<and> n \<le> length (st_data s)"
    using c r by (auto split: option.splits)
  show "\<And>e. r = Inl e \<Longrightarrow> length (st_data s) < n \<and> (err_is e EOF \<longrightarrow> st_data s = [] \<and> e = st_end s)"
    using c r rf by (auto simp: readFull_def Let_def split: option.splits if_splits)
qed

subsection \<open>Names\<close>

definition sanitizePath :: "byte list \<Rightarrow> byte list" where
  "sanitizePath p =
     (let p = map (\<lambda>b. if b = 0x5c then slash else b) p;
          cleaned = path_Clean p;
          cleaned = (if path_IsAbs cleaned then tl cleaned else cleaned)
      in path_Join (filter (\<lambda>part. \<not> (part = [] \<or> part = [dot] \<or> part = [dot, dot])) (splitBy slash cleaned)))"

text \<open>The same name read as a walk: backslashes are separators, and the root's parent is the root.\<close>

definition to_slash :: "byte list \<Rightarrow> byte list" where
  "to_slash p = map (\<lambda>b. if b = 0x5c then slash else b) p"

lemma filter_real:
  assumes "\<forall>q \<in> set qs. slash \<notin> set q"
  shows "filter (\<lambda>part. \<not> (part = [] \<or> part = [dot] \<or> part = [dot, dot])) qs = filter real_part qs"
  using assms by (intro filter_cong) (simp_all add: real_part_def)

lemma filter_real_clean: "filter real_part (clean_parts rooted p) = clean_parts True p"
proof -
  note c = clean_parts_rooted [of p]
  then obtain j where j: "clean_parts False p = replicate j [dot, dot] @ clean_parts True p" by blast
  have all: "filter real_part (clean_parts True p) = clean_parts True p"
    using c by (simp add: filter_id_conv)
  have "filter real_part (replicate j [dot, dot]) = []"
    by (induction j) (simp_all add: real_part_def)
  with j all show ?thesis by (cases rooted) simp_all
qed

lemma filter_split_join:
  assumes "\<forall>q \<in> set ps. slash \<notin> set q"
  shows "filter real_part (splitBy slash (joinBy slash ps)) = filter real_part ps"
proof (cases ps)
  case Nil
  then show ?thesis by (simp add: real_part_def)
next
  case (Cons q qs)
  then show ?thesis using splitBy_joinBy [OF assms] by simp
qed

lemma clean_parts_no_slash: "\<forall>q \<in> set (clean_parts rooted p). slash \<notin> set q"
proof -
  note c = clean_parts_rooted [of p]
  then have t: "\<forall>q \<in> set (clean_parts True p). slash \<notin> set q" by (simp add: real_part_def)
  from c obtain j where "clean_parts False p = replicate j [dot, dot] @ clean_parts True p" by blast
  with t have "\<forall>q \<in> set (clean_parts False p). slash \<notin> set q" by auto
  with t show ?thesis by (cases rooted) simp_all
qed

lemma sanitizePath_walk: "sanitizePath p = joinBy slash (clean_parts True (to_slash p))"
proof -
  define r where "r = to_slash p"
  define c where "c = (if path_IsAbs (path_Clean r) then tl (path_Clean r) else path_Clean r)"
  have split: "\<forall>q \<in> set (splitBy slash c). slash \<notin> set q" using splitBy_parts [of slash c] by simp
  have "filter real_part (splitBy slash c) = clean_parts True r"
  proof (cases "path_IsAbs r")
    case True
    then have "c = joinBy slash (clean_parts True r)" by (simp add: c_def path_Clean_def path_IsAbs_def)
    then show ?thesis
      using filter_split_join [OF clean_parts_no_slash [of True r]] filter_real_clean [of True r] by simp
  next
    case False
    let ?ps = "clean_parts False r"
    show ?thesis
    proof (cases "?ps = []")
      case True
      then have "path_Clean r = [dot]" using False by (auto simp: path_Clean_def path_IsAbs_def)
      then have "c = [dot]" by (simp add: c_def path_IsAbs_def)
      moreover have "clean_parts True r = []" using filter_real_clean [of False r] True by simp
      ultimately show ?thesis by (simp add: real_part_def)
    next
      case nonempty: False
      have ne: "q \<noteq> []" if "q \<in> set ?ps" for q
      proof -
        obtain j where "?ps = replicate j [dot, dot] @ clean_parts True r"
          and "\<forall>q \<in> set (clean_parts True r). real_part q" using clean_parts_rooted [of r] by blast
        with that show ?thesis by (auto simp: real_part_def)
      qed
      obtain q qs where q1: "?ps = q # qs" using nonempty by (meson neq_Nil_conv)
      have q: "?ps = q # qs" "q \<noteq> []" using q1 ne [of q] by simp_all
      then have "slash \<notin> set q" using clean_parts_no_slash [of False r] by simp
      then have "hd q \<noteq> slash" using hd_in_set [OF q(2)] by metis
      then have hd: "hd (joinBy slash ?ps) \<noteq> slash" using joinBy_hd [OF q(2), of slash qs] q(1) by simp
      have "path_Clean r = joinBy slash ?ps" using False nonempty by (auto simp: path_Clean_def path_IsAbs_def)
      then have "c = joinBy slash ?ps" using hd by (simp add: c_def path_IsAbs_def)
      then show ?thesis
        using filter_split_join [OF clean_parts_no_slash [of False r]] filter_real_clean [of False r] by simp
    qed
  qed
  moreover have "sanitizePath p
      = path_Join (filter (\<lambda>part. \<not> (part = [] \<or> part = [dot] \<or> part = [dot, dot])) (splitBy slash c))"
    by (simp only: sanitizePath_def Let_def c_def r_def to_slash_def)
  ultimately have "sanitizePath p = path_Join (clean_parts True r)" by (simp only: filter_real [OF split])
  then show ?thesis using path_Join_real clean_parts_rooted [of r] by (simp add: r_def)
qed

lemma sanitizePath_parts:
  obtains ps where "sanitizePath p = joinBy slash ps" and "\<forall>q \<in> set ps. real_part q \<and> 0x5c \<notin> set q"
proof
  show "sanitizePath p = joinBy slash (clean_parts True (to_slash p))" by (rule sanitizePath_walk)
  have sub: "set q \<subseteq> set (to_slash p)" if "q \<in> set (clean_parts True (to_slash p))" for q
  proof -
    have "set (foldl (clean_step True) st qs) \<subseteq> set st \<union> set qs" for st qs
    proof (induction qs arbitrary: st)
      case (Cons a qs)
      have "set (tl st) \<subseteq> set st" by (cases st) auto
      then have "set (clean_step True st a) \<subseteq> insert a (set st)" by (auto simp: clean_step_def)
      with Cons [of "clean_step True st a"] show ?case by auto
    qed simp
    from this [of "[]" "splitBy slash (to_slash p)"] that have "q \<in> set (splitBy slash (to_slash p))"
      by (auto simp: clean_parts_def)
    then show ?thesis using splitBy_parts [of slash "to_slash p"] by blast
  qed
  have "0x5c \<notin> set (to_slash p)" by (auto simp: to_slash_def)
  then show "\<forall>q \<in> set (clean_parts True (to_slash p)). real_part q \<and> 0x5c \<notin> set q"
    using clean_parts_rooted [of "to_slash p"] sub by blast
qed

lemma to_slash_id: "0x5c \<notin> set p \<Longrightarrow> to_slash p = p"
  unfolding to_slash_def by (rule map_idI) auto

lemma sanitizePath_join:
  assumes "\<forall>q \<in> set ps. real_part q \<and> 0x5c \<notin> set q"
  shows "sanitizePath (joinBy slash ps) = joinBy slash ps"
proof (cases ps)
  case Nil
  then show ?thesis by (simp add: sanitizePath_walk to_slash_def clean_parts_def clean_step_def)
next
  case (Cons q qs)
  have "0x5c \<notin> set (joinBy slash ps)" using set_joinBy [of slash ps] assms by auto
  then show ?thesis using assms Cons by (simp add: sanitizePath_walk to_slash_id clean_parts_join)
qed

subsection \<open>Properties\<close>

text \<open>C35. A sanitized name is exactly the walk of the archived name from a root that cannot be left:
  with backslashes taken as separators, an empty element and \<^verbatim>\<open>.\<close> stay, \<^verbatim>\<open>..\<close> leaves the
  last element or stays at the root, and anything else is entered. Sanitizing again changes
  nothing, so a link target that is sanitized like a name can be compared with one.\<close>

theorem sanitize_exact:
  "sanitizePath p = joinBy slash (rev (foldl (clean_step True) [] (splitBy slash (to_slash p))))
   \<and> sanitizePath (sanitizePath p) = sanitizePath p"
proof
  show "sanitizePath p = joinBy slash (rev (foldl (clean_step True) [] (splitBy slash (to_slash p))))"
    by (simp add: sanitizePath_walk clean_parts_def)
  obtain ps where "sanitizePath p = joinBy slash ps" "\<forall>q \<in> set ps. real_part q \<and> 0x5c \<notin> set q"
    by (rule sanitizePath_parts)
  then show "sanitizePath (sanitizePath p) = sanitizePath p" by (simp add: sanitizePath_join)
qed

text \<open>C36. No archived name escapes: resolved against any directory, the sanitized name stays under
  it, whatever the archive wrote; it is not absolute and has no backslash left.\<close>

theorem sanitize_confined:
  "(\<exists>qs. rev (foldl (clean_step True) (rev root) (splitBy slash (sanitizePath p))) = root @ qs)
   \<and> \<not> path_IsAbs (sanitizePath p) \<and> 0x5c \<notin> set (sanitizePath p)"
proof -
  obtain ps where ps: "sanitizePath p = joinBy slash ps" "\<forall>q \<in> set ps. real_part q \<and> 0x5c \<notin> set q"
    by (rule sanitizePath_parts)
  have bs: "0x5c \<notin> set (sanitizePath p)" using set_joinBy [of slash ps] ps by auto
  show ?thesis
  proof (cases ps)
    case Nil
    then show ?thesis using ps by (simp add: path_IsAbs_def clean_step_def)
  next
    case (Cons q qs)
    then have q: "q \<noteq> []" "slash \<notin> set q" using ps(2) by (simp_all add: real_part_def)
    then have "hd q \<noteq> slash" using hd_in_set [OF q(1)] by metis
    then have "\<not> path_IsAbs (sanitizePath p)"
      using joinBy_hd [OF q(1), of slash qs] ps(1) Cons by (simp add: path_IsAbs_def)
    moreover have "splitBy slash (sanitizePath p) = ps"
      using splitBy_joinBy [of ps slash] ps Cons by (simp add: real_part_def)
    ultimately show ?thesis using bs foldl_clean_real [of ps True "rev root"] ps(2) by simp
  qed
qed

end
