(* ===== verification/Header4.thy ===== *)
theory Header4
  imports Header_Types Interfaces
begin

section \<open>RAR 1.5-4.x headers (header4.go)\<close>

text \<open>
  Reading a block header of the old format into the shape the traversal uses, the main, end
  and file headers, names with their compressed UTF-16, DOS times with the extended field,
  and symlink targets. \<open>date\<close> stands for \<^verbatim>\<open>time.Date\<close> in the machine's zone: year,
  month, day, hour, minute, second.
\<close>

type_synonym localDate = "nat \<Rightarrow> nat \<Rightarrow> nat \<Rightarrow> nat \<Rightarrow> nat \<Rightarrow> nat \<Rightarrow> gotime"

subsection \<open>Constants\<close>

definition rar4BlockMain :: byte where "rar4BlockMain = 0x73"
definition rar4BlockFile :: byte where "rar4BlockFile = 0x74"
definition rar4BlockService :: byte where "rar4BlockService = 0x7a"
definition rar4BlockEnd :: byte where "rar4BlockEnd = 0x7b"

lemmas rar4Blocks = rar4BlockMain_def rar4BlockFile_def rar4BlockService_def rar4BlockEnd_def

definition rar4LongBlock :: u16 where "rar4LongBlock = 0x8000"
definition rar4MainVolume :: u64 where "rar4MainVolume = 0x0001"
definition rar4MainComment :: u16 where "rar4MainComment = 0x0002"
definition rar4MainSolid :: u64 where "rar4MainSolid = 0x0008"
definition rar4MainPassword :: u64 where "rar4MainPassword = 0x0080"
definition rar4FileSplitAfter :: u16 where "rar4FileSplitAfter = 0x0002"
definition rar4FilePassword :: u16 where "rar4FilePassword = 0x0004"
definition rar4FileComment :: u16 where "rar4FileComment = 0x0008"
definition rar4FileSolid :: u16 where "rar4FileSolid = 0x0010"
definition rar4FileWindowMask :: u16 where "rar4FileWindowMask = 0x00e0"
definition rar4FileDirectory :: u16 where "rar4FileDirectory = 0x00e0"
definition rar4FileLarge :: u16 where "rar4FileLarge = 0x0100"
definition rar4FileUnicode :: u16 where "rar4FileUnicode = 0x0200"
definition rar4FileSalt :: u16 where "rar4FileSalt = 0x0400"
definition rar4FileExtTime :: u16 where "rar4FileExtTime = 0x1000"
definition rar4EndDataCRC :: u16 where "rar4EndDataCRC = 0x0002"
definition rar4EndVolNumber :: u16 where "rar4EndVolNumber = 0x0008"
definition rar4LargeEnd :: nat where "rar4LargeEnd = 25 + 8"
definition maxLinkTarget4 :: int where "maxLinkTarget4 = 4096"

subsection \<open>Block headers\<close>

text \<open>The two halves of a 64-bit count, as the code's \<^verbatim>\<open>int64\<close>.\<close>

definition join64 :: "u32 \<Rightarrow> u32 \<Rightarrow> int" where
  "join64 low high = sint (ucast low OR push_bit 32 (ucast high) :: u64)"

definition dataSize4 :: "byte \<Rightarrow> u16 \<Rightarrow> byte list \<Rightarrow> err + int" where
  "dataSize4 typ flags body =
     (if typ = rar4BlockFile \<or> typ = rar4BlockService
      then if length body < 4 then Inl ErrCorruptBlockHeader
           else if flags AND rar4FileLarge \<noteq> 0
           then if length body < rar4LargeEnd then Inl ErrCorruptBlockHeader
                else Inr (join64 (le32 body) (le32 (drop 25 body)))
           else Inr (join64 (le32 body) 0)
      else if flags AND rar4LongBlock \<noteq> 0
      then if length body < 4 then Inl ErrCorruptBlockHeader else Inr (int (unat (le32 body)))
      else Inr 0)"

definition blockType4 :: "byte \<Rightarrow> u64" where
  "blockType4 typ =
     (if typ = rar4BlockMain then headerTypeArchive
      else if typ = rar4BlockFile then headerTypeFile
      else if typ = rar4BlockService then headerTypeService
      else if typ = rar4BlockEnd then headerTypeEnd
      else 0x100 OR ucast typ)"

definition readBlockHeader4 :: "stream \<Rightarrow> (err + blockHeader) \<times> stream" where
  "readBlockHeader4 s =
     (case readHeaderStart s 7 of
        (Inl e, s1) \<Rightarrow> (Inl e, s1)
      | (Inr base, s1) \<Rightarrow>
          let crc = le16 base; typ = base ! 2; flags = le16 (drop 3 base);
              size = unat (le16 (drop 5 base))
          in if size < 7 then (Inl ErrCorruptBlockHeader, s1)
             else if 0x75 \<le> typ \<and> typ \<le> 0x79 then (Inl (Wrap [ErrUnsupportedFormat]), s1)
             else if (typ = rar4BlockMain \<and> flags AND rar4MainComment \<noteq> 0)
               \<or> (typ = rar4BlockFile \<and> flags AND rar4FileComment \<noteq> 0)
             then (Inl (Wrap [ErrUnsupportedFormat]), s1)
             else case readFull s1 (size - 7) of
               (_, Some e, s2) \<Rightarrow> (Inl (unexpectedEOF e), s2)
             | (body, None, s2) \<Rightarrow>
                 if crc \<noteq> ucast (crc32_ieee (drop 2 base @ body)) then (Inl ErrBadHeaderCRC, s2)
                 else (err_bind (dataSize4 typ flags body) (\<lambda>n.
                         if n < 0 then Inl ErrCorruptBlockHeader
                         else Inr \<lparr>bl_Type = blockType4 typ, bl_Flags = ucast flags, bl_DataSize = n,
                                   bl_Payload = body, bl_Extra = [], bl_rar4 = True\<rparr>), s2))"

definition parseArchiveHeader4 :: "blockHeader \<Rightarrow> err + archiveHeader" where
  "parseArchiveHeader4 h =
     (if bl_Type h \<noteq> headerTypeArchive then Inl ErrBadBlockHeader
      else if bl_Flags h AND rar4MainPassword \<noteq> 0 then Inl (Wrap [ErrUnsupportedFormat])
      else Inr \<lparr>ah_MultiVolume = (bl_Flags h AND rar4MainVolume \<noteq> 0),
                ah_Solid = (bl_Flags h AND rar4MainSolid \<noteq> 0), ah_VolumeNumber = -1\<rparr>)"

definition endVolumeNumber4 :: "blockHeader \<Rightarrow> int" where
  "endVolumeNumber4 h =
     (let flags = ucast (bl_Flags h) :: u16
      in if flags AND rar4EndVolNumber = 0 then -1
         else let off = (if flags AND rar4EndDataCRC \<noteq> 0 then 4 else 0)
              in if length (bl_Payload h) < off + 2 then -1
                 else int (unat (le16 (drop off (bl_Payload h)))))"

subsection \<open>Names\<close>

text \<open>
  \<^verbatim>\<open>decodeEncName4\<close>: \<open>copy_run\<close> is one of its two copying loops (\<open>f\<close> what it does to the
  byte). A symbol cut short leaves the switch only: the flag bits move on and the loop's own
  condition decides, so the same bytes may be read again under the next bits.
\<close>

fun copy_run :: "byte list \<Rightarrow> (byte \<Rightarrow> u16) \<Rightarrow> nat \<Rightarrow> u16 list \<Rightarrow> u16 list" where
  "copy_run name f 0 out = out"
| "copy_run name f (Suc n) out =
     (if length out < length name then copy_run name f n (out @ [f (name ! length out)]) else out)"

definition enc_step :: "byte list \<Rightarrow> byte list \<Rightarrow> u16 \<Rightarrow> byte \<Rightarrow> nat \<Rightarrow> u16 list \<Rightarrow> u16 list \<times> nat" where
  "enc_step name enc high op pos out =
     (if op = 0
      then if length enc \<le> pos then (out, pos) else (out @ [ucast (enc ! pos)], pos + 1)
      else if op = 1
      then if length enc \<le> pos then (out, pos) else (out @ [ucast (enc ! pos) OR push_bit 8 high], pos + 1)
      else if op = 2
      then if length enc \<le> pos + 1 then (out, pos)
           else (out @ [ucast (enc ! pos) OR push_bit 8 (ucast (enc ! (pos + 1)))], pos + 2)
      else if length enc \<le> pos then (out, pos)
      else let len = enc ! pos
           in if len AND 0x80 \<noteq> 0
              then if length enc \<le> pos + 1 then (out, pos + 1)
                   else let corr = enc ! (pos + 1)
                        in (copy_run name (\<lambda>b. ucast (b + corr) OR push_bit 8 high)
                              (unat (len AND 0x7f) + 2) out, pos + 2)
              else (copy_run name ucast (unat len + 2) out, pos + 1))"

lemma enc_step_pos: "enc_step name enc high op pos out = (out', pos') \<Longrightarrow> pos \<le> pos'"
  by (auto simp: enc_step_def Let_def split: if_splits)

function enc_loop :: "byte list \<Rightarrow> byte list \<Rightarrow> u16 \<Rightarrow> nat \<Rightarrow> byte \<Rightarrow> nat \<Rightarrow> u16 list \<Rightarrow> u16 list" where
  "enc_loop name enc high pos flags bits out =
     (if pos < length enc
      then let flags1 = (if bits = 0 then enc ! pos else flags);
               pos1 = (if bits = 0 then pos + 1 else pos);
               bits1 = (if bits = 0 then 8 else bits)
           in case enc_step name enc high (drop_bit 6 flags1) pos1 out of
                (out', pos') \<Rightarrow> enc_loop name enc high pos' (push_bit 2 flags1) (bits1 - 2) out'
      else out)"
  by pat_completeness auto
termination
  by (relation "measure (\<lambda>(name, enc, high, pos, flags, bits, out). 9 * (length enc - pos) + bits)")
    (auto dest!: enc_step_pos [OF sym] split: if_splits)

declare enc_loop.simps [simp del]

definition decodeEncName4 :: "byte list \<Rightarrow> byte list \<Rightarrow> u16 list" where
  "decodeEncName4 name enc = (if enc = [] then [] else enc_loop name enc (ucast (enc ! 0)) 1 0 0 [])"

text \<open>A symbol cut short does not end the name: its first byte is read again under the next flags.\<close>

lemma decodeEncName4_cut: "decodeEncName4 name [0, 0x80, 65] = [65]"
proof -
  have flags: "drop_bit 6 (0x80 :: byte) = 2" "(512 :: byte) = 0" by simp_all
  have again: "enc_loop name [0, 0x80, 65] 0 (Suc (Suc 0)) 0 6 [] = [65]"
    by (subst enc_loop.simps) (simp add: enc_step_def, subst enc_loop.simps, simp)
  show ?thesis
    by (simp add: decodeEncName4_def, subst enc_loop.simps) (simp add: enc_step_def flags again)
qed

definition decodeName4 :: "u16 \<Rightarrow> byte list \<Rightarrow> byte list" where
  "decodeName4 flags raw =
     (let s = (if flags AND rar4FileUnicode \<noteq> 0
               then if 0 \<notin> set raw then raw
                    else let before = takeWhile (\<lambda>b. b \<noteq> 0) raw;
                             after = tl (dropWhile (\<lambda>b. b \<noteq> 0) raw);
                             w = decodeEncName4 raw after
                         in if w \<noteq> [] then concat (map utf8_encode (utf16_Decode w)) else before
               else raw)
      in sanitizePath (toValidUTF8 False s))"

subsection \<open>File headers\<close>

definition hostOS4 :: "byte \<Rightarrow> u64" where
  "hostOS4 b = (if b = 3 \<or> b = 5 then 1 else 0)"

definition dosTime :: "localDate \<Rightarrow> u32 \<Rightarrow> gotime" where
  "dosTime date v =
     date (unat (drop_bit 25 v) + 1980) (unat (drop_bit 21 v AND 0xf)) (unat (drop_bit 16 v AND 0x1f))
       (unat (drop_bit 11 v AND 0x1f)) (unat (drop_bit 5 v AND 0x3f)) (unat (v AND 0x1f) * 2)"

text \<open>The remainder bytes, most significant last.\<close>

definition extRem4 :: "nat \<Rightarrow> byte list \<Rightarrow> u32" where
  "extRem4 n tail = foldl (\<lambda>rem j. rem OR push_bit ((j + 3 - n) * 8) (ucast (tail ! (2 + j)))) 0 [0..<n]"

definition extMtime4 :: "gotime \<Rightarrow> byte list \<Rightarrow> err + gotime" where
  "extMtime4 t tail =
     (if length tail < 2 then Inl (Other ''extended time cut short'')
      else let mode = drop_bit 12 (le16 tail)
           in if mode AND 8 = 0 then Inr t
              else let t = (if mode AND 4 \<noteq> 0 then time_Add t (10 ^ 9) else t);
                       n = unat (mode AND 3)
                   in if length tail < 2 + n then Inl (Other ''extended time cut short'')
                      else Inr (time_Add t (int (unat (extRem4 n tail)) * 100)))"

definition unpSizeUnknown4 :: "u16 \<Rightarrow> u32 \<Rightarrow> u32 \<Rightarrow> bool" where
  "unpSizeUnknown4 flags low high \<longleftrightarrow>
     low = 0xffffffff \<and> (flags AND rar4FileLarge = 0 \<or> high = 0xffffffff)"

text \<open>The header before the checks that report it with an error.\<close>

definition fileHeader4 :: "blockHeader \<Rightarrow> nat \<Rightarrow> FileHeader" where
  "fileHeader4 h fixed =
     (let flags = ucast (bl_Flags h) :: u16; body = bl_Payload h;
          nameLen = unat (le16 (drop 19 body));
          unpHigh = (if flags AND rar4FileLarge \<noteq> 0 then le32 (drop 29 body) else 0);
          attr = le32 (drop 21 body); ver = body ! 17;
          raw = take nameLen (drop fixed body)
      in FileHeader_zero
           \<lparr>fh_PackedSize := bl_DataSize h,
            fh_UnpackedSize := join64 (le32 (drop 4 body)) unpHigh,
            fh_IsDir := (flags AND rar4FileWindowMask = rar4FileDirectory \<or> (ver < 20 \<and> attr AND 0x10 \<noteq> 0)),
            fh_Solid := (flags AND rar4FileSolid \<noteq> 0),
            fh_FirstBlock := (\<not> continuesPrevious h),
            fh_LastBlock := (flags AND rar4FileSplitAfter = 0),
            fh_Encrypted := (flags AND rar4FilePassword \<noteq> 0),
            fh_UnpackVersion := unat ver,
            fh_CRC32 := le32 (drop 9 body), fh_HasCRC32 := True,
            fh_HostOS := hostOS4 (body ! 8), fh_Attributes := ucast attr,
            fh_Name := (if bl_Type h = headerTypeService then sanitizePath (toValidUTF8 False raw)
                        else decodeName4 flags raw)\<rparr>)"

text \<open>The salt and the extended time behind the name.\<close>

definition fileTail4 :: "u16 \<Rightarrow> byte list \<Rightarrow> FileHeader \<Rightarrow> FileHeader option \<times> err option" where
  "fileTail4 flags tail fh =
     (if flags AND rar4FileSalt \<noteq> 0 \<and> length tail < 8 then (Some fh, Some (Wrap [ErrCorruptFileHeader]))
      else let tail = (if flags AND rar4FileSalt \<noteq> 0 then drop 8 tail else tail)
           in if flags AND rar4FileExtTime \<noteq> 0
              then case extMtime4 (the (fh_ModificationTime fh)) tail of
                     Inl e \<Rightarrow> (Some fh, Some (Wrap [ErrCorruptFileHeader]))
                   | Inr t \<Rightarrow> (Some (fh\<lparr>fh_ModificationTime := Some t\<rparr>), None)
              else (Some fh, None))"

definition parseFileHeader4 :: "localDate \<Rightarrow> blockHeader \<Rightarrow> FileHeader option \<times> err option" where
  "parseFileHeader4 date h =
     (if bl_Type h \<noteq> headerTypeFile \<and> bl_Type h \<noteq> headerTypeService then (None, Some ErrBadBlockHeader)
      else let flags = ucast (bl_Flags h) :: u16; body = bl_Payload h;
               fixed = (if flags AND rar4FileLarge \<noteq> 0 then rar4LargeEnd else 25)
           in if length body < fixed then (None, Some ErrCorruptFileHeader)
              else let nameLen = unat (le16 (drop 19 body))
              in if length body < fixed + nameLen then (None, Some ErrCorruptFileHeader)
              else let fh = fileHeader4 h fixed; method = body ! 18;
                       unpHigh = (if flags AND rar4FileLarge \<noteq> 0 then le32 (drop 29 body) else 0)
              in if unpSizeUnknown4 flags (le32 (drop 4 body)) unpHigh then (Some fh, Some ErrUnpSizeUnknown)
                 else if fh_UnpackedSize fh < 0 then (Some fh, Some ErrCorruptFileHeader)
                 else if method < 0x30 \<or> 0x35 < method then (Some fh, Some (Wrap [ErrCorruptFileHeader]))
                 else let fh = fh\<lparr>fh_Method := unat (method - 0x30),
                                  fh_ModificationTime := Some (dosTime date (le32 (drop 13 body)))\<rparr>
                 in if bl_Type h = headerTypeService then (Some fh, None)
                    else fileTail4 flags (drop (fixed + nameLen) body) fh)"

subsection \<open>Symlinks\<close>

definition isSymlink4 :: "FileHeader \<Rightarrow> bool" where
  "isSymlink4 fh \<longleftrightarrow> fh_HostOS fh = 1 \<and> fh_Attributes fh AND 0xf000 = 0xa000"

text \<open>\<open>rf\<close> is \<^verbatim>\<open>io.ReadFull\<close> on the member's payload.\<close>

definition readLinkTarget4 ::
  "'s full_reading \<Rightarrow> FileHeader \<Rightarrow> 's \<Rightarrow> (err option \<times> FileHeader \<times> 's) option" where
  "readLinkTarget4 rf fh s =
     (if \<not> fh_FirstBlock fh \<or> \<not> fh_LastBlock fh then Some (Some (Wrap [ErrCorruptFileHeader]), fh, s)
      else if fh_PackedSize fh \<noteq> fh_UnpackedSize fh \<or> fh_PackedSize fh \<le> 0 \<or> maxLinkTarget4 < fh_PackedSize fh
      then Some (Some (Wrap [ErrCorruptFileHeader]), fh, s)
      else Option.bind (rf s (nat (fh_PackedSize fh))) (\<lambda>(target, e, s'). Some (case e of
        Some e \<Rightarrow> (Some (Wrap [ErrTruncatedFile]), fh, s')
      | None \<Rightarrow>
          if crc32_ieee target \<noteq> fh_CRC32 fh then (Some (Wrap [ErrCRCMismatch]), fh, s')
          else if 0 \<in> set target then (Some (Wrap [ErrCorruptFileHeader]), fh, s')
          else (None, fh\<lparr>fh_LinkType := LinkUnixSymlink, fh_LinkTarget := target\<rparr>, s'))))"

end
