(* ===== verification/Header.thy ===== *)
theory Header
  imports Header4
begin

section \<open>RAR5 headers (header.go)\<close>

text \<open>
  Reading a block header and parsing the archive and file headers and the extra records of a
  file header. A length a header declares stays the word it was decoded as until it has been
  compared with what is there, as in the code. \<open>with_vint\<close> is the parsers' idiom: decode an
  integer, fail, or go on behind it.
\<close>

definition with_vint :: "byte list \<Rightarrow> (u64 \<Rightarrow> byte list \<Rightarrow> err + 'a) \<Rightarrow> err + 'a" where
  "with_vint b f = err_bind (decodeVint b) (\<lambda>(v, n). f v (drop n b))"

subsection \<open>Block headers\<close>

text \<open>The loop over the extra area.\<close>

function extra_loop :: "byte list \<Rightarrow> err + extraRecord list" where
  "extra_loop b =
     (if b = [] then Inr []
      else case decodeVint b of
        Inl e \<Rightarrow> Inl e
      | Inr (sz, n) \<Rightarrow>
          if length b - n < unat sz then Inl ErrCorruptBlockHeader
          else with_vint (take (unat sz) (drop n b)) (\<lambda>fType dat.
                 err_bind (extra_loop (drop (n + unat sz) b)) (\<lambda>rs. Inr ((fType, dat) # rs))))"
  by pat_completeness auto
termination
  by (relation "measure length") (auto dest: decodeVint_bounds)

declare extra_loop.simps [simp del]

definition parseBlockHeaderFields :: "byte list \<Rightarrow> nat \<Rightarrow> err + blockHeader" where
  "parseBlockHeaderFields buf n =
     with_vint (drop n buf) (\<lambda>hType payload.
     with_vint payload (\<lambda>flags payload.
     err_bind (if 0 < flags AND headerFlagHasExtra then with_vint payload (\<lambda>v p. Inr (v, p))
               else Inr (0, payload)) (\<lambda>(extraSize, payload).
     err_bind (if 0 < flags AND headerFlagHasData
               then with_vint payload (\<lambda>v p. if sint v < 0 then Inl ErrCorruptBlockHeader else Inr (sint v, p))
               else Inr (0, payload)) (\<lambda>(dataSize, payload).
     if length payload < unat extraSize then Inl ErrCorruptBlockHeader
     else let k = length payload - unat extraSize
          in err_bind (extra_loop (drop k payload)) (\<lambda>extra.
               Inr \<lparr>bl_Type = hType, bl_Flags = flags, bl_DataSize = dataSize,
                    bl_Payload = take k payload, bl_Extra = extra, bl_rar4 = False\<rparr>)))))"

definition readBlockHeader :: "stream \<Rightarrow> (err + blockHeader) \<times> stream" where
  "readBlockHeader s =
     (case readHeaderStart s 7 of
        (Inl e, s1) \<Rightarrow> (Inl e, s1)
      | (Inr sizeBuf, s1) \<Rightarrow>
          let crc = le32 sizeBuf
          in case decodeVint (drop 4 sizeBuf) of
               Inl e \<Rightarrow> (Inl e, s1)
             | Inr (sizeV, n) \<Rightarrow>
                 if maxHeaderSize < unat sizeV then (Inl ErrBadBlockHeader, s1)
                 else let bufSize = unat sizeV + n
                      in case readFull s1 (bufSize - 3) of
                           (_, Some e, s2) \<Rightarrow> (Inl (unexpectedEOF e), s2)
                         | (rest, None, s2) \<Rightarrow>
                             let buf = take bufSize (drop 4 sizeBuf) @ rest
                             in if crc \<noteq> crc32_ieee buf then (Inl ErrBadHeaderCRC, s2)
                                else (parseBlockHeaderFields buf n, s2))"

subsection \<open>The archive header\<close>

definition arcFlagMultiVol :: u64 where "arcFlagMultiVol = 0x0001"
definition arcFlagVolNum :: u64 where "arcFlagVolNum = 0x0002"
definition arcFlagSolid :: u64 where "arcFlagSolid = 0x0004"
definition maxInt :: nat where "maxInt = 2 ^ 63 - 1"

definition parseArchiveHeader :: "blockHeader \<Rightarrow> err + archiveHeader" where
  "parseArchiveHeader h =
     (if bl_rar4 h then parseArchiveHeader4 h
      else if bl_Type h \<noteq> headerTypeArchive then Inl ErrBadBlockHeader
      else with_vint (bl_Payload h) (\<lambda>flags payload.
             let ah = \<lparr>ah_MultiVolume = (0 < flags AND arcFlagMultiVol),
                       ah_Solid = (0 < flags AND arcFlagSolid), ah_VolumeNumber = -1\<rparr>
             in if 0 < flags AND arcFlagVolNum
                then with_vint payload (\<lambda>volNum _.
                       if maxInt < unat volNum then Inl (Wrap [ErrCorruptBlockHeader])
                       else Inr (ah\<lparr>ah_VolumeNumber := int (unat volNum)\<rparr>))
                else Inr ah))"

subsection \<open>Extra records\<close>

text \<open>
  A record's parser works on the header in place, so it returns the header also when it fails.
\<close>

definition parseEncryptionRecord :: "FileHeader \<Rightarrow> byte list \<Rightarrow> err option \<times> FileHeader" where
  "parseEncryptionRecord fh b =
     (let fh = fh\<lparr>fh_Encrypted := True\<rparr>
      in case decodeVint b of
           Inl e \<Rightarrow> (Some e, fh)
         | Inr (ver, nVer) \<Rightarrow>
             if ver \<noteq> 0 then (Some ErrUnknownEncryptMethod, fh)
             else case decodeVint (drop nVer b) of
               Inl e \<Rightarrow> (Some e, fh)
             | Inr (encFlags, nEnc) \<Rightarrow>
                 let b = drop (nVer + nEnc) b
                 in if length b < 33 then (Some ErrCorruptEncryptData, fh)
                    else let fh = fh\<lparr>fh_KdfCount := unat (b ! 0), fh_Salt := take 16 (drop 1 b),
                                     fh_IV := take 16 (drop 17 b)\<rparr>;
                             b = drop 33 b
                         in if 0 < encFlags AND 0x0001 \<and> length b < 12 then (Some ErrCorruptEncryptData, fh)
                            else let fh = (if 0 < encFlags AND 0x0001 then fh\<lparr>fh_EncCheck := take 12 b\<rparr> else fh)
                                 in (None, fh\<lparr>fh_UseMac := (0 < encFlags AND 0x0002)\<rparr>))"

definition parseHashRecord :: "FileHeader \<Rightarrow> byte list \<Rightarrow> err option \<times> FileHeader" where
  "parseHashRecord fh b =
     (case decodeVint b of
        Inl e \<Rightarrow> (Some e, fh)
      | Inr (hashType, n) \<Rightarrow>
          if hashType = 0 \<and> 32 \<le> length (drop n b)
          then (None, fh\<lparr>fh_HasBlake2sp := True, fh_Blake2sp := take 32 (drop n b)\<rparr>)
          else (None, fh))"

definition onesCount64 :: "u64 \<Rightarrow> nat" where
  "onesCount64 w = length (filter (bit w) [0..<64])"

definition extraTimeUnix :: u64 where "extraTimeUnix = 0x0001"
definition extraTimeMtime :: u64 where "extraTimeMtime = 0x0002"
definition extraTimeCtime :: u64 where "extraTimeCtime = 0x0004"
definition extraTimeAtime :: u64 where "extraTimeAtime = 0x0008"
definition extraTimeUnixNS :: u64 where "extraTimeUnixNS = 0x0010"
definition filetimeEpochOffset :: u64 where "filetimeEpochOffset = 116444736000000000"

definition parseTimeRecord :: "FileHeader \<Rightarrow> byte list \<Rightarrow> err option \<times> FileHeader" where
  "parseTimeRecord fh dat =
     (case decodeVint dat of
        Inl e \<Rightarrow> (Some ErrCorruptFileHeader, fh)
      | Inr (flags, n) \<Rightarrow>
          let dat = drop n dat;
              unix = (flags AND extraTimeUnix \<noteq> 0);
              present = onesCount64 (flags AND (extraTimeMtime OR extraTimeCtime OR extraTimeAtime));
              need = (if unix then 4 * present + (if flags AND extraTimeUnixNS \<noteq> 0 then 4 * present else 0)
                      else 8 * present)
          in if length dat < need then (Some ErrCorruptFileHeader, fh)
             else if flags AND extraTimeMtime = 0 then (None, fh)
             else if \<not> unix
             then let ticks = sint (le64 dat - filetimeEpochOffset)
                  in (None, fh\<lparr>fh_ModificationTime := Some (time_Unix (ticks sdiv 10 ^ 7) ((ticks smod 10 ^ 7) * 100))\<rparr>)
             else let sec = int (unat (le32 dat));
                      ns = int (unat (le32 (drop (4 * present) dat)));
                      nsec = (if flags AND extraTimeUnixNS \<noteq> 0 \<and> ns < 10 ^ 9 then ns else 0)
                  in (None, fh\<lparr>fh_ModificationTime := Some (time_Unix sec nsec)\<rparr>))"

definition linkType_of :: "u64 \<Rightarrow> LinkType" where
  "linkType_of kind =
     (if kind = 1 then LinkUnixSymlink else if kind = 2 then LinkWindowsSymlink
      else if kind = 3 then LinkWindowsJunction else if kind = 4 then LinkHardLink
      else if kind = 5 then LinkFileCopy else LinkNone)"

text \<open>What is recorded of a target of the given kind.\<close>

definition redirectionTarget :: "u64 \<Rightarrow> byte list \<Rightarrow> err + byte list" where
  "redirectionTarget kind target =
     (if target = [] \<or> 0 \<in> set target then Inl (Wrap [ErrCorruptFileHeader])
      else if kind = 4 \<or> kind = 5
      then let name = sanitizePath target
           in if name = [] then Inl (Wrap [ErrCorruptFileHeader]) else Inr name
      else Inr target)"

definition redirectionFields :: "byte list \<Rightarrow> err + (u64 \<times> byte list)" where
  "redirectionFields b =
     (case decodeVint b of
        Inl e \<Rightarrow> Inl (Wrap [ErrCorruptFileHeader, e])
      | Inr (kind, n) \<Rightarrow>
          if kind < 1 \<or> 5 < kind then Inl (Wrap [ErrUnsupportedFormat])
          else case decodeVint (drop n b) of
            Inl e \<Rightarrow> Inl (Wrap [ErrCorruptFileHeader, e])
          | Inr (_, n2) \<Rightarrow>
              case decodeVint (drop (n + n2) b) of
                Inl e \<Rightarrow> Inl (Wrap [ErrCorruptFileHeader, e])
              | Inr (nameLen, n3) \<Rightarrow>
                  let b = drop (n + n2 + n3) b
                  in if length b < unat nameLen then Inl (Wrap [ErrCorruptFileHeader])
                     else Inr (kind, take (unat nameLen) b))"

definition parseRedirectionRecord :: "FileHeader \<Rightarrow> byte list \<Rightarrow> err option \<times> FileHeader" where
  "parseRedirectionRecord fh b =
     (case redirectionFields b of
        Inl e \<Rightarrow> (Some e, fh)
      | Inr (kind, target) \<Rightarrow>
          case redirectionTarget kind target of
            Inl e \<Rightarrow> (Some e, fh)
          | Inr name \<Rightarrow> (None, fh\<lparr>fh_LinkType := linkType_of kind, fh_LinkTarget := name\<rparr>))"

definition parseRecord :: "FileHeader \<Rightarrow> u64 \<Rightarrow> byte list \<Rightarrow> err option \<times> FileHeader" where
  "parseRecord fh t dat =
     (if t = 1 then parseEncryptionRecord fh dat
      else if t = 2 then parseHashRecord fh dat
      else if t = 3 then parseTimeRecord fh dat
      else parseRedirectionRecord fh dat)"

definition parsedType :: "u64 \<Rightarrow> bool" where
  "parsedType t \<longleftrightarrow> \<not> (t < 1 \<or> 5 < t \<or> t = 4)"

fun extra_records :: "FileHeader \<Rightarrow> extraRecord list \<Rightarrow> u64 set \<Rightarrow> err option \<Rightarrow> err option \<times> FileHeader" where
  "extra_records fh [] seen first = (first, fh)"
| "extra_records fh ((t, dat) # es) seen first =
     (if \<not> parsedType t then extra_records fh es seen first
      else if t \<in> seen
      then extra_records fh es seen (if first = None then Some (Wrap [ErrCorruptFileHeader]) else first)
      else case parseRecord fh t dat of
             (e, fh') \<Rightarrow> extra_records fh' es (insert t seen) (if first = None then e else first))"

definition parseExtraRecords :: "FileHeader \<Rightarrow> extraRecord list \<Rightarrow> err option \<times> FileHeader" where
  "parseExtraRecords fh extra = extra_records fh extra {} None"

subsection \<open>File headers\<close>

definition fileFlagIsDir :: u64 where "fileFlagIsDir = 0x0001"
definition fileFlagHasUnixMtime :: u64 where "fileFlagHasUnixMtime = 0x0002"
definition fileFlagHasCRC32 :: u64 where "fileFlagHasCRC32 = 0x0004"
definition fileFlagUnpSizeUnknown :: u64 where "fileFlagUnpSizeUnknown = 0x0008"
definition fileCompVersion :: u64 where "fileCompVersion = 0x3f"
definition fileCompSolid :: u64 where "fileCompSolid = 0x40"

text \<open>The header of the decoded fields, and decoding them up to the name; the flags come along.\<close>

definition buildFile ::
  "blockHeader \<Rightarrow> u64 \<Rightarrow> u64 \<Rightarrow> u64 \<Rightarrow> gotime option \<Rightarrow> u32 option \<Rightarrow> u64 \<Rightarrow> u64 \<Rightarrow> byte list \<Rightarrow> FileHeader" where
  "buildFile h flags unpackedSize attrs mtime crc compFlags hostOS name =
     (let ver = unat (compFlags AND fileCompVersion)
      in FileHeader_zero
           \<lparr>fh_IsDir := (0 < flags AND fileFlagIsDir),
            fh_FirstBlock := (\<not> continuesPrevious h),
            fh_LastBlock := (bl_Flags h AND headerFlagDataNotLast = 0),
            fh_PackedSize := bl_DataSize h,
            fh_UnpackedSize := sint unpackedSize, fh_Attributes := attrs,
            fh_ModificationTime := mtime,
            fh_CRC32 := (case crc of Some c \<Rightarrow> c | None \<Rightarrow> 0), fh_HasCRC32 := (crc \<noteq> None),
            fh_UnpackVersion := ver,
            fh_DictSize := (if ver = 0 then dictBaseSize * 2 ^ unat (drop_bit 10 compFlags AND 0xf) else 0),
            fh_Solid := (0 < compFlags AND fileCompSolid),
            fh_Method := unat (drop_bit 7 compFlags AND 7),
            fh_HostOS := hostOS,
            fh_Name := sanitizePath name\<rparr>)"

definition fileFields :: "blockHeader \<Rightarrow> err + (u64 \<times> FileHeader)" where
  "fileFields h =
     with_vint (bl_Payload h) (\<lambda>flags payload.
     with_vint payload (\<lambda>unpackedSize payload.
     with_vint payload (\<lambda>attrs payload.
     err_bind (if 0 < flags AND fileFlagHasUnixMtime
               then if length payload < 4 then Inl ErrCorruptFileHeader
                    else Inr (Some (time_Unix (int (unat (le32 payload))) 0), drop 4 payload)
               else Inr (None, payload)) (\<lambda>(mtime, payload).
     err_bind (if 0 < flags AND fileFlagHasCRC32
               then if length payload < 4 then Inl ErrCorruptFileHeader
                    else Inr (Some (le32 payload), drop 4 payload)
               else Inr (None, payload)) (\<lambda>(crc, payload).
     with_vint payload (\<lambda>compFlags payload.
     with_vint payload (\<lambda>hostOS payload.
     with_vint payload (\<lambda>nameLen payload.
     if length payload < unat nameLen then Inl ErrCorruptFileHeader
     else Inr (flags, buildFile h flags unpackedSize attrs mtime crc compFlags hostOS (take (unat nameLen) payload))))))))))"

definition parseFileHeader :: "localDate \<Rightarrow> blockHeader \<Rightarrow> FileHeader option \<times> err option" where
  "parseFileHeader date h =
     (if bl_rar4 h then parseFileHeader4 date h
      else if bl_Type h \<noteq> headerTypeFile \<and> bl_Type h \<noteq> headerTypeService then (None, Some ErrBadBlockHeader)
      else case fileFields h of
        Inl e \<Rightarrow> (None, Some e)
      | Inr (flags, fh) \<Rightarrow>
          case parseExtraRecords fh (bl_Extra h) of
            (extraErr, fh) \<Rightarrow>
              (Some fh,
               if 0 < flags AND fileFlagUnpSizeUnknown then Some ErrUnpSizeUnknown
               else if fh_UnpackedSize fh < 0 then Some ErrCorruptFileHeader
               else if extraErr \<noteq> None then extraErr
               else if fh_LinkType fh \<noteq> LinkNone
                 \<and> (\<not> fh_FirstBlock fh \<or> fh_PackedSize fh \<noteq> 0 \<or> \<not> fh_LastBlock fh)
               then Some (Wrap [ErrCorruptFileHeader])
               else None))"

subsection \<open>Reading integers\<close>

lemma with_vint_encode [simp]: "with_vint (encodeVint v @ b) f = f v b"
  by (simp add: with_vint_def decode_encode)

lemma with_vint_InrE:
  assumes "with_vint b f = Inr x"
  obtains v n where "decodeVint b = Inr (v, n)" and "f v (drop n b) = Inr x"
  using assms by (auto simp: with_vint_def err_bind_Inr_iff)

lemma with_vint_not_EOF:
  assumes "with_vint b f = Inl e" and "\<And>v p x. f v p = Inl x \<Longrightarrow> \<not> err_is x EOF"
  shows "\<not> err_is e EOF"
proof (cases "decodeVint b")
  case (Inl x)
  then show ?thesis using assms(1) decodeVint_error_only [OF Inl] by (simp add: with_vint_def)
next
  case (Inr vn)
  then show ?thesis using assms by (cases vn) (simp add: with_vint_def)
qed

subsection \<open>The writer of block headers\<close>

text \<open>
  What a writer of the format puts down for a header: the specification of the reader.
\<close>

definition enc_record :: "extraRecord \<Rightarrow> byte list" where
  "enc_record r = (let body = encodeVint (fst r) @ snd r in encodeVint (word_of_nat (length body)) @ body)"

definition enc_extra :: "extraRecord list \<Rightarrow> byte list" where
  "enc_extra rs = concat (map enc_record rs)"

definition enc_fields :: "blockHeader \<Rightarrow> byte list" where
  "enc_fields h = encodeVint (bl_Type h) @ encodeVint (bl_Flags h)
     @ (if 0 < bl_Flags h AND headerFlagHasExtra then encodeVint (word_of_nat (length (enc_extra (bl_Extra h)))) else [])
     @ (if 0 < bl_Flags h AND headerFlagHasData then encodeVint (word_of_int (bl_DataSize h)) else [])
     @ bl_Payload h @ enc_extra (bl_Extra h)"

definition enc_block :: "blockHeader \<Rightarrow> byte list" where
  "enc_block h = (let buf = encodeVint (word_of_nat (length (enc_fields h))) @ enc_fields h
                  in put_le32 (crc32_ieee buf) @ buf)"

text \<open>A header the format can express: its flags announce what it has, and it is not too long.\<close>

definition block_writable :: "blockHeader \<Rightarrow> bool" where
  "block_writable h \<longleftrightarrow> \<not> bl_rar4 h
     \<and> (0 < bl_Flags h AND headerFlagHasExtra \<or> bl_Extra h = [])
     \<and> (0 < bl_Flags h AND headerFlagHasData \<or> bl_DataSize h = 0)
     \<and> 0 \<le> bl_DataSize h \<and> bl_DataSize h < 2 ^ 63 \<and> length (enc_fields h) \<le> maxHeaderSize"

lemma unat_small_length: "n \<le> maxHeaderSize \<Longrightarrow> unat (word_of_nat n :: u64) = n"
  by (rule unat_of_nat_small) (simp add: maxHeaderSize_def)

lemma enc_record_length: "length (encodeVint (fst r) @ snd r) < length (enc_record r)"
  using encodeVint_length [of "word_of_nat (length (encodeVint (fst r) @ snd r))"]
  by (simp add: enc_record_def Let_def)

lemma extra_loop_enc: "length (enc_extra rs) \<le> maxHeaderSize \<Longrightarrow> extra_loop (enc_extra rs) = Inr rs"
proof (induction rs)
  case Nil
  then show ?case by (simp add: enc_extra_def extra_loop.simps)
next
  case (Cons r rs)
  let ?body = "encodeVint (fst r) @ snd r"
  let ?v = "encodeVint (word_of_nat (length ?body))"
  have e: "enc_extra (r # rs) = ?v @ ?body @ enc_extra rs"
    by (simp add: enc_extra_def enc_record_def Let_def)
  have len: "length ?body \<le> maxHeaderSize" "length (enc_extra rs) \<le> maxHeaderSize"
    using Cons.prems e by simp_all
  have u: "unat (word_of_nat (length ?body) :: u64) = length ?body" by (rule unat_small_length [OF len(1)])
  have d: "decodeVint (enc_extra (r # rs)) = Inr (word_of_nat (length ?body), length ?v)"
    unfolding e by (rule decode_encode)
  have ne: "enc_extra (r # rs) \<noteq> []" using encodeVint_nonempty e by simp
  have 1: "take (length ?body) (drop (length ?v) (enc_extra (r # rs))) = ?body" by (simp add: e)
  have 2: "drop (length ?v + length ?body) (enc_extra (r # rs)) = enc_extra rs" by (simp add: e)
  have 3: "\<not> length (enc_extra (r # rs)) - length ?v < length ?body" by (simp add: e)
  show ?case
    by (subst extra_loop.simps) (simp only: ne d u 1 2 3 if_False sum.case prod.case with_vint_encode
      Cons.IH [OF len(2)] err_bind_simps prod.collapse)
qed

lemma parse_enc_fields:
  assumes "block_writable h"
  shows "parseBlockHeaderFields (v @ enc_fields h) (length v) = Inr h"
proof -
  note w = assms [unfolded block_writable_def]
  let ?E = "enc_extra (bl_Extra h)"
  have len: "length ?E \<le> maxHeaderSize" using w by (simp add: enc_fields_def)
  have u: "unat (word_of_nat (length ?E) :: u64) = length ?E" by (rule unat_small_length [OF len])
  have s: "sint (word_of_int (bl_DataSize h) :: u64) = bl_DataSize h"
    using w by (simp add: signed_of_int signed_take_bit_int_eq_self)
  have E: "extra_loop ?E = Inr (bl_Extra h)" by (rule extra_loop_enc [OF len])
  have 0: "extra_loop [] = Inr []" by (simp add: extra_loop.simps)
  have e0: "enc_extra [] = []" by (simp add: enc_extra_def)
  show ?thesis
    using w s
    by (cases "0 < bl_Flags h AND headerFlagHasExtra"; cases "0 < bl_Flags h AND headerFlagHasData")
      (simp_all add: parseBlockHeaderFields_def enc_fields_def u E 0 e0 Let_def)
qed

lemma encodeVint_small: "unat v < 2 ^ 21 \<Longrightarrow> length (encodeVint v) \<le> 3"
proof -
  have e: "length (encodeVint v) = (if 0x80 \<le> v then Suc (length (encodeVint (drop_bit 7 v))) else 1)" for v
    by (subst encodeVint.simps) simp
  assume "unat v < 2 ^ 21"
  then have "unat (drop_bit 7 (drop_bit 7 v)) < 128" by (simp add: unat_drop_bit_div del: drop_bit_eq_div)
  then have "\<not> 0x80 \<le> drop_bit 7 (drop_bit 7 v)" by (simp add: word_le_nat_alt del: drop_bit_drop_bit drop_bit_eq_div)
  then show ?thesis by (simp add: e [of v] e [of "drop_bit 7 v"] e [of "drop_bit 7 (drop_bit 7 v)"] del: drop_bit_drop_bit drop_bit_eq_div)
qed

subsection \<open>Never a clean end\<close>

lemma extra_loop_not_EOF: "extra_loop b = Inl e \<Longrightarrow> \<not> err_is e EOF"
proof (induction b arbitrary: e rule: extra_loop.induct)
  case (1 b)
  show ?case
  proof (cases "b = [] \<or> (\<exists>x. decodeVint b = Inl x)")
    case True
    then show ?thesis
      using "1.prems" decodeVint_error_only [of b] by (auto simp: extra_loop.simps [of b] split: if_splits)
  next
    case False
    then obtain sz n where d: "b \<noteq> []" "decodeVint b = Inr (sz, n)" by (cases "decodeVint b") auto
    show ?thesis
    proof (cases "length b - n < unat sz")
      case True
      then show ?thesis using "1.prems" d by (simp add: extra_loop.simps [of b] split: if_splits)
    next
      case c: False
      have IH: "\<not> err_is x EOF" if "extra_loop (drop (n + unat sz) b) = Inl x" for x
        using "1.IH" [OF d(1,2) refl c that] .
      have "with_vint (take (unat sz) (drop n b)) (\<lambda>fType dat.
               err_bind (extra_loop (drop (n + unat sz) b)) (\<lambda>rs. Inr ((fType, dat) # rs))) = Inl e"
        using "1.prems" d c by (simp add: extra_loop.simps [of b])
      then show ?thesis
        by (rule with_vint_not_EOF) (use IH in \<open>auto simp: err_bind_def split: sum.splits\<close>)
    qed
  qed
qed

lemma parseBlockHeaderFields_not_EOF:
  assumes "parseBlockHeaderFields buf n = Inl e"
  shows "\<not> err_is e EOF"
  using assms unfolding parseBlockHeaderFields_def
proof (elim with_vint_not_EOF)
  fix v p v' p' x
  assume x: "err_bind (if 0 < v' AND headerFlagHasExtra then with_vint p' (\<lambda>v p. Inr (v, p)) else Inr (0, p'))
     (\<lambda>(extraSize, payload).
     err_bind (if 0 < v' AND headerFlagHasData
               then with_vint payload (\<lambda>v p. if sint v < 0 then Inl ErrCorruptBlockHeader else Inr (sint v, p))
               else Inr (0, payload)) (\<lambda>(dataSize, payload).
     if length payload < unat extraSize then Inl ErrCorruptBlockHeader
     else let k = length payload - unat extraSize
          in err_bind (extra_loop (drop k payload)) (\<lambda>extra.
               Inr \<lparr>bl_Type = v, bl_Flags = v', bl_DataSize = dataSize,
                    bl_Payload = take k payload, bl_Extra = extra, bl_rar4 = False\<rparr>))) = Inl x"
  have nv: "\<not> err_is y EOF" if "with_vint q (\<lambda>v p. Inr (v, p)) = Inl y" for q y
    using that by (rule with_vint_not_EOF) simp
  have nd: "\<not> err_is y EOF"
    if "with_vint q (\<lambda>v p. if sint v < 0 then Inl ErrCorruptBlockHeader else Inr (sint v, p)) = Inl y" for q y
    using that by (rule with_vint_not_EOF) (simp split: if_splits)
  show "\<not> err_is x EOF"
    using x by (auto simp: err_bind_def Let_def split: sum.splits prod.splits if_splits
      dest!: nv nd extra_loop_not_EOF)
qed

lemma readBlockHeader_cut:
  assumes "readBlockHeader s = (Inl e, s')" and "err_is e EOF"
  shows "st_data s = []"
proof -
  obtain r s1 where rs: "readHeaderStart s 7 = (r, s1)" by (cases "readHeaderStart s 7")
  show ?thesis
  proof (cases r)
    case (Inl x)
    then show ?thesis using assms rs readHeaderStart_cases(4) [OF rs, of x] by (simp add: readBlockHeader_def)
  next
    case (Inr got)
    then show ?thesis
      using assms rs decodeVint_error_only [of "drop 4 got"]
      by (auto simp: readBlockHeader_def Let_def split: sum.splits prod.splits option.splits if_splits
        dest: parseBlockHeaderFields_not_EOF)
  qed
qed

lemma dataSize4_not_EOF: "dataSize4 typ flags body = Inl e \<Longrightarrow> \<not> err_is e EOF"
  by (auto simp: dataSize4_def split: if_splits)

lemma readBlockHeader4_cut:
  assumes "readBlockHeader4 s = (Inl e, s')" and "err_is e EOF"
  shows "st_data s = []"
proof -
  obtain r s1 where rs: "readHeaderStart s 7 = (r, s1)" by (cases "readHeaderStart s 7")
  show ?thesis
  proof (cases r)
    case (Inl x)
    then show ?thesis using assms rs readHeaderStart_cases(4) [OF rs, of x] by (simp add: readBlockHeader4_def)
  next
    case (Inr got)
    then show ?thesis
      using assms rs
      by (auto simp: readBlockHeader4_def Let_def err_bind_def split: sum.splits prod.splits option.splits if_splits
        dest: dataSize4_not_EOF)
  qed
qed

subsection \<open>Extra records\<close>

lemma parseTimeRecord_encrypted: "fh_Encrypted (snd (parseTimeRecord fh b)) = fh_Encrypted fh"
  by (auto simp: parseTimeRecord_def Let_def split: sum.splits)

lemma parseRedirectionRecord_encrypted: "fh_Encrypted (snd (parseRedirectionRecord fh b)) = fh_Encrypted fh"
  by (auto simp: parseRedirectionRecord_def Let_def split: sum.splits)

lemma parseHashRecord_encrypted: "fh_Encrypted (snd (parseHashRecord fh b)) = fh_Encrypted fh"
  by (auto simp: parseHashRecord_def split: sum.splits)

lemma parseEncryptionRecord_encrypted: "fh_Encrypted (snd (parseEncryptionRecord fh b))"
  by (auto simp: parseEncryptionRecord_def Let_def split: sum.splits)

lemma parseRecord_encrypted: "fh_Encrypted (snd (parseRecord fh t b)) \<longleftrightarrow> t = 1 \<or> fh_Encrypted fh"
  by (simp add: parseRecord_def parseTimeRecord_encrypted parseRedirectionRecord_encrypted
    parseHashRecord_encrypted parseEncryptionRecord_encrypted)

text \<open>The first record of each parsed type, in order.\<close>

fun first_of_type :: "u64 set \<Rightarrow> extraRecord list \<Rightarrow> extraRecord list" where
  "first_of_type seen [] = []"
| "first_of_type seen ((t, dat) # es) =
     (if parsedType t \<and> t \<notin> seen then (t, dat) # first_of_type (insert t seen) es
      else first_of_type seen es)"

lemma extra_records_first:
  "snd (extra_records fh es seen first) = foldl (\<lambda>fh (t, dat). snd (parseRecord fh t dat)) fh (first_of_type seen es)"
  by (induction fh es seen first rule: extra_records.induct) (auto split: prod.splits)

lemma extra_records_error:
  "first \<noteq> None \<Longrightarrow> fst (extra_records fh es seen first) = first"
  by (induction fh es seen first rule: extra_records.induct) (auto split: prod.splits)

lemma extra_records_encrypted:
  "fh_Encrypted (snd (extra_records fh es seen first))
   \<longleftrightarrow> fh_Encrypted fh \<or> (1 \<notin> seen \<and> 1 \<in> set (map fst es))"
proof (induction fh es seen first rule: extra_records.induct)
  case (2 fh t dat es seen first)
  have p: "parsedType 1" by (simp add: parsedType_def)
  show ?case
  proof (cases "parsedType t \<and> t \<notin> seen")
    case False
    then show ?thesis using 2 p by auto
  next
    case True
    obtain e fh' where r: "parseRecord fh t dat = (e, fh')" by (cases "parseRecord fh t dat")
    then have "fh_Encrypted fh' \<longleftrightarrow> t = 1 \<or> fh_Encrypted fh" using parseRecord_encrypted [of fh t dat] by simp
    then show ?thesis using 2(3) [OF _ _ r [symmetric]] True r by auto
  qed
qed simp

lemma extra_records_distinct:
  assumes "fst (extra_records fh es seen first) = None"
  shows "distinct (filter parsedType (map fst es)) \<and> set (filter parsedType (map fst es)) \<inter> seen = {}"
  using assms
proof (induction fh es seen first rule: extra_records.induct)
  case (2 fh t dat es seen first)
  show ?case
  proof (cases "parsedType t")
    case False
    then show ?thesis using 2 by simp
  next
    case True
    have new: "t \<notin> seen"
      using 2(4) True extra_records_error [of "if first = None then Some (Wrap [ErrCorruptFileHeader]) else first" fh es seen]
      by (auto split: if_splits)
    obtain e fh' where r: "parseRecord fh t dat = (e, fh')" by (cases "parseRecord fh t dat")
    then have "fst (extra_records fh' es (insert t seen) (if first = None then e else first)) = None"
      using 2(4) True new by simp
    from 2(3) [OF _ new r [symmetric] this] True show ?thesis using new by auto
  qed
qed simp

subsection \<open>Accepted file headers\<close>

text \<open>What a header returned without an error is.\<close>

definition fileHeader_ok :: "FileHeader \<Rightarrow> bool" where
  "fileHeader_ok fh \<longleftrightarrow> 0 \<le> fh_UnpackedSize fh \<and> fh_UnpackedSize fh < 9223372036854775808
     \<and> (\<exists>p. fh_Name fh = sanitizePath p) \<and> fh_Method fh < 8
     \<and> (fh_DictSize fh = 0 \<or> (\<exists>e < 16. fh_DictSize fh = dictBaseSize * 2 ^ e))
     \<and> (fh_LinkType fh \<noteq> LinkNone \<longrightarrow> fh_FirstBlock fh \<and> fh_LastBlock fh \<and> fh_PackedSize fh = 0
          \<and> fh_LinkTarget fh \<noteq> [] \<and> 0 \<notin> set (fh_LinkTarget fh))"

text \<open>The fields the extra records leave alone, and the link they may have set.\<close>

definition record_frame :: "FileHeader \<Rightarrow> FileHeader \<Rightarrow> bool" where
  "record_frame fh fh' \<longleftrightarrow> fh_Name fh' = fh_Name fh \<and> fh_UnpackedSize fh' = fh_UnpackedSize fh
     \<and> fh_PackedSize fh' = fh_PackedSize fh \<and> fh_FirstBlock fh' = fh_FirstBlock fh
     \<and> fh_LastBlock fh' = fh_LastBlock fh \<and> fh_Method fh' = fh_Method fh
     \<and> fh_DictSize fh' = fh_DictSize fh
     \<and> ((fh_LinkType fh \<noteq> LinkNone \<longrightarrow> fh_LinkTarget fh \<noteq> [] \<and> 0 \<notin> set (fh_LinkTarget fh))
        \<longrightarrow> (fh_LinkType fh' \<noteq> LinkNone \<longrightarrow> fh_LinkTarget fh' \<noteq> [] \<and> 0 \<notin> set (fh_LinkTarget fh')))"

lemma set_sanitizePath: "set (sanitizePath p) \<subseteq> insert slash (set p)"
proof -
  have "set (foldl (clean_step True) st qs) \<subseteq> set st \<union> set qs" for st qs
  proof (induction qs arbitrary: st)
    case (Cons a qs)
    have "set (tl st) \<subseteq> set st" by (cases st) auto
    then have "set (clean_step True st a) \<subseteq> insert a (set st)" by (auto simp: clean_step_def)
    with Cons [of "clean_step True st a"] show ?case by auto
  qed simp
  from this [of "[]" "splitBy slash (to_slash p)"]
  have "\<Union> (set ` set (clean_parts True (to_slash p))) \<subseteq> set (to_slash p)"
    using splitBy_parts [of slash "to_slash p"] by (fastforce simp: clean_parts_def)
  moreover have "set (to_slash p) \<subseteq> insert slash (set p)" by (auto simp: to_slash_def)
  ultimately show ?thesis
    unfolding sanitizePath_walk using set_joinBy [of slash "clean_parts True (to_slash p)"] by blast
qed

lemma record_frame_refl: "record_frame fh fh"
  by (simp add: record_frame_def)

text \<open>All the fields of the frame at once.\<close>

definition frame_fields :: "FileHeader \<Rightarrow> _" where
  "frame_fields fh = (fh_Name fh, fh_UnpackedSize fh, fh_PackedSize fh, fh_FirstBlock fh, fh_LastBlock fh,
     fh_Method fh, fh_DictSize fh, fh_LinkType fh, fh_LinkTarget fh)"

lemma record_frame_same: "frame_fields fh' = frame_fields fh \<Longrightarrow> record_frame fh fh'"
  by (simp add: record_frame_def frame_fields_def)

lemma frame_fields_update [simp]:
  "frame_fields (a\<lparr>fh_Encrypted := b\<rparr>) = frame_fields a" "frame_fields (a\<lparr>fh_UseMac := b\<rparr>) = frame_fields a"
  "frame_fields (a\<lparr>fh_KdfCount := n\<rparr>) = frame_fields a" "frame_fields (a\<lparr>fh_Salt := s\<rparr>) = frame_fields a"
  "frame_fields (a\<lparr>fh_IV := s\<rparr>) = frame_fields a" "frame_fields (a\<lparr>fh_EncCheck := s\<rparr>) = frame_fields a"
  "frame_fields (a\<lparr>fh_HasBlake2sp := b\<rparr>) = frame_fields a" "frame_fields (a\<lparr>fh_Blake2sp := s\<rparr>) = frame_fields a"
  "frame_fields (a\<lparr>fh_ModificationTime := t\<rparr>) = frame_fields a"
  by (simp_all add: frame_fields_def)

lemma parseRecord_fields:
  "frame_fields (snd (parseEncryptionRecord fh b)) = frame_fields fh"
  "frame_fields (snd (parseHashRecord fh b)) = frame_fields fh"
  "frame_fields (snd (parseTimeRecord fh b)) = frame_fields fh"
  by (auto simp: parseEncryptionRecord_def parseHashRecord_def parseTimeRecord_def Let_def split: sum.splits)

lemma record_frame_trans: "record_frame a b \<Longrightarrow> record_frame b c \<Longrightarrow> record_frame a c"
  by (simp add: record_frame_def)

lemma redirectionTarget_ok:
  assumes "redirectionTarget kind target = Inr name"
  shows "name \<noteq> [] \<and> 0 \<notin> set name"
proof -
  have z: "0 \<notin> set (sanitizePath target)" if "0 \<notin> set target"
    using set_sanitizePath [of target] that by auto
  then show ?thesis using assms by (auto simp: redirectionTarget_def Let_def split: if_splits)
qed

lemma parseRedirectionRecord_frame: "record_frame fh (snd (parseRedirectionRecord fh b))"
  by (auto simp: parseRedirectionRecord_def record_frame_refl record_frame_def
    dest: redirectionTarget_ok split: sum.split prod.split)

lemma parseRecord_frame: "record_frame fh (snd (parseRecord fh t b))"
  by (simp add: parseRecord_def parseRedirectionRecord_frame record_frame_same parseRecord_fields)

lemma extra_records_frame: "record_frame fh (snd (extra_records fh es seen first))"
proof (induction fh es seen first rule: extra_records.induct)
  case (2 fh t dat es seen first)
  obtain e fh' where r: "parseRecord fh t dat = (e, fh')" by (cases "parseRecord fh t dat")
  have "record_frame fh fh'" using parseRecord_frame [of fh t dat] r by simp
  then show ?case using 2 r by (auto intro: record_frame_trans)
qed (simp add: record_frame_refl)

lemma sint_u64_less: "sint (w :: u64) < 9223372036854775808"
  using sint_less [of w] by simp

lemma unat_and_less: "unat (w AND mask n :: 'a::len word) < 2 ^ n"
  by (simp only: take_bit_eq_mask [symmetric] unsigned_take_bit_eq take_bit_nat_less_exp)

definition is_build :: "blockHeader \<Rightarrow> FileHeader \<Rightarrow> bool" where
  "is_build h fh \<longleftrightarrow> (\<exists>flags unp attrs mtime crc compF os name. fh = buildFile h flags unp attrs mtime crc compF os name)"

lemma is_build [simp]: "is_build h (buildFile h flags unp attrs mtime crc compF os name)"
  unfolding is_build_def by blast

lemma fileFields_build: "fileFields h = Inr (flags, fh) \<Longrightarrow> is_build h fh"
  unfolding fileFields_def by (auto simp: err_bind_Inr_iff split: if_splits elim!: with_vint_InrE)

lemma fileFields_ok:
  assumes "fileFields h = Inr (flags, fh)"
  shows "fh_UnpackedSize fh < 9223372036854775808 \<and> (\<exists>p. fh_Name fh = sanitizePath p) \<and> fh_Method fh < 8
    \<and> (fh_DictSize fh = 0 \<or> (\<exists>e < 16. fh_DictSize fh = dictBaseSize * 2 ^ e)) \<and> fh_LinkType fh = LinkNone"
proof -
  have m: "unat (w AND 7 :: u64) < 8" for w using unat_and_less [of w 3] by (simp add: mask_eq_exp_minus_1)
  have d: "unat (w AND 0xf :: u64) < 16" for w using unat_and_less [of w 4] by (simp add: mask_eq_exp_minus_1)
  obtain flags unp attrs mtime crc compF os name where "fh = buildFile h flags unp attrs mtime crc compF os name"
    using fileFields_build [OF assms] by (auto simp: is_build_def)
  then show ?thesis
    using m d by (auto simp: buildFile_def Let_def FileHeader_zero_def sint_u64_less)
qed

lemma join64_less: "join64 low high < 9223372036854775808"
  by (simp add: join64_def sint_u64_less)

lemma fileHeader4_fields:
  "fh_UnpackedSize (fileHeader4 h fixed) < 9223372036854775808" "\<exists>p. fh_Name (fileHeader4 h fixed) = sanitizePath p"
  "fh_DictSize (fileHeader4 h fixed) = 0" "fh_LinkType (fileHeader4 h fixed) = LinkNone"
proof -
  show "fh_UnpackedSize (fileHeader4 h fixed) < 9223372036854775808"
    by (simp add: fileHeader4_def Let_def join64_less)
  have "\<exists>p. decodeName4 flags raw = sanitizePath p" for flags raw by (auto simp: decodeName4_def Let_def)
  then show "\<exists>p. fh_Name (fileHeader4 h fixed) = sanitizePath p"
    unfolding fileHeader4_def Let_def by simp blast
qed (simp_all add: fileHeader4_def Let_def FileHeader_zero_def)

lemma fileTail4_fields:
  assumes "fileTail4 flags tail fh = (Some fh', e)"
  shows "fh' = fh\<lparr>fh_ModificationTime := fh_ModificationTime fh'\<rparr>"
  using assms by (auto simp: fileTail4_def Let_def split: if_splits sum.splits)

lemma parseFileHeader4_ok:
  assumes "parseFileHeader4 date h = (Some fh, None)"
  shows "fileHeader_ok fh"
proof -
  let ?fixed = "if (ucast (bl_Flags h) :: u16) AND rar4FileLarge \<noteq> 0 then rar4LargeEnd else 25"
  let ?f0 = "fileHeader4 h ?fixed" and ?m = "bl_Payload h ! 18"
  let ?f1 = "?f0\<lparr>fh_Method := unat (?m - 0x30), fh_ModificationTime := Some (dosTime date (le32 (drop 13 (bl_Payload h))))\<rparr>"
  have m: "\<not> (?m < 0x30 \<or> 0x35 < ?m)" and u: "\<not> fh_UnpackedSize ?f0 < 0"
    and tail: "fh = ?f1 \<or> (\<exists>flags tail. fileTail4 flags tail ?f1 = (Some fh, None))"
    using assms by (auto simp: parseFileHeader4_def Let_def split: if_splits)
  have "unat (?m - 0x30) = unat ?m - 48" using m by (simp add: unat_sub word_le_nat_alt not_less)
  moreover have "unat ?m \<le> 53" using m by (simp add: word_le_nat_alt not_less)
  ultimately have m8: "unat (?m - 0x30) < 8" by simp
  have "frame_fields fh = frame_fields ?f1"
    using tail by (metis fileTail4_fields frame_fields_update(9))
  then show ?thesis
    using fileHeader4_fields [of h ?fixed] m8 u by (simp add: fileHeader_ok_def frame_fields_def)
qed

lemma parseFileHeader5_ok:
  assumes "parseFileHeader date h = (Some fh, None)" and "\<not> bl_rar4 h"
  shows "fileHeader_ok fh"
proof -
  obtain flags fh0 where f: "fileFields h = Inr (flags, fh0)"
    using assms by (cases "fileFields h") (auto simp: parseFileHeader_def split: if_splits)
  obtain x fh1 where r: "parseExtraRecords fh0 (bl_Extra h) = (x, fh1)"
    by (cases "parseExtraRecords fh0 (bl_Extra h)")
  have fr: "record_frame fh0 fh1" using extra_records_frame [of fh0 "bl_Extra h" "{}" None] r
    by (simp add: parseExtraRecords_def)
  have e: "fh = fh1" "\<not> fh_UnpackedSize fh1 < 0"
    "fh_LinkType fh1 \<noteq> LinkNone \<longrightarrow> fh_FirstBlock fh1 \<and> fh_PackedSize fh1 = 0 \<and> fh_LastBlock fh1"
    using assms f r by (auto simp: parseFileHeader_def split: if_splits)
  show ?thesis
    using fileFields_ok [OF f] fr e by (simp add: fileHeader_ok_def record_frame_def)
qed

lemma readBlockHeader_buf:
  assumes "3 \<le> length buf" and "decodeVint (take 3 buf) = Inr (v, n)" and "unat v + n = length buf"
    and "unat v \<le> maxHeaderSize"
  shows "readBlockHeader \<lparr>st_data = put_le32 (crc32_ieee buf) @ buf @ rest, st_end = e\<rparr>
    = (parseBlockHeaderFields buf n, \<lparr>st_data = rest, st_end = e\<rparr>)"
proof -
  let ?c = "put_le32 (crc32_ieee buf)"
  let ?s = "\<lparr>st_data = ?c @ buf @ rest, st_end = e\<rparr>"
  have t7: "take 7 (st_data ?s) = ?c @ take 3 buf" "drop 7 (st_data ?s) = drop 3 buf @ rest"
    using assms(1) by simp_all
  have "7 \<le> length (st_data ?s)" using assms(1) by simp
  from readHeaderStart_ok [OF this]
  have start: "readHeaderStart ?s 7 = (Inr (?c @ take 3 buf), \<lparr>st_data = drop 3 buf @ rest, st_end = e\<rparr>)"
    unfolding t7 by simp
  have rest: "readFull \<lparr>st_data = drop 3 buf @ rest, st_end = e\<rparr> (length buf - 3)
    = (drop 3 buf, None, \<lparr>st_data = rest, st_end = e\<rparr>)" by simp
  have d4: "drop 4 (?c @ take 3 buf) = take 3 buf" by simp
  have whole: "take (min (length buf) 3) buf @ drop 3 buf = buf" using assms(1) by (simp add: min_absorb2)
  show ?thesis
    using assms(4)
    by (simp add: readBlockHeader_def start d4 assms(2,3) Let_def rest whole del: drop_append take_append readFull_ok)
qed

subsection \<open>Properties\<close>

text \<open>C31. A block header written in the format is read back exactly, and the reader stops at the
  first byte behind it: the checksum covers the size and the fields, the declared lengths are
  those of the parts, and the extra records come out one by one.\<close>

theorem block_header_roundtrip:
  assumes "block_writable h"
  shows "readBlockHeader \<lparr>st_data = enc_block h @ rest, st_end = e\<rparr> = (Inr h, \<lparr>st_data = rest, st_end = e\<rparr>)"
proof -
  let ?F = "enc_fields h" and ?n = "word_of_nat (length (enc_fields h)) :: u64"
  have w: "length ?F \<le> maxHeaderSize" using assms by (simp add: block_writable_def)
  have u: "unat ?n = length ?F" by (rule unat_small_length [OF w])
  have v3: "length (encodeVint ?n) \<le> 3"
    by (rule encodeVint_small) (use w in \<open>simp add: u maxHeaderSize_def\<close>)
  have len: "3 \<le> length (encodeVint ?n @ ?F)"
    using encodeVint_length [of ?n] encodeVint_length [of "bl_Type h"] encodeVint_length [of "bl_Flags h"]
    unfolding enc_fields_def length_append by linarith
  have "decodeVint (take 3 (encodeVint ?n @ ?F)) = Inr (?n, length (encodeVint ?n))"
    using v3 decode_encode [of ?n "take (3 - length (encodeVint ?n)) ?F"] by simp
  from readBlockHeader_buf [OF len this] show ?thesis
    using w parse_enc_fields [OF assms] by (simp add: u enc_block_def Let_def)
qed

definition demo_block :: blockHeader where
  "demo_block = \<lparr>bl_Type = 2, bl_Flags = 3, bl_DataSize = 5, bl_Payload = [7, 8], bl_Extra = [(9, [1])], bl_rar4 = False\<rparr>"

lemma demo_block_writable: "block_writable demo_block"
proof -
  have e: "length (encodeVint v) \<le> 10" for v using encodeVint_length by blast
  have "length (enc_fields demo_block) \<le> 100"
    using e [of 2] e [of 3] e [of 5] e [of 9] e [of "word_of_nat (length (encodeVint 9) + 1)"]
      e [of "word_of_nat (length (encodeVint (word_of_nat (length (encodeVint 9) + 1))) + (length (encodeVint 9) + 1))"]
    by (simp add: enc_fields_def demo_block_def enc_extra_def enc_record_def Let_def headerFlags)
  then show ?thesis
    by (simp add: block_writable_def maxHeaderSize_def) (simp add: demo_block_def headerFlags)
qed

theorem block_header_roundtrip_witness:
  "readBlockHeader \<lparr>st_data = enc_block demo_block @ [1, 2, 3], st_end = EOF\<rparr>
   = (Inr demo_block, \<lparr>st_data = [1, 2, 3], st_end = EOF\<rparr>)"
  by (rule block_header_roundtrip [OF demo_block_writable])

text \<open>C32. A cut header is never taken for the end of a volume: in both formats, reading a block
  header reports an error that matches \<^verbatim>\<open>io.EOF\<close> only when no byte of a header was there.\<close>

theorem header_cut_not_eof:
  assumes "readBlockHeader s = (Inl e, s') \<or> readBlockHeader4 s = (Inl e, s')" and "err_is e EOF"
  shows "st_data s = []"
  using assms readBlockHeader_cut readBlockHeader4_cut by blast

theorem header_cut_not_eof_witness:
  "\<exists>e s'. readBlockHeader \<lparr>st_data = [], st_end = EOF\<rparr> = (Inl e, s') \<and> err_is e EOF
     \<and> st_data (\<lparr>st_data = [], st_end = EOF\<rparr> :: stream) = []"
proof -
  have "readBlockHeader \<lparr>st_data = [], st_end = EOF\<rparr> = (Inl EOF, \<lparr>st_data = [], st_end = EOF\<rparr>)"
    by (simp add: readBlockHeader_def readHeaderStart_def readFull_def)
  with header_cut_not_eof [of "\<lparr>st_data = [], st_end = EOF\<rparr>" EOF] show ?thesis by (metis err_is_refl)
qed

text \<open>C33. A file header of either format accepted without an error is consistent: its size is a
  size, its name is sanitized, its method is one of eight, its dictionary is absent or one the
  format can express, and a link is a whole member without payload whose target is not empty
  and has no NUL byte.\<close>

theorem file_header_accepted:
  assumes "parseFileHeader date h = (Some fh, None)"
  shows "fileHeader_ok fh"
proof (cases "bl_rar4 h")
  case True
  then show ?thesis using assms parseFileHeader4_ok by (simp add: parseFileHeader_def)
qed (use assms parseFileHeader5_ok in blast)

text \<open>A stored file of two bytes named \<^verbatim>\<open>a\<close>.\<close>

definition demo_file :: blockHeader where
  "demo_file = \<lparr>bl_Type = 2, bl_Flags = 2, bl_DataSize = 2, bl_Payload = [0, 2, 0x20, 0, 1, 1, 0x61],
     bl_Extra = [], bl_rar4 = False\<rparr>"

lemma demo_file_parses:
  "\<exists>fh. parseFileHeader (\<lambda>_ _ _ _ _ _. (0, 0)) demo_file = (Some fh, None) \<and> fh_UnpackedSize fh = 2"
  by (simp add: parseFileHeader_def demo_file_def headerTypes fileFields_def with_vint_def decodeVint_def
    parseExtraRecords_def buildFile_def FileHeader_zero_def fileFlagHasUnixMtime_def fileFlagHasCRC32_def
    fileFlagUnpSizeUnknown_def)

theorem file_header_accepted_witness:
  "\<exists>fh. parseFileHeader (\<lambda>_ _ _ _ _ _. (0, 0)) demo_file = (Some fh, None) \<and> fileHeader_ok fh"
  using demo_file_parses file_header_accepted by blast

text \<open>C34. The extra records of a file header: no record hides another. The header reports the member
  encrypted exactly when it has an encryption record, however many other records fail; what
  it carries is what the first record of each type says; and a header that repeats a type it
  parses is refused.\<close>

theorem extra_records_once:
  assumes "parseExtraRecords fh es = (e, fh')"
  shows "(fh_Encrypted fh' \<longleftrightarrow> fh_Encrypted fh \<or> 1 \<in> set (map fst es))
    \<and> fh' = foldl (\<lambda>fh (t, dat). snd (parseRecord fh t dat)) fh (first_of_type {} es)
    \<and> (e = None \<longrightarrow> distinct (filter parsedType (map fst es)))"
  using assms extra_records_encrypted [of fh es "{}" None] extra_records_first [of fh es "{}" None]
    extra_records_distinct [of fh es "{}" None]
  by (auto simp: parseExtraRecords_def)

theorem extra_records_once_witness:
  "\<exists>e fh'. parseExtraRecords FileHeader_zero [(2, []), (1, [])] = (e, fh') \<and> fh_Encrypted fh'"
  using extra_records_once [of FileHeader_zero "[(2, []), (1, [])]"]
  by (cases "parseExtraRecords FileHeader_zero [(2, []), (1, [])]") simp

end
