(* ===== verification/Blake2sp.thy ===== *)
theory Blake2sp
  imports Prelude
begin

section \<open>BLAKE2sp (blake2sp.go)\<close>

text \<open>
  The whole-file digest: the BLAKE2s compression, one hasher of the tree, and the streaming
  hasher that deals 64-byte blocks to eight leaves, with its strided path. A hasher's buffer
  is modelled by the bytes in it (the first \<^verbatim>\<open>n\<close> of the array): what is behind them is
  cleared or overwritten before it is read. \<open>simd\<close> stands for the assembly of the strided
  path, when the build has it; its contract is the generic simd of this file.
\<close>

subsection \<open>Compression\<close>

definition blake2sIV :: "u32 list" where
  "blake2sIV = [0x6A09E667, 0xBB67AE85, 0x3C6EF372, 0xA54FF53A, 0x510E527F, 0x9B05688C, 0x1F83D9AB, 0x5BE0CD19]"

definition blake2sSigma :: "nat list list" where
  "blake2sSigma =
     [[0, 1, 2, 3, 4, 5, 6, 7, 8, 9, 10, 11, 12, 13, 14, 15],
      [14, 10, 4, 8, 9, 15, 13, 6, 1, 12, 0, 2, 11, 7, 5, 3],
      [11, 8, 12, 0, 5, 2, 15, 13, 10, 14, 3, 6, 7, 1, 9, 4],
      [7, 9, 3, 1, 13, 12, 11, 14, 2, 6, 5, 10, 4, 0, 15, 8],
      [9, 0, 5, 7, 2, 4, 10, 15, 14, 1, 11, 12, 6, 8, 3, 13],
      [2, 12, 6, 10, 0, 11, 8, 3, 4, 13, 7, 5, 15, 14, 1, 9],
      [12, 5, 1, 15, 14, 13, 4, 10, 0, 7, 6, 3, 9, 2, 8, 11],
      [13, 11, 7, 14, 12, 1, 3, 9, 5, 0, 15, 4, 8, 6, 2, 10],
      [6, 15, 14, 9, 11, 3, 0, 8, 12, 2, 13, 7, 1, 4, 10, 5],
      [10, 2, 8, 4, 7, 6, 1, 5, 15, 11, 9, 14, 3, 12, 13, 0]]"

definition blake2sG :: "u32 list \<Rightarrow> nat \<Rightarrow> nat \<Rightarrow> nat \<Rightarrow> nat \<Rightarrow> u32 \<Rightarrow> u32 \<Rightarrow> u32 list" where
  "blake2sG v a b c d x y =
     (let v = v[a := v ! a + (v ! b + x)];
          v = v[d := word_rotr 16 (v ! d XOR v ! a)];
          v = v[c := v ! c + v ! d];
          v = v[b := word_rotr 12 (v ! b XOR v ! c)];
          v = v[a := v ! a + (v ! b + y)];
          v = v[d := word_rotr 8 (v ! d XOR v ! a)];
          v = v[c := v ! c + v ! d];
          v = v[b := word_rotr 7 (v ! b XOR v ! c)]
      in v)"

definition b2_round :: "u32 list \<Rightarrow> u32 list \<Rightarrow> nat list \<Rightarrow> u32 list" where
  "b2_round m v sg =
     (let v = blake2sG v 0 4 8 12 (m ! (sg ! 0)) (m ! (sg ! 1));
          v = blake2sG v 1 5 9 13 (m ! (sg ! 2)) (m ! (sg ! 3));
          v = blake2sG v 2 6 10 14 (m ! (sg ! 4)) (m ! (sg ! 5));
          v = blake2sG v 3 7 11 15 (m ! (sg ! 6)) (m ! (sg ! 7));
          v = blake2sG v 0 5 10 15 (m ! (sg ! 8)) (m ! (sg ! 9));
          v = blake2sG v 1 6 11 12 (m ! (sg ! 10)) (m ! (sg ! 11));
          v = blake2sG v 2 7 8 13 (m ! (sg ! 12)) (m ! (sg ! 13));
          v = blake2sG v 3 4 9 14 (m ! (sg ! 14)) (m ! (sg ! 15))
      in v)"

text \<open>\<open>last\<close> is the hasher's \<^verbatim>\<open>lastNode\<close>.\<close>

definition b2_compress :: "u32 list \<Rightarrow> u64 \<Rightarrow> byte list \<Rightarrow> bool \<Rightarrow> bool \<Rightarrow> u32 list" where
  "b2_compress h t block fin lastNode =
     (let m = map (\<lambda>i. le32 (drop (4 * i) block)) [0..<16];
          v = h @ take 4 blake2sIV
                @ [blake2sIV ! 4 XOR ucast t, blake2sIV ! 5 XOR ucast (drop_bit 32 t), blake2sIV ! 6, blake2sIV ! 7];
          v = (if fin then (if lastNode then v[14 := NOT (v ! 14), 15 := NOT (v ! 15)] else v[14 := NOT (v ! 14)]) else v);
          v = foldl (b2_round m) v blake2sSigma
      in map (\<lambda>i. h ! i XOR (v ! i XOR v ! (i + 8))) [0..<8])"

subsection \<open>One hasher of the tree\<close>

record blake2s =
  b2_h :: "u32 list"
  b2_t :: u64
  b2_buf :: "byte list"
  b2_lastNode :: bool

definition b2_init :: "u64 \<Rightarrow> byte \<Rightarrow> bool \<Rightarrow> blake2s" where
  "b2_init nodeOffset nodeDepth lastNode =
     (let h = blake2sIV;
          h = h[0 := h ! 0 XOR (32 OR push_bit 16 8 OR push_bit 24 2)];
          h = h[2 := h ! 2 XOR ucast nodeOffset];
          h = h[3 := h ! 3 XOR ((ucast (drop_bit 32 nodeOffset) AND 0xffff) OR push_bit 16 (ucast nodeDepth) OR push_bit 24 32)]
      in \<lparr>b2_h = h, b2_t = 0, b2_buf = [], b2_lastNode = lastNode\<rparr>)"

text \<open>A block that is not the last.\<close>

definition b2_block :: "blake2s \<Rightarrow> byte list \<Rightarrow> blake2s" where
  "b2_block s block = s\<lparr>b2_t := b2_t s + 64, b2_h := b2_compress (b2_h s) (b2_t s + 64) block False (b2_lastNode s)\<rparr>"

function b2_whole :: "blake2s \<Rightarrow> byte list \<Rightarrow> blake2s \<times> byte list" where
  "b2_whole s p = (if 64 < length p then b2_whole (b2_block s (take 64 p)) (drop 64 p) else (s, p))"
  by pat_completeness auto
termination by (relation "measure (\<lambda>(s, p). length p)") auto

declare b2_whole.simps [simp del]

lemma b2_whole_length: "length (snd (b2_whole s p)) \<le> length p"
proof (induction s p rule: b2_whole.induct)
  case (1 s p)
  then show ?case by (cases "64 < length p") (simp_all add: b2_whole.simps [of s p])
qed

text \<open>
  \<^verbatim>\<open>write\<close>; \<open>c\<close> is the count \<^verbatim>\<open>copy\<close> returns, which is not 0 here: after the first two
  steps the buffer has room and input is left.
\<close>

function b2_write :: "blake2s \<Rightarrow> byte list \<Rightarrow> blake2s" where
  "b2_write s p =
     (if p = [] then s
      else let s1 = (if length (b2_buf s) = 64 then (b2_block s (b2_buf s))\<lparr>b2_buf := []\<rparr> else s);
               r = (if b2_buf s1 = [] then b2_whole s1 p else (s1, p));
               c = min (64 - length (b2_buf (fst r))) (length (snd r))
           in if c = 0 then fst r
              else b2_write ((fst r)\<lparr>b2_buf := b2_buf (fst r) @ take c (snd r)\<rparr>) (drop c (snd r)))"
  by pat_completeness auto
termination
proof (relation "measure (\<lambda>(s, p). length p)", goal_cases)
  case (2 s p s1 r c)
  then have "length (snd r) \<le> length p" using b2_whole_length by auto
  moreover have "length (drop c (snd r)) < length (snd r)"
    using 2 by (simp only: length_drop)
  ultimately show ?case by (simp only: in_measure case_prod_conv)
qed simp

declare b2_write.simps [simp del]

definition b2_digest_bytes :: "u32 list \<Rightarrow> byte list" where
  "b2_digest_bytes h = concat (map put_le32 h)"

definition b2_sum :: "blake2s \<Rightarrow> byte list" where
  "b2_sum s =
     b2_digest_bytes (b2_compress (b2_h s) (b2_t s + word_of_nat (length (b2_buf s)))
       (b2_buf s @ replicate (64 - length (b2_buf s)) 0) True (b2_lastNode s))"

subsection \<open>The streaming hasher\<close>

record blake2sp =
  sp_leaf :: "blake2s list"
  sp_buf :: "byte list"
  sp_cur :: nat

text \<open>
  The leaf states held transposed: word \<open>j\<close> of leaf \<open>i\<close> is \<open>lanes ! j ! i\<close>. Each lane's
  column is read and written alone, so a stride is taken as a map over the lanes.
\<close>

type_synonym lanes = "u32 list list"

definition lane :: "lanes \<Rightarrow> nat \<Rightarrow> u32 list" where
  "lane h i = map (\<lambda>j. h ! j ! i) [0..<8]"

definition lanes_of :: "(nat \<Rightarrow> u32 list) \<Rightarrow> lanes" where
  "lanes_of f = map (\<lambda>j. map (\<lambda>i. f i ! j) [0..<8]) [0..<8]"

function blake2sp8Generic :: "lanes \<Rightarrow> byte list \<Rightarrow> u64 \<Rightarrow> lanes" where
  "blake2sp8Generic h p t =
     (if 512 \<le> length p
      then blake2sp8Generic
             (lanes_of (\<lambda>i. b2_compress (lane h i) (t + 64) (take 64 (drop (64 * i) p)) False False))
             (drop 512 p) (t + 64)
      else h)"
  by pat_completeness auto
termination by (relation "measure (\<lambda>(h, p, t). length p)") auto

declare blake2sp8Generic.simps [simp del]

type_synonym simd_kernel = "(lanes \<Rightarrow> byte list \<Rightarrow> u64 \<Rightarrow> lanes) option"

definition blake2sp8 :: "simd_kernel \<Rightarrow> lanes \<Rightarrow> byte list \<Rightarrow> u64 \<Rightarrow> lanes" where
  "blake2sp8 simd h p t = (case simd of Some f \<Rightarrow> f h p t | None \<Rightarrow> blake2sp8Generic h p t)"

function blake2sp8Chunked :: "simd_kernel \<Rightarrow> lanes \<Rightarrow> byte list \<Rightarrow> u64 \<Rightarrow> lanes \<times> u64" where
  "blake2sp8Chunked simd h p t =
     (if p = [] then (h, t)
      else let n = min (length p) (128 * 512)
           in blake2sp8Chunked simd (blake2sp8 simd h (take n p) t) (drop n p)
                (t + word_of_nat (n div 512) * 64))"
  by pat_completeness auto
termination by (relation "measure (\<lambda>(simd, h, p, t). length p)") auto

declare blake2sp8Chunked.simps [simp del]

definition sp_dealStrides :: "simd_kernel \<Rightarrow> blake2sp \<Rightarrow> byte list \<Rightarrow> byte list \<times> blake2sp" where
  "sp_dealStrides simd s p =
     (let k = length p div 512
      in if k = 0 then (p, s)
         else let lanes = lanes_of (\<lambda>i. b2_h (sp_leaf s ! i));
                  t = b2_t (sp_leaf s ! 0);
                  (lanes, t) = (if length (b2_buf (sp_leaf s ! 0)) = 64
                                then blake2sp8Chunked simd lanes (concat (map b2_buf (sp_leaf s))) t
                                else (lanes, t));
                  (lanes, t) = blake2sp8Chunked simd lanes (take ((k - 1) * 512) p) t;
                  lst = drop ((k - 1) * 512) p
              in (drop (k * 512) p,
                  s\<lparr>sp_leaf := map (\<lambda>i. (sp_leaf s ! i)\<lparr>b2_h := lane lanes i, b2_t := t,
                                           b2_buf := take 64 (drop (64 * i) lst)\<rparr>) [0..<8]\<rparr>))"

definition sp_init :: blake2sp where
  "sp_init = \<lparr>sp_leaf = map (\<lambda>i. b2_init (word_of_nat i) 0 (i = 7)) [0..<8], sp_buf = [], sp_cur = 0\<rparr>"

definition sp_deal :: "blake2sp \<Rightarrow> byte list \<Rightarrow> blake2sp" where
  "sp_deal s block =
     s\<lparr>sp_leaf := (sp_leaf s)[sp_cur s := b2_write (sp_leaf s ! sp_cur s) block], sp_cur := (sp_cur s + 1) mod 8\<rparr>"

text \<open>The loop of \<^verbatim>\<open>Write\<close> over whole blocks and strides.\<close>

function sp_loop :: "simd_kernel \<Rightarrow> blake2sp \<Rightarrow> byte list \<Rightarrow> blake2sp" where
  "sp_loop simd s p =
     (if 64 \<le> length p
      then if sp_cur s = 0 \<and> 512 \<le> length p
           then sp_loop simd (snd (sp_dealStrides simd s p)) (fst (sp_dealStrides simd s p))
           else sp_loop simd (sp_deal s (take 64 p)) (drop 64 p)
      else s\<lparr>sp_buf := p\<rparr>)"
  by pat_completeness auto
termination
proof (relation "measure (\<lambda>(simd, s, p). length p)", goal_cases)
  case (2 simd s p)
  then have "fst (sp_dealStrides simd s p) = drop (length p div 512 * 512) p" "0 < length p div 512"
    by (auto simp: sp_dealStrides_def Let_def div_greater_zero_iff split: prod.split)
  with 2 show ?case by simp
qed auto

declare sp_loop.simps [simp del]

definition sp_Write :: "simd_kernel \<Rightarrow> blake2sp \<Rightarrow> byte list \<Rightarrow> blake2sp" where
  "sp_Write simd s p =
     (if sp_buf s \<noteq> []
      then let c = min (64 - length (sp_buf s)) (length p); b = sp_buf s @ take c p
           in if length b < 64 then s\<lparr>sp_buf := b\<rparr>
              else sp_loop simd ((sp_deal s b)\<lparr>sp_buf := []\<rparr>) (drop c p)
      else sp_loop simd s p)"

definition sp_sum :: "blake2sp \<Rightarrow> byte list" where
  "sp_sum s =
     (let s = (if sp_buf s \<noteq> [] then (sp_deal s (sp_buf s))\<lparr>sp_buf := []\<rparr> else s)
      in b2_sum (foldl (\<lambda>root leaf. b2_write root (b2_sum leaf)) (b2_init 0 1 True) (sp_leaf s)))"

subsection \<open>Byte by byte\<close>

text \<open>The reference a hasher's \<^verbatim>\<open>write\<close> is compared with: one byte at a time.\<close>

definition b2_flush :: "blake2s \<Rightarrow> blake2s" where
  "b2_flush s = (b2_block s (b2_buf s))\<lparr>b2_buf := []\<rparr>"

definition b2_put :: "blake2s \<Rightarrow> byte \<Rightarrow> blake2s" where
  "b2_put s b = (let s = (if length (b2_buf s) = 64 then b2_flush s else s) in s\<lparr>b2_buf := b2_buf s @ [b]\<rparr>)"

abbreviation b2_feed :: "blake2s \<Rightarrow> byte list \<Rightarrow> blake2s" where
  "b2_feed s p \<equiv> foldl b2_put s p"

lemma b2_feed_room: "length (b2_buf s) + length p \<le> 64 \<Longrightarrow> b2_feed s p = s\<lparr>b2_buf := b2_buf s @ p\<rparr>"
proof (induction p rule: rev_induct)
  case (snoc x p)
  then show ?case by (simp add: b2_put_def Let_def)
qed simp

lemma b2_flush_buf [simp]: "b2_buf (b2_flush s) = []"
  by (simp add: b2_flush_def)

lemma b2_feed_full:
  assumes "length (b2_buf s) = 64" and "p \<noteq> []"
  shows "b2_feed s p = b2_feed (b2_flush s) p"
  using assms by (cases p) (simp_all add: b2_put_def Let_def)

lemma b2_feed_block:
  assumes "b2_buf s = []" and "64 < length p"
  shows "b2_feed s p = b2_feed (b2_block s (take 64 p)) (drop 64 p)"
proof -
  have "b2_feed s p = b2_feed (b2_feed s (take 64 p)) (drop 64 p)"
    by (simp flip: foldl_append)
  also have "b2_feed s (take 64 p) = s\<lparr>b2_buf := take 64 p\<rparr>"
    using assms b2_feed_room [of s "take 64 p"] by simp
  also have "b2_feed (s\<lparr>b2_buf := take 64 p\<rparr>) (drop 64 p) = b2_feed (b2_flush (s\<lparr>b2_buf := take 64 p\<rparr>)) (drop 64 p)"
    using assms(2) by (intro b2_feed_full) simp_all
  also have "b2_flush (s\<lparr>b2_buf := take 64 p\<rparr>) = b2_block s (take 64 p)"
    using assms(1) by (simp add: b2_flush_def b2_block_def)
  finally show ?thesis .
qed

lemma b2_whole_feed:
  assumes "b2_buf s = []"
  shows "b2_feed (fst (b2_whole s p)) (snd (b2_whole s p)) = b2_feed s p \<and> b2_buf (fst (b2_whole s p)) = []
    \<and> length (snd (b2_whole s p)) \<le> 64 \<and> (p \<noteq> [] \<longrightarrow> snd (b2_whole s p) \<noteq> [])"
  using assms
proof (induction s p rule: b2_whole.induct)
  case (1 s p)
  show ?case
  proof (cases "64 < length p")
    case True
    have "b2_buf (b2_block s (take 64 p)) = []" using "1.prems" by (simp add: b2_block_def)
    from "1.IH" [OF True this] True show ?thesis
      by (subst (1 2 3 4 5) b2_whole.simps) (simp add: b2_feed_block [OF "1.prems" True])
  qed (use "1.prems" in \<open>simp add: b2_whole.simps\<close>)
qed

lemma b2_write_step:
  assumes "p \<noteq> []" and "s1 = (if length (b2_buf s) = 64 then b2_flush s else s)"
    and "r = (if b2_buf s1 = [] then b2_whole s1 p else (s1, p))"
    and "c = min (64 - length (b2_buf (fst r))) (length (snd r))" and "c \<noteq> 0"
  shows "b2_write s p = b2_write ((fst r)\<lparr>b2_buf := b2_buf (fst r) @ take c (snd r)\<rparr>) (drop c (snd r))"
proof -
  have "b2_write s p = (if c = 0 then fst r
      else b2_write ((fst r)\<lparr>b2_buf := b2_buf (fst r) @ take c (snd r)\<rparr>) (drop c (snd r)))"
    unfolding assms(4,3,2) b2_flush_def using assms(1) by (simp only: b2_write.simps [of s p] Let_def if_False)
  with assms(5) show ?thesis by (simp only: if_False)
qed

lemma b2_write_feed: "length (b2_buf s) \<le> 64 \<Longrightarrow> b2_write s p = b2_feed s p"
proof (induction s p rule: b2_write.induct)
  case (1 s p)
  show ?case
  proof (cases "p = []")
    case True
    then show ?thesis by (simp add: b2_write.simps)
  next
    case False
    define s1 where "s1 = (if length (b2_buf s) = 64 then b2_flush s else s)"
    define r where "r = (if b2_buf s1 = [] then b2_whole s1 p else (s1, p))"
    define c where "c = min (64 - length (b2_buf (fst r))) (length (snd r))"
    have s1: "b2_feed s p = b2_feed s1 p" "length (b2_buf s1) < 64"
      using b2_feed_full [of s p] False "1.prems" by (auto simp: s1_def)
    have r: "b2_feed (fst r) (snd r) = b2_feed s1 p" "length (b2_buf (fst r)) < 64" "snd r \<noteq> []"
      using b2_whole_feed [of s1 p] s1 False by (auto simp: r_def)
    then have c: "c \<noteq> 0" by (simp add: c_def)
    let ?s2 = "(fst r)\<lparr>b2_buf := b2_buf (fst r) @ take c (snd r)\<rparr>"
    have "b2_write s p = b2_write ?s2 (drop c (snd r))"
      by (rule b2_write_step [OF False s1_def r_def c_def c])
    also have "\<dots> = b2_feed ?s2 (drop c (snd r))"
    proof (rule "1.IH" [OF False])
      show "s1 = (if length (b2_buf s) = 64 then (b2_block s (b2_buf s))\<lparr>b2_buf := []\<rparr> else s)"
        by (simp add: s1_def b2_flush_def)
      show "r = (if b2_buf s1 = [] then b2_whole s1 p else (s1, p))" by (simp add: r_def)
      show "c = min (64 - length (b2_buf (fst r))) (length (snd r))" by (simp add: c_def)
      show "c \<noteq> 0" by (rule c)
      show "length (b2_buf ?s2) \<le> 64" using r(2) by (simp add: c_def)
    qed
    also have "?s2 = b2_feed (fst r) (take c (snd r))"
      using r(2) by (intro b2_feed_room [symmetric]) (simp add: c_def)
    also have "b2_feed (b2_feed (fst r) (take c (snd r))) (drop c (snd r)) = b2_feed (fst r) (snd r)"
      by (simp flip: foldl_append)
    finally show ?thesis using r(1) s1(1) by simp
  qed
qed

lemma b2_feed_buf: "length (b2_buf s) \<le> 64 \<Longrightarrow> length (b2_buf (b2_feed s p)) \<le> 64"
proof (induction p rule: rev_induct)
  case (snoc x p)
  then show ?case by (simp add: b2_put_def Let_def)
qed simp

lemma b2_put_nonempty: "b2_buf (b2_put s x) \<noteq> []"
  by (simp add: b2_put_def Let_def)

lemma b2_feed_nonempty: "p \<noteq> [] \<Longrightarrow> b2_buf (b2_feed s p) \<noteq> []"
  by (cases p rule: rev_cases) (simp_all add: b2_put_nonempty)

subsection \<open>The digest of one hasher\<close>

text \<open>
  The chain of RFC 7693 over a whole message: every block but the last with the counter at
  its end, the last one padded, with the final flag and the length.
\<close>

function b2_chain :: "bool \<Rightarrow> u32 list \<Rightarrow> u64 \<Rightarrow> byte list \<Rightarrow> u32 list" where
  "b2_chain lst h t m =
     (if 64 < length m then b2_chain lst (b2_compress h (t + 64) (take 64 m) False lst) (t + 64) (drop 64 m)
      else b2_compress h (t + word_of_nat (length m)) (m @ replicate (64 - length m) 0) True lst)"
  by pat_completeness auto
termination by (relation "measure (\<lambda>(l, h, t, m). length m)") auto

declare b2_chain.simps [simp del]

definition b2_spec :: "u64 \<Rightarrow> byte \<Rightarrow> bool \<Rightarrow> byte list \<Rightarrow> byte list" where
  "b2_spec off depth lst m = b2_digest_bytes (b2_chain lst (b2_h (b2_init off depth lst)) 0 m)"

lemma b2_sum_feed:
  "length (b2_buf s) \<le> 64
     \<Longrightarrow> b2_sum (b2_feed s p) = b2_digest_bytes (b2_chain (b2_lastNode s) (b2_h s) (b2_t s) (b2_buf s @ p))"
proof (induction p arbitrary: s)
  case Nil
  then show ?case by (simp add: b2_sum_def b2_chain.simps)
next
  case (Cons x p)
  show ?case
  proof (cases "length (b2_buf s) = 64")
    case True
    have "b2_chain (b2_lastNode s) (b2_h s) (b2_t s) (b2_buf s @ x # p)
        = b2_chain (b2_lastNode s) (b2_compress (b2_h s) (b2_t s + 64) (b2_buf s) False (b2_lastNode s)) (b2_t s + 64) (x # p)"
      by (subst b2_chain.simps) (simp add: True)
    then show ?thesis using Cons.IH [of "b2_put s x"] True
      by (simp add: b2_put_def b2_flush_def b2_block_def Let_def)
  next
    case False
    then show ?thesis using Cons.IH [of "b2_put s x"] Cons.prems by (simp add: b2_put_def Let_def)
  qed
qed

lemma b2_init_fields [simp]:
  "b2_buf (b2_init off depth lst) = []" "b2_t (b2_init off depth lst) = 0"
  "b2_lastNode (b2_init off depth lst) = lst" "length (b2_h (b2_init off depth lst)) = 8"
  by (simp_all add: b2_init_def Let_def blake2sIV_def)

lemma b2_sum_init: "b2_sum (b2_feed (b2_init off depth lst) m) = b2_spec off depth lst m"
  by (simp add: b2_sum_feed b2_spec_def)

lemma b2_writes_feed:
  "length (b2_buf s) \<le> 64 \<Longrightarrow> foldl b2_write s ps = b2_feed s (concat ps)"
  by (induction ps arbitrary: s) (simp_all add: b2_write_feed b2_feed_buf)

subsection \<open>Whole strides\<close>

text \<open>The blocks a leaf takes from an input of whole strides.\<close>

function col :: "nat \<Rightarrow> byte list \<Rightarrow> byte list list" where
  "col i p = (if 512 \<le> length p then take 64 (drop (64 * i) p) # col i (drop 512 p) else [])"
  by pat_completeness auto
termination by (relation "measure (\<lambda>(i, p). length p)") auto

declare col.simps [simp del]

lemma col_append: "512 dvd length a \<Longrightarrow> col i (a @ b) = col i a @ col i b" if "i < 8"
proof (induction "length a" arbitrary: a rule: less_induct)
  case less
  show ?case
  proof (cases "a = []")
    case True
    then show ?thesis by (simp add: col.simps [of i "[]"])
  next
    case False
    then have l: "512 \<le> length a" using less.prems by (simp add: dvd_imp_le)
    have "col i (drop 512 a @ b) = col i (drop 512 a) @ col i b"
      using l less.prems by (intro less.hyps) (auto simp: dvd_diff_nat)
    then show ?thesis
      using l that by (subst col.simps, subst (2) col.simps) simp
  qed
qed

lemma col_one: "length p = 512 \<Longrightarrow> col i p = [take 64 (drop (64 * i) p)]"
  by (simp add: col.simps)

lemma col_lengths: "i < 8 \<Longrightarrow> b \<in> set (col i p) \<Longrightarrow> length b = 64"
proof (induction i p rule: col.induct)
  case (1 i p)
  then show ?case by (cases "512 \<le> length p") (auto simp: col.simps [of i p])
qed

text \<open>A leaf's state and counter over those blocks.\<close>

definition leaf_step :: "u32 list \<times> u64 \<Rightarrow> byte list \<Rightarrow> u32 list \<times> u64" where
  "leaf_step ht b = (b2_compress (fst ht) (snd ht + 64) b False False, snd ht + 64)"

lemma b2_compress_length [simp]: "length (b2_compress h t b fin lst) = 8"
  by (simp add: b2_compress_def Let_def)

lemma b2_compress_inner: "b2_compress h t b False lst = b2_compress h t b False False"
  by (simp add: b2_compress_def Let_def)

lemma lane_lanes_of: "i < 8 \<Longrightarrow> length (f i) = 8 \<Longrightarrow> lane (lanes_of f) i = f i"
  by (simp add: lane_def lanes_of_def list_eq_iff_nth_eq)

lemma lanes_of_cong: "(\<And>i. i < 8 \<Longrightarrow> f i = g i) \<Longrightarrow> lanes_of f = lanes_of g"
  by (simp add: lanes_of_def)

lemma leaf_steps_length: "length (fst ht) = 8 \<Longrightarrow> length (fst (foldl leaf_step ht bs)) = 8"
  by (cases bs rule: rev_cases) (simp_all add: leaf_step_def)

lemma leaf_steps_count: "snd (foldl leaf_step ht bs) = snd ht + of_nat (length bs) * 64"
  by (induction bs arbitrary: ht) (simp_all add: leaf_step_def algebra_simps)

lemma blake2sp8Generic_lanes:
  "(\<And>i. i < 8 \<Longrightarrow> length (f i) = 8)
     \<Longrightarrow> blake2sp8Generic (lanes_of f) p t = lanes_of (\<lambda>i. fst (foldl leaf_step (f i, t) (col i p)))"
proof (induction "length p" arbitrary: f p t rule: less_induct)
  case less
  show ?case
  proof (cases "512 \<le> length p")
    case True
    let ?g = "\<lambda>i. b2_compress (f i) (t + 64) (take 64 (drop (64 * i) p)) False False"
    have "blake2sp8Generic (lanes_of f) p t
        = blake2sp8Generic (lanes_of ?g) (drop 512 p) (t + 64)"
      using True less.prems by (subst blake2sp8Generic.simps) (simp add: lane_lanes_of cong: lanes_of_cong)
    also have "\<dots> = lanes_of (\<lambda>i. fst (foldl leaf_step (?g i, t + 64) (col i (drop 512 p))))"
      using True by (intro less.hyps) simp_all
    also have "\<dots> = lanes_of (\<lambda>i. fst (foldl leaf_step (f i, t) (col i p)))"
      using True by (subst (2) col.simps) (simp add: leaf_step_def)
    finally show ?thesis .
  qed (simp add: blake2sp8Generic.simps col.simps)
qed

text \<open>The assembly's contract: on whole strides it is \<^verbatim>\<open>blake2sp8Generic\<close>.\<close>

definition simd_contract :: "simd_kernel \<Rightarrow> bool" where
  "simd_contract simd \<longleftrightarrow>
     (\<forall>f. simd = Some f \<longrightarrow> (\<forall>h p t. p \<noteq> [] \<longrightarrow> 512 dvd length p \<longrightarrow> f h p t = blake2sp8Generic h p t))"

lemma blake2sp8_generic:
  "simd_contract simd \<Longrightarrow> p \<noteq> [] \<Longrightarrow> 512 dvd length p \<Longrightarrow> blake2sp8 simd h p t = blake2sp8Generic h p t"
  by (auto simp: simd_contract_def blake2sp8_def split: option.split)

lemma length_col: "512 dvd length p \<Longrightarrow> length (col i p) = length p div 512"
proof (induction i p rule: col.induct)
  case (1 i p)
  show ?case
  proof (cases "512 \<le> length p")
    case True
    with 1 have "length (col i (drop 512 p)) = (length p - 512) div 512" by (simp add: dvd_diff_nat)
    with True show ?thesis by (simp add: col.simps [of i p] div_if)
  qed (simp add: col.simps [of i p])
qed

lemma blake2sp8Chunked_lanes:
  assumes "simd_contract simd"
  shows "512 dvd length p \<Longrightarrow> (\<And>i. i < 8 \<Longrightarrow> length (f i) = 8)
     \<Longrightarrow> blake2sp8Chunked simd (lanes_of f) p t
         = (lanes_of (\<lambda>i. fst (foldl leaf_step (f i, t) (col i p))), t + of_nat (length p div 512) * 64)"
proof (induction "length p" arbitrary: f p t rule: less_induct)
  case less
  show ?case
  proof (cases "p = []")
    case True
    then show ?thesis by (simp add: blake2sp8Chunked.simps col.simps)
  next
    case False
    define n where "n = min (length p) (128 * 512)"
    have n: "512 dvd n" "n \<le> length p" "0 < n"
      using less.prems(1) False by (auto simp: n_def min_def)
    let ?g = "\<lambda>i. fst (foldl leaf_step (f i, t) (col i (take n p)))"
    have g: "length (?g i) = 8" if "i < 8" for i using less.prems(2) [OF that] by (simp add: leaf_steps_length)
    have "blake2sp8 simd (lanes_of f) (take n p) t = lanes_of ?g"
      using n False less.prems(2) blake2sp8_generic [OF assms, of "take n p"] blake2sp8Generic_lanes [of f] by simp
    then have "blake2sp8Chunked simd (lanes_of f) p t
        = blake2sp8Chunked simd (lanes_of ?g) (drop n p) (t + of_nat (n div 512) * 64)"
      using False by (subst blake2sp8Chunked.simps) (simp add: n_def Let_def)
    also have "\<dots> = (lanes_of (\<lambda>i. fst (foldl leaf_step (?g i, t + of_nat (n div 512) * 64) (col i (drop n p)))),
        t + of_nat (n div 512) * 64 + of_nat (length (drop n p) div 512) * 64)"
      using n less.prems(1) g by (intro less.hyps) (simp_all add: dvd_diff_nat)
    also have "t + of_nat (n div 512) * 64 + of_nat (length (drop n p) div 512) * 64
        = (t + of_nat (length p div 512) * 64 :: u64)"
    proof -
      have "length p div 512 = n div 512 + length (drop n p) div 512"
        using n less.prems(1) by (auto elim!: dvdE)
      then show ?thesis by (simp add: algebra_simps)
    qed
    also have "lanes_of (\<lambda>i. fst (foldl leaf_step (?g i, t + of_nat (n div 512) * 64) (col i (drop n p))))
        = lanes_of (\<lambda>i. fst (foldl leaf_step (f i, t) (col i p)))"
    proof (rule lanes_of_cong)
      fix i :: nat assume i: "i < 8"
      have "foldl leaf_step (f i, t) (col i (take n p)) = (?g i, t + of_nat (n div 512) * 64)"
        using n by (simp add: prod_eq_iff leaf_steps_count length_col)
      moreover have "col i p = col i (take n p) @ col i (drop n p)"
        using col_append [OF i, of "take n p" "drop n p"] n by simp
      ultimately show "fst (foldl leaf_step (?g i, t + of_nat (n div 512) * 64) (col i (drop n p)))
          = fst (foldl leaf_step (f i, t) (col i p))" by simp
    qed
    finally show ?thesis .
  qed
qed

text \<open>Feeding a leaf blocks is stepping it over all but the last, which it keeps.\<close>

definition leaf_at :: "blake2s \<Rightarrow> byte list list \<Rightarrow> blake2s" where
  "leaf_at s bs = s\<lparr>b2_h := fst (foldl leaf_step (b2_h s, b2_t s) bs), b2_t := snd (foldl leaf_step (b2_h s, b2_t s) bs)\<rparr>"

lemma leaf_at_Nil [simp]: "leaf_at s [] = s"
  by (simp add: leaf_at_def)

lemma leaf_at_snoc: "leaf_at s (bs @ [b]) = (b2_block (leaf_at s bs) b)"
  by (simp add: leaf_at_def b2_block_def leaf_step_def b2_compress_inner [of _ _ _ "b2_lastNode s"])

lemma leaf_at_fields [simp]: "b2_buf (leaf_at s bs) = b2_buf s" "b2_lastNode (leaf_at s bs) = b2_lastNode s"
  by (simp_all add: leaf_at_def)

lemma leaf_at_buf: "leaf_at (s\<lparr>b2_buf := x\<rparr>) bs = (leaf_at s bs)\<lparr>b2_buf := x\<rparr>"
  by (simp add: leaf_at_def)

lemma b2_feed_block64:
  assumes "length b = 64" and "length (b2_buf s) = 64 \<or> b2_buf s = []"
  shows "b2_feed s b = (if b2_buf s = [] then s\<lparr>b2_buf := b\<rparr> else (b2_block s (b2_buf s))\<lparr>b2_buf := b\<rparr>)"
proof (cases "b2_buf s = []")
  case True
  then show ?thesis using assms b2_feed_room [of s b] by simp
next
  case False
  then have l: "length (b2_buf s) = 64" using assms by simp
  have "b \<noteq> []" using assms(1) by auto
  then have "b2_feed s b = b2_feed (b2_flush s) b" by (rule b2_feed_full [OF l])
  also have "\<dots> = (b2_flush s)\<lparr>b2_buf := b\<rparr>" using assms(1) b2_feed_room [of "b2_flush s" b] by simp
  finally show ?thesis using False by (simp add: b2_flush_def)
qed

lemma b2_feed_blocks:
  "\<forall>b\<in>set bs. length b = 64 \<Longrightarrow> length x = 64 \<Longrightarrow> length (b2_buf s) = 64 \<or> b2_buf s = []
     \<Longrightarrow> b2_feed s (concat bs @ x) = (leaf_at s (if b2_buf s = [] then bs else b2_buf s # bs))\<lparr>b2_buf := x\<rparr>"
proof (induction bs arbitrary: x rule: rev_induct)
  case Nil
  then show ?case using leaf_at_snoc [of s "[]" "b2_buf s"] by (simp add: b2_feed_block64)
next
  case (snoc b bs)
  let ?bs = "if b2_buf s = [] then bs else b2_buf s # bs"
  have b: "length b = 64" using snoc.prems by simp
  have "b2_feed s (concat (bs @ [b]) @ x) = b2_feed (b2_feed s (concat bs @ b)) x" by simp
  also have "b2_feed s (concat bs @ b) = (leaf_at s ?bs)\<lparr>b2_buf := b\<rparr>"
    using snoc by simp
  also have "b2_feed \<dots> x = (b2_block ((leaf_at s ?bs)\<lparr>b2_buf := b\<rparr>) b)\<lparr>b2_buf := x\<rparr>"
    using b snoc.prems(2) by (subst b2_feed_block64) auto
  also have "\<dots> = (leaf_at s (?bs @ [b]))\<lparr>b2_buf := x\<rparr>"
    unfolding leaf_at_snoc by (simp add: b2_block_def)
  finally show ?case by simp
qed

subsection \<open>The tree\<close>

text \<open>
  Byte \<open>n\<close> of the input belongs to leaf \<open>n div 64 mod 8\<close>; the digest is the root's, of the
  eight leaf digests.
\<close>

definition leaf_input :: "nat \<Rightarrow> byte list \<Rightarrow> byte list" where
  "leaf_input i m = map (\<lambda>n. m ! n) (filter (\<lambda>n. n div 64 mod 8 = i) [0..<length m])"

definition blake2sp_spec :: "byte list \<Rightarrow> byte list" where
  "blake2sp_spec m =
     b2_spec 0 1 True (concat (map (\<lambda>i. b2_spec (word_of_nat i) 0 (i = 7) (leaf_input i m)) [0..<8]))"

lemma leaf_input_Nil [simp]: "leaf_input i [] = []"
  by (simp add: leaf_input_def)

lemma leaf_input_append:
  "leaf_input i (a @ b) = leaf_input i a
     @ map (\<lambda>n. (a @ b) ! n) (filter (\<lambda>n. n div 64 mod 8 = i) [length a..<length a + length b])"
proof -
  have "[0..<length (a @ b)] = [0..<length a] @ [length a..<length a + length b]"
    using upt_add_eq_append [of 0 "length a" "length b"] by simp
  then show ?thesis by (simp add: leaf_input_def nth_append)
qed

lemma map_nth_range:
  assumes "j + k \<le> length b" and "length a = m"
  shows "map (\<lambda>n. (a @ b) ! n) [m + j..<m + j + k] = take k (drop j b)"
proof (rule nth_equalityI)
  fix n assume "n < length (map (\<lambda>n. (a @ b) ! n) [m + j..<m + j + k])"
  then have n: "n < k" by simp
  have "(a @ b) ! (m + j + n) = b ! (j + n)" using assms(2) by (simp add: nth_append)
  with n assms(1) show "map (\<lambda>n. (a @ b) ! n) [m + j..<m + j + k] ! n = take k (drop j b) ! n" by simp
qed (use assms in simp)

lemma leaf_input_block:
  assumes "64 dvd length a" and "length b \<le> 64"
  shows "leaf_input i (a @ b) = leaf_input i a @ (if length a div 64 mod 8 = i then b else [])"
proof -
  have "n div 64 = length a div 64" if "n \<in> set [length a..<length a + length b]" "n < length a + 64" for n
    using that assms(1) by (auto elim!: dvdE)
  then have "filter (\<lambda>n. n div 64 mod 8 = i) [length a..<length a + length b]
      = filter (\<lambda>n. length a div 64 mod 8 = i) [length a..<length a + length b]"
    using assms(2) by (intro filter_cong refl arg_cong [where f = "\<lambda>x. x mod 8 = i"]) simp_all
  then show ?thesis
    using map_nth_range [of 0 "length b" b a "length a"] by (simp add: leaf_input_append)
qed

lemma leaf_input_stride:
  assumes "512 dvd length a" and "length p = 512" and "i < 8"
  shows "leaf_input i (a @ p) = leaf_input i a @ take 64 (drop (64 * i) p)"
proof -
  obtain q where q: "length a = 512 * q" using assms(1) by (auto elim: dvdE)
  have n: "(512 * q + r) div 64 mod 8 = r div 64" if "r < 512" for r
  proof -
    have "(512 * q + r) div 64 = 8 * q + r div 64" by simp
    moreover have "r div 64 < 8" using that by simp
    ultimately show ?thesis by simp
  qed
  have none: "filter (\<lambda>n. n div 64 mod 8 = i) [512 * q + u..<512 * q + v] = []"
    if "v \<le> 64 * i \<or> 64 * i + 64 \<le> u" "v \<le> 512" for u v
  proof -
    have "n div 64 mod 8 \<noteq> i" if "n \<in> set [512 * q + u..<512 * q + v]" for n
    proof -
      from that have b: "512 * q + u \<le> n" "n < 512 * q + v" by simp_all
      define r where "r = n - 512 * q"
      have r: "n = 512 * q + r" "u \<le> r" "r < v" using b by (simp_all add: r_def)
      then have "n div 64 mod 8 = r div 64" using n [of r] \<open>v \<le> 512\<close> by simp
      moreover have "r div 64 \<noteq> i" using r \<open>v \<le> 64 * i \<or> 64 * i + 64 \<le> u\<close> by auto
      ultimately show ?thesis by simp
    qed
    then show ?thesis by (simp add: filter_empty_conv)
  qed
  have all: "filter (\<lambda>n. n div 64 mod 8 = i) [512 * q + 64 * i..<512 * q + 64 * i + 64]
      = [512 * q + 64 * i..<512 * q + 64 * i + 64]"
  proof (rule filter_True, rule ballI)
    fix m assume "m \<in> set [512 * q + 64 * i..<512 * q + 64 * i + 64]"
    then have b: "512 * q + 64 * i \<le> m" "m < 512 * q + 64 * i + 64" by simp_all
    define r where "r = m - 512 * q"
    have r: "m = 512 * q + r" "64 * i \<le> r" "r < 64 * i + 64" using b by (simp_all add: r_def)
    then have "r div 64 = i" by (auto intro: div_nat_eqI)
    then show "m div 64 mod 8 = i" using n [of r] r assms(3) by simp
  qed
  have "[512 * q..<512 * q + 512]
      = [512 * q + 0..<512 * q + 64 * i] @ [512 * q + 64 * i..<512 * q + 64 * i + 64] @ [512 * q + (64 * i + 64)..<512 * q + 512]"
    using assms(3) upt_add_eq_append [of "512 * q" "512 * q + 64 * i" "512 - 64 * i"]
      upt_add_eq_append [of "512 * q + 64 * i" "512 * q + 64 * i + 64" "448 - 64 * i"] by (simp add: ac_simps)
  then have "filter (\<lambda>n. n div 64 mod 8 = i) [512 * q..<512 * q + 512] = [512 * q + 64 * i..<512 * q + 64 * i + 64]"
    using none [of "64 * i" 0] none [of 512 "64 * i + 64"] assms(3) by (simp only: filter_append all) simp
  then show ?thesis
    using map_nth_range [of "64 * i" 64 p a "512 * q"] assms by (simp add: leaf_input_append q)
qed

lemma leaf_input_strides:
  assumes "512 dvd length a" and "512 dvd length p" and "i < 8"
  shows "leaf_input i (a @ p) = leaf_input i a @ concat (col i p)"
  using assms
proof (induction "length p" arbitrary: a p rule: less_induct)
  case less
  show ?case
  proof (cases "p = []")
    case True
    then show ?thesis by (simp add: col.simps)
  next
    case False
    then have l: "512 \<le> length p" using less.prems(2) by (simp add: dvd_imp_le)
    have "leaf_input i ((a @ take 512 p) @ drop 512 p) = leaf_input i (a @ take 512 p) @ concat (col i (drop 512 p))"
      using l less.prems by (intro less.hyps) (simp_all add: dvd_diff_nat)
    also have "leaf_input i (a @ take 512 p) = leaf_input i a @ take 64 (drop (64 * i) (take 512 p))"
      using l less.prems by (intro leaf_input_stride) simp_all
    also have "take 64 (drop (64 * i) (take 512 p)) = take 64 (drop (64 * i) p)"
      using less.prems(3) by (simp add: drop_take min_def)
    finally show ?thesis using l by (simp add: col.simps [of i p])
  qed
qed

lemma leaf_input_stride_length:
  assumes "512 dvd length a" and "i < 8"
  shows "length (leaf_input i a) = length a div 8"
proof -
  have "map length (col i a) = map (\<lambda>_. 64) (col i a)" using col_lengths [OF assms(2)] by simp
  then have "length (concat (col i a)) = 64 * length (col i a)"
    by (simp only: length_concat sum_list_triv) simp
  then show ?thesis
    using leaf_input_strides [of "[]" a i] assms length_col [of a i] by (auto elim!: dvdE)
qed

subsection \<open>The state after any writes\<close>

text \<open>
  \<open>sp_dealt s a\<close>: the blocks \<open>a\<close> have been dealt to the leaves, each of which stands as if
  fed its bytes one at a time.
\<close>

definition leaf_fed :: "nat \<Rightarrow> byte list \<Rightarrow> blake2s" where
  "leaf_fed i m = b2_feed (b2_init (word_of_nat i) 0 (i = 7)) (leaf_input i m)"

definition sp_dealt :: "blake2sp \<Rightarrow> byte list \<Rightarrow> bool" where
  "sp_dealt s a \<longleftrightarrow> 64 dvd length a \<and> sp_cur s = length a div 64 mod 8 \<and> sp_leaf s = map (\<lambda>i. leaf_fed i a) [0..<8]"

lemma sp_dealtD:
  "sp_dealt s a \<Longrightarrow> i < 8 \<Longrightarrow> sp_leaf s ! i = leaf_fed i a"
  "sp_dealt s a \<Longrightarrow> length (sp_leaf s) = 8"
  by (simp_all add: sp_dealt_def)

lemma leaf_fed_buf: "length (b2_buf (leaf_fed i m)) \<le> 64"
  by (simp add: leaf_fed_def b2_feed_buf)

lemma leaf_fed_last [simp]: "b2_lastNode (leaf_fed i m) = (i = 7)"
proof -
  have "b2_lastNode (b2_feed s p) = b2_lastNode s" for s p
    by (induction p arbitrary: s) (simp_all add: b2_put_def b2_flush_def b2_block_def Let_def)
  then show ?thesis by (simp add: leaf_fed_def)
qed

lemma leaf_fed_block:
  assumes "64 dvd length a" and "length b \<le> 64"
  shows "leaf_fed i (a @ b) = (if length a div 64 mod 8 = i then b2_feed (leaf_fed i a) b else leaf_fed i a)"
  using assms by (simp add: leaf_fed_def leaf_input_block)

lemma sp_deal_leaves:
  assumes "sp_dealt s a" and "length b \<le> 64"
  shows "sp_leaf (sp_deal s b) = map (\<lambda>i. leaf_fed i (a @ b)) [0..<8]"
proof (rule nth_equalityI)
  have c: "sp_cur s < 8" "64 dvd length a" "sp_cur s = length a div 64 mod 8"
    using assms(1) by (simp_all add: sp_dealt_def)
  fix i assume "i < length (sp_leaf (sp_deal s b))"
  then have i: "i < 8" using sp_dealtD(2) [OF assms(1)] by (simp add: sp_deal_def)
  then show "sp_leaf (sp_deal s b) ! i = map (\<lambda>i. leaf_fed i (a @ b)) [0..<8] ! i"
    using c assms(2) sp_dealtD [OF assms(1)] leaf_fed_buf [of i a]
    by (simp add: sp_deal_def nth_list_update leaf_fed_block b2_write_feed)
qed (use sp_dealtD(2) [OF assms(1)] in \<open>simp add: sp_deal_def\<close>)

lemma sp_deal_dealt:
  assumes "sp_dealt s a" and "length b = 64"
  shows "sp_dealt (sp_deal s b) (a @ b)"
proof -
  have "length (a @ b) div 64 = length a div 64 + 1" using assms by (auto simp: sp_dealt_def elim!: dvdE)
  then have "sp_cur (sp_deal s b) = length (a @ b) div 64 mod 8"
    using assms by (simp add: sp_dealt_def sp_deal_def mod_simps)
  then show ?thesis using assms sp_deal_leaves [OF assms(1), of b] by (simp add: sp_dealt_def)
qed

subsubsection \<open>Strides\<close>

text \<open>When the leaves are in step every one has the same counter and the same fill.\<close>

lemma b2_feed_same:
  "b2_t s = b2_t s' \<Longrightarrow> length (b2_buf s) = length (b2_buf s') \<Longrightarrow> length p = length p'
     \<Longrightarrow> b2_t (b2_feed s p) = b2_t (b2_feed s' p') \<and> length (b2_buf (b2_feed s p)) = length (b2_buf (b2_feed s' p'))"
proof (induction p arbitrary: s s' p')
  case (Cons x p)
  then obtain y q where p': "p' = y # q" "length p = length q" by (cases p') auto
  have "b2_t (b2_put s x) = b2_t (b2_put s' y)" "length (b2_buf (b2_put s x)) = length (b2_buf (b2_put s' y))"
    using Cons.prems by (simp_all add: b2_put_def b2_flush_def b2_block_def Let_def)
  from Cons.IH [OF this p'(2)] show ?case by (simp add: p'(1))
qed simp

lemma b2_feed_fill:
  "length (b2_buf s) \<le> 64 \<Longrightarrow> length (b2_buf (b2_feed s p)) mod 64 = (length (b2_buf s) + length p) mod 64"
proof (induction p arbitrary: s)
  case (Cons x p)
  have "length (b2_buf (b2_put s x)) \<le> 64" using Cons.prems by (simp add: b2_put_def Let_def)
  note Cons.IH [OF this]
  also have "(length (b2_buf (b2_put s x)) + length p) mod 64 = (length (b2_buf s) + length (x # p)) mod 64"
  proof (cases "length (b2_buf s) = 64")
    case True
    have "64 + length (x # p) = (1 + length p) + 64" by simp
    then have "(64 + length (x # p)) mod 64 = (1 + length p) mod 64" by (simp only: mod_add_self2)
    with True show ?thesis by (simp add: b2_put_def Let_def)
  qed (simp add: b2_put_def Let_def)
  finally show ?case by simp
qed simp

lemma leaf_fed_in_step:
  assumes "512 dvd length a" and "i < 8"
  shows "b2_t (leaf_fed i a) = b2_t (leaf_fed 0 a)"
    and "length (b2_buf (leaf_fed i a)) = length (b2_buf (leaf_fed 0 a))"
    and "length (b2_buf (leaf_fed i a)) = 64 \<or> b2_buf (leaf_fed i a) = []"
proof -
  have l: "length (leaf_input i a) = length (leaf_input 0 a)"
    using leaf_input_stride_length [OF assms(1)] assms(2) by simp
  show "b2_t (leaf_fed i a) = b2_t (leaf_fed 0 a)"
    "length (b2_buf (leaf_fed i a)) = length (b2_buf (leaf_fed 0 a))"
    unfolding leaf_fed_def
    using b2_feed_same [OF _ _ l, of "b2_init (word_of_nat i) 0 (i = 7)" "b2_init (word_of_nat 0) 0 (0 = (7::nat))"] by simp_all
  have "length (leaf_input i a) mod 64 = 0"
    using leaf_input_stride_length [OF assms] assms(1) by (auto elim!: dvdE)
  then have "length (b2_buf (leaf_fed i a)) mod 64 = 0"
    using b2_feed_fill [of "b2_init (word_of_nat i) 0 (i = 7)" "leaf_input i a"] by (simp add: leaf_fed_def)
  then show "length (b2_buf (leaf_fed i a)) = 64 \<or> b2_buf (leaf_fed i a) = []"
    using leaf_fed_buf [of i a] by (cases "length (b2_buf (leaf_fed i a)) = 64") auto
qed

lemma concat_nth_64: "\<forall>x\<in>set xs. length x = 64 \<Longrightarrow> i < length xs \<Longrightarrow> take 64 (drop (64 * i) (concat xs)) = xs ! i"
proof (induction xs arbitrary: i)
  case (Cons x xs)
  then show ?case by (cases i) simp_all
qed simp

lemma leaf_at_count: "b2_t (leaf_at s bs) = b2_t s + of_nat (length bs) * 64"
  by (simp add: leaf_at_def leaf_steps_count)

definition leaves_in_step :: "blake2sp \<Rightarrow> bool" where
  "leaves_in_step s \<longleftrightarrow> length (sp_leaf s) = 8 \<and>
     (\<forall>i<8. length (b2_h (sp_leaf s ! i)) = 8 \<and> b2_t (sp_leaf s ! i) = b2_t (sp_leaf s ! 0)
        \<and> length (b2_buf (sp_leaf s ! i)) = length (b2_buf (sp_leaf s ! 0))
        \<and> (length (b2_buf (sp_leaf s ! i)) = 64 \<or> b2_buf (sp_leaf s ! i) = []))"

lemma leaves_in_stepD:
  assumes "leaves_in_step s"
  shows "length (sp_leaf s) = 8" and "i < 8 \<Longrightarrow> length (b2_h (sp_leaf s ! i)) = 8"
    and "i < 8 \<Longrightarrow> b2_t (sp_leaf s ! i) = b2_t (sp_leaf s ! 0)"
    and "i < 8 \<Longrightarrow> length (b2_buf (sp_leaf s ! i)) = length (b2_buf (sp_leaf s ! 0))"
    and "i < 8 \<Longrightarrow> length (b2_buf (sp_leaf s ! i)) = 64 \<or> b2_buf (sp_leaf s ! i) = []"
    and "i < 8 \<Longrightarrow> b2_buf (sp_leaf s ! i) = [] \<longleftrightarrow> b2_buf (sp_leaf s ! 0) = []"
proof -
  show "length (sp_leaf s) = 8" using assms unfolding leaves_in_step_def by blast
  {
    assume "i < 8"
    with assms show "length (b2_h (sp_leaf s ! i)) = 8" "b2_t (sp_leaf s ! i) = b2_t (sp_leaf s ! 0)"
      "length (b2_buf (sp_leaf s ! i)) = 64 \<or> b2_buf (sp_leaf s ! i) = []"
      and l: "length (b2_buf (sp_leaf s ! i)) = length (b2_buf (sp_leaf s ! 0))"
      unfolding leaves_in_step_def by blast+
    from l show "b2_buf (sp_leaf s ! i) = [] \<longleftrightarrow> b2_buf (sp_leaf s ! 0) = []" by (metis length_0_conv)
  }
qed

lemma b2_feed_h_length: "length (b2_h s) = 8 \<Longrightarrow> length (b2_h (b2_feed s q)) = 8"
  by (induction q arbitrary: s) (simp_all add: b2_put_def b2_flush_def b2_block_def Let_def)

lemma sp_dealt_in_step:
  assumes "sp_dealt s a" and "sp_cur s = 0"
  shows "leaves_in_step s" and "512 dvd length a"
proof -
  show a: "512 dvd length a" using assms by (auto simp: sp_dealt_def elim!: dvdE)
  have "length (b2_h (leaf_fed i a)) = 8" for i by (simp add: leaf_fed_def b2_feed_h_length)
  then have "length (b2_h (leaf_fed i a)) = 8 \<and> b2_t (leaf_fed i a) = b2_t (leaf_fed 0 a)
      \<and> length (b2_buf (leaf_fed i a)) = length (b2_buf (leaf_fed 0 a))
      \<and> (length (b2_buf (leaf_fed i a)) = 64 \<or> b2_buf (leaf_fed i a) = [])" if "i < 8" for i
    using leaf_fed_in_step [OF a that] by blast
  moreover have "sp_leaf s ! i = leaf_fed i a" if "i < 8" for i by (rule sp_dealtD(1) [OF assms(1) that])
  ultimately show "leaves_in_step s"
    unfolding leaves_in_step_def using sp_dealtD(2) [OF assms(1)] by (metis zero_less_numeral)
qed

text \<open>The held-back blocks laid out as one stride are one column each.\<close>

lemma held_back_col:
  assumes "leaves_in_step s" and "length (b2_buf (sp_leaf s ! 0)) = 64"
  shows "length (concat (map b2_buf (sp_leaf s))) = 512"
    and "i < 8 \<Longrightarrow> col i (concat (map b2_buf (sp_leaf s))) = [b2_buf (sp_leaf s ! i)]"
proof -
  have bufs: "\<forall>x\<in>set (map b2_buf (sp_leaf s)). length x = 64"
    using leaves_in_stepD(1,4) [OF assms(1)] assms(2) by (simp add: all_set_conv_all_nth)
  then have "map length (map b2_buf (sp_leaf s)) = map (\<lambda>_. 64) (map b2_buf (sp_leaf s))" by simp
  then show l: "length (concat (map b2_buf (sp_leaf s))) = 512"
    using leaves_in_stepD(1) [OF assms(1)] by (simp only: length_concat sum_list_triv) simp
  show "i < 8 \<Longrightarrow> col i (concat (map b2_buf (sp_leaf s))) = [b2_buf (sp_leaf s ! i)]"
    using col_one [OF l] concat_nth_64 [OF bufs, of i] leaves_in_stepD(1) [OF assms(1)] by simp
qed

text \<open>What the two kernel runs of \<^verbatim>\<open>dealStrides\<close> leave in the lanes and the counter.\<close>

lemma dealStrides_lanes:
  assumes simd: "simd_contract simd" and st: "leaves_in_step s" and p1: "512 dvd length p1"
  defines "bs \<equiv> \<lambda>i. (if b2_buf (sp_leaf s ! 0) = [] then [] else [b2_buf (sp_leaf s ! i)]) @ col i p1"
  shows "(case (if length (b2_buf (sp_leaf s ! 0)) = 64
                then blake2sp8Chunked simd (lanes_of (\<lambda>i. b2_h (sp_leaf s ! i))) (concat (map b2_buf (sp_leaf s))) (b2_t (sp_leaf s ! 0))
                else (lanes_of (\<lambda>i. b2_h (sp_leaf s ! i)), b2_t (sp_leaf s ! 0)))
          of (lanes, t) \<Rightarrow> blake2sp8Chunked simd lanes p1 t)
    = (lanes_of (\<lambda>i. b2_h (leaf_at (sp_leaf s ! i) (bs i))), b2_t (leaf_at (sp_leaf s ! 0) (bs 0)))"
proof -
  let ?l = "\<lambda>i. sp_leaf s ! i"
  let ?t = "b2_t (?l 0)"
  have h8: "length (b2_h (?l i)) = 8" and t: "b2_t (?l i) = ?t" if "i < 8" for i
    by (rule leaves_in_stepD(2) [OF st that], rule leaves_in_stepD(3) [OF st that])
  note run = blake2sp8Chunked_lanes [OF simd]
  have cnt: "t0 + of_nat (length p1 div 512) * 64 = t0 + of_nat (length (col 0 p1)) * 64" for t0 :: u64
    by (simp add: length_col [OF p1])
  show ?thesis
  proof (cases "b2_buf (?l 0) = []")
    case True
    have "lanes_of (\<lambda>i. fst (foldl leaf_step (b2_h (?l i), ?t) (col i p1))) = lanes_of (\<lambda>i. b2_h (leaf_at (?l i) (bs i)))"
    proof (rule lanes_of_cong)
      fix i :: nat assume "i < 8"
      from t [OF this] show "fst (foldl leaf_step (b2_h (?l i), ?t) (col i p1)) = b2_h (leaf_at (?l i) (bs i))"
        by (simp add: bs_def leaf_at_def True)
    qed
    with True show ?thesis
      using run [OF p1, of "\<lambda>i. b2_h (?l i)" ?t] h8 cnt by (simp add: bs_def leaf_at_count)
  next
    case False
    then have full: "length (b2_buf (?l 0)) = 64" using leaves_in_stepD(5) [OF st, of 0] by simp
    note held = held_back_col [OF st full]
    let ?g = "\<lambda>i. fst (leaf_step (b2_h (?l i), ?t) (b2_buf (?l i)))"
    have 1: "blake2sp8Chunked simd (lanes_of (\<lambda>i. b2_h (?l i))) (concat (map b2_buf (sp_leaf s))) ?t
        = (lanes_of ?g, ?t + 64)"
      using run [of "concat (map b2_buf (sp_leaf s))" "\<lambda>i. b2_h (?l i)" ?t] h8 held by (simp cong: lanes_of_cong)
    have 2: "blake2sp8Chunked simd (lanes_of ?g) p1 (?t + 64)
        = (lanes_of (\<lambda>i. fst (foldl leaf_step (?g i, ?t + 64) (col i p1))), ?t + 64 + of_nat (length (col 0 p1)) * 64)"
      using run [OF p1, of ?g "?t + 64"] cnt by (simp add: leaf_step_def)
    have "lanes_of (\<lambda>i. fst (foldl leaf_step (?g i, ?t + 64) (col i p1))) = lanes_of (\<lambda>i. b2_h (leaf_at (?l i) (bs i)))"
    proof (rule lanes_of_cong)
      fix i :: nat assume "i < 8"
      from t [OF this] show "fst (foldl leaf_step (?g i, ?t + 64) (col i p1)) = b2_h (leaf_at (?l i) (bs i))"
        by (simp add: bs_def leaf_at_def leaf_step_def False)
    qed
    with 1 2 full False show ?thesis by (simp add: bs_def leaf_at_count algebra_simps)
  qed
qed

lemma sp_dealStrides_eq:
  assumes simd: "simd_contract simd" and st: "leaves_in_step s" and len: "512 \<le> length p"
  defines "k \<equiv> length p div 512"
  shows "sp_dealStrides simd s p = (drop (512 * k) p,
    s\<lparr>sp_leaf := map (\<lambda>i. b2_feed (sp_leaf s ! i) (concat (col i (take (512 * k) p)))) [0..<8]\<rparr>)"
proof -
  let ?l = "\<lambda>i. sp_leaf s ! i"
  have k: "0 < k" "512 * k \<le> length p" using len by (simp_all add: k_def div_greater_zero_iff)
  define p1 where "p1 = take ((k - 1) * 512) p"
  define lst where "lst = drop ((k - 1) * 512) p"
  have p1: "512 dvd length p1" using k by (simp add: p1_def min_absorb2)
  have ll: "512 \<le> length lst" using k by (cases k) (simp_all add: lst_def)
  have P: "take (512 * k) p = p1 @ take 512 lst"
    using k by (cases k) (simp_all add: p1_def lst_def take_add [symmetric] mult.commute add.commute)
  define bs where "bs i = (if b2_buf (?l 0) = [] then [] else [b2_buf (?l i)]) @ col i p1" for i
  let ?L = "lanes_of (\<lambda>i. b2_h (leaf_at (?l i) (bs i)))" and ?t = "b2_t (leaf_at (?l 0) (bs 0))"
  have leaf: "(?l i)\<lparr>b2_h := lane ?L i, b2_t := ?t, b2_buf := take 64 (drop (64 * i) lst)\<rparr>
      = b2_feed (?l i) (concat (col i (take (512 * k) p)))" if i: "i < 8" for i
  proof -
    note s = leaves_in_stepD(2,3,5,6) [OF st i]
    have "lane ?L i = b2_h (leaf_at (?l i) (bs i))"
      using i s by (intro lane_lanes_of) (simp_all add: leaf_at_def leaf_steps_length)
    moreover have "?t = b2_t (leaf_at (?l i) (bs i))"
      using s(2) by (simp add: leaf_at_count bs_def length_col [OF p1])
    ultimately have "(?l i)\<lparr>b2_h := lane ?L i, b2_t := ?t, b2_buf := take 64 (drop (64 * i) lst)\<rparr>
        = (leaf_at (?l i) (bs i))\<lparr>b2_buf := take 64 (drop (64 * i) lst)\<rparr>" by (simp add: leaf_at_def)
    also have "\<dots> = b2_feed (?l i) (concat (col i p1) @ take 64 (drop (64 * i) lst))"
      using b2_feed_blocks [of "col i p1" "take 64 (drop (64 * i) lst)" "?l i"] col_lengths [OF i] s ll i
      by (simp add: bs_def)
    also have "concat (col i p1) @ take 64 (drop (64 * i) lst) = concat (col i (take (512 * k) p))"
      using col_append [OF i p1, of "take 512 lst"] col_one [of "take 512 lst" i] ll i
      by (simp add: P drop_take min_def)
    finally show ?thesis .
  qed
  obtain l0 t0 where l0: "(if length (b2_buf (?l 0)) = 64
        then blake2sp8Chunked simd (lanes_of (\<lambda>i. b2_h (?l i))) (concat (map b2_buf (sp_leaf s))) (b2_t (?l 0))
        else (lanes_of (\<lambda>i. b2_h (?l i)), b2_t (?l 0))) = (l0, t0)" by fastforce
  then have "blake2sp8Chunked simd l0 p1 t0 = (?L, ?t)"
    using dealStrides_lanes [OF simd st p1] unfolding bs_def by (simp only: prod.case)
  with l0 have "sp_dealStrides simd s p = (drop (k * 512) p,
      s\<lparr>sp_leaf := map (\<lambda>i. (?l i)\<lparr>b2_h := lane ?L i, b2_t := ?t, b2_buf := take 64 (drop (64 * i) lst)\<rparr>) [0..<8]\<rparr>)"
    using k(1) by (simp only: sp_dealStrides_def Let_def k_def [symmetric] p1_def [symmetric] lst_def [symmetric] prod.case) simp
  then show ?thesis using leaf by (simp add: mult.commute)
qed

lemma sp_dealStrides_dealt:
  assumes "simd_contract simd" and d: "sp_dealt s a" and cur: "sp_cur s = 0" and len: "512 \<le> length p"
  defines "k \<equiv> length p div 512"
  shows "sp_dealStrides simd s p = (drop (512 * k) p, snd (sp_dealStrides simd s p))"
    and "sp_dealt (snd (sp_dealStrides simd s p)) (a @ take (512 * k) p)"
proof -
  note st = sp_dealt_in_step [OF d cur]
  note eq = sp_dealStrides_eq [OF assms(1) st(1) len, folded k_def]
  show "sp_dealStrides simd s p = (drop (512 * k) p, snd (sp_dealStrides simd s p))" by (simp add: eq)
  have k: "512 dvd length (take (512 * k) p)" using len by (simp add: k_def min_absorb2)
  have "sp_leaf (snd (sp_dealStrides simd s p)) = map (\<lambda>i. leaf_fed i (a @ take (512 * k) p)) [0..<8]"
    using sp_dealtD(1) [OF d] leaf_input_strides [OF st(2) k] by (simp add: eq leaf_fed_def)
  moreover have "512 dvd length (a @ take (512 * k) p)" using st(2) k by simp
  ultimately show "sp_dealt (snd (sp_dealStrides simd s p)) (a @ take (512 * k) p)"
    using cur by (auto simp: sp_dealt_def eq elim!: dvdE)
qed

text \<open>\<open>sp_at s m\<close>: the input so far is \<open>m\<close>, and what is not dealt is in the buffer.\<close>

definition sp_at :: "blake2sp \<Rightarrow> byte list \<Rightarrow> bool" where
  "sp_at s m \<longleftrightarrow> length (sp_buf s) < 64 \<and> (\<exists>a. m = a @ sp_buf s \<and> sp_dealt s a)"

lemma sp_dealt_buf: "sp_dealt (s\<lparr>sp_buf := x\<rparr>) a \<longleftrightarrow> sp_dealt s a"
  by (simp add: sp_dealt_def)

lemma sp_loop_at:
  assumes "simd_contract simd"
  shows "sp_dealt s a \<Longrightarrow> sp_at (sp_loop simd s p) (a @ p)"
proof (induction "length p" arbitrary: s a p rule: less_induct)
  case less
  consider "length p < 64" | "64 \<le> length p" "sp_cur s = 0 \<and> 512 \<le> length p"
    | "64 \<le> length p" "\<not> (sp_cur s = 0 \<and> 512 \<le> length p)" by linarith
  then show ?case
  proof cases
    case 1
    then show ?thesis using less.prems by (subst sp_loop.simps) (auto simp: sp_at_def sp_dealt_buf)
  next
    case 2
    let ?k = "length p div 512" and ?s = "snd (sp_dealStrides simd s p)"
    have k: "0 < ?k" using 2 by (simp add: div_greater_zero_iff)
    note d = sp_dealStrides_dealt [OF assms less.prems, of p]
    have "sp_at (sp_loop simd ?s (drop (512 * ?k) p)) ((a @ take (512 * ?k) p) @ drop (512 * ?k) p)"
      using d k 2 by (intro less.hyps) simp_all
    moreover have "sp_loop simd s p = sp_loop simd ?s (drop (512 * ?k) p)"
      using 2 d(1) by (subst sp_loop.simps) (metis fst_conv)
    ultimately show ?thesis by simp
  next
    case 3
    have "sp_at (sp_loop simd (sp_deal s (take 64 p)) (drop 64 p)) ((a @ take 64 p) @ drop 64 p)"
      using 3 less.prems by (intro less.hyps sp_deal_dealt) simp_all
    moreover have "sp_loop simd s p = sp_loop simd (sp_deal s (take 64 p)) (drop 64 p)"
      using 3 by (subst sp_loop.simps) (simp only: if_True if_False)
    ultimately show ?thesis by simp
  qed
qed

lemma sp_Write_at:
  assumes simd: "simd_contract simd" and "sp_at s m"
  shows "sp_at (sp_Write simd s p) (m @ p)"
proof -
  obtain a where a: "m = a @ sp_buf s" "sp_dealt s a" and l: "length (sp_buf s) < 64"
    using assms(2) by (auto simp: sp_at_def)
  define c where "c = min (64 - length (sp_buf s)) (length p)"
  let ?b = "sp_buf s @ take c p"
  consider "sp_buf s = []" | "sp_buf s \<noteq> []" "length ?b < 64" | "sp_buf s \<noteq> []" "length ?b = 64"
  proof -
    have "length ?b \<le> 64" using l by (simp add: c_def)
    then show thesis using that by linarith
  qed
  then show ?thesis
  proof cases
    case 1
    then show ?thesis using sp_loop_at [OF simd a(2), of p] a(1) by (simp add: sp_Write_def)
  next
    case 2
    then have "take c p = p" by (auto simp: c_def min_def split: if_splits)
    with 2 have "sp_Write simd s p = s\<lparr>sp_buf := sp_buf s @ p\<rparr>" "length (sp_buf s @ p) < 64"
      by (simp_all add: sp_Write_def c_def [symmetric] Let_def)
    then show ?thesis using a by (auto simp: sp_at_def sp_dealt_buf)
  next
    case 3
    have "sp_at (sp_loop simd ((sp_deal s ?b)\<lparr>sp_buf := []\<rparr>) (drop c p)) ((a @ ?b) @ drop c p)"
      using 3 a(2) by (intro sp_loop_at [OF simd]) (simp add: sp_dealt_buf sp_deal_dealt)
    moreover have "sp_Write simd s p = sp_loop simd ((sp_deal s ?b)\<lparr>sp_buf := []\<rparr>) (drop c p)"
      using 3 by (simp add: sp_Write_def c_def [symmetric] Let_def)
    ultimately show ?thesis by (simp add: a(1))
  qed
qed

lemma sp_init_at: "sp_at sp_init []"
  by (simp add: sp_at_def sp_dealt_def sp_init_def leaf_fed_def)

lemma sp_Writes_at:
  "simd_contract simd \<Longrightarrow> sp_at s m \<Longrightarrow> sp_at (foldl (sp_Write simd) s ps) (m @ concat ps)"
proof (induction ps arbitrary: s m)
  case (Cons p ps)
  from Cons.IH [OF Cons.prems(1) sp_Write_at [OF Cons.prems, of p]] show ?case by simp
qed simp

lemma sp_sum_at:
  assumes "sp_at s m"
  shows "sp_sum s = blake2sp_spec m"
proof -
  obtain a where a: "m = a @ sp_buf s" "sp_dealt s a" and l: "length (sp_buf s) < 64"
    using assms by (auto simp: sp_at_def)
  define s' where "s' = (if sp_buf s \<noteq> [] then (sp_deal s (sp_buf s))\<lparr>sp_buf := []\<rparr> else s)"
  have leaves: "sp_leaf s' = map (\<lambda>i. leaf_fed i m) [0..<8]"
    using a sp_deal_leaves [OF a(2), of "sp_buf s"] l by (auto simp: s'_def sp_dealt_def)
  have "b2_sum (leaf_fed i m) = b2_spec (word_of_nat i) 0 (i = 7) (leaf_input i m)" for i
    by (simp add: leaf_fed_def b2_sum_init)
  then have sums: "map b2_sum (sp_leaf s') = map (\<lambda>i. b2_spec (word_of_nat i) 0 (i = 7) (leaf_input i m)) [0..<8]"
    by (simp add: leaves)
  have "sp_sum s = b2_sum (foldl b2_write (b2_init 0 1 True) (map b2_sum (sp_leaf s')))"
    by (simp add: sp_sum_def s'_def Let_def foldl_map)
  also have "\<dots> = blake2sp_spec m"
    by (simp add: b2_writes_feed b2_sum_init sums blake2sp_spec_def)
  finally show ?thesis .
qed

text \<open>C40. However the input is cut into calls of \<^verbatim>\<open>Write\<close>, and whether its blocks go one at a
  time or through the strided path and the assembly behind it (which must agree with
  \<^verbatim>\<open>blake2sp8Generic\<close>), \<^verbatim>\<open>sum\<close> gives the BLAKE2sp digest of the whole: byte
  \<open>n\<close> goes to leaf \<open>n div 64 mod 8\<close>, each leaf is the RFC 7693 chain over its bytes, and the
  root hashes the eight digests.\<close>

theorem blake2sp_exact:
  assumes "simd_contract simd"
  shows "sp_sum (foldl (sp_Write simd) sp_init ps) = blake2sp_spec (concat ps)"
  using sp_sum_at [OF sp_Writes_at [OF assms sp_init_at, of ps]] by simp

theorem blake2sp_exact_witness:
  "sp_sum (foldl (sp_Write (Some blake2sp8Generic)) sp_init [replicate 100 7, replicate 1000 9, []])
     = blake2sp_spec (concat [replicate 100 7, replicate 1000 9, []])"
  by (rule blake2sp_exact) (simp add: simd_contract_def)

end
