(* ===== verification/Sources.thy ===== *)
theory Sources
  imports Interfaces
begin

section \<open>Sources of bytes\<close>

text \<open>
  What a client of an \<^verbatim>\<open>io.Reader\<close> may rely on, as a locale, with the loops of package
  \<^verbatim>\<open>io\<close> over one: reading to the end, and \<^verbatim>\<open>io.ReadFull\<close>; and the two sources at
  the bottom of every chain: a volume's stream and an \<^verbatim>\<open>io.LimitedReader\<close> over it. A
  read is given the room of the caller's slice and returns the bytes and the error; \<open>None\<close> is
  a read that does not return.
\<close>

type_synonym 's reading = "'s \<Rightarrow> nat \<Rightarrow> (byte list \<times> err option \<times> 's) option"

text \<open>
  \<open>content s\<close> is what the source will still give, \<open>fin s\<close> the error behind it. A read may give
  fewer bytes than asked for, and the error may come with the last bytes or alone.
\<close>

locale byte_source =
  fixes rd :: "'s reading"
    and content :: "'s \<Rightarrow> byte list"
    and fin :: "'s \<Rightarrow> err"
    and ok :: "'s \<Rightarrow> bool"
  assumes rd_returns: "ok s \<Longrightarrow> 0 < n \<Longrightarrow> \<exists>bs e s'. rd s n = Some (bs, e, s') \<and> ok s'
      \<and> content s = bs @ content s' \<and> fin s' = fin s \<and> length bs \<le> n
      \<and> (e = None \<and> bs \<noteq> [] \<or> e = Some (fin s) \<and> content s' = [])"
begin

lemma rd_cases:
  assumes "ok s" and "0 < n"
  obtains (some) bs s' where "rd s n = Some (bs, None, s')" "bs \<noteq> []" "length bs \<le> n" "ok s'"
      "content s = bs @ content s'" "fin s' = fin s"
  | (ended) s' where "rd s n = Some (content s, Some (fin s), s')" "length (content s) \<le> n" "ok s'"
      "content s' = []" "fin s' = fin s"
  using rd_returns [OF assms] by auto

end

text \<open>Reading with a buffer of \<open>n\<close> bytes until the error.\<close>

partial_function (option) read_to_end :: "'s reading \<Rightarrow> nat \<Rightarrow> 's \<Rightarrow> byte list \<Rightarrow> (byte list \<times> err \<times> 's) option" where
  "read_to_end rd n s got =
     Option.bind (rd s n) (\<lambda>(bs, e, s'). case e of
        None \<Rightarrow> read_to_end rd n s' (got @ bs)
      | Some e \<Rightarrow> Some (got @ bs, e, s'))"

text \<open>\<^verbatim>\<open>io.ReadFull\<close>: the error of a read that filled the slice is dropped.\<close>

partial_function (option) full_loop ::
  "'s reading \<Rightarrow> nat \<Rightarrow> 's \<Rightarrow> byte list \<Rightarrow> (byte list \<times> err option \<times> 's) option" where
  "full_loop rd n s got =
     (if length got < n
      then Option.bind (rd s (n - length got)) (\<lambda>(bs, e, s'). case e of
             None \<Rightarrow> full_loop rd n s' (got @ bs)
           | Some x \<Rightarrow>
               Some (got @ bs,
                 (if n \<le> length (got @ bs) then None
                  else Some (if x = EOF \<and> got @ bs \<noteq> [] then ErrUnexpectedEOF else x)), s'))
      else Some (got, None, s))"

definition io_ReadFull :: "'s reading \<Rightarrow> 's full_reading" where
  "io_ReadFull rd s n = full_loop rd n s []"

context byte_source
begin

text \<open>Whatever the size of the buffer, the loop ends with the content and the final error.\<close>

lemma read_to_end_all:
  assumes "ok s" and "0 < n"
  shows "\<exists>s'. read_to_end rd n s got = Some (got @ content s, fin s, s') \<and> ok s' \<and> content s' = [] \<and> fin s' = fin s"
  using assms(1)
proof (induction "length (content s)" arbitrary: s got rule: less_induct)
  case less
  show ?case
  proof (cases rule: rd_cases [OF less.prems assms(2), case_names some ended])
    case (some bs s')
    then have "length (content s') < length (content s)" by simp
    from less.hyps [OF this some(4), of "got @ bs"] some show ?thesis
      by (subst read_to_end.simps) simp
  next
    case (ended s')
    then show ?thesis by (subst read_to_end.simps) simp
  qed
qed

text \<open>
  \<^verbatim>\<open>io.ReadFull\<close> over the source is \<open>readFull\<close> on its content: how the source cuts its
  reads cannot be told from outside.
\<close>

lemma full_loop_ok:
  assumes "ok s" and "length got \<le> n"
  shows "\<exists>s'. full_loop rd n s got = Some (take n (got @ content s),
       (if n \<le> length (got @ content s) then None
        else Some (if fin s = EOF \<and> got @ content s \<noteq> [] then ErrUnexpectedEOF else fin s)), s')
     \<and> ok s' \<and> content s' = drop (n - length got) (content s) \<and> fin s' = fin s"
  using assms
proof (induction "length (content s)" arbitrary: s got rule: less_induct)
  case less
  show ?case
  proof (cases "length got < n")
    case False
    then show ?thesis using less.prems by (subst full_loop.simps) simp
  next
    case True
    then have n: "0 < n - length got" by simp
    show ?thesis
    proof (cases rule: rd_cases [OF less.prems(1) n, case_names some ended])
      case (some bs s')
      then have "length (content s') < length (content s)" "length (got @ bs) \<le> n" using True by simp_all
      note IH = less.hyps [OF this(1) some(4) this(2)]
      have "full_loop rd n s got = full_loop rd n s' (got @ bs)"
        using some(1) True by (subst full_loop.simps) simp
      then show ?thesis using IH some by auto
    next
      case (ended s')
      then show ?thesis using True by (subst full_loop.simps) auto
    qed
  qed
qed

lemma io_ReadFull_ok:
  assumes "ok s"
  shows "\<exists>s'. io_ReadFull rd s n = Some (take n (content s),
       (if n \<le> length (content s) then None
        else Some (if fin s = EOF \<and> content s \<noteq> [] then ErrUnexpectedEOF else fin s)), s')
     \<and> ok s' \<and> content s' = drop n (content s) \<and> fin s' = fin s"
  using full_loop_ok [OF assms, of "[]" n] unfolding io_ReadFull_def list.size append_Nil diff_zero by blast

end

sublocale byte_source \<subseteq> full: full_source "io_ReadFull rd" "\<lambda>s. length (content s)" ok
proof
  fix s n assume "ok s"
  from io_ReadFull_ok [OF this, of n]
  show "\<exists>bs e s'. io_ReadFull rd s n = Some (bs, e, s') \<and> ok s'
      \<and> (e = None \<longrightarrow> length bs = n \<and> length (content s') + n \<le> length (content s))" by auto
qed

subsection \<open>A stream\<close>

definition stream_Read :: "stream reading" where
  "stream_Read s n =
     Some (if st_data s = [] then ([], Some (st_end s), s)
           else (take n (st_data s), None, s\<lparr>st_data := drop n (st_data s)\<rparr>))"

interpretation stream: byte_source stream_Read st_data st_end "\<lambda>_. True"
  by unfold_locales (auto simp: stream_Read_def)

text \<open>So \<^verbatim>\<open>io.ReadFull\<close> on a stream is what the header parsers were given.\<close>

lemma stream_full_eq: "io_ReadFull stream_Read = stream_full"
proof (intro ext)
  fix s :: stream and n
  obtain s' where s': "io_ReadFull stream_Read s n = Some (take n (st_data s),
       (if n \<le> length (st_data s) then None
        else Some (if st_end s = EOF \<and> st_data s \<noteq> [] then ErrUnexpectedEOF else st_end s)), s')"
    "st_data s' = drop n (st_data s)" "st_end s' = st_end s"
    using stream.io_ReadFull_ok [of s n] by auto
  moreover have "s' = s\<lparr>st_data := drop n (st_data s)\<rparr>" using s'(2,3) by simp
  moreover have "take n (st_data s) = [] \<longleftrightarrow> st_data s = []" if "\<not> n \<le> length (st_data s)" using that by auto
  ultimately show "io_ReadFull stream_Read s n = stream_full s n"
    by (auto simp: stream_full_def readFull_def Let_def)
qed

subsection \<open>io.LimitedReader\<close>

definition limited_Read :: "'s reading \<Rightarrow> (nat \<times> 's) reading" where
  "limited_Read rd l n =
     (case l of (limit, s) \<Rightarrow>
        if limit = 0 then Some ([], Some EOF, l)
        else Option.bind (rd s (min n limit)) (\<lambda>(bs, e, s'). Some (bs, e, (limit - length bs, s'))))"

text \<open>What is limited is the data, and the end is clean when all of it was there.\<close>

definition limited_content :: "('s \<Rightarrow> byte list) \<Rightarrow> nat \<times> 's \<Rightarrow> byte list" where
  "limited_content content l = take (fst l) (content (snd l))"

definition limited_fin :: "('s \<Rightarrow> byte list) \<Rightarrow> ('s \<Rightarrow> err) \<Rightarrow> nat \<times> 's \<Rightarrow> err" where
  "limited_fin content fin l = (if fst l \<le> length (content (snd l)) then EOF else fin (snd l))"

text \<open>Over a stream, where an error comes alone, it is a source again.\<close>

interpretation limited: byte_source "limited_Read stream_Read" "limited_content st_data" "limited_fin st_data st_end" "\<lambda>_. True"
proof
  fix l :: "nat \<times> stream" and n :: nat
  assume n: "0 < n"
  obtain k s where l: "l = (k, s)" by (cases l)
  consider (over) "k = 0" | (cut) "0 < k" "st_data s = []" | (data) "0 < k" "st_data s \<noteq> []" by blast
  then show "\<exists>bs e l'. limited_Read stream_Read l n = Some (bs, e, l') \<and> True
      \<and> limited_content st_data l = bs @ limited_content st_data l' \<and> limited_fin st_data st_end l' = limited_fin st_data st_end l
      \<and> length bs \<le> n \<and> (e = None \<and> bs \<noteq> [] \<or> e = Some (limited_fin st_data st_end l) \<and> limited_content st_data l' = [])"
  proof cases
    case data
    have "take k (st_data s) = take (min n k) (st_data s) @ take (k - min n k) (drop (min n k) (st_data s))"
      by (metis min.cobounded2 le_add_diff_inverse take_add)
    with data n l show ?thesis
      by (auto simp: limited_Read_def stream_Read_def limited_content_def limited_fin_def min_def)
  qed (use n l in \<open>auto simp: limited_Read_def stream_Read_def limited_content_def limited_fin_def\<close>)
qed

end
