(* ===== verification/Entry.thy ===== *)
theory Entry
  imports Header Blake2sp Sources
begin

section \<open>One member of the archive (entry.go)\<close>

text \<open>
  \<^verbatim>\<open>Entry\<close>: the header it was announced with and the one in force, the byte budget, the
  running checksums and the verdict. The chain its bytes come from has a type of its own
  (\<open>'c\<close>); \<^verbatim>\<open>hashedSource\<close> is the constructor that carries a hasher beside it.
  \<^verbatim>\<open>Read\<close> is two definitions, the part before the source is read and the part behind it,
  because reading a spliced source changes the entry's header in force in between. Where the
  code asks whether the Reader was closed, the answer is an argument: another goroutine may
  close it at any moment. \<open>simd\<close> is the hasher's assembly. The header is never \<^verbatim>\<open>nil\<close>
  here: the zero value of \<^verbatim>\<open>Entry\<close> is not modelled.
\<close>

subsection \<open>The code\<close>

datatype 'c source = Plain 'c | Hashed 'c blake2sp

record 'c entry =
  e_Header :: FileHeader
  e_cur :: FileHeader
  e_src :: "'c source option"
  e_size :: int
  e_remaining :: int
  e_crc :: u32
  e_done :: "err option"
  e_cancelled :: "nat option"

definition e_setSource :: "'c \<Rightarrow> 'c entry \<Rightarrow> 'c entry" where
  "e_setSource src e =
     (let fh = e_Header e
      in e\<lparr>e_src := Some (if fh_HasBlake2sp fh \<and> \<not> fh_Encrypted fh \<and> \<not> fh_UseMac fh
                          then Hashed src sp_init else Plain src)\<rparr>)"

definition newEntry :: "FileHeader \<Rightarrow> 'c option \<Rightarrow> nat option \<Rightarrow> 'c entry" where
  "newEntry fh src cancelled =
     (let e = \<lparr>e_Header = fh, e_cur = fh, e_src = None, e_size = fh_UnpackedSize fh,
               e_remaining = fh_UnpackedSize fh, e_crc = 0, e_done = None, e_cancelled = cancelled\<rparr>
      in case src of Some s \<Rightarrow> e_setSource s e | None \<Rightarrow> e)"

definition terminalEntry :: "FileHeader \<Rightarrow> err \<Rightarrow> nat option \<Rightarrow> 'c entry" where
  "terminalEntry fh cause cancelled =
     \<lparr>e_Header = fh, e_cur = fh, e_src = None, e_size = 0, e_remaining = 0, e_crc = 0,
      e_done = Some cause, e_cancelled = cancelled\<rparr>"

definition linkEntry :: "FileHeader \<Rightarrow> nat option \<Rightarrow> 'c entry" where
  "linkEntry fh cancelled =
     \<lparr>e_Header = fh, e_cur = fh, e_src = None, e_size = 0, e_remaining = 0, e_crc = 0,
      e_done = None, e_cancelled = cancelled\<rparr>"

definition e_advanceVolume :: "FileHeader \<Rightarrow> 'c entry \<Rightarrow> 'c entry" where
  "e_advanceVolume fh e = e\<lparr>e_cur := fh\<rparr>"

definition e_lastBlock :: "'c entry \<Rightarrow> bool" where
  "e_lastBlock e = fh_LastBlock (e_cur e)"

definition e_short :: "'c entry \<Rightarrow> bool" where
  "e_short e \<longleftrightarrow> 0 < e_remaining e"

definition e_truncated :: err where
  "e_truncated = Wrap [ErrTruncatedFile]"

text \<open>The hasher of the source, when it has one.\<close>

definition e_hasher :: "'c entry \<Rightarrow> blake2sp option" where
  "e_hasher e = (case e_src e of Some (Hashed c h) \<Rightarrow> Some h | _ \<Rightarrow> None)"

definition verifyChecksum :: "'c entry \<Rightarrow> err option" where
  "verifyChecksum e =
     (let cur = e_cur e
      in if e_short e then Some e_truncated
         else if \<not> fh_LastBlock cur then Some (Wrap [ErrCorruptFileHeader])
         else if e_size e = 0 then None
         else if fh_UseMac cur \<or> (fh_HasBlake2sp cur \<and> e_hasher e = None)
           \<or> (\<not> fh_HasCRC32 cur \<and> \<not> fh_HasBlake2sp cur)
         then Some (Wrap [ErrChecksumUnsupported])
         else if fh_HasCRC32 cur \<and> e_crc e \<noteq> fh_CRC32 cur then Some (Wrap [ErrCRCMismatch])
         else if fh_HasBlake2sp cur \<and> sp_sum (the (e_hasher e)) \<noteq> fh_Blake2sp cur
         then Some (Wrap [ErrCRCMismatch])
         else None)"

text \<open>The verdict and the entry that records it; \<open>closed\<close> is \<^verbatim>\<open>chanClosed(e.cancelled)\<close>.\<close>

definition e_finish :: "bool \<Rightarrow> err option \<Rightarrow> 'c entry \<Rightarrow> err \<times> 'c entry" where
  "e_finish closed err e =
     (case e_done e of
        Some d \<Rightarrow> (d, e)
      | None \<Rightarrow>
          let err = (case err of
                       Some x \<Rightarrow> if e_short e \<and> closed \<and> \<not> err_is x ErrReaderClosed
                                 then Some (Wrap [ErrReaderClosed]) else err
                     | None \<Rightarrow> None);
              err = (if err = None then verifyChecksum e else err);
              d = (case err of None \<Rightarrow> EOF | Some x \<Rightarrow> x)
          in (d, e\<lparr>e_done := Some d\<rparr>))"

text \<open>\<^verbatim>\<open>Read\<close> before the source: an answer without reading, or how much to ask the source for.\<close>

datatype 'c gate = Answer "err option" "'c entry" | Ask nat

definition e_gate :: "bool \<Rightarrow> nat \<Rightarrow> 'c entry \<Rightarrow> 'c gate" where
  "e_gate closed n e =
     (case e_done e of
        Some d \<Rightarrow> Answer (Some d) e
      | None \<Rightarrow>
          if fh_LinkType (e_cur e) \<noteq> LinkNone then Answer (Some ErrLinkEntry) e
          else if e_src e = None then Answer (Some ErrNoActiveFile) e
          else if e_remaining e \<le> 0 then (case e_finish closed None e of (d, e) \<Rightarrow> Answer (Some d) e)
          else if closed then (case e_finish closed (Some ErrReaderClosed) e of (d, e) \<Rightarrow> Answer (Some d) e)
          else if n = 0 then Answer None e
          else Ask (if e_remaining e < int n then nat (e_remaining e) else n))"

text \<open>\<^verbatim>\<open>hashedSource.Read\<close> passes the bytes it got to the hasher.\<close>

definition hash_source :: "simd_kernel \<Rightarrow> byte list \<Rightarrow> 'c source \<Rightarrow> 'c source" where
  "hash_source simd bs s =
     (case s of Plain c \<Rightarrow> Plain c | Hashed c h \<Rightarrow> Hashed c (if bs = [] then h else sp_Write simd h bs))"

text \<open>\<^verbatim>\<open>Read\<close> behind the source, which gave \<open>bs\<close> and \<open>err\<close>.\<close>

definition e_account :: "bool \<Rightarrow> byte list \<Rightarrow> err option \<Rightarrow> 'c entry \<Rightarrow> err option \<times> 'c entry" where
  "e_account closed bs err e =
     (let e = (if bs \<noteq> [] then e\<lparr>e_crc := crc32_update (e_crc e) bs\<rparr> else e);
          e = e\<lparr>e_remaining := e_remaining e - int (length bs)\<rparr>;
          fin = (\<lambda>x. case e_finish closed x e of (d, e) \<Rightarrow> (Some d, e))
      in case err of
           None \<Rightarrow> if e_remaining e = 0 then fin None else (None, e)
         | Some x \<Rightarrow>
             if err_is x EOF \<and> 0 < e_remaining e then fin (Some e_truncated)
             else if err_is x EOF then fin None
             else fin (Some x))"

text \<open>An entry whose source is its own: the two parts with the source read in between.\<close>

definition entry_Read ::
  "simd_kernel \<Rightarrow> 'c reading \<Rightarrow> bool \<Rightarrow> bool \<Rightarrow> 'c entry \<Rightarrow> nat \<Rightarrow> (byte list \<times> err option \<times> 'c entry) option" where
  "entry_Read simd rd closed1 closed2 e n =
     (case e_gate closed1 n e of
        Answer err e \<Rightarrow> Some ([], err, e)
      | Ask k \<Rightarrow>
          (let c = (case the (e_src e) of Plain c \<Rightarrow> c | Hashed c h \<Rightarrow> c)
           in Option.bind (rd c k) (\<lambda>(bs, err, c').
                let e = e\<lparr>e_src := Some (hash_source simd bs (map_source (\<lambda>_. c') (the (e_src e))))\<rparr>
                in case e_account closed2 bs err e of (err, e) \<Rightarrow> Some (bs, err, e))))"

text \<open>\<^verbatim>\<open>Close\<close> behind the copy that drains the member: the verdict as \<^verbatim>\<open>io.Closer\<close> reports it.\<close>

definition e_Close_end :: "bool \<Rightarrow> 'c entry \<Rightarrow> err option \<times> 'c entry" where
  "e_Close_end closed e =
     (let e = (if e_done e = None then snd (e_finish closed None e) else e)
      in (if e_done e = Some EOF then None else e_done e, e))"

text \<open>What \<^verbatim>\<open>severActive\<close> (reader.go) does to the member in progress.\<close>

definition e_sever :: "bool \<Rightarrow> 'c entry \<Rightarrow> 'c entry" where
  "e_sever closed e =
     (let e = e\<lparr>e_src := None\<rparr>
      in if e_done e = None
         then snd (e_finish closed (if e_short e then Some e_truncated else None) e)
         else e)"

subsection \<open>The life of an entry\<close>

text \<open>
  Everything that can happen to an entry, with the bytes it has delivered: the caller reads
  and closes, the splice puts another header in force (also in the middle of a read), the
  traversal severs the member. What the source gives, and whether the Reader is found closed,
  is arbitrary.
\<close>

inductive entry_run :: "simd_kernel \<Rightarrow> 'c entry \<Rightarrow> byte list \<Rightarrow> bool" for simd where
  start: "entry_run simd (newEntry fh src cancelled) []"
| volume: "entry_run simd e out \<Longrightarrow> e_done e = None \<Longrightarrow> entry_run simd (e_advanceVolume fh e) out"
| answer: "entry_run simd e out \<Longrightarrow> e_gate closed n e = Answer err e' \<Longrightarrow> entry_run simd e' out"
| read: "entry_run simd e out \<Longrightarrow> e_gate closed n e = Ask k \<Longrightarrow> length bs \<le> k \<Longrightarrow> e_src e = Some src
    \<Longrightarrow> e1 = e\<lparr>e_cur := fh, e_src := Some (hash_source simd bs (map_source f src))\<rparr>
    \<Longrightarrow> e_account closed' bs err e1 = (err', e') \<Longrightarrow> entry_run simd e' (out @ bs)"
| sever: "entry_run simd e out \<Longrightarrow> entry_run simd (e_sever closed e) out"
| finish: "entry_run simd e out \<Longrightarrow> entry_run simd (snd (e_Close_end closed e)) out"

inductive_cases entry_run_cases: "entry_run simd e out"

text \<open>
  What the header in force must say, and the delivered bytes must be, for success: every
  digest it records is of the bytes, and it records one that this entry could compute.
\<close>

definition digests_match :: "FileHeader \<Rightarrow> byte list \<Rightarrow> bool" where
  "digests_match fh out \<longleftrightarrow> (fh_HasCRC32 fh \<longrightarrow> crc32_ieee out = fh_CRC32 fh)
     \<and> (fh_HasBlake2sp fh \<longrightarrow> blake2sp_spec out = fh_Blake2sp fh)"

definition e_success :: "'c entry \<Rightarrow> byte list \<Rightarrow> bool" where
  "e_success e out \<longleftrightarrow> int (length out) = fh_UnpackedSize (e_Header e) \<and> fh_LastBlock (e_cur e)
     \<and> (out \<noteq> [] \<longrightarrow> \<not> fh_UseMac (e_cur e) \<and> (fh_HasCRC32 (e_cur e) \<or> fh_HasBlake2sp (e_cur e))
          \<and> digests_match (e_cur e) out)"

text \<open>The books of the entry: budget, CRC-32 and hasher are those of the delivered bytes.\<close>

definition e_books :: "'c entry \<Rightarrow> byte list \<Rightarrow> bool" where
  "e_books e out \<longleftrightarrow> e_size e = fh_UnpackedSize (e_Header e)
     \<and> e_remaining e = fh_UnpackedSize (e_Header e) - int (length out)
     \<and> e_crc e = crc32_ieee out \<and> (\<forall>h. e_hasher e = Some h \<longrightarrow> sp_at h out)"

lemma e_books_update [simp]:
  "e_books (e\<lparr>e_done := d\<rparr>) out \<longleftrightarrow> e_books e out"
  "e_books (e\<lparr>e_cur := fh\<rparr>) out \<longleftrightarrow> e_books e out"
  "e_books e out \<Longrightarrow> e_books (e\<lparr>e_src := None\<rparr>) out"
  by (simp_all add: e_books_def e_hasher_def)

lemma verifyChecksum_success:
  assumes "e_books e out" and "0 \<le> fh_UnpackedSize (e_Header e)" and "int (length out) \<le> fh_UnpackedSize (e_Header e)"
    and "verifyChecksum e = None"
  shows "e_success e out"
proof -
  have len: "int (length out) = fh_UnpackedSize (e_Header e)"
    using assms by (auto simp: verifyChecksum_def e_short_def e_books_def Let_def split: if_splits)
  then have "e_size e = 0 \<longleftrightarrow> out = []" using assms(1) by (auto simp: e_books_def)
  moreover have "e_hasher e = Some h \<Longrightarrow> sp_sum h = blake2sp_spec out" for h
    using assms(1) sp_sum_at by (auto simp: e_books_def)
  ultimately show ?thesis
    using assms(1,4) len
    by (auto simp: verifyChecksum_def e_success_def digests_match_def e_books_def Let_def split: if_splits)
qed

definition e_inv :: "'c entry \<Rightarrow> byte list \<Rightarrow> bool" where
  "e_inv e out \<longleftrightarrow> e_books e out
     \<and> (0 \<le> fh_UnpackedSize (e_Header e) \<longrightarrow> int (length out) \<le> fh_UnpackedSize (e_Header e)
          \<and> (e_done e = Some EOF \<longrightarrow> e_success e out))"

lemma e_finish_inv:
  assumes "e_inv e out" and "err \<noteq> Some EOF" and "e_finish closed err e = (d, e')"
  shows "e_inv e' out" and "e_done e' = Some d" and "e_Header e' = e_Header e"
proof -
  show "e_done e' = Some d" "e_Header e' = e_Header e"
    using assms(3) by (auto simp: e_finish_def Let_def split: option.splits)
  show "e_inv e' out"
  proof (cases "e_done e")
    case (Some x)
    then show ?thesis using assms by (simp add: e_finish_def)
  next
    case None
    then have e': "e' = e\<lparr>e_done := Some d\<rparr>" using assms(3) by (auto simp: e_finish_def Let_def)
    have "verifyChecksum e \<noteq> Some EOF"
      by (auto simp: verifyChecksum_def e_truncated_def Let_def)
    then have "verifyChecksum e = None" if "d = EOF"
      using that assms(2,3) None by (auto simp: e_finish_def Let_def split: option.splits if_splits)
    then show ?thesis
      using assms(1) verifyChecksum_success [of e out] e' by (auto simp: e_inv_def e_success_def)
  qed
qed

lemma e_account_inv:
  assumes inv: "e_inv e out" and live: "e_done e = None" and k: "int (length bs) \<le> e_remaining e"
    and src: "e_src e = Some src" and simd: "simd_contract simd"
    and e1: "e1 = e\<lparr>e_cur := fh, e_src := Some (hash_source simd bs (map_source f src))\<rparr>"
    and acc: "e_account closed bs err e1 = (err', e')"
  shows "e_inv e' (out @ bs)"
proof -
  define e2 where "e2 = e1\<lparr>e_crc := crc32_update (e_crc e1) bs, e_remaining := e_remaining e1 - int (length bs)\<rparr>"
  have "sp_at h' (out @ bs)" if hasher: "e_hasher e2 = Some h'" for h'
  proof -
    obtain c h where s: "src = Hashed c h" "h' = (if bs = [] then h else sp_Write simd h bs)"
      using hasher by (cases src) (auto simp: e2_def e1 e_hasher_def hash_source_def)
    then have "sp_at h out" using inv src by (simp add: e_inv_def e_books_def e_hasher_def)
    then show ?thesis using sp_Write_at [OF simd, of h out bs] s(2) by auto
  qed
  then have inv2: "e_inv e2 (out @ bs)"
    using inv k live by (auto simp: e_inv_def e_books_def e2_def e1 crc32_ieee_def crc32_update_append)
  have e2: "e2 = (let e = if bs \<noteq> [] then e1\<lparr>e_crc := crc32_update (e_crc e1) bs\<rparr> else e1
                  in e\<lparr>e_remaining := e_remaining e - int (length bs)\<rparr>)"
    by (simp add: e2_def)
  have "err' = None \<and> e' = e2 \<or> (\<exists>x d. e_finish closed x e2 = (d, e') \<and> x \<noteq> Some EOF)"
    using acc unfolding e_account_def Let_def e2 [unfolded Let_def, symmetric]
    by (auto simp: e_truncated_def split: option.splits if_splits prod.splits)
  then show ?thesis using inv2 e_finish_inv(1) by blast
qed

lemma entry_run_inv:
  assumes "entry_run simd e out" and "simd_contract simd"
  shows "e_inv e out"
  using assms(1)
proof (induction rule: entry_run.induct)
  case (start fh src cancelled)
  show ?case
    using sp_init_at
    by (auto simp: newEntry_def e_setSource_def e_inv_def e_books_def e_hasher_def crc32_ieee_def Let_def split: option.splits)
next
  case (volume e out fh)
  then show ?case by (simp add: e_advanceVolume_def e_inv_def)
next
  case (answer e out closed n err e')
  then show ?case
    using e_finish_inv(1) [OF answer.IH, of None] e_finish_inv(1) [OF answer.IH, of "Some ErrReaderClosed"]
    by (auto simp: e_gate_def split: option.splits if_splits prod.splits)
next
  case (read e out closed n k bs src e1 fh f closed' err err' e')
  have "e_done e = None" "int k \<le> e_remaining e"
    using read.hyps(2) by (auto simp: e_gate_def split: option.splits if_splits prod.splits)
  then show ?case using e_account_inv [OF read.IH _ _ read.hyps(4) assms(2) read.hyps(5,6)] read.hyps(3) by auto
next
  case (sever e out closed)
  define e0 where "e0 = e\<lparr>e_src := None\<rparr>"
  have inv: "e_inv e0 out" using sever.IH by (auto simp: e0_def e_inv_def e_success_def)
  obtain d e' where fin: "e_finish closed (if e_short e0 then Some e_truncated else None) e0 = (d, e')" by fastforce
  have "e_inv e' out" by (rule e_finish_inv(1) [OF inv _ fin]) (simp add: e_truncated_def)
  then show ?case using inv fin by (simp add: e_sever_def e0_def Let_def)
next
  case (finish e out closed)
  obtain d e' where fin: "e_finish closed None e = (d, e')" by fastforce
  have "e_inv e' out" by (rule e_finish_inv(1) [OF finish.IH _ fin]) simp
  then show ?case using finish.IH fin by (simp add: e_Close_end_def Let_def)
qed

text \<open>A source has a hasher exactly when the first header calls for one.\<close>

definition hash_wanted :: "FileHeader \<Rightarrow> bool" where
  "hash_wanted fh \<longleftrightarrow> fh_HasBlake2sp fh \<and> \<not> fh_Encrypted fh \<and> \<not> fh_UseMac fh"

lemma e_finish_src [simp]:
  "e_src (snd (e_finish closed err e)) = e_src e" "e_Header (snd (e_finish closed err e)) = e_Header e"
  by (auto simp: e_finish_def Let_def split: option.split)

lemma e_finish_eq: "e_finish closed err e = (d, e') \<Longrightarrow> e_src e' = e_src e \<and> e_Header e' = e_Header e"
  using e_finish_src [of closed err e] by simp

lemma e_account_src: "e_account closed bs err e = (err', e') \<Longrightarrow> e_src e' = e_src e \<and> e_Header e' = e_Header e"
  by (auto simp: e_account_def Let_def dest!: e_finish_eq split: option.splits if_splits prod.splits)

lemma entry_run_hashed:
  "entry_run simd e out \<Longrightarrow> e_src e = Some s \<Longrightarrow> (\<exists>c h. s = Hashed c h) \<longleftrightarrow> hash_wanted (e_Header e)"
proof (induction arbitrary: s rule: entry_run.induct)
  case (start fh src cancelled)
  then show ?case by (auto simp: newEntry_def e_setSource_def hash_wanted_def Let_def split: option.splits if_splits)
next
  case (answer e out closed n err e')
  have "e_src e' = e_src e \<and> e_Header e' = e_Header e"
    using answer.hyps(2) by (auto simp: e_gate_def dest!: e_finish_eq split: option.splits if_splits prod.splits)
  then show ?case using answer by simp
next
  case (read e out closed n k bs src e1 f fh closed' err err' e')
  from e_account_src [OF read.hyps(6)] read.prems read.hyps(5)
  have "s = hash_source simd bs (map_source f src)" "e_Header e' = e_Header e" by simp_all
  then show ?case using read.IH [OF read.hyps(4)] by (cases src) (auto simp: hash_source_def)
next
  case (sever e out closed)
  then show ?case by (auto simp: e_sever_def Let_def split: if_splits)
next
  case (finish e out closed)
  then show ?case by (auto simp: e_Close_end_def Let_def split: if_splits)
qed (auto simp: e_advanceVolume_def)

subsection \<open>Properties\<close>

text \<open>C16. Success is never reported for anything but the whole member: in every state an entry can
  reach, whatever its source gave, however often other headers came into force, and whenever
  the Reader was closed, a recorded success means that exactly the declared number of bytes
  was delivered, that the header in force marks the last block, and (unless the member is
  empty) that this header records a digest of the plaintext and every digest it records is
  that of the delivered bytes.\<close>

theorem entry_success_exact:
  assumes "entry_run simd e out" and "simd_contract simd" and "0 \<le> fh_UnpackedSize (e_Header e)"
    and "e_done e = Some EOF"
  shows "e_success e out"
  using entry_run_inv [OF assms(1,2)] assms(3,4) by (simp add: e_inv_def)

definition demo_fh :: FileHeader where
  "demo_fh = FileHeader_zero\<lparr>fh_UnpackedSize := 2, fh_LastBlock := True, fh_HasCRC32 := True, fh_CRC32 := crc32_ieee [1, 2]\<rparr>"

definition demo_entry :: "unit entry" where
  "demo_entry = newEntry demo_fh (Some ()) None"

lemma demo_entry_gate: "e_gate False 5 demo_entry = Ask 2" "e_src demo_entry = Some (Plain ())"
  by (simp_all add: demo_entry_def newEntry_def e_setSource_def e_gate_def demo_fh_def FileHeader_zero_def Let_def)

lemma simd_contract_None: "simd_contract None"
  by (simp add: simd_contract_def)

lemma demo_entry_run: "entry_run None demo_entry []"
  unfolding demo_entry_def by (rule entry_run.start)

lemma demo_entry_read:
  "\<exists>e'. e_account False [1, 2] None (demo_entry\<lparr>e_cur := demo_fh, e_src := Some (hash_source None [1, 2] (map_source id (Plain ())))\<rparr>)
     = (Some EOF, e') \<and> e_done e' = Some EOF \<and> fh_UnpackedSize (e_Header e') = 2"
  by (simp add: demo_entry_def newEntry_def e_setSource_def e_account_def e_finish_def verifyChecksum_def e_short_def
      demo_fh_def FileHeader_zero_def crc32_ieee_def Let_def)

theorem entry_success_exact_witness:
  "\<exists>e. e_done e = Some EOF \<and> e_success (e :: unit entry) [1, 2]"
proof -
  obtain e' where r: "e_account False [1, 2] None (demo_entry\<lparr>e_cur := demo_fh,
      e_src := Some (hash_source None [1, 2] (map_source id (Plain ())))\<rparr>) = (Some EOF, e')"
    "e_done e' = Some EOF" "fh_UnpackedSize (e_Header e') = 2" using demo_entry_read by blast
  have "entry_run None e' ([] @ [1, 2])"
    by (rule entry_run.read [OF demo_entry_run demo_entry_gate(1) _ demo_entry_gate(2) refl r(1)]) simp
  then have "e_success e' ([] @ [1, 2])"
    by (rule entry_success_exact [OF _ simd_contract_None]) (use r in simp_all)
  then show ?thesis using r by auto
qed

text \<open>C17. The verdict of the read that completes a member is exact, in both directions, and does not
  depend on whether the Reader was closed: contradiction when the header in force says more
  parts follow, success for an empty member, unverifiable when that header records no digest
  this entry can compute (a key-derived MAC, a BLAKE2sp digest no hasher was started for, or
  none at all), and otherwise success if and only if every recorded digest matches the bytes.\<close>

theorem entry_verdict_exact:
  assumes "entry_run simd e out" and "simd_contract simd" and "e_gate closed n e = Ask k" and "length bs \<le> k"
    and "e_src e = Some src" and "int (length (out @ bs)) = fh_UnpackedSize (e_Header e)"
    and "case err of None \<Rightarrow> True | Some x \<Rightarrow> err_is x EOF"
  shows "fst (e_account closed' bs err (e\<lparr>e_cur := fh, e_src := Some (hash_source simd bs (map_source f src))\<rparr>))
    = Some (if \<not> fh_LastBlock fh then Wrap [ErrCorruptFileHeader]
            else if out @ bs = [] then EOF
            else if fh_UseMac fh \<or> (fh_HasBlake2sp fh \<and> \<not> hash_wanted (e_Header e))
              \<or> (\<not> fh_HasCRC32 fh \<and> \<not> fh_HasBlake2sp fh) then Wrap [ErrChecksumUnsupported]
            else if digests_match fh (out @ bs) then EOF
            else Wrap [ErrCRCMismatch])"
proof -
  define e1 where "e1 = e\<lparr>e_cur := fh, e_src := Some (hash_source simd bs (map_source f src))\<rparr>"
  define e2 where "e2 = e1\<lparr>e_crc := crc32_update (e_crc e1) bs, e_remaining := e_remaining e1 - int (length bs)\<rparr>"
  have live: "e_done e = None" using assms(3) by (auto simp: e_gate_def split: option.splits)
  have books: "e_books e out" using entry_run_inv [OF assms(1,2)] by (simp add: e_inv_def)
  have e2: "e2 = (let e = if bs \<noteq> [] then e1\<lparr>e_crc := crc32_update (e_crc e1) bs\<rparr> else e1
                  in e\<lparr>e_remaining := e_remaining e - int (length bs)\<rparr>)" by (simp add: e2_def)
  have fields: "e_remaining e2 = 0" "e_size e2 = fh_UnpackedSize (e_Header e)" "e_crc e2 = crc32_ieee (out @ bs)"
    "e_cur e2 = fh" "e_done e2 = None"
    using books assms(6) live by (simp_all add: e2_def e1_def e_books_def crc32_ieee_def crc32_update_append)
  have hasher: "e_hasher e2 = None \<longleftrightarrow> \<not> hash_wanted (e_Header e)"
    using entry_run_hashed [OF assms(1,5)]
    by (cases src) (auto simp: e_hasher_def e2_def e1_def hash_source_def)
  have sum: "sp_sum h = blake2sp_spec (out @ bs)" if h: "e_hasher e2 = Some h" for h
  proof -
    have "e_inv (snd (e_account closed' bs err e1)) (out @ bs)"
      by (rule entry_run_inv [OF entry_run.read [OF assms(1,3,4,5) e1_def prod.collapse [symmetric]] assms(2)])
    moreover have "e_src (snd (e_account closed' bs err e1)) = e_src e1"
      using e_account_src [OF prod.collapse [symmetric]] by blast
    ultimately show ?thesis using h sp_sum_at by (simp add: e_inv_def e_books_def e_hasher_def e2_def)
  qed
  have empty: "e_size e2 = 0 \<longleftrightarrow> out @ bs = []"
    by (metis fields(2) assms(6) length_0_conv of_nat_0_eq_iff)
  have "fst (e_account closed' bs err e1) = Some (fst (e_finish closed' None e2))"
    unfolding e_account_def Let_def e2 [unfolded Let_def, symmetric] using fields(1) assms(7)
    by (auto split: option.splits prod.splits)
  also have "fst (e_finish closed' None e2) = (case verifyChecksum e2 of None \<Rightarrow> EOF | Some x \<Rightarrow> x)"
    using fields(5) by (simp add: e_finish_def Let_def)
  also have "(case verifyChecksum e2 of None \<Rightarrow> EOF | Some x \<Rightarrow> x)
    = (if \<not> fh_LastBlock fh then Wrap [ErrCorruptFileHeader] else if out @ bs = [] then EOF
       else if fh_UseMac fh \<or> (fh_HasBlake2sp fh \<and> \<not> hash_wanted (e_Header e))
         \<or> (\<not> fh_HasCRC32 fh \<and> \<not> fh_HasBlake2sp fh) then Wrap [ErrChecksumUnsupported]
       else if digests_match fh (out @ bs) then EOF else Wrap [ErrCRCMismatch])"
    unfolding verifyChecksum_def Let_def fields(4) hasher e_short_def fields(1,3) empty digests_match_def
    using sum hasher by (cases "e_hasher e2") auto
  finally show ?thesis by (simp add: e1_def)
qed

theorem entry_verdict_exact_witness:
  "fst (e_account True [1, 9] (Some EOF) (demo_entry\<lparr>e_cur := demo_fh,
      e_src := Some (hash_source None [1, 9] (map_source id (Plain ())))\<rparr>)) \<noteq> Some (Wrap [ErrReaderClosed])"
  using entry_verdict_exact [OF demo_entry_run simd_contract_None demo_entry_gate(1) _ demo_entry_gate(2),
      where bs = "[1, 9]" and err = "Some EOF" and closed' = True and fh = demo_fh and f = id]
  by (simp add: demo_entry_def newEntry_def e_setSource_def demo_fh_def FileHeader_zero_def hash_wanted_def Let_def)

text \<open>Closing the Reader is blamed for a member's end exactly when the member was cut short by it: a
  member still owed bytes is refused at the entrance, without reading; an error of the source
  in mid-read becomes the cancellation if bytes are missing then, and stays itself otherwise
  (unless it already was the cancellation).\<close>

theorem entry_closed_exact:
  assumes "e_done e = None" and "e_src e \<noteq> None" and "fh_LinkType (e_cur e) = LinkNone"
  shows "(0 < e_remaining e \<longrightarrow>
        e_gate True n e = Answer (Some ErrReaderClosed) (e\<lparr>e_done := Some ErrReaderClosed\<rparr>))
    \<and> (\<exists>d. fst (e_account True bs (Some x) e) = Some d
        \<and> (err_is d ErrReaderClosed \<longleftrightarrow>
            int (length bs) < e_remaining e \<or> (\<not> err_is x EOF \<and> err_is x ErrReaderClosed)))"
proof (intro conjI impI)
  show "0 < e_remaining e \<Longrightarrow> e_gate True n e = Answer (Some ErrReaderClosed) (e\<lparr>e_done := Some ErrReaderClosed\<rparr>)"
    using assms by (auto simp: e_gate_def e_finish_def Let_def)
  show "\<exists>d. fst (e_account True bs (Some x) e) = Some d \<and> (err_is d ErrReaderClosed \<longleftrightarrow>
      int (length bs) < e_remaining e \<or> (\<not> err_is x EOF \<and> err_is x ErrReaderClosed))"
    using assms(1)
    by (auto simp: e_account_def e_finish_def verifyChecksum_def e_short_def e_truncated_def Let_def)
qed

theorem entry_closed_exact_witness:
  "e_gate True 5 demo_entry = Answer (Some ErrReaderClosed) (demo_entry\<lparr>e_done := Some ErrReaderClosed\<rparr>)"
  using entry_closed_exact [of demo_entry 5 "[]" EOF]
  by (simp add: demo_entry_def newEntry_def e_setSource_def demo_fh_def FileHeader_zero_def Let_def)

end
