(* ===== verification/Crypto.thy ===== *)
theory Crypto
  imports Header Sources
begin

section \<open>Encryption (crypto.go, header_crypt.go, verify_password.go)\<close>

text \<open>
  The reader that decrypts a chained stream whatever chunks its source gives, the key
  derivation and the password check, and encrypted block headers. AES and HMAC-SHA256 are of
  Go's standard library: \<open>aes\<close> decrypts one 16-byte block under a key, \<open>hmac\<close> is the MAC of
  a message under a key; the chaining is modelled here.
\<close>

type_synonym aes = "byte list \<Rightarrow> byte list \<Rightarrow> byte list"
type_synonym hmac = "byte list \<Rightarrow> byte list \<Rightarrow> byte list"

definition xor_bytes :: "byte list \<Rightarrow> byte list \<Rightarrow> byte list" where
  "xor_bytes a b = map2 (XOR) a b"

subsection \<open>Cipher block chaining\<close>

text \<open>
  \<^verbatim>\<open>CryptBlocks\<close> of a CBC decrypter whose last ciphertext block is \<open>prev\<close>: only whole
  blocks are taken.
\<close>

function cbc_decrypt :: "(byte list \<Rightarrow> byte list) \<Rightarrow> byte list \<Rightarrow> byte list \<Rightarrow> byte list" where
  "cbc_decrypt D prev ct =
     (if length ct < 16 then []
      else xor_bytes (D (take 16 ct)) prev @ cbc_decrypt D (take 16 ct) (drop 16 ct))"
  by pat_completeness auto
termination by (relation "measure (\<lambda>(D, prev, ct). length ct)") auto

declare cbc_decrypt.simps [simp del]

function cbc_last :: "byte list \<Rightarrow> byte list \<Rightarrow> byte list" where
  "cbc_last prev ct = (if length ct < 16 then prev else cbc_last (take 16 ct) (drop 16 ct))"
  by pat_completeness auto
termination by (relation "measure (\<lambda>(prev, ct). length ct)") auto

declare cbc_last.simps [simp del]

record 's cbcDecryptReader =
  cb_r :: 's
  cb_dec :: "byte list \<Rightarrow> byte list"
  cb_prev :: "byte list"
  cb_inBuf :: "byte list"
  cb_outBuf :: "byte list"
  cb_err :: "err option"

text \<open>\<^verbatim>\<open>aes.NewCipher\<close> accepts keys of 16, 24 and 32 bytes only.\<close>

definition newCBCDecryptReader :: "aes \<Rightarrow> 's \<Rightarrow> byte list \<Rightarrow> byte list \<Rightarrow> err + 's cbcDecryptReader" where
  "newCBCDecryptReader aes r key iv =
     (if length key \<in> {16, 24, 32}
      then Inr \<lparr>cb_r = r, cb_dec = aes key, cb_prev = iv, cb_inBuf = [], cb_outBuf = [], cb_err = None\<rparr>
      else Inl (Other ''invalid key size''))"

text \<open>The loop that fills the input buffer up to a block; a hard error drops what it holds.\<close>

partial_function (option) cbc_fill ::
  "'s reading \<Rightarrow> 's cbcDecryptReader \<Rightarrow> (err option \<times> 's cbcDecryptReader) option" where
  "cbc_fill rd c =
     (if length (cb_inBuf c) < 16 \<and> cb_err c = None
      then Option.bind (rd (cb_r c) (4096 - length (cb_inBuf c))) (\<lambda>(bs, e, s).
               let c' = c\<lparr>cb_r := s, cb_inBuf := cb_inBuf c @ bs\<rparr>
               in case e of
                    None \<Rightarrow> cbc_fill rd c'
                  | Some x \<Rightarrow>
                      if err_is x EOF then Some (None, c'\<lparr>cb_err := Some EOF\<rparr>)
                      else Some (Some x, c'\<lparr>cb_err := Some x, cb_inBuf := []\<rparr>))
      else Some (None, c))"

definition cbc_serve :: "'s cbcDecryptReader \<Rightarrow> nat \<Rightarrow> byte list \<times> err option \<times> 's cbcDecryptReader" where
  "cbc_serve c n = (take n (cb_outBuf c), None, c\<lparr>cb_outBuf := drop n (cb_outBuf c)\<rparr>)"

definition cbc_Read :: "'s reading \<Rightarrow> 's cbcDecryptReader reading" where
  "cbc_Read rd c n =
     (if cb_outBuf c \<noteq> [] then Some (cbc_serve c n)
      else if cb_err c \<noteq> None \<and> cb_inBuf c = [] then Some ([], cb_err c, c)
      else Option.bind (cbc_fill rd c) (\<lambda>(e, c).
        if e \<noteq> None then Some ([], e, c)
        else if length (cb_inBuf c) < 16
        then let c = (if cb_inBuf c \<noteq> [] then c\<lparr>cb_inBuf := [], cb_err := Some ErrUnexpectedEOF\<rparr> else c)
             in Some ([], cb_err c, c)
        else let k = length (cb_inBuf c) div 16 * 16; ct = take k (cb_inBuf c)
             in Some (cbc_serve (c\<lparr>cb_outBuf := cbc_decrypt (cb_dec c) (cb_prev c) ct,
                                  cb_prev := cbc_last (cb_prev c) ct,
                                  cb_inBuf := drop k (cb_inBuf c)\<rparr>) n)))"

subsection \<open>Key derivation and the password check\<close>

fun pbkdf2_rounds :: "hmac \<Rightarrow> byte list \<Rightarrow> nat \<Rightarrow> byte list \<times> byte list \<Rightarrow> byte list \<times> byte list" where
  "pbkdf2_rounds hmac password 0 st = st"
| "pbkdf2_rounds hmac password (Suc n) (u, fn) =
     (let u = hmac password u in pbkdf2_rounds hmac password n (u, xor_bytes fn u))"

definition pbkdf2HmacSha256 :: "hmac \<Rightarrow> byte list \<Rightarrow> byte list \<Rightarrow> nat \<Rightarrow> byte list \<times> byte list" where
  "pbkdf2HmacSha256 hmac password salt iter =
     (let u = hmac password (salt @ [0, 0, 0, 1]);
          st = pbkdf2_rounds hmac password (iter - 1) (u, u);
          key = snd st;
          st = pbkdf2_rounds hmac password 16 st;
          st = pbkdf2_rounds hmac password 16 st
      in (key, snd st))"

definition fold_check :: "byte list \<Rightarrow> byte list" where
  "fold_check v = foldl (\<lambda>acc i. acc[i mod 8 := acc ! (i mod 8) XOR v ! i]) (replicate 8 0) [0..<32]"

definition verifyEncCheck :: "byte list \<Rightarrow> byte list \<Rightarrow> err option" where
  "verifyEncCheck pswCheckVal encCheck =
     (if length encCheck < 8 then Some (Other ''corrupt encryption check data'')
      else if take 8 encCheck \<noteq> fold_check pswCheckVal then Some ErrWrongPassword
      else None)"

definition maxKdfCount :: nat where "maxKdfCount = 24"

definition errKdfCountExceeded :: err where
  "errKdfCountExceeded = Other ''KdfCount exceeds maximum''"

text \<open>The check value is the code's byte slice; an absent one is \<open>[]\<close> (Go's \<^verbatim>\<open>nil\<close>).\<close>

definition verifyPasswordCheck ::
  "hmac \<Rightarrow> nat \<Rightarrow> byte list \<Rightarrow> byte list \<Rightarrow> byte list \<Rightarrow> bool \<times> bool \<times> err option" where
  "verifyPasswordCheck hmac kdfCount salt checkValue password =
     (if checkValue = [] then (False, False, None)
      else if password = [] then (False, True, Some ErrPasswordRequired)
      else if maxKdfCount < kdfCount then (False, True, Some errKdfCountExceeded)
      else case verifyEncCheck (snd (pbkdf2HmacSha256 hmac password salt (2 ^ kdfCount))) checkValue of
             Some e \<Rightarrow> if err_is e ErrWrongPassword then (False, True, None) else (False, True, Some e)
           | None \<Rightarrow> (True, True, None))"

definition verifyFileHeaderPassword :: "hmac \<Rightarrow> FileHeader \<Rightarrow> byte list \<Rightarrow> bool \<times> bool \<times> err option" where
  "verifyFileHeaderPassword hmac fh password =
     verifyPasswordCheck hmac (fh_KdfCount fh) (fh_Salt fh) (fh_EncCheck fh) password"

subsection \<open>Encrypted headers\<close>

record cryptHeader =
  ch_KdfCount :: nat
  ch_Salt :: "byte list"
  ch_CheckValue :: "byte list"

definition parseCryptHeader :: "blockHeader \<Rightarrow> err + cryptHeader" where
  "parseCryptHeader h =
     (if bl_Type h \<noteq> headerTypeEncryption then Inl ErrBadBlockHeader
      else with_vint (bl_Payload h) (\<lambda>ver payload.
           if ver \<noteq> 0 then Inl ErrUnknownEncryptMethod
           else with_vint payload (\<lambda>flags payload.
             if length payload < 17 then Inl ErrCorruptEncryptData
             else let ch = \<lparr>ch_KdfCount = unat (payload ! 0), ch_Salt = take 16 (drop 1 payload), ch_CheckValue = []\<rparr>;
                      payload = drop 17 payload
                  in if 0 < flags AND 0x0001
                     then if length payload < 12 then Inl ErrCorruptEncryptData
                          else Inr (ch\<lparr>ch_CheckValue := take 12 payload\<rparr>)
                     else Inr ch)))"

definition verifyCryptHeaderPassword :: "hmac \<Rightarrow> cryptHeader \<Rightarrow> byte list \<Rightarrow> bool \<times> bool \<times> err option" where
  "verifyCryptHeaderPassword hmac ch password =
     verifyPasswordCheck hmac (ch_KdfCount ch) (ch_Salt ch) (ch_CheckValue ch) password"

definition headerKeyFromPassword :: "hmac \<Rightarrow> cryptHeader \<Rightarrow> byte list \<Rightarrow> err + byte list" where
  "headerKeyFromPassword hmac ch password =
     (if password = [] then Inl ErrPasswordRequired
      else if maxKdfCount < ch_KdfCount ch then Inl (Other ''header KdfCount exceeds maximum'')
      else case pbkdf2HmacSha256 hmac password (ch_Salt ch) (2 ^ ch_KdfCount ch) of
             (key, pswCheckVal) \<Rightarrow>
               if ch_CheckValue ch \<noteq> []
               then case verifyEncCheck pswCheckVal (ch_CheckValue ch) of Some e \<Rightarrow> Inl e | None \<Rightarrow> Inr key
               else Inr key)"

text \<open>
  The loop of \<^verbatim>\<open>readEncryptedBlockHeader\<close>: one block at a time until the header the first
  block declares is there. \<open>total\<close> is the declared length with the length of its vint.
\<close>

text \<open>What the first block says, once it is there.\<close>

definition hd_total :: "byte list \<Rightarrow> (nat \<times> nat) option \<Rightarrow> err + (nat \<times> nat) option" where
  "hd_total plain declared =
     (if declared = None \<and> 8 \<le> length plain
      then case decodeVint (drop 4 plain) of
             Inl e \<Rightarrow> Inl e
           | Inr (sizeV, n) \<Rightarrow>
               if maxHeaderSize < unat sizeV then Inl ErrBadBlockHeader
               else Inr (Some (4 + n + unat sizeV, n))
      else Inr declared)"

lemma readFull_shorter:
  assumes "0 < n" and "(x, y) = readFull s n" and "(None, s') = y"
  shows "length (st_data s') < length (st_data s)"
proof -
  have "readFull s n = (x, None, s')" using assms(2,3) by simp
  from readFull_cases(1,4) [OF this] assms(1) show ?thesis by simp
qed

function hd_loop ::
  "(byte list \<Rightarrow> byte list) \<Rightarrow> stream \<Rightarrow> byte list \<Rightarrow> byte list \<Rightarrow> (nat \<times> nat) option
     \<Rightarrow> (err + byte list \<times> nat \<times> nat) \<times> stream" where
  "hd_loop D s prev plain declared =
     (if declared \<noteq> None \<and> fst (the declared) \<le> length plain then (Inr (plain, the declared), s)
      else case readFull s 16 of
             (_, Some e, s') \<Rightarrow> (Inl (unexpectedEOF e), s')
           | (ct, None, s') \<Rightarrow>
               let plain' = plain @ cbc_decrypt D prev ct
               in case hd_total plain' declared of
                    Inl e \<Rightarrow> (Inl e, s')
                  | Inr declared' \<Rightarrow>
                      if maxHeaderSize + 32 < length plain' then (Inl ErrBadBlockHeader, s')
                      else hd_loop D s' ct plain' declared')"
  by pat_completeness auto
termination
  by (relation "measure (\<lambda>(D, s, prev, plain, declared). length (st_data s))")
    (simp, simp only: in_measure prod.case, rule readFull_shorter [of 16], simp)

declare hd_loop.simps [simp del]

definition readEncryptedBlockHeader :: "aes \<Rightarrow> byte list \<Rightarrow> stream \<Rightarrow> (err + blockHeader) \<times> stream" where
  "readEncryptedBlockHeader aes key s =
     (case readHeaderStart s 16 of
        (Inl e, s1) \<Rightarrow> (Inl e, s1)
      | (Inr iv, s1) \<Rightarrow>
          if length key \<notin> {16, 24, 32} then (Inl (Other ''invalid key size''), s1)
          else case hd_loop (aes key) s1 iv [] None of
            (Inl e, s2) \<Rightarrow> (Inl e, s2)
          | (Inr (plain, declared, n), s2) \<Rightarrow>
              let buf = drop 4 (take declared plain)
              in if le32 plain \<noteq> crc32_ieee buf then (Inl ErrBadHeaderCRC, s2)
                 else (parseBlockHeaderFields buf n, s2))"

subsection \<open>The chain of the key derivation\<close>

definition pb_U :: "hmac \<Rightarrow> byte list \<Rightarrow> byte list \<Rightarrow> nat \<Rightarrow> byte list" where
  "pb_U hmac password salt i = (hmac password ^^ i) (hmac password (salt @ [0, 0, 0, 1]))"

text \<open>The reference: block 1 of PBKDF2 with \<open>n\<close> iterations.\<close>

definition pbkdf2_block :: "hmac \<Rightarrow> byte list \<Rightarrow> byte list \<Rightarrow> nat \<Rightarrow> byte list" where
  "pbkdf2_block hmac password salt n =
     foldl xor_bytes (pb_U hmac password salt 0) (map (pb_U hmac password salt) [1..<n])"

lemma pbkdf2_rounds_chain:
  "0 < k \<Longrightarrow> pbkdf2_rounds hmac pw n (pb_U hmac pw salt (k - 1), pbkdf2_block hmac pw salt k)
     = (pb_U hmac pw salt (k + n - 1), pbkdf2_block hmac pw salt (k + n))"
proof (induction n arbitrary: k)
  case (Suc n)
  have "hmac pw (pb_U hmac pw salt (k - 1)) = pb_U hmac pw salt k"
    using Suc.prems by (cases k) (simp_all add: pb_U_def)
  moreover have "xor_bytes (pbkdf2_block hmac pw salt k) (pb_U hmac pw salt k) = pbkdf2_block hmac pw salt (Suc k)"
    using Suc.prems by (simp add: pbkdf2_block_def)
  ultimately show ?case using Suc.IH [of "Suc k"] by (simp add: Let_def)
qed simp

subsection \<open>Reading the decrypted stream\<close>

lemma cbc_decrypt_short [simp]: "length ct < 16 \<Longrightarrow> cbc_decrypt D prev ct = []"
  by (simp add: cbc_decrypt.simps)

lemma cbc_decrypt_append:
  "16 dvd length a \<Longrightarrow> cbc_decrypt D prev (a @ b) = cbc_decrypt D prev a @ cbc_decrypt D (cbc_last prev a) b"
proof (induction "length a" arbitrary: a prev rule: less_induct)
  case less
  show ?case
  proof (cases "a = []")
    case True
    then show ?thesis by (simp add: cbc_last.simps)
  next
    case False
    with less.prems have 16: "16 \<le> length a" by (metis dvd_imp_le length_greater_0_conv)
    have "16 dvd length (drop 16 a)" using less.prems 16 by simp
    from less.hyps [OF _ this] 16 show ?thesis
      by (subst (1 2) cbc_decrypt.simps, subst cbc_last.simps) simp
  qed
qed

text \<open>What is left of a part of a block is never decrypted.\<close>

lemma cbc_decrypt_blocks: "cbc_decrypt D prev a = cbc_decrypt D prev (take (length a div 16 * 16) a)"
proof -
  let ?k = "length a div 16 * 16"
  have "cbc_decrypt D prev (take ?k a @ drop ?k a)
      = cbc_decrypt D prev (take ?k a) @ cbc_decrypt D (cbc_last prev (take ?k a)) (drop ?k a)"
    by (rule cbc_decrypt_append) (simp add: min_absorb2)
  moreover have "length (drop ?k a) < 16" by simp
  ultimately show ?thesis by simp
qed

definition cbc_block_ok :: "(byte list \<Rightarrow> byte list) \<Rightarrow> bool" where
  "cbc_block_ok D \<longleftrightarrow> (\<forall>b. length b = 16 \<longrightarrow> length (D b) = 16)"

lemma length_cbc_decrypt:
  "cbc_block_ok D \<Longrightarrow> length prev = 16 \<Longrightarrow> length (cbc_decrypt D prev ct) = length ct div 16 * 16"
proof (induction D prev ct rule: cbc_decrypt.induct)
  case (1 D prev ct)
  show ?case
  proof (cases "length ct < 16")
    case False
    then have "length (D (take 16 ct)) = 16" using "1.prems"(1) by (simp add: cbc_block_ok_def)
    then have "length (xor_bytes (D (take 16 ct)) prev) = 16" using "1.prems"(2) by (simp add: xor_bytes_def)
    moreover have "length (drop 16 ct) div 16 * 16 + 16 = length ct div 16 * 16"
      using False by (simp add: le_div_geq)
    ultimately show ?thesis using False "1.IH" [OF False "1.prems"(1)]
      by (subst cbc_decrypt.simps) (simp add: min_absorb2)
  qed simp
qed

lemma length_cbc_last: "length prev = 16 \<Longrightarrow> length (cbc_last prev ct) = 16"
proof (induction prev ct rule: cbc_last.induct)
  case (1 prev ct)
  then show ?case by (subst cbc_last.simps) simp
qed

text \<open>The abstraction: what the reader will still give, and the error behind it.\<close>

definition cbc_content :: "('s \<Rightarrow> byte list) \<Rightarrow> 's cbcDecryptReader \<Rightarrow> byte list" where
  "cbc_content content c = cb_outBuf c @ cbc_decrypt (cb_dec c) (cb_prev c) (cb_inBuf c @ content (cb_r c))"

definition cbc_fin :: "('s \<Rightarrow> byte list) \<Rightarrow> 's cbcDecryptReader \<Rightarrow> err" where
  "cbc_fin content c =
     (if cb_err c = Some ErrUnexpectedEOF \<or> length (cb_inBuf c @ content (cb_r c)) mod 16 \<noteq> 0
      then ErrUnexpectedEOF else EOF)"

definition cbc_ok ::
  "('s \<Rightarrow> byte list) \<Rightarrow> ('s \<Rightarrow> err) \<Rightarrow> ('s \<Rightarrow> bool) \<Rightarrow> 's cbcDecryptReader \<Rightarrow> bool" where
  "cbc_ok content fin ok c \<longleftrightarrow> ok (cb_r c) \<and> err_is (fin (cb_r c)) EOF
     \<and> cbc_block_ok (cb_dec c) \<and> length (cb_prev c) = 16 \<and> length (cb_inBuf c) < 16
     \<and> (cb_err c = None \<or> cb_err c = Some EOF \<and> content (cb_r c) = []
        \<or> cb_err c = Some ErrUnexpectedEOF \<and> content (cb_r c) = [] \<and> cb_inBuf c = [])"

context byte_source
begin

lemma cbc_fill_ok:
  assumes "ok (cb_r c)" and "err_is (fin (cb_r c)) EOF" and "cb_err c = None" and "length (cb_inBuf c) < 4096"
  shows "\<exists>s b e. cbc_fill rd c = Some (None, c\<lparr>cb_r := s, cb_inBuf := b, cb_err := e\<rparr>) \<and> ok s \<and> fin s = fin (cb_r c)
    \<and> b @ content s = cb_inBuf c @ content (cb_r c) \<and> (e = None \<or> e = Some EOF \<and> content s = [])
    \<and> (16 \<le> length b \<or> e = Some EOF)"
  using assms
proof (induction "length (content (cb_r c))" arbitrary: c rule: less_induct)
  case less
  show ?case
  proof (cases "length (cb_inBuf c) < 16")
    case False
    have "c = c\<lparr>cb_r := cb_r c, cb_inBuf := cb_inBuf c, cb_err := None\<rparr>" using less.prems(3) by simp
    moreover have "cbc_fill rd c = Some (None, c)" using False by (subst cbc_fill.simps) simp
    ultimately show ?thesis using less.prems False by (metis not_less)
  next
    case True
    let ?n = "4096 - length (cb_inBuf c)"
    have n: "0 < ?n" using less.prems by simp
    show ?thesis
    proof (cases rule: rd_cases [OF less.prems(1) n, case_names some ended])
      case (some bs s)
      let ?c = "c\<lparr>cb_r := s, cb_inBuf := cb_inBuf c @ bs\<rparr>"
      have step: "cbc_fill rd c = cbc_fill rd ?c"
        using some(1) True less.prems(3) by (subst cbc_fill.simps) (simp add: Let_def)
      show ?thesis
      proof (cases "length (cb_inBuf c @ bs) < 16")
        case c16: True
        have dec: "length (content (cb_r ?c)) < length (content (cb_r c))" using some by simp
        have "ok (cb_r ?c)" "err_is (fin (cb_r ?c)) EOF" "cb_err ?c = None" "length (cb_inBuf ?c) < 4096"
          using some less.prems c16 by simp_all
        from less.hyps [OF dec this] show ?thesis using some unfolding step by simp
      next
        case False
        then have "cbc_fill rd ?c = Some (None, ?c)" by (subst cbc_fill.simps) simp
        moreover have "?c = c\<lparr>cb_r := s, cb_inBuf := cb_inBuf c @ bs, cb_err := None\<rparr>" using less.prems(3) by simp
        ultimately have "cbc_fill rd c = Some (None, c\<lparr>cb_r := s, cb_inBuf := cb_inBuf c @ bs, cb_err := None\<rparr>)"
          unfolding step by simp
        then show ?thesis using some False by (metis append.assoc not_less)
      qed
    next
      case (ended s)
      then have "cbc_fill rd c = Some (None, c\<lparr>cb_r := s, cb_inBuf := cb_inBuf c @ content (cb_r c), cb_err := Some EOF\<rparr>)"
        using True less.prems(2,3) by (subst cbc_fill.simps) (simp add: Let_def)
      with ended show ?thesis by (metis append.right_neutral)
    qed
  qed
qed

text \<open>One read of the decrypting reader, in every state it can be in.\<close>

lemma cbc_Read_ok:
  assumes "cbc_ok content fin ok c" and "0 < n"
  shows "\<exists>bs e c'. cbc_Read rd c n = Some (bs, e, c') \<and> cbc_ok content fin ok c'
    \<and> cbc_content content c = bs @ cbc_content content c' \<and> cbc_fin content c' = cbc_fin content c
    \<and> length bs \<le> n \<and> (e = None \<and> bs \<noteq> [] \<or> e = Some (cbc_fin content c) \<and> cbc_content content c' = [])"
proof -
  note k = assms(1) [unfolded cbc_ok_def]
  consider (served) "cb_outBuf c \<noteq> []" | (over) "cb_outBuf c = []" "cb_err c \<noteq> None"
    | (fill) "cb_outBuf c = []" "cb_err c = None" by blast
  then show ?thesis
  proof cases
    case served
    then show ?thesis using assms k
      by (auto simp: cbc_Read_def cbc_serve_def cbc_ok_def cbc_content_def cbc_fin_def)
  next
    case over
    then show ?thesis
      using k assms(1) by (subst cbc_Read_def, subst cbc_fill.simps)
        (auto simp: cbc_ok_def cbc_content_def cbc_fin_def)
  next
    case fill
    obtain s b e where f: "cbc_fill rd c = Some (None, c\<lparr>cb_r := s, cb_inBuf := b, cb_err := e\<rparr>)"
      and s: "ok s" "fin s = fin (cb_r c)" "b @ content s = cb_inBuf c @ content (cb_r c)"
        "e = None \<or> e = Some EOF \<and> content s = []" "16 \<le> length b \<or> e = Some EOF"
      using cbc_fill_ok [of c] k fill by auto
    let ?c = "c\<lparr>cb_r := s, cb_inBuf := b, cb_err := e\<rparr>"
    show ?thesis
    proof (cases "length b < 16")
      case True
      then have "e = Some EOF" "content s = []" using s by auto
      then show ?thesis
        using True fill f k s
        by (cases "b = []") (auto simp: cbc_Read_def cbc_ok_def cbc_content_def cbc_fin_def Let_def)
    next
      case False
      define m where "m = length b div 16 * 16"
      define out where "out = cbc_decrypt (cb_dec c) (cb_prev c) (take m b)"
      let ?c' = "?c\<lparr>cb_outBuf := drop n out, cb_prev := cbc_last (cb_prev c) (take m b), cb_inBuf := drop m b\<rparr>"
      have r: "cbc_Read rd c n = Some (take n out, None, ?c')"
        using False fill f by (simp add: cbc_Read_def cbc_serve_def Let_def m_def out_def)
      have m: "m \<le> length b" "16 dvd m" "16 \<le> m" "length b - m < 16"
        using False by (auto simp: m_def intro: less_eq_div_iff_mult_less_eq [THEN iffD1])
      have len: "length out = m"
        using length_cbc_decrypt [of "cb_dec c" "cb_prev c" "take m b"] k m by (simp add: out_def min_absorb2)
      have "cbc_decrypt (cb_dec c) (cb_prev c) (b @ content s)
          = out @ cbc_decrypt (cb_dec c) (cbc_last (cb_prev c) (take m b)) (drop m b @ content s)"
        using cbc_decrypt_append [of "take m b" "cb_dec c" "cb_prev c" "drop m b @ content s"] m
        by (simp add: out_def min_absorb2 flip: append_assoc)
      then have cont: "cbc_content content c = take n out @ cbc_content content ?c'"
        using fill s(3) by (simp add: cbc_content_def)
      have "length (drop m b @ content s) mod 16 = length (b @ content s) mod 16"
      proof -
        have "length (b @ content s) = length (drop m b @ content s) + 16 * (m div 16)" using m by simp
        then show ?thesis by (simp only: mod_mult_self2)
      qed
      then have fin': "cbc_fin content ?c' = cbc_fin content c"
        using fill s(3,4) by (auto simp: cbc_fin_def)
      have "cbc_ok content fin ok ?c'"
        using k s m by (auto simp: cbc_ok_def length_cbc_last)
      moreover have "take n out \<noteq> []" using len m assms(2) by auto
      ultimately show ?thesis using r cont fin' by auto
    qed
  qed
qed

end

text \<open>
  The reader over any source that ends cleanly is a source again: the interface it provides.
\<close>

lemma cbc_byte_source:
  assumes "byte_source rd content fin ok"
  shows "byte_source (cbc_Read rd) (cbc_content content) (cbc_fin content) (cbc_ok content fin ok)"
proof
  fix c n
  assume "cbc_ok content fin ok c" "0 < (n :: nat)"
  from byte_source.cbc_Read_ok [OF assms this]
  show "\<exists>bs e c'. cbc_Read rd c n = Some (bs, e, c') \<and> cbc_ok content fin ok c'
      \<and> cbc_content content c = bs @ cbc_content content c' \<and> cbc_fin content c' = cbc_fin content c
      \<and> length bs \<le> n \<and> (e = None \<and> bs \<noteq> [] \<or> e = Some (cbc_fin content c) \<and> cbc_content content c' = [])"
    by blast
qed

interpretation cbc_limited: byte_source "cbc_Read (limited_Read stream_Read)" "cbc_content (limited_content st_data)"
  "cbc_fin (limited_content st_data)" "cbc_ok (limited_content st_data) (limited_fin st_data st_end) (\<lambda>_. True)"
  by (rule cbc_byte_source [OF limited.byte_source_axioms])

subsection \<open>The writer of encrypted headers\<close>

text \<open>Encryption with the block cipher \<open>E\<close>, and the padding to whole blocks.\<close>

function cbc_encrypt :: "(byte list \<Rightarrow> byte list) \<Rightarrow> byte list \<Rightarrow> byte list \<Rightarrow> byte list" where
  "cbc_encrypt E prev pt =
     (if length pt < 16 then []
      else let ct = E (xor_bytes (take 16 pt) prev) in ct @ cbc_encrypt E ct (drop 16 pt))"
  by pat_completeness auto
termination by (relation "measure (\<lambda>(E, prev, pt). length pt)") auto

declare cbc_encrypt.simps [simp del]

definition pad16 :: "byte list \<Rightarrow> byte list" where
  "pad16 b = b @ replicate ((16 - length b mod 16) mod 16) 0"

definition enc_crypted :: "(byte list \<Rightarrow> byte list) \<Rightarrow> byte list \<Rightarrow> blockHeader \<Rightarrow> byte list" where
  "enc_crypted E iv h = iv @ cbc_encrypt E iv (pad16 (enc_block h))"

definition inverse_cipher :: "(byte list \<Rightarrow> byte list) \<Rightarrow> (byte list \<Rightarrow> byte list) \<Rightarrow> bool" where
  "inverse_cipher E D \<longleftrightarrow> (\<forall>b. length b = 16 \<longrightarrow> length (E b) = 16 \<and> D (E b) = b)"

lemma xor_bytes_cancel: "length a = length b \<Longrightarrow> xor_bytes (xor_bytes a b) b = a"
  unfolding xor_bytes_def by (induction a b rule: list_induct2) (simp_all add: xor.assoc)

lemma length_xor_bytes [simp]: "length (xor_bytes a b) = min (length a) (length b)"
  by (simp add: xor_bytes_def)

lemma pad16_length: "16 dvd length (pad16 b)" "length b \<le> length (pad16 b)" "length (pad16 b) < length b + 16"
  by (auto simp: pad16_def dvd_eq_mod_eq_0 mod_simps) presburger+

lemma take_pad16: "take (length b) (pad16 b) = b"
  by (simp add: pad16_def)

text \<open>
  From the second block on: with \<open>plain\<close> already there and \<open>pt\<close> still to come, the loop
  decrypts exactly the rest and stops.
\<close>

lemma hd_loop_rest:
  assumes "inverse_cipher E D" and "length prev = 16" and "16 dvd length pt"
    and "L \<le> length plain + length pt" and "length plain + length pt < L + 16"
    and "length plain + length pt \<le> maxHeaderSize + 32"
  shows "hd_loop D \<lparr>st_data = cbc_encrypt E prev pt @ rest, st_end = e\<rparr> prev plain (Some (L, n))
    = (Inr (plain @ pt, L, n), \<lparr>st_data = rest, st_end = e\<rparr>)"
  using assms
proof (induction "length pt" arbitrary: prev plain pt rule: less_induct)
  case less
  show ?case
  proof (cases "pt = []")
    case True
    then show ?thesis using less.prems by (simp add: hd_loop.simps cbc_encrypt.simps)
  next
    case False
    with less.prems(3) have 16: "16 \<le> length pt" by (metis dvd_imp_le length_greater_0_conv)
    let ?p = "take 16 pt" and ?ct = "E (xor_bytes (take 16 pt) prev)"
    have ct: "length ?ct = 16" "D ?ct = xor_bytes ?p prev"
      using less.prems(1,2) 16 by (simp_all add: inverse_cipher_def)
    have enc: "cbc_encrypt E prev pt = ?ct @ cbc_encrypt E ?ct (drop 16 pt)"
      using 16 by (subst cbc_encrypt.simps) (simp add: Let_def)
    have dec: "cbc_decrypt D prev ?ct = ?p"
      using ct 16 less.prems(2) xor_bytes_cancel [of ?p prev] by (subst cbc_decrypt.simps) simp
    have more: "\<not> L \<le> length plain" using less.prems(5) 16 by simp
    have "hd_loop D \<lparr>st_data = cbc_encrypt E ?ct (drop 16 pt) @ rest, st_end = e\<rparr> ?ct (plain @ ?p) (Some (L, n))
        = (Inr ((plain @ ?p) @ drop 16 pt, L, n), \<lparr>st_data = rest, st_end = e\<rparr>)"
      using less.prems 16 ct by (intro less.hyps) simp_all
    then show ?thesis
      using more less.prems(6) ct 16
      by (subst hd_loop.simps) (simp add: enc hd_total_def dec Let_def)
  qed
qed

lemma hd_loop_first:
  assumes "inverse_cipher E D" and "length iv = 16" and "block_writable h"
  shows "\<exists>n. hd_loop D \<lparr>st_data = cbc_encrypt E iv (pad16 (enc_block h)) @ rest, st_end = e\<rparr> iv [] None
    = (Inr (pad16 (enc_block h), length (enc_block h), n), \<lparr>st_data = rest, st_end = e\<rparr>)
    \<and> parseBlockHeaderFields (drop 4 (enc_block h)) n = Inr h \<and> le32 (enc_block h) = crc32_ieee (drop 4 (enc_block h))"
proof -
  let ?F = "enc_fields h" and ?n = "word_of_nat (length (enc_fields h)) :: u64"
  let ?v = "encodeVint ?n"
  have w: "length ?F \<le> maxHeaderSize" using assms(3) by (simp add: block_writable_def)
  have u: "unat ?n = length ?F" by (rule unat_small_length [OF w])
  have v3: "length ?v \<le> 3" by (rule encodeVint_small) (use w in \<open>simp add: u maxHeaderSize_def\<close>)
  define B where "B = enc_block h"
  define P where "P = pad16 B"
  obtain c where B: "B = c @ ?v @ ?F" "length c = 4" "le32 B = crc32_ieee (?v @ ?F)"
    by (auto simp: B_def enc_block_def Let_def)
  have lenB: "length B = 4 + length ?v + length ?F" "length ?v > 0" using B encodeVint_length [of ?n] by simp_all
  have P: "16 dvd length P" "length B \<le> length P" "length P < length B + 16" "take (length B) P = B"
    unfolding P_def by (rule pad16_length pad16_length take_pad16)+
  then have P16: "16 \<le> length P" using lenB by (metis add_is_0 dvd_imp_le le_0_eq neq0_conv)
  let ?p = "take 16 P" and ?ct = "E (xor_bytes (take 16 P) iv)"
  have ct: "length ?ct = 16" "D ?ct = xor_bytes ?p iv" using assms(1,2) P16 by (simp_all add: inverse_cipher_def)
  have enc: "cbc_encrypt E iv P = ?ct @ cbc_encrypt E ?ct (drop 16 P)"
    using P16 by (subst cbc_encrypt.simps) (simp add: Let_def)
  have dec: "cbc_decrypt D iv ?ct = ?p"
    using ct P16 assms(2) xor_bytes_cancel [of ?p iv] by (subst cbc_decrypt.simps) simp
  have "\<exists>x. P = c @ ?v @ x" using P(4) B by (metis append.assoc append_take_drop_id)
  then obtain x where x: "P = c @ ?v @ x" by blast
  have "drop 4 ?p = ?v @ take (12 - length ?v) x" using x B(2) v3 by simp
  then have "hd_total ?p None = Inr (Some (length B, length ?v))"
    using w P16 by (simp add: hd_total_def decode_encode u lenB)
  moreover have "hd_loop D \<lparr>st_data = cbc_encrypt E ?ct (drop 16 P) @ rest, st_end = e\<rparr> ?ct ?p (Some (length B, length ?v))
      = (Inr (?p @ drop 16 P, length B, length ?v), \<lparr>st_data = rest, st_end = e\<rparr>)"
    using P P16 ct w lenB v3 by (intro hd_loop_rest [OF assms(1)]) (simp_all add: maxHeaderSize_def)
  ultimately have "hd_loop D \<lparr>st_data = cbc_encrypt E iv P @ rest, st_end = e\<rparr> iv [] None
      = (Inr (P, length B, length ?v), \<lparr>st_data = rest, st_end = e\<rparr>)"
    using ct P16 by (subst hd_loop.simps) (simp add: enc dec Let_def maxHeaderSize_def)
  moreover have "parseBlockHeaderFields (drop 4 B) (length ?v) = Inr h" "le32 B = crc32_ieee (drop 4 B)"
    using B parse_enc_fields [OF assms(3)] by simp_all
  ultimately show ?thesis unfolding P_def B_def by blast
qed

subsection \<open>Properties\<close>

text \<open>C38. The key and the check value come off one PBKDF2 chain: the key is the block of \<open>iter\<close>
  iterations and the value the password check is compared with that of 32 more, so the three
  values RAR takes from the chain are at \<open>iter\<close>, \<open>iter + 16\<close> and \<open>iter + 32\<close>.\<close>

theorem pbkdf2_one_chain:
  "pbkdf2HmacSha256 hmac password salt iter
   = (pbkdf2_block hmac password salt (max 1 iter), pbkdf2_block hmac password salt (max 1 iter + 32))"
proof -
  let ?U = "pb_U hmac password salt" and ?T = "pbkdf2_block hmac password salt" and ?k = "max 1 iter"
  have 0: "?T 1 = ?U 0" "?U 0 = hmac password (salt @ [0, 0, 0, 1])"
    by (simp_all add: pbkdf2_block_def pb_U_def)
  have k: "1 + (iter - 1) = ?k" by simp
  have "pbkdf2_rounds hmac password (iter - 1) (?U 0, ?T 1) = (?U (?k - 1), ?T ?k)"
    using pbkdf2_rounds_chain [of 1 hmac password "iter - 1" salt] unfolding k by simp
  then show ?thesis
    using pbkdf2_rounds_chain [of ?k hmac password 16 salt] pbkdf2_rounds_chain [of "?k + 16" hmac password 16 salt]
    by (simp add: pbkdf2HmacSha256_def 0 [symmetric] Let_def add.commute)
qed

text \<open>C37. Decryption does not depend on how its source is cut: over any source that keeps the contract
  and ends cleanly, whatever the sizes of its reads and of the caller's buffer, reading the
  decrypting reader to its end terminates and gives exactly the CBC decryption of everything
  the source had, with a clean end exactly when that is whole blocks; no byte held back
  between two reads is lost.\<close>

theorem cbc_reader_exact:
  assumes "byte_source rd content fin ok" and "ok s" and "err_is (fin s) EOF"
    and "cbc_block_ok (aes key)" and "length iv = 16" and "0 < n"
    and "newCBCDecryptReader aes s key iv = Inr c"
  shows "\<exists>c'. read_to_end (cbc_Read rd) n c []
    = Some (cbc_decrypt (aes key) iv (content s),
            if length (content s) mod 16 = 0 then EOF else ErrUnexpectedEOF, c')"
proof -
  have c: "c = \<lparr>cb_r = s, cb_dec = aes key, cb_prev = iv, cb_inBuf = [], cb_outBuf = [], cb_err = None\<rparr>"
    using assms(7) by (simp add: newCBCDecryptReader_def split: if_splits)
  then have "cbc_ok content fin ok c" using assms by (simp add: cbc_ok_def)
  from byte_source.read_to_end_all [OF cbc_byte_source [OF assms(1)] this assms(6), of "[]"]
  show ?thesis by (auto simp: c cbc_content_def cbc_fin_def)
qed

theorem cbc_reader_exact_witness:
  "\<exists>c c'. newCBCDecryptReader (\<lambda>_ b. b) (20, \<lparr>st_data = replicate 20 7, st_end = EOF\<rparr>) (replicate 32 1) (replicate 16 0) = Inr c
     \<and> read_to_end (cbc_Read (limited_Read stream_Read)) 5 c []
       = Some (cbc_decrypt (\<lambda>b. b) (replicate 16 0) (replicate 20 7), ErrUnexpectedEOF, c')"
proof -
  let ?s = "(20, \<lparr>st_data = replicate 20 7, st_end = EOF\<rparr>) :: nat \<times> stream"
  let ?aes = "(\<lambda>_ b. b) :: aes"
  obtain c where "newCBCDecryptReader ?aes ?s (replicate 32 1) (replicate 16 0) = Inr c"
    by (simp add: newCBCDecryptReader_def)
  moreover have "err_is (limited_fin st_data st_end ?s) EOF" by (simp add: limited_fin_def)
  moreover have "cbc_block_ok (?aes (replicate 32 1))" by (simp add: cbc_block_ok_def)
  moreover have "limited_content st_data ?s = replicate 20 7" by (simp add: limited_content_def)
  ultimately show ?thesis
    using cbc_reader_exact [OF limited.byte_source_axioms, of ?s ?aes "replicate 32 1" "replicate 16 0" 5 c] by auto
qed

text \<open>C39. An encrypted header is read back: with a cipher that undoes the writer's, the block header
  behind the initialisation vector is exactly the one written, however many cipher blocks it
  fills, and the reader stops behind its last block, padding included.\<close>

theorem encrypted_header_roundtrip:
  assumes "block_writable h" and "inverse_cipher E (aes key)" and "length key \<in> {16, 24, 32}" and "length iv = 16"
  shows "readEncryptedBlockHeader aes key \<lparr>st_data = enc_crypted E iv h @ rest, st_end = e\<rparr>
    = (Inr h, \<lparr>st_data = rest, st_end = e\<rparr>)"
proof -
  obtain n where n: "hd_loop (aes key) \<lparr>st_data = cbc_encrypt E iv (pad16 (enc_block h)) @ rest, st_end = e\<rparr> iv [] None
      = (Inr (pad16 (enc_block h), length (enc_block h), n), \<lparr>st_data = rest, st_end = e\<rparr>)"
    and p: "parseBlockHeaderFields (drop 4 (enc_block h)) n = Inr h"
    and crc: "le32 (enc_block h) = crc32_ieee (drop 4 (enc_block h))"
    using hd_loop_first [OF assms(2,4,1)] by blast
  have "le32 (pad16 (enc_block h)) = le32 (enc_block h)"
    by (simp add: pad16_def le32_def enc_block_def Let_def)
  then show ?thesis
    using assms(3,4) n p crc
    by (auto simp: readEncryptedBlockHeader_def enc_crypted_def take_pad16 Let_def)
qed

theorem encrypted_header_roundtrip_witness:
  "readEncryptedBlockHeader (\<lambda>_ b. b) (replicate 32 0)
     \<lparr>st_data = enc_crypted (\<lambda>b. b) (replicate 16 9) demo_block @ [1], st_end = EOF\<rparr>
   = (Inr demo_block, \<lparr>st_data = [1], st_end = EOF\<rparr>)"
  by (rule encrypted_header_roundtrip [OF demo_block_writable]) (simp_all add: inverse_cipher_def)

end
