(* ===== verification/Volume.thy ===== *)
theory Volume
  imports Crypto
begin

section \<open>One volume (volume.go)\<close>

text \<open>
  A volume owns the stream of one part of the set and the position in it: \<open>v_body\<close> is what
  is left of the payload of the block last read (\<^verbatim>\<open>body.N\<close>), \<open>v_err\<close> the first failure,
  which sticks. \<open>v_id\<close> tells streams apart: the place at which this one came off the channel.
  \<open>vol_next\<close> is the only way to a block header; \<open>payload_Read\<close> reads \<^verbatim>\<open>payload()\<close>, which
  aliases the body. What a closed stream still gives is the stream's own business: a function
  \<open>cl\<close> from the open stream to the closed one.
\<close>

subsection \<open>The code\<close>

record volume =
  v_id :: nat
  v_rc :: stream
  v_body :: nat
  v_hd :: "byte list option"
  v_err :: "err option"
  v_rar4 :: bool
  v_closed :: bool

definition rar5Signature :: "byte list" where
  "rar5Signature = [0x52, 0x61, 0x72, 0x21, 0x1a, 0x07, 0x01, 0x00]"

definition signatureReadError :: "err \<Rightarrow> err" where
  "signatureReadError e =
     (if err_is e EOF \<or> err_is e ErrUnexpectedEOF then Wrap [ErrUnexpectedEOF] else e)"

definition readSignature :: "stream \<Rightarrow> (err + bool) \<times> stream" where
  "readSignature s =
     (case readFull s 7 of
        (_, Some e, s) \<Rightarrow> (Inl (signatureReadError e), s)
      | (sig, None, s) \<Rightarrow>
          if take 6 sig \<noteq> take 6 rar5Signature then (Inl (Wrap [ErrUnsupportedFormat]), s)
          else if sig ! 6 = 0x00 then (Inr True, s)
          else if sig ! 6 = 0x01
          then (case readFull s 1 of
                  (_, Some e, s) \<Rightarrow> (Inl (signatureReadError e), s)
                | (b, None, s) \<Rightarrow> if b ! 0 \<noteq> 0x00 then (Inl (Wrap [ErrUnsupportedFormat]), s) else (Inr False, s))
          else (Inl (Wrap [ErrUnsupportedFormat]), s))"

definition openVolume :: "nat \<Rightarrow> stream \<Rightarrow> (err + volume) \<times> stream" where
  "openVolume i s =
     (case readSignature s of
        (Inl e, s) \<Rightarrow> (Inl e, s)
      | (Inr rar4, s) \<Rightarrow>
          (Inr \<lparr>v_id = i, v_rc = s, v_body = 0, v_hd = None, v_err = None, v_rar4 = rar4, v_closed = False\<rparr>, s))"

text \<open>The header read for the format and the encryption in force.\<close>

definition vol_header :: "aes \<Rightarrow> volume \<Rightarrow> (err + blockHeader) \<times> stream" where
  "vol_header aes v =
     (if v_rar4 v then readBlockHeader4 (v_rc v)
      else case v_hd v of
             Some key \<Rightarrow> readEncryptedBlockHeader aes key (v_rc v)
           | None \<Rightarrow> readBlockHeader (v_rc v))"

text \<open>\<^verbatim>\<open>io.Copy(io.Discard, ...)\<close> reads with a buffer of 8192 bytes and takes only a bare end of file for success.\<close>

definition vol_skip :: "volume \<Rightarrow> (err option \<times> volume) option" where
  "vol_skip v =
     Option.bind (read_to_end (limited_Read stream_Read) 8192 (v_body v, v_rc v) [])
       (\<lambda>(_, e, n, s). Some (if e = EOF then None else Some e, v\<lparr>v_rc := s, v_body := n\<rparr>))"

definition vol_next :: "aes \<Rightarrow> volume \<Rightarrow> ((err + blockHeader) \<times> volume) option" where
  "vol_next aes v =
     (case v_err v of
        Some e \<Rightarrow> Some (Inl e, v)
      | None \<Rightarrow> Option.bind (vol_skip v) (\<lambda>(e, v). Some (case e of
          Some e \<Rightarrow> (Inl e, v\<lparr>v_err := Some e\<rparr>)
        | None \<Rightarrow>
            if 0 < v_body v
            then let e = Wrap [ErrUnexpectedEOF] in (Inl e, v\<lparr>v_err := Some e\<rparr>)
            else case vol_header aes v of
                   (Inl e, s) \<Rightarrow> (Inl e, v\<lparr>v_rc := s, v_err := Some e\<rparr>)
                 | (Inr h, s) \<Rightarrow> (Inr h, v\<lparr>v_rc := s, v_body := nat (bl_DataSize h)\<rparr>))))"

definition payload_Read :: "volume reading" where
  "payload_Read v n =
     Option.bind (limited_Read stream_Read (v_body v, v_rc v) n)
       (\<lambda>(bs, e, k, s). Some (bs, e, v\<lparr>v_rc := s, v_body := k\<rparr>))"

definition vol_bodyShort :: "volume \<Rightarrow> bool" where
  "vol_bodyShort v \<longleftrightarrow> 0 < v_body v"

definition vol_useEncryptedHeaders :: "byte list \<Rightarrow> volume \<Rightarrow> volume" where
  "vol_useEncryptedHeaders key v = v\<lparr>v_hd := Some key\<rparr>"

definition vol_Close :: "(stream \<Rightarrow> stream) \<Rightarrow> volume \<Rightarrow> volume" where
  "vol_Close cl v = (if v_closed v then v else v\<lparr>v_closed := True, v_rc := cl (v_rc v)\<rparr>)"

subsection \<open>What the payload and the skip do\<close>

text \<open>The payload still to come, and how it ends.\<close>

definition vol_content :: "volume \<Rightarrow> byte list" where
  "vol_content v = take (v_body v) (st_data (v_rc v))"

definition vol_fin :: "volume \<Rightarrow> err" where
  "vol_fin v = (if v_body v \<le> length (st_data (v_rc v)) then EOF else st_end (v_rc v))"

lemma payload_Read_eq:
  "payload_Read v n =
     Some (if v_body v = 0 then ([], Some EOF, v)
           else if st_data (v_rc v) = [] then ([], Some (st_end (v_rc v)), v)
           else (take (min n (v_body v)) (st_data (v_rc v)), None,
                 v\<lparr>v_rc := (v_rc v)\<lparr>st_data := drop (min n (v_body v)) (st_data (v_rc v))\<rparr>,
                   v_body := v_body v - min (min n (v_body v)) (length (st_data (v_rc v)))\<rparr>))"
  by (simp add: payload_Read_def limited_Read_def stream_Read_def min.commute)

interpretation payload: byte_source payload_Read vol_content vol_fin "\<lambda>_. True"
proof
  fix v :: volume and n :: nat
  assume n: "0 < n"
  let ?l = "(v_body v, v_rc v)"
  obtain bs e l' where r: "limited_Read stream_Read ?l n = Some (bs, e, l')"
    "limited_content st_data ?l = bs @ limited_content st_data l'"
    "limited_fin st_data st_end l' = limited_fin st_data st_end ?l"
    "length bs \<le> n" "e = None \<and> bs \<noteq> [] \<or> e = Some (limited_fin st_data st_end ?l) \<and> limited_content st_data l' = []"
    using limited.rd_returns [where s = ?l and n = n] n by blast
  have "payload_Read v n = Some (bs, e, v\<lparr>v_rc := snd l', v_body := fst l'\<rparr>)"
    using r(1) by (cases l') (simp add: payload_Read_def)
  then show "\<exists>bs e v'. payload_Read v n = Some (bs, e, v') \<and> True \<and> vol_content v = bs @ vol_content v'
      \<and> vol_fin v' = vol_fin v \<and> length bs \<le> n \<and> (e = None \<and> bs \<noteq> [] \<or> e = Some (vol_fin v) \<and> vol_content v' = [])"
    using r by (auto simp: vol_content_def vol_fin_def limited_content_def limited_fin_def)
qed

text \<open>The skip leaves the stream behind the payload, whatever had been read of it.\<close>

definition vol_behind :: "volume \<Rightarrow> volume" where
  "vol_behind v = v\<lparr>v_rc := (v_rc v)\<lparr>st_data := drop (v_body v) (st_data (v_rc v))\<rparr>,
                    v_body := v_body v - length (st_data (v_rc v))\<rparr>"

lemma vol_behind_fields [simp]:
  "v_body (vol_behind v) = v_body v - length (st_data (v_rc v))" "v_err (vol_behind v) = v_err v"
  "v_id (vol_behind v) = v_id v" "v_closed (vol_behind v) = v_closed v" "v_hd (vol_behind v) = v_hd v"
  "v_rar4 (vol_behind v) = v_rar4 v" "st_data (v_rc (vol_behind v)) = drop (v_body v) (st_data (v_rc v))"
  by (simp_all add: vol_behind_def)

lemma read_all_limited:
  "read_to_end (limited_Read stream_Read) 8192 (n, s) got =
     Some (got @ take n (st_data s), (if n \<le> length (st_data s) then EOF else st_end s),
       n - length (st_data s), s\<lparr>st_data := drop n (st_data s)\<rparr>)"
proof (induction "length (st_data s)" arbitrary: n s got rule: less_induct)
  case less
  show ?case
  proof (cases "n = 0 \<or> st_data s = []")
    case True
    then show ?thesis by (subst read_to_end.simps) (auto simp: limited_Read_def stream_Read_def)
  next
    case False
    define k where "k = min 8192 n"
    let ?s' = "s\<lparr>st_data := drop k (st_data s)\<rparr>" and ?n = "n - length (take k (st_data s))"
    have k: "0 < k" "k \<le> n" using False by (simp_all add: k_def)
    have all: "take k (st_data s) @ take ?n (st_data ?s') = take n (st_data s)"
      using k by (cases "k \<le> length (st_data s)") (simp_all add: take_add [symmetric] min_def)
    have "read_to_end (limited_Read stream_Read) 8192 (n, s) got
        = read_to_end (limited_Read stream_Read) 8192 (?n, ?s') (got @ take k (st_data s))"
      using False by (subst read_to_end.simps) (simp add: limited_Read_def stream_Read_def k_def)
    also have "\<dots> = Some ((got @ take k (st_data s)) @ take ?n (st_data ?s'),
        (if ?n \<le> length (st_data ?s') then EOF else st_end ?s'), ?n - length (st_data ?s'),
        ?s'\<lparr>st_data := drop ?n (st_data ?s')\<rparr>)"
      by (rule less) (use False k in \<open>simp add: length_drop\<close>)
    finally show ?thesis using k all by (cases "k \<le> length (st_data s)") auto
  qed
qed

lemma vol_skip_eq:
  "vol_skip v = Some (if v_body v \<le> length (st_data (v_rc v)) \<or> st_end (v_rc v) = EOF then None
                      else Some (st_end (v_rc v)), vol_behind v)"
  by (simp add: vol_skip_def read_all_limited vol_behind_def)

lemma vol_next_eq:
  "vol_next aes v = Some (case v_err v of
      Some e \<Rightarrow> (Inl e, v)
    | None \<Rightarrow>
        if length (st_data (v_rc v)) < v_body v
        then let e = (if st_end (v_rc v) = EOF then Wrap [ErrUnexpectedEOF] else st_end (v_rc v))
             in (Inl e, (vol_behind v)\<lparr>v_err := Some e\<rparr>)
        else case vol_header aes (vol_behind v) of
               (Inl e, s) \<Rightarrow> (Inl e, (vol_behind v)\<lparr>v_rc := s, v_err := Some e\<rparr>)
             | (Inr h, s) \<Rightarrow> (Inr h, (vol_behind v)\<lparr>v_rc := s, v_body := nat (bl_DataSize h)\<rparr>))"
  by (auto simp: vol_next_def vol_skip_eq Let_def split: option.split)

text \<open>What has been read of the payload makes no difference to the skip.\<close>

lemma vol_behind_read:
  "payload_Read v n = Some (bs, e, v') \<Longrightarrow> vol_behind v' = vol_behind v
     \<and> (length (st_data (v_rc v')) < v_body v' \<longleftrightarrow> length (st_data (v_rc v)) < v_body v)
     \<and> st_end (v_rc v') = st_end (v_rc v) \<and> v_err v' = v_err v"
  by (auto simp: payload_Read_eq vol_behind_def min_def split: if_splits)

subsection \<open>Headers take bytes off the stream\<close>

text \<open>\<open>s'\<close> is \<open>s\<close> with some of its data taken, at least \<open>k\<close> bytes.\<close>

definition taken :: "nat \<Rightarrow> stream \<Rightarrow> stream \<Rightarrow> bool" where
  "taken k s s' \<longleftrightarrow> st_end s' = st_end s
     \<and> (\<exists>n\<ge>k. n \<le> length (st_data s) \<and> st_data s' = drop n (st_data s))"

lemma taken_length: "taken k s s' \<Longrightarrow> length (st_data s') + k \<le> length (st_data s)"
  by (auto simp: taken_def)

lemma taken_refl [simp]: "taken 0 s s"
  by (auto simp: taken_def)

lemma taken_trans: "taken j s s' \<Longrightarrow> taken k s' s'' \<Longrightarrow> taken (j + k) s s''"
proof -
  assume a: "taken j s s'" and b: "taken k s' s''"
  then obtain m n where "j \<le> m" "m \<le> length (st_data s)" "st_data s' = drop m (st_data s)"
    "k \<le> n" "n \<le> length (st_data s')" "st_data s'' = drop n (st_data s')" by (auto simp: taken_def)
  then have "j + k \<le> m + n" "m + n \<le> length (st_data s)" "st_data s'' = drop (m + n) (st_data s)"
    by (simp_all add: add.commute)
  then show "taken (j + k) s s''" using a b unfolding taken_def by auto
qed

lemma taken_mono: "taken k s s' \<Longrightarrow> j \<le> k \<Longrightarrow> taken j s s'"
  by (meson le_trans taken_def)

lemma readFull_taken: "readFull s n = (got, e, s') \<Longrightarrow> taken 0 s s' \<and> (e = None \<longrightarrow> taken n s s')"
proof -
  assume "readFull s n = (got, e, s')"
  note c = readFull_cases [OF this]
  have "st_data s' = drop (min n (length (st_data s))) (st_data s)" using c(1) by (simp add: min_def)
  then have "taken (min n (length (st_data s))) s s'"
    using c(3) unfolding taken_def by (metis le_refl min.cobounded2)
  then show ?thesis using c(4) taken_mono by (auto simp: min_def split: if_splits)
qed

lemma readHeaderStart_taken: "readHeaderStart s n = (r, s') \<Longrightarrow> taken 0 s s' \<and> (\<forall>x. r = Inr x \<longrightarrow> taken n s s')"
  using readFull_taken [of s n]
  by (fastforce simp: readHeaderStart_def split: prod.splits option.splits)

lemma readFull_more: "taken k s s' \<Longrightarrow> readFull s' n = (got, e, s'') \<Longrightarrow> taken k s s''"
  using taken_trans [of k s s' 0 s''] readFull_taken by fastforce

lemma readBlockHeader_taken: "readBlockHeader s = (r, s') \<Longrightarrow> taken 0 s s' \<and> (\<forall>h. r = Inr h \<longrightarrow> taken 7 s s')"
proof -
  assume r: "readBlockHeader s = (r, s')"
  obtain x s1 where st: "readHeaderStart s 7 = (x, s1)" by fastforce
  note t = readHeaderStart_taken [OF st]
  show ?thesis
  proof (cases x)
    case (Inl e)
    then show ?thesis using r st t by (auto simp: readBlockHeader_def)
  next
    case (Inr b)
    then have "taken 7 s s1" using t by simp
    then have "taken 7 s s'"
      using r st Inr readFull_more by (auto simp: readBlockHeader_def Let_def split: sum.splits if_splits prod.splits option.splits)
    then show ?thesis using taken_mono by auto
  qed
qed

lemma readBlockHeader4_taken: "readBlockHeader4 s = (r, s') \<Longrightarrow> taken 0 s s' \<and> (\<forall>h. r = Inr h \<longrightarrow> taken 7 s s')"
proof -
  assume r: "readBlockHeader4 s = (r, s')"
  obtain x s1 where st: "readHeaderStart s 7 = (x, s1)" by fastforce
  note t = readHeaderStart_taken [OF st]
  show ?thesis
  proof (cases x)
    case (Inl e)
    then show ?thesis using r st t by (auto simp: readBlockHeader4_def)
  next
    case (Inr b)
    then have t7: "taken 7 s s1" using t by simp
    have "taken 7 s s'"
      using r st Inr t7 readFull_more [OF t7]
      by (auto simp: readBlockHeader4_def Let_def split: if_splits prod.splits option.splits)
    then show ?thesis using taken_mono by auto
  qed
qed

lemma hd_loop_taken: "hd_loop D s prev plain declared = (r, s') \<Longrightarrow> taken 0 s s'"
proof (induction "length (st_data s)" arbitrary: s prev plain declared rule: less_induct)
  case less
  show ?case
  proof (cases "declared \<noteq> None \<and> fst (the declared) \<le> length plain")
    case True
    then show ?thesis using less.prems by (subst (asm) hd_loop.simps) auto
  next
    case False
    obtain ct e s1 where rf: "readFull s 16 = (ct, e, s1)" by (cases "readFull s 16")
    note t = readFull_taken [OF rf]
    have rec: "taken 0 s s'" if "hd_loop D s1 p pl d = (r, s')" "e = None" for p pl d
    proof -
      have "length (st_data s1) < length (st_data s)" using t that(2) taken_length [of 16 s s1] by simp
      from less.hyps [OF this that(1)] t show ?thesis using taken_trans [of 0 s s1 0 s'] by simp
    qed
    show ?thesis
      using less.prems False rf t rec
      by (subst (asm) hd_loop.simps) (auto simp: Let_def split: option.splits sum.splits if_splits)
  qed
qed

lemma readEncryptedBlockHeader_taken:
  "readEncryptedBlockHeader aes key s = (r, s') \<Longrightarrow> taken 0 s s' \<and> (\<forall>h. r = Inr h \<longrightarrow> taken 7 s s')"
proof -
  assume r: "readEncryptedBlockHeader aes key s = (r, s')"
  obtain x s1 where st: "readHeaderStart s 16 = (x, s1)" by fastforce
  note t = readHeaderStart_taken [OF st]
  show ?thesis
  proof (cases x)
    case (Inl e)
    then show ?thesis using r st t by (auto simp: readEncryptedBlockHeader_def)
  next
    case (Inr iv)
    then have t16: "taken 16 s s1" using t by simp
    obtain y s2 where lp: "hd_loop (aes key) s1 iv [] None = (y, s2)" by fastforce
    have "taken 16 s s2" using taken_trans [OF t16 hd_loop_taken [OF lp]] by simp
    then have "taken 16 s s'"
      using r st Inr lp t16 by (auto simp: readEncryptedBlockHeader_def Let_def split: if_splits sum.splits)
    then show ?thesis using taken_mono by auto
  qed
qed

lemma vol_header_taken: "vol_header aes v = (r, s') \<Longrightarrow> taken 0 (v_rc v) s' \<and> (\<forall>h. r = Inr h \<longrightarrow> taken 7 (v_rc v) s')"
  using readBlockHeader_taken readBlockHeader4_taken readEncryptedBlockHeader_taken
  by (auto simp: vol_header_def split: if_splits option.splits)

lemma vol_behind_taken: "taken 0 (v_rc v) (v_rc (vol_behind v))"
proof -
  obtain got e s' where rf: "readFull (v_rc v) (v_body v) = (got, e, s')" by (cases "readFull (v_rc v) (v_body v)")
  then have "s' = v_rc (vol_behind v)" by (auto simp: readFull_def vol_behind_def Let_def split: if_splits)
  then show ?thesis using readFull_taken [OF rf] by simp
qed

text \<open>So a header found takes at least seven bytes, and nothing adds any.\<close>

lemma vol_next_cases:
  obtains (failed) e v' where "vol_next aes v = Some (Inl e, v')" "v_err v' = Some e"
      "taken 0 (v_rc v) (v_rc v')" "v_id v' = v_id v" "v_closed v' = v_closed v" "v_rar4 v' = v_rar4 v" "v_hd v' = v_hd v"
  | (found) h v' where "vol_next aes v = Some (Inr h, v')" "v_err v' = None" "v_err v = None"
      "taken 7 (v_rc v) (v_rc v')" "v_body v' = nat (bl_DataSize h)"
      "v_id v' = v_id v" "v_closed v' = v_closed v" "v_rar4 v' = v_rar4 v" "v_hd v' = v_hd v"
proof (cases "v_err v")
  case (Some e)
  then show thesis by (intro failed [of e v]) (simp_all add: vol_next_eq)
next
  case None
  obtain r s' where hd: "vol_header aes (vol_behind v) = (r, s')" by fastforce
  note t = taken_trans [OF vol_behind_taken [of v]]
  show thesis
  proof (cases "length (st_data (v_rc v)) < v_body v")
    case True
    let ?e = "if st_end (v_rc v) = EOF then Wrap [ErrUnexpectedEOF] else st_end (v_rc v)"
    show thesis
      by (rule failed [of ?e "(vol_behind v)\<lparr>v_err := Some ?e\<rparr>"])
        (use True None vol_behind_taken [of v] in \<open>simp_all add: vol_next_eq Let_def\<close>)
  next
    case False
    show thesis
    proof (cases r)
      case (Inl e)
      show thesis
        by (rule failed [of e "(vol_behind v)\<lparr>v_rc := s', v_err := Some e\<rparr>"])
          (use False None Inl hd t [of 0 s'] vol_header_taken [OF hd] in \<open>simp_all add: vol_next_eq\<close>)
    next
      case (Inr h)
      show thesis
        by (rule found [of h "(vol_behind v)\<lparr>v_rc := s', v_body := nat (bl_DataSize h)\<rparr>"])
          (use False None Inr hd t [of 7 s'] vol_header_taken [OF hd] in \<open>simp_all add: vol_next_eq\<close>)
    qed
  qed
qed

subsection \<open>Properties\<close>

text \<open>Any number of reads of the payload, of any sizes.\<close>

fun payload_reads :: "volume \<Rightarrow> nat list \<Rightarrow> volume" where
  "payload_reads v [] = v"
| "payload_reads v (n # ns) = (case payload_Read v n of Some (bs, e, v') \<Rightarrow> payload_reads v' ns | None \<Rightarrow> v)"

lemma payload_reads_next: "v_err v = None \<Longrightarrow> vol_next aes (payload_reads v ns) = vol_next aes v"
proof (induction ns arbitrary: v)
  case (Cons n ns)
  obtain bs e v' where r: "payload_Read v n = Some (bs, e, v')" using payload_Read_eq by (metis prod_cases3)
  note b = vol_behind_read [OF r]
  have "vol_next aes v' = vol_next aes v" using b Cons.prems by (auto simp: vol_next_eq split: sum.split prod.split)
  then show ?case using Cons b r by simp
qed simp

lemma payload_reads_err: "v_err (payload_reads v ns) = v_err v"
proof (induction ns arbitrary: v)
  case (Cons n ns)
  then show ?case using vol_behind_read [of v n] by (fastforce split: option.split)
qed simp

text \<open>C21. A header is never parsed out of a payload: whatever was read of the current block's payload,
  the next header is read exactly behind the declared payload, and when the volume ends inside
  the payload no header is read at all.\<close>

theorem volume_boundary_exact:
  assumes "v_err v = None"
  shows "vol_next aes (payload_reads v ns) =
    Some (if length (st_data (v_rc v)) < v_body v
          then let e = (if st_end (v_rc v) = EOF then Wrap [ErrUnexpectedEOF] else st_end (v_rc v))
               in (Inl e, (vol_behind v)\<lparr>v_err := Some e\<rparr>)
          else case vol_header aes ((vol_behind v)) of
                 (Inl e, s) \<Rightarrow> (Inl e, (vol_behind v)\<lparr>v_rc := s, v_err := Some e\<rparr>)
               | (Inr h, s) \<Rightarrow> (Inr h, (vol_behind v)\<lparr>v_rc := s, v_body := nat (bl_DataSize h)\<rparr>))
    \<and> (v_body v \<le> length (st_data (v_rc v)) \<longrightarrow> st_data (v_rc (vol_behind v)) = drop (v_body v) (st_data (v_rc v)))"
  using payload_reads_next [OF assms] assms by (simp add: vol_next_eq)

definition demo_volume :: volume where
  "demo_volume = \<lparr>v_id = 0, v_rc = \<lparr>st_data = [1, 2], st_end = EOF\<rparr>, v_body = 3, v_hd = None, v_err = None,
                  v_rar4 = False, v_closed = False\<rparr>"

theorem volume_boundary_exact_witness:
  "\<exists>v'. vol_next (\<lambda>_ _. []) (payload_reads demo_volume [1, 5]) = Some (Inl (Wrap [ErrUnexpectedEOF]), v')"
  using volume_boundary_exact [of demo_volume "\<lambda>_ _. []" "[1, 5]"] by (simp add: demo_volume_def Let_def)

text \<open>The first failure of a volume sticks: every later attempt, whatever was read or closed in
  between, gives the same error and leaves the stream where it is.\<close>

theorem volume_error_sticky:
  assumes "vol_next aes v = Some (Inl e, v')"
  shows "vol_next aes (vol_Close cl (payload_reads v' ns)) = Some (Inl e, vol_Close cl (payload_reads v' ns))"
proof -
  have "v_err v' = Some e" using assms by (cases rule: vol_next_cases [of aes v]) auto
  then show ?thesis by (simp add: vol_next_eq vol_Close_def payload_reads_err)
qed

theorem volume_error_sticky_witness:
  "\<exists>v'. vol_next (\<lambda>_ _. []) v' = Some (Inl (Wrap [ErrUnexpectedEOF]), v') \<and> v_closed v'"
proof -
  obtain v' where "vol_next (\<lambda>_ _. []) demo_volume = Some (Inl (Wrap [ErrUnexpectedEOF]), v')"
    by (simp add: vol_next_eq demo_volume_def Let_def)
  from volume_error_sticky [OF this, of id "[]"] show ?thesis by (fastforce simp: vol_Close_def split: if_splits)
qed

text \<open>
  A stream may end with an error that wraps \<^verbatim>\<open>io.EOF\<close>. A volume cut inside a payload by
  such an end is not reported as cut: the error matches \<^verbatim>\<open>io.EOF\<close>, which callers take
  for an exhausted volume.
\<close>

lemma volume_wrapped_end_not_cut:
  "v_err v = None \<Longrightarrow> length (st_data (v_rc v)) < v_body v \<Longrightarrow> st_end (v_rc v) = Wrap [EOF]
    \<Longrightarrow> \<exists>v'. vol_next aes v = Some (Inl (Wrap [EOF]), v') \<and> err_is (Wrap [EOF]) EOF"
  by (simp add: vol_next_eq Let_def)

text \<open>A volume is opened exactly on a signature: seven bytes for RAR 1.5-4.x, eight for RAR5, and the
  stream is left right behind it; and a volume that ended inside its signature is never
  mistaken for the end of the archive.\<close>

theorem signature_exact:
  "((\<exists>s'. readSignature s = (Inr rar4, s')) \<longleftrightarrow>
      (if rar4 then take 7 (st_data s) = take 6 rar5Signature @ [0x00] else take 8 (st_data s) = rar5Signature))
    \<and> (\<forall>s'. readSignature s = (Inr rar4, s') \<longrightarrow> s' = s\<lparr>st_data := drop (if rar4 then 7 else 8) (st_data s)\<rparr>)
    \<and> (\<forall>e s'. readSignature s = (Inl e, s') \<longrightarrow> \<not> err_is e EOF)"
proof -
  obtain d e where s: "s = \<lparr>st_data = d, st_end = e\<rparr>" by (cases s)
  have noteof: "\<not> err_is (signatureReadError x) EOF" for x by (simp add: signatureReadError_def)
  show ?thesis
  proof (cases "length d < 7")
    case True
    then have "take 7 d \<noteq> take 6 rar5Signature @ [0]" "take 8 d \<noteq> rar5Signature"
      by (auto simp: rar5Signature_def)
    then show ?thesis using True noteof by (simp add: s readSignature_def readFull_def)
  next
    case False
    then obtain a b where d: "d = a @ b" "length a = 7" by (metis append_take_drop_id length_take linorder_not_less min.absorb2)
    then obtain p x where a: "a = p @ [x]" "length p = 6" by (metis length_Suc_conv_rev numeral_eq_Suc pred_numeral_simps)
    show ?thesis
    proof (cases b)
      case Nil
      then show ?thesis using noteof a(2) by (auto simp: s d a(1) readSignature_def readFull_def rar5Signature_def nth_append)
    next
      case (Cons y c)
      then show ?thesis using noteof a(2) by (auto simp: s d a(1) readSignature_def readFull_def rar5Signature_def nth_append)
    qed
  qed
qed

theorem signature_exact_witness:
  "\<exists>s'. readSignature \<lparr>st_data = rar5Signature @ [9], st_end = EOF\<rparr> = (Inr False, s') \<and> st_data s' = [9]"
  using signature_exact [of "\<lparr>st_data = rar5Signature @ [9], st_end = EOF\<rparr>" False]
  by (auto simp: rar5Signature_def)

end
