(* ===== verification/Feed.thy ===== *)
theory Feed
  imports Volume "HOL-Library.Multiset"
begin

section \<open>From volume to volume (reader.go)\<close>

text \<open>
  The fields of \<^verbatim>\<open>Reader\<close> that moving from volume to volume touches, and the functions
  that do it. The volumes channel is the list of what its producer will send (\<open>f_queue\<close>; an
  element may be \<^verbatim>\<open>nil\<close>) and whether it closes the channel behind that (\<open>f_ended\<close>).
  Volumes are numbered in the order they are opened, and pointers to them are these numbers,
  so that a pointer held by somebody else goes on pointing to the same volume. A \<^verbatim>\<open>done\<close>
  channel is a number, and those that are closed are \<open>f_shut\<close>.

  \<^verbatim>\<open>Close\<close> may be called by another goroutine at any moment. \<open>f_sched\<close> says when: after
  how many of the points at which it can be noticed (\<open>pt\<close>), and how much of the queue had
  been sent by then; \<open>f_picks\<close> decides a \<^verbatim>\<open>select\<close> with both cases ready. \<open>f_log\<close>
  lists the streams that were closed, by their place on the channel.
\<close>

subsection \<open>The code\<close>

record feed =
  f_queue :: "stream option list"
  f_ended :: bool
  f_sched :: "(nat \<times> nat) list"
  f_picks :: "bool list"
  f_next :: nat
  f_log :: "nat list"
  f_vols :: "volume list"
  f_vol :: "nat option"
  f_staging :: "nat option"
  f_done :: nat
  f_shut :: "nat list"
  f_damaged :: "err option"
  f_rar4 :: bool
  f_formatSeen :: bool
  f_volIndex :: nat

definition chanClosed :: "nat \<Rightarrow> feed \<Rightarrow> bool" where
  "chanClosed g f \<longleftrightarrow> g \<in> set (f_shut f)"

text \<open>\<open>rc.Close()\<close> on the stream that came at place \<open>i\<close>, and \<^verbatim>\<open>volume.Close\<close>.\<close>

definition log_close :: "nat \<Rightarrow> feed \<Rightarrow> feed" where
  "log_close i f = f\<lparr>f_log := f_log f @ [i]\<rparr>"

definition f_closeVol :: "(stream \<Rightarrow> stream) \<Rightarrow> nat \<Rightarrow> feed \<Rightarrow> feed" where
  "f_closeVol cl j f =
     (let v = f_vols f ! j
      in if v_closed v then f else log_close (v_id v) (f\<lparr>f_vols := (f_vols f)[j := vol_Close cl v]\<rparr>))"

text \<open>\<^verbatim>\<open>drainVolumes\<close> takes what has been sent, here \<open>k\<close> elements.\<close>

fun drainVolumes :: "nat \<Rightarrow> feed \<Rightarrow> feed" where
  "drainVolumes 0 f = f"
| "drainVolumes (Suc k) f =
     (case f_queue f of
        [] \<Rightarrow> f
      | None # q \<Rightarrow> drainVolumes k (f\<lparr>f_queue := q\<rparr>)
      | Some s # q \<Rightarrow> drainVolumes k (log_close (f_next f) (f\<lparr>f_queue := q, f_next := f_next f + 1\<rparr>)))"

definition f_Close :: "(stream \<Rightarrow> stream) \<Rightarrow> nat \<Rightarrow> feed \<Rightarrow> feed" where
  "f_Close cl k f =
     (let f = (if chanClosed (f_done f) f then f else f\<lparr>f_shut := f_done f # f_shut f\<rparr>);
          staged = f_staging f;
          f = f\<lparr>f_staging := None\<rparr>;
          f = (case f_vol f of Some j \<Rightarrow> f_closeVol cl j f | None \<Rightarrow> f);
          f = (case staged of Some i \<Rightarrow> log_close i f | None \<Rightarrow> f)
      in drainVolumes k f)"

text \<open>A point at which a \<^verbatim>\<open>Close\<close> of another goroutine can come in between.\<close>

definition pt :: "(stream \<Rightarrow> stream) \<Rightarrow> feed \<Rightarrow> feed" where
  "pt cl f =
     (case f_sched f of
        [] \<Rightarrow> f
      | (0, k) # ns \<Rightarrow> f_Close cl k (f\<lparr>f_sched := ns\<rparr>)
      | (Suc n, k) # ns \<Rightarrow> f\<lparr>f_sched := (n, k) # ns\<rparr>)"

definition takeVolume :: "(stream \<Rightarrow> stream) \<Rightarrow> feed \<Rightarrow> nat option \<times> nat \<times> feed" where
  "takeVolume cl f = (let f = pt cl f in (f_vol f, f_done f, f\<lparr>f_vol := None\<rparr>))"

definition closeCurrentVolume :: "(stream \<Rightarrow> stream) \<Rightarrow> feed \<Rightarrow> feed" where
  "closeCurrentVolume cl f =
     (case takeVolume cl f of (v, _, f) \<Rightarrow> (case v of Some j \<Rightarrow> f_closeVol cl j f | None \<Rightarrow> f))"

definition publishVolume :: "(stream \<Rightarrow> stream) \<Rightarrow> volume \<Rightarrow> feed \<Rightarrow> bool \<times> feed" where
  "publishVolume cl v f =
     (let f = pt cl f
      in if chanClosed (f_done f) f then (False, log_close (v_id v) f)
         else (True, f\<lparr>f_vols := f_vols f @ [v], f_vol := Some (length (f_vols f))\<rparr>))"

definition stage :: "(stream \<Rightarrow> stream) \<Rightarrow> nat \<Rightarrow> feed \<Rightarrow> bool \<times> feed" where
  "stage cl i f =
     (let f = pt cl f
      in if chanClosed (f_done f) f then (False, f) else (True, f\<lparr>f_staging := Some i\<rparr>))"

definition unstage :: "(stream \<Rightarrow> stream) \<Rightarrow> feed \<Rightarrow> bool \<times> feed" where
  "unstage cl f = (let f = pt cl f in (f_staging f \<noteq> None, f\<lparr>f_staging := None\<rparr>))"

text \<open>
  The \<^verbatim>\<open>select\<close> of \<^verbatim>\<open>nextVolume\<close>: the next element with the place it came at, or the
  error. With nothing sent and the channel open it waits for \<^verbatim>\<open>Close\<close>, and for ever if
  nobody calls it.
\<close>

definition receive :: "(stream \<Rightarrow> stream) \<Rightarrow> nat \<Rightarrow> feed \<Rightarrow> ((err + stream option \<times> nat) \<times> feed) option" where
  "receive cl g f =
     (let f = pt cl f;
          closed = chanClosed g f;
          f' = (if closed \<and> (f_queue f \<noteq> [] \<or> f_ended f) then f\<lparr>f_picks := tl (f_picks f)\<rparr> else f)
      in if closed \<and> (f_picks f = [] \<or> \<not> hd (f_picks f)) then Some (Inl ErrReaderClosed, f')
         else case f_queue f of
           None # q \<Rightarrow> Some (Inr (None, f_next f), f'\<lparr>f_queue := q\<rparr>)
         | Some s # q \<Rightarrow> Some (Inr (Some s, f_next f), f'\<lparr>f_queue := q, f_next := f_next f + 1\<rparr>)
         | [] \<Rightarrow>
             if f_ended f then Some (Inl ErrNoNextVolume, f')
             else if closed then Some (Inl ErrReaderClosed, f')
             else case f_sched f of
               [] \<Rightarrow> None
             | (n, k) # ns \<Rightarrow> Some (Inl ErrReaderClosed, f_Close cl k (f\<lparr>f_sched := ns\<rparr>)))"

text \<open>\<^verbatim>\<open>nextVolume\<close> behind the receive: the stream \<open>s\<close>, which came at place \<open>i\<close>, is opened.\<close>

definition openStream :: "(stream \<Rightarrow> stream) \<Rightarrow> nat \<Rightarrow> stream \<Rightarrow> feed \<Rightarrow> err option \<times> feed" where
  "openStream cl i s f =
     (case stage cl i f of
        (False, f) \<Rightarrow> (Some ErrReaderClosed, log_close i f)
      | (True, f) \<Rightarrow>
          let f = pt cl f;
              v = fst (openVolume i (if f_staging f = None then cl s else s))
          in case unstage cl f of
               (False, f) \<Rightarrow> (Some ErrReaderClosed, f)
             | (True, f) \<Rightarrow>
                 (case v of
                    Inl e \<Rightarrow> (Some e, log_close i f)
                  | Inr v \<Rightarrow>
                      if f_formatSeen f \<and> v_rar4 v \<noteq> f_rar4 f
                      then (Some (Wrap [ErrCorruptArchiveHeader]), log_close i f)
                      else case publishVolume cl v (f\<lparr>f_rar4 := v_rar4 v, f_formatSeen := True\<rparr>) of
                             (ok, f) \<Rightarrow> (if ok then None else Some ErrReaderClosed, f)))"

definition nextVolume :: "(stream \<Rightarrow> stream) \<Rightarrow> feed \<Rightarrow> (err option \<times> feed) option" where
  "nextVolume cl f =
     (case takeVolume cl f of (prev, g, f) \<Rightarrow>
        Option.bind (receive cl g (case prev of Some j \<Rightarrow> f_closeVol cl j f | None \<Rightarrow> f)) (\<lambda>(x, f). case x of
             Inl e \<Rightarrow> Some (Some e, f)
           | Inr (rc, i) \<Rightarrow>
               let f = f\<lparr>f_volIndex := f_volIndex f + 1\<rparr>
               in case rc of
                    None \<Rightarrow> Some (Some (Other ''nil volume stream on the volumes channel''), f)
                  | Some s \<Rightarrow> Some (openStream cl i s f)))"

partial_function (option) openNextVolume :: "(stream \<Rightarrow> stream) \<Rightarrow> feed \<Rightarrow> (err option \<times> feed) option" where
  "openNextVolume cl f =
     Option.bind (nextVolume cl f) (\<lambda>(e, f). case e of
        None \<Rightarrow> Some (None, f)
      | Some x \<Rightarrow>
          if err_is x ErrUnexpectedEOF then openNextVolume cl (f\<lparr>f_damaged := Some x\<rparr>)
          else Some (Some x, f))"

text \<open>The open volume's \<^verbatim>\<open>next\<close>, and a read of the payload of the volume a reader was made for.\<close>

definition f_nextHeader :: "(stream \<Rightarrow> stream) \<Rightarrow> aes \<Rightarrow> nat \<Rightarrow> feed \<Rightarrow> ((err + blockHeader) \<times> feed) option" where
  "f_nextHeader cl aes j f =
     (let f = pt cl f
      in Option.bind (vol_next aes (f_vols f ! j)) (\<lambda>(x, v). Some (x, f\<lparr>f_vols := (f_vols f)[j := v]\<rparr>)))"

definition f_payload :: "(stream \<Rightarrow> stream) \<Rightarrow> nat \<Rightarrow> feed reading" where
  "f_payload cl j f n =
     (let f = pt cl f
      in Option.bind (payload_Read (f_vols f ! j) n) (\<lambda>(bs, e, v). Some (bs, e, f\<lparr>f_vols := (f_vols f)[j := v]\<rparr>)))"

text \<open>\<^verbatim>\<open>isClosed\<close>.\<close>

definition f_isClosed :: "(stream \<Rightarrow> stream) \<Rightarrow> feed \<Rightarrow> bool \<times> feed" where
  "f_isClosed cl f = (let f = pt cl f in (chanClosed (f_done f) f, f))"

text \<open>The part of \<^verbatim>\<open>Reset\<close> that changes channels; \<open>k\<close> elements of the old one had been sent.\<close>

definition f_Reset :: "(stream \<Rightarrow> stream) \<Rightarrow> nat \<Rightarrow> stream option list \<Rightarrow> bool \<Rightarrow> (nat \<times> nat) list \<Rightarrow> bool list \<Rightarrow> feed \<Rightarrow> feed" where
  "f_Reset cl k queue ended sched picks f =
     (let f = drainVolumes k (closeCurrentVolume cl f)
      in f\<lparr>f_queue := queue, f_ended := ended, f_sched := sched, f_picks := picks,
           f_done := f_done f + 1, f_damaged := None, f_rar4 := False, f_formatSeen := False, f_volIndex := 0\<rparr>)"

definition new_feed :: "stream option list \<Rightarrow> bool \<Rightarrow> (nat \<times> nat) list \<Rightarrow> bool list \<Rightarrow> feed" where
  "new_feed queue ended sched picks =
     \<lparr>f_queue = queue, f_ended = ended, f_sched = sched, f_picks = picks, f_next = 0, f_log = [],
      f_vols = [], f_vol = None, f_staging = None, f_done = 0, f_shut = [], f_damaged = None,
      f_rar4 = False, f_formatSeen = False, f_volIndex = 0\<rparr>"

subsection \<open>The books of the streams\<close>

text \<open>
  \<open>f_open f\<close> are the streams the Reader owns and has not closed. The invariant: each stream
  that came off the channel is closed, or owned, or in the hands of a running call (\<open>hs\<close>),
  and exactly once so.
\<close>

definition open_ids :: "nat option \<Rightarrow> volume list \<Rightarrow> nat list" where
  "open_ids p vs = (case p of None \<Rightarrow> [] | Some j \<Rightarrow> if v_closed (vs ! j) then [] else [v_id (vs ! j)])"

lemma open_ids_simps [simp]: "open_ids None vs = []" "v_closed (vs ! j) \<Longrightarrow> open_ids (Some j) vs = []"
  "\<not> v_closed (vs ! j) \<Longrightarrow> open_ids (Some j) vs = [v_id (vs ! j)]"
  by (simp_all add: open_ids_def)

definition f_open :: "feed \<Rightarrow> nat list" where
  "f_open f = open_ids (f_vol f) (f_vols f) @ (case f_staging f of None \<Rightarrow> [] | Some i \<Rightarrow> [i])"

definition feed_ok :: "nat list \<Rightarrow> feed \<Rightarrow> bool" where
  "feed_ok hs f \<longleftrightarrow> mset (f_log f) + mset (f_open f) + mset hs = mset [0..<f_next f]
     \<and> (\<forall>j. f_vol f = Some j \<longrightarrow> j < length (f_vols f))"

text \<open>
  How much the streams can still give, an element of the channel counting for itself too;
  and that no wait lasts for ever.
\<close>

definition vol_left :: "volume \<Rightarrow> nat" where
  "vol_left v = length (st_data (v_rc v))"

definition elem_left :: "stream option \<Rightarrow> nat" where
  "elem_left x = (case x of None \<Rightarrow> 1 | Some s \<Rightarrow> Suc (length (st_data s)))"

definition f_left :: "feed \<Rightarrow> nat" where
  "f_left f = sum_list (map vol_left (f_vols f)) + sum_list (map elem_left (f_queue f))"

definition f_live :: "feed \<Rightarrow> bool" where
  "f_live f \<longleftrightarrow> f_ended f \<or> f_sched f \<noteq> [] \<or> chanClosed (f_done f) f"

text \<open>Closing adds no data to a stream.\<close>

definition close_ok :: "(stream \<Rightarrow> stream) \<Rightarrow> bool" where
  "close_ok cl \<longleftrightarrow> (\<forall>s. length (st_data (cl s)) \<le> length (st_data s))"

text \<open>What every function here keeps, and how it may change the rest.\<close>

definition shut_le :: "nat \<Rightarrow> nat list \<Rightarrow> nat list \<Rightarrow> bool" where
  "shut_le d s s' \<longleftrightarrow> set s \<subseteq> set s' \<and> set s' \<subseteq> insert d (set s)"

lemma shut_le_simps [simp]: "shut_le d s s" "shut_le d s (d # s)"
  by (auto simp: shut_le_def)

lemma shut_le_trans [trans]: "shut_le d r s \<Longrightarrow> shut_le d s t \<Longrightarrow> shut_le d r t"
  by (auto simp: shut_le_def)

definition cut_le :: "err option \<Rightarrow> err option \<Rightarrow> bool" where
  "cut_le d d' \<longleftrightarrow> d' = d \<or> (\<exists>x. d' = Some x \<and> err_is x ErrUnexpectedEOF)"

lemma cut_le_simps [simp]: "cut_le d d" "err_is x ErrUnexpectedEOF \<Longrightarrow> cut_le d (Some x)"
  by (simp_all add: cut_le_def)

lemma cut_le_trans [trans]: "cut_le a b \<Longrightarrow> cut_le b c \<Longrightarrow> cut_le a c"
  by (auto simp: cut_le_def)

definition feed_step :: "feed \<Rightarrow> feed \<Rightarrow> bool" where
  "feed_step f f' \<longleftrightarrow> f_left f' \<le> f_left f \<and> (f_live f \<longrightarrow> f_live f') \<and> length (f_vols f) \<le> length (f_vols f')
     \<and> f_done f' = f_done f \<and> shut_le (f_done f) (f_shut f) (f_shut f') \<and> cut_le (f_damaged f) (f_damaged f')"

lemma feed_step_refl [simp]: "feed_step f f"
  by (simp add: feed_step_def)

lemma feed_step_trans: "feed_step f g \<Longrightarrow> feed_step g h \<Longrightarrow> feed_step f h"
  using shut_le_trans cut_le_trans by (auto simp: feed_step_def)

text \<open>A change of the other fields.\<close>

lemma feed_fields [simp]:
  "feed_ok hs (f\<lparr>f_sched := a\<rparr>) = feed_ok hs f" "feed_ok hs (f\<lparr>f_picks := b\<rparr>) = feed_ok hs f"
  "feed_ok hs (f\<lparr>f_volIndex := c\<rparr>) = feed_ok hs f" "feed_ok hs (f\<lparr>f_damaged := d\<rparr>) = feed_ok hs f"
  "feed_ok hs (f\<lparr>f_shut := e\<rparr>) = feed_ok hs f" "feed_ok hs (f\<lparr>f_rar4 := g, f_formatSeen := h\<rparr>) = feed_ok hs f"
  "feed_ok hs (f\<lparr>f_queue := q\<rparr>) = feed_ok hs f"
  by (simp_all add: feed_ok_def f_open_def)

lemma sum_vols_update:
  assumes "j < length vs" and "vol_left v \<le> vol_left (vs ! j)"
  shows "sum_list (map vol_left (vs[j := v])) \<le> sum_list (map vol_left vs)"
    and "sum_list (map vol_left (vs[j := v])) + (vol_left (vs ! j) - vol_left v) = sum_list (map vol_left vs)"
proof -
  have "vol_left (vs ! j) \<le> sum_list (map vol_left vs)"
    using assms(1) by (intro member_le_sum_list) auto
  then show "sum_list (map vol_left (vs[j := v])) + (vol_left (vs ! j) - vol_left v) = sum_list (map vol_left vs)"
    "sum_list (map vol_left (vs[j := v])) \<le> sum_list (map vol_left vs)"
    using assms by (simp_all add: map_update sum_list_update)
qed

lemma log_close_ok: "feed_ok (i # hs) f \<Longrightarrow> feed_ok hs (log_close i f)"
  by (simp add: feed_ok_def log_close_def f_open_def)

lemma log_close_step [simp]: "feed_step f (log_close i f)" "f_vol (log_close i f) = f_vol f"
  "f_staging (log_close i f) = f_staging f" "f_done (log_close i f) = f_done f" "f_left (log_close i f) = f_left f"
  "chanClosed g (log_close i f) = chanClosed g f" "f_vols (log_close i f) = f_vols f" "f_shut (log_close i f) = f_shut f"
  "f_damaged (log_close i f) = f_damaged f" "f_queue (log_close i f) = f_queue f" "f_live (log_close i f) = f_live f"
  by (simp_all add: log_close_def feed_step_def f_left_def f_live_def chanClosed_def)

lemma vol_Close_left: "close_ok cl \<Longrightarrow> vol_left (vol_Close cl v) \<le> vol_left v"
  by (simp add: vol_Close_def vol_left_def close_ok_def)

text \<open>Closing a volume: the one that is open, or one just taken.\<close>

lemma f_closeVol_frame [simp]:
  "f_vol (f_closeVol cl j f) = f_vol f" "f_staging (f_closeVol cl j f) = f_staging f" "f_done (f_closeVol cl j f) = f_done f"
  "f_shut (f_closeVol cl j f) = f_shut f" "length (f_vols (f_closeVol cl j f)) = length (f_vols f)"
  "f_queue (f_closeVol cl j f) = f_queue f" "f_live (f_closeVol cl j f) = f_live f" "chanClosed g (f_closeVol cl j f) = chanClosed g f"
  "f_damaged (f_closeVol cl j f) = f_damaged f"
  by (simp_all add: f_closeVol_def Let_def log_close_def f_live_def chanClosed_def)

lemma f_closeVol_step: "close_ok cl \<Longrightarrow> j < length (f_vols f) \<Longrightarrow> feed_step f (f_closeVol cl j f)"
proof -
  assume a: "close_ok cl" "j < length (f_vols f)"
  have "f_left (f_closeVol cl j f) \<le> f_left f"
    using sum_vols_update(1) [OF a(2) vol_Close_left [OF a(1)]]
    by (simp add: f_closeVol_def Let_def log_close_def f_left_def)
  then show ?thesis by (simp add: feed_step_def)
qed

lemma f_closeVol_ok:
  assumes "feed_ok hs f" and "f_vol f = Some j"
  shows "feed_ok hs (f_closeVol cl j f)"
    and "feed_ok hs (f_closeVol cl j (f\<lparr>f_vol := None\<rparr>))"
  using assms by (auto simp: feed_ok_def f_closeVol_def Let_def log_close_def f_open_def vol_Close_def)

lemma drainVolumes_ok:
  "feed_ok hs f \<Longrightarrow> feed_ok hs (drainVolumes k f) \<and> feed_step f (drainVolumes k f)
     \<and> f_vol (drainVolumes k f) = f_vol f \<and> f_staging (drainVolumes k f) = f_staging f
     \<and> f_vols (drainVolumes k f) = f_vols f \<and> f_shut (drainVolumes k f) = f_shut f \<and> f_done (drainVolumes k f) = f_done f"
proof (induction k f rule: drainVolumes.induct)
  case (2 k f)
  show ?case
  proof (cases "f_queue f")
    case (Cons x q)
    show ?thesis
    proof (cases x)
      case None
      have "feed_step f (f\<lparr>f_queue := q\<rparr>)"
        using Cons None by (simp add: feed_step_def f_left_def f_live_def chanClosed_def elem_left_def)
      then show ?thesis using 2(1) [OF Cons None] 2(3) Cons None feed_step_trans by auto
    next
      case (Some s)
      let ?f = "log_close (f_next f) (f\<lparr>f_queue := q, f_next := f_next f + 1\<rparr>)"
      have "feed_ok hs ?f"
        using 2(3) by (simp add: feed_ok_def log_close_def f_open_def)
      moreover have "feed_step f ?f"
        using Cons Some by (simp add: feed_step_def f_left_def f_live_def chanClosed_def elem_left_def log_close_def)
      ultimately show ?thesis using 2(2) [OF Cons Some] Cons Some feed_step_trans by auto
    qed
  qed (use 2(3) in simp)
qed simp

lemma f_Close_ok:
  assumes "feed_ok hs f" and "close_ok cl"
  shows "feed_ok hs (f_Close cl k f)" and "feed_step f (f_Close cl k f)" and "f_vol (f_Close cl k f) = f_vol f"
    and "f_staging (f_Close cl k f) = None" and "chanClosed (f_done f) (f_Close cl k f)"
    and "open_ids (f_vol (f_Close cl k f)) (f_vols (f_Close cl k f)) = []"
proof -
  let ?f1 = "if chanClosed (f_done f) f then f else f\<lparr>f_shut := f_done f # f_shut f\<rparr>"
  let ?f2 = "?f1\<lparr>f_staging := None\<rparr>"
  define f3 where "f3 = (case f_vol ?f2 of Some j \<Rightarrow> f_closeVol cl j ?f2 | None \<Rightarrow> ?f2)"
  define f4 where "f4 = (case f_staging ?f1 of Some i \<Rightarrow> log_close i f3 | None \<Rightarrow> f3)"
  let ?h = "case f_staging f of None \<Rightarrow> hs | Some i \<Rightarrow> i # hs"
  have f: "f_Close cl k f = drainVolumes k f4" unfolding f_Close_def Let_def f3_def f4_def by (rule refl)
  have "feed_ok ?h ?f2" using assms(1) by (auto simp: feed_ok_def f_open_def split: option.split)
  then have 3: "feed_ok ?h f3" using f_closeVol_ok(1) [of ?h ?f2] by (auto simp: f3_def split: option.split)
  then have ok4: "feed_ok hs f4" using log_close_ok by (auto simp: f4_def split: option.splits)
  have "feed_step f ?f2" by (auto simp: feed_step_def f_left_def f_live_def chanClosed_def)
  moreover have "feed_step ?f2 f3"
    using assms by (auto simp: f3_def feed_ok_def intro!: f_closeVol_step split: option.split)
  moreover have "feed_step f3 f4" by (auto simp: f4_def split: option.split)
  ultimately have step: "feed_step f f4" using feed_step_trans by blast
  have vols: "f_vol f4 = f_vol f" "f_staging f4 = None" "chanClosed (f_done f) f4" "open_ids (f_vol f4) (f_vols f4) = []"
    using assms(1)
    by (auto simp: f4_def f3_def chanClosed_def f_closeVol_def Let_def log_close_def vol_Close_def feed_ok_def
        split: option.split)
  note d = drainVolumes_ok [OF ok4, of k]
  show "feed_ok hs (f_Close cl k f)" "f_vol (f_Close cl k f) = f_vol f" "f_staging (f_Close cl k f) = None"
    using d f vols by simp_all
  show "feed_step f (f_Close cl k f)" using d f step feed_step_trans by metis
  show "chanClosed (f_done f) (f_Close cl k f)" using d f vols(3) by (simp add: chanClosed_def)
  show "open_ids (f_vol (f_Close cl k f)) (f_vols (f_Close cl k f)) = []" using d f vols(4) by simp
qed

lemma pt_ok:
  assumes "feed_ok hs f" and "close_ok cl"
  shows "feed_ok hs (pt cl f)" and "feed_step f (pt cl f)" and "f_vol (pt cl f) = f_vol f"
    and "f_staging (pt cl f) = f_staging f \<or> f_staging (pt cl f) = None \<and> chanClosed (f_done f) (pt cl f)"
proof -
  have C: "feed_ok hs (f\<lparr>f_sched := ns\<rparr>)" for ns using assms(1) by simp
  have left: "f_left (f\<lparr>f_sched := ns\<rparr>) = f_left f" "f_done (f\<lparr>f_sched := ns\<rparr>) = f_done f" for ns by (simp_all add: f_left_def)
  have "feed_step f (f_Close cl k (f\<lparr>f_sched := ns\<rparr>))" for k ns
    using f_Close_ok(2,5) [OF C assms(2), where k = k] left unfolding feed_step_def f_live_def by simp
  then show "feed_ok hs (pt cl f)" "feed_step f (pt cl f)" "f_vol (pt cl f) = f_vol f"
    "f_staging (pt cl f) = f_staging f \<or> f_staging (pt cl f) = None \<and> chanClosed (f_done f) (pt cl f)"
    using f_Close_ok [OF C assms(2)] assms(1)
    by (auto simp: pt_def feed_step_def f_left_def f_live_def chanClosed_def split: list.splits nat.splits)
qed

subsection \<open>Between two calls\<close>

text \<open>
  Between two calls no stream is in the hands of a call, and no wait lasts for ever. Every
  function is a step from such a state to such a state, and returns.
\<close>

definition feed_idle :: "feed \<Rightarrow> bool" where
  "feed_idle f \<longleftrightarrow> feed_ok [] f \<and> f_staging f = None \<and> f_live f"

definition feed_to :: "feed \<Rightarrow> feed \<Rightarrow> bool" where
  "feed_to f f' \<longleftrightarrow> feed_idle f' \<and> feed_step f f'"

lemma feed_to_refl [simp]: "feed_to f f = feed_idle f"
  by (simp add: feed_to_def)

lemma feed_to_trans: "feed_to f g \<Longrightarrow> feed_to g h \<Longrightarrow> feed_to f h"
  using feed_step_trans by (auto simp: feed_to_def)

lemma f_live_fields [simp]:
  "f_live (g\<lparr>f_volIndex := c\<rparr>) = f_live g" "f_live (g\<lparr>f_damaged := d\<rparr>) = f_live g" "f_live (g\<lparr>f_picks := b\<rparr>) = f_live g"
  "f_live (g\<lparr>f_rar4 := x, f_formatSeen := y\<rparr>) = f_live g" "f_live (g\<lparr>f_vol := v\<rparr>) = f_live g"
  "f_live (g\<lparr>f_staging := s\<rparr>) = f_live g"
  by (simp_all add: f_live_def chanClosed_def)

lemma feed_step_fields [simp]:
  "feed_step f (g\<lparr>f_volIndex := c\<rparr>) = feed_step f g"
  "feed_step f (g\<lparr>f_rar4 := x, f_formatSeen := y\<rparr>) = feed_step f g" "feed_step f (g\<lparr>f_vol := v\<rparr>) = feed_step f g"
  "feed_step f (g\<lparr>f_staging := s\<rparr>) = feed_step f g" "feed_step f (g\<lparr>f_picks := b\<rparr>) = feed_step f g"
  by (simp_all add: feed_step_def f_left_def f_live_def chanClosed_def)

lemma feed_to_damaged [simp]: "feed_to f g \<Longrightarrow> err_is x ErrUnexpectedEOF \<Longrightarrow> feed_to f (g\<lparr>f_damaged := Some x\<rparr>)"
  by (auto simp: feed_to_def feed_idle_def feed_step_def f_left_def f_live_def chanClosed_def)

lemma pt_to:
  assumes "close_ok cl" and "feed_idle f"
  shows "feed_to f (pt cl f)" and "f_vol (pt cl f) = f_vol f"
  using pt_ok [of "[]" f, OF _ assms(1)] assms(2) by (auto simp: feed_to_def feed_idle_def feed_step_def)

lemma takeVolume_ok:
  assumes "close_ok cl" and "feed_idle f" and "takeVolume cl f = (p, g, f')"
  shows "feed_to f (case p of Some j \<Rightarrow> f_closeVol cl j f' | None \<Rightarrow> f')"
    and "f_vol (case p of Some j \<Rightarrow> f_closeVol cl j f' | None \<Rightarrow> f') = None" and "g = f_done f"
proof -
  note P = pt_to [OF assms(1,2)]
  have t: "p = f_vol f" "g = f_done f" "f' = (pt cl f)\<lparr>f_vol := None\<rparr>"
    using assms(3) P by (auto simp: takeVolume_def Let_def feed_to_def feed_step_def)
  show "g = f_done f" by (rule t(2))
  show "f_vol (case p of Some j \<Rightarrow> f_closeVol cl j f' | None \<Rightarrow> f') = None"
    by (simp add: t(3) split: option.split)
  show "feed_to f (case p of Some j \<Rightarrow> f_closeVol cl j f' | None \<Rightarrow> f')"
  proof (cases p)
    case None
    have "feed_ok [] ((pt cl f)\<lparr>f_vol := None\<rparr>)"
      using P None t(1) by (auto simp: feed_to_def feed_idle_def feed_ok_def f_open_def)
    then show ?thesis using P None t(3) by (simp add: feed_to_def feed_idle_def f_live_def chanClosed_def)
  next
    case (Some j)
    have ok: "feed_ok [] (pt cl f)" and j: "f_vol (pt cl f) = Some j" using P Some t(1) by (auto simp: feed_to_def feed_idle_def)
    then have "j < length (f_vols f')" using t(3) by (simp add: feed_ok_def)
    from f_closeVol_step [OF assms(1) this] have "feed_step f (f_closeVol cl j f')"
      using P t(3) feed_step_trans [of f f'] by (simp add: feed_to_def)
    then show ?thesis
      using f_closeVol_ok(2) [OF ok j, of cl] P t(3) Some
      by (simp add: feed_to_def feed_idle_def)
  qed
qed

lemma closeCurrentVolume_ok:
  assumes "close_ok cl" and "feed_idle f"
  shows "feed_to f (closeCurrentVolume cl f)" and "f_vol (closeCurrentVolume cl f) = None"
proof -
  obtain p g f' where t: "takeVolume cl f = (p, g, f')" by (cases "takeVolume cl f")
  show "feed_to f (closeCurrentVolume cl f)" "f_vol (closeCurrentVolume cl f) = None"
    using takeVolume_ok [OF assms t] t by (simp_all add: closeCurrentVolume_def)
qed

text \<open>What the receive gives: an error without an element, or an element, and less is left.\<close>

lemma receive_ok:
  assumes cl: "close_ok cl" and "feed_idle f" and vol: "f_vol f = None"
  shows "returns (receive cl (f_done f) f) (\<lambda>(x, f'). f_vol f' = None \<and> f_staging f' = None \<and> feed_step f f' \<and> f_live f' \<and>
     (case x of Inl e \<Rightarrow> (e = ErrNoNextVolume \<or> e = ErrReaderClosed) \<and> feed_ok [] f'
      | Inr (rc, i) \<Rightarrow> feed_ok (case rc of None \<Rightarrow> [] | Some s \<Rightarrow> [i]) f' \<and> f_left f' + elem_left rc \<le> f_left f))"
proof -
  define f1 where "f1 = pt cl f"
  have P: "feed_ok [] f1" "feed_step f f1" "f_vol f1 = None" "f_staging f1 = None" "f_live f1"
    using pt_to [OF cl assms(2)] vol by (simp_all add: f1_def feed_to_def feed_idle_def)
  define f2 where "f2 = (if chanClosed (f_done f) f1 \<and> (f_queue f1 \<noteq> [] \<or> f_ended f1) then f1\<lparr>f_picks := tl (f_picks f1)\<rparr> else f1)"
  have 2: "feed_ok [] f2" "feed_step f f2" "f_vol f2 = None" "f_staging f2 = None" "f_live f2" "f_next f2 = f_next f1"
    "f_queue f2 = f_queue f1" "f_left f2 = f_left f1" "f_left f1 \<le> f_left f"
    using P by (auto simp: f2_def f_live_def chanClosed_def f_left_def feed_step_def)
  have taken: "feed_step f (f2\<lparr>f_queue := q\<rparr>)" "f_live (f2\<lparr>f_queue := q\<rparr>)" "f_left (f2\<lparr>f_queue := q\<rparr>) + elem_left x \<le> f_left f"
    "feed_step f (f2\<lparr>f_queue := q, f_next := n\<rparr>)" "f_live (f2\<lparr>f_queue := q, f_next := n\<rparr>)"
    "f_left (f2\<lparr>f_queue := q, f_next := n\<rparr>) = f_left (f2\<lparr>f_queue := q\<rparr>)" if "f_queue f1 = x # q" for x q n
    using 2 that by (auto simp: feed_step_def f_left_def f_live_def chanClosed_def)
  have held: "feed_ok [f_next f1] (f2\<lparr>f_queue := q, f_next := f_next f1 + 1\<rparr>)" for q
    using 2 by (simp add: feed_ok_def f_open_def)
  have C: "feed_ok [] (f_Close cl k (f1\<lparr>f_sched := ns\<rparr>))" "feed_step f (f_Close cl k (f1\<lparr>f_sched := ns\<rparr>))"
    "f_vol (f_Close cl k (f1\<lparr>f_sched := ns\<rparr>)) = None" "f_staging (f_Close cl k (f1\<lparr>f_sched := ns\<rparr>)) = None"
    "f_live (f_Close cl k (f1\<lparr>f_sched := ns\<rparr>))" for k ns
  proof -
    have ok: "feed_ok [] (f1\<lparr>f_sched := ns\<rparr>)" using P(1) by simp
    note c = f_Close_ok [OF ok cl, of k]
    show live: "f_live (f_Close cl k (f1\<lparr>f_sched := ns\<rparr>))" using c(2,5) by (simp add: f_live_def feed_step_def)
    show "feed_ok [] (f_Close cl k (f1\<lparr>f_sched := ns\<rparr>))" "f_vol (f_Close cl k (f1\<lparr>f_sched := ns\<rparr>)) = None"
      "f_staging (f_Close cl k (f1\<lparr>f_sched := ns\<rparr>)) = None"
      using c P by simp_all
    have "f_left (f1\<lparr>f_sched := ns\<rparr>) = f_left f1" by (simp add: f_left_def)
    then show "feed_step f (f_Close cl k (f1\<lparr>f_sched := ns\<rparr>))"
      using c(2) P(2) live by (auto simp: feed_step_def intro: shut_le_trans cut_le_trans)
  qed
  have "receive cl (f_done f) f =
     (if chanClosed (f_done f) f1 \<and> (f_picks f1 = [] \<or> \<not> hd (f_picks f1)) then Some (Inl ErrReaderClosed, f2)
      else case f_queue f1 of
           None # q \<Rightarrow> Some (Inr (None, f_next f1), f2\<lparr>f_queue := q\<rparr>)
         | Some s # q \<Rightarrow> Some (Inr (Some s, f_next f1), f2\<lparr>f_queue := q, f_next := f_next f1 + 1\<rparr>)
         | [] \<Rightarrow> if f_ended f1 then Some (Inl ErrNoNextVolume, f2)
                else if chanClosed (f_done f) f1 then Some (Inl ErrReaderClosed, f2)
                else case f_sched f1 of [] \<Rightarrow> None
                     | (n, k) # ns \<Rightarrow> Some (Inl ErrReaderClosed, f_Close cl k (f1\<lparr>f_sched := ns\<rparr>)))"
    unfolding receive_def Let_def f1_def [symmetric] f2_def [symmetric] by (rule refl)
  moreover have "f_done f1 = f_done f" using P(2) by (simp add: feed_step_def)
  then have "f_sched f1 \<noteq> []" if "\<not> f_ended f1" "\<not> chanClosed (f_done f) f1" using P(5) that by (simp add: f_live_def)
  ultimately show ?thesis
    using 2 C taken held by (auto split: list.split option.split)
qed

text \<open>\<^verbatim>\<open>nextVolume\<close> opens a volume or leaves none open, and uses up an element if it does not end the loop.\<close>

definition next_post :: "feed \<Rightarrow> err option \<Rightarrow> feed \<Rightarrow> bool" where
  "next_post f e f' \<longleftrightarrow> feed_to f f'
     \<and> (case e of None \<Rightarrow> f_left f' < f_left f \<and> (\<exists>j. f_vol f' = Some j \<and> v_err (f_vols f' ! j) = None)
        | Some x \<Rightarrow> f_vol f' = None \<and> (err_is x ErrUnexpectedEOF \<longrightarrow> f_left f' < f_left f) \<and> \<not> err_is x EOF)"

lemma next_post_trans: "feed_to f g \<Longrightarrow> next_post g e f' \<Longrightarrow> next_post f e f'"
  by (cases e) (auto simp: next_post_def feed_to_def feed_step_def intro: shut_le_trans cut_le_trans)

lemma openVolume_cases:
  obtains (failed) e s' where "openVolume i s = (Inl e, s')" "\<not> err_is e EOF"
  | (opened) v s' where "openVolume i s = (Inr v, s')" "v_id v = i" "vol_left v \<le> length (st_data s)"
      "\<not> v_closed v" "v_err v = None" "v_body v = 0" "v_hd v = None"
proof -
  obtain r s' where rs: "readSignature s = (r, s')" by fastforce
  have "\<not> err_is (signatureReadError x) EOF" for x by (simp add: signatureReadError_def)
  then have bad: "\<not> err_is e EOF" if "r = Inl e" for e
    using rs that by (auto simp: readSignature_def split: prod.splits option.splits if_splits)
  have "length (st_data s') \<le> length (st_data s)"
    using rs readFull_cases(1) by (fastforce simp: readSignature_def split: prod.splits option.splits if_splits)
  then show thesis
    using rs bad by (cases r) (auto simp: openVolume_def vol_left_def intro: failed opened)
qed

lemma publishVolume_ok:
  assumes cl: "close_ok cl" and ok: "feed_ok [v_id v] f" and "f_vol f = None" and "f_staging f = None" and "f_live f"
    and v: "\<not> v_closed v" "v_err v = None" and l: "f_left f + vol_left v < n"
    and f: "publishVolume cl v f = (b, f')"
  shows "feed_idle f' \<and> f_left f' < n \<and> length (f_vols f) \<le> length (f_vols f') \<and> f_done f' = f_done f
    \<and> shut_le (f_done f) (f_shut f) (f_shut f') \<and> (b \<longleftrightarrow> f_vol f' \<noteq> None)
    \<and> (\<forall>j. f_vol f' = Some j \<longrightarrow> v_err (f_vols f' ! j) = None) \<and> cut_le (f_damaged f) (f_damaged f')"
proof -
  define f1 where "f1 = pt cl f"
  note P = pt_ok [OF ok cl, folded f1_def]
  have 1: "f_vol f1 = None" "f_staging f1 = None" "f_live f1" "f_left f1 \<le> f_left f" "length (f_vols f) \<le> length (f_vols f1)"
    "f_done f1 = f_done f" "shut_le (f_done f) (f_shut f) (f_shut f1)" "cut_le (f_damaged f) (f_damaged f1)"
    using P assms(3-5) by (auto simp: feed_step_def)
  show ?thesis
  proof (cases "chanClosed (f_done f1) f1")
    case True
    then have "b = False" "f' = log_close (v_id v) f1" using f by (simp_all add: publishVolume_def Let_def f1_def)
    then show ?thesis using log_close_ok [OF P(1)] 1 l by (simp add: feed_idle_def)
  next
    case False
    then have b: "b = True" "f' = f1\<lparr>f_vols := f_vols f1 @ [v], f_vol := Some (length (f_vols f1))\<rparr>"
      using f by (simp_all add: publishVolume_def Let_def f1_def)
    then have "feed_ok [] f'"
      using P(1) 1 v(1) by (simp add: feed_ok_def f_open_def)
    then show ?thesis using b 1 v(2) l by (auto simp: feed_idle_def f_left_def f_live_def chanClosed_def)
  qed
qed

lemma stage_ok:
  assumes "close_ok cl" and "feed_ok [i] f" and "f_vol f = None" and "f_staging f = None" and "f_live f"
    and "stage cl i f = (b, f')"
  shows "feed_step f f' \<and> f_live f' \<and> f_vol f' = None
     \<and> (if b then feed_ok [] f' \<and> f_staging f' = Some i else feed_ok [i] f' \<and> f_staging f' = None)"
proof -
  note P = pt_ok [OF assms(2,1)]
  have s: "f_staging (pt cl f) = None" "f_live (pt cl f)" "f_vol (pt cl f) = None" using P assms(3-5) by (auto simp: feed_step_def)
  then have "feed_ok [] ((pt cl f)\<lparr>f_staging := Some i\<rparr>)"
    using P(1) by (simp add: feed_ok_def f_open_def)
  then show ?thesis
    using assms(6) P s by (auto simp: stage_def Let_def f_live_def chanClosed_def split: if_splits)
qed

lemma unstage_ok:
  assumes "close_ok cl" and "feed_ok [] f" and "f_vol f = None" and "f_staging f = None \<or> f_staging f = Some i" and "f_live f"
    and "unstage cl f = (b, f')"
  shows "feed_step f f' \<and> f_live f' \<and> f_vol f' = None \<and> f_staging f' = None \<and> feed_ok (if b then [i] else []) f'"
proof -
  note P = pt_ok [OF assms(2,1)]
  have s: "f_live (pt cl f)" "f_vol (pt cl f) = None" "f_staging (pt cl f) = None \<or> f_staging (pt cl f) = Some i"
    using P assms(3-5) by (auto simp: feed_step_def)
  have "feed_ok (if f_staging (pt cl f) \<noteq> None then [i] else []) ((pt cl f)\<lparr>f_staging := None\<rparr>)"
    using P(1) s(2,3) by (auto simp: feed_ok_def f_open_def)
  then show ?thesis
    using assms(6) P s by (auto simp: unstage_def Let_def f_live_def chanClosed_def)
qed

lemma openStream_ok:
  assumes cl: "close_ok cl" and ok: "feed_ok [i] f" "f_vol f = None" "f_staging f = None" "f_live f"
    and l: "f_left f + Suc (length (st_data s)) \<le> n" and r: "openStream cl i s f = (e, f')"
  shows "feed_idle f' \<and> f_left f' < n \<and> length (f_vols f) \<le> length (f_vols f') \<and> f_done f' = f_done f
    \<and> shut_le (f_done f) (f_shut f) (f_shut f') \<and> (e = None \<longleftrightarrow> f_vol f' \<noteq> None)
    \<and> (\<forall>j. f_vol f' = Some j \<longrightarrow> v_err (f_vols f' ! j) = None) \<and> (\<forall>x. e = Some x \<longrightarrow> \<not> err_is x EOF)
    \<and> cut_le (f_damaged f) (f_damaged f')"
proof -
  obtain b f1 where st: "stage cl i f = (b, f1)" by fastforce
  note S = stage_ok [OF cl ok st]
  show ?thesis
  proof (cases b)
    case False
    then show ?thesis using r st S log_close_ok [of i "[]" f1] l by (auto simp: openStream_def feed_idle_def feed_step_def)
  next
    case True
    define f2 where "f2 = pt cl f1"
    have S1: "feed_ok [] f1" "f_staging f1 = Some i" "f_vol f1 = None" "f_live f1" "feed_step f f1" using S True by simp_all
    note P = pt_ok [OF S1(1) cl, folded f2_def]
    have 2: "f_vol f2 = None" "f_staging f2 = None \<or> f_staging f2 = Some i" "f_live f2" "feed_step f f2"
      using P(3,4) S1(2,3) P(2) S1(4) feed_step_trans [OF S1(5) P(2)] by (auto simp: feed_step_def [of f1])
    define s' where "s' = (if f_staging f2 = None then cl s else s)"
    have s': "length (st_data s') \<le> length (st_data s)" using cl by (simp add: s'_def close_ok_def)
    obtain b2 f3 where un: "unstage cl f2 = (b2, f3)" by fastforce
    note U = unstage_ok [OF cl P(1) 2(1,2,3) un]
    have 3: "feed_step f f3" using feed_step_trans 2(4) U by blast
    have r': "openStream cl i s f = (case unstage cl f2 of
               (False, f) \<Rightarrow> (Some ErrReaderClosed, f)
             | (True, f) \<Rightarrow>
                 (case fst (openVolume i s') of
                    Inl e \<Rightarrow> (Some e, log_close i f)
                  | Inr v \<Rightarrow>
                      if f_formatSeen f \<and> v_rar4 v \<noteq> f_rar4 f
                      then (Some (Wrap [ErrCorruptArchiveHeader]), log_close i f)
                      else case publishVolume cl v (f\<lparr>f_rar4 := v_rar4 v, f_formatSeen := True\<rparr>) of
                             (ok, f) \<Rightarrow> (if ok then None else Some ErrReaderClosed, f)))"
      using st True unfolding openStream_def Let_def f2_def s'_def by simp
    show ?thesis
    proof (cases b2)
      case False
      then show ?thesis using r r' un U 3 l by (auto simp: feed_idle_def feed_step_def)
    next
      case b2: True
      have ok3: "feed_ok [i] f3" using U b2 by simp
      have closed: "feed_idle (log_close i f3)" using log_close_ok [OF ok3] U by (simp add: feed_idle_def)
      show ?thesis
      proof (cases rule: openVolume_cases [of i s', case_names failed opened])
        case (failed e2 s2)
        then show ?thesis using r r' un b2 closed 3 U l by (auto simp: feed_step_def)
      next
        case (opened v s2)
        show ?thesis
        proof (cases "f_formatSeen f3 \<and> v_rar4 v \<noteq> f_rar4 f3")
          case True
          then show ?thesis using r r' un b2 opened closed 3 U l by (auto simp: feed_step_def)
        next
          case False
          define f4 where "f4 = f3\<lparr>f_rar4 := v_rar4 v, f_formatSeen := True\<rparr>"
          obtain b4 f5 where pub: "publishVolume cl v f4 = (b4, f5)" by fastforce
          have 4: "feed_ok [v_id v] f4" "f_vol f4 = None" "f_staging f4 = None" "f_live f4" "f_left f4 = f_left f3"
            "f_done f4 = f_done f3" "f_shut f4 = f_shut f3" "f_vols f4 = f_vols f3" "f_damaged f4 = f_damaged f3"
            using ok3 U opened(2) by (simp_all add: f4_def f_live_def chanClosed_def f_left_def)
          have "f_left f4 + vol_left v < n" using 3 4(5) opened(3) s' l by (simp add: feed_step_def)
          note Q = publishVolume_ok [OF cl 4(1-4) opened(4,5) this pub]
          have "openStream cl i s f = (if b4 then None else Some ErrReaderClosed, f5)"
            unfolding r' un using b2 opened(1) False pub by (simp add: f4_def)
          then have ef: "e = (if b4 then None else Some ErrReaderClosed)" "f' = f5" using r by simp_all
          have f4: "length (f_vols f) \<le> length (f_vols f4)" "f_done f4 = f_done f"
            "shut_le (f_done f) (f_shut f) (f_shut f4)" "cut_le (f_damaged f) (f_damaged f4)"
            using 3 4(6-9) by (simp_all add: feed_step_def)
          have "shut_le (f_done f) (f_shut f4) (f_shut f5)" "cut_le (f_damaged f4) (f_damaged f5)"
            using Q unfolding f4(2) by blast+
          note 5 = shut_le_trans [OF f4(3) this(1)] cut_le_trans [OF f4(4) this(2)]
          have "length (f_vols f) \<le> length (f_vols f5)" "f_done f5 = f_done f" using Q f4(1,2) by simp_all
          then show ?thesis using Q 5 unfolding ef by (cases b4) simp_all
        qed
      qed
    qed
  qed
qed

lemma nextVolume_ok:
  assumes cl: "close_ok cl" and f: "feed_idle f"
  shows "returns (nextVolume cl f) (\<lambda>(e, f'). next_post f e f')"
proof -
  obtain p g f0 where t: "takeVolume cl f = (p, g, f0)" by (cases "takeVolume cl f")
  define f1 where "f1 = (case p of Some j \<Rightarrow> f_closeVol cl j f0 | None \<Rightarrow> f0)"
  note T = takeVolume_ok [OF cl f t, folded f1_def]
  have 1: "feed_idle f1" "f_done f1 = f_done f" "feed_step f f1" using T by (simp_all add: feed_to_def feed_step_def)
  have after: "case x of Inl e \<Rightarrow> next_post f (Some e) f2
     | Inr (rc, i) \<Rightarrow> (case rc of
           None \<Rightarrow> next_post f (Some (Other ''nil volume stream on the volumes channel'')) (f2\<lparr>f_volIndex := f_volIndex f2 + 1\<rparr>)
         | Some s \<Rightarrow> (case openStream cl i s (f2\<lparr>f_volIndex := f_volIndex f2 + 1\<rparr>) of (e, f') \<Rightarrow> next_post f e f'))"
    if R: "f_vol f2 = None \<and> f_staging f2 = None \<and> feed_step f1 f2 \<and> f_live f2 \<and>
     (case x of Inl e \<Rightarrow> (e = ErrNoNextVolume \<or> e = ErrReaderClosed) \<and> feed_ok [] f2
      | Inr (rc, i) \<Rightarrow> feed_ok (case rc of None \<Rightarrow> [] | Some s \<Rightarrow> [i]) f2 \<and> f_left f2 + elem_left rc \<le> f_left f1)" for x f2
  proof -
    have 2: "feed_step f f2" using R 1(3) feed_step_trans by blast
    define f3 where "f3 = f2\<lparr>f_volIndex := f_volIndex f2 + 1\<rparr>"
    have 3: "f_vol f3 = None" "f_staging f3 = None" "f_live f3" "feed_step f f3" "f_left f3 = f_left f2"
      "feed_ok hs f3 = feed_ok hs f2" "f_done f3 = f_done f2" "f_shut f3 = f_shut f2" "f_vols f3 = f_vols f2" "f_damaged f3 = f_damaged f2" for hs
      using R 2 by (simp_all add: f3_def f_live_def chanClosed_def f_left_def)
    consider (err) e where "x = Inl e" | (nil) i where "x = Inr (None, i)" | (got) s i where "x = Inr (Some s, i)"
      by (metis (full_types) old.sum.exhaust option.exhaust surj_pair)
    then show ?thesis
    proof cases
      case err
      then show ?thesis using R 2 by (auto simp: next_post_def feed_to_def feed_idle_def)
    next
      case nil
      then show ?thesis using R 2 by (auto simp: next_post_def feed_to_def feed_idle_def)
    next
      case got
      obtain e f' where op: "openStream cl i s f3 = (e, f')" by fastforce
      have "feed_ok [i] f3" "f_left f3 + Suc (length (st_data s)) \<le> f_left f" using got R 3 1 by (auto simp: elem_left_def feed_step_def)
      from openStream_ok [OF cl this(1) 3(1,2,3) this(2) op] have "next_post f e f'"
        using 3 2 by (auto simp: next_post_def feed_to_def feed_idle_def feed_step_def intro: shut_le_trans cut_le_trans split: option.split)
      then show ?thesis using got op [unfolded f3_def] by simp
    qed
  qed
  have "returns (receive cl (f_done f1) f1) (\<lambda>(x, f'). f_vol f' = None \<and> f_staging f' = None \<and> feed_step f1 f' \<and> f_live f' \<and>
     (case x of Inl e \<Rightarrow> (e = ErrNoNextVolume \<or> e = ErrReaderClosed) \<and> feed_ok [] f'
      | Inr (rc, i) \<Rightarrow> feed_ok (case rc of None \<Rightarrow> [] | Some s \<Rightarrow> [i]) f' \<and> f_left f' + elem_left rc \<le> f_left f1))"
    by (rule receive_ok [OF cl 1(1) T(2)])
  then show ?thesis
    unfolding nextVolume_def t prod.case f1_def [symmetric] T(3) 1(2) [symmetric]
  proof (rule returns_seq)
    fix y assume y: "case y of (x, f') \<Rightarrow> f_vol f' = None \<and> f_staging f' = None \<and> feed_step f1 f' \<and> f_live f' \<and>
     (case x of Inl e \<Rightarrow> (e = ErrNoNextVolume \<or> e = ErrReaderClosed) \<and> feed_ok [] f'
      | Inr (rc, i) \<Rightarrow> feed_ok (case rc of None \<Rightarrow> [] | Some s \<Rightarrow> [i]) f' \<and> f_left f' + elem_left rc \<le> f_left f1)"
    obtain x f2 where yx: "y = (x, f2)" by (cases y)
    show "returns (case y of (x, f) \<Rightarrow> case x of Inl e \<Rightarrow> Some (Some e, f)
        | Inr (rc, i) \<Rightarrow> let f = f\<lparr>f_volIndex := f_volIndex f + 1\<rparr> in case rc of
            None \<Rightarrow> Some (Some (Other ''nil volume stream on the volumes channel''), f)
          | Some s \<Rightarrow> Some (openStream cl i s f)) (\<lambda>(e, f'). next_post f e f')"
      using after [of f2 x] y unfolding yx by (auto simp: Let_def split: sum.splits option.splits prod.splits)
  qed
qed

lemma openNextVolume_ok:
  assumes cl: "close_ok cl" and "feed_idle f"
  shows "returns (openNextVolume cl f) (\<lambda>(e, f'). next_post f e f' \<and> (\<forall>x. e = Some x \<longrightarrow> \<not> err_is x ErrUnexpectedEOF))"
  using assms(2)
proof (induction "f_left f" arbitrary: f rule: less_induct)
  case less
  show ?case
  proof (subst openNextVolume.simps, rule returns_seq [OF nextVolume_ok [OF cl less.prems]], clarify)
    fix e f' assume n: "next_post f e f'"
    show "returns (case e of None \<Rightarrow> Some (None, f')
        | Some x \<Rightarrow> if err_is x ErrUnexpectedEOF then openNextVolume cl (f'\<lparr>f_damaged := Some x\<rparr>) else Some (Some x, f'))
      (\<lambda>(e, f'). next_post f e f' \<and> (\<forall>x. e = Some x \<longrightarrow> \<not> err_is x ErrUnexpectedEOF))"
    proof (cases e)
      case None
      then show ?thesis using n by simp
    next
      case (Some x)
      show ?thesis
      proof (cases "err_is x ErrUnexpectedEOF")
        case True
        let ?g = "f'\<lparr>f_damaged := Some x\<rparr>"
        have g: "feed_to f ?g" "f_left ?g < f_left f" using n Some True by (auto simp: next_post_def f_left_def)
        then have "feed_idle ?g" by (auto simp: feed_to_def)
        from less.hyps [OF g(2) this] have "returns (openNextVolume cl ?g) (\<lambda>(e, f'). next_post f e f' \<and> (\<forall>x. e = Some x \<longrightarrow> \<not> err_is x ErrUnexpectedEOF))"
          by (rule returns_mono) (use next_post_trans [OF g(1)] in auto)
        then show ?thesis using Some True by simp
      qed (use n Some in simp)
    qed
  qed
qed

subsection \<open>Headers, payloads and the other steps\<close>

lemma feed_ok_vol:
  assumes "feed_ok hs f" and "j < length (f_vols f)" and "v_id v = v_id (f_vols f ! j)" and "v_closed v = v_closed (f_vols f ! j)"
  shows "feed_ok hs (f\<lparr>f_vols := (f_vols f)[j := v]\<rparr>)"
proof -
  have "open_ids (f_vol f) ((f_vols f)[j := v]) = open_ids (f_vol f) (f_vols f)"
    using assms(2-4) by (cases "f_vol f") (auto simp: open_ids_def nth_list_update)
  then show ?thesis using assms(1) by (simp add: feed_ok_def f_open_def)
qed

lemma feed_step_vol:
  assumes "j < length (f_vols f)" and "vol_left v + k \<le> vol_left (f_vols f ! j)"
  shows "feed_step f (f\<lparr>f_vols := (f_vols f)[j := v]\<rparr>)" and "f_left (f\<lparr>f_vols := (f_vols f)[j := v]\<rparr>) + k \<le> f_left f"
proof -
  note s = sum_vols_update [OF assms(1), of v]
  show "f_left (f\<lparr>f_vols := (f_vols f)[j := v]\<rparr>) + k \<le> f_left f" using s assms(2) by (simp add: f_left_def)
  then show "feed_step f (f\<lparr>f_vols := (f_vols f)[j := v]\<rparr>)" by (simp add: feed_step_def f_live_def chanClosed_def)
qed

lemma feed_to_vol:
  assumes "feed_to f g" and "j < length (f_vols g)" and "v_id v = v_id (f_vols g ! j)" "v_closed v = v_closed (f_vols g ! j)"
    and "vol_left v + k \<le> vol_left (f_vols g ! j)"
  shows "feed_to f (g\<lparr>f_vols := (f_vols g)[j := v]\<rparr>)" and "f_left (g\<lparr>f_vols := (f_vols g)[j := v]\<rparr>) + k \<le> f_left f"
proof -
  note S = feed_step_vol [OF assms(2,5)]
  have "feed_ok [] g" using assms(1) by (simp add: feed_to_def feed_idle_def)
  from feed_ok_vol [OF this assms(2-4)] show "feed_to f (g\<lparr>f_vols := (f_vols g)[j := v]\<rparr>)"
    using assms(1) S(1) feed_step_trans [of f g] by (auto simp: feed_to_def feed_idle_def f_live_def chanClosed_def)
  show "f_left (g\<lparr>f_vols := (f_vols g)[j := v]\<rparr>) + k \<le> f_left f"
    using S(2) assms(1) by (simp add: feed_to_def feed_step_def)
qed

lemma f_nextHeader_ok:
  assumes cl: "close_ok cl" and "feed_idle f" and j: "f_vol f = Some j"
  shows "returns (f_nextHeader cl aes j f) (\<lambda>(x, f'). feed_to f f' \<and> f_vol f' = Some j
     \<and> (case x of Inl e \<Rightarrow> v_err (f_vols f' ! j) = Some e | Inr h \<Rightarrow> f_left f' < f_left f))"
proof -
  define g where "g = pt cl f"
  have P: "feed_to f g" "f_vol g = Some j" using pt_to [OF cl assms(2)] j by (simp_all add: g_def)
  then have l: "j < length (f_vols g)" by (auto simp: feed_to_def feed_idle_def feed_ok_def)
  have H: "f_nextHeader cl aes j f = Option.bind (vol_next aes (f_vols g ! j)) (\<lambda>(x, v). Some (x, g\<lparr>f_vols := (f_vols g)[j := v]\<rparr>))"
    by (simp add: f_nextHeader_def g_def Let_def)
  show ?thesis
  proof (cases rule: vol_next_cases [of aes "f_vols g ! j", case_names failed found])
    case (failed e v)
    have "vol_left v + 0 \<le> vol_left (f_vols g ! j)" using taken_length [OF failed(3)] by (simp add: vol_left_def)
    from feed_to_vol [OF P(1) l failed(4,5) this] show ?thesis using failed H P(2) l by simp
  next
    case (found h v)
    have "vol_left v + 7 \<le> vol_left (f_vols g ! j)" using taken_length [OF found(4)] by (simp add: vol_left_def)
    from feed_to_vol [OF P(1) l found(6,7) this] show ?thesis using found H P(2) l by simp
  qed
qed

lemma payload_Read_left:
  "payload_Read v n = Some (bs, e, v') \<Longrightarrow> v_id v' = v_id v \<and> v_closed v' = v_closed v
     \<and> vol_left v' + length bs \<le> vol_left v \<and> length bs \<le> n \<and> (e = None \<longrightarrow> 0 < n \<longrightarrow> bs \<noteq> [])"
  by (auto simp: payload_Read_eq vol_left_def split: if_splits)

lemma f_payload_ok:
  assumes cl: "close_ok cl" and "feed_idle f" and j: "j < length (f_vols f)"
  shows "returns (f_payload cl j f n) (\<lambda>(bs, e, f'). feed_to f f' \<and> f_vol f' = f_vol f \<and> f_left f' + length bs \<le> f_left f
     \<and> length bs \<le> n \<and> (e = None \<longrightarrow> 0 < n \<longrightarrow> bs \<noteq> []))"
proof -
  define g where "g = pt cl f"
  have P: "feed_to f g" "f_vol g = f_vol f" using pt_to [OF cl assms(2)] by (simp_all add: g_def)
  then have l: "j < length (f_vols g)" using j by (auto simp: feed_to_def feed_step_def)
  obtain bs e v where r: "payload_Read (f_vols g ! j) n = Some (bs, e, v)" using payload_Read_eq by (metis prod_cases3)
  note L = payload_Read_left [OF r]
  have "f_payload cl j f n = Some (bs, e, g\<lparr>f_vols := (f_vols g)[j := v]\<rparr>)"
    using r by (simp add: f_payload_def g_def Let_def)
  then show ?thesis using feed_to_vol [OF P(1) l] L P(2) by auto
qed

lemma f_isClosed_ok:
  assumes "close_ok cl" and "feed_idle f" and "f_isClosed cl f = (b, f')"
  shows "feed_to f f'" and "f_vol f' = f_vol f" and "b \<longleftrightarrow> chanClosed (f_done f') f'"
  using pt_to [OF assms(1,2)] assms(3) by (auto simp: f_isClosed_def Let_def)

lemma f_Reset_ok:
  assumes cl: "close_ok cl" and f: "feed_idle f" and "ended \<or> sched \<noteq> []"
  shows "feed_idle (f_Reset cl k queue ended sched picks f)" and "f_vol (f_Reset cl k queue ended sched picks f) = None"
    and "f_done (f_Reset cl k queue ended sched picks f) = f_done f + 1"
    and "shut_le (f_done f) (f_shut f) (f_shut (f_Reset cl k queue ended sched picks f))"
    and "length (f_vols f) \<le> length (f_vols (f_Reset cl k queue ended sched picks f))"
proof -
  note c = closeCurrentVolume_ok [OF cl f]
  have "feed_ok [] (closeCurrentVolume cl f)" using c(1) by (simp add: feed_to_def feed_idle_def)
  note d = drainVolumes_ok [OF this, of k]
  have "f_staging (closeCurrentVolume cl f) = None" using c(1) by (simp add: feed_to_def feed_idle_def)
  then show "feed_idle (f_Reset cl k queue ended sched picks f)"
    using c(2) d assms(3) by (auto simp: f_Reset_def Let_def feed_idle_def feed_ok_def f_open_def f_live_def)
  show "f_vol (f_Reset cl k queue ended sched picks f) = None"
    "f_done (f_Reset cl k queue ended sched picks f) = f_done f + 1"
    "shut_le (f_done f) (f_shut f) (f_shut (f_Reset cl k queue ended sched picks f))"
    "length (f_vols f) \<le> length (f_vols (f_Reset cl k queue ended sched picks f))"
    using c d by (simp_all add: f_Reset_def Let_def feed_to_def feed_step_def)
qed

lemma new_feed_idle: "ended \<or> sched \<noteq> [] \<Longrightarrow> feed_idle (new_feed queue ended sched picks)"
  by (auto simp: new_feed_def feed_idle_def feed_ok_def f_open_def f_live_def)

text \<open>Behind a \<^verbatim>\<open>Close\<close> every stream that came off the channel is closed, once.\<close>

lemma f_Close_all:
  assumes "feed_idle f" and "close_ok cl"
  shows "mset (f_log (f_Close cl k f)) = mset [0..<f_next (f_Close cl k f)]"
proof -
  have "feed_ok [] f" using assms(1) by (simp add: feed_idle_def)
  note c = f_Close_ok [OF this assms(2), of k]
  show ?thesis using c(1,4,6) by (simp add: feed_ok_def f_open_def)
qed

end
