(* ===== verification/Reader.thy ===== *)
theory Reader
  imports Decoder Entry Feed
begin

section \<open>The Reader: its state and what a block means to it (reader.go)\<close>

text \<open>
  The state of \<^verbatim>\<open>Reader\<close>, with the fields about volumes in \<open>r_feed\<close>, and the functions
  that do not read a member: the latch, blocks that are no file, passwords, the window's size,
  the chain a member is read through. An entry is a number, its place in \<open>r_heap\<close>: the
  caller, the Reader and the splice hold the same entry. \<open>env\<close> has what is not the program's:
  the block cipher and the MAC, the vector kernels, what a closed stream gives, and the
  operating system's memory.
\<close>

subsection \<open>State\<close>

record env =
  en_aes :: aes
  en_hmac :: hmac
  en_date :: localDate
  en_sp :: simd_kernel
  en_arm :: "(byte list \<Rightarrow> int \<Rightarrow> byte list \<times> nat) option"
  en_e8 :: "(byte list \<Rightarrow> byte \<Rightarrow> int) option"
  en_close :: "stream \<Rightarrow> stream"
  en_reserve :: "nat \<Rightarrow> err + byte list"
  en_decommit :: "byte list \<Rightarrow> byte list"

text \<open>\<^verbatim>\<open>multiVolumePayloadReader\<close>: its entry, and the volume whose payload it reads.\<close>

record splicer =
  ss_e :: nat
  ss_src :: nat

text \<open>
  What a member is read through: the splice, with decryption above it or not; and above that
  nothing (a stored member) or the Reader's decoder and window (\<^verbatim>\<open>lz50Reader\<close>), whose
  source is in \<open>r_dec50\<close>. \<open>NoSource\<close> is the nil source of a decoder never started.
\<close>

datatype packed = NoSource | Spliced splicer | Decrypted "splicer cbcDecryptReader"

datatype chain = Stored packed | Coded

record reader =
  r_feed :: feed
  r_win :: window
  r_entry :: "nat option"
  r_heap :: "chain entry list"
  r_dec50 :: "packed decoder50"
  r_maxWindow :: int
  r_archiveMax :: int
  r_capLatched :: bool
  r_passwords :: "byte list list"
  r_resolved :: "byte list option"
  r_staged :: "blockHeader option"
  r_solid :: bool
  r_solidSeen :: bool
  r_fileSeen :: bool
  r_lateNotFirst :: "err option"
  r_endNumberSeen :: bool
  r_memberFailed :: bool
  r_listing :: bool
  r_fatal :: "err option"

text \<open>\<open>maxDictSize\<close> is the default cap where the window is a mapping.\<close>

definition NewReader :: "feed \<Rightarrow> reader" where
  "NewReader f =
     \<lparr>r_feed = f, r_win = newWindow minWindowSize, r_entry = None, r_heap = [], r_dec50 = newDecoder50 NoSource,
      r_maxWindow = int maxDictSize, r_archiveMax = 0, r_capLatched = False, r_passwords = [], r_resolved = None,
      r_staged = None, r_solid = False, r_solidSeen = False, r_fileSeen = False, r_lateNotFirst = None,
      r_endNumberSeen = False, r_memberFailed = False, r_listing = False, r_fatal = None\<rparr>"

definition r_SetMaxWindow :: "int \<Rightarrow> reader \<Rightarrow> reader" where
  "r_SetMaxWindow n r = r\<lparr>r_maxWindow := n\<rparr>"

definition r_SetPasswords :: "byte list list \<Rightarrow> reader \<Rightarrow> reader" where
  "r_SetPasswords ps r = r\<lparr>r_passwords := ps\<rparr>"

definition r_isClosed :: "env \<Rightarrow> reader \<Rightarrow> bool \<times> reader" where
  "r_isClosed E r = (case f_isClosed (en_close E) (r_feed r) of (b, f) \<Rightarrow> (b, r\<lparr>r_feed := f\<rparr>))"

definition r_closeCurrentVolume :: "env \<Rightarrow> reader \<Rightarrow> reader" where
  "r_closeCurrentVolume E r = r\<lparr>r_feed := closeCurrentVolume (en_close E) (r_feed r)\<rparr>"

definition r_openNextVolume :: "env \<Rightarrow> reader \<Rightarrow> (err option \<times> reader) option" where
  "r_openNextVolume E r = Option.bind (openNextVolume (en_close E) (r_feed r)) (\<lambda>(e, f). Some (e, r\<lparr>r_feed := f\<rparr>))"

text \<open>\<^verbatim>\<open>r.vol.next()\<close>; on a nil volume it would panic.\<close>

definition r_nextHeader :: "env \<Rightarrow> reader \<Rightarrow> ((err + blockHeader) \<times> reader) option" where
  "r_nextHeader E r =
     (case f_vol (r_feed r) of
        None \<Rightarrow> None
      | Some j \<Rightarrow> Option.bind (f_nextHeader (en_close E) (en_aes E) j (r_feed r)) (\<lambda>(x, f). Some (x, r\<lparr>r_feed := f\<rparr>)))"

subsection \<open>The latch\<close>

definition latchArchive :: "env \<Rightarrow> err \<Rightarrow> reader \<Rightarrow> reader" where
  "latchArchive E e r =
     (if err_is e EOF \<or> err_is e ErrNoNextVolume \<or> err_is e ErrReaderClosed then r
      else case r_isClosed E r of (closed, r) \<Rightarrow> if closed then r else r\<lparr>r_fatal := Some e\<rparr>)"

subsection \<open>Passwords\<close>

fun password_scan :: "(byte list \<Rightarrow> bool \<times> bool \<times> err option) \<Rightarrow> byte list list \<Rightarrow> err + byte list" where
  "password_scan verify [] = Inl ErrWrongPassword"
| "password_scan verify (p # ps) =
     (case verify p of
        (ok, _, Some e) \<Rightarrow> if err_is e ErrPasswordRequired then password_scan verify ps else Inl e
      | (ok, _, None) \<Rightarrow> if ok then Inr p else password_scan verify ps)"

text \<open>The two functions are alike but for the check value and the way to verify it.\<close>

definition resolve_with :: "byte list \<Rightarrow> (byte list \<Rightarrow> bool \<times> bool \<times> err option) \<Rightarrow> reader \<Rightarrow> (err + byte list) \<times> reader" where
  "resolve_with check verify r =
     (case r_resolved r of
        Some p \<Rightarrow> (Inr p, r)
      | None \<Rightarrow>
          if r_passwords r = [] then (Inl ErrPasswordRequired, r)
          else if check = [] then (Inr (hd (r_passwords r)), r)
          else case password_scan verify (r_passwords r) of
                 Inl e \<Rightarrow> (Inl e, r)
               | Inr p \<Rightarrow> (Inr p, r\<lparr>r_resolved := Some p\<rparr>))"

definition resolvePassword :: "env \<Rightarrow> FileHeader \<Rightarrow> reader \<Rightarrow> (err + byte list) \<times> reader" where
  "resolvePassword E fh r = resolve_with (fh_EncCheck fh) (verifyFileHeaderPassword (en_hmac E) fh) r"

definition resolveHeaderPassword :: "env \<Rightarrow> cryptHeader \<Rightarrow> reader \<Rightarrow> (err + byte list) \<times> reader" where
  "resolveHeaderPassword E ch r = resolve_with (ch_CheckValue ch) (verifyCryptHeaderPassword (en_hmac E) ch) r"

subsection \<open>Blocks that are no file\<close>

definition armHeaderDecryption :: "env \<Rightarrow> blockHeader \<Rightarrow> reader \<Rightarrow> err option \<times> reader" where
  "armHeaderDecryption E h r =
     (case parseCryptHeader h of
        Inl e \<Rightarrow>
          (Some (Wrap [if err_is e ErrUnknownEncryptMethod then ErrUnsupportedEncryptionVersion else ErrCorruptArchiveHeader, e]), r)
      | Inr ch \<Rightarrow>
          (case resolveHeaderPassword E ch r of
             (Inl e, r) \<Rightarrow> (Some e, r)
           | (Inr p, r) \<Rightarrow>
               (case headerKeyFromPassword (en_hmac E) ch p of
                  Inl e \<Rightarrow> (Some e, r)
                | Inr key \<Rightarrow>
                    let f = r_feed r; j = the (f_vol f)
                    in (None, r\<lparr>r_feed := f\<lparr>f_vols := (f_vols f)[j := vol_useEncryptedHeaders key (f_vols f ! j)]\<rparr>\<rparr>))))"

definition startsMidSet :: "reader \<Rightarrow> err option" where
  "startsMidSet r = (if r_listing r then None else Some (Wrap [ErrNotFirstVolume]))"

definition handleArchive :: "blockHeader \<Rightarrow> reader \<Rightarrow> err option \<times> reader" where
  "handleArchive h r =
     (case parseArchiveHeader h of
        Inl e \<Rightarrow> (Some (if err_is e ErrUnsupportedFormat then e else Wrap [ErrCorruptArchiveHeader, e]), r)
      | Inr ah \<Rightarrow>
          (case (if f_volIndex (r_feed r) = 1 \<and> ah_MultiVolume ah \<and> 0 < ah_VolumeNumber ah then startsMidSet r else None) of
             Some e \<Rightarrow> (Some e, r)
           | None \<Rightarrow>
               if r_solidSeen r \<and> r_solid r \<noteq> ah_Solid ah then (Some (Wrap [ErrCorruptArchiveHeader]), r)
               else (None, r\<lparr>r_solid := ah_Solid ah, r_solidSeen := True\<rparr>)))"

definition handleEnd :: "blockHeader \<Rightarrow> reader \<Rightarrow> reader" where
  "handleEnd h r =
     (if bl_rar4 h \<and> \<not> r_endNumberSeen r \<and> r_entry r = None \<and> 0 \<le> endVolumeNumber4 h
      then let r = r\<lparr>r_endNumberSeen := True\<rparr>;
               start = endVolumeNumber4 h - (int (f_volIndex (r_feed r)) - 1)
           in if 0 < start \<and> (f_volIndex (r_feed r) = 1 \<or> \<not> r_memberFailed r)
              then r\<lparr>r_lateNotFirst := startsMidSet r\<rparr> else r
      else r)"

definition handleNonFileBlock :: "env \<Rightarrow> blockHeader \<Rightarrow> reader \<Rightarrow> err option \<times> reader" where
  "handleNonFileBlock E h r =
     (if bl_Type h = headerTypeArchive then handleArchive h r
      else if bl_Type h = headerTypeEncryption then armHeaderDecryption E h r
      else if bl_Type h = headerTypeEnd then (None, r_closeCurrentVolume E (handleEnd h r))
      else (None, r))"

subsection \<open>Admission\<close>

definition unpackVersionRAR5 :: nat where "unpackVersionRAR5 = 0"
definition bombRatio :: int where "bombRatio = 65536"

definition admitFormat :: "blockHeader \<Rightarrow> FileHeader \<Rightarrow> err option" where
  "admitFormat h fh =
     (if \<not> bl_rar4 h
      then if fh_UnpackVersion fh \<noteq> unpackVersionRAR5 then Some (Wrap [ErrUnsupportedFormat]) else None
      else if fh_Encrypted fh then Some (Wrap [ErrUnsupportedFormat])
      else if fh_Method fh \<noteq> 0 then Some (Wrap [ErrUnsupportedFormat])
      else None)"

text \<open>The guard of \<^verbatim>\<open>dispatch\<close> against bombs; \<^verbatim>\<open>math.MaxInt64 / bombRatio\<close> floors.\<close>

definition bomb :: "FileHeader \<Rightarrow> bool" where
  "bomb fh \<longleftrightarrow> 1024 * 1024 < fh_UnpackedSize fh
     \<and> (fh_PackedSize fh = 0
        \<or> (fh_PackedSize fh \<le> (2 ^ 63 - 1) div bombRatio \<and> bombRatio * fh_PackedSize fh < fh_UnpackedSize fh))"

definition sizeWindow :: "env \<Rightarrow> FileHeader \<Rightarrow> reader \<Rightarrow> err option \<times> reader" where
  "sizeWindow E fh r =
     (if fh_DictSize fh \<le> 0 \<or> fh_Method fh = 0 then (None, r)
      else let r = (if r_capLatched r then r else r\<lparr>r_archiveMax := r_maxWindow r, r_capLatched := True\<rparr>);
               want = min (fh_DictSize fh) (r_archiveMax r)
           in if want \<le> int (win_size (r_win r)) then (None, r)
              else if fh_Solid fh
              then if win_incomplete (r_win r) then (None, r) else (Some (Wrap [ErrCorruptFileHeader]), r)
              else case win_grow (en_reserve E) (r_win r) (nat want) of
                     (None, w) \<Rightarrow> (None, r\<lparr>r_win := w\<rparr>)
                   | (Some e, w) \<Rightarrow> (Some (Wrap [ErrDictionaryTooLarge, e]), r\<lparr>r_win := w\<rparr>))"

definition buildChain :: "env \<Rightarrow> FileHeader \<Rightarrow> splicer \<Rightarrow> reader \<Rightarrow> (err + chain) \<times> reader" where
  "buildChain E fh src r =
     (case (if fh_Encrypted fh
            then (case resolvePassword E fh r of
                    (Inl e, r) \<Rightarrow> (Inl e, r)
                  | (Inr password, r) \<Rightarrow>
                      if maxKdfCount < fh_KdfCount fh then (Inl errKdfCountExceeded, r)
                      else (case pbkdf2HmacSha256 (en_hmac E) password (fh_Salt fh) (2 ^ fh_KdfCount fh) of
                              (key, pswCheckVal) \<Rightarrow>
                                (case (if fh_EncCheck fh \<noteq> [] then verifyEncCheck pswCheckVal (fh_EncCheck fh) else None) of
                                   Some e \<Rightarrow> (Inl e, r)
                                 | None \<Rightarrow>
                                     (case newCBCDecryptReader (en_aes E) src key (fh_IV fh) of
                                        Inl e \<Rightarrow> (Inl e, r)
                                      | Inr c \<Rightarrow> (Inr (Decrypted c), r)))))
            else (Inr (Spliced src), r)) of
        (Inl e, r) \<Rightarrow> (Inl e, r)
      | (Inr p, r) \<Rightarrow>
          if fh_Method fh = 0 then (Inr (Stored p), r)
          else (Inr Coded, r\<lparr>r_dec50 := dec_begin (r_dec50 r) p (\<not> fh_FirstBlock fh) (fh_DictSize fh)\<rparr>))"

subsection \<open>What these leave alone\<close>

text \<open>
  The books: a staged header is of a file, and what is latched is an archive's failure. They
  are kept, and a latch never opens. \<open>quiet r r'\<close>: the step from \<open>r\<close> to \<open>r'\<close> may have moved through the volumes, settled blocks
  and put another header of the member in progress in force, but it has not touched the
  window, the decoder, which member is in progress or anything else of an entry.
\<close>

definition still :: "chain entry \<Rightarrow> chain entry" where
  "still e = e\<lparr>e_cur := FileHeader_zero\<rparr>"

definition latchable :: "err \<Rightarrow> bool" where
  "latchable e \<longleftrightarrow> \<not> err_is e EOF \<and> \<not> err_is e ErrNoNextVolume \<and> \<not> err_is e ErrReaderClosed"

definition books_ok :: "reader \<Rightarrow> bool" where
  "books_ok r \<longleftrightarrow> (\<forall>h. r_staged r = Some h \<longrightarrow> bl_Type h = headerTypeFile) \<and> (\<forall>e. r_fatal r = Some e \<longrightarrow> latchable e)
     \<and> (\<forall>e. r_lateNotFirst r = Some e \<longrightarrow> e = Wrap [ErrNotFirstVolume])"

definition keeps :: "reader \<Rightarrow> reader \<Rightarrow> bool" where
  "keeps r r' \<longleftrightarrow> (books_ok r \<longrightarrow> books_ok r') \<and> (r_fatal r \<noteq> None \<longrightarrow> r_fatal r' \<noteq> None)"

lemma keeps_refl [simp]: "keeps r r"
  by (simp add: keeps_def)

lemma keeps_trans [trans]: "keeps r s \<Longrightarrow> keeps s t \<Longrightarrow> keeps r t"
  by (auto simp: keeps_def)

lemma books_fields [simp]:
  "books_ok (s\<lparr>r_resolved := a\<rparr>) = books_ok s" "books_ok (s\<lparr>r_solid := b\<rparr>) = books_ok s"
  "books_ok (s\<lparr>r_solidSeen := b\<rparr>) = books_ok s" "books_ok (s\<lparr>r_endNumberSeen := b\<rparr>) = books_ok s"
  "books_ok (s\<lparr>r_feed := f\<rparr>) = books_ok s"
  "books_ok (s\<lparr>r_heap := g\<rparr>) = books_ok s" "books_ok (s\<lparr>r_win := w\<rparr>) = books_ok s"
  "books_ok (s\<lparr>r_dec50 := d\<rparr>) = books_ok s" "books_ok (s\<lparr>r_entry := i\<rparr>) = books_ok s"
  "books_ok (s\<lparr>r_archiveMax := m\<rparr>) = books_ok s" "books_ok (s\<lparr>r_capLatched := l\<rparr>) = books_ok s"
  "books_ok (s\<lparr>r_fileSeen := b\<rparr>) = books_ok s" "books_ok (s\<lparr>r_memberFailed := b\<rparr>) = books_ok s"
  by (simp_all add: books_ok_def)

lemma keeps_fields [simp]:
  "keeps r (s\<lparr>r_resolved := a\<rparr>) = keeps r s" "keeps r (s\<lparr>r_solid := b\<rparr>) = keeps r s"
  "keeps r (s\<lparr>r_solidSeen := b\<rparr>) = keeps r s" "keeps r (s\<lparr>r_endNumberSeen := b\<rparr>) = keeps r s"
  "keeps r (s\<lparr>r_feed := f\<rparr>) = keeps r s"
  "keeps r (s\<lparr>r_heap := g\<rparr>) = keeps r s" "keeps r (s\<lparr>r_win := w\<rparr>) = keeps r s"
  "keeps r (s\<lparr>r_dec50 := d\<rparr>) = keeps r s" "keeps r (s\<lparr>r_entry := i\<rparr>) = keeps r s"
  "keeps r (s\<lparr>r_archiveMax := m\<rparr>) = keeps r s" "keeps r (s\<lparr>r_capLatched := l\<rparr>) = keeps r s"
  "keeps r (s\<lparr>r_fileSeen := b\<rparr>) = keeps r s" "keeps r (s\<lparr>r_memberFailed := b\<rparr>) = keeps r s"
  by (simp_all add: keeps_def)

definition quiet :: "reader \<Rightarrow> reader \<Rightarrow> bool" where
  "quiet r r' \<longleftrightarrow> feed_to (r_feed r) (r_feed r') \<and> r_win r' = r_win r \<and> r_dec50 r' = r_dec50 r \<and> r_entry r' = r_entry r
     \<and> map still (r_heap r') = map still (r_heap r) \<and> (\<forall>i. r_entry r \<noteq> Some i \<longrightarrow> r_heap r' ! i = r_heap r ! i)
     \<and> r_listing r' = r_listing r \<and> keeps r r'"

lemma quiet_refl [simp]: "quiet r r = feed_idle (r_feed r)"
  by (simp add: quiet_def)

lemma quiet_trans [trans]: "quiet r s \<Longrightarrow> quiet s t \<Longrightarrow> quiet r t"
  using feed_to_trans keeps_trans by (auto simp: quiet_def)

lemma quiet_idle: "quiet r r' \<Longrightarrow> feed_idle (r_feed r')"
  by (simp add: quiet_def feed_to_def)

lemma quiet_left: "quiet r r' \<Longrightarrow> f_left (r_feed r') \<le> f_left (r_feed r)"
  by (simp add: quiet_def feed_to_def feed_step_def)

lemma quiet_heap: "quiet r r' \<Longrightarrow> length (r_heap r') = length (r_heap r)"
  by (metis quiet_def length_map)

lemma quiet_vols: "quiet r r' \<Longrightarrow> length (f_vols (r_feed r)) \<le> length (f_vols (r_feed r'))"
  by (simp add: quiet_def feed_to_def feed_step_def)

lemma quiet_fields [simp]:
  "quiet r (s\<lparr>r_resolved := c\<rparr>) = quiet r s"
  "quiet r (s\<lparr>r_solid := d, r_solidSeen := e\<rparr>) = quiet r s" "quiet r (s\<lparr>r_endNumberSeen := g\<rparr>) = quiet r s"
  by (simp_all add: quiet_def)

lemma keeps_fatal: "keeps r s \<Longrightarrow> latchable e \<Longrightarrow> keeps r (s\<lparr>r_fatal := Some e\<rparr>)"
proof -
  assume a: "keeps r s" "latchable e"
  have "books_ok s \<Longrightarrow> books_ok (s\<lparr>r_fatal := Some e\<rparr>)" unfolding books_ok_def using a(2) by simp
  then show ?thesis using a(1) unfolding keeps_def by simp
qed

lemma keeps_staged: "keeps r s \<Longrightarrow> bl_Type h = headerTypeFile \<Longrightarrow> keeps r (s\<lparr>r_staged := Some h\<rparr>)"
proof -
  assume a: "keeps r s" "bl_Type h = headerTypeFile"
  have "books_ok s \<Longrightarrow> books_ok (s\<lparr>r_staged := Some h\<rparr>)" unfolding books_ok_def using a(2) by simp
  then show ?thesis using a(1) unfolding keeps_def by simp
qed

lemma keeps_late: "keeps r s \<Longrightarrow> keeps r (s\<lparr>r_lateNotFirst := startsMidSet t\<rparr>)"
proof -
  assume a: "keeps r s"
  have "books_ok s \<Longrightarrow> books_ok (s\<lparr>r_lateNotFirst := startsMidSet t\<rparr>)"
    unfolding books_ok_def startsMidSet_def by simp
  then show ?thesis using a unfolding keeps_def by simp
qed

lemma quiet_late [simp]: "quiet r s \<Longrightarrow> quiet r (s\<lparr>r_lateNotFirst := startsMidSet t\<rparr>)"
  using keeps_late by (auto simp: quiet_def)

lemma quiet_fatal [simp]: "quiet r s \<Longrightarrow> latchable e \<Longrightarrow> quiet r (s\<lparr>r_fatal := Some e\<rparr>)"
  using keeps_fatal by (auto simp: quiet_def)

lemma quiet_staged [simp]: "quiet r s \<Longrightarrow> bl_Type h = headerTypeFile \<Longrightarrow> quiet r (s\<lparr>r_staged := Some h\<rparr>)"
  using keeps_staged by (auto simp: quiet_def)

lemma quiet_feed: "feed_to (r_feed r) f \<Longrightarrow> quiet r (r\<lparr>r_feed := f\<rparr>)"
  by (simp add: quiet_def)

lemma r_isClosed_ok:
  assumes "close_ok (en_close E)" and "feed_idle (r_feed r)" and "r_isClosed E r = (b, r')"
  shows "quiet r r'" and "f_vol (r_feed r') = f_vol (r_feed r)" and "r' = r\<lparr>r_feed := r_feed r'\<rparr>"
    and "b \<longleftrightarrow> chanClosed (f_done (r_feed r)) (r_feed r')"
proof -
  obtain f where f: "f_isClosed (en_close E) (r_feed r) = (b, f)" "r' = r\<lparr>r_feed := f\<rparr>"
    using assms(3) by (auto simp: r_isClosed_def split: prod.splits)
  note c = f_isClosed_ok [OF assms(1,2) f(1)]
  show "quiet r r'" "f_vol (r_feed r') = f_vol (r_feed r)" "r' = r\<lparr>r_feed := r_feed r'\<rparr>"
    using c f(2) by (simp_all add: quiet_feed)
  show "b \<longleftrightarrow> chanClosed (f_done (r_feed r)) (r_feed r')" using c f(2) by (simp add: feed_to_def feed_step_def)
qed

lemma latchArchive_ok:
  assumes "close_ok (en_close E)" and "feed_idle (r_feed r)"
  shows "quiet r (latchArchive E e r)" and "f_vol (r_feed (latchArchive E e r)) = f_vol (r_feed r)"
proof -
  obtain b r' where c: "r_isClosed E r = (b, r')" by fastforce
  show "quiet r (latchArchive E e r)" "f_vol (r_feed (latchArchive E e r)) = f_vol (r_feed r)"
    using r_isClosed_ok(1,2) [OF assms c] c assms(2) by (auto simp: latchArchive_def latchable_def)
qed

lemma r_closeCurrentVolume_ok:
  assumes "close_ok (en_close E)" and "feed_idle (r_feed r)"
  shows "quiet r (r_closeCurrentVolume E r)" and "f_vol (r_feed (r_closeCurrentVolume E r)) = None"
  using closeCurrentVolume_ok [OF assms] by (simp_all add: r_closeCurrentVolume_def quiet_feed)

lemma r_openNextVolume_ok:
  assumes "close_ok (en_close E)" and "feed_idle (r_feed r)"
  shows "returns (r_openNextVolume E r) (\<lambda>(e, r'). quiet r r' \<and> r' = r\<lparr>r_feed := r_feed r'\<rparr>
     \<and> next_post (r_feed r) e (r_feed r') \<and> (\<forall>x. e = Some x \<longrightarrow> \<not> err_is x ErrUnexpectedEOF))"
  unfolding r_openNextVolume_def
  by (rule returns_seq [OF openNextVolume_ok [OF assms]]) (auto simp: quiet_feed next_post_def split: option.splits)

lemma r_nextHeader_ok:
  assumes "close_ok (en_close E)" and "feed_idle (r_feed r)" and "f_vol (r_feed r) = Some j"
  shows "returns (r_nextHeader E r) (\<lambda>(x, r'). quiet r r' \<and> r' = r\<lparr>r_feed := r_feed r'\<rparr> \<and> f_vol (r_feed r') = Some j
     \<and> (case x of Inl e \<Rightarrow> v_err (f_vols (r_feed r') ! j) = Some e | Inr h \<Rightarrow> f_left (r_feed r') < f_left (r_feed r)))"
  unfolding r_nextHeader_def assms(3) option.case
  by (rule returns_seq [OF f_nextHeader_ok [OF assms]]) (auto simp: quiet_feed split: sum.splits)

lemma resolve_with_ok: "resolve_with check verify r = (x, r') \<Longrightarrow> r' = r \<or> (\<exists>p. r' = r\<lparr>r_resolved := p\<rparr>)"
  by (auto simp: resolve_with_def split: option.splits if_splits sum.splits)

lemma armHeaderDecryption_ok:
  assumes "feed_idle (r_feed r)" and "f_vol (r_feed r) = Some j" and "armHeaderDecryption E h r = (e, r')"
  shows "quiet r r'" and "f_vol (r_feed r') = Some j"
proof -
  have j: "j < length (f_vols (r_feed r))" using assms(1,2) by (simp add: feed_idle_def feed_ok_def)
  have "feed_to (r_feed r) ((r_feed r)\<lparr>f_vols := (f_vols (r_feed r))[j := vol_useEncryptedHeaders key (f_vols (r_feed r) ! j)]\<rparr>)" for key
    by (rule feed_to_vol(1) [where k = 0]) (use assms(1) j in \<open>simp_all add: vol_useEncryptedHeaders_def vol_left_def\<close>)
  then have "quiet r r' \<and> f_vol (r_feed r') = Some j"
    using assms
    by (auto simp: armHeaderDecryption_def resolveHeaderPassword_def Let_def quiet_def dest!: resolve_with_ok
        split: sum.splits prod.splits)
  then show "quiet r r'" and "f_vol (r_feed r') = Some j" by simp_all
qed

lemma handleArchive_ok:
  "feed_idle (r_feed r) \<Longrightarrow> handleArchive h r = (e, r') \<Longrightarrow> quiet r r' \<and> f_vol (r_feed r') = f_vol (r_feed r)"
  by (auto simp: handleArchive_def split: sum.splits option.splits if_splits)

lemma handleEnd_ok:
  "feed_idle (r_feed r) \<Longrightarrow> quiet r (handleEnd h r) \<and> r_feed (handleEnd h r) = r_feed r"
  by (simp add: handleEnd_def Let_def)

lemma handleNonFileBlock_ok:
  assumes "close_ok (en_close E)" and "feed_idle (r_feed r)" and "f_vol (r_feed r) = Some j"
    and "handleNonFileBlock E h r = (e, r')"
  shows "quiet r r'" and "e \<noteq> None \<or> bl_Type h \<noteq> headerTypeEnd \<Longrightarrow> f_vol (r_feed r') = Some j"
proof -
  note E = handleEnd_ok [OF assms(2), of h]
  have "quiet r (r_closeCurrentVolume E (handleEnd h r))"
    using r_closeCurrentVolume_ok(1) [OF assms(1), of "handleEnd h r"] E assms(2) quiet_trans by auto
  then show "quiet r r'"
    using assms armHeaderDecryption_ok [OF assms(2,3)] handleArchive_ok
    by (auto simp: handleNonFileBlock_def split: if_splits)
  show "f_vol (r_feed r') = Some j" if "e \<noteq> None \<or> bl_Type h \<noteq> headerTypeEnd"
    using assms that armHeaderDecryption_ok [OF assms(2,3)] handleArchive_ok [OF assms(2)]
    by (fastforce simp: handleNonFileBlock_def split: if_splits)
qed

end
