(* ===== verification/Draining.thy ===== *)
theory Draining
  imports Crypto
begin

section \<open>Sources that run dry\<close>

text \<open>
  A weaker interface than a source with a content: every read returns, never more than was
  asked for, and \<open>left\<close> bounds what can still come. A read that gives nothing and reports
  nothing uses up something. It is all that termination of the loops above a source needs, and
  it passes from a source to \<^verbatim>\<open>io.ReadFull\<close> and to decryption over it.
\<close>

locale draining_source =
  fixes rd :: "'s reading"
    and left :: "'s \<Rightarrow> nat"
    and ok :: "'s \<Rightarrow> bool"
  assumes rd_drains: "ok s \<Longrightarrow> returns (rd s n) (\<lambda>(bs, e, s'). ok s' \<and> left s' + length bs \<le> left s
      \<and> length bs \<le> n \<and> (e = None \<longrightarrow> 0 < n \<longrightarrow> bs \<noteq> [] \<or> left s' < left s))"
begin

lemma rd_drains_cases:
  assumes "ok s"
  obtains bs e s' where "rd s n = Some (bs, e, s')" "ok s'" "left s' + length bs \<le> left s" "length bs \<le> n"
    "e = None \<longrightarrow> 0 < n \<longrightarrow> bs \<noteq> [] \<or> left s' < left s"
  using rd_drains [OF assms, of n] by (auto simp: returns_def)

lemma full_loop_drains:
  assumes "ok s" and "length got \<le> n"
  shows "\<exists>bs e s'. full_loop rd n s got = Some (bs, e, s') \<and> ok s' \<and> length bs \<le> n \<and> left s' + length bs \<le> left s + length got
     \<and> (e = None \<longrightarrow> length bs = n)"
  using assms
proof (induction "n - length got + left s" arbitrary: s got rule: less_induct)
  case less
  show ?case
  proof (cases "length got < n")
    case False
    then show ?thesis using less.prems by (subst full_loop.simps) simp
  next
    case True
    obtain bs e s' where r: "rd s (n - length got) = Some (bs, e, s')" "ok s'" "left s' + length bs \<le> left s"
      "length bs \<le> n - length got" "e = None \<longrightarrow> 0 < n - length got \<longrightarrow> bs \<noteq> [] \<or> left s' < left s"
      by (rule rd_drains_cases [OF less.prems(1)])
    show ?thesis
    proof (cases e)
      case None
      have "n - length (got @ bs) + left s' < n - length got + left s"
        using r(3,4,5) True None by (cases bs) auto
      moreover have "length (got @ bs) \<le> n" using r(4) True by simp
      ultimately obtain cs e' s'' where "full_loop rd n s' (got @ bs) = Some (cs, e', s'')" "ok s''" "length cs \<le> n"
        "left s'' + length cs \<le> left s' + length (got @ bs)" "e' = None \<longrightarrow> length cs = n"
        using less.hyps [of "got @ bs" s'] r(2) by blast
      then show ?thesis using r(1,3) True None by (subst full_loop.simps) auto
    next
      case (Some x)
      then show ?thesis using r True by (subst full_loop.simps) auto
    qed
  qed
qed

end

lemma draining_full: "draining_source rd left ok \<Longrightarrow> full_source (io_ReadFull rd) left ok"
proof (rule full_source.intro)
  fix s n assume d: "draining_source rd left ok" and "ok s"
  from draining_source.full_loop_drains [OF this, of "[]" n]
  show "\<exists>bs e s'. io_ReadFull rd s n = Some (bs, e, s') \<and> ok s' \<and> (e = None \<longrightarrow> length bs = n \<and> left s' + n \<le> left s)"
    unfolding io_ReadFull_def by auto
qed

sublocale draining_source \<subseteq> filled: full_source "io_ReadFull rd" left ok
  by (rule draining_full) (rule draining_source_axioms)

subsection \<open>Decryption over one\<close>

lemma cbc_decrypt_length_le: "cbc_block_ok D \<Longrightarrow> length (cbc_decrypt D prev ct) \<le> length ct"
proof (induction D prev ct rule: cbc_decrypt.induct)
  case (1 D prev ct)
  show ?case
  proof (cases "length ct < 16")
    case True
    then show ?thesis by (subst cbc_decrypt.simps) simp
  next
    case False
    then have "length (D (take 16 ct)) = 16" using 1(2) by (simp add: cbc_block_ok_def)
    then show ?thesis using 1(1) [OF False 1(2)] False by (subst cbc_decrypt.simps) (simp add: xor_bytes_def)
  qed
qed

text \<open>Between two reads less than a block of ciphertext is held.\<close>

definition cbc_idle :: "('s \<Rightarrow> bool) \<Rightarrow> 's cbcDecryptReader \<Rightarrow> bool" where
  "cbc_idle ok c \<longleftrightarrow> ok (cb_r c) \<and> cbc_block_ok (cb_dec c) \<and> length (cb_inBuf c) < 16"

definition cbc_left :: "('s \<Rightarrow> nat) \<Rightarrow> 's cbcDecryptReader \<Rightarrow> nat" where
  "cbc_left left c = left (cb_r c) + length (cb_inBuf c) + length (cb_outBuf c)"

context draining_source
begin

lemma cbc_fill_drains:
  assumes "ok (cb_r c)" and "length (cb_inBuf c) < 4096" and "cbc_block_ok (cb_dec c)"
  shows "\<exists>e c'. cbc_fill rd c = Some (e, c') \<and> ok (cb_r c') \<and> cbc_left left c' \<le> cbc_left left c
     \<and> cb_dec c' = cb_dec c \<and> cb_outBuf c' = cb_outBuf c
     \<and> (case e of None \<Rightarrow> 16 \<le> length (cb_inBuf c') \<or> cb_err c' \<noteq> None | Some x \<Rightarrow> cb_inBuf c' = [])"
  using assms
proof (induction "left (cb_r c) + (4096 - length (cb_inBuf c))" arbitrary: c rule: less_induct)
  case less
  show ?case
  proof (cases "length (cb_inBuf c) < 16 \<and> cb_err c = None")
    case False
    then show ?thesis using less.prems by (subst cbc_fill.simps) auto
  next
    case True
    obtain bs e s' where r: "rd (cb_r c) (4096 - length (cb_inBuf c)) = Some (bs, e, s')" "ok s'"
      "left s' + length bs \<le> left (cb_r c)" "length bs \<le> 4096 - length (cb_inBuf c)"
      "e = None \<longrightarrow> 0 < 4096 - length (cb_inBuf c) \<longrightarrow> bs \<noteq> [] \<or> left s' < left (cb_r c)"
      by (rule rd_drains_cases [OF less.prems(1)])
    define c1 where "c1 = c\<lparr>cb_r := s', cb_inBuf := cb_inBuf c @ bs\<rparr>"
    have c1: "ok (cb_r c1)" "cbc_left left c1 \<le> cbc_left left c" "cb_dec c1 = cb_dec c" "cb_outBuf c1 = cb_outBuf c"
      "left (cb_r c1) \<le> left (cb_r c)" "cb_err c1 = None"
      using r True by (simp_all add: c1_def cbc_left_def)
    show ?thesis
    proof (cases e)
      case (Some x)
      then show ?thesis using r c1 True by (subst cbc_fill.simps) (auto simp: c1_def Let_def cbc_left_def)
    next
      case None
      have fill: "cbc_fill rd c = cbc_fill rd c1" using r(1) None True by (subst cbc_fill.simps) (simp add: c1_def)
      show ?thesis
      proof (cases "length (cb_inBuf c1) < 16")
        case False
        then show ?thesis unfolding fill using c1 by (subst cbc_fill.simps) auto
      next
        case short: True
        have "left (cb_r c1) + (4096 - length (cb_inBuf c1)) < left (cb_r c) + (4096 - length (cb_inBuf c))"
        proof (cases bs)
          case Nil
          then have "left s' < left (cb_r c)" using r(5) None True by simp
          then show ?thesis using Nil by (simp add: c1_def)
        next
          case (Cons b bs')
          then show ?thesis using r(3) short by (simp add: c1_def)
        qed
        then have "\<exists>e c'. cbc_fill rd c1 = Some (e, c') \<and> ok (cb_r c') \<and> cbc_left left c' \<le> cbc_left left c1
           \<and> cb_dec c' = cb_dec c1 \<and> cb_outBuf c' = cb_outBuf c1
           \<and> (case e of None \<Rightarrow> 16 \<le> length (cb_inBuf c') \<or> cb_err c' \<noteq> None | Some x \<Rightarrow> cb_inBuf c' = [])"
          by (rule less.hyps) (use c1 short less.prems in auto)
        then show ?thesis unfolding fill using c1 by (metis le_trans)
      qed
    qed
  qed
qed

lemma cbc_Read_drains:
  assumes "cbc_idle ok c"
  shows "returns (cbc_Read rd c n) (\<lambda>(bs, e, c'). cbc_idle ok c' \<and> cbc_left left c' + length bs \<le> cbc_left left c
      \<and> length bs \<le> n \<and> (e = None \<longrightarrow> 0 < n \<longrightarrow> bs \<noteq> [] \<or> cbc_left left c' < cbc_left left c))"
proof -
  consider (out) "cb_outBuf c \<noteq> []" | (err) "cb_outBuf c = []" "cb_err c \<noteq> None \<and> cb_inBuf c = []"
    | (fill) "cb_outBuf c = []" "\<not> (cb_err c \<noteq> None \<and> cb_inBuf c = [])" by blast
  then show ?thesis
  proof cases
    case out
    then show ?thesis using assms by (auto simp: cbc_Read_def cbc_serve_def cbc_idle_def cbc_left_def)
  next
    case err
    then show ?thesis using assms by (auto simp: cbc_Read_def)
  next
    case fill
    obtain e c1 where f: "cbc_fill rd c = Some (e, c1)" and 1: "ok (cb_r c1)" "cbc_left left c1 \<le> cbc_left left c"
      "cb_dec c1 = cb_dec c" "cb_outBuf c1 = []"
      and r: "case e of None \<Rightarrow> 16 \<le> length (cb_inBuf c1) \<or> cb_err c1 \<noteq> None | Some x \<Rightarrow> cb_inBuf c1 = []"
      using cbc_fill_drains [of c] assms fill(1) by (auto simp: cbc_idle_def)
    have blk: "cbc_block_ok (cb_dec c1)" using assms 1(3) by (simp add: cbc_idle_def)
    show ?thesis
    proof (cases e)
      case (Some x)
      then show ?thesis using fill f 1 r blk by (auto simp: cbc_Read_def cbc_idle_def)
    next
      case None
      show ?thesis
      proof (cases "length (cb_inBuf c1) < 16")
        case True
        then show ?thesis
          using fill f 1 r blk None by (auto simp: cbc_Read_def cbc_idle_def Let_def cbc_left_def)
      next
        case False
        define k where "k = length (cb_inBuf c1) div 16 * 16"
        have k: "16 \<le> k" "k \<le> length (cb_inBuf c1)" "length (cb_inBuf c1) - k < 16"
          using False by (simp_all add: k_def minus_div_mult_eq_mod)
        define o1 where "o1 = cbc_decrypt (cb_dec c1) (cb_prev c1) (take k (cb_inBuf c1))"
        have o1: "length o1 \<le> k" using cbc_decrypt_length_le [OF blk, of "cb_prev c1" "take k (cb_inBuf c1)"] k by (simp add: o1_def)
        have read: "cbc_Read rd c n = Some (take n o1, None, c1\<lparr>cb_outBuf := drop n o1,
            cb_prev := cbc_last (cb_prev c1) (take k (cb_inBuf c1)), cb_inBuf := drop k (cb_inBuf c1)\<rparr>)"
          using fill f None False by (auto simp: cbc_Read_def cbc_serve_def Let_def k_def [symmetric] o1_def)
        show ?thesis
          unfolding read using 1 k o1 blk by (cases o1) (auto simp: cbc_idle_def cbc_left_def)
      qed
    qed
  qed
qed

lemma cbc_draining: "draining_source (cbc_Read rd) (cbc_left left) (cbc_idle ok)"
  by (rule draining_source.intro) (rule cbc_Read_drains)

end

end
