(* ===== verification/Splice.thy ===== *)
theory Splice
  imports Reader Draining
begin

section \<open>A member across volumes, and reading it (splice.go, reader.go, entry.go)\<close>

text \<open>
  The splice presents the payload of one member as one stream, moving from volume to volume;
  above it the chain of the member; above that the entry's \<^verbatim>\<open>Read\<close> and \<^verbatim>\<open>Close\<close>. A reader
  of these is paired with the Reader it acts on.
\<close>

subsection \<open>The code\<close>

definition heap_upd :: "nat \<Rightarrow> (chain entry \<Rightarrow> chain entry) \<Rightarrow> reader \<Rightarrow> reader" where
  "heap_upd i g r = r\<lparr>r_heap := (r_heap r)[i := g (r_heap r ! i)]\<rparr>"

text \<open>What a file block is to a member that wants its next part.\<close>

datatype continuation = NewMember | BadPart err | Part FileHeader

definition continuation_of :: "localDate \<Rightarrow> FileHeader \<Rightarrow> blockHeader \<Rightarrow> continuation" where
  "continuation_of date first h =
     (case parseFileHeader date h of
        (Some fh, Some e) \<Rightarrow> if fh_FirstBlock fh then NewMember else BadPart e
      | (None, Some e) \<Rightarrow> BadPart e
      | (p, None) \<Rightarrow>
          let fh = the p
          in if fh_FirstBlock fh then NewMember
             else if fh_Encrypted fh \<noteq> fh_Encrypted first then BadPart (Wrap [ErrCorruptFileHeader])
             else if fh_Name fh \<noteq> fh_Name first \<or> fh_Method fh \<noteq> fh_Method first
               \<or> fh_UnpackVersion fh \<noteq> fh_UnpackVersion first then BadPart (Wrap [ErrCorruptFileHeader])
             else if fh_Solid fh \<noteq> fh_Solid first then BadPart (Wrap [ErrCorruptFileHeader])
             else if fh_DictSize fh \<noteq> fh_DictSize first then BadPart (Wrap [ErrCorruptFileHeader])
             else if fh_UnpackedSize fh \<noteq> fh_UnpackedSize first then BadPart (Wrap [ErrCorruptFileHeader])
             else Part fh)"

text \<open>The loop of \<^verbatim>\<open>nextVolumePayload\<close>, for entry \<open>i\<close>; the payload is that of the volume returned.\<close>

partial_function (option) nextPayload_loop :: "env \<Rightarrow> nat \<Rightarrow> reader \<Rightarrow> ((err + nat) \<times> reader) option" where
  "nextPayload_loop E i r =
     Option.bind (r_nextHeader E r) (\<lambda>(x, r). case x of
        Inl err \<Rightarrow>
          if err_is err EOF \<or> err_is err ErrUnexpectedEOF
          then Option.bind
                 (r_openNextVolume E (r_closeCurrentVolume E
                    (if err_is err EOF then r else r\<lparr>r_feed := (r_feed r)\<lparr>f_damaged := Some err\<rparr>\<rparr>)))
                 (\<lambda>(e, r). case e of
                    Some verr \<Rightarrow> Some (Inl verr, latchArchive E verr r)
                  | None \<Rightarrow> nextPayload_loop E i r)
          else Some (Inl err, latchArchive E err r)
      | Inr h \<Rightarrow>
          if bl_Type h \<noteq> headerTypeFile
          then (case handleNonFileBlock E h r of
                  (Some err, r) \<Rightarrow> Some (Inl err, latchArchive E err r)
                | (None, r) \<Rightarrow>
                    if f_vol (r_feed r) = None
                    then Option.bind (r_openNextVolume E r) (\<lambda>(e, r). case e of
                           Some verr \<Rightarrow> Some (Inl verr, latchArchive E verr r)
                         | None \<Rightarrow> nextPayload_loop E i r)
                    else nextPayload_loop E i r)
          else (case continuation_of (en_date E) (e_Header (r_heap r ! i)) h of
                  NewMember \<Rightarrow> Some (Inl EOF, r\<lparr>r_staged := Some h\<rparr>)
                | BadPart err \<Rightarrow> Some (Inl err, r)
                | Part fh \<Rightarrow> Some (Inr (the (f_vol (r_feed r))), heap_upd i (e_advanceVolume fh) r)))"

definition nextVolumePayload :: "env \<Rightarrow> nat \<Rightarrow> reader \<Rightarrow> ((err + nat) \<times> reader) option" where
  "nextVolumePayload E i r =
     Option.bind (r_openNextVolume E r) (\<lambda>(e, r). case e of
        Some err \<Rightarrow> Some (Inl err, latchArchive E err r)
      | None \<Rightarrow> nextPayload_loop E i r)"

text \<open>The open volume was cut inside the payload of the block it stands at.\<close>

definition r_bodyShort :: "reader \<Rightarrow> bool" where
  "r_bodyShort r = (case f_vol (r_feed r) of None \<Rightarrow> False | Some j \<Rightarrow> vol_bodyShort (f_vols (r_feed r) ! j))"

partial_function (option) splice_loop ::
  "env \<Rightarrow> splicer \<Rightarrow> reader \<Rightarrow> nat \<Rightarrow> (byte list \<times> err option \<times> splicer \<times> reader) option" where
  "splice_loop E s r n =
     Option.bind (f_payload (en_close E) (ss_src s) (r_feed r) n) (\<lambda>(bs, e, f).
       let r = r\<lparr>r_feed := f\<rparr>
       in if bs \<noteq> []
          then Some (bs, (case e of None \<Rightarrow> None | Some x \<Rightarrow> if err_is x EOF then None else e), s, r)
          else case e of
                 None \<Rightarrow> Some ([], None, s, r)
               | Some x \<Rightarrow>
                   if \<not> err_is x EOF then Some ([], e, s, r)
                   else if e_lastBlock (r_heap r ! ss_e s) then Some ([], Some EOF, s, r)
                   else if r_bodyShort r then Some ([], Some (Wrap [ErrUnexpectedEOF]), s, r)
                   else Option.bind (nextVolumePayload E (ss_e s) r) (\<lambda>(y, r). case y of
                          Inl err \<Rightarrow> Some ([], Some err, s, r)
                        | Inr j \<Rightarrow> splice_loop E (s\<lparr>ss_src := j\<rparr>) r n))"

definition splice_Read :: "env \<Rightarrow> (splicer \<times> reader) reading" where
  "splice_Read E sr n = (case sr of (s, r) \<Rightarrow> if n = 0 then Some ([], None, s, r) else splice_loop E s r n)"

text \<open>The same state with another source in it.\<close>

definition cbc_with :: "'t \<Rightarrow> 's cbcDecryptReader \<Rightarrow> 't cbcDecryptReader" where
  "cbc_with t c = \<lparr>cb_r = t, cb_dec = cb_dec c, cb_prev = cb_prev c, cb_inBuf = cb_inBuf c,
                   cb_outBuf = cb_outBuf c, cb_err = cb_err c\<rparr>"

definition dec_with :: "'t \<Rightarrow> 's decoder50 \<Rightarrow> 't decoder50" where
  "dec_with t d =
     \<lparr>d_r = t, d_br = d_br d, d_codeLength = d_codeLength d, d_lastBlock = d_lastBlock d, d_dictSize = d_dictSize d,
      d_tables = d_tables d, d_bitlen = d_bitlen d, d_offset = d_offset d, d_length = d_length d, d_fl = d_fl d,
      d_outbuf = d_outbuf d, d_tot = d_tot d, d_decoded = d_decoded d\<rparr>"

definition packed_Read :: "env \<Rightarrow> (packed \<times> reader) reading" where
  "packed_Read E pr n =
     (case pr of (p, r) \<Rightarrow> case p of
        NoSource \<Rightarrow> None
      | Spliced s \<Rightarrow> Option.bind (splice_Read E (s, r) n) (\<lambda>(bs, e, s, r). Some (bs, e, Spliced s, r))
      | Decrypted c \<Rightarrow>
          Option.bind (cbc_Read (splice_Read E) (cbc_with (cb_r c, r) c) n)
            (\<lambda>(bs, e, c). Some (bs, e, Decrypted (cbc_with (fst (cb_r c)) c), snd (cb_r c))))"

definition chain_Read :: "env \<Rightarrow> (chain \<times> reader) reading" where
  "chain_Read E cr n =
     (case cr of (c, r) \<Rightarrow> case c of
        Stored p \<Rightarrow> Option.bind (packed_Read E (p, r) n) (\<lambda>(bs, e, p, r). Some (bs, e, Stored p, r))
      | Coded \<Rightarrow>
          Option.bind (dec_Read (io_ReadFull (packed_Read E)) (en_arm E) (en_e8 E)
                         (dec_with (d_r (r_dec50 r), r) (r_dec50 r)) (r_win r) n)
            (\<lambda>(bs, e, d, w). Some (bs, e, Coded, (snd (d_r d))\<lparr>r_dec50 := dec_with (fst (d_r d)) d, r_win := w\<rparr>)))"

subsection \<open>Entry.Read and Entry.Close\<close>

text \<open>\<^verbatim>\<open>chanClosed(e.cancelled)\<close>.\<close>

definition e_isClosed :: "env \<Rightarrow> nat \<Rightarrow> reader \<Rightarrow> bool \<times> reader" where
  "e_isClosed E i r =
     (let f = pt (en_close E) (r_feed r)
      in (case e_cancelled (r_heap r ! i) of None \<Rightarrow> False | Some g \<Rightarrow> chanClosed g f, r\<lparr>r_feed := f\<rparr>))"

text \<open>The chain in a source, and the source with another chain in it.\<close>

definition src_chain :: "chain source \<Rightarrow> chain" where
  "src_chain s = (case s of Plain c \<Rightarrow> c | Hashed c h \<Rightarrow> c)"

definition Entry_Read :: "env \<Rightarrow> nat \<Rightarrow> reader reading" where
  "Entry_Read E i r n =
     (case e_isClosed E i r of (closed, r) \<Rightarrow>
        case e_gate closed n (r_heap r ! i) of
          Answer err e \<Rightarrow> Some ([], err, heap_upd i (\<lambda>_. e) r)
        | Ask k \<Rightarrow>
            Option.bind (chain_Read E (src_chain (the (e_src (r_heap r ! i))), r) k) (\<lambda>(bs, err, c, r).
              let r = heap_upd i (\<lambda>e. e\<lparr>e_src := map_option (\<lambda>s. hash_source (en_sp E) bs (map_source (\<lambda>_. c) s)) (e_src e)\<rparr>) r
              in case e_isClosed E i r of (closed, r) \<Rightarrow>
                   case e_account closed bs err (r_heap r ! i) of (err, e) \<Rightarrow> Some (bs, err, heap_upd i (\<lambda>_. e) r)))"

definition Entry_Close :: "env \<Rightarrow> nat \<Rightarrow> reader \<Rightarrow> (err option \<times> reader) option" where
  "Entry_Close E i r =
     (let e = r_heap r ! i
      in Option.bind (if e_done e = None \<and> e_src e \<noteq> None
                      then Option.bind (read_to_end (Entry_Read E i) 8192 r []) (\<lambda>(_, _, r). Some r) else Some r)
           (\<lambda>r. case e_Close_end False (r_heap r ! i) of (err, e) \<Rightarrow> Some (err, heap_upd i (\<lambda>_. e) r)))"

subsection \<open>Every call returns\<close>

lemma heap_upd_quiet:
  "feed_idle (r_feed r) \<Longrightarrow> r_entry r = Some i \<Longrightarrow> still (g (r_heap r ! i)) = still (r_heap r ! i) \<Longrightarrow> quiet r (heap_upd i g r)"
  by (cases "i < length (r_heap r)") (simp_all add: heap_upd_def quiet_def map_update list_update_same_conv list_update_beyond not_less)

definition at_volume :: "reader \<Rightarrow> bool" where
  "at_volume r \<longleftrightarrow> feed_idle (r_feed r) \<and> f_vol (r_feed r) \<noteq> None"

text \<open>The result of a search for the next part: a smaller rest, standing in the part's volume.\<close>

definition next_part :: "reader \<Rightarrow> err + nat \<Rightarrow> reader \<Rightarrow> bool" where
  "next_part r x r' \<longleftrightarrow> quiet r r' \<and> (\<forall>j. x = Inr j \<longrightarrow> f_vol (r_feed r') = Some j \<and> f_left (r_feed r') < f_left (r_feed r))"

lemma next_part_trans: "quiet r s \<Longrightarrow> next_part s x r' \<Longrightarrow> next_part r x r'"
  using quiet_trans quiet_left [of r s] by (auto simp: next_part_def)

lemma opened_then:
  assumes cl: "close_ok (en_close E)" and s: "quiet r s"
    and rec: "\<And>t. quiet s t \<Longrightarrow> r_entry t = r_entry r \<Longrightarrow> at_volume t \<Longrightarrow> f_left (r_feed t) < f_left (r_feed s) \<Longrightarrow> returns (k t) (\<lambda>(x, r'). next_part t x r')"
  shows "returns (Option.bind (r_openNextVolume E s) (\<lambda>(e, t). case e of
      Some verr \<Rightarrow> Some (Inl verr, latchArchive E verr t) | None \<Rightarrow> k t)) (\<lambda>(x, r'). next_part r x r')"
proof (rule returns_seq [OF r_openNextVolume_ok [OF cl quiet_idle [OF s]]], clarify)
  fix e t assume t: "quiet s t" "next_post (r_feed s) e (r_feed t)"
  show "returns (case e of Some verr \<Rightarrow> Some (Inl verr, latchArchive E verr t) | None \<Rightarrow> k t) (\<lambda>(x, r'). next_part r x r')"
  proof (cases e)
    case None
    then have a: "at_volume t" "f_left (r_feed t) < f_left (r_feed s)" using t by (auto simp: next_post_def at_volume_def quiet_idle)
    show ?thesis
      using None returns_mono [OF rec [OF t(1) _ a], of "\<lambda>(x, r'). next_part r x r'"]
        next_part_trans [OF quiet_trans [OF s t(1)]] quiet_trans [OF s t(1)] by (auto simp: quiet_def)
  next
    case (Some x)
    then show ?thesis
      using latchArchive_ok(1) [OF cl quiet_idle [OF t(1)], of x] quiet_trans [OF s t(1)] quiet_trans
      by (auto simp: next_part_def)
  qed
qed

lemma nextPayload_loop_ok:
  assumes cl: "close_ok (en_close E)" and "at_volume r" and "r_entry r = Some i"
  shows "returns (nextPayload_loop E i r) (\<lambda>(x, r'). quiet r r' \<and> (\<forall>j. x = Inr j \<longrightarrow> f_vol (r_feed r') = Some j))"
proof -
  have "returns (nextPayload_loop E i r) (\<lambda>(x, r'). next_part r x r')"
    using assms(2,3)
  proof (induction "f_left (r_feed r)" arbitrary: r rule: less_induct)
    case less
    obtain j where idle: "feed_idle (r_feed r)" and j: "f_vol (r_feed r) = Some j" using less.prems(1) by (auto simp: at_volume_def)
    have rec: "returns (nextPayload_loop E i t) (\<lambda>(x, r'). next_part t x r')"
      if "quiet r s" "at_volume t" "f_left (r_feed t) < f_left (r_feed s)" "r_entry t = Some i" for s t
      using less.hyps [OF _ that(2)] that(3,4) quiet_left [OF that(1)] by simp
    show ?case
    proof (subst nextPayload_loop.simps, rule returns_seq [OF r_nextHeader_ok [OF cl idle j]], clarify)
      fix x :: "err + blockHeader" and s :: reader
      assume s: "quiet r s" "f_vol (r_feed s) = Some j"
        and x: "case x of Inl e \<Rightarrow> v_err (f_vols (r_feed s) ! j) = Some e | Inr h \<Rightarrow> f_left (r_feed s) < f_left (r_feed r)"
      note si = quiet_idle [OF s(1)]
      show "returns (case x of
          Inl err \<Rightarrow>
            if err_is err EOF \<or> err_is err ErrUnexpectedEOF
            then Option.bind
                   (r_openNextVolume E (r_closeCurrentVolume E
                      (if err_is err EOF then s else s\<lparr>r_feed := (r_feed s)\<lparr>f_damaged := Some err\<rparr>\<rparr>)))
                   (\<lambda>(e, r). case e of
                      Some verr \<Rightarrow> Some (Inl verr, latchArchive E verr r)
                    | None \<Rightarrow> nextPayload_loop E i r)
            else Some (Inl err, latchArchive E err s)
        | Inr h \<Rightarrow>
            if bl_Type h \<noteq> headerTypeFile
            then (case handleNonFileBlock E h s of
                    (Some err, r) \<Rightarrow> Some (Inl err, latchArchive E err r)
                  | (None, r) \<Rightarrow>
                      if f_vol (r_feed r) = None
                      then Option.bind (r_openNextVolume E r) (\<lambda>(e, r). case e of
                             Some verr \<Rightarrow> Some (Inl verr, latchArchive E verr r)
                           | None \<Rightarrow> nextPayload_loop E i r)
                      else nextPayload_loop E i r)
            else (case continuation_of (en_date E) (e_Header (r_heap s ! i)) h of
                    NewMember \<Rightarrow> Some (Inl EOF, s\<lparr>r_staged := Some h\<rparr>)
                  | BadPart err \<Rightarrow> Some (Inl err, s)
                  | Part fh \<Rightarrow> Some (Inr (the (f_vol (r_feed s))), heap_upd i (e_advanceVolume fh) s)))
        (\<lambda>(x, r'). next_part r x r')"
      proof (cases x)
        case (Inl err)
        have err: "next_part r (Inl err) (latchArchive E err s)"
          using latchArchive_ok(1) [OF cl si, of err] quiet_trans [OF s(1)] by (simp add: next_part_def)
        show ?thesis
        proof (cases "err_is err EOF \<or> err_is err ErrUnexpectedEOF")
          case False
          then show ?thesis using err unfolding Inl sum.case if_not_P [OF False] by simp
        next
          case True
          define s1 where "s1 = (if err_is err EOF then s else s\<lparr>r_feed := (r_feed s)\<lparr>f_damaged := Some err\<rparr>\<rparr>)"
          have s1: "quiet r s1" using s(1) True by (auto simp: s1_def quiet_def)
          note c = r_closeCurrentVolume_ok(1) [OF cl quiet_idle [OF s1]]
          note q2 = quiet_trans [OF s1 c]
          have "returns (Option.bind (r_openNextVolume E (r_closeCurrentVolume E s1)) (\<lambda>(e, r). case e of
              Some verr \<Rightarrow> Some (Inl verr, latchArchive E verr r) | None \<Rightarrow> nextPayload_loop E i r)) (\<lambda>(x, r'). next_part r x r')"
            by (rule opened_then [OF cl q2], rule rec [OF q2]) (simp_all add: less.prems(2))
          then show ?thesis unfolding Inl sum.case s1_def if_P [OF True] .
        qed
      next
        case (Inr h)
        have left: "f_left (r_feed s) < f_left (r_feed r)" using x Inr by simp
        show ?thesis
        proof (cases "bl_Type h = headerTypeFile")
          case True
          have "r_entry s = Some i" using s(1) less.prems(2) by (simp add: quiet_def)
          then have "quiet s (heap_upd i (e_advanceVolume fh) s)" for fh
            by (rule heap_upd_quiet [OF si]) (simp add: still_def e_advanceVolume_def)
          then show ?thesis
            using True Inr s left quiet_trans [OF s(1)]
            by (auto simp: next_part_def heap_upd_def split: continuation.split)
        next
          case False
          obtain e t where t: "handleNonFileBlock E h s = (e, t)" by fastforce
          note qt = quiet_trans [OF s(1) handleNonFileBlock_ok(1) [OF cl si s(2) t]]
          have tl: "f_left (r_feed t) < f_left (r_feed r)"
            using quiet_left [OF handleNonFileBlock_ok(1) [OF cl si s(2) t]] left by simp
          show ?thesis
          proof (cases e)
            case (Some err)
            then show ?thesis
              using Inr False t latchArchive_ok(1) [OF cl quiet_idle [OF qt], of err] quiet_trans [OF qt]
              by (auto simp: next_part_def)
          next
            case None
            show ?thesis
            proof (cases "f_vol (r_feed t) = None")
              case True
              have "returns (Option.bind (r_openNextVolume E t) (\<lambda>(e, r). case e of
                  Some verr \<Rightarrow> Some (Inl verr, latchArchive E verr r) | None \<Rightarrow> nextPayload_loop E i r)) (\<lambda>(x, r'). next_part r x r')"
                by (rule opened_then [OF cl qt], rule rec [OF qt]) (simp_all add: less.prems(2))
              then show ?thesis using Inr False t None True by simp
            next
              case vol: False
              then have "at_volume t" using quiet_idle [OF qt] by (simp add: at_volume_def)
              moreover have "r_entry t = Some i" using qt less.prems(2) by (simp add: quiet_def)
              ultimately have "returns (nextPayload_loop E i t) (\<lambda>(x, r'). next_part t x r')" by (rule less.hyps [OF tl])
              then have "returns (nextPayload_loop E i t) (\<lambda>(x, r'). next_part r x r')"
                by (rule returns_mono) (use next_part_trans [OF qt] in auto)
              then show ?thesis using Inr False t None vol by auto
            qed
          qed
        qed
      qed
    qed
  qed
  then show ?thesis by (rule returns_mono) (auto simp: next_part_def)
qed

lemma nextVolumePayload_ok:
  assumes cl: "close_ok (en_close E)" and "feed_idle (r_feed r)" and i: "r_entry r = Some i"
  shows "returns (nextVolumePayload E i r) (\<lambda>(x, r'). next_part r x r')"
proof -
  have loop: "returns (nextPayload_loop E i t) (\<lambda>(x, r'). next_part r x r')"
    if "quiet r t" "at_volume t" "f_left (r_feed t) < f_left (r_feed r)" for t
    by (rule returns_mono [OF nextPayload_loop_ok [OF cl that(2)]])
      (use that i quiet_trans quiet_left in \<open>fastforce simp: next_part_def quiet_def [of r t]\<close>)+
  have q: "quiet r r" using assms(2) by simp
  show ?thesis
    unfolding nextVolumePayload_def
  proof (rule returns_seq [OF r_openNextVolume_ok [OF assms(1,2)]], clarify)
    fix e t assume t: "quiet r t" "next_post (r_feed r) e (r_feed t)"
    show "returns (case e of Some err \<Rightarrow> Some (Inl err, latchArchive E err t) | None \<Rightarrow> nextPayload_loop E i t)
        (\<lambda>(x, r'). next_part r x r')"
    proof (cases e)
      case None
      then show ?thesis using t loop [OF t(1)] by (auto simp: next_post_def at_volume_def quiet_idle)
    next
      case (Some x)
      then show ?thesis
        using latchArchive_ok(1) [OF cl quiet_idle [OF t(1)], of x] quiet_trans [OF t(1)] by (auto simp: next_part_def)
    qed
  qed
qed

text \<open>The splice drains its Reader's volumes.\<close>

lemma splice_loop_ok:
  assumes cl: "close_ok (en_close E)" and "feed_idle (r_feed r)" and "ss_src s < length (f_vols (r_feed r))"
    and "r_entry r = Some (ss_e s)"
  shows "returns (splice_loop E s r n) (\<lambda>(bs, e, s', r'). quiet r r' \<and> ss_src s' < length (f_vols (r_feed r')) \<and> ss_e s' = ss_e s
     \<and> f_left (r_feed r') + length bs \<le> f_left (r_feed r) \<and> length bs \<le> n \<and> (e = None \<longrightarrow> 0 < n \<longrightarrow> bs \<noteq> []))"
  using assms(2-4)
proof (induction "f_left (r_feed r)" arbitrary: r s rule: less_induct)
  case less
  let ?post = "\<lambda>r s (bs, e :: err option, s', r'). quiet r r' \<and> ss_src s' < length (f_vols (r_feed r')) \<and> ss_e s' = ss_e s
     \<and> f_left (r_feed r') + length bs \<le> f_left (r_feed r) \<and> length bs \<le> n \<and> (e = None \<longrightarrow> 0 < n \<longrightarrow> bs \<noteq> [])"
  show ?case
  proof (subst splice_loop.simps, rule returns_seq [OF f_payload_ok [OF cl less.prems(1,2)]], clarify)
    fix bs :: "byte list" and e :: "err option" and f :: feed
    assume f: "feed_to (r_feed r) f" "f_left f + length bs \<le> f_left (r_feed r)" "length bs \<le> n" "e = None \<longrightarrow> 0 < n \<longrightarrow> bs \<noteq> []"
    define r1 where "r1 = r\<lparr>r_feed := f\<rparr>"
    have q1: "quiet r r1" "r_entry r1 = Some (ss_e s)" using f(1) less.prems(3) by (simp_all add: r1_def quiet_feed)
    have l1: "ss_src s < length (f_vols (r_feed r1))" using quiet_vols [OF q1(1)] less.prems(2) by simp
    have ended: "?post r s ([], Some x, s, r1)" for x using q1 l1 f(2) by (simp add: r1_def)
    have go: "returns (Option.bind (nextVolumePayload E (ss_e s) r1) (\<lambda>(y, r). case y of
        Inl err \<Rightarrow> Some ([], Some err, s, r) | Inr j \<Rightarrow> splice_loop E (s\<lparr>ss_src := j\<rparr>) r n)) (?post r s)"
    proof (rule returns_seq [OF nextVolumePayload_ok [OF cl quiet_idle [OF q1(1)] q1(2)]], clarify)
      fix y t assume p: "next_part r1 y t"
      then have q: "quiet r t" using quiet_trans [OF q1(1)] by (simp add: next_part_def)
      show "returns (case y of Inl err \<Rightarrow> Some ([], Some err, s, t) | Inr j \<Rightarrow> splice_loop E (s\<lparr>ss_src := j\<rparr>) t n) (?post r s)"
      proof (cases y)
        case (Inl err)
        then show ?thesis using q quiet_left [OF q] quiet_vols [OF q] less.prems(2) by simp
      next
        case (Inr j)
        then have t: "f_vol (r_feed t) = Some j" "f_left (r_feed t) < f_left (r_feed r)"
          using p quiet_left [OF q1(1)] by (auto simp: next_part_def)
        have "j < length (f_vols (r_feed t))" using t(1) quiet_idle [OF q] by (simp add: feed_idle_def feed_ok_def)
        then have "returns (splice_loop E (s\<lparr>ss_src := j\<rparr>) t n) (?post t (s\<lparr>ss_src := j\<rparr>))"
          by (intro less.hyps [OF t(2) quiet_idle [OF q]]) (use q less.prems(3) in \<open>simp_all add: quiet_def\<close>)
        then show ?thesis unfolding Inr sum.case
          by (rule returns_mono) (use q t(2) quiet_trans [OF q] in auto)
      qed
    qed
    show "returns (let r = r\<lparr>r_feed := f\<rparr>
       in if bs \<noteq> []
          then Some (bs, (case e of None \<Rightarrow> None | Some x \<Rightarrow> if err_is x EOF then None else e), s, r)
          else case e of
                 None \<Rightarrow> Some ([], None, s, r)
               | Some x \<Rightarrow>
                   if \<not> err_is x EOF then Some ([], e, s, r)
                   else if e_lastBlock (r_heap r ! ss_e s) then Some ([], Some EOF, s, r)
                   else if r_bodyShort r then Some ([], Some (Wrap [ErrUnexpectedEOF]), s, r)
                   else Option.bind (nextVolumePayload E (ss_e s) r) (\<lambda>(y, r). case y of
                          Inl err \<Rightarrow> Some ([], Some err, s, r)
                        | Inr j \<Rightarrow> splice_loop E (s\<lparr>ss_src := j\<rparr>) r n)) (?post r s)"
      using ended go f(2,3,4) q1(1) l1
      unfolding r1_def [symmetric] Let_def
      by (cases "bs = []"; cases e) (auto simp: r1_def)
  qed
qed

text \<open>What a volume gives runs dry, and so does what is decrypted from it.\<close>

interpretation payload_dry: draining_source payload_Read vol_left "\<lambda>_. True"
proof
  fix v :: volume and n
  obtain bs e v' where r: "payload_Read v n = Some (bs, e, v')" using payload_Read_eq by (metis prod_cases3)
  from payload_Read_left [OF r] r
  show "returns (payload_Read v n) (\<lambda>(bs, e, v'). True \<and> vol_left v' + length bs \<le> vol_left v
      \<and> length bs \<le> n \<and> (e = None \<longrightarrow> 0 < n \<longrightarrow> bs \<noteq> [] \<or> vol_left v' < vol_left v))"
    by (simp add: returns_def)
qed

interpretation cbc_payload_dry: draining_source "cbc_Read payload_Read" "cbc_left vol_left" "cbc_idle (\<lambda>_. True)"
  by (rule payload_dry.cbc_draining)

definition splice_ok :: "reader \<Rightarrow> splicer \<times> reader \<Rightarrow> bool" where
  "splice_ok r0 sr \<longleftrightarrow> quiet r0 (snd sr) \<and> ss_src (fst sr) < length (f_vols (r_feed (snd sr)))
     \<and> r_entry (snd sr) = Some (ss_e (fst sr))"

definition splice_left :: "splicer \<times> reader \<Rightarrow> nat" where
  "splice_left sr = f_left (r_feed (snd sr))"

lemma splice_draining:
  assumes "close_ok (en_close E)"
  shows "draining_source (splice_Read E) splice_left (splice_ok r0)"
proof (rule draining_source.intro)
  fix sr n assume ok: "splice_ok r0 sr"
  obtain s r where sr: "sr = (s, r)" by fastforce
  have q: "quiet r0 r" and l: "ss_src s < length (f_vols (r_feed r))" and i: "r_entry r = Some (ss_e s)"
    using ok by (simp_all add: sr splice_ok_def)
  show "returns (splice_Read E sr n) (\<lambda>(bs, e, s'). splice_ok r0 s' \<and> splice_left s' + length bs \<le> splice_left sr
      \<and> length bs \<le> n \<and> (e = None \<longrightarrow> 0 < n \<longrightarrow> bs \<noteq> [] \<or> splice_left s' < splice_left sr))"
  proof (cases "n = 0")
    case True
    then show ?thesis using ok by (simp add: splice_Read_def sr)
  next
    case False
    have "returns (splice_loop E s r n) (\<lambda>(bs, e, s', r'). quiet r r' \<and> ss_src s' < length (f_vols (r_feed r')) \<and> ss_e s' = ss_e s
     \<and> f_left (r_feed r') + length bs \<le> f_left (r_feed r) \<and> length bs \<le> n \<and> (e = None \<longrightarrow> 0 < n \<longrightarrow> bs \<noteq> []))"
      by (rule splice_loop_ok [OF assms quiet_idle [OF q] l i])
    then show ?thesis unfolding splice_Read_def sr prod.case if_not_P [OF False]
      by (rule returns_mono) (use quiet_trans [OF q] i in \<open>auto simp: quiet_def [of r] splice_ok_def splice_left_def\<close>)
  qed
qed

text \<open>What a chain must be for the Reader it is read in, and what it holds itself.\<close>

definition packed_ok :: "reader \<Rightarrow> packed \<Rightarrow> bool" where
  "packed_ok r p =
     (case p of
        NoSource \<Rightarrow> False
      | Spliced s \<Rightarrow> ss_src s < length (f_vols (r_feed r)) \<and> r_entry r = Some (ss_e s)
      | Decrypted c \<Rightarrow> ss_src (cb_r c) < length (f_vols (r_feed r)) \<and> r_entry r = Some (ss_e (cb_r c))
          \<and> cbc_block_ok (cb_dec c) \<and> length (cb_inBuf c) < 16)"

definition packed_left :: "packed \<times> reader \<Rightarrow> nat" where
  "packed_left pr = f_left (r_feed (snd pr))
     + (case fst pr of Decrypted c \<Rightarrow> length (cb_inBuf c) + length (cb_outBuf c) | _ \<Rightarrow> 0)"

lemma packed_ok_mono:
  "packed_ok r p \<Longrightarrow> length (f_vols (r_feed r)) \<le> length (f_vols (r_feed r')) \<Longrightarrow> r_entry r' = r_entry r \<Longrightarrow> packed_ok r' p"
  by (auto simp: packed_ok_def split: packed.split)

definition packed_okr :: "reader \<Rightarrow> packed \<times> reader \<Rightarrow> bool" where
  "packed_okr r0 pr \<longleftrightarrow> quiet r0 (snd pr) \<and> packed_ok (snd pr) (fst pr)"

lemma packed_draining:
  assumes "close_ok (en_close E)"
  shows "draining_source (packed_Read E) packed_left (packed_okr r0)"
proof (rule draining_source.intro)
  fix pr n assume ok: "packed_okr r0 pr"
  obtain p r where pr: "pr = (p, r)" by fastforce
  have q: "quiet r0 r" and p: "packed_ok r p" using ok by (simp_all add: pr packed_okr_def)
  note S = splice_draining [OF assms, of r0]
  show "returns (packed_Read E pr n) (\<lambda>(bs, e, s'). packed_okr r0 s' \<and> packed_left s' + length bs \<le> packed_left pr
      \<and> length bs \<le> n \<and> (e = None \<longrightarrow> 0 < n \<longrightarrow> bs \<noteq> [] \<or> packed_left s' < packed_left pr))"
  proof (cases p)
    case NoSource
    then show ?thesis using p by (simp add: packed_ok_def)
  next
    case (Spliced s)
    then have "splice_ok r0 (s, r)" using p q by (simp add: packed_ok_def splice_ok_def)
    from draining_source.rd_drains [OF S this, of n] show ?thesis
      unfolding pr Spliced packed_Read_def prod.case packed.case
      by (rule returns_seq) (auto simp: packed_ok_def packed_okr_def packed_left_def splice_ok_def splice_left_def)
  next
    case (Decrypted c)
    have "cbc_idle (splice_ok r0) (cbc_with (cb_r c, r) c)"
      using p q Decrypted by (simp add: packed_ok_def cbc_idle_def cbc_with_def splice_ok_def)
    from draining_source.cbc_Read_drains [OF S this, of n] show ?thesis
      unfolding pr Decrypted packed_Read_def prod.case packed.case
      by (rule returns_seq)
        (auto simp: packed_ok_def packed_okr_def packed_left_def cbc_idle_def cbc_left_def cbc_with_def splice_ok_def splice_left_def)
  qed
qed

text \<open>
  What is asked of the world: a closed stream has no new data, the vector kernels do what the
  code they replace does, the block cipher gives blocks, and the memory the system hands out
  or takes the pages of keeps its length.
\<close>

definition env_ok :: "env \<Rightarrow> bool" where
  "env_ok E \<longleftrightarrow> close_ok (en_close E) \<and> hooks_ok (en_arm E) (en_e8 E) \<and> simd_contract (en_sp E)
     \<and> (\<forall>key. cbc_block_ok (en_aes E key)) \<and> (\<forall>n buf. en_reserve E n = Inr buf \<longrightarrow> length buf = n)
     \<and> (\<forall>buf. length (en_decommit E buf) = length buf)"

definition coder_ok :: "reader \<Rightarrow> bool" where
  "coder_ok r \<longleftrightarrow> dec_ok (r_dec50 r) \<and> win_big (r_win r) \<and> (\<exists>out p. win_rel (r_win r) out p)"

definition chain_ok :: "reader \<Rightarrow> chain \<Rightarrow> bool" where
  "chain_ok r c = (case c of Stored p \<Rightarrow> packed_ok r p | Coded \<Rightarrow> packed_ok r (d_r (r_dec50 r)))"

definition chain_left :: "chain \<Rightarrow> reader \<Rightarrow> nat" where
  "chain_left c r = (case c of Stored p \<Rightarrow> packed_left (p, r) | Coded \<Rightarrow> 0)"

text \<open>A step that may also have used the decoder and the window.\<close>

definition reads :: "reader \<Rightarrow> reader \<Rightarrow> bool" where
  "reads r r' \<longleftrightarrow> feed_to (r_feed r) (r_feed r') \<and> r_entry r' = r_entry r \<and> map still (r_heap r') = map still (r_heap r)
     \<and> (\<forall>i. r_entry r \<noteq> Some i \<longrightarrow> r_heap r' ! i = r_heap r ! i) \<and> r_listing r' = r_listing r \<and> keeps r r'"

lemma quiet_reads: "quiet r r' \<Longrightarrow> reads r r'"
  by (simp add: quiet_def reads_def)

lemma reads_trans [trans]: "reads r s \<Longrightarrow> reads s t \<Longrightarrow> reads r t"
  using feed_to_trans keeps_trans by (auto simp: reads_def)

lemma quiet_coder: "quiet r r' \<Longrightarrow> coder_ok r \<Longrightarrow> coder_ok r'"
  by (simp add: quiet_def coder_ok_def)

lemma dec_with_simps [simp]: "d_r (dec_with t d) = t" "dec_ok (dec_with t d) = dec_ok d"
  by (simp_all add: dec_with_def dec_ok_def)

lemma chain_Read_ok:
  assumes E: "env_ok E" and idle: "feed_idle (r_feed r)" and coder: "coder_ok r" and c: "chain_ok r c"
  shows "returns (chain_Read E (c, r) n) (\<lambda>(bs, e, c', r'). reads r r' \<and> coder_ok r' \<and> chain_ok r' c' \<and> length bs \<le> n
     \<and> chain_left c' r' \<le> chain_left c r \<and> (e = None \<longrightarrow> 0 < n \<longrightarrow> bs \<noteq> [] \<or> chain_left c' r' < chain_left c r))"
proof -
  have cl: "close_ok (en_close E)" using E by (simp add: env_ok_def)
  note P = packed_draining [OF cl, of r]
  show ?thesis
  proof (cases c)
    case (Stored p)
    then have "packed_okr r (p, r)" using c idle by (simp add: packed_okr_def chain_ok_def)
    from draining_source.rd_drains [OF P this, of n] show ?thesis
      unfolding Stored chain_Read_def prod.case chain.case
      by (rule returns_seq)
        (use coder quiet_reads quiet_coder in \<open>auto simp: packed_okr_def chain_ok_def chain_left_def\<close>)
  next
    case Coded
    obtain out p where rel: "win_rel (r_win r) out p" and big: "win_big (r_win r)" and ok: "dec_ok (r_dec50 r)"
      using coder by (auto simp: coder_ok_def)
    define d0 where "d0 = dec_with (d_r (r_dec50 r), r) (r_dec50 r)"
    have d0: "dec_ok d0" "packed_okr r (d_r d0)"
      using ok c idle Coded by (simp_all add: d0_def packed_okr_def chain_ok_def)
    have hooks: "hooks_ok (en_arm E) (en_e8 E)" using E by (simp add: env_ok_def)
    from full_source.dec_Read_ok [OF draining_full [OF P] d0(1) rel big hooks d0(2), of n]
    obtain bs e d w where r: "dec_Read (io_ReadFull (packed_Read E)) (en_arm E) (en_e8 E) d0 (r_win r) n = Some (bs, e, d, w)"
      and post: "read_post d0 (r_win r) out p n bs e d w" and src: "packed_okr r (d_r d)" by blast
    define r' where "r' = (snd (d_r d))\<lparr>r_dec50 := dec_with (fst (d_r d)) d, r_win := w\<rparr>"
    have q: "quiet r (snd (d_r d))" and pk: "packed_ok (snd (d_r d)) (fst (d_r d))" using src by (simp_all add: packed_okr_def)
    have "reads r r'" using q by (simp add: r'_def reads_def quiet_def)
    moreover have "coder_ok r'" using post big by (auto simp: r'_def coder_ok_def read_post_def win_big_def)
    moreover have "packed_ok r' (fst (d_r d))" using pk by (rule packed_ok_mono) (simp_all add: r'_def)
    then have "chain_ok r' Coded" by (simp add: chain_ok_def r'_def)
    moreover have "length bs \<le> n" "e = None \<longrightarrow> 0 < n \<longrightarrow> bs \<noteq> []" using post by (auto simp: read_post_def)
    ultimately show ?thesis
      using r by (simp add: Coded chain_Read_def d0_def [symmetric] r'_def [symmetric] chain_left_def)
  qed
qed

subsection \<open>The Reader between two calls\<close>

text \<open>
  Only the member in progress can still reach a volume or the decoder: any other entry has its
  verdict, or no source. And every entry has lived the life of an entry (\<open>entry_run\<close>), with
  \<open>outs\<close> the bytes that were read from it, or was a link or a refusal from the start.
\<close>

definition member_ok :: "reader \<Rightarrow> nat \<Rightarrow> bool" where
  "member_ok r i \<longleftrightarrow> (e_done (r_heap r ! i) = None \<longrightarrow>
     (\<forall>s. e_src (r_heap r ! i) = Some s \<longrightarrow> r_entry r = Some i \<and> chain_ok r (src_chain s)))"

definition lived :: "env \<Rightarrow> chain entry \<Rightarrow> byte list \<Rightarrow> bool" where
  "lived E e out \<longleftrightarrow> entry_run (en_sp E) e out
     \<or> (e_src e = None \<and> out = [] \<and> (fh_LinkType (e_cur e) \<noteq> LinkNone \<or> (\<exists>x. e_done e = Some x \<and> x \<noteq> EOF)))"

definition reader_ok :: "env \<Rightarrow> reader \<Rightarrow> byte list list \<Rightarrow> bool" where
  "reader_ok E r outs \<longleftrightarrow> feed_idle (r_feed r) \<and> coder_ok r \<and> (\<forall>i. r_entry r = Some i \<longrightarrow> i < length (r_heap r))
     \<and> (\<forall>i < length (r_heap r). member_ok r i) \<and> length outs = length (r_heap r)
     \<and> (\<forall>i < length (r_heap r). lived E (r_heap r ! i) (outs ! i))
     \<and> (\<forall>g \<in> set (f_shut (r_feed r)). g \<le> f_done (r_feed r)) \<and> books_ok r
     \<and> cut_le None (f_damaged (r_feed r))"

text \<open>A step on entry \<open>i\<close> that keeps all this, after which \<open>bs\<close> more have been read from it.\<close>

definition entry_step :: "env \<Rightarrow> reader \<Rightarrow> byte list list \<Rightarrow> nat \<Rightarrow> byte list \<Rightarrow> reader \<Rightarrow> bool" where
  "entry_step E r outs i bs r' \<longleftrightarrow> reader_ok E r' (outs[i := outs ! i @ bs]) \<and> feed_to (r_feed r) (r_feed r')
     \<and> r_entry r' = r_entry r \<and> length (r_heap r') = length (r_heap r) \<and> r_listing r' = r_listing r \<and> keeps r r'
     \<and> (\<forall>j. j \<noteq> i \<longrightarrow> r_entry r \<noteq> Some j \<longrightarrow> r_heap r' ! j = r_heap r ! j)"

lemma cut_le_done: "feed_step f f' \<Longrightarrow> cut_le None (f_damaged f) \<Longrightarrow> cut_le None (f_damaged f')"
  using cut_le_trans by (auto simp: feed_step_def)

lemma shut_le_done:
  "feed_step f f' \<Longrightarrow> \<forall>g \<in> set (f_shut f). g \<le> f_done f \<Longrightarrow> \<forall>g \<in> set (f_shut f'). g \<le> f_done f'"
  by (auto simp: feed_step_def shut_le_def)

lemma still_fields: "map still hs' = map still hs \<Longrightarrow> i < length hs \<Longrightarrow> e_done (hs' ! i) = e_done (hs ! i)
    \<and> e_src (hs' ! i) = e_src (hs ! i) \<and> e_Header (hs' ! i) = e_Header (hs ! i) \<and> e_size (hs' ! i) = e_size (hs ! i)
    \<and> e_remaining (hs' ! i) = e_remaining (hs ! i) \<and> e_crc (hs' ! i) = e_crc (hs ! i) \<and> e_cancelled (hs' ! i) = e_cancelled (hs ! i)"
proof -
  assume a: "map still hs' = map still hs" "i < length hs"
  then have "length hs' = length hs" by (metis length_map)
  then have "still (hs' ! i) = still (hs ! i)" using a by (metis nth_map)
  then show ?thesis unfolding still_def by (cases "hs' ! i"; cases "hs ! i") simp
qed

lemma e_isClosed_ok:
  assumes "close_ok (en_close E)" and "feed_idle (r_feed r)" and "e_isClosed E i r = (b, r')"
  shows "quiet r r'" and "r' = r\<lparr>r_feed := r_feed r'\<rparr>"
  using assms(3) pt_to(1) [OF assms(1,2)] by (auto simp: e_isClosed_def Let_def quiet_feed)

text \<open>A quiet step between, and a change of entry \<open>i\<close> that is part of its life.\<close>

lemma chain_ok_feed:
  "feed_to (r_feed r) f \<Longrightarrow> chain_ok (r\<lparr>r_feed := f\<rparr>) c \<longleftrightarrow> chain_ok r c \<or> chain_ok (r\<lparr>r_feed := f\<rparr>) c"
  by (auto simp: chain_ok_def packed_ok_def feed_to_def feed_step_def split: chain.split packed.split)

lemma chain_ok_reads:
  "chain_ok r c \<Longrightarrow> length (f_vols (r_feed r)) \<le> length (f_vols (r_feed r')) \<Longrightarrow> r_entry r' = r_entry r
     \<Longrightarrow> r_dec50 r' = r_dec50 r \<Longrightarrow> chain_ok r' c"
  using packed_ok_mono by (cases c) (auto simp: chain_ok_def)

lemma reader_ok_change:
  assumes ok: "reader_ok E r outs" and i: "i < length (r_heap r)"
    and s: "feed_to (r_feed r) (r_feed s)" "coder_ok s" "r_entry s = r_entry r" "r_listing s = r_listing r"
      "length (r_heap s) = length (r_heap r)" "keeps r s" "\<And>j. j \<noteq> i \<Longrightarrow> r_heap s ! j = r_heap r ! j"
    and src: "\<And>c. e_done (r_heap s ! i) = None \<Longrightarrow> e_src (r_heap s ! i) = Some c \<Longrightarrow> r_entry r = Some i \<and> chain_ok s (src_chain c)"
    and others: "r_dec50 s = r_dec50 r \<or> r_entry r = Some i"
    and life: "lived E (r_heap s ! i) (outs ! i @ bs)"
  shows "entry_step E r outs i bs s"
proof -
  have vols: "length (f_vols (r_feed r)) \<le> length (f_vols (r_feed s))" using s(1) by (simp add: feed_to_def feed_step_def)
  have "member_ok s j" if "j < length (r_heap r)" for j
  proof (cases "j = i")
    case False
    then have "member_ok r j" "r_heap s ! j = r_heap r ! j" using ok s(7) that by (simp_all add: reader_ok_def)
    then show ?thesis using others False s(3) chain_ok_reads [OF _ vols s(3)] by (auto simp: member_ok_def)
  qed (use src s(3) in \<open>simp add: member_ok_def\<close>)
  moreover have "lived E (r_heap s ! j) (outs[i := outs ! i @ bs] ! j)" if "j < length (r_heap r)" for j
    using ok life s(7) that i by (cases "j = i") (simp_all add: reader_ok_def)
  ultimately show ?thesis
    using ok s shut_le_done [of "r_feed r" "r_feed s"] cut_le_done [of "r_feed r" "r_feed s"] by (auto simp: entry_step_def reader_ok_def feed_to_def keeps_def)
qed

lemma e_gate_answer:
  "e_gate closed n e = Answer err e' \<Longrightarrow> e_src e' = e_src e \<and> (e_done e \<noteq> None \<longrightarrow> e' = e) \<and> e_cur e' = e_cur e
     \<and> (e_src e = None \<longrightarrow> e' = e)"
  by (auto simp: e_gate_def e_finish_def Let_def split: option.splits if_splits prod.splits)

lemma e_gate_ask:
  "e_gate closed n e = Ask k \<Longrightarrow> e_done e = None \<and> e_src e \<noteq> None \<and> 0 < k \<and> k \<le> n \<and> int k \<le> e_remaining e"
  by (auto simp: e_gate_def e_finish_def Let_def split: option.splits if_splits prod.splits)

lemma entry_run_lived: "entry_run (en_sp E) e out \<Longrightarrow> lived E e out"
  by (simp add: lived_def)

lemma lived_src: "lived E e out \<Longrightarrow> e_src e \<noteq> None \<Longrightarrow> entry_run (en_sp E) e out"
  by (auto simp: lived_def)

lemma lived_answer: "lived E e out \<Longrightarrow> e_gate closed n e = Answer err e' \<Longrightarrow> lived E e' out"
  using e_gate_answer [of closed n e err e'] entry_run.answer [of "en_sp E" e out closed n err e'] lived_src [of E e out]
  by (cases "e_src e = None") (auto simp: entry_run_lived)

lemma e_finish_remaining: "e_finish closed err e = (d, e') \<Longrightarrow> e_remaining e' = e_remaining e"
  by (auto simp: e_finish_def Let_def split: option.splits)

lemma e_account_remaining:
  "e_account closed bs err e = (x, e') \<Longrightarrow> e_remaining e' = e_remaining e - int (length bs) \<and> (x = None \<longrightarrow> err = None)"
  by (auto simp: e_account_def Let_def dest!: e_finish_remaining split: option.splits if_splits prod.splits)

text \<open>
  A read of the entry returns, and is a step of its life. \<open>e_left\<close> goes down with every read
  that reports nothing.
\<close>

definition e_left :: "reader \<Rightarrow> nat \<Rightarrow> nat" where
  "e_left r i = (case e_src (r_heap r ! i) of None \<Rightarrow> 0 | Some s \<Rightarrow> chain_left (src_chain s) r) + nat (e_remaining (r_heap r ! i))"

lemma src_chain_hash [simp]: "src_chain (hash_source simd bs (map_source (\<lambda>_. c) s)) = c"
  by (cases s) (simp_all add: src_chain_def hash_source_def)

lemma Entry_Read_ok:
  assumes E: "env_ok E" and ok: "reader_ok E r outs" and i: "i < length (r_heap r)"
  shows "returns (Entry_Read E i r n) (\<lambda>(bs, e, r'). entry_step E r outs i bs r' \<and> length bs \<le> n
     \<and> (e = None \<longrightarrow> 0 < n \<longrightarrow> e_left r' i < e_left r i) \<and> (e_src (r_heap r ! i) = None \<longrightarrow> e_src (r_heap r' ! i) = None))"
proof -
  have cl: "close_ok (en_close E)" using E by (simp add: env_ok_def)
  have idle: "feed_idle (r_feed r)" and coder: "coder_ok r" using ok by (simp_all add: reader_ok_def)
  obtain closed r1 where c1: "e_isClosed E i r = (closed, r1)" by fastforce
  note C = e_isClosed_ok [OF cl idle c1]
  have h1: "r_heap r1 = r_heap r" "r_entry r1 = r_entry r" "r_dec50 r1 = r_dec50 r" "r_listing r1 = r_listing r"
    by (subst C(2), simp)+
  have i1: "i < length (r_heap r1)" using i h1 by simp
  have coder1: "coder_ok r1" using quiet_coder [OF C(1) coder] .
  have feed1: "feed_to (r_feed r) (r_feed r1)" using C(1) by (simp add: quiet_def)
  have vols1: "length (f_vols (r_feed r)) \<le> length (f_vols (r_feed r1))" using quiet_vols [OF C(1)] .
  have life: "lived E (r_heap r ! i) (outs ! i)" and mem: "member_ok r i" using ok i by (simp_all add: reader_ok_def)
  show ?thesis
  proof (cases "e_gate closed n (r_heap r ! i)")
    case (Answer err e')
    define r' where "r' = heap_upd i (\<lambda>_. e') r1"
    note A = e_gate_answer [OF Answer]
    have hr: "r_heap r' = (r_heap r)[i := e']" "r_feed r' = r_feed r1" "r_entry r' = r_entry r" "r_dec50 r' = r_dec50 r"
      "r_win r' = r_win r1" "r_listing r' = r_listing r" by (simp_all add: r'_def heap_upd_def h1)
    have kp: "keeps r r'" using C(1) by (simp add: r'_def heap_upd_def quiet_def)
    have "entry_step E r outs i [] r'"
    proof (rule reader_ok_change [OF ok i])
      show "coder_ok r'" using coder1 hr h1 by (simp add: coder_ok_def)
      show "e_done (r_heap r' ! i) = None \<Longrightarrow> e_src (r_heap r' ! i) = Some c \<Longrightarrow> r_entry r = Some i \<and> chain_ok r' (src_chain c)" for c
        using A mem i hr vols1 chain_ok_reads [of r _ r'] by (cases "e_done (r_heap r ! i)") (auto simp: member_ok_def)
      show "lived E (r_heap r' ! i) (outs ! i @ [])" using lived_answer [OF life Answer] i hr by simp
    qed (use hr feed1 i kp in auto)
    moreover have "e_left r' i < e_left r i" if "err = None" "0 < n"
      using Answer that by (auto simp: e_gate_def e_finish_def Let_def split: option.splits if_splits prod.splits)
    ultimately show ?thesis
      using c1 Answer h1 A i hr(1) by (auto simp: Entry_Read_def r'_def [symmetric])
  next
    case (Ask k)
    note G = e_gate_ask [OF Ask]
    then obtain s where s: "e_src (r_heap r ! i) = Some s" by blast
    have entry: "r_entry r = Some i" and ch: "chain_ok r (src_chain s)" using mem G s by (auto simp: member_ok_def)
    have "chain_ok r1 (src_chain s)" using chain_ok_reads [OF ch vols1] h1 by simp
    from chain_Read_ok [OF E quiet_idle [OF C(1)] coder1 this, of k]
    obtain bs err c r2 where rd: "chain_Read E (src_chain s, r1) k = Some (bs, err, c, r2)" and R: "reads r1 r2" "coder_ok r2"
      "chain_ok r2 c" "length bs \<le> k" "chain_left c r2 \<le> chain_left (src_chain s) r1"
      "err = None \<longrightarrow> bs \<noteq> [] \<or> chain_left c r2 < chain_left (src_chain s) r1"
      using G by (auto simp: returns_def)
    define r3 where "r3 = heap_upd i (\<lambda>e. e\<lparr>e_src := map_option (\<lambda>s. hash_source (en_sp E) bs (map_source (\<lambda>_. c) s)) (e_src e)\<rparr>) r2"
    obtain closed2 r4 where c4: "e_isClosed E i r3 = (closed2, r4)" by fastforce
    have len2: "length (r_heap r2) = length (r_heap r)" using R(1) h1 by (metis reads_def length_map)
    have idle2: "feed_idle (r_feed r2)" using R(1) by (simp add: reads_def feed_to_def)
    have f3: "r_feed r3 = r_feed r2" "r_dec50 r3 = r_dec50 r2" "r_win r3 = r_win r2" "r_entry r3 = r_entry r2" "r_listing r3 = r_listing r2"
      by (simp_all add: r3_def heap_upd_def)
    have "feed_idle (r_feed r3)" using idle2 f3 by simp
    note D = e_isClosed_ok [OF cl this c4]
    have f4: "r_heap r4 = r_heap r3" "r_dec50 r4 = r_dec50 r3" "r_win r4 = r_win r3" "r_entry r4 = r_entry r3" "r_listing r4 = r_listing r3"
      by (subst D(2), simp)+
    have st: "e_done (r_heap r2 ! i) = None \<and> e_src (r_heap r2 ! i) = Some s \<and> e_remaining (r_heap r2 ! i) = e_remaining (r_heap r ! i)"
      and st': "r_heap r2 ! i = (r_heap r ! i)\<lparr>e_cur := e_cur (r_heap r2 ! i)\<rparr>"
    proof -
      have m: "map still (r_heap r2) = map still (r_heap r)" using R(1) h1 by (simp add: reads_def)
      note F = still_fields [OF m i]
      show "e_done (r_heap r2 ! i) = None \<and> e_src (r_heap r2 ! i) = Some s \<and> e_remaining (r_heap r2 ! i) = e_remaining (r_heap r ! i)"
        using F G s by simp
      show "r_heap r2 ! i = (r_heap r ! i)\<lparr>e_cur := e_cur (r_heap r2 ! i)\<rparr>" using F by simp
    qed
    define e1 where "e1 = r_heap r3 ! i"
    have e1: "e1 = (r_heap r ! i)\<lparr>e_cur := e_cur (r_heap r2 ! i), e_src := Some (hash_source (en_sp E) bs (map_source (\<lambda>_. c) s))\<rparr>"
      using st i len2 by (subst (asm) st') (simp add: e1_def r3_def heap_upd_def st' [symmetric])
    obtain x e' where acc: "e_account closed2 bs err e1 = (x, e')" by fastforce
    define r' where "r' = heap_upd i (\<lambda>_. e') r4"
    have read: "Entry_Read E i r n = Some (bs, x, r')"
      using c1 Ask h1 s rd c4 acc by (simp add: Entry_Read_def r3_def [symmetric] f4(1) e1_def [symmetric] r'_def Let_def)
    have hr: "r_heap r' = (r_heap r3)[i := e']" "r_feed r' = r_feed r4" "r_entry r' = r_entry r" "r_dec50 r' = r_dec50 r2"
      "r_win r' = r_win r2" "r_listing r' = r_listing r" using R(1) h1 f3 f4 by (simp_all add: r'_def heap_upd_def reads_def)
    have len3: "length (r_heap r3) = length (r_heap r)" using len2 by (simp add: r3_def heap_upd_def)
    have feed: "feed_to (r_feed r) (r_feed r')"
      using feed1 R(1) D(1) f3 hr(2) feed_to_trans by (metis quiet_def reads_def)
    have "keeps r3 r4" using D(1) by (simp add: quiet_def)
    moreover have "keeps r r1" "keeps r1 r2" using C(1) R(1) by (simp_all add: quiet_def reads_def)
    ultimately have "keeps r r4" using keeps_trans [of r r1 r2] keeps_trans [of r r3 r4] by (simp add: r3_def heap_upd_def)
    then have kp: "keeps r r'" by (simp add: r'_def heap_upd_def)
    have src': "e_src e' = Some (hash_source (en_sp E) bs (map_source (\<lambda>_. c) s))" using e_account_src [OF acc] e1 by simp
    have vols: "length (f_vols (r_feed r2)) \<le> length (f_vols (r_feed r'))" using quiet_vols [OF D(1)] f3 hr by simp
    have "entry_step E r outs i bs r'"
    proof (rule reader_ok_change [OF ok i feed])
      show "coder_ok r'" using R(2) hr by (simp add: coder_ok_def)
      show "length (r_heap r') = length (r_heap r)" using hr len3 by simp
      show "r_heap r' ! j = r_heap r ! j" if "j \<noteq> i" for j
        using that R(1) h1 entry hr by (simp add: reads_def r3_def heap_upd_def)
      show "r_entry r = Some i \<and> chain_ok r' (src_chain c')" if "e_src (r_heap r' ! i) = Some c'" for c'
        using that entry src' hr i len3 chain_ok_reads [OF R(3) vols] R(1) h1 by (auto simp: reads_def)
      have "entry_run (en_sp E) (r_heap r ! i) (outs ! i)" using lived_src [OF life] s by simp
      from entry_run.read [OF this Ask R(4) s e1 acc] show "lived E (r_heap r' ! i) (outs ! i @ bs)"
        using hr i len3 entry_run_lived by simp
    qed (use hr entry kp in auto)
    moreover have "e_left r' i < e_left r i" if "x = None"
    proof -
      have a: "err = None" "e_remaining e' = e_remaining e1 - int (length bs)" using e_account_remaining [OF acc] that by simp_all
      have rem: "e_remaining e1 = e_remaining (r_heap r ! i)" using e1 by simp
      have l: "chain_left c r' \<le> chain_left c r2"
        using quiet_left [OF D(1)] f3 hr by (cases c) (auto simp: chain_left_def packed_left_def)
      have l1: "chain_left (src_chain s) r1 \<le> chain_left (src_chain s) r"
        using quiet_left [OF C(1)] by (cases "src_chain s") (auto simp: chain_left_def packed_left_def)
      have "int (length bs) \<le> e_remaining (r_heap r ! i)" using R(4) G by linarith
      then show ?thesis
        using R(5,6) a rem l l1 src' s hr i len3 by (cases bs) (auto simp: e_left_def)
    qed
    ultimately show ?thesis using read R(4) G s by simp
  qed
qed

lemma entry_step_trans:
  assumes "entry_step E r outs i bs s" and "i < length (r_heap r)" and "length outs = length (r_heap r)"
    and "entry_step E s (outs[i := outs ! i @ bs]) i cs t"
  shows "entry_step E r outs i (bs @ cs) t"
  using assms feed_to_trans keeps_trans by (auto simp: entry_step_def)

lemma entry_step_refl: "reader_ok E r outs \<Longrightarrow> i < length (r_heap r) \<Longrightarrow> entry_step E r outs i [] r"
  by (simp add: entry_step_def reader_ok_def)

text \<open>Reading an entry to its end returns; what \<^verbatim>\<open>Close\<close> reads, to drop it, is \<open>drained\<close>.\<close>

definition drained :: "env \<Rightarrow> nat \<Rightarrow> reader \<Rightarrow> byte list" where
  "drained E i r =
     (if e_done (r_heap r ! i) = None \<and> e_src (r_heap r ! i) \<noteq> None
      then (case read_to_end (Entry_Read E i) 8192 r [] of Some (bs, _, _) \<Rightarrow> bs | None \<Rightarrow> []) else [])"

lemma Entry_drain:
  assumes E: "env_ok E" and "reader_ok E r outs" and "i < length (r_heap r)"
  shows "returns (read_to_end (Entry_Read E i) 8192 r got)
    (\<lambda>(out, _, r'). \<exists>bs. out = got @ bs \<and> entry_step E r outs i bs r')"
  using assms(2,3)
proof (induction "e_left r i" arbitrary: r outs got rule: less_induct)
  case less
  show ?case
  proof (subst read_to_end.simps, rule returns_seq [OF Entry_Read_ok [OF E less.prems]], clarify)
    fix bs :: "byte list" and e :: "err option" and s :: reader
    assume s: "entry_step E r outs i bs s" and l: "e = None \<longrightarrow> 0 < (8192 :: nat) \<longrightarrow> e_left s i < e_left r i"
    show "returns (case e of None \<Rightarrow> read_to_end (Entry_Read E i) 8192 s (got @ bs) | Some e \<Rightarrow> Some (got @ bs, e, s))
        (\<lambda>(out, _, r'). \<exists>bs. out = got @ bs \<and> entry_step E r outs i bs r')"
    proof (cases e)
      case None
      have ok: "reader_ok E s (outs[i := outs ! i @ bs])" "i < length (r_heap s)" "e_left s i < e_left r i"
        using s l None less.prems by (auto simp: entry_step_def)
      have len: "length outs = length (r_heap r)" using less.prems by (simp add: reader_ok_def)
      from less.hyps [OF ok(3,1,2), of "got @ bs"] show ?thesis
        unfolding None option.case
        by (rule returns_mono) (use entry_step_trans [OF s less.prems(2) len] in fastforce)
    qed (use s in auto)
  qed
qed

lemma e_Close_end_fields: "e_Close_end closed e = (x, e') \<Longrightarrow> e_src e' = e_src e \<and> e_cur e' = e_cur e
    \<and> e_done e' \<noteq> None \<and> (e_done e \<noteq> None \<longrightarrow> e' = e)"
  by (auto simp: e_Close_end_def e_finish_def Let_def split: option.splits if_splits) metis

lemma lived_Close: "lived E e out \<Longrightarrow> e_Close_end closed e = (x, e') \<Longrightarrow> lived E e' out"
proof -
  assume l: "lived E e out" and c: "e_Close_end closed e = (x, e')"
  note F = e_Close_end_fields [OF c]
  have "entry_run (en_sp E) e' out" if "entry_run (en_sp E) e out" using entry_run.finish [OF that, of closed] c by simp
  then show ?thesis using l F by (auto simp: lived_def)
qed

lemma Entry_Close_ok:
  assumes E: "env_ok E" and ok: "reader_ok E r outs" and i: "i < length (r_heap r)"
  shows "returns (Entry_Close E i r)
    (\<lambda>(x, r'). entry_step E r outs i (drained E i r) r' \<and> e_done (r_heap r' ! i) \<noteq> None)"
proof -
  have len: "length outs = length (r_heap r)" using ok by (simp add: reader_ok_def)
  have read: "returns (if e_done (r_heap r ! i) = None \<and> e_src (r_heap r ! i) \<noteq> None
        then Option.bind (read_to_end (Entry_Read E i) 8192 r []) (\<lambda>(_, _, r). Some r) else Some r)
      (\<lambda>s. entry_step E r outs i (drained E i r) s)"
  proof (cases "e_done (r_heap r ! i) = None \<and> e_src (r_heap r ! i) \<noteq> None")
    case True
    from Entry_drain [OF E ok i, of "[]"] show ?thesis unfolding if_P [OF True] drained_def by (auto simp: returns_def)
  next
    case False
    then show ?thesis unfolding drained_def if_not_P [OF False] using entry_step_refl [OF ok i] by simp
  qed
  show ?thesis
    unfolding Entry_Close_def Let_def
  proof (rule returns_seq [OF read])
    fix s assume s: "entry_step E r outs i (drained E i r) s"
    define bs where "bs = drained E i r"
    note s = s [folded bs_def]
    then have ok': "reader_ok E s (outs[i := outs ! i @ bs])" and i': "i < length (r_heap s)" using i by (auto simp: entry_step_def)
    obtain x e' where c: "e_Close_end False (r_heap s ! i) = (x, e')" by fastforce
    note F = e_Close_end_fields [OF c]
    define t where "t = heap_upd i (\<lambda>_. e') s"
    have ht: "r_heap t = (r_heap s)[i := e']" "r_feed t = r_feed s" "r_entry t = r_entry s" "r_dec50 t = r_dec50 s"
      "r_win t = r_win s" "r_listing t = r_listing s" "keeps s t" by (simp_all add: t_def heap_upd_def)
    have "entry_step E s (outs[i := outs ! i @ bs]) i [] t"
    proof (rule reader_ok_change [OF ok' i'])
      show "feed_to (r_feed s) (r_feed t)" "coder_ok t" using ok' ht by (simp_all add: reader_ok_def coder_ok_def)
      show "lived E (r_heap t ! i) (outs[i := outs ! i @ bs] ! i @ [])"
        using lived_Close [OF _ c, of E "outs[i := outs ! i @ bs] ! i"] ok' i' ht unfolding reader_ok_def by simp
    qed (use ht F i' in auto)
    from entry_step_trans [OF s i len this] have "entry_step E r outs i bs t" by simp
    then show "returns (case e_Close_end False (r_heap s ! i) of (err, e) \<Rightarrow> Some (err, heap_upd i (\<lambda>_. e) s))
        (\<lambda>(x, r'). entry_step E r outs i (drained E i r) r' \<and> e_done (r_heap r' ! i) \<noteq> None)"
      using c F i' ht by (auto simp: t_def [symmetric] bs_def)
  qed
qed

end
