(* ===== verification/Refusals.thy ===== *)
theory Refusals
  imports Reader
begin

section \<open>What an error is not (header.go, crypto.go, reader.go)\<close>

text \<open>
  A clean end of the archive is \<^verbatim>\<open>io.EOF\<close> and success of a member is recorded as
  \<^verbatim>\<open>io.EOF\<close>, so no parser, no check of a password and no refusal may come out as one.
\<close>

subsection \<open>The headers\<close>

named_theorems no_eof

lemma decodeVint_no_eof [no_eof]: "decodeVint b = Inl e \<Longrightarrow> \<not> err_is e EOF"
  using decodeVint_error_only by fastforce

lemma with_vint_Inl_iff:
  "with_vint b f = Inl e \<longleftrightarrow> decodeVint b = Inl e \<or> (\<exists>v n. decodeVint b = Inr (v, n) \<and> f v (drop n b) = Inl e)"
  by (auto simp: with_vint_def err_bind_def split: sum.split)

lemma parseEncryptionRecord_no_eof: "parseEncryptionRecord fh b = (Some e, fh') \<Longrightarrow> \<not> err_is e EOF"
  by (auto simp: parseEncryptionRecord_def Let_def dest: no_eof split: sum.splits if_splits)

lemma parseHashRecord_no_eof: "parseHashRecord fh b = (Some e, fh') \<Longrightarrow> \<not> err_is e EOF"
  by (auto simp: parseHashRecord_def dest: no_eof split: sum.splits if_splits)

lemma parseTimeRecord_no_eof: "parseTimeRecord fh b = (Some e, fh') \<Longrightarrow> \<not> err_is e EOF"
  by (auto simp: parseTimeRecord_def Let_def dest: no_eof split: sum.splits if_splits)

lemma redirectionFields_no_eof: "redirectionFields b = Inl e \<Longrightarrow> \<not> err_is e EOF"
  by (auto simp: redirectionFields_def Let_def dest!: decodeVint_error_only split: sum.splits if_splits)

lemma redirectionTarget_no_eof: "redirectionTarget k b = Inl e \<Longrightarrow> \<not> err_is e EOF"
  by (auto simp: redirectionTarget_def Let_def split: if_splits)

lemma parseRedirectionRecord_no_eof: "parseRedirectionRecord fh b = (Some e, fh') \<Longrightarrow> \<not> err_is e EOF"
  by (auto simp: parseRedirectionRecord_def dest: redirectionFields_no_eof redirectionTarget_no_eof split: sum.splits)

lemma parseRecord_no_eof: "parseRecord fh t b = (Some e, fh') \<Longrightarrow> \<not> err_is e EOF"
  using parseEncryptionRecord_no_eof parseHashRecord_no_eof parseTimeRecord_no_eof parseRedirectionRecord_no_eof
  by (auto simp: parseRecord_def split: if_splits)

lemma extra_records_no_eof:
  "(\<And>x. first = Some x \<Longrightarrow> \<not> err_is x EOF) \<Longrightarrow> fst (extra_records fh es seen first) = Some e \<Longrightarrow> \<not> err_is e EOF"
proof (induction fh es seen first rule: extra_records.induct)
  case (2 fh t dat es seen first)
  obtain x fh' where r: "parseRecord fh t dat = (x, fh')" by fastforce
  consider (skip) "\<not> parsedType t" | (again) "parsedType t" "t \<in> seen" | (new) "parsedType t" "t \<notin> seen" by blast
  then show ?case
  proof cases
    case skip
    then show ?thesis using 2 by simp
  next
    case again
    show ?thesis by (rule "2.IH"(2)) (use again 2(4,5) in \<open>auto split: if_splits\<close>)
  next
    case new
    show ?thesis
      by (rule "2.IH"(3) [OF _ new(2) r [symmetric]])
        (use new 2(4,5) r parseRecord_no_eof in \<open>auto split: if_splits\<close>)
  qed
qed simp

lemma fileFields_no_eof: "fileFields h = Inl e \<Longrightarrow> \<not> err_is e EOF"
  unfolding fileFields_def
  by (elim with_vint_not_EOF) (auto simp: err_bind_def elim!: with_vint_not_EOF split: sum.splits prod.splits if_splits)

lemma fileTail4_no_eof: "fileTail4 flags bs fh = (x, Some e) \<Longrightarrow> \<not> err_is e EOF"
  by (auto simp: fileTail4_def Let_def split: if_splits sum.splits)

lemma parseFileHeader4_no_eof: "parseFileHeader4 date h = (x, Some e) \<Longrightarrow> \<not> err_is e EOF"
  by (auto simp: parseFileHeader4_def Let_def dest: fileTail4_no_eof split: if_splits)

lemma parseFileHeader_no_eof:
  assumes "parseFileHeader date h = (x, Some e)"
  shows "\<not> err_is e EOF"
proof (cases "bl_rar4 h")
  case True
  then show ?thesis using assms parseFileHeader4_no_eof by (simp add: parseFileHeader_def)
next
  case False
  show ?thesis
  proof (cases "fileFields h")
    case (Inl y)
    then show ?thesis using assms False fileFields_no_eof [OF Inl] by (auto simp: parseFileHeader_def split: if_splits)
  next
    case (Inr p)
    obtain flags fh y fh' where p: "p = (flags, fh)" "parseExtraRecords fh (bl_Extra h) = (y, fh')" by (metis surj_pair)
    then have "\<not> err_is z EOF" if "y = Some z" for z
      using extra_records_no_eof [of None fh "bl_Extra h" "{}" z] that by (simp add: parseExtraRecords_def)
    then show ?thesis using assms False Inr p by (auto simp: parseFileHeader_def split: if_splits)
  qed
qed

subsection \<open>Passwords and blocks\<close>

lemma verifyEncCheck_no_eof: "verifyEncCheck v c = Some e \<Longrightarrow> \<not> err_is e EOF"
  by (auto simp: verifyEncCheck_def split: if_splits)

lemma verifyPasswordCheck_no_eof: "verifyPasswordCheck hmac k salt c p = (a, b, Some e) \<Longrightarrow> \<not> err_is e EOF"
  by (auto simp: verifyPasswordCheck_def errKdfCountExceeded_def dest: verifyEncCheck_no_eof split: if_splits option.splits)

lemma password_scan_no_eof:
  "(\<And>p a b e. verify p = (a, b, Some e) \<Longrightarrow> \<not> err_is e EOF) \<Longrightarrow> password_scan verify ps = Inl e \<Longrightarrow> \<not> err_is e EOF"
  by (induction ps) (auto split: prod.splits option.splits if_splits)

lemma resolve_with_no_eof:
  assumes "\<And>p a b e. verify p = (a, b, Some e) \<Longrightarrow> \<not> err_is e EOF" and "resolve_with check verify r = (Inl e, r')"
  shows "\<not> err_is e EOF"
  using assms(2) password_scan_no_eof [of verify "r_passwords r", OF assms(1)]
  by (auto simp: resolve_with_def split: option.splits if_splits sum.splits)

lemma resolvePassword_no_eof: "resolvePassword E fh r = (Inl e, r') \<Longrightarrow> \<not> err_is e EOF"
  unfolding resolvePassword_def
  by (erule resolve_with_no_eof [rotated]) (auto simp: verifyFileHeaderPassword_def dest: verifyPasswordCheck_no_eof)

lemma resolveHeaderPassword_no_eof: "resolveHeaderPassword E ch r = (Inl e, r') \<Longrightarrow> \<not> err_is e EOF"
  unfolding resolveHeaderPassword_def
  by (erule resolve_with_no_eof [rotated]) (auto simp: verifyCryptHeaderPassword_def dest: verifyPasswordCheck_no_eof)

lemma headerKeyFromPassword_no_eof: "headerKeyFromPassword hmac ch p = Inl e \<Longrightarrow> \<not> err_is e EOF"
  by (auto simp: headerKeyFromPassword_def dest: verifyEncCheck_no_eof split: if_splits prod.splits option.splits)

lemma parseCryptHeader_no_eof: "parseCryptHeader h = Inl e \<Longrightarrow> \<not> err_is e EOF"
  by (auto simp: parseCryptHeader_def Let_def with_vint_Inl_iff dest!: decodeVint_error_only split: if_splits)

lemma parseArchiveHeader_no_eof: "parseArchiveHeader h = Inl e \<Longrightarrow> \<not> err_is e EOF"
  by (auto simp: parseArchiveHeader_def parseArchiveHeader4_def Let_def with_vint_Inl_iff dest!: decodeVint_error_only split: if_splits)

lemma armHeaderDecryption_no_eof: "armHeaderDecryption E h r = (Some e, r') \<Longrightarrow> \<not> err_is e EOF"
  by (auto simp: armHeaderDecryption_def Let_def
      dest: parseCryptHeader_no_eof resolveHeaderPassword_no_eof headerKeyFromPassword_no_eof split: sum.splits prod.splits if_splits)

lemma startsMidSet_no_eof: "startsMidSet r = Some e \<Longrightarrow> \<not> err_is e EOF"
  by (auto simp: startsMidSet_def split: if_splits)

lemma handleArchive_no_eof: "handleArchive h r = (Some e, r') \<Longrightarrow> \<not> err_is e EOF"
  by (auto simp: handleArchive_def dest: parseArchiveHeader_no_eof startsMidSet_no_eof split: sum.splits option.splits if_splits)

lemma handleNonFileBlock_no_eof: "handleNonFileBlock E h r = (Some e, r') \<Longrightarrow> \<not> err_is e EOF"
  using handleArchive_no_eof armHeaderDecryption_no_eof by (auto simp: handleNonFileBlock_def split: if_splits)

lemma admitFormat_no_eof: "admitFormat h fh = Some e \<Longrightarrow> \<not> err_is e EOF"
  by (auto simp: admitFormat_def split: if_splits)

lemma sizeWindow_not_EOF: "sizeWindow E fh r = (Some e, r') \<Longrightarrow> e \<noteq> EOF"
  by (auto simp: sizeWindow_def Let_def split: if_splits prod.splits option.splits)

lemma buildChain_no_eof: "buildChain E fh s r = (Inl e, r') \<Longrightarrow> \<not> err_is e EOF"
  by (auto simp: buildChain_def errKdfCountExceeded_def newCBCDecryptReader_def
      dest: resolvePassword_no_eof verifyEncCheck_no_eof split: if_splits sum.splits prod.splits option.splits)

lemma readLinkTarget4_no_eof: "readLinkTarget4 rf fh s = Some (Some e, fh', s') \<Longrightarrow> \<not> err_is e EOF"
  by (auto simp: readLinkTarget4_def bind_eq_Some_conv split: if_splits option.splits)

end
