(* ===== verification/Traversal.thy ===== *)
theory Traversal
  imports Splice Refusals
begin

section \<open>From member to member (reader.go)\<close>

text \<open>
  \<^verbatim>\<open>NextEntry\<close> and what it is made of: the member in progress is ended, blocks are scanned, a
  file block becomes a member or a refusal. A nil \<^verbatim>\<open>r.vol\<close> where the code dereferences it is
  the outcome \<open>Panic\<close>. Then \<^verbatim>\<open>Reset\<close> and \<^verbatim>\<open>Close\<close>, and everything a caller can do with a Reader.
\<close>

subsection \<open>The code\<close>

datatype outcome = Fail err | Nothing | Member nat | Panic

text \<open>\<^verbatim>\<open>errListedOnly\<close> (list.go).\<close>

definition errListedOnly :: err where
  "errListedOnly = Other ''rarengine: member listed, not extracted''"

definition severActive :: "env \<Rightarrow> reader \<Rightarrow> reader" where
  "severActive E r =
     (case r_entry r of
        None \<Rightarrow> r
      | Some i \<Rightarrow> (case e_isClosed E i r of (closed, r) \<Rightarrow> heap_upd i (e_sever closed) (r\<lparr>r_entry := None\<rparr>)))"

definition markIncomplete :: "reader \<Rightarrow> reader" where
  "markIncomplete r = r\<lparr>r_win := win_MarkIncomplete (r_win r)\<rparr>"

text \<open>\<^verbatim>\<open>finishActive\<close> behind the end of the member \<open>i\<close>: what it means to the members that follow.\<close>

definition settle :: "nat \<Rightarrow> reader \<Rightarrow> reader" where
  "settle i r =
     (let e = r_heap r ! i;
          r = (if e_short e
                 \<or> (case e_done e of None \<Rightarrow> False | Some d \<Rightarrow> \<not> err_is d EOF \<and> \<not> err_is d ErrChecksumUnsupported)
               then markIncomplete r else r)
      in if e_short e \<or> (case e_done e of None \<Rightarrow> True | Some d \<Rightarrow> \<not> err_is d EOF) then r\<lparr>r_memberFailed := True\<rparr> else r)"

definition finishActive :: "env \<Rightarrow> reader \<Rightarrow> reader option" where
  "finishActive E r =
     (case r_entry r of
        None \<Rightarrow> Some r
      | Some i \<Rightarrow>
          Option.bind (if r_solid r then Option.bind (Entry_Close E i r) (\<lambda>(_, r). Some (r\<lparr>r_entry := None\<rparr>))
                       else Some (severActive E r)) (\<lambda>r. Some (settle i r)))"

text \<open>An entry is handed out; a refusal is an entry that is over already.\<close>

definition announce :: "chain entry \<Rightarrow> reader \<Rightarrow> outcome \<times> reader" where
  "announce e r = (Member (length (r_heap r)), r\<lparr>r_heap := r_heap r @ [e]\<rparr>)"

definition refuse :: "FileHeader \<Rightarrow> err \<Rightarrow> reader \<Rightarrow> outcome \<times> reader" where
  "refuse fh err r = announce (terminalEntry fh err (Some (f_done (r_feed r)))) r"

text \<open>\<^verbatim>\<open>dispatch\<close> from the guard against bombs on.\<close>

definition admitMember :: "env \<Rightarrow> blockHeader \<Rightarrow> FileHeader \<Rightarrow> reader \<Rightarrow> outcome \<times> reader" where
  "admitMember E h fh r =
     (if bomb fh then refuse fh ErrRarBombDetected (markIncomplete r)
      else case sizeWindow E fh r of
             (Some err, r) \<Rightarrow> refuse fh err (markIncomplete r)
           | (None, r) \<Rightarrow>
               (case (if bl_rar4 h then (None, r_win r) else win_BeginFile (r_win r) (fh_Solid fh)) of
                  (Some err, w) \<Rightarrow> refuse fh err (markIncomplete (r\<lparr>r_win := w\<rparr>))
                | (None, w) \<Rightarrow>
                    let r = r\<lparr>r_win := w\<rparr>; i = length (r_heap r);
                        e = newEntry fh None (Some (f_done (r_feed r)))
                    in case f_vol (r_feed r) of
                         None \<Rightarrow> (Panic, r)
                       | Some j \<Rightarrow>
                           (case buildChain E fh \<lparr>ss_e = i, ss_src = j\<rparr> r of
                              (Inl err, r) \<Rightarrow> refuse fh err (markIncomplete r)
                            | (Inr src, r) \<Rightarrow>
                                (Member i, r\<lparr>r_heap := r_heap r @ [e_setSource src e], r_entry := Some i\<rparr>))))"

text \<open>The target of a RAR4 symlink, which is its payload; otherwise the header as it is.\<close>

definition readLink :: "env \<Rightarrow> blockHeader \<Rightarrow> FileHeader \<Rightarrow> reader \<Rightarrow> ((outcome + FileHeader) \<times> reader) option" where
  "readLink E h fh r =
     (if bl_rar4 h \<and> isSymlink4 fh
      then case f_vol (r_feed r) of
             None \<Rightarrow> Some (Inl Panic, r)
           | Some j \<Rightarrow>
               Option.bind (readLinkTarget4 (io_ReadFull (f_payload (en_close E) j)) fh (r_feed r)) (\<lambda>(e, fh, f).
                 let r = r\<lparr>r_feed := f\<rparr>
                 in Some (case e of
                      None \<Rightarrow> (Inr fh, r)
                    | Some err \<Rightarrow>
                        (case r_isClosed E r of (closed, r) \<Rightarrow>
                           if closed then (Inl (Fail err), r)
                           else case refuse fh err r of (x, r) \<Rightarrow> (Inl x, r))))
      else Some (Inr fh, r))"

text \<open>\<^verbatim>\<open>dispatch\<close> behind the parse of the header.\<close>

definition dispatchFile :: "env \<Rightarrow> blockHeader \<Rightarrow> FileHeader \<Rightarrow> reader \<Rightarrow> (outcome \<times> reader) option" where
  "dispatchFile E h fh r =
     (if \<not> fh_FirstBlock fh then Some (Nothing, markIncomplete r)
      else if r_listing r then Some (refuse fh errListedOnly r)
      else case admitFormat h fh of
             Some err \<Rightarrow> Some (refuse fh err (markIncomplete r))
           | None \<Rightarrow>
               if fh_Solid fh \<and> \<not> r_solid r then Some (refuse fh (Wrap [ErrSolidFlagMismatch]) (markIncomplete r))
               else Option.bind (readLink E h fh r) (\<lambda>(x, r). case x of
                      Inl x \<Rightarrow> Some (x, r)
                    | Inr fh \<Rightarrow>
                        if fh_LinkType fh \<noteq> LinkNone
                        then Some (announce (linkEntry fh (Some (f_done (r_feed r)))) r)
                        else Some (admitMember E h fh r)))"

definition dispatch :: "env \<Rightarrow> blockHeader \<Rightarrow> reader \<Rightarrow> (outcome \<times> reader) option" where
  "dispatch E h r =
     (if bl_Type h \<noteq> headerTypeFile
      then case handleNonFileBlock E h r of (e, r) \<Rightarrow> Some (case e of None \<Rightarrow> Nothing | Some err \<Rightarrow> Fail err, r)
      else let firstFile = \<not> r_fileSeen r; r = r\<lparr>r_fileSeen := True\<rparr>
           in case (if firstFile \<and> f_damaged (r_feed r) = None \<and> continuesPrevious h then startsMidSet r else None) of
                Some err \<Rightarrow> Some (Fail err, r)
              | None \<Rightarrow>
                  (case parseFileHeader (en_date E) h of
                     (Some fh, Some err) \<Rightarrow>
                       Some (if fh_FirstBlock fh then refuse fh err (markIncomplete r) else (Nothing, markIncomplete r))
                   | (None, Some err) \<Rightarrow> Some (Nothing, markIncomplete r)
                   | (p, None) \<Rightarrow> dispatchFile E h (the p) r))"

text \<open>One turn of the loop of \<^verbatim>\<open>nextEntry\<close> up to the block: \<open>Inl None\<close> is its \<^verbatim>\<open>continue\<close>.\<close>

definition nextBlock :: "env \<Rightarrow> reader \<Rightarrow> ((err option + blockHeader) \<times> reader) option" where
  "nextBlock E r =
     (case r_staged r of
        Some h \<Rightarrow> Some (Inr h, r\<lparr>r_staged := None\<rparr>)
      | None \<Rightarrow>
          Option.bind (if f_vol (r_feed r) = None then r_openNextVolume E r else Some (None, r)) (\<lambda>(e, r). case e of
            Some err \<Rightarrow>
              if err_is err ErrNoNextVolume
              then let r = r\<lparr>r_win := win_decommit (en_decommit E) (r_win r)\<rparr>
                   in Some (Inl (Some (case f_damaged (r_feed r) of
                                         Some d \<Rightarrow> d
                                       | None \<Rightarrow> (case r_lateNotFirst r of Some l \<Rightarrow> l | None \<Rightarrow> EOF))), r)
              else Some (Inl (Some err), r)
          | None \<Rightarrow>
              Option.bind (r_nextHeader E r) (\<lambda>(x, r). Some (case x of
                Inr h \<Rightarrow> (Inr h, r)
              | Inl err \<Rightarrow>
                  if err_is err EOF \<or> err_is err ErrUnexpectedEOF
                  then (Inl None, r_closeCurrentVolume E
                          (if err_is err EOF then r else r\<lparr>r_feed := (r_feed r)\<lparr>f_damaged := Some err\<rparr>\<rparr>))
                  else (Inl (Some err), r)))))"

partial_function (option) nextEntry_loop :: "env \<Rightarrow> reader \<Rightarrow> (outcome \<times> reader) option" where
  "nextEntry_loop E r =
     Option.bind (nextBlock E r) (\<lambda>(x, r). case x of
        Inl None \<Rightarrow> nextEntry_loop E r
      | Inl (Some err) \<Rightarrow> Some (Fail err, r)
      | Inr h \<Rightarrow> Option.bind (dispatch E h r) (\<lambda>(x, r). if x = Nothing then nextEntry_loop E r else Some (x, r)))"

definition nextEntry :: "env \<Rightarrow> reader \<Rightarrow> (outcome \<times> reader) option" where
  "nextEntry E r = Option.bind (finishActive E r) (nextEntry_loop E)"

definition NextEntry :: "env \<Rightarrow> reader \<Rightarrow> (outcome \<times> reader) option" where
  "NextEntry E r =
     (case r_isClosed E r of (closed, r) \<Rightarrow>
        if closed then Some (Fail ErrReaderClosed, r)
        else case r_fatal r of
               Some err \<Rightarrow> Some (Fail err, r)
             | None \<Rightarrow>
                 Option.bind (nextEntry E r) (\<lambda>(x, r). Some (case x of
                   Panic \<Rightarrow> (Panic, r)
                 | Fail err \<Rightarrow>
                     (case r_isClosed E r of (closed, r) \<Rightarrow>
                        if closed then (Fail (if err_is err ErrReaderClosed then err else Wrap [ErrReaderClosed]), r)
                        else (Fail err, latchArchive E err r))
                 | _ \<Rightarrow> (case r_fatal r of Some err \<Rightarrow> (Fail err, r) | None \<Rightarrow> (x, r)))))"

text \<open>\<open>k\<close> elements of the old channel had been sent; the new one is \<open>queue\<close>.\<close>

definition r_Reset :: "env \<Rightarrow> nat \<Rightarrow> stream option list \<Rightarrow> bool \<Rightarrow> (nat \<times> nat) list \<Rightarrow> bool list \<Rightarrow> reader \<Rightarrow> reader" where
  "r_Reset E k queue ended sched picks r =
     (let r = severActive E r
      in r\<lparr>r_feed := f_Reset (en_close E) k queue ended sched picks (r_feed r), r_staged := None, r_resolved := None,
           r_solid := False, r_solidSeen := False, r_fileSeen := False, r_lateNotFirst := None,
           r_endNumberSeen := False, r_memberFailed := False, r_capLatched := False, r_fatal := None,
           r_win := win_decommit (en_decommit E) (snd (win_BeginFile (r_win r) False))\<rparr>)"

definition r_Close :: "env \<Rightarrow> nat \<Rightarrow> reader \<Rightarrow> reader" where
  "r_Close E k r = r\<lparr>r_feed := f_Close (en_close E) k (r_feed r)\<rparr>"

subsection \<open>Between two members\<close>

text \<open>What the window is to the decoder does not depend on pages the kernel took back.\<close>

lemma win_decommit_rel:
  assumes "win_rel w out p" and "\<And>buf. length (d buf) = length buf"
  shows "\<exists>out'. win_rel (win_decommit d w) out' p" and "win_size (win_decommit d w) = win_size w"
proof -
  define out' where "out' = map (\<lambda>i. d (win_buf w) ! (i mod win_size w)) [0..<length out]"
  have "length out' = length out" by (simp add: out'_def)
  then have "win_rel (w\<lparr>win_buf := d (win_buf w)\<rparr>) out' p"
    using assms by (simp add: win_rel_def out'_def)
  then show "\<exists>out'. win_rel (win_decommit d w) out' p" using assms(1) by (auto simp: win_decommit_def)
  show "win_size (win_decommit d w) = win_size w" by (simp add: win_decommit_def)
qed

lemma coder_ok_win:
  "coder_ok r \<Longrightarrow> win_rel w out p \<Longrightarrow> win_big w \<Longrightarrow> coder_ok (r\<lparr>r_win := w\<rparr>)"
  by (auto simp: coder_ok_def)

lemma win_MarkIncomplete_rel [simp]: "win_rel (win_MarkIncomplete w) out p = win_rel w out p"
  "win_big (win_MarkIncomplete w) = win_big w"
  by (simp_all add: win_rel_def win_MarkIncomplete_def win_big_def)

lemma coder_ok_mark [simp]: "coder_ok (markIncomplete r) = coder_ok r"
  by (simp add: coder_ok_def markIncomplete_def)

lemma coder_ok_decommit: "env_ok E \<Longrightarrow> coder_ok r \<Longrightarrow> coder_ok (r\<lparr>r_win := win_decommit (en_decommit E) (r_win r)\<rparr>)"
  using win_decommit_rel [of "r_win r" _ _ "en_decommit E"] by (fastforce simp: coder_ok_def env_ok_def win_big_def)

lemma markIncomplete_fields [simp]: "r_feed (markIncomplete r) = r_feed r" "r_heap (markIncomplete r) = r_heap r"
  "r_entry (markIncomplete r) = r_entry r" "r_listing (markIncomplete r) = r_listing r" "r_staged (markIncomplete r) = r_staged r"
  "r_fatal (markIncomplete r) = r_fatal r" "r_lateNotFirst (markIncomplete r) = r_lateNotFirst r" "books_ok (markIncomplete r) = books_ok r" "keeps s (markIncomplete r) = keeps s r"
  by (simp_all add: markIncomplete_def)

text \<open>\<open>between\<close>: no member is in progress; \<open>passes\<close>: a step from there to there that adds no entry.\<close>

definition between :: "env \<Rightarrow> reader \<Rightarrow> byte list list \<Rightarrow> bool" where
  "between E r outs \<longleftrightarrow> reader_ok E r outs \<and> r_entry r = None"

definition passes :: "reader \<Rightarrow> reader \<Rightarrow> bool" where
  "passes r r' \<longleftrightarrow> feed_to (r_feed r) (r_feed r') \<and> coder_ok r' \<and> r_entry r' = None \<and> r_heap r' = r_heap r
     \<and> r_listing r' = r_listing r \<and> keeps r r'"

lemma passes_trans [trans]: "passes r s \<Longrightarrow> passes s t \<Longrightarrow> passes r t"
  using feed_to_trans keeps_trans by (auto simp: passes_def)

lemma between_passes: "between E r outs \<Longrightarrow> passes r r' \<Longrightarrow> between E r' outs"
  using shut_le_done [of "r_feed r" "r_feed r'"] cut_le_done [of "r_feed r" "r_feed r'"]
  by (auto simp: between_def passes_def reader_ok_def member_ok_def feed_to_def keeps_def)

lemma between_passes_refl: "between E r outs \<Longrightarrow> passes r r"
  by (auto simp: between_def passes_def reader_ok_def)

lemma quiet_passes: "quiet r r' \<Longrightarrow> r_entry r = None \<Longrightarrow> coder_ok r \<Longrightarrow> passes r r'"
proof -
  assume q: "quiet r r'" and n: "r_entry r = None" and c: "coder_ok r"
  have "r_heap r' = r_heap r"
    by (rule nth_equalityI) (use q n quiet_heap [OF q] in \<open>auto simp: quiet_def\<close>)
  then show ?thesis using q n quiet_coder [OF q c] by (simp add: passes_def quiet_def)
qed

subsection \<open>An entry is added\<close>

lemma reader_ok_add:
  assumes b: "between E r outs" and s: "feed_to (r_feed r) (r_feed s)" "coder_ok s" "keeps r s" "r_heap s = r_heap r @ [e]"
    and life: "lived E e []" and entry: "r_entry s = None \<or> r_entry s = Some (length (r_heap r))"
    and src: "\<And>c. e_done e = None \<Longrightarrow> e_src e = Some c \<Longrightarrow> r_entry s = Some (length (r_heap r)) \<and> chain_ok s (src_chain c)"
  shows "reader_ok E s (outs @ [[]])"
proof -
  have len: "length outs = length (r_heap r)" and ok: "reader_ok E r outs" "r_entry r = None"
    using b by (simp_all add: between_def reader_ok_def)
  have "member_ok s j" if "j < length (r_heap s)" for j
  proof (cases "j < length (r_heap r)")
    case True
    then have "member_ok r j" using ok by (simp add: reader_ok_def)
    then show ?thesis using ok(2) True s(4) by (simp add: member_ok_def nth_append)
  next
    case False
    then have "j = length (r_heap r)" using that s(4) by simp
    then show ?thesis using src s(4) by (simp add: member_ok_def)
  qed
  moreover have "lived E (r_heap s ! j) ((outs @ [[]]) ! j)" if "j < length (r_heap s)" for j
  proof (cases "j < length (r_heap r)")
    case True
    then show ?thesis using ok(1) s(4) len by (simp add: reader_ok_def nth_append)
  next
    case False
    then have "j = length (r_heap r)" using that s(4) by simp
    then show ?thesis using life s(4) by (simp add: nth_append len)
  qed
  ultimately show ?thesis
    using ok(1) s len entry shut_le_done [of "r_feed r" "r_feed s"] cut_le_done [of "r_feed r" "r_feed s"]
    by (auto simp: reader_ok_def feed_to_def keeps_def)
qed

text \<open>
  What \<^verbatim>\<open>dispatch\<close> gives, when the volume \<open>v\<close> was open: it stays open or is closed, and only
  without one can the code panic.
\<close>

definition announced :: "env \<Rightarrow> nat option \<Rightarrow> reader \<Rightarrow> byte list list \<Rightarrow> outcome \<Rightarrow> reader \<Rightarrow> bool" where
  "announced E v r outs x r' \<longleftrightarrow> (f_vol (r_feed r') = v \<or> f_vol (r_feed r') = None) \<and> (x = Panic \<longrightarrow> v = None)
     \<and> (\<forall>err. x = Fail err \<longrightarrow> err \<noteq> EOF) \<and> r_staged r' = r_staged r
     \<and> (case x of
          Member i \<Rightarrow> i = length (r_heap r) \<and> (\<exists>e. r_heap r' = r_heap r @ [e]) \<and> reader_ok E r' (outs @ [[]])
            \<and> feed_to (r_feed r) (r_feed r') \<and> keeps r r' \<and> r_listing r' = r_listing r
        | _ \<Rightarrow> passes r r')"

lemma refuse_ok:
  assumes b: "between E r outs" and p: "passes r s" and v: "f_vol (r_feed s) = v \<or> f_vol (r_feed s) = None"
    and st: "r_staged s = r_staged r"
    and e: "err \<noteq> EOF" and x: "refuse fh err s = (x, r')"
  shows "announced E v r outs x r'"
proof -
  let ?e = "terminalEntry fh err (Some (f_done (r_feed s))) :: chain entry"
  have r': "x = Member (length (r_heap r))" "r' = s\<lparr>r_heap := r_heap r @ [?e]\<rparr>"
    using x p by (simp_all add: refuse_def announce_def passes_def)
  have "lived E ?e []" using e by (simp add: lived_def terminalEntry_def)
  then have "reader_ok E r' (outs @ [[]])"
    using p r' by (intro reader_ok_add [OF b]) (auto simp: passes_def coder_ok_def terminalEntry_def)
  then show ?thesis using r' p v st by (simp add: announced_def passes_def)
qed

lemma link_ok:
  assumes b: "between E r outs" and p: "passes r s" and v: "f_vol (r_feed s) = v \<or> f_vol (r_feed s) = None"
    and st: "r_staged s = r_staged r"
    and l: "fh_LinkType fh \<noteq> LinkNone" and x: "announce (linkEntry fh d) s = (x, r')"
  shows "announced E v r outs x r'"
proof -
  let ?e = "linkEntry fh d :: chain entry"
  have r': "x = Member (length (r_heap r))" "r' = s\<lparr>r_heap := r_heap r @ [?e]\<rparr>"
    using x p by (simp_all add: announce_def passes_def)
  have "lived E ?e []" using l by (simp add: lived_def linkEntry_def)
  then have "reader_ok E r' (outs @ [[]])"
    using p r' by (intro reader_ok_add [OF b]) (auto simp: passes_def coder_ok_def linkEntry_def)
  then show ?thesis using r' p v st by (simp add: announced_def passes_def)
qed

text \<open>The pieces of the admission.\<close>

lemma sizeWindow_ok:
  assumes E: "env_ok E" and c: "coder_ok r" and x: "sizeWindow E fh r = (e, s)"
  shows "coder_ok s" and "s = r\<lparr>r_archiveMax := r_archiveMax s, r_capLatched := r_capLatched s, r_win := r_win s\<rparr>"
proof -
  obtain out p where rel: "win_rel (r_win r) out p" and big: "win_big (r_win r)" using c by (auto simp: coder_ok_def)
  have g: "\<exists>out p. win_rel w out p \<and> win_big w" if "win_grow (en_reserve E) (r_win r) n = (y, w)" for n y w
    using win_grow_rel [OF rel _ that] E rel big
    by (cases y) (auto simp: env_ok_def win_big_def split: if_splits)
  show "coder_ok s" using x c g 
    by (auto simp: sizeWindow_def Let_def coder_ok_def split: if_splits prod.splits option.splits) blast+
  show "s = r\<lparr>r_archiveMax := r_archiveMax s, r_capLatched := r_capLatched s, r_win := r_win s\<rparr>"
    using x by (auto simp: sizeWindow_def Let_def split: if_splits prod.splits option.splits)
qed

lemma buildChain_ok:
  assumes E: "env_ok E" and c: "coder_ok r" and x: "buildChain E fh sp r = (y, s)"
  shows "coder_ok s" and "s = r\<lparr>r_resolved := r_resolved s, r_dec50 := r_dec50 s\<rparr>"
    and "y = Inr ch \<Longrightarrow> ss_src sp < length (f_vols (r_feed r)) \<Longrightarrow> r_entry t = Some (ss_e sp) \<Longrightarrow> r_feed t = r_feed r
      \<Longrightarrow> r_dec50 t = r_dec50 s \<Longrightarrow> chain_ok t ch"
proof -
  have d: "d_r (dec_begin d p b n) = p" for d :: "packed decoder50" and p b n
    by (simp add: dec_begin_def dec_init_def Let_def)
  have c': "dec_ok (dec_begin (r_dec50 r) p b n)" for p b n using c by (auto simp: coder_ok_def)
  obtain z s1 where z: "(if fh_Encrypted fh
            then (case resolvePassword E fh r of
                    (Inl e, r) \<Rightarrow> (Inl e, r)
                  | (Inr password, r) \<Rightarrow>
                      if maxKdfCount < fh_KdfCount fh then (Inl errKdfCountExceeded, r)
                      else (case pbkdf2HmacSha256 (en_hmac E) password (fh_Salt fh) (2 ^ fh_KdfCount fh) of
                              (key, pswCheckVal) \<Rightarrow>
                                (case (if fh_EncCheck fh \<noteq> [] then verifyEncCheck pswCheckVal (fh_EncCheck fh) else None) of
                                   Some e \<Rightarrow> (Inl e, r)
                                 | None \<Rightarrow>
                                     (case newCBCDecryptReader (en_aes E) sp key (fh_IV fh) of
                                        Inl e \<Rightarrow> (Inl e, r)
                                      | Inr c \<Rightarrow> (Inr (Decrypted c), r)))))
            else (Inr (Spliced sp), r)) = (z, s1)" by fastforce
  have s1: "s1 = r\<lparr>r_resolved := r_resolved s1\<rparr>"
    using z by (auto simp: resolvePassword_def dest!: resolve_with_ok split: if_splits sum.splits prod.splits option.splits)
  have p: "p = Spliced sp \<or> (\<exists>cb key. p = Decrypted cb \<and> cb_r cb = sp \<and> cb_inBuf cb = [] \<and> cb_dec cb = en_aes E key)" if "z = Inr p" for p
    using z that by (auto simp: newCBCDecryptReader_def split: if_splits sum.splits prod.splits option.splits)
  have ys: "(y, s) = (case z of Inl e \<Rightarrow> (Inl e, s1)
      | Inr p \<Rightarrow> if fh_Method fh = 0 then (Inr (Stored p), s1)
          else (Inr Coded, s1\<lparr>r_dec50 := dec_begin (r_dec50 s1) p (\<not> fh_FirstBlock fh) (fh_DictSize fh)\<rparr>))"
    using x unfolding buildChain_def z by (cases z) auto
  have f: "r_dec50 s1 = r_dec50 r" "r_win s1 = r_win r" by (subst s1, simp)+
  show "coder_ok s" using ys c c' f by (auto simp: coder_ok_def split: sum.splits if_splits)
  show "s = r\<lparr>r_resolved := r_resolved s, r_dec50 := r_dec50 s\<rparr>"
    using ys s1 by (auto split: sum.splits if_splits)
  show "y = Inr ch \<Longrightarrow> ss_src sp < length (f_vols (r_feed r)) \<Longrightarrow> r_entry t = Some (ss_e sp) \<Longrightarrow> r_feed t = r_feed r
      \<Longrightarrow> r_dec50 t = r_dec50 s \<Longrightarrow> chain_ok t ch"
    using ys p d E by (auto simp: chain_ok_def packed_ok_def env_ok_def split: sum.splits if_splits)
qed

lemma passes_mark [simp]: "passes r (markIncomplete s) = passes r s"
  by (simp add: passes_def)

lemma passes_sized: "passes r s \<Longrightarrow> coder_ok (s\<lparr>r_archiveMax := a, r_capLatched := b, r_win := w\<rparr>)
    \<Longrightarrow> passes r (s\<lparr>r_archiveMax := a, r_capLatched := b, r_win := w\<rparr>)"
  by (simp add: passes_def)

lemma passes_win: "passes r s \<Longrightarrow> coder_ok (s\<lparr>r_win := w\<rparr>) \<Longrightarrow> passes r (s\<lparr>r_win := w\<rparr>)"
  by (simp add: passes_def)

lemma passes_chain: "passes r s \<Longrightarrow> coder_ok (s\<lparr>r_resolved := a, r_dec50 := d\<rparr>) \<Longrightarrow> passes r (s\<lparr>r_resolved := a, r_dec50 := d\<rparr>)"
  by (simp add: passes_def)

lemma admitMember_ok:
  assumes E: "env_ok E" and b: "between E r outs" and p: "passes r s" and v: "f_vol (r_feed s) = v"
    and st: "r_staged s = r_staged r"
    and x: "admitMember E h fh s = (x, r')"
  shows "announced E v r outs x r'"
proof (cases "bomb fh")
  case True
  then show ?thesis
    using x p v st by (intro refuse_ok [OF b, of "markIncomplete s"]) (auto simp: admitMember_def)
next
  case False
  obtain e s1 where w: "sizeWindow E fh s = (e, s1)" by fastforce
  have c: "coder_ok s" using p by (simp add: passes_def)
  obtain a l win where s1: "s1 = s\<lparr>r_archiveMax := a, r_capLatched := l, r_win := win\<rparr>" using sizeWindow_ok(2) [OF E c w] by blast
  have c1: "coder_ok s1" using sizeWindow_ok(1) [OF E c w] .
  then have p1: "passes r s1" using p s1 passes_sized by simp
  have f1: "f_vol (r_feed s1) = v" "r_staged s1 = r_staged r" using v st s1 by simp_all
  show ?thesis
  proof (cases e)
    case (Some err)
    then show ?thesis
      using x p1 f1 w False sizeWindow_not_EOF [of E fh s err s1]
      by (intro refuse_ok [OF b, of "markIncomplete s1"]) (auto simp: admitMember_def)
  next
    case None
    obtain e2 w2 where B: "(if bl_rar4 h then (None, r_win s1) else win_BeginFile (r_win s1) (fh_Solid fh)) = (e2, w2)" by fastforce
    show ?thesis
    proof (cases e2)
      case (Some err)
      then have "w2 = r_win s1" "err = ErrSolidStreamBroken" using B by (auto simp: win_BeginFile_def split: if_splits)
      then show ?thesis
        using x p1 f1 w False None B Some
        by (intro refuse_ok [OF b, of "markIncomplete s1"]) (auto simp: admitMember_def)
    next
      case e2: None
      define s2 where "s2 = s1\<lparr>r_win := w2\<rparr>"
      have "coder_ok s2"
        using B e2 c1 win_BeginFile_rel [of "r_win s1"] by (auto simp: s2_def coder_ok_def win_big_def split: if_splits) fastforce+
      then have p2: "passes r s2" using p1 passes_win by (simp add: s2_def)
      have f2: "f_vol (r_feed s2) = v" "r_staged s2 = r_staged r" "r_heap s2 = r_heap r"
        using f1 p2 by (simp_all add: s2_def passes_def)
      define i where "i = length (r_heap r)"
      have x2: "(x, r') = (case f_vol (r_feed s2) of
                         None \<Rightarrow> (Panic, s2)
                       | Some j \<Rightarrow>
                           (case buildChain E fh \<lparr>ss_e = i, ss_src = j\<rparr> s2 of
                              (Inl err, r) \<Rightarrow> refuse fh err (markIncomplete r)
                            | (Inr src, r) \<Rightarrow>
                                (Member i, r\<lparr>r_heap := r_heap r @ [e_setSource src (newEntry fh None (Some (f_done (r_feed s2))))], r_entry := Some i\<rparr>)))"
        unfolding x [symmetric] i_def
        by (simp only: admitMember_def False if_False w prod.case option.case None B e2 Let_def s2_def [symmetric] f2(3))
      show ?thesis
      proof (cases v)
        case None
        then show ?thesis using x2 p2 f2 by (simp add: announced_def)
      next
        case (Some j)
        obtain y s3 where ch: "buildChain E fh \<lparr>ss_e = i, ss_src = j\<rparr> s2 = (y, s3)" by fastforce
        note C = buildChain_ok [OF E \<open>coder_ok s2\<close> ch]
        obtain a d where s3: "s3 = s2\<lparr>r_resolved := a, r_dec50 := d\<rparr>" using C(2) by blast
        have p3: "passes r s3" using p2 C(1) s3 passes_chain by simp
        have f3: "f_vol (r_feed s3) = v" "r_staged s3 = r_staged r" "r_heap s3 = r_heap r"
          "r_feed s3 = r_feed s2" using f2 s3 by simp_all
        show ?thesis
        proof (cases y)
          case (Inl err)
          then show ?thesis
            using x2 p3 f3 f2 Some ch buildChain_no_eof [of E fh "\<lparr>ss_e = i, ss_src = j\<rparr>" s2 err s3]
            by (intro refuse_ok [OF b, of "markIncomplete s3"]) auto
        next
          case (Inr c)
          define e where "e = e_setSource c (newEntry fh None (Some (f_done (r_feed s2))))"
          have r': "x = Member i" "r' = s3\<lparr>r_heap := r_heap r @ [e], r_entry := Some i\<rparr>"
            using x2 f2 f3 Some ch Inr by (simp_all add: e_def)
          have life: "lived E e []"
            using entry_run.start [of "en_sp E" fh "Some c"] by (simp add: e_def newEntry_def lived_def Let_def)
          have src: "src_chain c' = c" if "e_src e = Some c'" for c'
            using that by (auto simp: e_def e_setSource_def src_chain_def Let_def split: if_splits)
          have "feed_idle (r_feed s2)" using p2 by (simp add: passes_def feed_to_def)
          then have "j < length (f_vols (r_feed s2))" using f2 Some by (simp add: feed_idle_def feed_ok_def)
          then have ch': "chain_ok r' c" using C(3) [OF Inr, of r'] r' f3 s3 by simp
          have feed: "feed_to (r_feed r) (r_feed r')" "keeps r r'" "r_listing r' = r_listing r"
            using p3 r' by (simp_all add: passes_def)
          have "reader_ok E r' (outs @ [[]])"
            by (rule reader_ok_add [OF b feed(1) _ feed(2) _ life]) (use r' C(1) src ch' in \<open>auto simp: coder_ok_def i_def\<close>)
          then show ?thesis using r' f3 Some feed by (simp add: announced_def i_def)
        qed
      qed
    qed
  qed
qed

lemma f_payload_draining:
  assumes "close_ok cl"
  shows "draining_source (f_payload cl j) f_left (\<lambda>g. feed_to f g \<and> f_vol g = f_vol f \<and> j < length (f_vols g))"
proof (rule draining_source.intro)
  fix g n assume g: "feed_to f g \<and> f_vol g = f_vol f \<and> j < length (f_vols g)"
  then have "feed_idle g" by (simp add: feed_to_def)
  from f_payload_ok [OF assms this, of j n] g
  show "returns (f_payload cl j g n) (\<lambda>(bs, e, g'). (feed_to f g' \<and> f_vol g' = f_vol f \<and> j < length (f_vols g'))
     \<and> f_left g' + length bs \<le> f_left g \<and> length bs \<le> n \<and> (e = None \<longrightarrow> 0 < n \<longrightarrow> bs \<noteq> [] \<or> f_left g' < f_left g))"
    using feed_step_trans [of f g] by (auto simp: feed_to_def elim!: returns_mono) (auto simp: feed_step_def)
qed

lemma readLink_ok:
  assumes E: "env_ok E" and b: "between E r outs" and p: "passes r s" and v: "f_vol (r_feed s) = v"
    and st: "r_staged s = r_staged r"
  shows "returns (readLink E h fh s) (\<lambda>(y, r'). case y of
      Inl x \<Rightarrow> announced E v r outs x r'
    | Inr fh' \<Rightarrow> passes r r' \<and> f_vol (r_feed r') = v \<and> r_staged r' = r_staged r)"
proof (cases "bl_rar4 h \<and> isSymlink4 fh")
  case False
  then show ?thesis using assms by (auto simp: readLink_def)
next
  case True
  have cl: "close_ok (en_close E)" using E by (simp add: env_ok_def)
  have idle: "feed_idle (r_feed s)" using p by (simp add: passes_def feed_to_def)
  show ?thesis
  proof (cases v)
    case None
    then show ?thesis using assms True by (simp add: readLink_def announced_def)
  next
    case vj: (Some j)
    then have j: "j < length (f_vols (r_feed s))" using idle v by (simp add: feed_idle_def feed_ok_def)
    let ?rf = "io_ReadFull (f_payload (en_close E) j)"
    note full = draining_source.full_loop_drains [OF f_payload_draining [OF cl, of j "r_feed s"], of "r_feed s" "[]"]
    have rd: "returns (readLinkTarget4 ?rf fh (r_feed s)) (\<lambda>(e, fh', f). feed_to (r_feed s) f \<and> f_vol f = v \<and> (\<forall>x. e = Some x \<longrightarrow> \<not> err_is x EOF))"
      using full [of "nat (fh_PackedSize fh)"] idle j v
      by (auto simp: readLinkTarget4_def io_ReadFull_def split: option.splits)
    show ?thesis
      unfolding readLink_def if_P [OF True] v vj option.case
    proof (rule returns_seq [OF rd], clarify)
      fix e :: "err option" and fh' :: FileHeader and f :: feed
      assume f: "feed_to (r_feed s) f" "v = f_vol f" and e: "\<forall>x. e = Some x \<longrightarrow> \<not> err_is x EOF"
      define s1 where "s1 = s\<lparr>r_feed := f\<rparr>"
      have p1: "passes r s1" "f_vol (r_feed s1) = v" "r_staged s1 = r_staged r"
        using p f st feed_to_trans by (auto simp: s1_def passes_def coder_ok_def)
      obtain closed s2 where c: "r_isClosed E s1 = (closed, s2)" by fastforce
      have "feed_idle (r_feed s1)" using f by (simp add: s1_def feed_to_def)
      note C = r_isClosed_ok(1,2,3) [OF cl this c]
      have "r_entry s1 = None" "coder_ok s1" using p1 by (simp_all add: passes_def)
      then have "passes s1 s2" using quiet_passes [OF C(1)] by simp
      then have p2: "passes r s2" using p1(1) passes_trans by blast
      have f2: "f_vol (r_feed s2) = v" "r_staged s2 = r_staged r"
        using p1 C(2) by simp (subst C(3), simp add: p1)+
      show "returns (let s = s\<lparr>r_feed := f\<rparr> in Some (case e of None \<Rightarrow> (Inr fh', s)
          | Some err \<Rightarrow> case r_isClosed E s of (closed, r) \<Rightarrow> if closed then (Inl (Fail err), r)
              else case refuse fh' err r of (x, r) \<Rightarrow> (Inl x, r)))
        (\<lambda>(y, r'). case y of Inl x \<Rightarrow> announced E (Some j) r outs x r'
           | Inr fh' \<Rightarrow> passes r r' \<and> f_vol (r_feed r') = Some j \<and> r_staged r' = r_staged r)"
      proof (cases e)
        case None
        then show ?thesis using p1 vj by (simp add: s1_def)
      next
        case err: (Some err)
        obtain x r' where rf: "refuse fh' err s2 = (x, r')" by fastforce
        have "err \<noteq> EOF" using e err by auto
        from refuse_ok [OF b p2 _ f2(2) this rf] have "announced E v r outs x r'" using f2 by simp
        moreover have "announced E v r outs (Fail err) s2" using p2 f2 \<open>err \<noteq> EOF\<close> by (simp add: announced_def)
        ultimately show ?thesis using err c rf vj by (simp add: Let_def s1_def [symmetric])
      qed
    qed
  qed
qed

lemma dispatchFile_ok:
  assumes E: "env_ok E" and b: "between E r outs" and p: "passes r s" and v: "f_vol (r_feed s) = v" and st: "r_staged s = r_staged r"
  shows "returns (dispatchFile E h fh s) (\<lambda>(x, r'). announced E v r outs x r')"
proof -
  have skipped: "announced E v r outs Nothing (markIncomplete s)" using p v st by (simp add: announced_def)
  have refused: "announced E v r outs x r'" if "refuse fh err t = (x, r')" "err \<noteq> EOF" "t = s \<or> t = markIncomplete s" for err t x r'
    using that p v st by (intro refuse_ok [OF b _ _ _ that(2,1)]) auto
  have link: "returns (Option.bind (readLink E h fh s) (\<lambda>(x, r). case x of
                      Inl x \<Rightarrow> Some (x, r)
                    | Inr fh \<Rightarrow>
                        if fh_LinkType fh \<noteq> LinkNone
                        then Some (announce (linkEntry fh (Some (f_done (r_feed r)))) r)
                        else Some (admitMember E h fh r))) (\<lambda>(x, r'). announced E v r outs x r')"
  proof (rule returns_seq [OF readLink_ok [OF E b p v st]], clarify)
    fix y :: "outcome + FileHeader" and t
    assume t: "case y of Inl x \<Rightarrow> announced E v r outs x t | Inr fh' \<Rightarrow> passes r t \<and> f_vol (r_feed t) = v \<and> r_staged t = r_staged r"
    show "returns (case y of Inl x \<Rightarrow> Some (x, t)
        | Inr fh \<Rightarrow> if fh_LinkType fh \<noteq> LinkNone then Some (announce (linkEntry fh (Some (f_done (r_feed t)))) t)
                   else Some (admitMember E h fh t)) (\<lambda>(x, r'). announced E v r outs x r')"
    proof (cases y)
      case (Inl x)
      then show ?thesis using t by simp
    next
      case (Inr fh')
      then have t': "passes r t" "f_vol (r_feed t) = v" "r_staged t = r_staged r" using t by simp_all
      obtain x r' where a: "announce (linkEntry fh' (Some (f_done (r_feed t)))) t = (x, r')" by fastforce
      obtain y r'' where m: "admitMember E h fh' t = (y, r'')" by fastforce
      show ?thesis
        using Inr a m link_ok [OF b t'(1) _ t'(3) _ a] admitMember_ok [OF E b t' m] t'(2) by auto
    qed
  qed
  have "errListedOnly \<noteq> EOF" by (simp add: errListedOnly_def)
  moreover have "admitFormat h fh = Some err \<Longrightarrow> err \<noteq> EOF" for err using admitFormat_no_eof by fastforce
  moreover have "returns (Some (refuse fh err t)) (\<lambda>(x, r'). announced E v r outs x r')"
    if "err \<noteq> EOF" "t = s \<or> t = markIncomplete s" for err t
    using refused [OF _ that] by (cases "refuse fh err t") simp
  ultimately have refusals: "returns (Some (refuse fh errListedOnly s)) (\<lambda>(x, r'). announced E v r outs x r')"
    "admitFormat h fh = Some err \<Longrightarrow> returns (Some (refuse fh err (markIncomplete s))) (\<lambda>(x, r'). announced E v r outs x r')"
    "returns (Some (refuse fh (Wrap [ErrSolidFlagMismatch]) (markIncomplete s))) (\<lambda>(x, r'). announced E v r outs x r')" for err
    by simp_all
  have n: "returns (Some (Nothing, markIncomplete s)) (\<lambda>(x, r'). announced E v r outs x r')" using skipped by simp
  show ?thesis
    unfolding dispatchFile_def
    using n refusals link by (simp only: split: if_split option.split) blast
qed

lemma handleNonFileBlock_staged: "handleNonFileBlock E h r = (e, r') \<Longrightarrow> r_staged r' = r_staged r"
  by (auto simp: handleNonFileBlock_def handleArchive_def armHeaderDecryption_def resolveHeaderPassword_def handleEnd_def
      r_closeCurrentVolume_def Let_def dest!: resolve_with_ok split: sum.splits option.splits if_splits prod.splits)

lemma dispatch_ok:
  assumes E: "env_ok E" and b: "between E r outs" and h: "bl_Type h = headerTypeFile \<or> f_vol (r_feed r) \<noteq> None"
  shows "returns (dispatch E h r) (\<lambda>(x, r'). announced E (f_vol (r_feed r)) r outs x r')"
proof (cases "bl_Type h = headerTypeFile")
  case False
  have cl: "close_ok (en_close E)" using E by (simp add: env_ok_def)
  obtain j where j: "f_vol (r_feed r) = Some j" using h False by auto
  have r: "feed_idle (r_feed r)" "r_entry r = None" "coder_ok r" using b by (simp_all add: between_def reader_ok_def)
  obtain e s where x: "handleNonFileBlock E h r = (e, s)" by fastforce
  note H = handleNonFileBlock_ok [OF cl r(1) j x]
  have "passes r s" by (rule quiet_passes [OF H(1) r(2,3)])
  moreover have "f_vol (r_feed s) = Some j \<or> f_vol (r_feed s) = None"
    using H(2) x r_closeCurrentVolume_ok(2) [OF cl, of "handleEnd h r"] handleEnd_ok [OF r(1), of h] r(1)
    by (auto simp: handleNonFileBlock_def headerTypeArchive_def headerTypeEnd_def headerTypeEncryption_def split: if_splits)
  ultimately show ?thesis
    using x False j handleNonFileBlock_no_eof [of E h r _ s] handleNonFileBlock_staged [OF x]
    by (auto simp: dispatch_def announced_def split: option.split)
next
  case True
  define s where "s = r\<lparr>r_fileSeen := True\<rparr>"
  have p: "passes r s" "f_vol (r_feed s) = f_vol (r_feed r)" "r_staged s = r_staged r"
    using between_passes_refl [OF b] by (simp_all add: s_def passes_def coder_ok_def)
  have d: "dispatch E h r = (case (if \<not> r_fileSeen r \<and> f_damaged (r_feed s) = None \<and> continuesPrevious h then startsMidSet s else None) of
      Some err \<Rightarrow> Some (Fail err, s)
    | None \<Rightarrow>
        (case parseFileHeader (en_date E) h of
           (Some fh, Some err) \<Rightarrow>
             Some (if fh_FirstBlock fh then refuse fh err (markIncomplete s) else (Nothing, markIncomplete s))
         | (None, Some err) \<Rightarrow> Some (Nothing, markIncomplete s)
         | (p, None) \<Rightarrow> dispatchFile E h (the p) s))"
    using True by (simp only: dispatch_def Let_def s_def not_True_eq_False simp_thms if_False)
  obtain q e where ph: "parseFileHeader (en_date E) h = (q, e)" by fastforce
  have mid: "startsMidSet s = Some err \<Longrightarrow> announced E (f_vol (r_feed r)) r outs (Fail err) s" for err
    using p startsMidSet_no_eof [of s err] by (auto simp: announced_def)
  have skipped: "announced E (f_vol (r_feed r)) r outs Nothing (markIncomplete s)" using p by (simp add: announced_def)
  have bad: "announced E (f_vol (r_feed r)) r outs x r'" if "refuse fh err (markIncomplete s) = (x, r')" "e = Some err" for fh err x r'
    using that p parseFileHeader_no_eof [of "en_date E" h q err] ph by (intro refuse_ok [OF b _ _ _ _ that(1)]) auto
  have admitted: "returns (dispatchFile E h fh s) (\<lambda>(x, r'). announced E (f_vol (r_feed r)) r outs x r')" for fh
    using dispatchFile_ok [OF E b p] .
  show ?thesis
    unfolding d ph using mid skipped bad admitted by (auto split: option.split prod.split if_splits)
qed

subsection \<open>The scan\<close>

text \<open>
  How many turns the loop still has in it: each one reads a header or opens a volume, which
  uses up data, or closes a volume, or takes the staged header.
\<close>

definition turns :: "reader \<Rightarrow> nat" where
  "turns r = 2 * f_left (r_feed r) + (if f_vol (r_feed r) = None then 0 else 1) + (if r_staged r = None then 0 else 1)"

text \<open>What is known when a scan reports the clean end.\<close>

definition all_well :: "reader \<Rightarrow> bool" where
  "all_well r \<longleftrightarrow> f_vol (r_feed r) = None \<and> r_staged r = None \<and> f_damaged (r_feed r) = None \<and> r_lateNotFirst r = None"

definition block_post :: "reader \<Rightarrow> err option + blockHeader \<Rightarrow> reader \<Rightarrow> bool" where
  "block_post r x r' \<longleftrightarrow> passes r r' \<and> (case x of
      Inl None \<Rightarrow> turns r' < turns r \<and> r_staged r' = None
    | Inl (Some err) \<Rightarrow> err = EOF \<longrightarrow> all_well r'
    | Inr h \<Rightarrow> turns r' < turns r \<and> (bl_Type h = headerTypeFile \<or> f_vol (r_feed r') \<noteq> None)
        \<and> (f_vol (r_feed r') = None \<longrightarrow> f_vol (r_feed r) = None \<and> r_staged r \<noteq> None) \<and> r_staged r' = None)"

lemma nextBlock_ok:
  assumes E: "env_ok E" and b: "between E r outs"
  shows "returns (nextBlock E r) (\<lambda>(x, r'). block_post r x r')"
proof (cases "r_staged r")
  case (Some h)
  have "bl_Type h = headerTypeFile" using b Some by (simp add: between_def reader_ok_def books_ok_def)
  moreover have "books_ok r \<Longrightarrow> books_ok (r\<lparr>r_staged := None\<rparr>)" unfolding books_ok_def by simp
  then have "passes r (r\<lparr>r_staged := None\<rparr>)"
    using between_passes_refl [OF b] by (simp add: passes_def coder_ok_def keeps_def)
  ultimately show ?thesis using Some by (simp add: nextBlock_def block_post_def turns_def)
next
  case staged: None
  have cl: "close_ok (en_close E)" using E by (simp add: env_ok_def)
  have r: "feed_idle (r_feed r)" "r_entry r = None" "coder_ok r" "cut_le None (f_damaged (r_feed r))" "books_ok r"
    using b by (simp_all add: between_def reader_ok_def)
  define vol where "vol \<longleftrightarrow> f_vol (r_feed r) \<noteq> None"
  have start: "returns (if f_vol (r_feed r) = None then r_openNextVolume E r else Some (None, r)) (\<lambda>(e, s). quiet r s
      \<and> s = r\<lparr>r_feed := r_feed s\<rparr> \<and> (case e of
          None \<Rightarrow> (\<exists>j. f_vol (r_feed s) = Some j) \<and> turns s \<le> turns r \<and> (vol \<longrightarrow> s = r)
        | Some x \<Rightarrow> f_vol (r_feed s) = None \<and> \<not> err_is x EOF))"
  proof (cases "f_vol (r_feed r) = None")
    case True
    from r_openNextVolume_ok [OF cl r(1)] show ?thesis
      unfolding if_P [OF True]
    proof (rule returns_mono, clarify)
      fix e :: "err option" and s :: reader
      assume s: "quiet r s" "s = r\<lparr>r_feed := r_feed s\<rparr>" "next_post (r_feed r) e (r_feed s)"
      have st: "r_staged s = None" by (subst s(2)) (simp add: staged)
      show "case e of None \<Rightarrow> (\<exists>j. f_vol (r_feed s) = Some j) \<and> turns s \<le> turns r \<and> (vol \<longrightarrow> s = r)
        | Some x \<Rightarrow> f_vol (r_feed s) = None \<and> \<not> err_is x EOF"
        using s st True staged by (auto simp: next_post_def turns_def vol_def split: option.splits)
    qed
  next
    case False
    then show ?thesis using r(1) by (auto simp: vol_def)
  qed
  show ?thesis
    unfolding nextBlock_def staged option.case
  proof (rule returns_seq [OF start], clarify)
    fix e :: "err option" and s :: reader
    assume s: "quiet r s" "s = r\<lparr>r_feed := r_feed s\<rparr>"
      and post: "case e of None \<Rightarrow> (\<exists>j. f_vol (r_feed s) = Some j) \<and> turns s \<le> turns r \<and> (vol \<longrightarrow> s = r)
        | Some x \<Rightarrow> f_vol (r_feed s) = None \<and> \<not> err_is x EOF"
    have st: "r_staged s = None" "r_entry s = None" using staged r(2) by (subst s(2), simp)+
    have p: "passes r s" by (rule quiet_passes [OF s(1) r(2,3)])
    have c: "coder_ok s" using p by (simp add: passes_def)
    show "returns (case e of
            Some err \<Rightarrow>
              if err_is err ErrNoNextVolume
              then let r = s\<lparr>r_win := win_decommit (en_decommit E) (r_win s)\<rparr>
                   in Some (Inl (Some (case f_damaged (r_feed r) of
                                         Some d \<Rightarrow> d
                                       | None \<Rightarrow> (case r_lateNotFirst r of Some l \<Rightarrow> l | None \<Rightarrow> EOF))), r)
              else Some (Inl (Some err), s)
          | None \<Rightarrow>
              Option.bind (r_nextHeader E s) (\<lambda>(x, r). Some (case x of
                Inr h \<Rightarrow> (Inr h, r)
              | Inl err \<Rightarrow>
                  if err_is err EOF \<or> err_is err ErrUnexpectedEOF
                  then (Inl None, r_closeCurrentVolume E
                          (if err_is err EOF then r else r\<lparr>r_feed := (r_feed r)\<lparr>f_damaged := Some err\<rparr>\<rparr>))
                  else (Inl (Some err), r)))) (\<lambda>(x, r'). block_post r x r')"
    proof (cases e)
      case (Some err)
      define t where "t = s\<lparr>r_win := win_decommit (en_decommit E) (r_win s)\<rparr>"
      have pt: "passes r t" using p coder_ok_decommit [OF E c] passes_win by (simp add: t_def)
      have "cut_le None (f_damaged (r_feed t))" "books_ok t"
        using p r(4,5) cut_le_done [of "r_feed r" "r_feed s"] by (auto simp: t_def passes_def feed_to_def keeps_def)
      then have "(case f_damaged (r_feed t) of Some d \<Rightarrow> d | None \<Rightarrow> (case r_lateNotFirst t of Some l \<Rightarrow> l | None \<Rightarrow> EOF)) = EOF \<longrightarrow> all_well t"
        using post st Some by (auto simp: all_well_def cut_le_def books_ok_def t_def split: option.splits)
      moreover have "err \<noteq> EOF" using post Some by auto
      ultimately show ?thesis
        using p pt Some by (simp add: Let_def t_def [symmetric] block_post_def)
    next
      case None
      then obtain j where j: "f_vol (r_feed s) = Some j" and le: "turns s \<le> turns r" using post by auto
      have si: "feed_idle (r_feed s)" using quiet_idle [OF s(1)] .
      show ?thesis
        unfolding None option.case
      proof (rule returns_seq [OF r_nextHeader_ok [OF cl si j]], clarify)
        fix x :: "err + blockHeader" and t :: reader
        assume t: "quiet s t" "t = s\<lparr>r_feed := r_feed t\<rparr>" "f_vol (r_feed t) = Some j"
          and x: "case x of Inl e \<Rightarrow> v_err (f_vols (r_feed t) ! j) = Some e | Inr h \<Rightarrow> f_left (r_feed t) < f_left (r_feed s)"
        have tt: "r_staged t = None" "r_entry t = None" using st by (subst t(2), simp)+
        have pt: "passes r t" using p quiet_passes [OF t(1) st(2) c] passes_trans by blast
        show "returns (Some (case x of
                Inr h \<Rightarrow> (Inr h, t)
              | Inl err \<Rightarrow>
                  if err_is err EOF \<or> err_is err ErrUnexpectedEOF
                  then (Inl None, r_closeCurrentVolume E
                          (if err_is err EOF then t else t\<lparr>r_feed := (r_feed t)\<lparr>f_damaged := Some err\<rparr>\<rparr>))
                  else (Inl (Some err), t))) (\<lambda>(x, r'). block_post r x r')"
        proof (cases x)
          case (Inr h)
          then show ?thesis using x pt tt t(3) st(1) j le by (simp add: block_post_def turns_def)
        next
          case (Inl err)
          show ?thesis
          proof (cases "err_is err EOF \<or> err_is err ErrUnexpectedEOF")
            case False
            then show ?thesis using Inl pt by (auto simp: block_post_def)
          next
            case True
            define u where "u = (if err_is err EOF then t else t\<lparr>r_feed := (r_feed t)\<lparr>f_damaged := Some err\<rparr>\<rparr>)"
            have u: "quiet t u" using quiet_idle [OF t(1)] True by (auto simp: u_def quiet_def)
            note C = r_closeCurrentVolume_ok [OF cl quiet_idle [OF u]]
            have q: "quiet t (r_closeCurrentVolume E u)" using quiet_trans [OF u C(1)] .
            have "coder_ok t" using pt by (simp add: passes_def)
            then have "passes r (r_closeCurrentVolume E u)" using passes_trans [OF pt quiet_passes [OF q tt(2)]] by simp
            moreover have "f_left (r_feed (r_closeCurrentVolume E u)) \<le> f_left (r_feed s)"
              using quiet_left [OF q] quiet_left [OF t(1)] by simp
            moreover have "r_staged (r_closeCurrentVolume E u) = None" using tt(1) by (simp add: r_closeCurrentVolume_def u_def)
            ultimately show ?thesis
              using Inl True C(2) le st(1) j by (simp add: u_def [symmetric] block_post_def turns_def)
          qed
        qed
      qed
    qed
  qed
qed

definition scanned :: "env \<Rightarrow> reader \<Rightarrow> byte list list \<Rightarrow> outcome \<Rightarrow> reader \<Rightarrow> bool" where
  "scanned E r outs x r' \<longleftrightarrow> x \<noteq> Nothing \<and> (x = Fail EOF \<longrightarrow> all_well r')
     \<and> (x = Panic \<longrightarrow> f_vol (r_feed r) = None \<and> r_staged r \<noteq> None)
     \<and> (case x of
          Member i \<Rightarrow> i = length (r_heap r) \<and> (\<exists>e. r_heap r' = r_heap r @ [e]) \<and> reader_ok E r' (outs @ [[]])
            \<and> feed_to (r_feed r) (r_feed r') \<and> keeps r r' \<and> r_listing r' = r_listing r
        | _ \<Rightarrow> passes r r')"

lemma scanned_later:
  assumes "passes r s" and "r_staged s = None" and "scanned E s outs x r'"
  shows "scanned E r outs x r'"
proof -
  have p: "feed_to (r_feed r) (r_feed s)" "keeps r s" "r_heap s = r_heap r" "r_listing s = r_listing r"
    using assms(1) by (simp_all add: passes_def)
  show ?thesis
    using assms(2,3) p feed_to_trans [OF p(1)] keeps_trans [OF p(2)] passes_trans [OF assms(1)]
    by (cases x) (auto simp: scanned_def)
qed

lemma nextEntry_loop_ok:
  assumes E: "env_ok E" and "between E r outs"
  shows "returns (nextEntry_loop E r) (\<lambda>(x, r'). scanned E r outs x r')"
  using assms(2)
proof (induction "turns r" arbitrary: r rule: less_induct)
  case less
  show ?case
  proof (subst nextEntry_loop.simps, rule returns_seq [OF nextBlock_ok [OF E less.prems]], clarify)
    fix x :: "err option + blockHeader" and s :: reader
    assume s: "block_post r x s"
    have ps: "passes r s" using s by (simp add: block_post_def)
    have bs: "between E s outs" using between_passes [OF less.prems ps] .
    have later: "returns (nextEntry_loop E t) (\<lambda>(x, r'). scanned E r outs x r')"
      if "passes r t" "between E t outs" "turns t < turns r" "r_staged t = None" for t
      using less.hyps [OF that(3,2)] by (rule returns_mono) (use scanned_later [OF that(1,4)] in auto)
    show "returns (case x of
        Inl None \<Rightarrow> nextEntry_loop E s
      | Inl (Some err) \<Rightarrow> Some (Fail err, s)
      | Inr h \<Rightarrow> Option.bind (dispatch E h s) (\<lambda>(x, r). if x = Nothing then nextEntry_loop E r else Some (x, r)))
      (\<lambda>(x, r'). scanned E r outs x r')"
    proof (cases x)
      case (Inl e)
      then show ?thesis using s ps bs later [of s] by (cases e) (auto simp: block_post_def scanned_def)
    next
      case (Inr h)
      then have h: "turns s < turns r" "bl_Type h = headerTypeFile \<or> f_vol (r_feed s) \<noteq> None" "r_staged s = None"
        "f_vol (r_feed s) = None \<longrightarrow> f_vol (r_feed r) = None \<and> r_staged r \<noteq> None"
        using s by (simp_all add: block_post_def)
      show ?thesis
        unfolding Inr sum.case
      proof (rule returns_seq [OF dispatch_ok [OF E bs h(2)]], clarify)
        fix y :: outcome and t :: reader
        assume t: "announced E (f_vol (r_feed s)) s outs y t"
        show "returns (if y = Nothing then nextEntry_loop E t else Some (y, t)) (\<lambda>(x, r'). scanned E r outs x r')"
        proof (cases "y = Nothing")
          case True
          then have pt: "passes s t" using t by (simp add: announced_def)
          then have left: "f_left (r_feed t) \<le> f_left (r_feed s)" by (simp add: passes_def feed_to_def feed_step_def)
          have "r_staged t = None" "f_vol (r_feed t) = f_vol (r_feed s) \<or> f_vol (r_feed t) = None"
            using t h(3) by (auto simp: announced_def)
          then have "turns t \<le> turns s"
            using left h(3) by (cases "f_vol (r_feed t)"; cases "f_vol (r_feed s)") (simp_all add: turns_def)
          then have "turns t < turns r" using h(1) by simp
          then show ?thesis
            using later [OF passes_trans [OF ps pt] between_passes [OF bs pt] _ \<open>r_staged t = None\<close>] True by simp
        next
          case False
          have p: "feed_to (r_feed r) (r_feed s)" "keeps r s" "r_heap s = r_heap r" "r_listing s = r_listing r"
            using ps by (simp_all add: passes_def)
          have "scanned E r outs y t"
            using False t h(4) p feed_to_trans [OF p(1)] keeps_trans [OF p(2)] passes_trans [OF ps]
            by (cases y) (auto simp: announced_def scanned_def)
          then show ?thesis using False by simp
        qed
      qed
    qed
  qed
qed

subsection \<open>The end of a member\<close>

lemma e_sever_fields: "e_done (e_sever closed e) \<noteq> None" "e_src (e_sever closed e) = None" "e_cur (e_sever closed e) = e_cur e"
  "e_done e = Some d \<Longrightarrow> e_done (e_sever closed e) = Some d" "e_Header (e_sever closed e) = e_Header e"
  "e_remaining (e_sever closed e) = e_remaining e"
  by (auto simp: e_sever_def e_finish_def Let_def split: option.split)

lemma lived_sever: "lived E e out \<Longrightarrow> lived E (e_sever closed e) out"
  using entry_run.sever [of "en_sp E" e out closed] e_sever_fields(4) [of e _ closed]
  by (auto simp: lived_def e_sever_fields)

text \<open>What is left of the Reader when its member is over, and nothing was read for that.\<close>

definition ends :: "reader \<Rightarrow> reader \<Rightarrow> bool" where
  "ends r s \<longleftrightarrow> feed_to (r_feed r) (r_feed s) \<and> keeps r s \<and> r_entry s = None \<and> r_listing s = r_listing r
     \<and> length (r_heap s) = length (r_heap r) \<and> (\<forall>j. r_entry r \<noteq> Some j \<longrightarrow> r_heap s ! j = r_heap r ! j)"

lemma ends_between:
  assumes ok: "reader_ok E r outs" and s: "ends r s" "coder_ok s" and len: "length outs' = length outs"
    and others: "\<And>j. r_entry r \<noteq> Some j \<Longrightarrow> outs' ! j = outs ! j"
    and over: "\<And>i. r_entry r = Some i \<Longrightarrow> e_done (r_heap s ! i) \<noteq> None \<and> lived E (r_heap s ! i) (outs' ! i)"
  shows "between E s outs'"
proof -
  have "member_ok s j \<and> lived E (r_heap s ! j) (outs' ! j)" if j: "j < length (r_heap r)" for j
  proof (cases "r_entry r = Some j")
    case True
    then show ?thesis using over [OF True] by (auto simp: member_ok_def)
  next
    case False
    then have "r_heap s ! j = r_heap r ! j" "member_ok r j" "lived E (r_heap r ! j) (outs ! j)"
      using s(1) ok j by (simp_all add: ends_def reader_ok_def)
    then show ?thesis using others [OF False] False by (auto simp: member_ok_def)
  qed
  then show ?thesis
    using ok s len shut_le_done [of "r_feed r" "r_feed s"] cut_le_done [of "r_feed r" "r_feed s"]
    by (auto simp: between_def reader_ok_def ends_def feed_to_def keeps_def)
qed

lemma severActive_ok:
  assumes E: "env_ok E" and ok: "reader_ok E r outs"
  shows "ends r (severActive E r)" and "between E (severActive E r) outs"
    and "r_win (severActive E r) = r_win r" and "r_dec50 (severActive E r) = r_dec50 r"
proof -
  have cl: "close_ok (en_close E)" using E by (simp add: env_ok_def)
  have r: "feed_idle (r_feed r)" "coder_ok r" using ok by (simp_all add: reader_ok_def)
  have "ends r (severActive E r) \<and> between E (severActive E r) outs \<and> r_win (severActive E r) = r_win r
    \<and> r_dec50 (severActive E r) = r_dec50 r"
  proof (cases "r_entry r")
    case None
    then show ?thesis using ok r by (simp add: severActive_def ends_def between_def)
  next
    case (Some i)
    obtain closed s where c: "e_isClosed E i r = (closed, s)" by fastforce
    note C = e_isClosed_ok [OF cl r(1) c]
    define t where "t = heap_upd i (e_sever closed) (s\<lparr>r_entry := None\<rparr>)"
    have sv: "severActive E r = t" using Some c by (simp add: severActive_def t_def)
    have h: "r_heap s = r_heap r" by (subst C(2)) simp
    have t: "r_heap t = (r_heap r)[i := e_sever closed (r_heap r ! i)]" "r_feed t = r_feed s" "r_entry t = None"
      "r_listing t = r_listing s" "r_win t = r_win s" "r_dec50 t = r_dec50 s" "keeps s t" using h by (simp_all add: t_def heap_upd_def)
    have i: "i < length (r_heap r)" using ok Some by (simp add: reader_ok_def)
    have e: "ends r t" using C(1) t Some keeps_trans by (auto simp: ends_def quiet_def)
    moreover have "coder_ok t" using quiet_coder [OF C(1) r(2)] t by (simp add: coder_ok_def)
    moreover have "lived E (r_heap r ! i) (outs ! i)" using ok i by (simp add: reader_ok_def)
    ultimately have "between E t outs"
      using i Some t(1) e_sever_fields lived_sever by (intro ends_between [OF ok]) auto
    then show ?thesis using e sv t C(1) by (simp add: quiet_def)
  qed
  then show "ends r (severActive E r)" "between E (severActive E r) outs"
    "r_win (severActive E r) = r_win r" "r_dec50 (severActive E r) = r_dec50 r" by simp_all
qed

text \<open>The bytes each entry has given when the member in progress has ended: in a solid archive the
  rest of it has been read.\<close>

definition ended_outs :: "env \<Rightarrow> reader \<Rightarrow> byte list list \<Rightarrow> byte list list" where
  "ended_outs E r outs =
     (case r_entry r of Some i \<Rightarrow> if r_solid r then outs[i := outs ! i @ drained E i r] else outs | None \<Rightarrow> outs)"

lemma settle_fields: "r_feed (settle i r) = r_feed r" "r_heap (settle i r) = r_heap r" "r_entry (settle i r) = r_entry r"
  "r_listing (settle i r) = r_listing r" "keeps s (settle i r) = keeps s r" "coder_ok (settle i r) = coder_ok r"
proof -
  have c: "coder_ok (r\<lparr>r_memberFailed := b\<rparr>) = coder_ok r" for r b by (simp add: coder_ok_def)
  show "coder_ok (settle i r) = coder_ok r" by (simp add: settle_def Let_def c)
qed (simp_all add: settle_def Let_def)

lemma ends_settle: "ends r s \<Longrightarrow> ends r (settle i s)"
  by (simp add: ends_def settle_fields)

lemma between_settle: "between E r outs \<Longrightarrow> between E (settle i r) outs"
  by (rule between_passes) (auto simp: passes_def settle_fields between_def reader_ok_def)

lemma finishActive_ok:
  assumes E: "env_ok E" and ok: "reader_ok E r outs"
  shows "returns (finishActive E r) (\<lambda>s. ends r s \<and> between E s (ended_outs E r outs))"
proof (cases "r_entry r")
  case None
  then show ?thesis using ok by (auto simp: finishActive_def ends_def between_def ended_outs_def reader_ok_def)
next
  case (Some i)
  have i: "i < length (r_heap r)" "i < length outs" using ok Some by (simp_all add: reader_ok_def)
  have "returns (if r_solid r then Option.bind (Entry_Close E i r) (\<lambda>(_, r). Some (r\<lparr>r_entry := None\<rparr>)) else Some (severActive E r))
      (\<lambda>s. ends r s \<and> between E s (ended_outs E r outs))"
  proof (cases "r_solid r")
    case True
    show ?thesis
      unfolding if_P [OF True]
    proof (rule returns_seq [OF Entry_Close_ok [OF E ok i(1)]], clarify)
      fix x :: "err option" and s :: reader and y
      assume s: "entry_step E r outs i (drained E i r) s" and d: "e_done (r_heap s ! i) = Some y"
      define t where "t = s\<lparr>r_entry := None\<rparr>"
      have e: "ends r t" using s Some by (auto simp: ends_def t_def entry_step_def)
      have "coder_ok t" using s by (simp add: entry_step_def reader_ok_def t_def coder_ok_def)
      have "reader_ok E s (outs[i := outs ! i @ drained E i r])" "i < length (r_heap s)" using s i by (simp_all add: entry_step_def)
      then have "lived E (r_heap s ! i) (outs[i := outs ! i @ drained E i r] ! i)" unfolding reader_ok_def by blast
      then have "lived E (r_heap t ! i) (ended_outs E r outs ! i)"
        using i Some True by (simp add: t_def ended_outs_def)
      then have "between E t (ended_outs E r outs)"
        using d Some True i e \<open>coder_ok t\<close> by (intro ends_between [OF ok]) (auto simp: t_def ended_outs_def)
      then show "returns (Some (s\<lparr>r_entry := None\<rparr>)) (\<lambda>s. ends r s \<and> between E s (ended_outs E r outs))"
        using e by (simp add: t_def)
    qed
  next
    case False
    then show ?thesis using severActive_ok [OF E ok] Some by (simp add: ended_outs_def)
  qed
  then show ?thesis
    unfolding finishActive_def Some option.case by (rule returns_seq) (use ends_settle between_settle in auto)
qed

subsection \<open>The calls of a caller\<close>

text \<open>The bytes each entry has given behind a \<^verbatim>\<open>NextEntry\<close> that ended in \<open>r'\<close>.\<close>

definition next_outs :: "env \<Rightarrow> reader \<Rightarrow> byte list list \<Rightarrow> reader \<Rightarrow> byte list list" where
  "next_outs E r outs r' =
     (case r_isClosed E r of (closed, s) \<Rightarrow>
        (if closed \<or> r_fatal s \<noteq> None then outs else ended_outs E s outs) @ replicate (length (r_heap r') - length (r_heap r)) [])"

definition next_result :: "reader \<Rightarrow> outcome \<Rightarrow> reader \<Rightarrow> bool" where
  "next_result r x r' \<longleftrightarrow> x \<noteq> Nothing \<and> (x = Fail EOF \<longrightarrow> all_well r')
     \<and> (case x of Member i \<Rightarrow> i = length (r_heap r) \<and> length (r_heap r') = Suc i \<and> r_fatal r' = None | _ \<Rightarrow> True)"

text \<open>
  \<^verbatim>\<open>dispatch\<close> would read the payload of a volume that is not there: behind the end of the member in
  progress a header is held back while no volume is open.
\<close>

definition volume_lost :: "env \<Rightarrow> reader \<Rightarrow> bool" where
  "volume_lost E r \<longleftrightarrow>
     (case r_isClosed E r of (closed, s) \<Rightarrow> \<not> closed \<and> r_fatal s = None
        \<and> (case finishActive E s of None \<Rightarrow> False | Some t \<Rightarrow> r_staged t \<noteq> None \<and> f_vol (r_feed t) = None))"

lemma reader_ok_quiet:
  assumes ok: "reader_ok E r outs" and q: "quiet r s" and h: "r_heap s = r_heap r"
  shows "reader_ok E s outs"
proof -
  have vols: "length (f_vols (r_feed r)) \<le> length (f_vols (r_feed s))" by (rule quiet_vols [OF q])
  have same: "r_entry s = r_entry r" "r_dec50 s = r_dec50 r" "keeps r s" "feed_to (r_feed r) (r_feed s)" using q by (simp_all add: quiet_def)
  have "member_ok s j" if "member_ok r j" for j
    using that h same chain_ok_reads [OF _ vols same(1,2)] by (auto simp: member_ok_def)
  then show ?thesis
    using ok h same quiet_coder [OF q] shut_le_done [of "r_feed r" "r_feed s"] cut_le_done [of "r_feed r" "r_feed s"]
    by (auto simp: reader_ok_def feed_to_def keeps_def)
qed

lemma drainVolumes_damaged: "f_damaged (drainVolumes k f) = f_damaged f"
  by (induction k f rule: drainVolumes.induct) (auto split: list.split option.split)

lemma pt_damaged: "f_damaged (pt cl f) = f_damaged f"
  by (auto simp: pt_def f_Close_def Let_def drainVolumes_damaged split: list.split prod.split nat.split option.split)

lemma r_isClosed_reader_ok:
  assumes "env_ok E" and "reader_ok E r outs" and c: "r_isClosed E r = (closed, s)"
  shows "reader_ok E s outs" and "quiet r s" and "s = r\<lparr>r_feed := r_feed s\<rparr>" and "r_heap s = r_heap r"
    and "r_fatal s = r_fatal r" and "f_vol (r_feed s) = f_vol (r_feed r)" and "f_damaged (r_feed s) = f_damaged (r_feed r)"
proof -
  have cl: "close_ok (en_close E)" "feed_idle (r_feed r)" using assms by (simp_all add: env_ok_def reader_ok_def)
  note C = r_isClosed_ok [OF cl c]
  show "quiet r s" "s = r\<lparr>r_feed := r_feed s\<rparr>" "f_vol (r_feed s) = f_vol (r_feed r)" by (rule C)+
  show h: "r_heap s = r_heap r" "r_fatal s = r_fatal r" by (subst C(3), simp)+
  show "f_damaged (r_feed s) = f_damaged (r_feed r)"
    using c pt_damaged by (auto simp: r_isClosed_def f_isClosed_def Let_def)
  show "reader_ok E s outs" by (rule reader_ok_quiet [OF assms(2) C(1) h(1)])
qed

lemma latchArchive_reader_ok:
  assumes "env_ok E" and "reader_ok E r outs"
  shows "reader_ok E (latchArchive E e r) outs" and "r_heap (latchArchive E e r) = r_heap r"
    and "feed_to (r_feed r) (r_feed (latchArchive E e r))" and "e = EOF \<Longrightarrow> latchArchive E e r = r"
proof -
  have cl: "close_ok (en_close E)" "feed_idle (r_feed r)" using assms by (simp_all add: env_ok_def reader_ok_def)
  note L = latchArchive_ok [OF cl, of e]
  obtain closed s where c: "r_isClosed E r = (closed, s)" by fastforce
  show h: "r_heap (latchArchive E e r) = r_heap r"
    using r_isClosed_reader_ok(4) [OF assms c] c by (simp add: latchArchive_def)
  show "reader_ok E (latchArchive E e r) outs" by (rule reader_ok_quiet [OF assms(2) L(1) h])
  show "feed_to (r_feed r) (r_feed (latchArchive E e r))" using L(1) by (simp add: quiet_def)
  show "e = EOF \<Longrightarrow> latchArchive E e r = r" by (simp add: latchArchive_def)
qed

lemma NextEntry_ok:
  assumes E: "env_ok E" and ok: "reader_ok E r outs"
  shows "returns (NextEntry E r) (\<lambda>(x, r'). reader_ok E r' (next_outs E r outs r') \<and> next_result r x r' \<and> (x = Panic \<longrightarrow> volume_lost E r)
     \<and> feed_to (r_feed r) (r_feed r') \<and> length (r_heap r) \<le> length (r_heap r')
     \<and> (\<forall>j < length (r_heap r). r_entry r \<noteq> Some j \<longrightarrow> r_heap r' ! j = r_heap r ! j))"
proof -
  obtain closed s where c: "r_isClosed E r = (closed, s)" by fastforce
  note C = r_isClosed_reader_ok [OF E ok c]
  have step: "feed_to (r_feed r) (r_feed s)" using C(2) by (simp add: quiet_def)
  show ?thesis
  proof (cases "closed \<or> r_fatal s \<noteq> None")
    case True
    have "books_ok s" using C(1) by (simp add: reader_ok_def)
    then have "r_fatal s = Some e \<Longrightarrow> e \<noteq> EOF" for e by (auto simp: books_ok_def latchable_def)
    then show ?thesis
      using True C step c by (auto simp: NextEntry_def next_outs_def next_result_def split: option.splits)
  next
    case False
    obtain t where t: "ends s t" and bt: "between E t (ended_outs E s outs)" and fin: "finishActive E s = Some t"
      using finishActive_ok [OF E C(1)] by (auto simp: returns_def)
    obtain x u where run: "nextEntry E s = Some (x, u)" and sc: "scanned E t (ended_outs E s outs) x u"
      using nextEntry_loop_ok [OF E bt] fin by (auto simp: returns_def nextEntry_def)
    have lost: "x = Panic \<Longrightarrow> volume_lost E r" using sc fin False c by (simp add: volume_lost_def scanned_def)
    define out where "out = ended_outs E s outs"
    have ht: "length (r_heap t) = length (r_heap r)" "\<And>j. r_entry r \<noteq> Some j \<Longrightarrow> r_heap t ! j = r_heap r ! j"
      "feed_to (r_feed r) (r_feed t)"
      using t C(4) step feed_to_trans C(2) by (auto simp: ends_def quiet_def)
    have u: "reader_ok E u (out @ replicate (length (r_heap u) - length (r_heap r)) [])" "feed_to (r_feed r) (r_feed u)"
      "length (r_heap r) \<le> length (r_heap u)" "\<forall>j < length (r_heap r). r_entry r \<noteq> Some j \<longrightarrow> r_heap u ! j = r_heap r ! j"
      using sc ht feed_to_trans [OF ht(3)] between_passes [OF bt] bt
      by (cases x; auto simp: scanned_def out_def passes_def between_def nth_append)+
    have no: "next_outs E r outs r' = out @ replicate (length (r_heap r') - length (r_heap r)) []" for r'
      using False c by (auto simp: next_outs_def out_def)
    have N: "NextEntry E r = Some (case x of
                   Panic \<Rightarrow> (Panic, u)
                 | Fail err \<Rightarrow>
                     (case r_isClosed E u of (closed, r) \<Rightarrow>
                        if closed then (Fail (if err_is err ErrReaderClosed then err else Wrap [ErrReaderClosed]), r)
                        else (Fail err, latchArchive E err r))
                 | _ \<Rightarrow> (case r_fatal u of Some err \<Rightarrow> (Fail err, u) | None \<Rightarrow> (x, u)))"
      using False c run by (auto simp: NextEntry_def)
    show ?thesis
    proof (cases x)
      case (Fail err)
      obtain closed2 v where c2: "r_isClosed E u = (closed2, v)" by fastforce
      note D = r_isClosed_reader_ok [OF E u(1) c2]
      note L = latchArchive_reader_ok [OF E D(1), of err]
      have well: "err = EOF \<Longrightarrow> all_well v" using sc Fail D(6,7) by (subst D(3)) (auto simp: scanned_def all_well_def)
      have fv: "feed_to (r_feed u) (r_feed v)" using D(2) by (simp add: quiet_def)
      show ?thesis
      proof (cases closed2)
        case True
        have "err = EOF \<Longrightarrow> \<not> err_is err ErrReaderClosed" by simp
        then have "NextEntry E r = Some (Fail (if err_is err ErrReaderClosed then err else Wrap [ErrReaderClosed]), v)
            \<and> (if err_is err ErrReaderClosed then err else Wrap [ErrReaderClosed]) \<noteq> EOF"
          using N Fail c2 True by auto
        then show ?thesis
          using D(1,4) u no [of v] feed_to_trans [OF u(2) fv] by (simp add: next_result_def)
      next
        case False
        then have "NextEntry E r = Some (Fail err, latchArchive E err v)" using N Fail c2 by simp
        then show ?thesis
          using L D(1,4) u no well feed_to_trans [OF feed_to_trans [OF u(2) fv] L(3)] by (simp add: next_result_def)
      qed
    next
      case (Member i)
      have "books_ok u" using u(1) by (simp add: reader_ok_def)
      then have "r_fatal u = Some e \<Longrightarrow> e \<noteq> EOF" for e by (auto simp: books_ok_def latchable_def)
      then show ?thesis
        using u N Member sc ht(1) no [of u] by (auto simp: next_result_def scanned_def split: option.split)
    next
      case Panic
      then show ?thesis using u N no [of u] lost by (simp add: next_result_def)
    next
      case Nothing
      then show ?thesis using sc by (simp add: scanned_def)
    qed
  qed
qed

lemma r_Reset_ok:
  assumes E: "env_ok E" and ok: "reader_ok E r outs" and live: "ended \<or> sched \<noteq> []"
  shows "reader_ok E (r_Reset E k queue ended sched picks r) outs"
proof -
  have cl: "close_ok (en_close E)" using E by (simp add: env_ok_def)
  define s where "s = severActive E r"
  have b: "between E s outs" using severActive_ok(2) [OF E ok] by (simp add: s_def)
  have s: "feed_idle (r_feed s)" "coder_ok s" "\<forall>g \<in> set (f_shut (r_feed s)). g \<le> f_done (r_feed s)" "r_entry s = None"
    using b by (simp_all add: between_def reader_ok_def)
  note F = f_Reset_ok [OF cl s(1) live, of k queue picks]
  define w where "w = snd (win_BeginFile (r_win s) False)"
  have "\<exists>out p. win_rel w out p \<and> win_big w"
    using s(2) win_BeginFile_rel [of "r_win s" _ _ False w] by (fastforce simp: w_def win_BeginFile_def coder_ok_def win_big_def)
  then have c: "coder_ok (s\<lparr>r_win := w\<rparr>)" using s(2) by (auto simp: coder_ok_def)
  define t where "t = r_Reset E k queue ended sched picks r"
  have t: "r_feed t = f_Reset (en_close E) k queue ended sched picks (r_feed s)" "r_heap t = r_heap s" "r_entry t = None"
    "r_staged t = None" "r_fatal t = None" "r_lateNotFirst t = None" "r_dec50 t = r_dec50 s"
    "r_win t = win_decommit (en_decommit E) w"
    using s(4) by (simp_all add: t_def r_Reset_def Let_def s_def w_def)
  have "coder_ok t" using coder_ok_decommit [OF E c] t by (simp add: coder_ok_def)
  moreover have "\<forall>g \<in> set (f_shut (r_feed t)). g \<le> f_done (r_feed t)"
  proof
    fix g assume "g \<in> set (f_shut (r_feed t))"
    then have "g = f_done (r_feed s) \<or> g \<in> set (f_shut (r_feed s))" using F(4) t(1) by (auto simp: shut_le_def)
    then show "g \<le> f_done (r_feed t)" using F(3) s(3) t(1) by auto
  qed
  moreover have "f_damaged (r_feed t) = None" by (simp add: t(1) f_Reset_def Let_def)
  moreover have "member_ok t j" if "j < length (r_heap s)" for j
    using b that t by (auto simp: between_def reader_ok_def member_ok_def)
  ultimately have "reader_ok E t outs"
    using b t F(1) by (simp add: between_def reader_ok_def books_ok_def)
  then show ?thesis by (simp add: t_def)
qed

lemma r_Close_ok:
  assumes "env_ok E" and ok: "reader_ok E r outs"
  shows "quiet r (r_Close E k r)" and "reader_ok E (r_Close E k r) outs"
proof -
  have f: "feed_ok [] (r_feed r)" "close_ok (en_close E)" using assms by (simp_all add: reader_ok_def feed_idle_def env_ok_def)
  note C = f_Close_ok [OF f, of k]
  have "f_live (f_Close (en_close E) k (r_feed r))" using C(2,5) by (simp add: f_live_def feed_step_def)
  then show q: "quiet r (r_Close E k r)"
    unfolding r_Close_def using C by (intro quiet_feed) (simp add: feed_to_def feed_idle_def)
  show "reader_ok E (r_Close E k r) outs" by (rule reader_ok_quiet [OF ok q]) (simp add: r_Close_def)
qed

lemma new_reader_ok:
  assumes "ended \<or> sched \<noteq> []"
  shows "reader_ok E ((NewReader (new_feed queue ended sched picks))\<lparr>r_listing := l\<rparr>) []"
  using new_feed_idle [OF assms, of queue picks] win_rel_new win_big_new newDecoder50_ok
  by (auto simp: reader_ok_def NewReader_def coder_ok_def books_ok_def new_feed_def)

text \<open>
  Everything a caller can do with a Reader, in any order, whatever the volumes hold and whenever
  another goroutine closes it; with the bytes that each entry has given. A member closed early
  gives the rest of its bytes to nobody; they count.
\<close>

inductive reader_run :: "env \<Rightarrow> reader \<Rightarrow> byte list list \<Rightarrow> bool" for E where
  new: "ended \<or> sched \<noteq> [] \<Longrightarrow> reader_run E ((NewReader (new_feed queue ended sched picks))\<lparr>r_listing := l\<rparr>) []"
| passwords: "reader_run E r outs \<Longrightarrow> reader_run E (r_SetPasswords ps r) outs"
| maxWindow: "reader_run E r outs \<Longrightarrow> reader_run E (r_SetMaxWindow n r) outs"
| step: "reader_run E r outs \<Longrightarrow> NextEntry E r = Some (x, r') \<Longrightarrow> reader_run E r' (next_outs E r outs r')"
| read: "reader_run E r outs \<Longrightarrow> i < length (r_heap r) \<Longrightarrow> Entry_Read E i r n = Some (bs, e, r')
    \<Longrightarrow> reader_run E r' (outs[i := outs ! i @ bs])"
| closeEntry: "reader_run E r outs \<Longrightarrow> i < length (r_heap r) \<Longrightarrow> Entry_Close E i r = Some (x, r')
    \<Longrightarrow> reader_run E r' (outs[i := outs ! i @ drained E i r])"
| reset: "reader_run E r outs \<Longrightarrow> ended \<or> sched \<noteq> [] \<Longrightarrow> reader_run E (r_Reset E k queue ended sched picks r) outs"
| close: "reader_run E r outs \<Longrightarrow> reader_run E (r_Close E k r) outs"

lemma reader_ok_settings:
  "reader_ok E (r_SetPasswords ps r) outs = reader_ok E r outs" "reader_ok E (r_SetMaxWindow n r) outs = reader_ok E r outs"
  by (simp_all add: reader_ok_def r_SetPasswords_def r_SetMaxWindow_def coder_ok_def books_ok_def member_ok_def chain_ok_def
      packed_ok_def cong: chain.case_cong packed.case_cong)

lemma reader_run_ok:
  assumes "reader_run E r outs" and E: "env_ok E"
  shows "reader_ok E r outs"
  using assms(1)
proof (induction rule: reader_run.induct)
  case (new ended sched queue picks l)
  then show ?case by (rule new_reader_ok)
next
  case (step r outs x r')
  then show ?case using NextEntry_ok [OF E step.IH] by (simp add: returns_def)
next
  case (read r outs i n bs e r')
  then show ?case using Entry_Read_ok [OF E read.IH read.hyps(2), of n] by (simp add: returns_def entry_step_def)
next
  case (closeEntry r outs i x r')
  then show ?case using Entry_Close_ok [OF E closeEntry.IH closeEntry.hyps(2)] by (simp add: returns_def entry_step_def)
next
  case (reset r outs ended sched k queue picks)
  then show ?case using r_Reset_ok [OF E reset.IH] by simp
next
  case (close r outs k)
  then show ?case using r_Close_ok(2) [OF E close.IH] by simp
qed (simp_all add: reader_ok_settings)

end
