(* ===== verification/Sample.thy ===== *)
theory Sample
  imports Traversal
begin

section \<open>A small archive\<close>

text \<open>
  An archive of one stored file of two bytes in two volumes, and what a Reader does with it:
  the run the statements about the Reader are tried on.
\<close>

definition sample_env :: env where
  "sample_env = \<lparr>en_aes = (\<lambda>_ b. b), en_hmac = (\<lambda>_ _. []), en_date = (\<lambda>_ _ _ _ _ _. time_Unix 0 0), en_sp = None, en_arm = None,
     en_e8 = None, en_close = id, en_reserve = (\<lambda>n. Inr (replicate n 0)), en_decommit = id\<rparr>"

lemma sample_env_ok: "env_ok sample_env"
  by (simp add: env_ok_def sample_env_def close_ok_def hooks_ok_def simd_contract_None cbc_block_ok_def)

definition sample_signature :: "byte list" where
  "sample_signature = [0x52, 0x61, 0x72, 0x21, 0x1a, 0x07, 0x01, 0x00]"

definition sample_file :: "byte list" where
  "sample_file = [4, 2, 0] @ put_le32 (crc32_ieee [1, 2]) @ [0, 1, 1, 97]"

definition sample_head :: "byte \<Rightarrow> byte list" where
  "sample_head flags = (let buf = [14, 2, flags, 1] @ sample_file in put_le32 (crc32_ieee buf) @ buf)"

definition sample_h :: "u64 \<Rightarrow> blockHeader" where
  "sample_h flags = \<lparr>bl_Type = 2, bl_Flags = flags, bl_DataSize = 1, bl_Payload = sample_file, bl_Extra = [], bl_rar4 = False\<rparr>"

definition sample_part :: "bool \<Rightarrow> FileHeader" where
  "sample_part first = FileHeader_zero\<lparr>fh_Name := sanitizePath [97], fh_PackedSize := 1, fh_UnpackedSize := 2, fh_FirstBlock := first,
     fh_LastBlock := (\<not> first), fh_DictSize := 131072, fh_CRC32 := crc32_ieee [1, 2], fh_HasCRC32 := True, fh_HostOS := 1\<rparr>"

lemma sample_parse:
  "parseFileHeader d (sample_h 0x12) = (Some (sample_part True), None)"
  "parseFileHeader d (sample_h 0x0a) = (Some (sample_part False), None)"
  by (simp_all add: parseFileHeader_def sample_h_def sample_file_def sample_part_def headerTypes fileFields_def with_vint_def
      decodeVint_def parseExtraRecords_def buildFile_def FileHeader_zero_def fileFlagHasUnixMtime_def fileFlagHasCRC32_def
      fileFlagUnpSizeUnknown_def continuesPrevious_def headerFlags dictBaseSize_def fileFlagIsDir_def)

lemma sample_read:
  "readBlockHeader \<lparr>st_data = sample_head 0x12 @ rest, st_end = e\<rparr> = (Inr (sample_h 0x12), \<lparr>st_data = rest, st_end = e\<rparr>)"
  "readBlockHeader \<lparr>st_data = sample_head 0x0a @ rest, st_end = e\<rparr> = (Inr (sample_h 0x0a), \<lparr>st_data = rest, st_end = e\<rparr>)"
proof -
  have len: "length sample_file = 11" by (simp add: sample_file_def)
  have x: "extra_loop [] = Inr []" by (simp add: extra_loop.simps)
  have "readBlockHeader \<lparr>st_data = sample_head f @ rest, st_end = e\<rparr>
      = (parseBlockHeaderFields ([14, 2, f, 1] @ sample_file) 1, \<lparr>st_data = rest, st_end = e\<rparr>)" for f
    using readBlockHeader_buf [of "[14, 2, f, 1] @ sample_file" 14 1 rest e]
    by (simp add: sample_head_def decodeVint_def len maxHeaderSize_def Let_def)
  moreover have "parseBlockHeaderFields ([14, 2, 0x12, 1] @ sample_file) 1 = Inr (sample_h 0x12)"
    "parseBlockHeaderFields ([14, 2, 0x0a, 1] @ sample_file) 1 = Inr (sample_h 0x0a)"
    by (simp_all add: parseBlockHeaderFields_def with_vint_def decodeVint_def headerFlags sample_h_def len x Let_def)
  ultimately show "readBlockHeader \<lparr>st_data = sample_head 0x12 @ rest, st_end = e\<rparr> = (Inr (sample_h 0x12), \<lparr>st_data = rest, st_end = e\<rparr>)"
    "readBlockHeader \<lparr>st_data = sample_head 0x0a @ rest, st_end = e\<rparr> = (Inr (sample_h 0x0a), \<lparr>st_data = rest, st_end = e\<rparr>)"
    by simp_all
qed

subsection \<open>The run\<close>

definition sample_stream :: "byte \<Rightarrow> byte \<Rightarrow> stream" where
  "sample_stream flags b = \<lparr>st_data = sample_signature @ sample_head flags @ [b], st_end = EOF\<rparr>"

definition sample_cut :: "err \<Rightarrow> stream" where
  "sample_cut e = \<lparr>st_data = sample_signature @ sample_head 0x12, st_end = e\<rparr>"

definition sample_reader :: reader where
  "sample_reader = NewReader (new_feed [Some (sample_stream 0x12 1), Some (sample_stream 0x0a 2)] True [] [])"

definition sample_vol :: "nat \<Rightarrow> byte list \<Rightarrow> nat \<Rightarrow> volume" where
  "sample_vol i bs body = \<lparr>v_id = i, v_rc = \<lparr>st_data = bs, st_end = EOF\<rparr>, v_body = body, v_hd = None, v_err = None,
     v_rar4 = False, v_closed = False\<rparr>"

lemma pt_idle [simp]: "f_sched f = [] \<Longrightarrow> pt cl f = f"
  by (simp add: pt_def)

lemma sample_openVolume: "openVolume i (sample_stream flags b) = (Inr (sample_vol i (sample_head flags @ [b]) 0),
    \<lparr>st_data = sample_head flags @ [b], st_end = EOF\<rparr>)"
  by (simp add: openVolume_def readSignature_def sample_stream_def sample_signature_def readFull_def Let_def rar5Signature_def
      sample_vol_def)

definition sample_f1 :: feed where
  "sample_f1 = (new_feed [Some (sample_stream 0x0a 2)] True [] [])\<lparr>f_next := 1, f_vols := [sample_vol 0 (sample_head 0x12 @ [1]) 0],
     f_vol := Some 0, f_formatSeen := True, f_volIndex := 1\<rparr>"

lemma sample_open1: "openNextVolume id (r_feed sample_reader) = Some (None, sample_f1)"
  by (subst openNextVolume.simps)
    (simp add: sample_reader_def NewReader_def new_feed_def nextVolume_def takeVolume_def receive_def openStream_def stage_def
      unstage_def publishVolume_def chanClosed_def sample_openVolume Let_def sample_f1_def sample_vol_def)

lemma sample_vol_next:
  "vol_next aes (sample_vol i (sample_head 0x12 @ rest) 0) = Some (Inr (sample_h 0x12), sample_vol i rest 1)"
  "vol_next aes (sample_vol i (sample_head 0x0a @ rest) 0) = Some (Inr (sample_h 0x0a), sample_vol i rest 1)"
  by (simp_all add: vol_next_eq sample_vol_def vol_behind_def vol_header_def sample_read) (simp_all add: sample_h_def)

definition sample_f2 :: feed where
  "sample_f2 = sample_f1\<lparr>f_vols := [sample_vol 0 [1] 1]\<rparr>"

lemma sample_header1: "f_nextHeader id aes 0 sample_f1 = Some (Inr (sample_h 0x12), sample_f2)"
  by (simp add: f_nextHeader_def sample_f1_def new_feed_def sample_vol_next Let_def sample_f2_def)

definition sample_entry :: "chain entry" where
  "sample_entry = newEntry (sample_part True) (Some (Stored (Spliced \<lparr>ss_e = 0, ss_src = 0\<rparr>))) (Some 0)"

definition sample_r1 :: reader where
  "sample_r1 = sample_reader\<lparr>r_feed := sample_f2, r_win := snd (win_BeginFile (newWindow minWindowSize) False),
     r_heap := [sample_entry], r_entry := Some 0, r_fileSeen := True\<rparr>"

lemma sample_dispatch:
  "dispatch sample_env (sample_h 0x12) (sample_reader\<lparr>r_feed := sample_f2\<rparr>) = Some (Member 0, sample_r1)"
proof -
  have t: "bl_Type (sample_h 0x12) = headerTypeFile" "\<not> continuesPrevious (sample_h 0x12)" "\<not> bl_rar4 (sample_h 0x12)"
    by (simp_all add: sample_h_def headerTypes continuesPrevious_def headerFlags)
  have w: "r_win sample_reader = newWindow minWindowSize" by (simp add: sample_reader_def NewReader_def)
  have f: "f_vol sample_f2 = Some 0" "f_done sample_f2 = 0"
    by (simp_all add: sample_f2_def sample_f1_def new_feed_def)
  show ?thesis
    by (simp add: dispatch_def t sample_parse dispatchFile_def sample_part_def FileHeader_zero_def admitFormat_def readLink_def
        unpackVersionRAR5_def admitMember_def bomb_def sizeWindow_def f buildChain_def sample_r1_def sample_reader_def NewReader_def
        sample_entry_def newEntry_def win_BeginFile_def Let_def)
qed

lemma sample_next: "NextEntry sample_env sample_reader = Some (Member 0, sample_r1)"
proof -
  have r: "r_fatal sample_reader = None" "r_entry sample_reader = None" "r_staged sample_reader = None" "f_vol (r_feed sample_reader) = None"
    by (simp_all add: sample_reader_def NewReader_def new_feed_def)
  have c: "r_isClosed sample_env sample_reader = (False, sample_reader)"
    by (simp add: r_isClosed_def f_isClosed_def sample_reader_def NewReader_def new_feed_def chanClosed_def Let_def)
  have cl: "en_close sample_env = id" by (simp add: sample_env_def)
  have v: "f_vol sample_f1 = Some 0" by (simp add: sample_f1_def)
  have b: "nextBlock sample_env sample_reader = Some (Inr (sample_h 0x12), sample_reader\<lparr>r_feed := sample_f2\<rparr>)"
    by (simp add: nextBlock_def r r_openNextVolume_def cl sample_open1 r_nextHeader_def v sample_header1)
  have "nextEntry_loop sample_env sample_reader = Some (Member 0, sample_r1)"
    by (subst nextEntry_loop.simps) (simp add: b sample_dispatch)
  then have "nextEntry sample_env sample_reader = Some (Member 0, sample_r1)"
    by (simp add: nextEntry_def finishActive_def r)
  moreover have "r_fatal sample_r1 = None" by (simp add: sample_r1_def r)
  ultimately show ?thesis by (simp add: NextEntry_def c r)
qed

subsection \<open>The member is read\<close>

definition sample_r2 :: reader where
  "sample_r2 = sample_r1\<lparr>r_feed := sample_f2\<lparr>f_vols := [sample_vol 0 [] 0]\<rparr>,
     r_heap := [sample_entry\<lparr>e_crc := crc32_update 0 [1], e_remaining := 1\<rparr>]\<rparr>"

lemma sample_payload: "payload_Read (sample_vol i [b] 1) (Suc n) = Some ([b], None, sample_vol i [] 0)"
  "payload_Read (sample_vol i [] 0) n = Some ([], Some EOF, sample_vol i [] 0)"
  by (simp_all add: payload_Read_eq sample_vol_def)

lemma sample_entry_fields: "e_src sample_entry = Some (Plain (Stored (Spliced \<lparr>ss_e = 0, ss_src = 0\<rparr>)))" "e_done sample_entry = None"
  "e_cur sample_entry = sample_part True" "e_Header sample_entry = sample_part True" "e_remaining sample_entry = 2" "e_crc sample_entry = 0"
  "e_size sample_entry = 2" "e_cancelled sample_entry = Some 0"
  by (simp_all add: sample_entry_def newEntry_def e_setSource_def sample_part_def FileHeader_zero_def Let_def)

lemma sample_isClosed: "f_sched (r_feed r) = [] \<Longrightarrow> f_shut (r_feed r) = [] \<Longrightarrow> e_isClosed sample_env i r = (False, r)"
  by (simp add: e_isClosed_def chanClosed_def Let_def split: option.split)

lemma sample_fields: "f_sched sample_f2 = []" "f_shut sample_f2 = []" "f_vols sample_f2 = [sample_vol 0 [1] 1]" "f_vol sample_f2 = Some 0"
  "r_feed sample_r1 = sample_f2" "r_heap sample_r1 = [sample_entry]" "en_sp sample_env = None" "en_close sample_env = id"
  "r_entry sample_r1 = Some 0"
  by (simp_all add: sample_f2_def sample_f1_def new_feed_def sample_r1_def sample_env_def)

lemma sample_read1: "Entry_Read sample_env 0 sample_r1 8 = Some ([1], None, sample_r2)"
proof -
  have g: "e_gate False 8 sample_entry = Ask 2"
    by (simp add: e_gate_def sample_entry_fields) (simp add: sample_part_def FileHeader_zero_def)
  have p: "f_payload id 0 sample_f2 2 = Some ([1], None, sample_f2\<lparr>f_vols := [sample_vol 0 [] 0]\<rparr>)"
    using sample_payload(1) [of 0 1 1] by (simp add: f_payload_def sample_fields Let_def numeral_2_eq_2)
  have s: "splice_loop sample_env \<lparr>ss_e = 0, ss_src = 0\<rparr> sample_r1 2
      = Some ([1], None, \<lparr>ss_e = 0, ss_src = 0\<rparr>, sample_r1\<lparr>r_feed := sample_f2\<lparr>f_vols := [sample_vol 0 [] 0]\<rparr>\<rparr>)"
    by (subst splice_loop.simps) (simp add: sample_fields p Let_def)
  show ?thesis
    by (simp add: Entry_Read_def sample_isClosed sample_fields g sample_entry_fields src_chain_def chain_Read_def packed_Read_def
        splice_Read_def s heap_upd_def hash_source_def e_account_def Let_def sample_r2_def)
qed

definition sample_f3 :: feed where
  "sample_f3 = sample_f2\<lparr>f_queue := [], f_next := 2, f_log := [0], f_volIndex := 2, f_vol := Some 1,
     f_vols := [(sample_vol 0 [] 0)\<lparr>v_closed := True\<rparr>, sample_vol 1 (sample_head 0x0a @ [2]) 0]\<rparr>"

definition sample_f4 :: "byte list \<Rightarrow> nat \<Rightarrow> feed" where
  "sample_f4 bs n = sample_f3\<lparr>f_vols := [(sample_vol 0 [] 0)\<lparr>v_closed := True\<rparr>, sample_vol 1 bs n]\<rparr>"

definition sample_r3 :: reader where
  "sample_r3 = sample_r1\<lparr>r_feed := sample_f4 [] 0,
     r_heap := [sample_entry\<lparr>e_cur := sample_part False, e_src := Some (Plain (Stored (Spliced \<lparr>ss_e = 0, ss_src = 1\<rparr>))),
                  e_crc := crc32_ieee [1, 2], e_remaining := 0, e_done := Some EOF\<rparr>]\<rparr>"

lemma sample_open2: "openNextVolume id (sample_f2\<lparr>f_vols := [sample_vol 0 [] 0]\<rparr>) = Some (None, sample_f3)"
  by (subst openNextVolume.simps)
    (simp add: sample_f2_def sample_f1_def new_feed_def nextVolume_def takeVolume_def receive_def openStream_def stage_def
      unstage_def publishVolume_def chanClosed_def sample_openVolume Let_def sample_f3_def f_closeVol_def log_close_def vol_Close_def
      sample_vol_def)

lemma sample_f34: "f_vol sample_f3 = Some 1" "f_vol (sample_f4 bs n) = Some 1" "f_sched sample_f3 = []" "f_sched (sample_f4 bs n) = []"
  "f_shut sample_f3 = []" "f_shut (sample_f4 bs n) = []" "f_vols sample_f3 ! Suc 0 = sample_vol 1 (sample_head 0x0a @ [2]) 0"
  "f_vols (sample_f4 bs n) ! Suc 0 = sample_vol 1 bs n" "f_damaged sample_f3 = None"
  by (simp_all add: sample_f4_def sample_f3_def sample_fields sample_f2_def sample_f1_def new_feed_def)

lemma sample_header2: "f_nextHeader id aes (Suc 0) sample_f3 = Some (Inr (sample_h 0x0a), sample_f4 [2] 1)"
  by (simp add: f_nextHeader_def sample_f34 sample_vol_next Let_def) (simp add: sample_f4_def sample_f3_def)

lemma sample_continues: "continuation_of d (sample_part True) (sample_h 0x0a) = Part (sample_part False)"
  by (simp add: continuation_of_def sample_parse) (simp add: sample_part_def FileHeader_zero_def)

definition sample_e2 :: "chain entry" where
  "sample_e2 = sample_entry\<lparr>e_crc := crc32_update 0 [1], e_remaining := 1\<rparr>"

text \<open>The splice moves on to the second volume.\<close>

lemma sample_turn: "nextVolumePayload sample_env 0 sample_r2
    = Some (Inr (Suc 0), sample_r1\<lparr>r_feed := sample_f4 [2] (Suc 0), r_heap := [sample_e2\<lparr>e_cur := sample_part False\<rparr>]\<rparr>)"
proof -
  have f2: "r_feed sample_r2 = sample_f2\<lparr>f_vols := [sample_vol 0 [] 0]\<rparr>" "r_heap sample_r2 = [sample_e2]"
    by (simp_all add: sample_r2_def sample_e2_def)
  have h: "bl_Type (sample_h 0x0a) = headerTypeFile" by (simp add: sample_h_def headerTypes)
  have c: "e_Header sample_e2 = sample_part True" by (simp add: sample_e2_def sample_entry_fields)
  have up: "heap_upd 0 (e_advanceVolume (sample_part False)) (sample_r2\<lparr>r_feed := f\<rparr>)
      = sample_r1\<lparr>r_feed := f, r_heap := [sample_e2\<lparr>e_cur := sample_part False\<rparr>]\<rparr>" for f
    by (simp add: heap_upd_def e_advanceVolume_def f2) (simp add: sample_r2_def)
  show ?thesis
    unfolding nextVolumePayload_def r_openNextVolume_def sample_fields(8) f2(1) sample_open2
    by (simp, subst nextPayload_loop.simps)
      (simp add: r_nextHeader_def sample_f34 sample_fields sample_header2 h f2 c sample_continues up)
qed

lemma sample_read2: "Entry_Read sample_env 0 sample_r2 8 = Some ([2], Some EOF, sample_r3)"
proof -
  define e where "e = sample_e2"
  note e_def = e_def [unfolded sample_e2_def]
  define r where "r = sample_r1\<lparr>r_heap := [e\<lparr>e_cur := sample_part False\<rparr>]\<rparr>"
  have f2: "r_feed sample_r2 = sample_f2\<lparr>f_vols := [sample_vol 0 [] 0]\<rparr>" "r_heap sample_r2 = [e]" by (simp_all add: sample_r2_def e_def sample_e2_def)
  have same: "sample_r2\<lparr>r_feed := r_feed sample_r2\<rparr> = sample_r2" by simp
  have g: "e_gate False 8 e = Ask (Suc 0)"
    by (simp add: e_gate_def sample_entry_fields e_def) (simp add: sample_part_def FileHeader_zero_def)
  have p: "f_payload id 0 (r_feed sample_r2) (Suc 0) = Some ([], Some EOF, r_feed sample_r2)"
    using sample_payload(2) [of 0 1] by (simp add: f_payload_def sample_fields f2 Let_def)
  have p2: "f_payload id (Suc 0) (sample_f4 [2] (Suc 0)) (Suc 0) = Some ([2], None, sample_f4 [] 0)"
    using sample_payload(1) [of 1 2 0] by (simp add: f_payload_def sample_f34 Let_def) (simp add: sample_f4_def)
  have last: "\<not> e_lastBlock e" by (simp add: e_lastBlock_def e_def sample_entry_fields) (simp add: sample_part_def)
  have short: "\<not> r_bodyShort sample_r2" by (simp add: r_bodyShort_def f2 sample_fields vol_bodyShort_def sample_vol_def)
  have n: "nextVolumePayload sample_env 0 sample_r2 = Some (Inr (Suc 0), r\<lparr>r_feed := sample_f4 [2] (Suc 0)\<rparr>)"
    by (simp add: sample_turn r_def e_def sample_e2_def)
  have s: "splice_loop sample_env \<lparr>ss_e = 0, ss_src = 0\<rparr> sample_r2 (Suc 0)
      = Some ([2], None, \<lparr>ss_e = 0, ss_src = Suc 0\<rparr>, r\<lparr>r_feed := sample_f4 [] 0\<rparr>)"
    by (subst splice_loop.simps)
      (simp add: sample_fields p same f2(2) last short n Let_def, subst splice_loop.simps, simp add: sample_fields p2 Let_def)
  have crc: "crc32_update (crc32_update 0 [1]) [2] = crc32_ieee [1, 2]"
    unfolding crc32_ieee_def crc32_update_append [symmetric] by simp
  have last2: "fh_LastBlock (sample_part False)" "fh_HasCRC32 (sample_part False)" "fh_CRC32 (sample_part False) = crc32_ieee [1, 2]"
    "\<not> fh_UseMac (sample_part False)" "\<not> fh_HasBlake2sp (sample_part False)"
    by (simp_all add: sample_part_def FileHeader_zero_def)
  have idle: "f_sched (r_feed sample_r2) = []" "f_shut (r_feed sample_r2) = []" by (simp_all add: f2 sample_fields)
  have e: "e_src e = Some (Plain (Stored (Spliced \<lparr>ss_e = 0, ss_src = 0\<rparr>)))" by (simp add: e_def sample_entry_fields)
  have "Entry_Read sample_env 0 sample_r2 8 = Some ([2], Some EOF, r\<lparr>r_feed := sample_f4 [] 0,
      r_heap := [e\<lparr>e_cur := sample_part False, e_src := Some (Plain (Stored (Spliced \<lparr>ss_e = 0, ss_src = 1\<rparr>))),
        e_crc := crc32_ieee [1, 2], e_remaining := 0, e_done := Some EOF\<rparr>]\<rparr>)"
    by (simp add: Entry_Read_def sample_isClosed idle f2(2) g e src_chain_def chain_Read_def packed_Read_def splice_Read_def s)
      (simp add: r_def heap_upd_def sample_isClosed sample_f34 hash_source_def e_account_def e e_finish_def verifyChecksum_def
        e_short_def last2 Let_def, simp add: e_def sample_entry_fields crc verifyChecksum_def e_short_def last2 Let_def)
  then show ?thesis by (simp add: sample_r3_def r_def e_def)
qed

lemma sample_run: "reader_run sample_env sample_reader []"
proof -
  have "sample_reader = (NewReader (new_feed [Some (sample_stream 0x12 1), Some (sample_stream 0x0a 2)] True [] []))\<lparr>r_listing := False\<rparr>"
    by (simp add: sample_reader_def NewReader_def)
  then show ?thesis by (rule ssubst) (rule reader_run.new, simp)
qed

lemma sample_run1: "reader_run sample_env sample_r1 [[]]"
proof -
  have "r_isClosed sample_env sample_reader = (False, sample_reader)" "r_fatal sample_reader = None" "r_entry sample_reader = None"
    "r_heap sample_reader = []"
    by (simp_all add: r_isClosed_def f_isClosed_def sample_reader_def NewReader_def new_feed_def chanClosed_def Let_def)
  then have "next_outs sample_env sample_reader [] sample_r1 = [[]]"
    by (simp add: next_outs_def ended_outs_def sample_fields)
  then show ?thesis using reader_run.step [OF sample_run sample_next] by simp
qed

lemma sample_run2: "reader_run sample_env sample_r2 [[1]]"
  using reader_run.read [OF sample_run1 _ sample_read1] by (simp add: sample_fields)

lemma sample_run3: "reader_run sample_env sample_r3 [[1, 2]]"
  using reader_run.read [OF sample_run2 _ sample_read2] by (simp add: sample_r2_def)

text \<open>No volumes at all.\<close>

definition sample_empty :: reader where
  "sample_empty = NewReader (new_feed [] True [] [])"

lemma sample_empty_run: "reader_run sample_env sample_empty []"
proof -
  have "sample_empty = (NewReader (new_feed [] True [] []))\<lparr>r_listing := False\<rparr>" by (simp add: sample_empty_def NewReader_def)
  then show ?thesis by (rule ssubst) (rule reader_run.new, simp)
qed

lemma sample_empty_end: "\<exists>r'. NextEntry sample_env sample_empty = Some (Fail EOF, r')"
proof -
  define r where "r = sample_empty"
  have f: "r_feed r = new_feed [] True [] []" "r_fatal r = None" "r_entry r = None" "r_staged r = None" "r_lateNotFirst r = None"
    by (simp_all add: r_def sample_empty_def NewReader_def)
  have o: "openNextVolume id (r_feed r) = Some (Some ErrNoNextVolume, r_feed r)"
    by (subst openNextVolume.simps) (simp add: f new_feed_def nextVolume_def takeVolume_def receive_def chanClosed_def Let_def)
  have "r_openNextVolume sample_env r = Some (Some ErrNoNextVolume, r)" using o by (simp add: r_openNextVolume_def sample_fields)
  moreover have "f_vol (r_feed r) = None" "f_damaged (r_feed r) = None" and i: "f_sched (r_feed r) = []" "f_shut (r_feed r) = []"
    by (simp_all add: f new_feed_def)
  moreover define s where "s = r\<lparr>r_win := win_decommit (en_decommit sample_env) (r_win r)\<rparr>"
  ultimately have "nextBlock sample_env r = Some (Inl (Some EOF), s)"
    by (simp add: nextBlock_def f(4,5) Let_def)
  then have "nextEntry_loop sample_env r = Some (Fail EOF, s)" by (subst nextEntry_loop.simps) simp
  then have "nextEntry sample_env r = Some (Fail EOF, s)" by (simp add: nextEntry_def finishActive_def f(3))
  moreover have "r_isClosed sample_env r = (False, r)" "r_isClosed sample_env s = (False, s)"
    using i by (simp_all add: r_isClosed_def f_isClosed_def chanClosed_def Let_def s_def)
  ultimately show ?thesis by (simp add: NextEntry_def f(2) r_def [symmetric])
qed

text \<open>A nil stream on the channel is a failure of the archive, which is latched.\<close>

definition sample_nil :: reader where
  "sample_nil = NewReader (new_feed [None] True [] [])"

definition sample_nil1 :: reader where
  "sample_nil1 = sample_nil\<lparr>r_feed := (new_feed [] True [] [])\<lparr>f_volIndex := 1\<rparr>,
     r_fatal := Some (Other ''nil volume stream on the volumes channel'')\<rparr>"

lemma sample_nil_run: "reader_run sample_env sample_nil1 []"
proof -
  define r where "r = sample_nil"
  define s where "s = r\<lparr>r_feed := (new_feed [] True [] [])\<lparr>f_volIndex := 1\<rparr>\<rparr>"
  let ?e = "Other ''nil volume stream on the volumes channel''"
  have "r = (NewReader (new_feed [None] True [] []))\<lparr>r_listing := False\<rparr>" by (simp add: r_def sample_nil_def NewReader_def)
  then have run: "reader_run sample_env r []" by (rule ssubst) (rule reader_run.new, simp)
  have f: "r_feed r = new_feed [None] True [] []" "r_fatal r = None" "r_entry r = None" "r_staged r = None" "r_heap r = []"
    by (simp_all add: r_def sample_nil_def NewReader_def)
  have "openNextVolume id (r_feed r) = Some (Some ?e, r_feed s)"
    by (subst openNextVolume.simps) (simp add: f(1) s_def new_feed_def nextVolume_def takeVolume_def receive_def chanClosed_def Let_def)
  then have "r_openNextVolume sample_env r = Some (Some ?e, s)" by (simp add: r_openNextVolume_def sample_fields s_def)
  moreover have i: "f_vol (r_feed r) = None" "f_sched (r_feed r) = []" "f_shut (r_feed r) = []" "f_sched (r_feed s) = []"
      "f_shut (r_feed s) = []" by (simp_all add: f(1) s_def new_feed_def)
  ultimately have "nextBlock sample_env r = Some (Inl (Some ?e), s)" by (simp add: nextBlock_def f(4))
  then have "nextEntry_loop sample_env r = Some (Fail ?e, s)" by (subst nextEntry_loop.simps) simp
  then have "nextEntry sample_env r = Some (Fail ?e, s)" by (simp add: nextEntry_def finishActive_def f(3))
  moreover have c: "r_isClosed sample_env r = (False, r)" "r_isClosed sample_env s = (False, s)"
    using i by (simp_all add: r_isClosed_def f_isClosed_def chanClosed_def Let_def s_def)
  moreover have "sample_nil1 = s\<lparr>r_fatal := Some ?e\<rparr>" by (simp add: sample_nil1_def s_def r_def)
  ultimately have "NextEntry sample_env r = Some (Fail ?e, sample_nil1)" by (simp add: NextEntry_def latchArchive_def f(2))
  from reader_run.step [OF run this] show ?thesis
    by (simp add: next_outs_def c ended_outs_def f s_def sample_nil1_def sample_nil_def NewReader_def)
qed

end
