(* ===== verification/Inspect.thy ===== *)
theory Inspect
  imports Sample
begin

section \<open>Questions asked without a traversal (inspect.go, list.go)\<close>

text \<open>
  \<^verbatim>\<open>VerifyPassword\<close> and \<^verbatim>\<open>VolumeNumber\<close> walk the block headers of one stream themselves;
  \<^verbatim>\<open>ListVolume\<close> is a traversal by a Reader of its own that admits nothing. A stream may be an
  \<^verbatim>\<open>io.Seeker\<close>: then the argument \<open>sk\<close> says how \<^verbatim>\<open>Seek\<close> fails, and where it does not it moves
  on, past the end too.
\<close>

subsection \<open>The code\<close>

type_synonym seeker = "(int \<Rightarrow> stream \<Rightarrow> err option) option"

definition errInspectRAR4 :: err where
  "errInspectRAR4 = Wrap [ErrUnsupportedFormat]"

text \<open>Without \<^verbatim>\<open>Seek\<close> the payload is copied to nowhere (\<^verbatim>\<open>io.CopyN\<close>).\<close>

definition skipPayload :: "seeker \<Rightarrow> blockHeader \<Rightarrow> stream \<Rightarrow> err option \<times> stream" where
  "skipPayload sk h s =
     (if bl_DataSize h \<le> 0 then (None, s)
      else let n = nat (bl_DataSize h); s' = s\<lparr>st_data := drop n (st_data s)\<rparr>
           in case sk of
                Some fails \<Rightarrow>
                  (case fails (bl_DataSize h) s of
                     Some e \<Rightarrow> (Some (Wrap [ErrCorruptBlockHeader, e]), s)
                   | None \<Rightarrow> (None, s'))
              | None \<Rightarrow>
                  if n \<le> length (st_data s) then (None, s')
                  else (Some (Wrap [ErrCorruptBlockHeader, st_end s]), s'))"

lemma skipPayload_length: "skipPayload sk h s = (e, s') \<Longrightarrow> length (st_data s') \<le> length (st_data s)"
  by (auto simp: skipPayload_def Let_def split: if_splits option.splits)

lemma header_uses_data: "readBlockHeader s = (Inr h, s') \<Longrightarrow> length (st_data s') < length (st_data s)"
  using readBlockHeader_taken [of s "Inr h" s'] taken_length [of 7 s s'] by auto

text \<open>Cut inside a payload, what is reported wraps the end of the stream.\<close>

lemma skipPayload_cut:
  "length (st_data s) < nat (bl_DataSize h) \<Longrightarrow> fst (skipPayload None h s) = Some (Wrap [ErrCorruptBlockHeader, st_end s])"
  by (simp add: skipPayload_def Let_def)

text \<open>The walks read at least a header in each turn, so they end.\<close>

function (sequential) verify_walk ::
  "hmac \<Rightarrow> localDate \<Rightarrow> seeker \<Rightarrow> byte list \<Rightarrow> stream \<Rightarrow> bool \<times> bool \<times> err option" where
  "verify_walk hmac date sk password s =
     (case readBlockHeader s of
        (Inl e, _) \<Rightarrow> (False, False, Some (if err_is e EOF then Wrap [ErrUnexpectedEOF] else e))
      | (Inr h, s1) \<Rightarrow>
          if bl_Type h = headerTypeEncryption
          then (case parseCryptHeader h of
                  Inl e \<Rightarrow> (False, False, Some e)
                | Inr ch \<Rightarrow> verifyCryptHeaderPassword hmac ch password)
          else if bl_Type h = headerTypeFile \<or> bl_Type h = headerTypeService
          then (case parseFileHeader date h of
                  (_, Some e) \<Rightarrow> (False, False, Some e)
                | (p, None) \<Rightarrow>
                    (case (if fh_Encrypted (the p) then verifyFileHeaderPassword hmac (the p) password else (False, False, None)) of
                       (verified, hasCheck, e) \<Rightarrow>
                         if e \<noteq> None \<or> hasCheck then (verified, hasCheck, e)
                         else (case skipPayload sk h s1 of
                                 (Some e, _) \<Rightarrow> (False, False, Some e)
                               | (None, s2) \<Rightarrow> verify_walk hmac date sk password s2)))
          else if bl_Type h = headerTypeEnd then (False, False, None)
          else (case skipPayload sk h s1 of
                  (Some e, _) \<Rightarrow> (False, False, Some e)
                | (None, s2) \<Rightarrow> verify_walk hmac date sk password s2))"
  by pat_completeness auto
termination
  by (relation "measure (\<lambda>(hmac, date, sk, password, s). length (st_data s))")
    (simp, metis (no_types, lifting) case_prod_conv header_uses_data in_measure le_less_trans skipPayload_length,
      metis (no_types, lifting) case_prod_conv header_uses_data in_measure le_less_trans skipPayload_length)

definition VerifyPassword :: "hmac \<Rightarrow> localDate \<Rightarrow> seeker \<Rightarrow> stream \<Rightarrow> byte list \<Rightarrow> bool \<times> bool \<times> err option" where
  "VerifyPassword hmac date sk s password =
     (case readSignature s of
        (Inl e, _) \<Rightarrow> (False, False, Some e)
      | (Inr rar4, s) \<Rightarrow> if rar4 then (False, False, Some errInspectRAR4) else verify_walk hmac date sk password s)"

function (sequential) number_walk :: "seeker \<Rightarrow> stream \<Rightarrow> int \<times> bool \<times> err option" where
  "number_walk sk s =
     (case readBlockHeader s of
        (Inl e, _) \<Rightarrow> (0, False, Some (if err_is e EOF then Wrap [ErrUnexpectedEOF] else e))
      | (Inr h, s1) \<Rightarrow>
          if bl_Type h = headerTypeArchive
          then (case parseArchiveHeader h of
                  Inl e \<Rightarrow> (0, False, Some (Wrap [ErrCorruptArchiveHeader, e]))
                | Inr ah \<Rightarrow>
                    if \<not> ah_MultiVolume ah then (0, False, None)
                    else if ah_VolumeNumber ah < 0 then (0, True, None)
                    else (ah_VolumeNumber ah, True, None))
          else if bl_Type h = headerTypeEncryption then (0, False, Some (Wrap [ErrPasswordRequired]))
          else if bl_Type h = headerTypeFile \<or> bl_Type h = headerTypeService \<or> bl_Type h = headerTypeEnd
          then (0, False, Some (Wrap [ErrCorruptArchiveHeader]))
          else (case skipPayload sk h s1 of
                  (Some e, _) \<Rightarrow> (0, False, Some e)
                | (None, s2) \<Rightarrow> number_walk sk s2))"
  by pat_completeness auto
termination
  by (relation "measure (\<lambda>(sk, s). length (st_data s))")
    (simp, metis (no_types, lifting) case_prod_conv header_uses_data in_measure le_less_trans skipPayload_length)

definition VolumeNumber :: "seeker \<Rightarrow> stream \<Rightarrow> int \<times> bool \<times> err option" where
  "VolumeNumber sk s =
     (case readSignature s of
        (Inl e, _) \<Rightarrow> (0, False, Some e)
      | (Inr rar4, s) \<Rightarrow> if rar4 then (0, False, Some errInspectRAR4) else number_walk sk s)"

declare verify_walk.simps [simp del] number_walk.simps [simp del]

text \<open>
  The loop of \<^verbatim>\<open>ListVolume\<close> with what it yields: a header or none, with an error or none.
  \<open>wants k\<close> is what \<^verbatim>\<open>yield\<close> returns the \<open>k\<close>-th time.
\<close>

partial_function (option) list_loop ::
  "env \<Rightarrow> (nat \<Rightarrow> bool) \<Rightarrow> nat \<Rightarrow> reader \<Rightarrow> ((FileHeader option \<times> err option) list \<times> reader) option" where
  "list_loop E wants k r =
     Option.bind (NextEntry E r) (\<lambda>(x, r). case x of
        Fail err \<Rightarrow> Some (if err_is err EOF then [] else [(None, Some err)], r)
      | Member i \<Rightarrow>
          Option.bind (Entry_Close E i r) (\<lambda>(verdict, r).
            let refusal = (case verdict of
                             None \<Rightarrow> None
                           | Some v \<Rightarrow> if err_is v errListedOnly then None else verdict);
                y = (Some (e_Header (r_heap r ! i)), refusal)
            in if wants k then Option.bind (list_loop E wants (k + 1) r) (\<lambda>(ys, r). Some (y # ys, r))
               else Some ([y], r))
      | _ \<Rightarrow> None)"

text \<open>The channel holds the one stream, or \<^verbatim>\<open>nil\<close> for a nil reader, and is closed behind it; the Reader is closed in the end.\<close>

definition ListVolume :: "env \<Rightarrow> (nat \<Rightarrow> bool) \<Rightarrow> stream option \<Rightarrow> ((FileHeader option \<times> err option) list \<times> reader) option" where
  "ListVolume E wants s =
     Option.bind (list_loop (E\<lparr>en_close := id\<rparr>) wants 0 ((NewReader (new_feed [s] True [] []))\<lparr>r_listing := True\<rparr>))
       (\<lambda>(ys, r). Some (ys, r_Close (E\<lparr>en_close := id\<rparr>) 0 r))"

subsection \<open>The blocks of a volume\<close>

text \<open>The headers that can be read, each behind the payload of the one before.\<close>

lemma skipPayload_drop:
  "skipPayload sk h s = (None, s') \<Longrightarrow> s' = s\<lparr>st_data := drop (nat (bl_DataSize h)) (st_data s)\<rparr>"
  by (auto simp: skipPayload_def Let_def split: if_splits option.splits)

function blocks :: "stream \<Rightarrow> blockHeader list" where
  "blocks s =
     (case readBlockHeader s of
        (Inl _, _) \<Rightarrow> []
      | (Inr h, s') \<Rightarrow> h # blocks (s'\<lparr>st_data := drop (nat (bl_DataSize h)) (st_data s')\<rparr>))"
  by pat_completeness auto
termination
  by (relation "measure (\<lambda>s. length (st_data s))")
    (simp, metis (no_types, lifting) diff_le_self header_uses_data in_measure le_less_trans length_drop stream.select_convs(1)
      stream.surjective stream.update_convs(1))

declare blocks.simps [simp del]

text \<open>The key derivation's count and salt and the check value a block records, \<open>[]\<close> for none.\<close>

definition encryption_of :: "localDate \<Rightarrow> blockHeader \<Rightarrow> (nat \<times> byte list \<times> byte list) option" where
  "encryption_of date h =
     (if bl_Type h = headerTypeEncryption
      then (case parseCryptHeader h of Inr ch \<Rightarrow> Some (ch_KdfCount ch, ch_Salt ch, ch_CheckValue ch) | Inl _ \<Rightarrow> None)
      else if bl_Type h = headerTypeFile \<or> bl_Type h = headerTypeService
      then (case parseFileHeader date h of
              (Some fh, None) \<Rightarrow> if fh_Encrypted fh then Some (fh_KdfCount fh, fh_Salt fh, fh_EncCheck fh) else None
            | _ \<Rightarrow> None)
      else None)"

text \<open>A block that does not answer: no end, no encryption header, and no check value.\<close>

definition no_answer :: "localDate \<Rightarrow> blockHeader \<Rightarrow> bool" where
  "no_answer date h \<longleftrightarrow>
     bl_Type h \<noteq> headerTypeEncryption \<and> bl_Type h \<noteq> headerTypeEnd
     \<and> (bl_Type h = headerTypeFile \<or> bl_Type h = headerTypeService \<longrightarrow> snd (parseFileHeader date h) = None)
     \<and> (\<forall>k salt cv. encryption_of date h = Some (k, salt, cv) \<longrightarrow> cv = [])"

definition answers :: "hmac \<Rightarrow> localDate \<Rightarrow> byte list \<Rightarrow> bool \<Rightarrow> bool \<Rightarrow> blockHeader \<Rightarrow> bool" where
  "answers hmac date password ok check h \<longleftrightarrow>
     (if check
      then \<exists>k salt cv. encryption_of date h = Some (k, salt, cv) \<and> cv \<noteq> [] \<and> password \<noteq> [] \<and> k \<le> maxKdfCount
        \<and> (ok \<longleftrightarrow> verifyEncCheck (snd (pbkdf2HmacSha256 hmac password salt (2 ^ k))) cv = None)
      else \<not> ok \<and> (bl_Type h = headerTypeEnd
        \<or> bl_Type h = headerTypeEncryption \<and> (\<exists>k salt. encryption_of date h = Some (k, salt, []))))"

lemma verifyPasswordCheck_answer:
  "verifyPasswordCheck hmac k salt cv password = (ok, check, None) \<Longrightarrow>
     if check then cv \<noteq> [] \<and> password \<noteq> [] \<and> k \<le> maxKdfCount
        \<and> (ok \<longleftrightarrow> verifyEncCheck (snd (pbkdf2HmacSha256 hmac password salt (2 ^ k))) cv = None)
     else \<not> ok \<and> cv = []"
  by (auto simp: verifyPasswordCheck_def split: if_splits option.splits)

lemma parse_some: "parseFileHeader date h = (p, None) \<Longrightarrow> \<exists>fh. p = Some fh"
  by (auto simp: parseFileHeader_def parseFileHeader4_def fileTail4_def Let_def split: if_splits sum.splits prod.splits)

lemma skipped_shorter:
  "readBlockHeader s = (Inr h, s1) \<Longrightarrow> skipPayload sk h s1 = (e, s2) \<Longrightarrow> length (st_data s2) < length (st_data s)"
  using header_uses_data skipPayload_length le_less_trans by blast

lemma verify_walk_answer:
  "verify_walk hmac date sk password s = (ok, check, None) \<Longrightarrow>
     \<exists>hs h rest. blocks s = hs @ h # rest \<and> (\<forall>b \<in> set hs. no_answer date b) \<and> answers hmac date password ok check h"
proof (induction "length (st_data s)" arbitrary: s rule: less_induct)
  case less
  obtain res s1 where hd: "readBlockHeader s = (res, s1)" by fastforce
  note walk = less.prems [unfolded verify_walk.simps [of _ _ _ _ s] hd]
  show ?case
  proof (cases res)
    case (Inl e)
    then show ?thesis using walk by simp
  next
    case (Inr h)
    have bl: "blocks s = h # blocks (s1\<lparr>st_data := drop (nat (bl_DataSize h)) (st_data s1)\<rparr>)"
      using hd Inr by (simp add: blocks.simps [of s])
    have here: ?thesis if "answers hmac date password ok check h"
      using that bl by (intro exI [of _ "[]"]) auto
    obtain e2 s2 where sk: "skipPayload sk h s1 = (e2, s2)" by fastforce
    have go: ?thesis
      if n: "no_answer date h" and k: "e2 = None" and w: "verify_walk hmac date sk password s2 = (ok, check, None)"
    proof -
      obtain hs h2 rest where "blocks s2 = hs @ h2 # rest" "\<forall>b \<in> set hs. no_answer date b" "answers hmac date password ok check h2"
        using less.hyps [OF skipped_shorter [OF hd [unfolded Inr] sk] w] by blast
      then show ?thesis
        using bl n skipPayload_drop sk k by (intro exI [of _ "h # hs"] exI [of _ h2] exI [of _ rest]) simp
    qed
    consider (enc) "bl_Type h = headerTypeEncryption"
      | (member) "bl_Type h \<noteq> headerTypeEncryption" "bl_Type h \<noteq> headerTypeEnd" "bl_Type h = headerTypeFile \<or> bl_Type h = headerTypeService"
      | (stop) "bl_Type h = headerTypeEnd"
      | (other) "bl_Type h \<noteq> headerTypeEncryption" "bl_Type h \<noteq> headerTypeEnd" "\<not> (bl_Type h = headerTypeFile \<or> bl_Type h = headerTypeService)"
      by (auto simp: headerTypes)
    then show ?thesis
    proof cases
      case enc
      obtain ch where ch: "parseCryptHeader h = Inr ch" "verifyCryptHeaderPassword hmac ch password = (ok, check, None)"
        using walk Inr enc by (cases "parseCryptHeader h") simp_all
      have "encryption_of date h = Some (ch_KdfCount ch, ch_Salt ch, ch_CheckValue ch)" using enc ch(1) by (simp add: encryption_of_def)
      with verifyPasswordCheck_answer [OF ch(2) [unfolded verifyCryptHeaderPassword_def]] enc
      show ?thesis by (intro here) (auto simp: answers_def)
    next
      case member
      obtain fh where fh: "parseFileHeader date h = (Some fh, None)"
        using walk Inr member parse_some [of date h] by (cases "parseFileHeader date h"; cases "snd (parseFileHeader date h)") auto
      obtain v c e where v: "(if fh_Encrypted fh then verifyFileHeaderPassword hmac fh password else (False, False, None)) = (v, c, e)"
        by (metis prod_cases3)
      have enc: "encryption_of date h = (if fh_Encrypted fh then Some (fh_KdfCount fh, fh_Salt fh, fh_EncCheck fh) else None)"
        using member fh by (simp add: encryption_of_def)
      have rest: "if e \<noteq> None \<or> c then (v, c, e) = (ok, check, None) else e2 = None \<and> verify_walk hmac date sk password s2 = (ok, check, None)"
        using walk Inr member fh v sk by (auto simp: headerTypes split: if_splits option.splits)
      then have e: "e = None" by (auto split: if_splits)
      note A = verifyPasswordCheck_answer [of hmac "fh_KdfCount fh" "fh_Salt fh" "fh_EncCheck fh" password v c]
      show ?thesis
      proof (cases c)
        case True
        then have "fh_Encrypted fh" using v by (auto split: if_splits)
        then show ?thesis
          using A v rest True e enc by (intro here) (simp add: answers_def verifyFileHeaderPassword_def)
      next
        case False
        have "no_answer date h"
          using A v False e enc member fh by (auto simp: no_answer_def verifyFileHeaderPassword_def split: if_splits)
        then show ?thesis using rest False e by (intro go) simp_all
      qed
    next
      case stop
      then show ?thesis using walk Inr by (intro here) (simp add: answers_def headerTypes)
    next
      case other
      have "no_answer date h" using other by (simp add: no_answer_def encryption_of_def)
      moreover have "e2 = None \<and> verify_walk hmac date sk password s2 = (ok, check, None)"
        using walk Inr other sk by (simp split: option.splits)
      ultimately show ?thesis using go by simp
    qed
  qed
qed

text \<open>C18. When \<open>VerifyPassword\<close> answers, the archive says so: the stream starts with a RAR5
  signature, and the answer is that of a block which has been reached over blocks that say
  nothing, none of them an end header, an encryption header or a member with a check value.
  If it reports a check value, that block records one, and the password is verified exactly
  when the key derived from it matches; if it reports none, the block is the end header of the
  archive or an encryption header without a check value. A stream that is cut before is never
  taken for an archive with nothing to verify.\<close>

theorem verify_password_answer:
  assumes "VerifyPassword hmac date sk s password = (ok, check, None)"
  shows "\<exists>s1 hs h rest. readSignature s = (Inr False, s1) \<and> blocks s1 = hs @ h # rest
     \<and> (\<forall>b \<in> set hs. no_answer date b) \<and> answers hmac date password ok check h"
proof -
  obtain s1 where "readSignature s = (Inr False, s1)" "verify_walk hmac date sk password s1 = (ok, check, None)"
    using assms by (auto simp: VerifyPassword_def split: prod.splits sum.splits if_splits)
  then show ?thesis using verify_walk_answer by blast
qed

definition demo_end :: stream where
  "demo_end = \<lparr>st_data = rar5Signature @ put_le32 (crc32_ieee [2, 5, 0]) @ [2, 5, 0], st_end = EOF\<rparr>"

lemma demo_end_read:
  "readSignature demo_end = (Inr False, \<lparr>st_data = put_le32 (crc32_ieee [2, 5, 0]) @ [2, 5, 0], st_end = EOF\<rparr>)"
  "readBlockHeader \<lparr>st_data = put_le32 (crc32_ieee [2, 5, 0]) @ [2, 5, 0], st_end = EOF\<rparr>
    = (Inr \<lparr>bl_Type = 5, bl_Flags = 0, bl_DataSize = 0, bl_Payload = [], bl_Extra = [], bl_rar4 = False\<rparr>, \<lparr>st_data = [], st_end = EOF\<rparr>)"
proof -
  show "readSignature demo_end = (Inr False, \<lparr>st_data = put_le32 (crc32_ieee [2, 5, 0]) @ [2, 5, 0], st_end = EOF\<rparr>)"
    by (simp add: readSignature_def demo_end_def rar5Signature_def readFull_def Let_def)
  have "parseBlockHeaderFields [2, 5, 0] 1
      = Inr \<lparr>bl_Type = 5, bl_Flags = 0, bl_DataSize = 0, bl_Payload = [], bl_Extra = [], bl_rar4 = False\<rparr>"
    by (simp add: parseBlockHeaderFields_def with_vint_def decodeVint_def headerFlags extra_loop.simps Let_def)
  then show "readBlockHeader \<lparr>st_data = put_le32 (crc32_ieee [2, 5, 0]) @ [2, 5, 0], st_end = EOF\<rparr>
    = (Inr \<lparr>bl_Type = 5, bl_Flags = 0, bl_DataSize = 0, bl_Payload = [], bl_Extra = [], bl_rar4 = False\<rparr>, \<lparr>st_data = [], st_end = EOF\<rparr>)"
    using readBlockHeader_buf [of "[2, 5, 0]" 2 1 "[]" EOF] by (simp add: decodeVint_def maxHeaderSize_def Let_def)
qed

theorem verify_password_answer_witness:
  "\<exists>s1 hs h rest. readSignature demo_end = (Inr False, s1) \<and> blocks s1 = hs @ h # rest
     \<and> (\<forall>b \<in> set hs. no_answer (\<lambda>_. undefined) b) \<and> answers (\<lambda>_ _. []) (\<lambda>_. undefined) [1] False False h"
proof -
  have "VerifyPassword (\<lambda>_ _. []) (\<lambda>_. undefined) None demo_end [1] = (False, False, None)"
    by (simp add: VerifyPassword_def demo_end_read, subst verify_walk.simps) (simp add: demo_end_read headerTypes)
  then show ?thesis by (rule verify_password_answer)
qed

subsection \<open>A Reader in its only volume\<close>

text \<open>The next header of a volume behind \<open>n\<close> bytes of payload, and what is left of the stream.\<close>

definition block_behind :: "nat \<Rightarrow> stream \<Rightarrow> (err + blockHeader) \<times> stream" where
  "block_behind n s =
     (if length (st_data s) < n then (Inl (if st_end s = EOF then Wrap [ErrUnexpectedEOF] else st_end s), s)
      else readBlockHeader (s\<lparr>st_data := drop n (st_data s)\<rparr>))"

lemma block_behind_shorter: "block_behind n s = (Inr h, s1) \<Longrightarrow> length (st_data s1) < length (st_data s)"
  using header_uses_data by (fastforce simp: block_behind_def split: if_splits)

text \<open>The feed of a Reader that nobody closes, whose first volume is open there.\<close>

definition at_block :: "feed \<Rightarrow> nat \<Rightarrow> stream \<Rightarrow> bool" where
  "at_block f n s \<longleftrightarrow> f_sched f = [] \<and> f_shut f = [] \<and> f_vol f = Some 0
     \<and> (\<exists>v. f_vols f = [v] \<and> v_err v = None \<and> \<not> v_rar4 v \<and> v_hd v = None \<and> v_body v = n \<and> v_rc v = s)"

lemma at_block_header:
  assumes "at_block (r_feed r) n s" and "block_behind n s = (x, s1)"
  obtains w where "r_nextHeader E r = Some (x, r\<lparr>r_feed := (r_feed r)\<lparr>f_vols := [w]\<rparr>\<rparr>)"
    and "\<And>h. x = Inr h \<Longrightarrow> at_block ((r_feed r)\<lparr>f_vols := [w]\<rparr>) (nat (bl_DataSize h)) s1"
proof -
  obtain v where v: "f_vols (r_feed r) = [v]" "v_err v = None" "\<not> v_rar4 v" "v_hd v = None" "v_body v = n" "v_rc v = s"
      and f: "f_sched (r_feed r) = []" "f_shut (r_feed r) = []" "f_vol (r_feed r) = Some 0"
    using assms(1) by (auto simp: at_block_def)
  have "\<exists>w. vol_next (en_aes E) v = Some (x, w) \<and> (\<forall>h. x = Inr h \<longrightarrow> v_err w = None \<and> \<not> v_rar4 w \<and> v_hd w = None
      \<and> v_body w = nat (bl_DataSize h) \<and> v_rc w = s1)"
  proof (cases "length (st_data s) < n")
    case True
    then show ?thesis using v assms(2) by (auto simp: vol_next_eq block_behind_def Let_def)
  next
    case False
    then have "vol_header (en_aes E) (vol_behind v) = (x, s1)"
      using v assms(2) by (simp add: vol_header_def block_behind_def) (simp add: vol_behind_def)
    then show ?thesis using v False by (cases x) (simp_all add: vol_next_eq)
  qed
  then obtain w where w: "vol_next (en_aes E) v = Some (x, w)"
      "\<And>h. x = Inr h \<Longrightarrow> v_err w = None \<and> \<not> v_rar4 w \<and> v_hd w = None \<and> v_body w = nat (bl_DataSize h) \<and> v_rc w = s1" by blast
  show thesis
    by (rule that [of w])
      (use v(1) f w in \<open>simp_all add: r_nextHeader_def f_nextHeader_def pt_def Let_def at_block_def\<close>)
qed

text \<open>A stream that is RAR5, opened as the first volume.\<close>

lemma first_open:
  assumes "readSignature s = (Inr False, s1)"
  obtains f where "openNextVolume cl (new_feed [Some s] ended [] []) = Some (None, f)" "at_block f 0 s1" "f_volIndex f = 1"
    "f_queue f = []" "f_ended f = ended" "f_damaged f = None"
proof -
  define v where "v = \<lparr>v_id = 0, v_rc = s1, v_body = 0, v_hd = None, v_err = None, v_rar4 = False, v_closed = False\<rparr>"
  define f where "f = (new_feed [] ended [] [])\<lparr>f_next := 1, f_vols := [v], f_vol := Some 0, f_formatSeen := True, f_volIndex := 1\<rparr>"
  show thesis
  proof (rule that)
    show "openNextVolume cl (new_feed [Some s] ended [] []) = Some (None, f)"
      by (subst openNextVolume.simps)
        (simp add: new_feed_def nextVolume_def takeVolume_def receive_def openStream_def stage_def
          unstage_def publishVolume_def chanClosed_def openVolume_def assms Let_def f_def v_def pt_def)
  qed (simp_all add: at_block_def f_def v_def new_feed_def)
qed

lemma nextBlock_first:
  assumes "r_staged r = None" and "f_vol (r_feed r) = None" and "openNextVolume (en_close E) (r_feed r) = Some (None, f)"
    and "f_vol f \<noteq> None"
  shows "nextEntry_loop E r = nextEntry_loop E (r\<lparr>r_feed := f\<rparr>)"
proof -
  have "nextBlock E r = nextBlock E (r\<lparr>r_feed := f\<rparr>)"
    using assms by (auto simp: nextBlock_def r_openNextVolume_def)
  then show ?thesis by (subst (1 2) nextEntry_loop.simps) simp
qed

subsection \<open>What a listing yields\<close>

text \<open>
  The listing as a walk over the blocks: \<open>n\<close> bytes of payload are before the next block, and
  \<open>solid\<close> is what archive headers have said. An error ends it, if it is not the end.
\<close>

definition ends_with :: "err \<Rightarrow> (FileHeader option \<times> err option) list" where
  "ends_with e = (if err_is e EOF then [] else [(None, Some e)])"

definition crypt_refusal :: "blockHeader \<Rightarrow> err" where
  "crypt_refusal h =
     (case parseCryptHeader h of
        Inl e \<Rightarrow> Wrap [if err_is e ErrUnknownEncryptMethod then ErrUnsupportedEncryptionVersion else ErrCorruptArchiveHeader, e]
      | Inr _ \<Rightarrow> ErrPasswordRequired)"

definition refusal :: "err \<Rightarrow> err option" where
  "refusal e = (if err_is e errListedOnly then None else Some e)"

text \<open>The header of the member a block announces, and why it could not be extracted if that is known.\<close>

definition member_of :: "localDate \<Rightarrow> blockHeader \<Rightarrow> (FileHeader \<times> err option) option" where
  "member_of date h =
     (if bl_Type h = headerTypeFile
      then case parseFileHeader date h of
             (Some fh, e) \<Rightarrow>
               if fh_FirstBlock fh
               then Some (fh, Option.bind e refusal)
               else None
           | (None, _) \<Rightarrow> None
      else None)"

text \<open>
  Which errors end a listing without a word: those that match \<^verbatim>\<open>io.EOF\<close>, which is what the code
  asks; and those among them that come where a block could begin, the only end of a volume that
  is not one inside a block.
\<close>

definition quiet_eof :: "nat \<Rightarrow> stream \<Rightarrow> err \<Rightarrow> bool" where
  "quiet_eof n s e \<longleftrightarrow> err_is e EOF"

definition quiet_boundary :: "nat \<Rightarrow> stream \<Rightarrow> err \<Rightarrow> bool" where
  "quiet_boundary n s e \<longleftrightarrow> length (st_data s) = n \<and> err_is e EOF"

function listed :: "(nat \<Rightarrow> stream \<Rightarrow> err \<Rightarrow> bool) \<Rightarrow> localDate \<Rightarrow> bool option \<Rightarrow> nat \<Rightarrow> stream
    \<Rightarrow> (FileHeader option \<times> err option) list" where
  "listed silent date solid n s =
     (case block_behind n s of
        (Inl e, _) \<Rightarrow> if silent n s e then [] else [(None, Some e)]
      | (Inr h, s1) \<Rightarrow>
          if bl_Type h = headerTypeArchive
          then (case parseArchiveHeader h of
                  Inl e \<Rightarrow> [(None, Some (if err_is e ErrUnsupportedFormat then e else Wrap [ErrCorruptArchiveHeader, e]))]
                | Inr ah \<Rightarrow>
                    if solid = Some (\<not> ah_Solid ah) then [(None, Some (Wrap [ErrCorruptArchiveHeader]))]
                    else listed silent date (Some (ah_Solid ah)) (nat (bl_DataSize h)) s1)
          else if bl_Type h = headerTypeEncryption then [(None, Some (crypt_refusal h))]
          else if bl_Type h = headerTypeEnd then []
          else (case member_of date h of Some (fh, e) \<Rightarrow> [(Some fh, e)] | None \<Rightarrow> [])
               @ listed silent date solid (nat (bl_DataSize h)) s1)"
  by pat_completeness auto
termination
  by (relation "measure (\<lambda>(silent, date, solid, n, s). length (st_data s))")
    (simp, (metis (no_types, lifting) block_behind_shorter case_prod_conv in_measure)+)

declare listed.simps [simp del]

text \<open>The two differ only on a stream whose end wraps \<^verbatim>\<open>io.EOF\<close>.\<close>

lemma block_behind_eof:
  assumes "block_behind n s = (Inl e, s1)" and "err_is e EOF" and "st_end s = EOF \<or> \<not> err_is (st_end s) EOF"
  shows "length (st_data s) = n"
proof (cases "length (st_data s) < n")
  case True
  then show ?thesis using assms by (auto simp: block_behind_def split: if_splits)
next
  case False
  then have "drop n (st_data s) = []"
    using assms(1,2) readBlockHeader_cut [of "s\<lparr>st_data := drop n (st_data s)\<rparr>" e s1] by (simp add: block_behind_def)
  then show ?thesis using False by simp
qed

lemma block_behind_end: "block_behind n s = (Inr h, s1) \<Longrightarrow> st_end s1 = st_end s"
  using readBlockHeader_taken [of "s\<lparr>st_data := drop n (st_data s)\<rparr>" "Inr h" s1]
  by (auto simp: block_behind_def taken_def split: if_splits)

lemma quiet_rules_agree:
  assumes "st_end s = EOF \<or> \<not> err_is (st_end s) EOF"
  shows "listed quiet_eof date solid n s = listed quiet_boundary date solid n s"
  using assms
proof (induction "length (st_data s)" arbitrary: solid n s rule: less_induct)
  case less
  obtain x s1 where x: "block_behind n s = (x, s1)" by fastforce
  note eqs = listed.simps [of quiet_eof date solid n s] listed.simps [of quiet_boundary date solid n s]
  show ?case
  proof (cases x)
    case (Inl e)
    then have "quiet_eof n s e = quiet_boundary n s e"
      using block_behind_eof [OF _ _ less.prems] x by (auto simp: quiet_eof_def quiet_boundary_def)
    then show ?thesis using x Inl by (simp add: eqs)
  next
    case (Inr h)
    have "listed quiet_eof date so k s1 = listed quiet_boundary date so k s1" for so k
      using less.hyps [of s1] less.prems block_behind_shorter [of n s h s1] block_behind_end [of n s h s1] x Inr by simp
    then show ?thesis using x Inr by (simp add: eqs split: sum.split)
  qed
qed

lemma readSignature_end: "readSignature s = (x, s1) \<Longrightarrow> st_end s1 = st_end s"
  using readFull_taken by (fastforce simp: readSignature_def taken_def Let_def split: prod.splits option.splits if_splits)

text \<open>The caller's \<^verbatim>\<open>yield\<close> may stop it.\<close>

fun until :: "(nat \<Rightarrow> bool) \<Rightarrow> nat \<Rightarrow> 'a list \<Rightarrow> 'a list" where
  "until wants k [] = []"
| "until wants k (y # ys) = y # (if wants k then until wants (k + 1) ys else [])"

text \<open>A Reader that lists and has come to a block, and what a listing leaves alone.\<close>

definition solid_known :: "reader \<Rightarrow> bool option" where
  "solid_known r = (if r_solidSeen r then Some (r_solid r) else None)"

definition no_decoding :: "reader \<Rightarrow> reader \<Rightarrow> bool" where
  "no_decoding r r' \<longleftrightarrow> r_dec50 r' = r_dec50 r \<and> win_size (r_win r') = win_size (r_win r) \<and> r_entry r' = r_entry r"

definition unshut :: "reader \<Rightarrow> bool" where
  "unshut r \<longleftrightarrow> f_sched (r_feed r) = [] \<and> f_shut (r_feed r) = []"

definition listing_at :: "reader \<Rightarrow> bool option \<Rightarrow> nat \<Rightarrow> stream \<Rightarrow> bool" where
  "listing_at r solid n s \<longleftrightarrow> at_block (r_feed r) n s \<and> r_listing r \<and> r_staged r = None \<and> r_fatal r = None \<and> r_entry r = None
     \<and> r_passwords r = [] \<and> r_resolved r = None \<and> r_lateNotFirst r = None \<and> solid_known r = solid
     \<and> f_queue (r_feed r) = [] \<and> f_ended (r_feed r) \<and> f_damaged (r_feed r) = None"

lemma no_decoding_simps [simp]: "no_decoding r r" "no_decoding r (markIncomplete s) = no_decoding r s"
  "no_decoding r (s\<lparr>r_feed := f\<rparr>) = no_decoding r s" "no_decoding r (s\<lparr>r_heap := g\<rparr>) = no_decoding r s"
  "no_decoding r (s\<lparr>r_fileSeen := b\<rparr>) = no_decoding r s"
  by (simp_all add: no_decoding_def markIncomplete_def win_MarkIncomplete_def)

lemma no_decoding_trans: "no_decoding r s \<Longrightarrow> no_decoding s t \<Longrightarrow> no_decoding r t"
  by (simp add: no_decoding_def)

lemma listing_at_simps [simp]: "listing_at (markIncomplete r) solid n s = listing_at r solid n s"
  "listing_at (r\<lparr>r_fileSeen := b\<rparr>) solid n s = listing_at r solid n s"
  "listing_at (r\<lparr>r_heap := g\<rparr>) solid n s = listing_at r solid n s"
  by (simp_all add: listing_at_def markIncomplete_def solid_known_def)

lemma closeCurrentVolume_fields:
  assumes "f_sched f = []"
  shows "f_sched (closeCurrentVolume cl f) = []" "f_shut (closeCurrentVolume cl f) = f_shut f" "f_vol (closeCurrentVolume cl f) = None"
    "f_queue (closeCurrentVolume cl f) = f_queue f" "f_ended (closeCurrentVolume cl f) = f_ended f"
    "f_damaged (closeCurrentVolume cl f) = f_damaged f"
  using assms by (simp_all add: closeCurrentVolume_def takeVolume_def pt_def f_closeVol_def log_close_def Let_def split: option.split)

lemma out_of_volumes:
  assumes "f_sched f = []" "f_shut f = []" "f_vol f = None" "f_queue f = []" "f_ended f"
  shows "openNextVolume cl f = Some (Some ErrNoNextVolume, f)"
  using assms by (subst openNextVolume.simps) (simp add: nextVolume_def takeVolume_def receive_def pt_def chanClosed_def Let_def)

text \<open>The end of the scan, when the volume has been closed.\<close>

lemma listing_over:
  assumes "r_staged r = None" "unshut r" "f_vol (r_feed r) = None" "f_queue (r_feed r) = []" "f_ended (r_feed r)" "r_lateNotFirst r = None"
  shows "\<exists>r'. nextEntry_loop E r = Some (Fail (case f_damaged (r_feed r) of Some d \<Rightarrow> d | None \<Rightarrow> EOF), r')
     \<and> unshut r' \<and> no_decoding r r'"
proof -
  have "openNextVolume (en_close E) (r_feed r) = Some (Some ErrNoNextVolume, r_feed r)"
    using assms by (intro out_of_volumes) (simp_all add: unshut_def)
  then show ?thesis
    using assms by (subst nextEntry_loop.simps, cases "f_damaged (r_feed r)")
      (simp_all add: nextBlock_def r_openNextVolume_def Let_def unshut_def no_decoding_def win_decommit_def)
qed

lemma resolveHeaderPassword_none:
  "r_passwords r = [] \<Longrightarrow> r_resolved r = None \<Longrightarrow> resolveHeaderPassword E ch r = (Inl ErrPasswordRequired, r)"
  by (simp add: resolveHeaderPassword_def resolve_with_def)

lemma handleEnd_listing:
  "r_listing r \<Longrightarrow> r_lateNotFirst r = None \<Longrightarrow> \<exists>b. handleEnd h r = r\<lparr>r_endNumberSeen := b\<rparr>"
  by (cases r) (auto simp: handleEnd_def startsMidSet_def Let_def)

text \<open>What \<^verbatim>\<open>dispatch\<close> makes of a block: it ends the listing, closes the volume, goes on, or announces a member.\<close>

lemma dispatch_listing_file:
  assumes "listing_at r solid n s" and "bl_Type h = headerTypeFile"
  obtains (on) r' where "member_of (en_date E) h = None" "dispatch E h r = Some (Nothing, r')"
      "listing_at r' solid n s" "no_decoding r r'" "r_heap r' = r_heap r"
    | (member) fh err c r' where "member_of (en_date E) h = Some (fh, refusal err)" "err \<noteq> EOF"
      "dispatch E h r = Some (Member (length (r_heap r)), r')" "r_heap r' = r_heap r @ [terminalEntry fh err c]"
      "listing_at r' solid n s" "no_decoding r r'"
proof -
  have l: "r_listing r" using assms(1) by (simp add: listing_at_def)
  have mid: "(if b \<and> c then startsMidSet (r\<lparr>r_fileSeen := True\<rparr>) else None) = None" for b c
    using l by (simp add: startsMidSet_def)
  obtain p e where p: "parseFileHeader (en_date E) h = (p, e)" by fastforce
  consider (skip) "p = None" "e \<noteq> None" | (bad) fh err where "p = Some fh" "e = Some err" | (ok) fh where "p = Some fh" "e = None"
    using parse_some [of "en_date E" h p] p by (cases e; cases p) auto
  then show thesis
  proof cases
    case skip
    then show ?thesis
      using assms p l by (intro on [of "markIncomplete (r\<lparr>r_fileSeen := True\<rparr>)"])
        (auto simp: member_of_def dispatch_def startsMidSet_def Let_def)
  next
    case (bad fh err)
    have ne: "err \<noteq> EOF" using parseFileHeader_no_eof [of "en_date E" h p err] p bad by auto
    show ?thesis
    proof (cases "fh_FirstBlock fh")
      case True
      then show ?thesis
        using assms p l bad ne
        by (intro member [of fh err "snd (refuse fh err (markIncomplete (r\<lparr>r_fileSeen := True\<rparr>)))" "Some (f_done (r_feed r))"])
          (auto simp: member_of_def dispatch_def startsMidSet_def Let_def refuse_def announce_def)
    next
      case False
      then show ?thesis
        using assms p l bad by (intro on [of "markIncomplete (r\<lparr>r_fileSeen := True\<rparr>)"])
          (auto simp: member_of_def dispatch_def startsMidSet_def Let_def)
    qed
  next
    case (ok fh)
    show ?thesis
    proof (cases "fh_FirstBlock fh")
      case True
      then show ?thesis
        using assms p l ok
        by (intro member [of fh errListedOnly "snd (refuse fh errListedOnly (r\<lparr>r_fileSeen := True\<rparr>))" "Some (f_done (r_feed r))"])
          (auto simp: member_of_def dispatch_def dispatchFile_def startsMidSet_def Let_def refuse_def announce_def errListedOnly_def refusal_def)
    next
      case False
      then show ?thesis
        using assms p l ok by (intro on [of "markIncomplete (r\<lparr>r_fileSeen := True\<rparr>)"])
          (auto simp: member_of_def dispatch_def dispatchFile_def startsMidSet_def Let_def)
    qed
  qed
qed

lemma dispatch_listing_other:
  assumes "listing_at r solid n s" and "bl_Type h \<noteq> headerTypeFile"
  obtains (on) solid' r' where "dispatch E h r = Some (Nothing, r')" "listing_at r' solid' n s" "no_decoding r r'" "r_heap r' = r_heap r"
      "bl_Type h \<noteq> headerTypeEncryption" "bl_Type h \<noteq> headerTypeEnd"
      "bl_Type h = headerTypeArchive \<Longrightarrow> \<exists>ah. parseArchiveHeader h = Inr ah \<and> solid \<noteq> Some (\<not> ah_Solid ah) \<and> solid' = Some (ah_Solid ah)"
      "bl_Type h \<noteq> headerTypeArchive \<Longrightarrow> solid' = solid"
    | (over) r' where "bl_Type h = headerTypeEnd" "dispatch E h r = Some (Nothing, r')" "no_decoding r r'" "r_heap r' = r_heap r"
      "r_staged r' = None" "unshut r'" "f_vol (r_feed r') = None" "f_queue (r_feed r') = []" "f_ended (r_feed r')"
      "r_lateNotFirst r' = None" "f_damaged (r_feed r') = None"
    | (crypt) "bl_Type h = headerTypeEncryption" "dispatch E h r = Some (Fail (crypt_refusal h), r)"
    | (bad) err where "bl_Type h = headerTypeArchive" "dispatch E h r = Some (Fail err, r)"
      "(\<exists>e. parseArchiveHeader h = Inl e \<and> err = (if err_is e ErrUnsupportedFormat then e else Wrap [ErrCorruptArchiveHeader, e]))
       \<or> (\<exists>ah. parseArchiveHeader h = Inr ah \<and> solid = Some (\<not> ah_Solid ah) \<and> err = Wrap [ErrCorruptArchiveHeader])"
proof -
  note l = assms(1) [unfolded listing_at_def]
  consider (archive) "bl_Type h = headerTypeArchive" | (enc) "bl_Type h = headerTypeEncryption" | (stop) "bl_Type h = headerTypeEnd"
    | (other) "bl_Type h \<noteq> headerTypeArchive" "bl_Type h \<noteq> headerTypeEncryption" "bl_Type h \<noteq> headerTypeEnd" by blast
  then show thesis
  proof cases
    case archive
    have mid: "startsMidSet r = None" using l by (simp add: startsMidSet_def)
    show ?thesis
    proof (cases "parseArchiveHeader h")
      case (Inl e)
      then show ?thesis using archive by (intro bad) (auto simp: dispatch_def handleNonFileBlock_def handleArchive_def headerTypes)
    next
      case (Inr ah)
      show ?thesis
      proof (cases "solid = Some (\<not> ah_Solid ah)")
        case True
        then have "r_solidSeen r" "r_solid r \<noteq> ah_Solid ah" using l by (auto simp: solid_known_def split: if_splits)
        then show ?thesis using archive Inr True mid
          by (intro bad) (auto simp: dispatch_def handleNonFileBlock_def handleArchive_def headerTypes)
      next
        case False
        then have "\<not> (r_solidSeen r \<and> r_solid r \<noteq> ah_Solid ah)" using l by (auto simp: solid_known_def)
        then have d: "dispatch E h r = Some (Nothing, r\<lparr>r_solid := ah_Solid ah, r_solidSeen := True\<rparr>)"
          using archive Inr mid by (auto simp: dispatch_def handleNonFileBlock_def handleArchive_def headerTypes)
        then show ?thesis
          by (rule on [where solid' = "Some (ah_Solid ah)"])
            (use archive Inr False l in \<open>auto simp: listing_at_def solid_known_def no_decoding_def headerTypes\<close>)
      qed
    qed
  next
    case enc
    then show ?thesis
      using l by (intro crypt) (auto simp: dispatch_def handleNonFileBlock_def headerTypes armHeaderDecryption_def crypt_refusal_def
          resolveHeaderPassword_none split: sum.split)
  next
    case stop
    obtain b where b: "handleEnd h r = r\<lparr>r_endNumberSeen := b\<rparr>" using handleEnd_listing l by blast
    have sched: "f_sched (r_feed r) = []" using l by (simp add: at_block_def)
    have "dispatch E h r = Some (Nothing, r_closeCurrentVolume E (r\<lparr>r_endNumberSeen := b\<rparr>))"
      using stop b by (simp add: dispatch_def handleNonFileBlock_def headerTypes)
    then show ?thesis
      by (rule over [OF stop]) (use l in \<open>simp_all add: r_closeCurrentVolume_def closeCurrentVolume_fields sched unshut_def
          no_decoding_def at_block_def\<close>)
  next
    case other
    then show ?thesis
      using assms by (intro on [of r solid]) (auto simp: dispatch_def handleNonFileBlock_def)
  qed
qed

text \<open>A scan yields the head of the listing, and leaves the Reader where its tail is.\<close>

definition scan_lists :: "localDate \<Rightarrow> reader \<Rightarrow> bool option \<Rightarrow> nat \<Rightarrow> stream \<Rightarrow> outcome \<Rightarrow> reader \<Rightarrow> bool" where
  "scan_lists date r solid n s x r' \<longleftrightarrow> unshut r' \<and> no_decoding r r' \<and> (case x of
      Member i \<Rightarrow> \<exists>fh err c solid' n' s'. i = length (r_heap r) \<and> r_heap r' = r_heap r @ [terminalEntry fh err c] \<and> err \<noteq> EOF
        \<and> listed quiet_eof date solid n s = (Some fh, refusal err) # listed quiet_eof date solid' n' s'
        \<and> length (st_data s') < length (st_data s) \<and> listing_at r' solid' n' s'
    | Fail err \<Rightarrow> listed quiet_eof date solid n s = ends_with err
    | _ \<Rightarrow> False)"

lemma scan_lists_later:
  assumes "scan_lists date r2 solid2 n2 s2 x r'" and "no_decoding r r2" and "r_heap r2 = r_heap r"
    and "listed quiet_eof date solid n s = listed quiet_eof date solid2 n2 s2" and "length (st_data s2) < length (st_data s)"
  shows "scan_lists date r solid n s x r'"
proof -
  have nd: "no_decoding r r'" using assms(1,2) no_decoding_trans by (simp add: scan_lists_def)
  show ?thesis
    using assms nd less_trans by (cases x) (simp_all add: scan_lists_def, blast)
qed

lemma listing_next:
  assumes "listing_at r solid n s"
  shows "\<exists>x r'. nextEntry_loop E r = Some (x, r') \<and> scan_lists (en_date E) r solid n s x r'"
  using assms
proof (induction "length (st_data s)" arbitrary: r solid n s rule: less_induct)
  case less
  note l = less.prems [unfolded listing_at_def]
  obtain x s1 where x: "block_behind n s = (x, s1)" by fastforce
  obtain w where w: "r_nextHeader E r = Some (x, r\<lparr>r_feed := (r_feed r)\<lparr>f_vols := [w]\<rparr>\<rparr>)"
      "\<And>h. x = Inr h \<Longrightarrow> at_block ((r_feed r)\<lparr>f_vols := [w]\<rparr>) (nat (bl_DataSize h)) s1"
    using at_block_header [OF conjunct1 [OF l] x, of E] by blast
  define r1 where "r1 = r\<lparr>r_feed := (r_feed r)\<lparr>f_vols := [w]\<rparr>\<rparr>"
  have un: "unshut r1" "f_sched (r_feed r1) = []" using l by (simp_all add: unshut_def at_block_def r1_def)
  have vol: "f_vol (r_feed r) = Some 0" using l by (simp add: at_block_def)
  note spec = listed.simps [of quiet_eof "en_date E" solid n s, unfolded x prod.case]
  show ?case
  proof (cases x)
    case (Inl e)
    show ?thesis
    proof (cases "err_is e EOF \<or> err_is e ErrUnexpectedEOF")
      case False
      then have "nextEntry_loop E r = Some (Fail e, r1)"
        using l vol w Inl by (subst nextEntry_loop.simps) (simp add: nextBlock_def r1_def)
      moreover have "no_decoding r r1" by (simp add: r1_def)
      ultimately show ?thesis using Inl un spec False by (simp add: scan_lists_def ends_with_def quiet_eof_def)
    next
      case True
      define r2 where "r2 = r_closeCurrentVolume E (if err_is e EOF then r1 else r1\<lparr>r_feed := (r_feed r1)\<lparr>f_damaged := Some e\<rparr>\<rparr>)"
      have "nextEntry_loop E r = nextEntry_loop E r2"
        using l vol w Inl True by (subst nextEntry_loop.simps) (simp add: nextBlock_def r1_def r2_def)
      moreover have "r_staged r2 = None" "unshut r2" "f_vol (r_feed r2) = None" "f_queue (r_feed r2) = []" "f_ended (r_feed r2)"
          "r_lateNotFirst r2 = None" "no_decoding r r2" and d: "f_damaged (r_feed r2) = (if err_is e EOF then None else Some e)"
        using l un(2) by (simp_all add: r2_def r1_def r_closeCurrentVolume_def closeCurrentVolume_fields unshut_def no_decoding_def at_block_def)
      ultimately obtain r' where "nextEntry_loop E r = Some (Fail (if err_is e EOF then EOF else e), r')" "unshut r'" "no_decoding r r'"
        using listing_over [of r2 E] no_decoding_trans by (auto split: if_splits)
      then show ?thesis using Inl spec by (auto simp: ends_with_def scan_lists_def quiet_eof_def)
    qed
  next
    case (Inr h)
    define n1 where "n1 = nat (bl_DataSize h)"
    have at: "listing_at r1 solid n1 s1" using l w(2) [OF Inr] by (auto simp: listing_at_def r1_def n1_def solid_known_def)
    have short: "length (st_data s1) < length (st_data s)" using block_behind_shorter x Inr by simp
    have blk: "nextBlock E r = Some (Inr h, r1)" using l vol w Inr by (simp add: nextBlock_def r1_def)
    have same: "no_decoding r r1" "r_heap r1 = r_heap r" by (simp_all add: r1_def)
    have fail: ?thesis if "dispatch E h r1 = Some (Fail err, r1)" "listed quiet_eof (en_date E) solid n s = ends_with err" for err
      using that blk un(1) same(1) by (subst nextEntry_loop.simps) (simp add: scan_lists_def)
    have go: ?thesis if d: "dispatch E h r1 = Some (Nothing, r2)" "listing_at r2 solid2 n1 s1" "no_decoding r1 r2" "r_heap r2 = r_heap r1"
      and lst: "listed quiet_eof (en_date E) solid n s = listed quiet_eof (en_date E) solid2 n1 s1" for r2 solid2
    proof -
      have e: "nextEntry_loop E r = nextEntry_loop E r2" using blk d(1) by (subst nextEntry_loop.simps) simp
      obtain x r' where "nextEntry_loop E r2 = Some (x, r')" "scan_lists (en_date E) r2 solid2 n1 s1 x r'"
        using less.hyps [OF short d(2)] by blast
      then show ?thesis
        using e scan_lists_later [OF _ no_decoding_trans [OF same(1) d(3)] _ lst short] d(4) same(2) by auto
    qed
    show ?thesis
    proof (cases "bl_Type h = headerTypeFile")
      case True
      show ?thesis
      proof (cases rule: dispatch_listing_file [OF at True, of E, case_names on member])
        case (on r2)
        then show ?thesis using True spec Inr by (intro go [of r2 solid]) (simp_all add: headerTypes n1_def)
      next
        case (member fh err c r2)
        have "nextEntry_loop E r = Some (Member (length (r_heap r)), r2)"
          using blk member same by (subst nextEntry_loop.simps) simp
        moreover have "unshut r2" using member(5) by (simp add: listing_at_def at_block_def unshut_def)
        moreover have "listed quiet_eof (en_date E) solid n s
            = (Some fh, refusal err) # listed quiet_eof (en_date E) solid n1 s1"
          using True spec Inr member(1) by (simp add: headerTypes n1_def)
        ultimately show ?thesis
          using member same short no_decoding_trans [OF same(1) member(6)] by (simp add: scan_lists_def) blast
      qed
    next
      case False
      have none: "member_of (en_date E) h = None" using False by (simp add: member_of_def)
      show ?thesis
      proof (cases rule: dispatch_listing_other [OF at False, of E, case_names on over crypt bad])
        case (on solid2 r2)
        have "listed quiet_eof (en_date E) solid n s = listed quiet_eof (en_date E) solid2 n1 s1"
          using on(5-8) spec Inr none by (cases "bl_Type h = headerTypeArchive") (auto simp: n1_def)
        then show ?thesis using on by (intro go [of r2 solid2])
      next
        case (over r2)
        have "nextEntry_loop E r = nextEntry_loop E r2" using blk over by (subst nextEntry_loop.simps) simp
        then obtain r' where "nextEntry_loop E r = Some (Fail EOF, r')" "unshut r'" "no_decoding r r'"
          using listing_over [of r2 E] over no_decoding_trans [OF same(1) no_decoding_trans [OF over(3)]] by auto
        then show ?thesis using spec Inr over(1) by (simp add: headerTypes ends_with_def scan_lists_def)
      next
        case crypt
        have "\<not> err_is (crypt_refusal h) EOF"
          using parseCryptHeader_no_eof by (auto simp: crypt_refusal_def split: sum.split)
        then show ?thesis using crypt spec Inr by (intro fail [of "crypt_refusal h"]) (simp_all add: headerTypes ends_with_def)
      next
        case (bad err)
        have "\<not> err_is err EOF" using bad(3) parseArchiveHeader_no_eof by (auto split: if_splits)
        then show ?thesis using bad spec Inr by (intro fail [of err]) (auto simp: headerTypes ends_with_def)
      qed
    qed
  qed
qed

text \<open>\<^verbatim>\<open>NextEntry\<close> with nobody closing is its scan.\<close>

lemma NextEntry_scan:
  assumes "nextEntry_loop E r = Some (x, r')" and "unshut r" "r_fatal r = None" "r_entry r = None" and "unshut r'"
  shows "x = Fail err \<Longrightarrow> \<exists>r2. NextEntry E r = Some (Fail err, r2) \<and> no_decoding r' r2"
    and "x = Member i \<Longrightarrow> r_fatal r' = None \<Longrightarrow> NextEntry E r = Some (Member i, r')"
proof -
  have c: "r_isClosed E t = (False, t)" if "unshut t" for t
    using that by (simp add: unshut_def r_isClosed_def f_isClosed_def chanClosed_def Let_def)
  have n: "nextEntry E r = Some (x, r')" using assms by (simp add: nextEntry_def finishActive_def)
  show "x = Member i \<Longrightarrow> r_fatal r' = None \<Longrightarrow> NextEntry E r = Some (Member i, r')"
    using n assms(3) by (simp add: NextEntry_def c [OF assms(2)])
  have "no_decoding r' (latchArchive E err r')"
    by (simp add: latchArchive_def c [OF assms(5)]) (simp add: no_decoding_def)
  then show "x = Fail err \<Longrightarrow> \<exists>r2. NextEntry E r = Some (Fail err, r2) \<and> no_decoding r' r2"
    using n assms(3) by (simp add: NextEntry_def c [OF assms(2)] c [OF assms(5)])
qed

lemma Entry_Close_terminal:
  assumes "r_heap r = hp @ [terminalEntry fh err c]" and "err \<noteq> EOF"
  shows "Entry_Close E (length hp) r = Some (Some err, r)"
  using assms by (simp add: Entry_Close_def terminalEntry_def e_Close_end_def heap_upd_def Let_def)

lemma list_loop_listed:
  assumes "listing_at r solid n s"
  shows "\<exists>r'. list_loop E wants k r = Some (until wants k (listed quiet_eof (en_date E) solid n s), r') \<and> no_decoding r r'"
  using assms
proof (induction "length (st_data s)" arbitrary: r solid n s k rule: less_induct)
  case less
  have r: "unshut r" "r_fatal r = None" "r_entry r = None"
    using less.prems by (simp_all add: listing_at_def at_block_def unshut_def)
  obtain x r1 where x: "nextEntry_loop E r = Some (x, r1)" "unshut r1" "no_decoding r r1"
      and post: "scan_lists (en_date E) r solid n s x r1"
    using listing_next [OF less.prems, of E] by (auto simp: scan_lists_def)
  show ?case
  proof (cases x)
    case (Fail err)
    obtain r2 where r2: "NextEntry E r = Some (Fail err, r2)" "no_decoding r1 r2"
      using NextEntry_scan(1) [OF x(1) r x(2) Fail] by blast
    have "until wants k (ends_with err) = ends_with err" by (simp add: ends_with_def)
    then show ?thesis
      using r2 post Fail no_decoding_trans [OF x(3) r2(2)] by (subst list_loop.simps) (simp add: scan_lists_def ends_with_def)
  next
    case (Member i)
    then obtain fh err c solid' n' s' where m: "i = length (r_heap r)" "r_heap r1 = r_heap r @ [terminalEntry fh err c]" "err \<noteq> EOF"
        "listed quiet_eof (en_date E) solid n s = (Some fh, refusal err) # listed quiet_eof (en_date E) solid' n' s'"
        "length (st_data s') < length (st_data s)" "listing_at r1 solid' n' s'"
      using post by (auto simp: scan_lists_def)
    have ne: "NextEntry E r = Some (Member i, r1)"
      using NextEntry_scan(2) [OF x(1) r x(2) Member] m(6) by (simp add: listing_at_def)
    have cl: "Entry_Close E i r1 = Some (Some err, r1)" using Entry_Close_terminal [OF m(2,3)] m(1) by simp
    have fh: "e_Header (r_heap r1 ! i) = fh" using m(1,2) by (simp add: terminalEntry_def)
    show ?thesis
    proof (cases "wants k")
      case False
      then show ?thesis using ne cl fh m(4) x(3) by (subst list_loop.simps) (simp add: refusal_def)
    next
      case True
      obtain r' where "list_loop E wants (k + 1) r1 = Some (until wants (k + 1) (listed quiet_eof (en_date E) solid' n' s'), r')" "no_decoding r1 r'"
        using less.hyps [OF m(5,6)] by blast
      then show ?thesis using True ne cl fh m(4) no_decoding_trans [OF x(3)] by (subst list_loop.simps) (simp add: refusal_def)
    qed
  qed (use post in \<open>simp_all add: scan_lists_def\<close>)
qed

text \<open>C19. A listing is the walk over the block headers, whatever the rest of the archive is: for
  every stream that starts as RAR5, damaged or not, \<open>ListVolume\<close> returns after it has yielded
  exactly the headers of the members that begin in this volume, in their order, each with the
  reason why it could not be extracted if its header says so, and at last the error that
  stopped the walk, if one did that does not match \<^verbatim>\<open>io.EOF\<close>; it stops earlier when the caller
  says so. On a stream that ends with \<^verbatim>\<open>io.EOF\<close> itself, or with an error that does not match it,
  the walk ends without an error only at the end header or where a block could have begun: a volume
  that ends inside a block is reported. On a stream whose end wraps \<^verbatim>\<open>io.EOF\<close> it is not: the walk
  takes the cut for the end. Nothing is decoded, no window is reserved, and no member is begun.\<close>

theorem listing_is_the_headers:
  assumes "readSignature s = (Inr False, s1)"
  shows "(\<exists>r. ListVolume E wants (Some s) = Some (until wants 0 (listed quiet_eof (en_date E) None 0 s1), r)
     \<and> r_dec50 r = newDecoder50 NoSource \<and> win_size (r_win r) = minWindowSize \<and> r_entry r = None)
     \<and> (st_end s = EOF \<or> \<not> err_is (st_end s) EOF
        \<longrightarrow> listed quiet_eof (en_date E) None 0 s1 = listed quiet_boundary (en_date E) None 0 s1)"
proof -
  let ?E = "E\<lparr>en_close := id\<rparr>"
  define r0 where "r0 = (NewReader (new_feed [Some s] True [] []))\<lparr>r_listing := True\<rparr>"
  have rf: "r_feed r0 = new_feed [Some s] True [] []" by (simp add: r0_def NewReader_def)
  obtain f where f: "openNextVolume (en_close ?E) (r_feed r0) = Some (None, f)" "at_block f 0 s1" "f_queue f = []" "f_ended f" "f_damaged f = None"
    using first_open [OF assms] unfolding rf by metis
  define r1 where "r1 = r0\<lparr>r_feed := f\<rparr>"
  have un: "unshut r0" "unshut r1" using f(2) by (simp_all add: unshut_def r0_def NewReader_def new_feed_def r1_def at_block_def)
  have at: "listing_at r1 None 0 s1"
    using f by (simp add: listing_at_def r1_def r0_def NewReader_def solid_known_def)
  have c: "r_isClosed ?E t = (False, t)" if "unshut t" for t
    using that by (simp add: unshut_def r_isClosed_def f_isClosed_def chanClosed_def Let_def)
  have free: "r_entry r0 = None" "r_entry r1 = None" "r_fatal r0 = None" "r_fatal r1 = None"
    by (simp_all add: r0_def r1_def NewReader_def)
  have "nextEntry_loop ?E r0 = nextEntry_loop ?E r1"
    unfolding r1_def by (rule nextBlock_first) (use f in \<open>simp_all add: r0_def NewReader_def new_feed_def at_block_def\<close>)
  then have "NextEntry ?E r0 = NextEntry ?E r1"
    using c un free by (simp add: NextEntry_def nextEntry_def finishActive_def)
  then have "list_loop ?E wants 0 r0 = list_loop ?E wants 0 r1" by (subst (1 2) list_loop.simps) simp
  then obtain r' where r': "list_loop ?E wants 0 r0 = Some (until wants 0 (listed quiet_eof (en_date E) None 0 s1), r')" "no_decoding r1 r'"
    using list_loop_listed [OF at, of ?E wants 0] by auto
  then have "ListVolume E wants (Some s) = Some (until wants 0 (listed quiet_eof (en_date E) None 0 s1), r_Close ?E 0 r')"
    by (simp add: ListVolume_def r0_def)
  then show ?thesis
    using r'(2) quiet_rules_agree [of s1] readSignature_end [OF assms]
    by (simp add: no_decoding_def r_Close_def r1_def r0_def NewReader_def newWindow_def)
qed

text \<open>The first volume of the sample announces its member; the second only continues it; and without
  its payload the first is cut, which shows, but not when its end wraps \<^verbatim>\<open>io.EOF\<close>.\<close>

theorem listing_is_the_headers_witness:
  "(\<exists>r. ListVolume sample_env (\<lambda>_. True) (Some (sample_stream 0x12 1)) = Some ([(Some (sample_part True), None)], r))
   \<and> (\<exists>r. ListVolume sample_env (\<lambda>_. True) (Some (sample_stream 0x0a 2)) = Some ([], r))
   \<and> (\<exists>r. ListVolume sample_env (\<lambda>_. True) (Some (sample_cut EOF))
         = Some ([(Some (sample_part True), None), (None, Some (Wrap [ErrUnexpectedEOF]))], r))
   \<and> (\<exists>r. ListVolume sample_env (\<lambda>_. True) (Some (sample_cut (Wrap [EOF]))) = Some ([(Some (sample_part True), None)], r))"
proof -
  have sig: "readSignature (sample_stream flags b) = (Inr False, \<lparr>st_data = sample_head flags @ [b], st_end = EOF\<rparr>)" for flags b
    by (simp add: readSignature_def sample_stream_def sample_signature_def readFull_def Let_def rar5Signature_def)
  have cut: "readSignature (sample_cut e) = (Inr False, \<lparr>st_data = sample_head 0x12, st_end = e\<rparr>)" for e
    by (simp add: readSignature_def sample_cut_def sample_signature_def readFull_def Let_def rar5Signature_def)
  have last: "listed quiet_eof d solid (Suc 0) \<lparr>st_data = [b], st_end = EOF\<rparr> = []" for d solid b
    by (subst listed.simps) (simp add: block_behind_def readBlockHeader_def readHeaderStart_def readFull_def Let_def quiet_eof_def)
  have gone: "listed quiet_eof d solid (Suc 0) \<lparr>st_data = [], st_end = EOF\<rparr> = [(None, Some (Wrap [ErrUnexpectedEOF]))]"
    "listed quiet_eof d solid (Suc 0) \<lparr>st_data = [], st_end = Wrap [EOF]\<rparr> = []" for d solid
    by (subst listed.simps, simp add: block_behind_def quiet_eof_def)+
  have h: "bl_Type (sample_h flags) = headerTypeFile" "bl_DataSize (sample_h flags) = 1" for flags
    by (simp_all add: sample_h_def headerTypes)
  have part: "fh_FirstBlock (sample_part b) = b" for b by (simp add: sample_part_def)
  have bare: "readBlockHeader \<lparr>st_data = sample_head 0x12, st_end = e\<rparr> = (Inr (sample_h 0x12), \<lparr>st_data = [], st_end = e\<rparr>)" for e
    using sample_read(1) [of "[]" e] by simp
  have l: "listed quiet_eof d None 0 \<lparr>st_data = sample_head 0x12 @ [1], st_end = EOF\<rparr> = [(Some (sample_part True), None)]"
    "listed quiet_eof d None 0 \<lparr>st_data = sample_head 0x0a @ [2], st_end = EOF\<rparr> = []"
    "listed quiet_eof d None 0 \<lparr>st_data = sample_head 0x12, st_end = EOF\<rparr> = [(Some (sample_part True), None), (None, Some (Wrap [ErrUnexpectedEOF]))]"
    "listed quiet_eof d None 0 \<lparr>st_data = sample_head 0x12, st_end = Wrap [EOF]\<rparr> = [(Some (sample_part True), None)]" for d
    by (subst listed.simps, simp add: block_behind_def sample_read bare h last gone member_of_def sample_parse part headerTypes)+
  show ?thesis
    using listing_is_the_headers [OF sig, of sample_env "\<lambda>_. True" "0x12" 1]
      listing_is_the_headers [OF sig, of sample_env "\<lambda>_. True" "0x0a" 2]
      listing_is_the_headers [OF cut, of sample_env "\<lambda>_. True" EOF]
      listing_is_the_headers [OF cut, of sample_env "\<lambda>_. True" "Wrap [EOF]"] l by auto
qed

subsection \<open>The number of a volume and the refusal to start there\<close>

text \<open>A Reader whose first volume is open, at a block of it that begins \<open>s\<close>.\<close>

definition first_at :: "reader \<Rightarrow> stream \<Rightarrow> bool" where
  "first_at r s \<longleftrightarrow>
     r_staged r = None \<and> \<not> r_listing r \<and> r_fatal r = None \<and> f_volIndex (r_feed r) = 1
     \<and> (\<exists>n s0. at_block (r_feed r) n s0 \<and> n \<le> length (st_data s0) \<and> s = s0\<lparr>st_data := drop n (st_data s0)\<rparr>)"

lemma first_at_next:
  assumes "first_at r s" and "readBlockHeader s = (Inr h, s1)"
  obtains r1 where "nextBlock E r = Some (Inr h, r1)" "r_listing r1 = r_listing r" "f_volIndex (r_feed r1) = 1"
    "f_sched (r_feed r1) = []" "f_shut (r_feed r1) = []" "r_fatal r1 = None"
    "nat (bl_DataSize h) \<le> length (st_data s1) \<Longrightarrow> first_at r1 (s1\<lparr>st_data := drop (nat (bl_DataSize h)) (st_data s1)\<rparr>)"
proof -
  obtain n s0 where a: "at_block (r_feed r) n s0" "n \<le> length (st_data s0)" "s = s0\<lparr>st_data := drop n (st_data s0)\<rparr>"
      and r: "r_staged r = None" "\<not> r_listing r" "r_fatal r = None" "f_volIndex (r_feed r) = 1"
    using assms(1) by (auto simp: first_at_def)
  have "block_behind n s0 = (Inr h, s1)" using a assms(2) by (simp add: block_behind_def)
  then obtain w where w: "r_nextHeader E r = Some (Inr h, r\<lparr>r_feed := (r_feed r)\<lparr>f_vols := [w]\<rparr>\<rparr>)"
      "at_block ((r_feed r)\<lparr>f_vols := [w]\<rparr>) (nat (bl_DataSize h)) s1"
    using at_block_header [OF a(1)] by blast
  show thesis
    by (rule that [of "r\<lparr>r_feed := (r_feed r)\<lparr>f_vols := [w]\<rparr>\<rparr>"])
      (use a(1) r w in \<open>auto simp: nextBlock_def first_at_def at_block_def\<close>)
qed

lemma number_walk_refused:
  assumes "number_walk sk s = (n, mv, None)" and "0 < n" and "first_at r s"
  shows "\<exists>r'. nextEntry_loop E r = Some (Fail (Wrap [ErrNotFirstVolume]), r')
     \<and> f_sched (r_feed r') = [] \<and> f_shut (r_feed r') = []"
  using assms
proof (induction "length (st_data s)" arbitrary: s r rule: less_induct)
  case less
  obtain res s1 where hd: "readBlockHeader s = (res, s1)" by fastforce
  note walk = less.prems(1) [unfolded number_walk.simps [of _ s] hd]
  obtain h where h: "res = Inr h" using walk by (cases res) simp_all
  obtain r1 where r1: "nextBlock E r = Some (Inr h, r1)" "r_listing r1 = r_listing r" "f_volIndex (r_feed r1) = 1"
      "f_sched (r_feed r1) = []" "f_shut (r_feed r1) = []" "r_fatal r1 = None"
      "nat (bl_DataSize h) \<le> length (st_data s1) \<Longrightarrow> first_at r1 (s1\<lparr>st_data := drop (nat (bl_DataSize h)) (st_data s1)\<rparr>)"
    using first_at_next [OF less.prems(3) hd [unfolded h]] by blast
  have listing: "\<not> r_listing r1" using less.prems(3) r1(2) by (simp add: first_at_def)
  consider (archive) "bl_Type h = headerTypeArchive"
    | (other) "bl_Type h \<noteq> headerTypeArchive" "bl_Type h \<noteq> headerTypeEncryption" "bl_Type h \<noteq> headerTypeFile" "bl_Type h \<noteq> headerTypeEnd"
    using walk h by (auto split: if_splits)
  then show ?case
  proof cases
    case archive
    obtain ah where ah: "parseArchiveHeader h = Inr ah" "ah_MultiVolume ah" "0 < ah_VolumeNumber ah"
      using walk h archive less.prems(2) by (cases "parseArchiveHeader h") (auto split: if_splits)
    have "dispatch E h r1 = Some (Fail (Wrap [ErrNotFirstVolume]), r1)"
      using archive ah r1(3) listing
      by (simp add: dispatch_def handleNonFileBlock_def handleArchive_def startsMidSet_def headerTypes)
    then have "nextEntry_loop E r = Some (Fail (Wrap [ErrNotFirstVolume]), r1)"
      using r1(1) by (subst nextEntry_loop.simps) simp
    then show ?thesis using r1(4,5) by blast
  next
    case other
    obtain s2 where sk: "skipPayload sk h s1 = (None, s2)" and w: "number_walk sk s2 = (n, mv, None)"
      using walk h other by (auto split: prod.splits option.splits if_splits)
    have s2: "s2 = s1\<lparr>st_data := drop (nat (bl_DataSize h)) (st_data s1)\<rparr>" by (rule skipPayload_drop [OF sk])
    have "readBlockHeader s2 = (fst (readBlockHeader s2), snd (readBlockHeader s2))" by simp
    then obtain h2 where "fst (readBlockHeader s2) = Inr h2"
      using w by (subst (asm) number_walk.simps) (cases "fst (readBlockHeader s2)"; auto split: prod.splits)
    then have "length (st_data s2) \<noteq> 0" using header_uses_data [of s2 h2 "snd (readBlockHeader s2)"] by (cases "readBlockHeader s2") auto
    then have f2: "first_at r1 s2" using r1(7) by (simp add: s2)
    have "dispatch E h r1 = Some (Nothing, r1)"
      using other by (simp add: dispatch_def handleNonFileBlock_def)
    then have "nextEntry_loop E r = nextEntry_loop E r1"
      using r1(1) by (subst nextEntry_loop.simps) simp
    then show ?thesis
      using less.hyps [OF skipped_shorter [OF hd [unfolded h] sk] w less.prems(2) f2] by simp
  qed
qed

text \<open>C20. The two ways to ask about a volume's place agree: when \<open>VolumeNumber\<close> says that a
  stream is a later volume of a set, a Reader that is given it first refuses to start there.\<close>

theorem volume_number_agrees:
  assumes "VolumeNumber sk s = (n, mv, None)" and "0 < n"
  shows "\<exists>r. NextEntry E (NewReader (new_feed [Some s] ended [] [])) = Some (Fail (Wrap [ErrNotFirstVolume]), r)"
proof -
  let ?r = "NewReader (new_feed [Some s] ended [] [])"
  obtain s1 where s1: "readSignature s = (Inr False, s1)" "number_walk sk s1 = (n, mv, None)"
    using assms by (auto simp: VolumeNumber_def split: prod.splits sum.splits if_splits)
  obtain f1 where f1: "openNextVolume (en_close E) (r_feed ?r) = Some (None, f1)" "at_block f1 0 s1" "f_volIndex f1 = 1"
    using first_open [OF s1(1)] by (metis NewReader_def reader.select_convs(1))
  have at: "first_at (?r\<lparr>r_feed := f1\<rparr>) s1"
    using f1(2,3) by (auto simp: first_at_def NewReader_def intro!: exI [of _ 0] exI [of _ s1])
  obtain r' where loop: "nextEntry_loop E (?r\<lparr>r_feed := f1\<rparr>) = Some (Fail (Wrap [ErrNotFirstVolume]), r')"
      "f_sched (r_feed r') = []" "f_shut (r_feed r') = []"
    using number_walk_refused [OF s1(2) assms(2) at] by blast
  have "nextEntry_loop E ?r = Some (Fail (Wrap [ErrNotFirstVolume]), r')"
    using loop(1) nextBlock_first [of ?r E f1] f1(1,2) by (simp add: NewReader_def at_block_def) (simp add: new_feed_def)
  then have n: "nextEntry E ?r = Some (Fail (Wrap [ErrNotFirstVolume]), r')"
    by (simp add: nextEntry_def finishActive_def NewReader_def)
  have c: "r_isClosed E ?r = (False, ?r)" "r_isClosed E r' = (False, r')"
    using loop(2,3) by (simp_all add: r_isClosed_def f_isClosed_def NewReader_def new_feed_def chanClosed_def pt_def Let_def)
  have "r_fatal ?r = None" by (simp add: NewReader_def)
  then show ?thesis by (simp add: NextEntry_def c n)
qed

text \<open>The second volume of a set, as far as its archive header.\<close>

definition demo_second :: stream where
  "demo_second = \<lparr>st_data = rar5Signature @ put_le32 (crc32_ieee [4, 1, 0, 3, 1]) @ [4, 1, 0, 3, 1], st_end = EOF\<rparr>"

theorem volume_number_agrees_witness:
  "VolumeNumber None demo_second = (1, True, None)
   \<and> (\<exists>r. NextEntry sample_env (NewReader (new_feed [Some demo_second] True [] [])) = Some (Fail (Wrap [ErrNotFirstVolume]), r))"
proof -
  let ?s = "\<lparr>st_data = put_le32 (crc32_ieee [4, 1, 0, 3, 1]) @ [4, 1, 0, 3, 1], st_end = EOF\<rparr>"
  let ?h = "\<lparr>bl_Type = 1, bl_Flags = 0, bl_DataSize = 0, bl_Payload = [3, 1], bl_Extra = [], bl_rar4 = False\<rparr>"
  have sig: "readSignature demo_second = (Inr False, ?s)"
    by (simp add: readSignature_def demo_second_def rar5Signature_def readFull_def Let_def)
  have "parseBlockHeaderFields [4, 1, 0, 3, 1] 1 = Inr ?h"
    by (simp add: parseBlockHeaderFields_def with_vint_def decodeVint_def headerFlags extra_loop.simps Let_def)
  then have hd: "readBlockHeader ?s = (Inr ?h, \<lparr>st_data = [], st_end = EOF\<rparr>)"
    using readBlockHeader_buf [of "[4, 1, 0, 3, 1]" 4 1 "[]" EOF] by (simp add: decodeVint_def maxHeaderSize_def Let_def)
  have "parseArchiveHeader ?h = Inr \<lparr>ah_MultiVolume = True, ah_Solid = False, ah_VolumeNumber = 1\<rparr>"
    by (simp add: parseArchiveHeader_def headerTypes with_vint_def decodeVint_def arcFlagMultiVol_def arcFlagSolid_def arcFlagVolNum_def
        maxInt_def Let_def)
  then have v: "VolumeNumber None demo_second = (1, True, None)"
    by (simp add: VolumeNumber_def sig, subst number_walk.simps) (simp add: hd headerTypes)
  show ?thesis using volume_number_agrees [OF v] v by simp
qed

end
