(* ===== verification/Guarantees.thy ===== *)
theory Guarantees
  imports Sample
begin

section \<open>What a caller of the Reader can rely on\<close>

text \<open>
  Statements about every state a Reader can be in (\<open>reader_run\<close>): whatever the volumes hold,
  however the caller reads, abandons, closes and resets, and whenever another goroutine closes
  the Reader. Each is tried on the run of the small archive.
\<close>

text \<open>C1. No member is reported complete that is not. In every state a Reader can reach, an entry
  whose recorded verdict is success either is a link, which holds no bytes, or has given
  exactly as many bytes as its header declared, the header in force at its end marks the last
  part, and (unless it is empty) that header records a digest and every digest it records is
  that of the bytes given; whatever volumes the bytes came from and however they were coded.\<close>

theorem reader_success_exact:
  assumes "env_ok E" and "reader_run E r outs" and "i < length (r_heap r)" and "e_done (r_heap r ! i) = Some EOF"
    and "0 \<le> fh_UnpackedSize (e_Header (r_heap r ! i))"
  shows "(fh_LinkType (e_cur (r_heap r ! i)) \<noteq> LinkNone \<and> outs ! i = []) \<or> e_success (r_heap r ! i) (outs ! i)"
proof -
  have "lived E (r_heap r ! i) (outs ! i)" using reader_run_ok [OF assms(2,1)] assms(3) by (simp add: reader_ok_def)
  moreover have "simd_contract (en_sp E)" using assms(1) by (simp add: env_ok_def)
  ultimately show ?thesis using entry_run_inv assms(4,5) by (fastforce simp: lived_def e_inv_def)
qed

theorem reader_success_exact_witness: "e_done (r_heap sample_r3 ! 0) = Some EOF \<and> e_success (r_heap sample_r3 ! 0) [1, 2]"
proof -
  have "length (r_heap sample_r3) = 1" "e_done (r_heap sample_r3 ! 0) = Some EOF" "fh_LinkType (e_cur (r_heap sample_r3 ! 0)) = LinkNone"
    "fh_UnpackedSize (e_Header (r_heap sample_r3 ! 0)) = 2"
    by (simp_all add: sample_r3_def sample_entry_fields) (simp_all add: sample_part_def FileHeader_zero_def)
  then show ?thesis using reader_success_exact [OF sample_env_ok sample_run3, of 0] by simp
qed

text \<open>C2. Every call returns, and the work ends. \<^verbatim>\<open>NextEntry\<close> always comes back: with a new entry (the next
  number) while no archive-level failure is latched, or with an error, or, in one situation and
  no other, it is stopped by a nil pointer: the member in progress has been ended, a header is held
  back, and the volume it came from is no longer open (a defect of the code, behind a splice that
  failed). It cannot be with no member in progress and no header held back. A read of an entry
  comes back with no more bytes than asked for; closing an entry, however much of it is still
  to be decoded, comes back and leaves a verdict. No stream, however built, makes the Reader
  loop, provided the channel of volumes ends or somebody closes the Reader.\<close>

theorem reader_calls_return:
  assumes "env_ok E" and "reader_run E r outs"
  shows "(\<exists>x r'. NextEntry E r = Some (x, r') \<and> next_result r x r' \<and> (x = Panic \<longrightarrow> volume_lost E r)
        \<and> (r_entry r = None \<and> r_staged r = None \<longrightarrow> x \<noteq> Panic))
    \<and> (\<forall>i < length (r_heap r). (\<exists>bs e r'. Entry_Read E i r n = Some (bs, e, r') \<and> length bs \<le> n)
        \<and> (\<exists>x r'. Entry_Close E i r = Some (x, r') \<and> e_done (r_heap r' ! i) \<noteq> None))"
proof (intro conjI allI impI)
  note ok = reader_run_ok [OF assms(2,1)]
  have calm: "\<not> volume_lost E r" if "r_entry r = None" "r_staged r = None"
    using that by (auto simp: volume_lost_def r_isClosed_def finishActive_def split: prod.split_asm)
  show "\<exists>x r'. NextEntry E r = Some (x, r') \<and> next_result r x r' \<and> (x = Panic \<longrightarrow> volume_lost E r)
      \<and> (r_entry r = None \<and> r_staged r = None \<longrightarrow> x \<noteq> Panic)"
    using NextEntry_ok [OF assms(1) ok] calm by (auto simp: returns_def)
  fix i assume i: "i < length (r_heap r)"
  show "\<exists>bs e r'. Entry_Read E i r n = Some (bs, e, r') \<and> length bs \<le> n"
    using Entry_Read_ok [OF assms(1) ok i, of n] by (auto simp: returns_def)
  show "\<exists>x r'. Entry_Close E i r = Some (x, r') \<and> e_done (r_heap r' ! i) \<noteq> None"
    using Entry_Close_ok [OF assms(1) ok i] by (auto simp: returns_def)
qed

theorem reader_calls_return_witness:
  "\<exists>x r'. Entry_Close sample_env 0 sample_r1 = Some (x, r') \<and> e_done (r_heap r' ! 0) \<noteq> None"
  using reader_calls_return [OF sample_env_ok sample_run1] by (simp add: sample_fields)

text \<open>C3. Every stream is closed, and once. At any moment each stream that was taken off the channel is
  closed, or is that of the open volume, and no stream is closed twice; behind a \<^verbatim>\<open>Close\<close> all of
  them are closed, those that had been sent but never opened too.\<close>

theorem streams_closed_once:
  assumes "env_ok E" and "reader_run E r outs"
  shows "mset (f_log (r_feed r)) + mset (open_ids (f_vol (r_feed r)) (f_vols (r_feed r))) = mset [0..<f_next (r_feed r)]
    \<and> mset (f_log (r_feed (r_Close E k r))) = mset [0..<f_next (r_feed (r_Close E k r))]"
proof -
  have idle: "feed_idle (r_feed r)" "close_ok (en_close E)"
    using reader_run_ok [OF assms(2,1)] assms(1) by (simp_all add: reader_ok_def env_ok_def)
  then show ?thesis
    using f_Close_all [OF idle, of k] by (auto simp: r_Close_def feed_idle_def feed_ok_def f_open_def)
qed

theorem streams_closed_once_witness: "mset (f_log (r_feed (r_Close sample_env 1 sample_r1))) = mset [0, 1]"
proof -
  have "f_next (r_feed (r_Close sample_env 1 sample_r1)) = 2"
    by (simp add: r_Close_def f_Close_def sample_fields chanClosed_def Let_def f_closeVol_def sample_vol_def log_close_def)
      (simp add: sample_f2_def sample_f1_def new_feed_def f_closeVol_def log_close_def sample_vol_def)
  then show ?thesis
    using streams_closed_once [OF sample_env_ok sample_run1, of 1] by (simp add: numeral_2_eq_2 upt_rec)
qed

text \<open>C9. A clean end is clean. \<^verbatim>\<open>NextEntry\<close> reports \<^verbatim>\<open>io.EOF\<close> only with no volume open, no header held
  back, no cut volume on record since the last \<^verbatim>\<open>Reset\<close>, now or before the call, and no later
  volume taken for a first one.\<close>

theorem clean_end_only_if_well:
  assumes "env_ok E" and "reader_run E r outs" and "NextEntry E r = Some (Fail EOF, r')"
  shows "all_well r' \<and> f_damaged (r_feed r) = None"
proof -
  have "all_well r'" "cut_le (f_damaged (r_feed r)) (f_damaged (r_feed r'))"
    using NextEntry_ok [OF assms(1) reader_run_ok [OF assms(2,1)]] assms(3)
    by (simp_all add: returns_def next_result_def feed_to_def feed_step_def)
  then show ?thesis by (auto simp: all_well_def cut_le_def)
qed

theorem clean_end_only_if_well_witness: "\<exists>r'. NextEntry sample_env sample_empty = Some (Fail EOF, r') \<and> all_well r'"
  using clean_end_only_if_well [OF sample_env_ok sample_empty_run] sample_empty_end by blast

text \<open>C14. An entry that is over touches nothing. Reading an entry that has its verdict, be it the one in
  progress read to its end or failed, or that has no source, as a refused one or a link, or that
  \<^verbatim>\<open>NextEntry\<close> or \<^verbatim>\<open>Reset\<close> left behind, gives no bytes but an error, and leaves the Reader, its
  volumes, its window and every entry as they were (apart from a \<^verbatim>\<open>Close\<close> of another goroutine
  that comes in at that moment); the error is the verdict, where there is one.\<close>

theorem stale_entry_reads_nothing:
  assumes "env_ok E" and "reader_run E r outs" and "i < length (r_heap r)"
    and "e_done (r_heap r ! i) \<noteq> None \<or> e_src (r_heap r ! i) = None \<or> r_entry r \<noteq> Some i"
  shows "\<exists>err. Entry_Read E i r n = Some ([], Some err, r\<lparr>r_feed := pt (en_close E) (r_feed r)\<rparr>)
    \<and> (\<forall>d. e_done (r_heap r ! i) = Some d \<longrightarrow> err = d)"
proof -
  have "member_ok r i" using reader_run_ok [OF assms(2,1)] assms(3) by (simp add: reader_ok_def)
  then have "e_done (r_heap r ! i) \<noteq> None \<or> e_src (r_heap r ! i) = None" using assms(4) by (auto simp: member_ok_def)
  then have "\<exists>err. \<forall>closed. e_gate closed n (r_heap r ! i) = Answer (Some err) (r_heap r ! i) \<and> (\<forall>d. e_done (r_heap r ! i) = Some d \<longrightarrow> err = d)"
    by (cases "e_done (r_heap r ! i)") (auto simp: e_gate_def)
  then obtain err where g: "e_gate closed n (r_heap r ! i) = Answer (Some err) (r_heap r ! i)"
    and d: "\<forall>d. e_done (r_heap r ! i) = Some d \<longrightarrow> err = d" for closed by blast
  have "heap_upd i (\<lambda>_. r_heap r ! i) (r\<lparr>r_feed := f\<rparr>) = r\<lparr>r_feed := f\<rparr>" for f by (simp add: heap_upd_def)
  then show ?thesis using g d by (simp add: Entry_Read_def e_isClosed_def Let_def)
qed

theorem stale_entry_reads_nothing_witness:
  "(\<exists>r'. Entry_Read sample_env 0 sample_r3 8 = Some ([], Some EOF, r'))
   \<and> (\<exists>err r'. Entry_Read sample_env 0 (r_Reset sample_env 1 [] True [] [] sample_r1) 8 = Some ([], Some err, r'))"
proof -
  have "r_entry (r_Reset sample_env 1 [] True [] [] sample_r1) = None" "length (r_heap (r_Reset sample_env 1 [] True [] [] sample_r1)) = 1"
    by (simp_all add: r_Reset_def severActive_def Let_def heap_upd_def sample_isClosed sample_fields)
  moreover have "length (r_heap sample_r3) = 1" "e_done (r_heap sample_r3 ! 0) = Some EOF" by (simp_all add: sample_r3_def sample_entry_fields)
  ultimately show ?thesis
    using stale_entry_reads_nothing [OF sample_env_ok reader_run.reset [OF sample_run1], of True "[]" 0 1 "[]" "[]" 8]
      stale_entry_reads_nothing [OF sample_env_ok sample_run3, of 0 8] by auto
qed

text \<open>A closed Reader reads no more. Once the Reader is closed, \<^verbatim>\<open>NextEntry\<close> answers with
  \<^verbatim>\<open>ErrReaderClosed\<close>, and so does a read of a member that is still owed bytes, which records it
  as the verdict; neither looks at a volume.\<close>

theorem closed_reader_refuses:
  assumes "env_ok E" and "reader_run E r outs" and "chanClosed (f_done (r_feed r)) (r_feed r)"
  shows "NextEntry E r = Some (Fail ErrReaderClosed, r\<lparr>r_feed := pt (en_close E) (r_feed r)\<rparr>)
    \<and> (\<forall>i. e_cancelled (r_heap r ! i) = Some (f_done (r_feed r)) \<and> e_done (r_heap r ! i) = None \<and> e_src (r_heap r ! i) \<noteq> None
          \<and> fh_LinkType (e_cur (r_heap r ! i)) = LinkNone \<and> 0 < e_remaining (r_heap r ! i)
        \<longrightarrow> Entry_Read E i r n = Some ([], Some ErrReaderClosed,
              (heap_upd i (\<lambda>e. e\<lparr>e_done := Some ErrReaderClosed\<rparr>) r)\<lparr>r_feed := pt (en_close E) (r_feed r)\<rparr>))"
proof (intro conjI allI impI)
  have idle: "feed_idle (r_feed r)" "close_ok (en_close E)"
    using reader_run_ok [OF assms(2,1)] assms(1) by (simp_all add: reader_ok_def env_ok_def)
  have "feed_step (r_feed r) (pt (en_close E) (r_feed r))" using pt_to(1) [OF idle(2,1)] by (simp add: feed_to_def)
  then have c: "chanClosed (f_done (r_feed r)) (pt (en_close E) (r_feed r))" "f_done (pt (en_close E) (r_feed r)) = f_done (r_feed r)"
    using assms(3) by (auto simp: feed_step_def shut_le_def chanClosed_def)
  show "NextEntry E r = Some (Fail ErrReaderClosed, r\<lparr>r_feed := pt (en_close E) (r_feed r)\<rparr>)"
    using c by (simp add: NextEntry_def r_isClosed_def f_isClosed_def Let_def)
  fix i
  assume e: "e_cancelled (r_heap r ! i) = Some (f_done (r_feed r)) \<and> e_done (r_heap r ! i) = None \<and> e_src (r_heap r ! i) \<noteq> None
          \<and> fh_LinkType (e_cur (r_heap r ! i)) = LinkNone \<and> 0 < e_remaining (r_heap r ! i)"
  then show "Entry_Read E i r n = Some ([], Some ErrReaderClosed,
              (heap_upd i (\<lambda>e. e\<lparr>e_done := Some ErrReaderClosed\<rparr>) r)\<lparr>r_feed := pt (en_close E) (r_feed r)\<rparr>)"
    using c by (simp add: Entry_Read_def e_isClosed_def Let_def e_gate_def e_finish_def heap_upd_def)
qed

theorem closed_reader_refuses_witness: "NextEntry sample_env (r_Close sample_env 1 sample_r1) = Some (Fail ErrReaderClosed, r_Close sample_env 1 sample_r1)"
proof -
  have c: "chanClosed (f_done (r_feed (r_Close sample_env 1 sample_r1))) (r_feed (r_Close sample_env 1 sample_r1))"
    "f_sched (r_feed (r_Close sample_env 1 sample_r1)) = []"
    by (simp_all add: r_Close_def f_Close_def sample_fields chanClosed_def Let_def f_closeVol_def sample_vol_def log_close_def)
      (simp_all add: sample_f2_def sample_f1_def new_feed_def f_closeVol_def log_close_def sample_vol_def)
  then show ?thesis using closed_reader_refuses [OF sample_env_ok reader_run.close [OF sample_run1] c(1)] by simp
qed

text \<open>C11. A failure of the archive stays. Once one is latched, every \<^verbatim>\<open>NextEntry\<close> fails, never with a clean
  end and without an entry, and nothing the caller reads or closes opens the latch again; only
  \<^verbatim>\<open>Reset\<close> does.\<close>

theorem archive_failure_stays:
  assumes "env_ok E" and "reader_run E r outs" and "r_fatal r \<noteq> None"
  shows "(\<exists>e r'. NextEntry E r = Some (Fail e, r') \<and> e \<noteq> EOF \<and> r_fatal r' = r_fatal r \<and> r_heap r' = r_heap r)
    \<and> (\<forall>i bs e r'. i < length (r_heap r) \<longrightarrow> Entry_Read E i r n = Some (bs, e, r') \<longrightarrow> r_fatal r' \<noteq> None)
    \<and> (\<forall>i x r'. i < length (r_heap r) \<longrightarrow> Entry_Close E i r = Some (x, r') \<longrightarrow> r_fatal r' \<noteq> None)
    \<and> r_fatal (r_Close E k r) \<noteq> None"
proof (intro conjI allI impI)
  note ok = reader_run_ok [OF assms(2,1)]
  obtain err where err: "r_fatal r = Some err" "latchable err"
    using assms(3) ok by (auto simp: reader_ok_def books_ok_def)
  then have ne: "err \<noteq> EOF" by (auto simp: latchable_def)
  obtain closed s where c: "r_isClosed E r = (closed, s)" by fastforce
  note C = r_isClosed_reader_ok(4,5) [OF assms(1) ok c]
  show "\<exists>e r'. NextEntry E r = Some (Fail e, r') \<and> e \<noteq> EOF \<and> r_fatal r' = r_fatal r \<and> r_heap r' = r_heap r"
    using C err ne c by (simp add: NextEntry_def)
  show "r_fatal r' \<noteq> None" if "i < length (r_heap r)" "Entry_Read E i r n = Some (bs, e, r')" for i bs e r'
    using Entry_Read_ok [OF assms(1) ok that(1), of n] that(2) assms(3) by (auto simp: returns_def entry_step_def keeps_def)
  show "r_fatal r' \<noteq> None" if "i < length (r_heap r)" "Entry_Close E i r = Some (x, r')" for i x r'
    using Entry_Close_ok [OF assms(1) ok that(1)] that(2) assms(3) by (auto simp: returns_def entry_step_def keeps_def)
  show "r_fatal (r_Close E k r) \<noteq> None" using assms(3) by (simp add: r_Close_def)
qed

theorem archive_failure_stays_witness: "\<exists>e r'. NextEntry sample_env sample_nil1 = Some (Fail e, r') \<and> e \<noteq> EOF"
proof -
  have "r_fatal sample_nil1 \<noteq> None" by (simp add: sample_nil1_def)
  from archive_failure_stays [OF sample_env_ok sample_nil_run this, of 1 0] show ?thesis by blast
qed

text \<open>
  What a scan for the next member leaves alone while the window is marked incomplete, and what
  it may hand out as a solid member then.
\<close>

definition untouched :: "reader \<Rightarrow> reader \<Rightarrow> bool" where
  "untouched r s \<longleftrightarrow> r_win s = r_win r \<and> r_dec50 s = r_dec50 r"

definition over_gap :: "env \<Rightarrow> reader \<Rightarrow> reader \<Rightarrow> nat \<Rightarrow> bool" where
  "over_gap E r s k \<longleftrightarrow> untouched r s
     \<and> (r_entry s = r_entry r \<and> e_src (r_heap s ! k) = None
        \<or> (\<exists>h. bl_rar4 h \<and> parseFileHeader (en_date E) h = (Some (e_Header (r_heap s ! k)), None)) \<and> fh_Method (e_Header (r_heap s ! k)) = 0)"

lemma marked_already: "win_incomplete (r_win r) \<Longrightarrow> markIncomplete r = r"
  by (cases r, cases "r_win r") (simp add: markIncomplete_def win_MarkIncomplete_def)

lemma untouched_later: "untouched r s \<Longrightarrow> r_entry s = r_entry r \<Longrightarrow> over_gap E s t k \<Longrightarrow> over_gap E r t k"
  by (simp add: untouched_def over_gap_def)

lemma nextBlock_untouched:
  assumes b: "nextBlock E r = Some (x, s)" and go: "\<And>e. x \<noteq> Inl (Some e)"
  shows "untouched r s \<and> r_entry s = r_entry r"
proof (cases "r_staged r")
  case (Some h)
  then show ?thesis using b by (auto simp: nextBlock_def untouched_def)
next
  case None
  obtain e t where t: "(if f_vol (r_feed r) = None then r_openNextVolume E r else Some (None, r)) = Some (e, t)"
    using b None by (auto simp: nextBlock_def bind_eq_Some_conv)
  have u: "untouched r t" "r_entry t = r_entry r"
    using t by (auto simp: r_openNextVolume_def bind_eq_Some_conv untouched_def split: if_splits)
  have "e = None"
  proof (rule ccontr)
    assume "e \<noteq> None"
    then have "\<exists>y. x = Inl (Some y)" using b t by (auto simp: nextBlock_def None Let_def split: if_splits)
    then show False using go by blast
  qed
  then obtain y v where v: "r_nextHeader E t = Some (y, v)"
    and x: "(x, s) = (case y of Inr h \<Rightarrow> (Inr h, v) | Inl err \<Rightarrow> if err_is err EOF \<or> err_is err ErrUnexpectedEOF
      then (Inl None, r_closeCurrentVolume E (if err_is err EOF then v else v\<lparr>r_feed := (r_feed v)\<lparr>f_damaged := Some err\<rparr>\<rparr>))
      else (Inl (Some err), v))"
    using b t by (auto simp: nextBlock_def None bind_eq_Some_conv)
  have "untouched t v" "r_entry v = r_entry t"
    using v by (auto simp: r_nextHeader_def bind_eq_Some_conv untouched_def split: option.splits)
  then show ?thesis
    using x go u by (cases y) (auto simp: untouched_def r_closeCurrentVolume_def split: if_splits)
qed

lemma handleNonFileBlock_untouched: "handleNonFileBlock E h r = (e, s) \<Longrightarrow> untouched r s \<and> r_entry s = r_entry r"
  by (auto simp: handleNonFileBlock_def handleArchive_def armHeaderDecryption_def resolveHeaderPassword_def resolve_with_def
      handleEnd_def r_closeCurrentVolume_def untouched_def Let_def split: if_splits sum.splits option.splits prod.splits)

lemma refuse_over_gap: "refuse fh e r = (Member k, s) \<Longrightarrow> over_gap E r s k"
  by (auto simp: refuse_def announce_def over_gap_def untouched_def terminalEntry_def)

lemma buildChain_untouched: "buildChain E fh x r = (y, s) \<Longrightarrow> fh_Method fh = 0 \<or> (\<exists>e. y = Inl e) \<Longrightarrow> untouched r s \<and> r_entry s = r_entry r"
  by (auto simp: buildChain_def resolvePassword_def resolve_with_def untouched_def split: if_splits sum.splits prod.splits option.splits)

lemma sizeWindow_untouched: "sizeWindow E fh r = (e, s) \<Longrightarrow> fh_Solid fh \<Longrightarrow> untouched r s \<and> r_entry s = r_entry r"
  by (auto simp: sizeWindow_def untouched_def Let_def split: if_splits prod.splits option.splits)

lemma admitMember_over_gap:
  assumes "admitMember E h fh r = (Member k, s)" and "win_incomplete (r_win r)" and "fh_Solid fh"
    and "bl_rar4 h \<Longrightarrow> fh_Method fh = 0 \<and> parseFileHeader (en_date E) h = (Some fh, None)"
  shows "over_gap E r s k"
proof (cases "bomb fh")
  case True
  then show ?thesis using assms(1) refuse_over_gap by (simp add: admitMember_def marked_already [OF assms(2)])
next
  case False
  obtain e t where t: "sizeWindow E fh r = (e, t)" by fastforce
  note u = sizeWindow_untouched [OF t assms(3)]
  have inc: "win_incomplete (r_win t)" using u assms(2) by (simp add: untouched_def)
  have refused: "over_gap E r s k" if "refuse fh err t = (Member k, s)" for err
    using u untouched_later refuse_over_gap [OF that] by blast
  show ?thesis
  proof (cases "e = None \<and> bl_rar4 h")
    case True
    obtain j where j: "f_vol (r_feed t) = Some j" using assms(1) False True t by (auto simp: admitMember_def Let_def split: option.splits)
    obtain y v where y: "buildChain E fh \<lparr>ss_e = length (r_heap t), ss_src = j\<rparr> t = (y, v)" by fastforce
    have tt: "t\<lparr>r_win := r_win t\<rparr> = t" by simp
    have v: "untouched t v" "r_entry v = r_entry t" using buildChain_untouched [OF y] assms(4) True by simp_all
    have "over_gap E t s k"
    proof (cases y)
      case (Inl err)
      then have "refuse fh err (markIncomplete v) = (Member k, s)" using assms(1) False True t j y by (simp add: admitMember_def Let_def)
      moreover have "markIncomplete v = v" using v(1) inc by (intro marked_already) (simp add: untouched_def)
      ultimately show ?thesis using untouched_later [OF v] refuse_over_gap by metis
    next
      case (Inr src)
      then have "k = length (r_heap t)" "s = v\<lparr>r_heap := r_heap v @ [e_setSource src (newEntry fh None (Some (f_done (r_feed t))))], r_entry := Some k\<rparr>"
        using assms(1) False True t j y by (auto simp: admitMember_def Let_def)
      moreover have "r_heap v = r_heap t" using y by (auto simp: buildChain_def resolvePassword_def resolve_with_def split: if_splits sum.splits prod.splits option.splits)
      ultimately show ?thesis using v(1) assms(4) True by (auto simp: over_gap_def untouched_def e_setSource_def newEntry_def)
    qed
    then show ?thesis using u untouched_later by blast
  next
    case no: False
    then have "\<exists>err. refuse fh err t = (Member k, s)"
      using assms(1,3) False t inc marked_already [OF inc]
      by (cases e) (auto simp: admitMember_def win_BeginFile_def)
    then show ?thesis using refused by blast
  qed
qed

lemma admitMember_header:
  assumes "admitMember E h fh r = (Member k, s)"
  shows "e_Header (r_heap s ! k) = fh"
proof -
  have "r_heap v = r_heap t" if "buildChain E fh x t = (y, v)" for x t y v
    using that by (auto simp: buildChain_def resolvePassword_def resolve_with_def split: if_splits sum.splits prod.splits option.splits)
  then show ?thesis
    using assms
    by (auto simp: admitMember_def refuse_def announce_def terminalEntry_def e_setSource_def newEntry_def Let_def
        split: if_splits prod.splits option.splits sum.splits)
qed

lemma admitMember_not_Nothing: "admitMember E h fh r \<noteq> (Nothing, s)"
  by (auto simp: admitMember_def refuse_def announce_def Let_def split: if_splits prod.splits option.splits sum.splits)

lemma readLink_over_gap:
  assumes "readLink E h fh r = Some (x, s)"
  shows "x = Inl (Member k) \<Longrightarrow> over_gap E r s k" and "x \<noteq> Inl Nothing"
    and "x = Inr fh2 \<Longrightarrow> fh_LinkType fh2 \<noteq> LinkNone \<and> untouched r s \<and> r_entry s = r_entry r \<or> fh2 = fh \<and> s = r"
  using assms
  by (auto simp: readLink_def readLinkTarget4_def refuse_def announce_def terminalEntry_def over_gap_def untouched_def
      r_isClosed_def bind_eq_Some_conv Let_def split: if_splits option.splits prod.splits)

lemma dispatchFile_over_gap:
  assumes d: "dispatchFile E h fh r = Some (x, s)" and inc: "win_incomplete (r_win r)"
    and parse: "parseFileHeader (en_date E) h = (Some fh, None)"
  shows "x = Nothing \<Longrightarrow> untouched r s \<and> r_entry s = r_entry r"
    and "x = Member k \<Longrightarrow> fh_Solid (e_Header (r_heap s ! k)) \<Longrightarrow> over_gap E r s k"
proof -
  note same = marked_already [OF inc]
  consider (out) "\<not> fh_FirstBlock fh \<or> r_listing r \<or> admitFormat h fh \<noteq> None \<or> fh_Solid fh \<and> \<not> r_solid r"
    | (link) y t where "readLink E h fh r = Some (y, t)" "admitFormat h fh = None"
        "Some (x, s) = (case y of Inl x \<Rightarrow> Some (x, t)
           | Inr fh \<Rightarrow> if fh_LinkType fh \<noteq> LinkNone then Some (announce (linkEntry fh (Some (f_done (r_feed t)))) t)
                      else Some (admitMember E h fh t))"
    using d by (auto simp: dispatchFile_def bind_eq_Some_conv split: if_splits option.splits)
  then have "(x = Nothing \<longrightarrow> untouched r s \<and> r_entry s = r_entry r)
      \<and> (x = Member k \<and> fh_Solid (e_Header (r_heap s ! k)) \<longrightarrow> over_gap E r s k)"
  proof cases
    case out
    then have "x = Nothing \<and> s = r \<or> (\<exists>e. refuse fh e r = (x, s))"
      using d by (auto simp: dispatchFile_def same split: if_splits option.splits)
    then show ?thesis using refuse_over_gap by (auto simp: untouched_def refuse_def announce_def)
  next
    case (link y t)
    note L = readLink_over_gap [OF link(1)]
    show ?thesis
    proof (cases y)
      case (Inl z)
      then show ?thesis using link(3) L(1,2) by auto
    next
      case (Inr fh2)
      show ?thesis
      proof (cases "fh_LinkType fh2 = LinkNone")
        case False
        then show ?thesis
          using Inr link(3) L(3) by (auto simp: announce_def linkEntry_def over_gap_def untouched_def)
      next
        case True
        then have a: "admitMember E h fh r = (x, s)" using Inr link(3) L(3) [OF Inr] by auto
        have "over_gap E r s k" if "x = Member k" "fh_Solid (e_Header (r_heap s ! k))"
          using admitMember_over_gap [OF a [unfolded that(1)] inc] that admitMember_header [OF a [unfolded that(1)]] link(2) parse
          by (auto simp: admitFormat_def split: if_splits)
        then show ?thesis using a admitMember_not_Nothing by auto
      qed
    qed
  qed
  then show "x = Nothing \<Longrightarrow> untouched r s \<and> r_entry s = r_entry r"
    and "x = Member k \<Longrightarrow> fh_Solid (e_Header (r_heap s ! k)) \<Longrightarrow> over_gap E r s k" by blast+
qed

lemma parseFileHeader_some: "parseFileHeader date h \<noteq> (None, None)"
proof (cases "bl_rar4 h")
  case True
  have "fileTail4 flags bs fh \<noteq> (None, None)" for flags bs fh by (simp add: fileTail4_def Let_def split: sum.split)
  then show ?thesis using True by (simp add: parseFileHeader_def parseFileHeader4_def Let_def)
qed (simp add: parseFileHeader_def split: sum.split prod.split)

lemma dispatch_over_gap:
  assumes d: "dispatch E h r = Some (x, s)" and inc: "win_incomplete (r_win r)"
  shows "x = Nothing \<Longrightarrow> untouched r s \<and> r_entry s = r_entry r"
    and "x = Member k \<Longrightarrow> fh_Solid (e_Header (r_heap s ! k)) \<Longrightarrow> over_gap E r s k"
proof -
  define u where "u = r\<lparr>r_fileSeen := True\<rparr>"
  have u: "untouched r u" "r_entry u = r_entry r" "win_incomplete (r_win u)" using inc by (simp_all add: u_def untouched_def)
  note same = marked_already [OF u(3)]
  consider (other) e where "handleNonFileBlock E h r = (e, s)" "x = (case e of None \<Rightarrow> Nothing | Some err \<Rightarrow> Fail err)"
    | (skip) "x = Nothing" "s = u" | (stop) err where "x = Fail err"
    | (bad) fh err where "refuse fh err u = (x, s)"
    | (good) fh where "parseFileHeader (en_date E) h = (Some fh, None)" "dispatchFile E h fh u = Some (x, s)"
    | (nil) "parseFileHeader (en_date E) h = (None, None)"
    using d by (auto simp: dispatch_def Let_def u_def [symmetric] same split: if_splits option.splits prod.splits)
  then have "(x = Nothing \<longrightarrow> untouched r s \<and> r_entry s = r_entry r)
      \<and> (x = Member k \<and> fh_Solid (e_Header (r_heap s ! k)) \<longrightarrow> over_gap E r s k)"
  proof cases
    case other
    then show ?thesis using handleNonFileBlock_untouched by (auto split: option.splits)
  next
    case bad
    then have "x = Member k \<Longrightarrow> over_gap E u s k" using refuse_over_gap by simp
    then show ?thesis using bad untouched_later [OF u(1,2)] by (auto simp: refuse_def announce_def)
  next
    case good
    note D = dispatchFile_over_gap [OF good(2) u(3) good(1)]
    show ?thesis using D untouched_later [OF u(1,2)] u by (auto simp: untouched_def)
  next
    case nil
    then show ?thesis using parseFileHeader_some by simp
  qed (use u in auto)
  then show "x = Nothing \<Longrightarrow> untouched r s \<and> r_entry s = r_entry r"
    and "x = Member k \<Longrightarrow> fh_Solid (e_Header (r_heap s ! k)) \<Longrightarrow> over_gap E r s k" by blast+
qed

lemma nextEntry_loop_over_gap:
  assumes "nextEntry_loop E r = Some y"
  shows "y = (Member k, s) \<longrightarrow> win_incomplete (r_win r) \<longrightarrow> fh_Solid (e_Header (r_heap s ! k)) \<longrightarrow> over_gap E r s k"
proof (rule nextEntry_loop.raw_induct [where P = "\<lambda>E r y. y = (Member k, s) \<longrightarrow> win_incomplete (r_win r)
      \<longrightarrow> fh_Solid (e_Header (r_heap s ! k)) \<longrightarrow> over_gap E r s k", OF _ assms])
  fix loop E r y
  assume IH: "\<And>E r y. loop E r = Some y \<Longrightarrow> y = (Member k, s) \<longrightarrow> win_incomplete (r_win r)
      \<longrightarrow> fh_Solid (e_Header (r_heap s ! k)) \<longrightarrow> over_gap E r s k"
    and body: "Option.bind (nextBlock E r) (\<lambda>(x, r). case x of
        Inl None \<Rightarrow> loop E r
      | Inl (Some err) \<Rightarrow> Some (Fail err, r)
      | Inr h \<Rightarrow> Option.bind (dispatch E h r) (\<lambda>(x, r). if x = Nothing then loop E r else Some (x, r))) = Some y"
  from body obtain x t where x: "nextBlock E r = Some (x, t)"
    and y: "(case x of Inl None \<Rightarrow> loop E t | Inl (Some err) \<Rightarrow> Some (Fail err, t)
        | Inr h \<Rightarrow> Option.bind (dispatch E h t) (\<lambda>(x, r). if x = Nothing then loop E r else Some (x, r))) = Some y"
    by (auto simp: bind_eq_Some_conv)
  show "y = (Member k, s) \<longrightarrow> win_incomplete (r_win r) \<longrightarrow> fh_Solid (e_Header (r_heap s ! k)) \<longrightarrow> over_gap E r s k"
  proof (intro impI)
    assume m: "y = (Member k, s)" "win_incomplete (r_win r)" "fh_Solid (e_Header (r_heap s ! k))"
    show "over_gap E r s k"
    proof (cases x)
      case (Inl e)
      then have e: "e = None" using y m(1) by (cases e) auto
      then have u: "untouched r t" "r_entry t = r_entry r" using nextBlock_untouched [OF x] Inl by simp_all
      have "loop E t = Some y" using y Inl e by simp
      then have "over_gap E t s k" using IH m u(1) by (simp add: untouched_def)
      then show ?thesis using untouched_later u by blast
    next
      case (Inr h)
      then have u: "untouched r t" "r_entry t = r_entry r" using nextBlock_untouched [OF x] by simp_all
      then have inc: "win_incomplete (r_win t)" using m(2) by (simp add: untouched_def)
      obtain z v where z: "dispatch E h t = Some (z, v)" "(if z = Nothing then loop E v else Some (z, v)) = Some y"
        using y Inr by (auto simp: bind_eq_Some_conv)
      note D = dispatch_over_gap [OF z(1) inc]
      have "over_gap E t s k"
      proof (cases "z = Nothing")
        case True
        then have v: "untouched t v" "r_entry v = r_entry t" using D(1) by simp_all
        then have "over_gap E v s k" using IH [of E v] z(2) True m inc by (simp add: untouched_def)
        then show ?thesis using untouched_later v by blast
      next
        case False
        then show ?thesis using D(2) z(2) m by auto
      qed
      then show ?thesis using untouched_later u by blast
    qed
  qed
qed

text \<open>C10. No solid member is decoded over a gap. When \<^verbatim>\<open>NextEntry\<close> has ended a member that was not
  delivered in full, or that failed (other than for want of a digest to compare), the window and
  the decoder stay as they are for as long as solid members follow. A solid member of a RAR5
  archive is refused, with an error and before its chain is built. If the scan hands out a solid
  member all the same, it is one without a source, refused or a link, or a stored one of a RAR
  1.5-4.x archive, which has no use for the window: in that format the code admits no other.\<close>

theorem solid_member_after_gap_refused:
  assumes "r_entry r = Some i" and "finishActive E r = Some s"
    and "e_short (r_heap s ! i) \<or> (\<exists>d. e_done (r_heap s ! i) = Some d \<and> \<not> err_is d EOF \<and> \<not> err_is d ErrChecksumUnsupported)"
  shows "(\<not> bl_rar4 h \<and> fh_Solid fh \<longrightarrow> (\<exists>err r'. admitMember E h fh s = (Member (length (r_heap s)), r') \<and> err \<noteq> EOF
          \<and> r_heap r' = r_heap s @ [terminalEntry fh err (Some (f_done (r_feed s)))]
          \<and> r_entry r' = r_entry s \<and> r_win r' = r_win s \<and> r_dec50 r' = r_dec50 s))
    \<and> (nextEntry E r = Some (Member k, r') \<and> fh_Solid (e_Header (r_heap r' ! k)) \<longrightarrow> over_gap E s r' k)"
proof (intro conjI impI)
  obtain t where t: "s = settle i t" using assms(1,2) by (auto simp: finishActive_def bind_eq_Some_conv split: if_splits)
  have "r_heap s = r_heap t" by (simp add: t settle_fields)
  then have inc: "win_incomplete (r_win s)"
    using assms(3) by (auto simp: t settle_def Let_def markIncomplete_def win_MarkIncomplete_def split: option.splits)
  show "over_gap E s r' k" if "nextEntry E r = Some (Member k, r') \<and> fh_Solid (e_Header (r_heap r' ! k))"
    using nextEntry_loop_over_gap [of E s _ k r'] that assms(2) inc by (simp add: nextEntry_def)
  assume a: "\<not> bl_rar4 h \<and> fh_Solid fh"
  obtain e u where u: "sizeWindow E fh s = (e, u)" by fastforce
  have "untouched s u" "r_entry u = r_entry s" using sizeWindow_untouched [OF u] a by simp_all
  moreover from this have "win_incomplete (r_win u)" using inc by (simp add: untouched_def)
  moreover have "r_heap u = r_heap s \<and> r_feed u = r_feed s" using u by (auto simp: sizeWindow_def Let_def split: if_splits prod.splits option.splits)
  ultimately show "\<exists>err r'. admitMember E h fh s = (Member (length (r_heap s)), r') \<and> err \<noteq> EOF
      \<and> r_heap r' = r_heap s @ [terminalEntry fh err (Some (f_done (r_feed s)))]
      \<and> r_entry r' = r_entry s \<and> r_win r' = r_win s \<and> r_dec50 r' = r_dec50 s"
    using a u inc sizeWindow_not_EOF [of E fh s "the e" u]
    by (cases e) (auto simp: admitMember_def win_BeginFile_def refuse_def announce_def marked_already untouched_def)
qed

theorem solid_member_after_gap_refused_witness:
  "\<exists>s err r'. finishActive sample_env sample_r1 = Some s
    \<and> admitMember sample_env (sample_h 2) (sample_part True\<lparr>fh_Solid := True\<rparr>) s = (Member 1, r') \<and> e_done (r_heap r' ! 1) = Some err \<and> err \<noteq> EOF"
proof -
  define s where "s = settle 0 (severActive sample_env sample_r1)"
  have "\<not> r_solid sample_r1" by (simp add: sample_r1_def sample_reader_def NewReader_def)
  then have s: "finishActive sample_env sample_r1 = Some s" by (simp add: finishActive_def sample_fields s_def)
  have h: "r_heap s = [e_sever False sample_entry]"
    by (simp add: s_def settle_fields severActive_def sample_fields sample_isClosed heap_upd_def)
  have "e_short (r_heap s ! 0)" by (simp add: h e_short_def e_sever_fields sample_entry_fields)
  then show ?thesis
    using solid_member_after_gap_refused [OF sample_fields(9) s, of "sample_h 2" "sample_part True\<lparr>fh_Solid := True\<rparr>" 0 s] s h
    by (auto simp: sample_h_def terminalEntry_def)
qed

text \<open>The window grows only as far as the caller allowed. Admitting a member leaves a window no larger
  than it was or than the cap of this archive, which is what \<^verbatim>\<open>SetMaxWindow\<close> said when its first
  member was admitted; within the cap it has room for the declared dictionary; and the window of
  a solid member is left alone.\<close>

theorem window_growth_capped:
  assumes "sizeWindow E fh r = (e, s)" and "cap = (if r_capLatched r then r_archiveMax r else r_maxWindow r)"
  shows "win_size (r_win s) \<le> max (win_size (r_win r)) (nat cap)
    \<and> (e = None \<and> 0 < fh_DictSize fh \<and> fh_Method fh \<noteq> 0 \<and> \<not> fh_Solid fh \<longrightarrow> min (fh_DictSize fh) cap \<le> int (win_size (r_win s)))
    \<and> (fh_Solid fh \<longrightarrow> r_win s = r_win r)
    \<and> (r_capLatched r \<longrightarrow> r_capLatched s \<and> r_archiveMax s = r_archiveMax r)"
  using assms
  by (auto simp: sizeWindow_def win_grow_def win_Reset_def Let_def min_def split: if_splits prod.splits sum.splits option.splits)

theorem window_growth_capped_witness:
  "int (win_size (r_win (snd (sizeWindow sample_env (sample_part True\<lparr>fh_Method := 3, fh_DictSize := 2 ^ 30\<rparr>)
      (r_SetMaxWindow (2 ^ 20) sample_reader))))) = 2 ^ 20"
proof -
  let ?r = "r_SetMaxWindow (2 ^ 20) sample_reader" and ?fh = "sample_part True\<lparr>fh_Method := 3, fh_DictSize := 2 ^ 30\<rparr>"
  have r: "\<not> r_capLatched ?r" "r_maxWindow ?r = 2 ^ 20" "win_size (r_win ?r) = 262144" "\<not> fh_Solid ?fh"
    by (simp_all add: r_SetMaxWindow_def sample_reader_def NewReader_def newWindow_def minWindowSize_def Let_def sample_part_def FileHeader_zero_def)
  obtain e s where s: "sizeWindow sample_env ?fh ?r = (e, s)" by fastforce
  have "e = None" using s r by (auto simp: sizeWindow_def win_grow_def sample_env_def Let_def split: if_splits prod.splits)
  then show ?thesis using window_growth_capped [OF s refl] s r by simp
qed

text \<open>C15. A password is settled only by a proof. The password for a member is the one settled before, or
  the first candidate when the member carries no check value, and then nothing is settled; otherwise it
  is a candidate that the check value verified, and this one is settled for the archive. Without
  a candidate, or when none of them verifies, the member fails and nothing is settled.\<close>

theorem password_settled_by_proof:
  "case resolvePassword E fh r of
     (Inr p, r') \<Rightarrow> (r_resolved r = Some p \<and> r' = r)
        \<or> (r_resolved r = None \<and> fh_EncCheck fh = [] \<and> p = hd (r_passwords r) \<and> r_passwords r \<noteq> [] \<and> r' = r)
        \<or> (r_resolved r = None \<and> p \<in> set (r_passwords r) \<and> (\<exists>h. verifyFileHeaderPassword (en_hmac E) fh p = (True, h, None))
             \<and> r' = r\<lparr>r_resolved := Some p\<rparr>)
   | (Inl e, r') \<Rightarrow> r' = r \<and> r_resolved r = None
        \<and> \<not> (\<exists>p h. p \<in> set (r_passwords r) \<and> verifyFileHeaderPassword (en_hmac E) fh p = (True, h, None)
               \<and> (e = ErrWrongPassword \<or> e = ErrPasswordRequired))"
proof -
  let ?verify = "verifyFileHeaderPassword (en_hmac E) fh"
  have found: "p \<in> set ps \<and> (\<exists>h. verify p = (True, h, None))" if "password_scan verify ps = Inr p"
    for verify :: "byte list \<Rightarrow> bool \<times> bool \<times> err option" and p ps
    using that by (induction ps) (auto split: prod.splits option.splits if_splits)
  have failed: "\<exists>q a b. verify q = (a, b, Some e) \<and> \<not> err_is e ErrPasswordRequired"
    if "password_scan verify ps = Inl e" "p \<in> set ps" "verify p = (True, h, None)"
    for verify :: "byte list \<Rightarrow> bool \<times> bool \<times> err option" and p ps e h
    using that by (induction ps) (auto split: prod.splits option.splits if_splits)
  have errors: "e \<noteq> ErrWrongPassword \<and> e \<noteq> ErrPasswordRequired" if "?verify q = (a, b, Some e)" "\<not> err_is e ErrPasswordRequired" for q a b e
    using that by (auto simp: verifyFileHeaderPassword_def verifyPasswordCheck_def verifyEncCheck_def errKdfCountExceeded_def
        split: if_splits option.splits)
  show ?thesis
  proof (cases "r_resolved r = None \<and> r_passwords r \<noteq> [] \<and> fh_EncCheck fh \<noteq> []")
    case False
    then show ?thesis by (auto simp: resolvePassword_def resolve_with_def split: option.split)
  next
    case True
    show ?thesis
    proof (cases "password_scan ?verify (r_passwords r)")
      case (Inl e)
      then have "\<not> (\<exists>p h. p \<in> set (r_passwords r) \<and> ?verify p = (True, h, None) \<and> (e = ErrWrongPassword \<or> e = ErrPasswordRequired))"
        using failed [OF Inl] errors by blast
      then show ?thesis using True Inl by (simp add: resolvePassword_def resolve_with_def)
    next
      case (Inr p)
      then show ?thesis using True found [OF Inr] by (simp add: resolvePassword_def resolve_with_def)
    qed
  qed
qed

subsection \<open>The parts of a member\<close>

definition same_member :: "FileHeader \<Rightarrow> FileHeader \<Rightarrow> bool" where
  "same_member a b \<longleftrightarrow> fh_Encrypted a = fh_Encrypted b \<and> fh_Name a = fh_Name b \<and> fh_Method a = fh_Method b
     \<and> fh_UnpackVersion a = fh_UnpackVersion b \<and> fh_Solid a = fh_Solid b \<and> fh_DictSize a = fh_DictSize b
     \<and> fh_UnpackedSize a = fh_UnpackedSize b"

lemma continuation_of_Part: "continuation_of d first h = Part fh \<Longrightarrow> \<not> fh_FirstBlock fh \<and> same_member fh first"
  by (auto simp: continuation_of_def same_member_def Let_def split: prod.splits option.splits if_splits)

lemma heap_same:
  "r_nextHeader E r = Some (x, s) \<Longrightarrow> r_heap s = r_heap r" "r_openNextVolume E r = Some (y, s) \<Longrightarrow> r_heap s = r_heap r"
  "r_heap (r_closeCurrentVolume E r) = r_heap r" "handleNonFileBlock E h r = (z, s) \<Longrightarrow> r_heap s = r_heap r"
  by (auto simp: r_nextHeader_def r_openNextVolume_def r_closeCurrentVolume_def handleNonFileBlock_def handleArchive_def
      armHeaderDecryption_def resolveHeaderPassword_def handleEnd_def Let_def bind_eq_Some_conv dest!: resolve_with_ok
      split: option.splits sum.splits prod.splits if_splits)

definition moved_on :: "nat \<Rightarrow> reader \<Rightarrow> (err + nat) \<times> reader \<Rightarrow> bool" where
  "moved_on i r y \<longleftrightarrow> (\<forall>j r'. y = (Inr j, r') \<longrightarrow> j = the (f_vol (r_feed r'))
     \<and> (\<exists>fh. \<not> fh_FirstBlock fh \<and> same_member fh (e_Header (r_heap r ! i))
          \<and> r_heap r' = (r_heap r)[i := e_advanceVolume fh (r_heap r ! i)]))"

lemma moved_on_same: "moved_on i s y \<Longrightarrow> r_heap s = r_heap r \<Longrightarrow> moved_on i r y"
  by (simp add: moved_on_def)

lemma moved_on_Inl [simp]: "moved_on i r (Inl e, r')"
  by (simp add: moved_on_def)

lemma nextPayload_loop_part:
  assumes "nextPayload_loop E i r = Some y"
  shows "moved_on i r y"
proof (rule nextPayload_loop.raw_induct [where P = "\<lambda>E i r y. moved_on i r y", OF _ assms])
  fix f E i r y
  assume IH: "\<And>E i r y. f E i r = Some y \<Longrightarrow> moved_on i r y" and body: "Option.bind (r_nextHeader E r) (\<lambda>(x, r). case x of
        Inl err \<Rightarrow>
          if err_is err EOF \<or> err_is err ErrUnexpectedEOF
          then Option.bind
                 (r_openNextVolume E (r_closeCurrentVolume E
                    (if err_is err EOF then r else r\<lparr>r_feed := (r_feed r)\<lparr>f_damaged := Some err\<rparr>\<rparr>)))
                 (\<lambda>(e, r). case e of
                    Some verr \<Rightarrow> Some (Inl verr, latchArchive E verr r)
                  | None \<Rightarrow> f E i r)
          else Some (Inl err, latchArchive E err r)
      | Inr h \<Rightarrow>
          if bl_Type h \<noteq> headerTypeFile
          then (case handleNonFileBlock E h r of
                  (Some err, r) \<Rightarrow> Some (Inl err, latchArchive E err r)
                | (None, r) \<Rightarrow>
                    if f_vol (r_feed r) = None
                    then Option.bind (r_openNextVolume E r) (\<lambda>(e, r). case e of
                           Some verr \<Rightarrow> Some (Inl verr, latchArchive E verr r)
                         | None \<Rightarrow> f E i r)
                    else f E i r)
          else (case continuation_of (en_date E) (e_Header (r_heap r ! i)) h of
                  NewMember \<Rightarrow> Some (Inl EOF, r\<lparr>r_staged := Some h\<rparr>)
                | BadPart err \<Rightarrow> Some (Inl err, r)
                | Part fh \<Rightarrow> Some (Inr (the (f_vol (r_feed r))), heap_upd i (e_advanceVolume fh) r))) = Some y"
  have part: "moved_on i r (Inr (the (f_vol (r_feed s))), heap_upd i (e_advanceVolume fh) s)"
    if "continuation_of (en_date E) (e_Header (r_heap s ! i)) h = Part fh" "r_heap s = r_heap r" for s fh h
    using continuation_of_Part [OF that(1)] that(2) by (auto simp: moved_on_def heap_upd_def)
  have again: "moved_on i r y" if "f E i s = Some y" "r_heap s = r_heap r" for s
    using moved_on_same [OF IH [OF that(1)] that(2)] .
  obtain x s where x: "r_nextHeader E r = Some (x, s)"
    using body by (cases "r_nextHeader E r") auto
  note s = heap_same(1) [OF x]
  show "moved_on i r y"
  proof (cases x)
    case (Inl err)
    let ?c = "r_closeCurrentVolume E (if err_is err EOF then s else s\<lparr>r_feed := (r_feed s)\<lparr>f_damaged := Some err\<rparr>\<rparr>)"
    have c: "r_heap ?c = r_heap r" using s by (simp add: heap_same(3))
    show ?thesis
    proof (cases "err_is err EOF \<or> err_is err ErrUnexpectedEOF")
      case False
      then show ?thesis using body x Inl by auto
    next
      case True
      then have b: "Option.bind (r_openNextVolume E ?c) (\<lambda>(e, r). case e of
             Some verr \<Rightarrow> Some (Inl verr, latchArchive E verr r) | None \<Rightarrow> f E i r) = Some y"
        using body by (simp only: x Inl bind.simps prod.case sum.case if_True)
      then obtain e t where t: "r_openNextVolume E ?c = Some (e, t)" by (cases "r_openNextVolume E ?c") auto
      show ?thesis using b t again [of t] heap_same(2) [OF t] c by (cases e) auto
    qed
  next
    case (Inr h)
    obtain z t where z: "handleNonFileBlock E h s = (z, t)" by fastforce
    note t = heap_same(4) [OF z]
    show ?thesis
    proof (cases "bl_Type h = headerTypeFile")
      case True
      then have "(case continuation_of (en_date E) (e_Header (r_heap s ! i)) h of
                  NewMember \<Rightarrow> Some (Inl EOF, s\<lparr>r_staged := Some h\<rparr>)
                | BadPart err \<Rightarrow> Some (Inl err, s)
                | Part fh \<Rightarrow> Some (Inr (the (f_vol (r_feed s))), heap_upd i (e_advanceVolume fh) s)) = Some y"
        using body by (simp add: x Inr)
      then show ?thesis using part [OF _ s] by (auto split: continuation.splits)
    next
      case False
      then have b: "(case z of Some err \<Rightarrow> Some (Inl err, latchArchive E err t)
                | None \<Rightarrow> if f_vol (r_feed t) = None
                    then Option.bind (r_openNextVolume E t) (\<lambda>(e, r). case e of
                           Some verr \<Rightarrow> Some (Inl verr, latchArchive E verr r)
                         | None \<Rightarrow> f E i r)
                    else f E i t) = Some y"
        using body by (cases z) (simp_all add: x Inr z)
      show ?thesis
      proof (cases z)
        case (Some err)
        then show ?thesis using b by auto
      next
        case None
        show ?thesis
        proof (cases "f_vol (r_feed t) = None")
          case False
          then have "f E i t = Some y" using b None by auto
          then show ?thesis using again s t by simp
        next
          case True
          then obtain e u where u: "r_openNextVolume E t = Some (e, u)" using b None by (cases "r_openNextVolume E t") auto
          then show ?thesis using b None True again [of u] heap_same(2) [OF u] s t by (cases e) auto
        qed
      qed
    qed
  qed
qed

lemma nextVolumePayload_part: "nextVolumePayload E i r = Some y \<Longrightarrow> moved_on i r y"
  by (auto simp: nextVolumePayload_def bind_eq_Some_conv split: option.splits
      intro: moved_on_same [OF nextPayload_loop_part heap_same(2)])

text \<open>C4. A member is continued only by its own parts. Moving on to the next volume always comes back. When it
  succeeds, the volume it reads from next is the open one, less is left to read than before, and
  the block it stands at is a continuation with the name, the method, the version, the solid
  flag, the dictionary, the declared size and the encryption of the member as it was announced;
  the fields of the entry are otherwise the same, and no other entry is touched.\<close>

theorem splice_continues_same_member:
  assumes "close_ok (en_close E)" and "feed_idle (r_feed r)" and "r_entry r = Some i"
  shows "\<exists>x r'. nextVolumePayload E i r = Some (x, r')
    \<and> (\<forall>j. x = Inr j \<longrightarrow> f_vol (r_feed r') = Some j \<and> f_left (r_feed r') < f_left (r_feed r)
         \<and> (\<exists>fh. \<not> fh_FirstBlock fh \<and> same_member fh (e_Header (r_heap r ! i))
              \<and> r_heap r' = (r_heap r)[i := e_advanceVolume fh (r_heap r ! i)]))"
proof -
  obtain x r' where y: "nextVolumePayload E i r = Some (x, r')" "next_part r x r'"
    using nextVolumePayload_ok [OF assms] by (auto simp: returns_def)
  then show ?thesis using nextVolumePayload_part [OF y(1)] by (auto simp: next_part_def moved_on_def)
qed

theorem splice_continues_same_member_witness:
  "\<exists>fh r'. nextVolumePayload sample_env 0 sample_r2 = Some (Inr 1, r') \<and> f_vol (r_feed r') = Some 1
    \<and> same_member fh (sample_part True) \<and> \<not> fh_FirstBlock fh \<and> r_heap r' ! 0 = e_advanceVolume fh (r_heap sample_r2 ! 0)"
proof -
  have ok: "close_ok (en_close sample_env)" "feed_idle (r_feed sample_r2)" "r_entry sample_r2 = Some 0"
    using sample_env_ok reader_run_ok [OF sample_run2 sample_env_ok]
    by (simp_all add: env_ok_def reader_ok_def sample_fields sample_r2_def)
  have h: "r_heap sample_r2 = [sample_e2]" "e_Header sample_e2 = sample_part True"
    by (simp_all add: sample_r2_def sample_e2_def sample_entry_fields)
  show ?thesis using splice_continues_same_member [OF ok] h by (auto simp: sample_turn)
qed

end
