(* ===== verification/Spec2Isabelle.thy ===== *)
theory Spec2Isabelle
  imports Vint Members Inspect Guarantees
begin

text \<open>
  A model of \<^verbatim>\<open>rarengine\<close>, a streaming reader of RAR archives written in Go: it takes the volumes of
  a set from a channel, announces their members one by one, and gives each member's bytes as a
  stream, decrypted, decoded and checked. RAR5 is read in full, RAR 1.5-4.x as far as stored
  members go. The model is a shallow embedding: one definition per function of the code, under
  its name, state passed explicitly, errors as values. All paths are under \<^verbatim>\<open>src/\<close>.

  \<^bold>\<open>The parts and how they interact.\<close>

  \<^descr> Shared: \<open>Prelude\<close> (machine integers as words, \<^verbatim>\<open>errors.go\<close> as the datatype \<open>err\<close> with
    \<^verbatim>\<open>errors.Is\<close> as \<open>err_is\<close>, byte order, bit lists, an \<^verbatim>\<open>io.Reader\<close> as its data and the error at its
    end), \<open>Interfaces\<close> (the locales \<open>bit_source\<close>, \<open>sliding_window\<close> and \<open>full_source\<close>), \<open>Sources\<close> and \<open>Draining\<close>
    (the locales \<open>byte_source\<close> and \<open>draining_source\<close>, the loops of package \<^verbatim>\<open>io\<close>), \<open>Go_Std\<close> (what is used of
    \<^verbatim>\<open>hash/crc32\<close>, \<^verbatim>\<open>path\<close>, \<^verbatim>\<open>strings\<close>, \<^verbatim>\<open>unicode\<close>, \<^verbatim>\<open>time\<close>).

  \<^descr> Headers: \<open>Vint\<close> (\<^verbatim>\<open>vint.go\<close>), \<open>Header_Types\<close> and \<open>Header\<close> (\<^verbatim>\<open>header.go\<close>), \<open>Header4\<close> (\<^verbatim>\<open>header4.go\<close>).
    A block header is read off a stream, checked, and parsed into an archive or file header.

  \<^descr> Decoding: \<open>Bit_Reader\<close> (\<^verbatim>\<open>bit_reader.go\<close>), \<open>Huffman\<close> (\<^verbatim>\<open>huffman.go\<close>), \<open>Items\<close> (\<^verbatim>\<open>decoder50_items.go\<close>),
    \<open>Window\<close> (\<^verbatim>\<open>window.go\<close>), \<open>Filters\<close> (\<^verbatim>\<open>filters.go\<close>), \<open>Decoder\<close> (\<^verbatim>\<open>decoder50.go\<close>). The decoder reads blocks
    from its source with \<^verbatim>\<open>io.ReadFull\<close>, decodes symbols through the Huffman tables, writes literals
    and copies to the window, queues filters, and gives the window's bytes.

  \<^descr> Decoding with workers: \<open>Pipeline\<close> (\<^verbatim>\<open>decoder50_parallel.go\<close>). Blocks are read ahead into a ring,
    workers turn them into items, the traversal replays the items.

  \<^descr> Checks: \<open>Blake2sp\<close> (\<^verbatim>\<open>blake2sp.go\<close>) and \<open>Crypto\<close> (\<^verbatim>\<open>crypto.go\<close>, \<^verbatim>\<open>header_crypt.go\<close>,
    \<^verbatim>\<open>verify_password.go\<close>).

  \<^descr> The Reader: \<open>Entry\<close> (\<^verbatim>\<open>entry.go\<close>), \<open>Volume\<close> (\<^verbatim>\<open>volume.go\<close>), \<open>Feed\<close> (the volumes part of
    \<^verbatim>\<open>reader.go\<close>), \<open>Reader\<close> (its state, passwords, admission), \<open>Splice\<close> (\<^verbatim>\<open>splice.go\<close>, and
    \<^verbatim>\<open>Entry.Read\<close> and \<^verbatim>\<open>Entry.Close\<close> over the whole chain), \<open>Traversal\<close> (\<^verbatim>\<open>NextEntry\<close>, \<^verbatim>\<open>Reset\<close>, \<^verbatim>\<open>Close\<close>).
    Entries live in a heap (\<open>r_heap\<close>) and pointers to them and to volumes are indices, because the
    caller, the Reader and the splice hold the same objects and change them under each other.

  \<^descr> Questions without a traversal: \<open>Inspect\<close> (\<^verbatim>\<open>inspect.go\<close>, \<^verbatim>\<open>list.go\<close>).

  \<^bold>\<open>Concurrency.\<close> \<^verbatim>\<open>Close\<close> may come from another goroutine at any time. \<open>f_sched\<close> says at which of
  the points where the traversal can notice it does; every statement about the Reader is for all
  schedules. Which case a \<^verbatim>\<open>select\<close> takes is the list \<open>f_picks\<close>. In the pipeline, \<open>bp_events\<close> says
  which jobs the workers have completed, and whether the pipeline was stopped, each time the
  traversal submits a job or waits for one, and \<open>bp_picks\<close> decides its \<^verbatim>\<open>select\<close>s. A mutex is not
  modelled: each critical section is one step.

  \<^bold>\<open>What is proved.\<close>

  \<^item> Data: round trips of the integers, headers, encrypted headers and filters against writers
    defined here; Kraft's condition decides the Huffman tables and reading a codeword gives its
    symbol; a name that was sanitized is a walk from a root it cannot leave; BLAKE2sp, however
    the input is cut and with the strided path or without, is its byte-level definition; the
    key derivation is one chain; decryption does not depend on chunks.

  \<^item> The window is the list of bytes written (\<open>win_rel\<close>), a copy is the LZ77 copy on it, and a new
    member does not reach an old one's bytes. In every state the decoder can be in (\<open>dec_reachable\<close>)
    its invariant holds, filling returns, and a read keeps the contract of \<^verbatim>\<open>io.Reader\<close>.

  \<^item> Refinement of the parallel path: \<open>Worker\<close> shows that a worker's items replay as the serial
    decoder runs on the same block. \<open>Lockstep\<close>, \<open>Ahead\<close> and \<open>Parallel\<close> relate the serial decoder to the
    pipeline with its blocks in flight and show that filling is the same, call by call and byte
    by byte, under every schedule. The shared table sets are part of the model, so a set that
    were loaded while a block in flight needs it would show. \<open>Members\<close> follows the two from member
    to member: members may be left in the middle or fail, the number of workers may change, the
    workers may be stopped and started again (\<open>decodes\<close>), and the next member is the same on both
    sides when the tables in force agree, as they do behind a member decoded to its end, or when
    it brings its own. Behind a member left in the middle they need not agree, because the
    pipeline keeps what it has read ahead.

  \<^item> The Reader (\<open>Guarantees\<close>): for every state of \<open>reader_run\<close> (any calls in any order, any contents,
    any schedule) every call returns, but for the one nil pointer the code can meet (\<open>volume_lost\<close>);
    success of a member means that all its bytes and every recorded digest are right; each stream is closed once; a clean end is reported only at one;
    the splice continues a member only with its own continuation; no solid member is decoded
    behind a gap; failures of the archive stay. \<open>Refusals\<close> shows which errors can never be taken
    for \<^verbatim>\<open>io.EOF\<close>, on which the others rest. \<open>Sample\<close> is a small archive the statements are tried on.

  \<^item> \<open>Inspect\<close>: an answer of \<^verbatim>\<open>VerifyPassword\<close> is the answer of the first block that can give one; a
    stream \<^verbatim>\<open>VolumeNumber\<close> places later in a set is refused by a Reader that is given it first; a
    listing yields exactly the headers of the volume, in their order, and the error that stopped it
    unless that matches \<^verbatim>\<open>io.EOF\<close>, as it does for a cut volume whose end wraps it.

  \<^bold>\<open>Interfaces.\<close> Each locale is interpreted on the code's model where that is defined: \<open>bit_source\<close> by
  the bit reader, \<open>sliding_window\<close> by the window, \<open>byte_source\<close> by a stream, a limited reader, a
  volume's payload and decryption over one, \<open>full_source\<close> by \<^verbatim>\<open>io.ReadFull\<close> on these,
  \<open>draining_source\<close> by a payload and the chains over it. The decoder's statements are for every
  \<open>full_source\<close>, and the Reader uses them on the chain of the member.

  \<^bold>\<open>Loops.\<close> A loop that uses up a list, a counter or a stream is a terminating function (its
  measure is with it); one whose end depends on an invariant is a partial function into
  \<open>option\<close>, where \<open>None\<close> means that it does not return, and is proved to return under the invariant.
  The only fuel is in \<open>bp_readAhead\<close>: the free slots of the ring, of which every turn takes one or
  records an error, after which the loop stops. \<open>None\<close> in the pipeline also stands for the panic of
  \<^verbatim>\<open>freeTableSet\<close>, and the equivalence shows that it does not happen (\<open>begin_member\<close>).

  \<^bold>\<open>Parameters.\<close> AES on a block and HMAC-SHA256, \<^verbatim>\<open>time.Date\<close> in the machine's zone, the vector
  kernels of the filters and of the hash (with the scalar code as their contract), what a closed
  stream still gives, how \<^verbatim>\<open>Seek\<close> fails, the reservation and release of memory.

  \<^bold>\<open>Not modelled.\<close> The assembly and its generator, its dispatch, build guards and the platform's
  memory calls: they are the parameters above. The text of error messages. Buffers that hold
  nothing between calls. The Reader's traversal is composed with the serial decoder:
  \<^verbatim>\<open>SetWorkers\<close> chooses between it and the pipeline, which \<open>Members\<close> shows to be the same. Two workers
  racing on one job cannot happen and is not a step; a worker decodes a block in one step. The
  zero value of \<^verbatim>\<open>Entry\<close> (a nil header) is left out.
\<close>

end
